(* ===== verification/HK_Prelude.thy ===== *)
theory HK_Prelude
  imports Main "HOL-Library.Word" "HOL-Library.Product_Lexorder"
begin

text \<open>
  Shared vocabulary of the development: the outcome of a fallible Rust call, machine
  integers with Rust's checked and saturating arithmetic, byte strings and the fixed-width
  encodings \<open>to_le_bytes\<close> and \<open>to_be_bytes\<close>, and the standard library's ordered containers
  \<open>BTreeMap\<close> and \<open>BTreeSet\<close> as ordered lists with the laws the components rely on.
\<close>

unbundle bit_operations_syntax

named_theorems outcome_simps \<open>unfolding of the combinators for fallible calls\<close>
named_theorems arith_simps \<open>machine arithmetic read as natural numbers\<close>
named_theorems bytes_simps \<open>lengths and contents of encoded byte strings\<close>

section \<open>Outcomes\<close>

text \<open>
  A Rust call ends in \<open>Ok\<close>, in \<open>Err\<close>, or panics (a failed \<open>expect\<close>, \<open>assert!\<close> or an
  index out of range). A method on \<open>&mut self\<close> returns its outcome together with the
  receiver as it leaves it, also when the outcome is an error.
\<close>

datatype ('a, 'e) outcome = Ok 'a | Err 'e | Panic

type_synonym ('a, 'e, 's) step = "('a, 'e) outcome \<times> 's"

text \<open>The question mark operator on a read-only call: go on with the value, or leave with
  the error and the receiver unchanged.\<close>

definition try_ro :: "('a, 'e) outcome \<Rightarrow> 's \<Rightarrow> ('a \<Rightarrow> ('b, 'e, 's) step) \<Rightarrow> ('b, 'e, 's) step" where
  "try_ro r s k = (case r of Ok x \<Rightarrow> k x | Err e \<Rightarrow> (Err e, s) | Panic \<Rightarrow> (Panic, s))"

text \<open>The question mark operator on a call that may have changed the receiver.\<close>

definition try_rw :: "('a, 'e, 's) step \<Rightarrow> ('a \<Rightarrow> 's \<Rightarrow> ('b, 'e, 's) step) \<Rightarrow> ('b, 'e, 's) step" where
  "try_rw m k = (case m of (Ok x, s) \<Rightarrow> k x s | (Err e, s) \<Rightarrow> (Err e, s) | (Panic, s) \<Rightarrow> (Panic, s))"

text \<open>\<open>expect\<close>: an error of the call becomes a panic.\<close>

definition expect_rw :: "('a, 'e, 's) step \<Rightarrow> ('a \<Rightarrow> 's \<Rightarrow> ('b, 'f, 's) step) \<Rightarrow> ('b, 'f, 's) step" where
  "expect_rw m k = (case m of (Ok x, s) \<Rightarrow> k x s | (_, s) \<Rightarrow> (Panic, s))"

definition ok_or :: "'a option \<Rightarrow> 'e \<Rightarrow> ('a, 'e) outcome" where
  "ok_or m e = (case m of Some x \<Rightarrow> Ok x | None \<Rightarrow> Err e)"

definition bind_ok :: "('a, 'e) outcome \<Rightarrow> ('a \<Rightarrow> ('b, 'e) outcome) \<Rightarrow> ('b, 'e) outcome" where
  "bind_ok r k = (case r of Ok x \<Rightarrow> k x | Err e \<Rightarrow> Err e | Panic \<Rightarrow> Panic)"

definition map_err :: "('e \<Rightarrow> 'f) \<Rightarrow> ('a, 'e) outcome \<Rightarrow> ('a, 'f) outcome" where
  "map_err f r = (case r of Ok x \<Rightarrow> Ok x | Err e \<Rightarrow> Err (f e) | Panic \<Rightarrow> Panic)"

lemma try_ro_simps [simp, outcome_simps]:
  "try_ro (Ok x) s k = k x" "try_ro (Err e) s k = (Err e, s)" "try_ro Panic s k = (Panic, s)"
  by (simp_all add: try_ro_def)

lemma try_rw_simps [simp, outcome_simps]:
  "try_rw (Ok x, s) k2 = k2 x s" "try_rw (Err e, s) k2 = (Err e, s)" "try_rw (Panic, s) k2 = (Panic, s)"
  by (simp_all add: try_rw_def)

lemma expect_rw_simps [simp, outcome_simps]:
  "expect_rw (Ok x, s) k2 = k2 x s" "expect_rw (Err e, s) k2 = (Panic, s)" "expect_rw (Panic, s) k2 = (Panic, s)"
  by (simp_all add: expect_rw_def)

lemma ok_or_simps [simp, outcome_simps]:
  "ok_or (Some x) e = Ok x" "ok_or None e = Err e"
  by (simp_all add: ok_or_def)

lemma bind_ok_simps [simp, outcome_simps]:
  "bind_ok (Ok x) k = k x" "bind_ok (Err e) k = Err e" "bind_ok Panic k = Panic"
  by (simp_all add: bind_ok_def)

lemma map_err_simps [simp, outcome_simps]:
  "map_err f (Ok x) = Ok x" "map_err f (Err e) = Err (f e)" "map_err f Panic = Panic"
  by (simp_all add: map_err_def)

lemma try_ro_OkE:
  assumes "try_ro r s k = (Ok y, s')"
  obtains x where "r = Ok x" "k x = (Ok y, s')"
  using assms by (cases r) auto

lemma try_rw_OkE:
  assumes "try_rw m k = (Ok y, s')"
  obtains x s1 where "m = (Ok x, s1)" "k x s1 = (Ok y, s')"
  using assms by (cases m; cases "fst m") auto

lemma expect_rw_OkE:
  assumes "expect_rw m k = (Ok y, s')"
  obtains x s1 where "m = (Ok x, s1)" "k x s1 = (Ok y, s')"
  using assms by (cases m; cases "fst m") auto

lemma bind_ok_OkE:
  assumes "bind_ok r k = Ok y"
  obtains x where "r = Ok x" "k x = Ok y"
  using assms by (cases r) auto

lemma bind_ok_Panic_iff: "bind_ok r k = Panic \<longleftrightarrow> r = Panic \<or> (\<exists>x. r = Ok x \<and> k x = Panic)"
  by (cases r) auto

lemma ok_or_Ok_iff [simp]: "ok_or m e = Ok x \<longleftrightarrow> m = Some x"
  by (cases m) auto

lemma ok_or_not_Panic [simp]: "ok_or m e \<noteq> Panic"
  by (cases m) auto

lemma map_err_iff [simp]:
  "map_err f r = Ok x \<longleftrightarrow> r = Ok x" "map_err f r = Panic \<longleftrightarrow> r = Panic"
  by (cases r; simp)+

text \<open>A step \<^emph>\<open>refuses cleanly\<close> from \<open>s\<close> when it never panics and every error leaves \<open>s\<close>.\<close>

definition clean_from :: "'s \<Rightarrow> ('a, 'e, 's) step \<Rightarrow> bool" where
  "clean_from s m \<longleftrightarrow> (case m of (Ok x, s') \<Rightarrow> True | (Err e, s') \<Rightarrow> s' = s | (Panic, s') \<Rightarrow> False)"

lemma clean_from_simps [simp]:
  "clean_from s (Ok x, s')" "clean_from s (Err e, s') \<longleftrightarrow> s' = s" "\<not> clean_from s (Panic, s')"
  by (simp_all add: clean_from_def)

lemma clean_from_try_ro:
  assumes "r \<noteq> Panic" and "\<And>x. r = Ok x \<Longrightarrow> clean_from s (k x)"
  shows "clean_from s (try_ro r s k)"
  using assms by (cases r) auto

lemma clean_from_try_rw:
  assumes "clean_from s m" and "\<And>x s'. m = (Ok x, s') \<Longrightarrow> clean_from s (k x s')"
  shows "clean_from s (try_rw m k)"
  using assms by (cases m; cases "fst m") auto

lemma clean_from_if:
  "(P \<Longrightarrow> clean_from s x) \<Longrightarrow> (\<not> P \<Longrightarrow> clean_from s y) \<Longrightarrow> clean_from s (if P then x else y)"
  by simp

lemma clean_fromD:
  assumes "clean_from s m"
  shows "fst m \<noteq> Panic" and "fst m = Err e \<Longrightarrow> snd m = s"
  using assms by (cases m; cases "fst m"; simp)+

text \<open>
  Two-phase operations: a read-only probe decides, the commit acts only where the probe
  agrees. Several components promise this contract (a mandate spend, a debit), and a client
  that probes first may treat the commit as infallible.
\<close>

locale two_phase =
  fixes probe :: "'s \<Rightarrow> 'i \<Rightarrow> (unit, 'e) outcome"
    and commit :: "'s \<Rightarrow> 'i \<Rightarrow> (unit, 'e, 's) step"
  assumes probe_total: "probe s i \<noteq> Panic"
    and commit_refused: "probe s i = Err e \<Longrightarrow> commit s i = (Err e, s)"
    and commit_ok: "probe s i = Ok () \<Longrightarrow> fst (commit s i) = Ok ()"
begin

lemma commit_clean: "clean_from s (commit s i)"
proof (cases "probe s i")
  case (Ok u)
  then show ?thesis using commit_ok [of s i] by (cases "commit s i") simp
qed (use probe_total commit_refused in auto)

lemma commit_Ok_iff: "fst (commit s i) = Ok () \<longleftrightarrow> probe s i = Ok ()"
proof (cases "probe s i")
  case (Err e)
  then show ?thesis by (simp add: commit_refused)
qed (use probe_total commit_ok in auto)

lemma commit_after_probe:
  assumes "probe s i = Ok ()"
  obtains s' where "commit s i = (Ok (), s')"
  using commit_ok [OF assms] by (cases "commit s i") auto

end

text \<open>The state after a sequence of calls, and that every call meets an admissible input.\<close>

primrec fold_steps :: "('s \<Rightarrow> 'i \<Rightarrow> ('o, 'e, 's) step) \<Rightarrow> 'i list \<Rightarrow> 's \<Rightarrow> 's" where
  "fold_steps exec [] s = s"
| "fold_steps exec (i # rest) s = fold_steps exec rest (snd (exec s i))"

primrec all_admissible :: "('s \<Rightarrow> 'i \<Rightarrow> bool) \<Rightarrow> ('s \<Rightarrow> 'i \<Rightarrow> ('o, 'e, 's) step) \<Rightarrow> 'i list \<Rightarrow> 's \<Rightarrow> bool" where
  "all_admissible adm exec [] s = True"
| "all_admissible adm exec (i # rest) s = (adm s i \<and> all_admissible adm exec rest (snd (exec s i)))"

text \<open>
  Transactional interfaces: an invariant under which every call either commits, keeping the
  invariant, or refuses and changes nothing. The second law holds for inputs that are admissible
  in the state they meet.
\<close>

locale transactional =
  fixes inv :: "'s \<Rightarrow> bool"
    and admissible :: "'s \<Rightarrow> 'i \<Rightarrow> bool"
    and exec :: "'s \<Rightarrow> 'i \<Rightarrow> ('o, 'e, 's) step"
  assumes exec_clean: "inv s \<Longrightarrow> clean_from s (exec s i)"
    and exec_inv: "inv s \<Longrightarrow> admissible s i \<Longrightarrow> exec s i = (Ok r, s') \<Longrightarrow> inv s'"
begin

lemma exec_never_panics: "inv s \<Longrightarrow> fst (exec s i) \<noteq> Panic"
  using clean_fromD(1) [OF exec_clean] by blast

lemma exec_refused: "inv s \<Longrightarrow> fst (exec s i) = Err e \<Longrightarrow> snd (exec s i) = s"
  using clean_fromD(2) [OF exec_clean] by blast

lemma exec_keeps_inv: "inv s \<Longrightarrow> admissible s i \<Longrightarrow> inv (snd (exec s i))"
proof (cases "fst (exec s i)")
  case (Ok r)
  assume "inv s" "admissible s i"
  with Ok show ?thesis using exec_inv [of s i r "snd (exec s i)"] by (metis prod.collapse)
next
  case (Err e)
  assume "inv s"
  with Err show ?thesis using exec_refused [of s i e] by simp
next
  case Panic
  assume "inv s"
  with Panic show ?thesis using exec_never_panics [of s i] by simp
qed

lemma run_keeps_inv: "inv s \<Longrightarrow> all_admissible admissible exec is s \<Longrightarrow> inv (fold_steps exec is s)"
  by (induction "is" arbitrary: s) (auto intro: exec_keeps_inv)

end

section \<open>Machine integers\<close>

type_synonym u8 = "8 word"
type_synonym u16 = "16 word"
type_synonym u32 = "32 word"
type_synonym u64 = "64 word"
type_synonym u128 = "128 word"
type_synonym bytes = "8 word list"

text \<open>Rust's \<open>saturating_*\<close> and \<open>checked_*\<close> on unsigned integers. Plain \<open>+\<close> and \<open>-\<close> wrap,
  as in the release profile, which turns overflow checks off.\<close>

definition saturating_add :: "'a::len word \<Rightarrow> 'a word \<Rightarrow> 'a word" where
  "saturating_add a b = (if unat a + unat b < 2 ^ LENGTH('a) then a + b else - 1)"

definition saturating_mul :: "'a::len word \<Rightarrow> 'a word \<Rightarrow> 'a word" where
  "saturating_mul a b = (if unat a * unat b < 2 ^ LENGTH('a) then a * b else - 1)"

definition saturating_sub :: "'a::len word \<Rightarrow> 'a word \<Rightarrow> 'a word" where
  "saturating_sub a b = (if b \<le> a then a - b else 0)"

definition checked_add :: "'a::len word \<Rightarrow> 'a word \<Rightarrow> 'a word option" where
  "checked_add a b = (if unat a + unat b < 2 ^ LENGTH('a) then Some (a + b) else None)"

definition checked_mul :: "'a::len word \<Rightarrow> 'a word \<Rightarrow> 'a word option" where
  "checked_mul a b = (if unat a * unat b < 2 ^ LENGTH('a) then Some (a * b) else None)"

lemma unat_minus_one_word: "unat (- 1 :: 'a::len word) = 2 ^ LENGTH('a) - 1"
  by (simp add: unsigned_minus_1_eq_mask mask_eq_exp_minus_1)

lemma unat_saturating_add [arith_simps]:
  "unat (saturating_add a b) = min (unat a + unat b) (2 ^ LENGTH('a) - 1)" for a b :: "'a::len word"
  by (auto simp: saturating_add_def unat_word_ariths unat_minus_one_word)

lemma unat_saturating_mul [arith_simps]:
  "unat (saturating_mul a b) = min (unat a * unat b) (2 ^ LENGTH('a) - 1)" for a b :: "'a::len word"
  by (auto simp: saturating_mul_def unat_word_ariths unat_minus_one_word)

lemma unat_saturating_sub [arith_simps]:
  "unat (saturating_sub a b) = unat a - unat b" for a b :: "'a::len word"
  by (auto simp: saturating_sub_def unat_sub word_le_nat_alt)

lemma checked_add_Some [arith_simps]:
  "checked_add a b = Some c \<longleftrightarrow> unat a + unat b < 2 ^ LENGTH('a) \<and> c = a + b" for a b :: "'a::len word"
  by (auto simp: checked_add_def)

lemma checked_mul_Some [arith_simps]:
  "checked_mul a b = Some c \<longleftrightarrow> unat a * unat b < 2 ^ LENGTH('a) \<and> c = a * b" for a b :: "'a::len word"
  by (auto simp: checked_mul_def)

text \<open>The same tests on \<open>int\<close>, which evaluate in binary.\<close>

lemma unat_test_int:
  "unat a + unat b < 2 ^ n \<longleftrightarrow> uint a + uint b < 2 ^ n"
  "unat a * unat b < 2 ^ n \<longleftrightarrow> uint a * uint b < 2 ^ n"
proof -
  have lift: "m < 2 ^ n \<longleftrightarrow> int m < 2 ^ n" for m
    using of_nat_less_iff [of m "2 ^ n", where 'a = int] by simp
  show "unat a + unat b < 2 ^ n \<longleftrightarrow> uint a + uint b < 2 ^ n"
    "unat a * unat b < 2 ^ n \<longleftrightarrow> uint a * uint b < 2 ^ n"
    unfolding lift by simp_all
qed

lemma arith_code [code]:
  "saturating_add a b = (if uint a + uint b < 2 ^ LENGTH('a) then a + b else - 1)"
  "saturating_mul a b = (if uint a * uint b < 2 ^ LENGTH('a) then a * b else - 1)"
  "checked_add a b = (if uint a + uint b < 2 ^ LENGTH('a) then Some (a + b) else None)"
  "checked_mul a b = (if uint a * uint b < 2 ^ LENGTH('a) then Some (a * b) else None)"
  for a b :: "'a::len word"
  by (simp_all add: saturating_add_def saturating_mul_def checked_add_def checked_mul_def unat_test_int)

lemma unat_add_no_wrap:
  "unat a + unat b < 2 ^ LENGTH('a) \<Longrightarrow> unat (a + b) = unat a + unat b" for a b :: "'a::len word"
  by (simp add: unat_word_ariths)

lemma unat_mult_no_wrap:
  "unat a * unat b < 2 ^ LENGTH('a) \<Longrightarrow> unat (a * b) = unat a * unat b" for a b :: "'a::len word"
  by (simp add: unat_word_ariths)

lemma unat_bounded: "unat a \<le> 2 ^ LENGTH('a) - 1" for a :: "'a::len word"
proof -
  have "unat a < 2 ^ LENGTH('a)" by (rule unsigned_less)
  then show ?thesis by linarith
qed

lemma unat_plus_one: "a < b \<Longrightarrow> unat (a + 1) = Suc (unat a)" for a b :: "'a::len word"
proof -
  assume "a < b"
  then have "unat a + unat (1 :: 'a word) < 2 ^ LENGTH('a)"
    using unat_bounded [of b] by (simp add: word_less_nat_alt)
  then show ?thesis using unat_add_no_wrap [of a 1] by simp
qed

lemma saturating_add_sub_cancel:
  "b \<le> a \<Longrightarrow> saturating_add (a - b) b = a" for a b :: "'a::len word"
  by (simp add: saturating_add_def unat_sub word_le_nat_alt)


lemma unat_lt_u64 [simp]: "unat (x :: u64) < 18446744073709551616"
  using unsigned_less [of x] by simp

lemma unat_lt_u128 [simp]: "unat (x :: u128) < 340282366920938463463374607431768211456"
  using unsigned_less [of x] by simp

text \<open>Numeric casts between widths (\<open>as u64\<close>, \<open>as u128\<close>): widening keeps the value.\<close>

lemma unat_lt_u32 [simp]: "unat (x :: u32) < 4294967296"
  using unsigned_less [of x] by simp

lemma unat_lt_widen: "unat (x :: u32) < 2 ^ 64" "unat (x :: u32) < 2 ^ 128" "unat (y :: u64) < 2 ^ 128"
  by (simp_all add: less_trans [OF unat_lt_u32] less_trans [OF unat_lt_u64])

definition u32_as_u64 :: "u32 \<Rightarrow> u64" where "u32_as_u64 x = ucast x"
definition u32_as_u128 :: "u32 \<Rightarrow> u128" where "u32_as_u128 x = ucast x"
definition u64_as_u128 :: "u64 \<Rightarrow> u128" where "u64_as_u128 x = ucast x"
definition u128_as_u64 :: "u128 \<Rightarrow> u64" where "u128_as_u64 x = ucast x"

lemma unat_widen [simp, arith_simps]:
  "unat (u32_as_u64 x) = unat x" "unat (u32_as_u128 x) = unat x" "unat (u64_as_u128 y) = unat y"
  unfolding u32_as_u64_def u32_as_u128_def u64_as_u128_def unsigned_ucast_eq
  by (simp_all only: len_num1 len_bit0 take_bit_nat_eq_self unat_lt_widen mult_1_right
      numeral_times_numeral semiring_norm)

section \<open>Bytes\<close>

text \<open>Fixed-width little-endian and big-endian encodings of an unsigned integer.\<close>

fun le_bytes :: "nat \<Rightarrow> nat \<Rightarrow> bytes" where
  "le_bytes 0 n = []"
| "le_bytes (Suc w) n = of_nat (n mod 256) # le_bytes w (n div 256)"

definition be_bytes :: "nat \<Rightarrow> nat \<Rightarrow> bytes" where
  "be_bytes w n = rev (le_bytes w n)"

fun le_value :: "bytes \<Rightarrow> nat" where
  "le_value [] = 0"
| "le_value (b # bs) = unat b + 256 * le_value bs"

definition be_value :: "bytes \<Rightarrow> nat" where
  "be_value bs = le_value (rev bs)"

definition u32_le :: "u32 \<Rightarrow> bytes" where "u32_le x = le_bytes 4 (unat x)"
definition u32_be :: "u32 \<Rightarrow> bytes" where "u32_be x = be_bytes 4 (unat x)"
definition u64_le :: "u64 \<Rightarrow> bytes" where "u64_le x = le_bytes 8 (unat x)"
definition u64_be :: "u64 \<Rightarrow> bytes" where "u64_be x = be_bytes 8 (unat x)"
definition u128_le :: "u128 \<Rightarrow> bytes" where "u128_le x = le_bytes 16 (unat x)"
definition usize_le :: "nat \<Rightarrow> bytes" where "usize_le n = le_bytes 8 n"

lemma length_le_bytes [simp, bytes_simps]: "length (le_bytes w n) = w"
  by (induction w arbitrary: n) auto

lemma length_be_bytes [simp, bytes_simps]: "length (be_bytes w n) = w"
  by (simp add: be_bytes_def)

lemma length_word_bytes [simp, bytes_simps]:
  "length (u32_le a) = 4" "length (u32_be a) = 4" "length (u64_le b) = 8" "length (u64_be b) = 8"
  "length (u128_le c) = 16" "length (usize_le n) = 8"
  by (simp_all add: u32_le_def u32_be_def u64_le_def u64_be_def u128_le_def usize_le_def)

lemma usize_le_nonempty [simp]: "usize_le n \<noteq> []"
  by (metis length_word_bytes(6) list.size(3) zero_neq_numeral)

lemma unat_of_nat_byte: "unat (of_nat (n mod 256) :: u8) = n mod 256"
  by (simp add: unat_of_nat)

lemma le_value_le_bytes: "le_value (le_bytes w n) = n mod 256 ^ w"
proof (induction w arbitrary: n)
  case 0
  then show ?case by simp
next
  case (Suc w)
  have "le_value (le_bytes (Suc w) n) = n mod 256 + 256 * (n div 256 mod 256 ^ w)"
    by (simp add: Suc unat_of_nat_byte)
  also have "\<dots> = n mod (256 * 256 ^ w)"
    by (simp add: mod_mult2_eq)
  finally show ?case by simp
qed

lemma le_bytes_inj: "le_bytes w m = le_bytes w n \<Longrightarrow> m < 256 ^ w \<Longrightarrow> n < 256 ^ w \<Longrightarrow> m = n"
  by (metis le_value_le_bytes mod_less)

lemma usize_le_inj: "usize_le m = usize_le n \<Longrightarrow> m < 2 ^ 64 \<Longrightarrow> n < 2 ^ 64 \<Longrightarrow> m = n"
  by (rule le_bytes_inj [of 8]) (simp_all add: usize_le_def)

lemma u64_le_inj [simp]: "u64_le a = u64_le b \<longleftrightarrow> a = b"
proof
  assume "u64_le a = u64_le b"
  then have "unat a = unat b"
    by (intro le_bytes_inj [of 8]) (simp_all add: u64_le_def)
  then show "a = b" by (simp add: word_unat_eq_iff)
qed simp

lemma u128_le_inj [simp]: "u128_le a = u128_le b \<longleftrightarrow> a = b"
proof
  assume "u128_le a = u128_le b"
  then have "unat a = unat b"
    by (intro le_bytes_inj [of 16]) (simp_all add: u128_le_def)
  then show "a = b" by (simp add: word_unat_eq_iff)
qed simp

lemma u32_le_inj [simp]: "u32_le a = u32_le b \<longleftrightarrow> a = b"
proof
  assume "u32_le a = u32_le b"
  then have "unat a = unat b"
    by (intro le_bytes_inj [of 4]) (simp_all add: u32_le_def)
  then show "a = b" by (simp add: word_unat_eq_iff)
qed simp

lemma be_value_u64_be [simp, bytes_simps]: "be_value (u64_be x) = unat x"
  by (simp add: be_value_def u64_be_def be_bytes_def le_value_le_bytes)

lemma le_value_u64_le [simp, bytes_simps]: "le_value (u64_le x) = unat x"
  by (simp add: u64_le_def le_value_le_bytes)

text \<open>The bytes of an ASCII string literal (\<open>as_bytes\<close>).\<close>

definition str_bytes :: "string \<Rightarrow> bytes" where
  "str_bytes s = map (\<lambda>c. of_nat (of_char c)) s"

lemma length_str_bytes [simp, bytes_simps]: "length (str_bytes s) = length s"
  by (simp add: str_bytes_def)

lemma str_bytes_inj [simp]: "str_bytes s = str_bytes t \<longleftrightarrow> s = t"
proof -
  have "inj (\<lambda>c. of_nat (of_char c) :: u8)"
  proof (rule injI)
    fix c d :: char
    assume "of_nat (of_char c) = (of_nat (of_char d) :: u8)"
    then have "unat (of_nat (of_char c) :: u8) = unat (of_nat (of_char d) :: u8)" by simp
    then show "c = d" by (simp add: unat_of_nat)
  qed
  then show ?thesis
    by (simp add: str_bytes_def inj_map_eq_map)
qed

text \<open>The bit of an index at a level, \<open>(idx >> l) & 1 == 1\<close>.\<close>

definition index_bit :: "nat \<Rightarrow> nat \<Rightarrow> bool" where
  "index_bit idx l \<longleftrightarrow> idx div 2 ^ l mod 2 = 1"


section \<open>Counted loops\<close>

text \<open>\<open>for _ in 0..n { cur = f(cur) }\<close>.\<close>

fun loop_n :: "nat \<Rightarrow> ('a \<Rightarrow> 'a) \<Rightarrow> 'a \<Rightarrow> 'a" where
  "loop_n 0 f cur = cur"
| "loop_n (Suc n) f cur = loop_n n f (f cur)"

lemma loop_n_add: "loop_n (m + n) f x = loop_n n f (loop_n m f x)"
  by (induction m arbitrary: x) auto

lemma loop_n_last: "loop_n (Suc n) f x = f (loop_n n f x)"
  by (induction n arbitrary: x) auto

text \<open>The first loop index whose body leaves the loop, with the state at that point, is a
  recursion over the remaining indices: \<open>for_each xs f s\<close> threads a state through a list.\<close>

fun for_each :: "'x list \<Rightarrow> ('x \<Rightarrow> 's \<Rightarrow> 's) \<Rightarrow> 's \<Rightarrow> 's" where
  "for_each [] f s = s"
| "for_each (x # xs) f s = for_each xs f (f x s)"

lemma for_each_append: "for_each (xs @ ys) f s = for_each ys f (for_each xs f s)"
  by (induction xs arbitrary: s) auto

lemma for_each_inv:
  "P s \<Longrightarrow> (\<And>x s. x \<in> set xs \<Longrightarrow> P s \<Longrightarrow> P (f x s)) \<Longrightarrow> P (for_each xs f s)"
  by (induction xs arbitrary: s) auto

end
