(* ===== verification/HK_Containers.thy ===== *)
theory HK_Containers
  imports HK_Prelude
begin

text \<open>
  \<open>BTreeMap\<close> and \<open>BTreeSet\<close> of the Rust standard library, as ordered lists: iteration runs in
  key order, lookup and insertion walk the list in that order and stop at the first key that
  is not smaller. Both operations follow the same path, so the laws below hold of every list;
  \<open>bmap_ok\<close> (strictly increasing keys) is what every map built by the program satisfies.
  The interface the components rely on is the locale \<open>kv_store\<close>.
\<close>

type_synonym ('k, 'v) btree_map = "('k \<times> 'v) list"
type_synonym 'k btree_set = "'k list"

section \<open>The interface of a key-value store\<close>

locale kv_store =
  fixes empty_map :: "'m"
    and lookup :: "'m \<Rightarrow> 'k \<Rightarrow> 'v option"
    and put :: "'m \<Rightarrow> 'k \<Rightarrow> 'v \<Rightarrow> 'm"
  assumes lookup_empty: "lookup empty_map k = None"
    and lookup_put: "lookup (put m k v) k' = (if k' = k then Some v else lookup m k')"
    and put_put: "put (put m k v) k w = put m k w"
    and put_id: "lookup m k = Some v \<Longrightarrow> put m k v = m"
begin

lemma lookup_put_same: "lookup (put m k v) k = Some v"
  by (simp add: lookup_put)

lemma lookup_put_other: "k' \<noteq> k \<Longrightarrow> lookup (put m k v) k' = lookup m k'"
  by (simp add: lookup_put)

text \<open>Overwriting an entry and writing its old value back restores the store.\<close>

lemma put_restore: "lookup m k = Some v \<Longrightarrow> put (put m k w) k v = m"
  by (simp add: put_put put_id)

text \<open>An update of present keys never adds or drops a key.\<close>

lemma put_present_dom:
  "lookup m k = Some v \<Longrightarrow> (lookup (put m k w) k' = None) = (lookup m k' = None)"
  by (simp add: lookup_put)

end

section \<open>BTreeMap\<close>

fun bmap_get :: "('k::linorder, 'v) btree_map \<Rightarrow> 'k \<Rightarrow> 'v option" where
  "bmap_get [] key = None"
| "bmap_get ((j, u) # rest) key =
     (if key < j then None else if key = j then Some u else bmap_get rest key)"

fun bmap_insert :: "('k::linorder, 'v) btree_map \<Rightarrow> 'k \<Rightarrow> 'v \<Rightarrow> ('k, 'v) btree_map" where
  "bmap_insert [] key val = [(key, val)]"
| "bmap_insert ((j, u) # rest) key val =
     (if key < j then (key, val) # (j, u) # rest
      else if key = j then (key, val) # rest
      else (j, u) # bmap_insert rest key val)"

definition bmap_contains :: "('k::linorder, 'v) btree_map \<Rightarrow> 'k \<Rightarrow> bool" where
  "bmap_contains m key = (bmap_get m key \<noteq> None)"

definition bmap_ok :: "('k::linorder, 'v) btree_map \<Rightarrow> bool" where
  "bmap_ok m = sorted_wrt (<) (map fst m)"

lemma bmap_get_insert:
  "bmap_get (bmap_insert m k v) k' = (if k' = k then Some v else bmap_get m k')"
  by (induction m k v rule: bmap_insert.induct) auto

lemma bmap_insert_insert: "bmap_insert (bmap_insert m k v) k w = bmap_insert m k w"
  by (induction m k v rule: bmap_insert.induct) auto

lemma bmap_insert_id: "bmap_get m k = Some v \<Longrightarrow> bmap_insert m k v = m"
  by (induction m k v rule: bmap_insert.induct) (auto split: if_splits)

interpretation bmap: kv_store "[]" bmap_get bmap_insert
  by unfold_locales (simp_all add: bmap_get_insert bmap_insert_insert bmap_insert_id)

lemmas bmap_simps [simp] = bmap.lookup_put bmap.put_put

lemma bmap_contains_insert [simp]:
  "bmap_contains (bmap_insert m k v) k' = (k' = k \<or> bmap_contains m k')"
  by (auto simp: bmap_contains_def)

lemma bmap_insert_keys: "set (map fst (bmap_insert m k v)) = insert k (set (map fst m))"
  by (induction m k v rule: bmap_insert.induct) auto

lemma bmap_insert_set: "set (bmap_insert m k v) \<subseteq> insert (k, v) (set m)"
  by (induction m k v rule: bmap_insert.induct) auto

text \<open>A predicate on all entries.\<close>

definition bmap_all :: "('k \<Rightarrow> 'v \<Rightarrow> bool) \<Rightarrow> ('k, 'v) btree_map \<Rightarrow> bool" where
  "bmap_all P m = list_all (\<lambda>(k, v). P k v) m"

lemma bmap_all_Nil [simp]: "bmap_all P []"
  by (simp add: bmap_all_def)

lemma bmap_all_insert: "bmap_all P m \<Longrightarrow> P k v \<Longrightarrow> bmap_all P (bmap_insert m k v)"
  using bmap_insert_set [of m k v] by (auto simp: bmap_all_def list_all_iff)

lemma bmap_ok_Nil [simp]: "bmap_ok []"
  by (simp add: bmap_ok_def)

lemma bmap_ok_insert [simp]: "bmap_ok m \<Longrightarrow> bmap_ok (bmap_insert m k v)"
proof (induction m k v rule: bmap_insert.induct)
  case (2 j u rest key val)
  then have "\<forall>x \<in> set (map fst rest). j < x" and "bmap_ok rest"
    by (auto simp: bmap_ok_def)
  with 2 show ?case
    using bmap_insert_keys [of rest key val] by (auto simp: bmap_ok_def)
qed (simp add: bmap_ok_def)

lemma bmap_get_Some_mem: "bmap_get m k = Some v \<Longrightarrow> (k, v) \<in> set m"
  by (induction m k rule: bmap_get.induct) (auto split: if_splits)

lemma bmap_all_get: "bmap_all P m \<Longrightarrow> bmap_get m k = Some v \<Longrightarrow> P k v"
  by (auto simp: bmap_all_def list_all_iff dest: bmap_get_Some_mem)

lemma bmap_mem_get: "bmap_ok m \<Longrightarrow> (k, v) \<in> set m \<Longrightarrow> bmap_get m k = Some v"
proof (induction m k rule: bmap_get.induct)
  case (2 j u rest key)
  then show ?case by (force simp: bmap_ok_def)
qed simp

text \<open>A map with strictly increasing keys is determined by its lookups.\<close>

lemma bmap_get_None_smaller: "\<forall>x \<in> set (map fst m). k < x \<Longrightarrow> bmap_get m k = None"
  by (cases m) auto

lemma bmap_ext:
  "bmap_ok m \<Longrightarrow> bmap_ok n \<Longrightarrow> (\<And>k. bmap_get m k = bmap_get n k) \<Longrightarrow> m = n"
proof (induction m arbitrary: n)
  case Nil
  have "n = []"
  proof (rule ccontr)
    assume "n \<noteq> []"
    then obtain k v n' where "n = (k, v) # n'" by (cases n) auto
    with Nil(3) [of k] show False by simp
  qed
  then show ?case by simp
next
  case (Cons p m)
  obtain k v where p: "p = (k, v)" by (cases p)
  obtain k2 v2 n' where n: "n = (k2, v2) # n'"
    using Cons.prems(3) [of k] p by (cases n) auto
  have "\<not> k < k2" "\<not> k2 < k"
    using Cons.prems(3) [of k] Cons.prems(3) [of k2] p n by (auto split: if_splits)
  then have keq: "k2 = k" by simp
  have lt: "\<forall>x \<in> set (map fst m). k < x" "\<forall>x \<in> set (map fst n'). k < x"
    using Cons.prems(1,2) p n keq by (auto simp: bmap_ok_def)
  have veq: "v2 = v"
    using Cons.prems(3) [of k] p n keq by simp
  have "bmap_get m x = bmap_get n' x" for x
  proof (cases "k < x")
    case True
    then show ?thesis using Cons.prems(3) [of x] p n keq by (auto split: if_splits)
  next
    case False
    then have "\<forall>y \<in> set (map fst m). x < y" "\<forall>y \<in> set (map fst n'). x < y"
      using lt by auto
    then show ?thesis by (metis bmap_get_None_smaller)
  qed
  then have "m = n'"
    using Cons.IH Cons.prems(1,2) p n by (simp add: bmap_ok_def)
  then show ?case using p n keq veq by simp
qed

text \<open>A weighted sum over the entries, and how one insertion moves it.\<close>

definition bmap_sum :: "('k \<Rightarrow> 'v \<Rightarrow> nat) \<Rightarrow> ('k, 'v) btree_map \<Rightarrow> nat" where
  "bmap_sum f m = sum_list (map (\<lambda>(k, v). f k v) m)"

lemma bmap_sum_simps [simp]:
  "bmap_sum f [] = 0" "bmap_sum f ((k, v) # m) = f k v + bmap_sum f m"
  by (simp_all add: bmap_sum_def)

lemma bmap_sum_insert:
  "bmap_sum f (bmap_insert m k v) + (case bmap_get m k of None \<Rightarrow> 0 | Some u \<Rightarrow> f k u)
    = bmap_sum f m + f k v"
  by (induction m k v rule: bmap_insert.induct) auto

lemma bmap_sum_ge: "bmap_get m k = Some v \<Longrightarrow> f k v \<le> bmap_sum f m"
  by (induction m k rule: bmap_get.induct) (auto split: if_splits)

lemma bmap_sum_insert_fresh:
  "bmap_get m k = None \<Longrightarrow> bmap_sum f (bmap_insert m k v) = bmap_sum f m + f k v"
  using bmap_sum_insert [of f m k v] by simp

lemma bmap_sum_insert_present:
  "bmap_get m k = Some u \<Longrightarrow> bmap_sum f (bmap_insert m k v) = bmap_sum f m - f k u + f k v"
  using bmap_sum_insert [of f m k v] bmap_sum_ge [of m k u f] by simp

text \<open>\<open>values_mut\<close>: the same keys with every value passed through a function.\<close>

definition bmap_map_values :: "('v \<Rightarrow> 'w) \<Rightarrow> ('k, 'v) btree_map \<Rightarrow> ('k, 'w) btree_map" where
  "bmap_map_values f m = map (\<lambda>(k, v). (k, f v)) m"

lemma bmap_get_map_values [simp]: "bmap_get (bmap_map_values f m) k = map_option f (bmap_get m k)"
  by (induction m k rule: bmap_get.induct) (auto simp: bmap_map_values_def)

lemma bmap_sum_map_values:
  "bmap_sum g (bmap_map_values f m) = bmap_sum (\<lambda>k v. g k (f v)) m"
  by (induction m) (auto simp: bmap_map_values_def)

lemma bmap_all_map_values: "bmap_all P m \<Longrightarrow> (\<And>k v. P k v \<Longrightarrow> P k (f v)) \<Longrightarrow> bmap_all P (bmap_map_values f m)"
  by (auto simp: bmap_all_def bmap_map_values_def list_all_iff)

lemma bmap_ok_map_values [simp]: "bmap_ok (bmap_map_values f m) = bmap_ok m"
proof -
  have "map fst (bmap_map_values f m) = map fst m"
    by (simp add: bmap_map_values_def case_prod_beta)
  then show ?thesis by (simp add: bmap_ok_def)
qed

section \<open>BTreeSet\<close>

fun bset_contains :: "'k::linorder btree_set \<Rightarrow> 'k \<Rightarrow> bool" where
  "bset_contains [] key = False"
| "bset_contains (j # rest) key = (if key < j then False else if key = j then True else bset_contains rest key)"

fun bset_insert :: "'k::linorder btree_set \<Rightarrow> 'k \<Rightarrow> 'k btree_set" where
  "bset_insert [] key = [key]"
| "bset_insert (j # rest) key =
     (if key < j then key # j # rest else if key = j then j # rest else j # bset_insert rest key)"

fun bset_remove :: "'k::linorder btree_set \<Rightarrow> 'k \<Rightarrow> 'k btree_set" where
  "bset_remove [] key = []"
| "bset_remove (j # rest) key =
     (if key < j then j # rest else if key = j then rest else j # bset_remove rest key)"

definition bset_ok :: "'k::linorder btree_set \<Rightarrow> bool" where
  "bset_ok = sorted_wrt (<)"

lemma bset_contains_insert [simp]: "bset_contains (bset_insert s k) k' = (k' = k \<or> bset_contains s k')"
  by (induction s k rule: bset_insert.induct) auto

lemma bset_insert_set: "set (bset_insert s k) = insert k (set s)"
  by (induction s k rule: bset_insert.induct) auto

lemma bset_contains_smaller: "\<forall>x \<in> set s. k < x \<Longrightarrow> \<not> bset_contains s k"
  by (cases s) auto

lemma bset_contains_iff: "bset_ok s \<Longrightarrow> bset_contains s k = (k \<in> set s)"
  by (induction s k rule: bset_contains.induct) (auto simp: bset_ok_def)

lemma bset_ok_insert [simp]: "bset_ok s \<Longrightarrow> bset_ok (bset_insert s k)"
  by (induction s k rule: bset_insert.induct) (auto simp: bset_ok_def bset_insert_set)

lemma bset_contains_remove:
  "bset_ok s \<Longrightarrow> bset_contains (bset_remove s k) k' = (k' \<noteq> k \<and> bset_contains s k')"
proof (induction s k rule: bset_remove.induct)
  case (2 j rest key)
  then have "bset_ok rest" "\<forall>x \<in> set rest. j < x" by (auto simp: bset_ok_def)
  with 2 show ?case by (auto simp: bset_contains_iff)
qed simp

lemma bset_remove_subset: "set (bset_remove s k) \<subseteq> set s"
  by (induction s k rule: bset_remove.induct) auto

lemma bset_ok_remove [simp]: "bset_ok s \<Longrightarrow> bset_ok (bset_remove s k)"
proof (induction s k rule: bset_remove.induct)
  case (2 j rest key)
  then show ?case using bset_remove_subset [of rest key] by (auto simp: bset_ok_def)
qed simp

lemma bset_length_insert:
  "length (bset_insert s k) = (if bset_contains s k then length s else Suc (length s))"
  by (induction s k rule: bset_insert.induct) auto

end
