(* ===== verification/HK_Primitives.thy ===== *)
theory HK_Primitives
  imports HK_Containers
begin

text \<open>
  The protocol types of \<^verbatim>\<open>hk-primitives/src/lib.rs\<close>: amounts, timestamps, 32-byte
  identifiers, the mandate node and the channel state. A 32-byte identifier is a 256-bit word,
  most significant byte first, so the derived byte-wise order of \<^verbatim>\<open>H256\<close> is the order of the
  words; \<open>h256_bytes\<close> and \<open>h256_of_bytes\<close> convert.
\<close>

type_synonym Amount = u128
type_synonym Timestamp = u64
type_synonym H256 = "256 word"
type_synonym AccountId = H256
type_synonym MandateId = H256
type_synonym AssetId = H256
type_synonym ChannelId = H256
type_synonym Nullifier = H256

definition h256_bytes :: "H256 \<Rightarrow> bytes" where
  "h256_bytes h = be_bytes 32 (unat h)"

definition h256_of_bytes :: "bytes \<Rightarrow> H256" where
  "h256_of_bytes bs = of_nat (be_value bs)"

datatype PrimitiveError = BadLength string nat

text \<open>\<open>TryFrom<&[u8]> for H256\<close>: exactly 32 bytes, or the length is reported.\<close>

definition h256_try_from :: "bytes \<Rightarrow> (H256, PrimitiveError) outcome" where
  "h256_try_from v = (if length v = 32 then Ok (h256_of_bytes v) else Err (BadLength ''H256'' (length v)))"

datatype SigScheme = SlhDsa192s | SlhDsa128s | Lms | Xmss | WotsPlus | LamportRatchetV0

record MandateNode =
  mn_id :: MandateId
  mn_parent :: "MandateId option"
  mn_holder_key :: bytes
  mn_scheme :: SigScheme
  mn_asset :: AssetId
  mn_rate_per_sec :: Amount
  mn_buffer_max :: Amount
  mn_per_tx_max :: Amount
  mn_expiry :: Timestamp
  mn_revoked :: bool
  mn_buffer :: Amount
  mn_last_accrual :: Timestamp
  mn_tier :: u8

record ChannelState =
  cs_id :: ChannelId
  cs_payer :: AccountId
  cs_payee :: AccountId
  cs_asset :: AssetId
  cs_mandate :: MandateId
  cs_tip :: H256
  cs_unit_price :: Amount
  cs_max_steps :: u64
  cs_highest_step_settled :: u64
  cs_expiry :: Timestamp

section \<open>Identifiers and bytes\<close>

lemma length_h256_bytes [simp, bytes_simps]: "length (h256_bytes h) = 32"
  by (simp add: h256_bytes_def)

lemma unat_lt_h256: "unat (h :: H256) < 256 ^ 32"
  using unsigned_less [of h] by simp

lemma h256_of_bytes_bytes [simp]: "h256_of_bytes (h256_bytes h) = h"
  using unat_lt_h256 [of h]
  by (simp add: h256_of_bytes_def h256_bytes_def be_value_def be_bytes_def le_value_le_bytes)

lemma h256_bytes_inj [simp]: "h256_bytes a = h256_bytes b \<longleftrightarrow> a = b"
  by (metis h256_of_bytes_bytes)

lemma le_value_bound: "le_value bs < 256 ^ length bs"
proof (induction bs)
  case (Cons b bs)
  have "unat b < 256" using unsigned_less [of b] by simp
  with Cons have "unat b + 256 * le_value bs < 256 * 256 ^ length bs" by linarith
  then show ?case by simp
qed simp

lemma le_bytes_le_value: "le_bytes (length bs) (le_value bs) = bs"
proof (induction bs)
  case (Cons b bs)
  have "unat b < 256" using unsigned_less [of b] by simp
  then show ?case by (simp add: Cons)
qed simp

lemma h256_bytes_of_bytes: "length bs = 32 \<Longrightarrow> h256_bytes (h256_of_bytes bs) = bs"
proof -
  assume len: "length bs = 32"
  have "le_value (rev bs) < 2 ^ 256"
    using le_value_bound [of "rev bs"] len by simp
  then have "unat (of_nat (le_value (rev bs)) :: H256) = le_value (rev bs)"
    by (simp add: unat_of_nat)
  then show ?thesis
    using le_bytes_le_value [of "rev bs"] len
    by (simp add: h256_bytes_def h256_of_bytes_def be_value_def be_bytes_def)
qed

lemma h256_try_from_bytes [simp]: "h256_try_from (h256_bytes h) = Ok h"
  by (simp add: h256_try_from_def)

lemma h256_try_from_Ok_iff: "h256_try_from v = Ok h \<longleftrightarrow> v = h256_bytes h"
  by (auto simp: h256_try_from_def h256_bytes_of_bytes)

end
