(* ===== verification/HK_Hash.thy ===== *)
theory HK_Hash
  imports HK_Primitives
begin

text \<open>
  Domain-separated SHAKE-256 (\<^verbatim>\<open>hk-crypto/src/hash.rs\<close>). The sponge itself comes from the
  \<^verbatim>\<open>sha3\<close> crate and the circuit's SHA-256 from the \<^verbatim>\<open>sha2\<close> crate: both are parameters of the
  model, fields of \<open>hash_env\<close>. What the source adds is the framing of the hashed parts.
\<close>

record hash_env =
  xof256 :: "bytes \<Rightarrow> nat \<Rightarrow> bytes"
  sha256 :: "bytes \<Rightarrow> H256"

definition DOM_PAYWORD_SEED :: string where "DOM_PAYWORD_SEED = ''hk/v1/payword-seed''"
definition DOM_PAYWORD_LINK :: string where "DOM_PAYWORD_LINK = ''hk/v1/payword-link''"
definition DOM_ACCOUNT_ID :: string where "DOM_ACCOUNT_ID = ''hk/v1/account-id''"
definition DOM_MANDATE_ID :: string where "DOM_MANDATE_ID = ''hk/v1/mandate-id''"
definition DOM_CHANNEL_ID :: string where "DOM_CHANNEL_ID = ''hk/v1/channel-id''"
definition DOM_CERT_MSG :: string where "DOM_CERT_MSG = ''hk/v1/delegation-cert''"
definition DOM_TX_MSG :: string where "DOM_TX_MSG = ''hk/v1/tx''"
definition DOM_LAMPORT_SK :: string where "DOM_LAMPORT_SK = ''hk/v1/lamport-sk''"
definition DOM_LAMPORT_LEAF :: string where "DOM_LAMPORT_LEAF = ''hk/v1/lamport-leaf''"
definition DOM_LAMPORT_PK :: string where "DOM_LAMPORT_PK = ''hk/v1/lamport-pk-commit''"
definition DOM_STATE_COMMIT :: string where "DOM_STATE_COMMIT = ''hk/v1/state-commit''"
definition DOM_MLKEM_SEED :: string where "DOM_MLKEM_SEED = ''hk/v1/mlkem-note-seed''"
definition DOM_NOTE_KEY :: string where "DOM_NOTE_KEY = ''hk/v1/note-key''"
definition DOM_NOTE_ENC :: string where "DOM_NOTE_ENC = ''hk/v1/note-enc''"
definition DOM_NOTE_MAC :: string where "DOM_NOTE_MAC = ''hk/v1/note-mac''"
definition DOM_AGG_COVER :: string where "DOM_AGG_COVER = ''hk/v1/agg-cover''"
definition DOM_VK_PIN :: string where "DOM_VK_PIN = ''hk/v1/vk-pin''"

definition v1_tags :: "string list" where
  "v1_tags = [DOM_PAYWORD_SEED, DOM_PAYWORD_LINK, DOM_ACCOUNT_ID, DOM_MANDATE_ID, DOM_CHANNEL_ID,
     DOM_CERT_MSG, DOM_TX_MSG, DOM_LAMPORT_SK, DOM_LAMPORT_LEAF, DOM_LAMPORT_PK, DOM_STATE_COMMIT,
     DOM_MLKEM_SEED, DOM_NOTE_KEY, DOM_NOTE_ENC, DOM_NOTE_MAC, DOM_AGG_COVER, DOM_VK_PIN]"

lemmas dom_defs = DOM_PAYWORD_SEED_def DOM_PAYWORD_LINK_def DOM_ACCOUNT_ID_def DOM_MANDATE_ID_def
  DOM_CHANNEL_ID_def DOM_CERT_MSG_def DOM_TX_MSG_def DOM_LAMPORT_SK_def DOM_LAMPORT_LEAF_def
  DOM_LAMPORT_PK_def DOM_STATE_COMMIT_def DOM_MLKEM_SEED_def DOM_NOTE_KEY_def DOM_NOTE_ENC_def
  DOM_NOTE_MAC_def DOM_AGG_COVER_def DOM_VK_PIN_def

text \<open>The bytes fed to the sponge: the tag, a zero byte, then every part behind its length as
  a little-endian \<open>u64\<close>.\<close>

fun frame_parts :: "bytes list \<Rightarrow> bytes" where
  "frame_parts [] = []"
| "frame_parts (p # ps) = usize_le (length p) @ p @ frame_parts ps"

definition shake_input :: "string \<Rightarrow> bytes list \<Rightarrow> bytes" where
  "shake_input tag parts = str_bytes tag @ [0] @ frame_parts parts"

definition shake256_32 :: "'x hash_env_scheme \<Rightarrow> string \<Rightarrow> bytes list \<Rightarrow> H256" where
  "shake256_32 X tag parts = h256_of_bytes (xof256 X (shake_input tag parts) 32)"

definition shake256_n :: "'x hash_env_scheme \<Rightarrow> string \<Rightarrow> bytes list \<Rightarrow> nat \<Rightarrow> bytes" where
  "shake256_n X tag parts n = xof256 X (shake_input tag parts) n"

section \<open>The framing is injective\<close>

lemma frame_parts_inj:
  assumes "frame_parts ps = frame_parts qs"
    and "\<forall>p \<in> set ps. length p < 2 ^ 64" and "\<forall>q \<in> set qs. length q < 2 ^ 64"
  shows "ps = qs"
  using assms
proof (induction ps arbitrary: qs)
  case Nil
  have "qs = []"
  proof (rule ccontr)
    assume "qs \<noteq> []"
    then obtain q qs' where "qs = q # qs'" by (cases qs) auto
    with Nil(1) show False by simp
  qed
  then show ?case by simp
next
  case (Cons p ps)
  obtain q qs' where qs: "qs = q # qs'"
  proof (cases qs)
    case Nil
    with Cons.prems(1) show ?thesis by simp
  qed
  have "usize_le (length p) = usize_le (length q)" and rest: "p @ frame_parts ps = q @ frame_parts qs'"
    using Cons.prems(1) unfolding qs by simp_all
  then have "length p = length q"
    using Cons.prems(2,3) qs by (auto intro: usize_le_inj)
  with rest have "p = q" and "frame_parts ps = frame_parts qs'"
    by simp_all
  with Cons.IH [of qs'] Cons.prems(2,3) qs show ?case by simp
qed

definition nul_free :: "string \<Rightarrow> bool" where
  "nul_free s = (0 \<notin> set (str_bytes s))"

lemma tag_prefix_inj:
  assumes "a @ [0] @ x = b @ [0] @ y" and "0 \<notin> set a" and "0 \<notin> set (b :: bytes)"
  shows "a = b \<and> x = y"
  using assms
proof (induction a arbitrary: b)
  case Nil
  then show ?case by (cases b) auto
next
  case (Cons c a)
  then show ?case by (cases b) auto
qed

lemma shake_input_inj:
  assumes "shake_input d ps = shake_input e qs" and "nul_free d" and "nul_free e"
    and "\<forall>p \<in> set ps. length p < 2 ^ 64" and "\<forall>q \<in> set qs. length q < 2 ^ 64"
  shows "d = e \<and> ps = qs"
proof -
  have "str_bytes d = str_bytes e \<and> frame_parts ps = frame_parts qs"
    using assms(1-3) tag_prefix_inj unfolding shake_input_def nul_free_def by blast
  then show ?thesis using frame_parts_inj assms(4,5) by simp
qed

lemma v1_tags_nul_free: "\<forall>t \<in> set v1_tags. nul_free t"
  unfolding v1_tags_def dom_defs nul_free_def str_bytes_def by simp

lemma v1_tags_distinct: "distinct v1_tags"
  unfolding v1_tags_def dom_defs by simp

text \<open>A concrete hash, for the concrete instances of the theorems.\<close>

definition sample_hash :: hash_env where
  "sample_hash = \<lparr>xof256 = \<lambda>bs n. be_bytes n (le_value bs + 1), sha256 = \<lambda>bs. of_nat (le_value bs)\<rparr>"

section \<open>Properties\<close>

text \<open>Domain separation. Two hash calls under the frozen v1 tags feed the sponge the same bytes
  only when the tag and the whole list of parts are the same: no other split of the same bytes
  into parts and no other tag collides before the sponge.\<close>

lemma shake_framing_injective:
  assumes "d \<in> set v1_tags" and "e \<in> set v1_tags" and "shake_input d ps = shake_input e qs"
    and "\<forall>p \<in> set ps. length p < 2 ^ 64" and "\<forall>q \<in> set qs. length q < 2 ^ 64"
  shows "d = e \<and> ps = qs"
  using assms v1_tags_nul_free shake_input_inj by blast

end
