(* ===== verification/HK_Assets.thy ===== *)
theory HK_Assets
  imports HK_Hash
begin

text \<open>
  The issued-asset registry (\<^verbatim>\<open>hk-state/src/assets.rs\<close>): policies with their one-byte layout and
  their spelling, registry entries with their commitment bytes, derived asset ids and the symbol
  rule. A symbol is the list of its bytes as characters.
\<close>

definition DOM_ASSET_ID :: string where "DOM_ASSET_ID = ''hk/v1/asset-id''"
definition MAX_SYMBOL_LEN :: nat where "MAX_SYMBOL_LEN = 16"
definition MAX_DECIMALS :: u8 where "MAX_DECIMALS = 18"
definition MAX_BURN_DESTINATION :: nat where "MAX_BURN_DESTINATION = 64"

record AssetPolicy =
  pol_mintable :: bool
  pol_freezable :: bool
  pol_pausable :: bool
  pol_pool_eligible :: bool

definition policy_default :: AssetPolicy where
  "policy_default = \<lparr>pol_mintable = False, pol_freezable = False, pol_pausable = False, pol_pool_eligible = False\<rparr>"

definition bool_u8 :: "bool \<Rightarrow> u8" where "bool_u8 b = (if b then 1 else 0)"

definition policy_bits :: "AssetPolicy \<Rightarrow> u8" where
  "policy_bits p =
     bool_u8 (pol_mintable p) OR push_bit 1 (bool_u8 (pol_freezable p))
     OR push_bit 2 (bool_u8 (pol_pausable p)) OR push_bit 3 (bool_u8 (pol_pool_eligible p))"

text \<open>The error of \<open>from_flags\<close> names the unknown character.\<close>

fun from_flags_loop :: "string \<Rightarrow> AssetPolicy \<Rightarrow> (AssetPolicy, char) outcome" where
  "from_flags_loop [] p = Ok p"
| "from_flags_loop (c # cs) p =
     (if c = CHR ''m'' then from_flags_loop cs (p\<lparr>pol_mintable := True\<rparr>)
      else if c = CHR ''f'' then from_flags_loop cs (p\<lparr>pol_freezable := True\<rparr>)
      else if c = CHR ''p'' then from_flags_loop cs (p\<lparr>pol_pausable := True\<rparr>)
      else if c = CHR ''s'' then from_flags_loop cs (p\<lparr>pol_pool_eligible := True\<rparr>)
      else if c = CHR ''-'' then from_flags_loop cs p
      else Err c)"

definition from_flags :: "string \<Rightarrow> (AssetPolicy, char) outcome" where
  "from_flags s = from_flags_loop s policy_default"

definition flags :: "AssetPolicy \<Rightarrow> string" where
  "flags p =
     (let s = (if pol_mintable p then ''m'' else []) @ (if pol_freezable p then ''f'' else [])
            @ (if pol_pausable p then ''p'' else []) @ (if pol_pool_eligible p then ''s'' else [])
      in if s = [] then ''-'' else s)"

record AssetInfo =
  ai_symbol :: string
  ai_decimals :: u8
  ai_issuer :: AccountId
  ai_policy :: AssetPolicy
  ai_supply :: Amount
  ai_burned :: Amount
  ai_paused :: bool
  ai_frozen :: "AccountId btree_set"
  ai_registered_at :: u64

definition commit_asset :: "AssetInfo \<Rightarrow> bytes" where
  "commit_asset i =
     h256_bytes (ai_issuer i) @ [of_nat (length (ai_symbol i))] @ str_bytes (ai_symbol i)
     @ [ai_decimals i] @ [policy_bits (ai_policy i)] @ [bool_u8 (ai_paused i)]
     @ u128_le (ai_supply i) @ u128_le (ai_burned i) @ u64_le (ai_registered_at i)
     @ usize_le (length (ai_frozen i)) @ concat (map h256_bytes (ai_frozen i))"

definition derive_asset_id :: "'x hash_env_scheme \<Rightarrow> AccountId \<Rightarrow> string \<Rightarrow> AssetId" where
  "derive_asset_id X issuer symbol = shake256_32 X DOM_ASSET_ID [h256_bytes issuer, str_bytes symbol]"

definition is_ascii_alphabetic :: "u8 \<Rightarrow> bool" where
  "is_ascii_alphabetic b \<longleftrightarrow> 65 \<le> b \<and> b \<le> 90 \<or> 97 \<le> b \<and> b \<le> 122"

definition is_ascii_alphanumeric :: "u8 \<Rightarrow> bool" where
  "is_ascii_alphanumeric b \<longleftrightarrow> is_ascii_alphabetic b \<or> 48 \<le> b \<and> b \<le> 57"

definition valid_symbol :: "string \<Rightarrow> bool" where
  "valid_symbol symbol =
     (let b = str_bytes symbol
      in if b = [] \<or> length b > MAX_SYMBOL_LEN \<or> \<not> is_ascii_alphabetic (b ! 0) then False
         else list_all (\<lambda>c. is_ascii_alphanumeric c \<or> c = 46 \<or> c = 95 \<or> c = 45) b)"

section \<open>Policies\<close>


lemma from_flags_flags: "from_flags (flags p) = Ok p"
  by (cases p; cases "pol_mintable p"; cases "pol_freezable p"; cases "pol_pausable p"; cases "pol_pool_eligible p")
    (simp_all add: flags_def from_flags_def policy_default_def)

lemma policy_bits_inj: "policy_bits p = policy_bits q \<longleftrightarrow> p = q"
  by (cases p; cases q; cases "pol_mintable p"; cases "pol_freezable p"; cases "pol_pausable p"; cases "pol_pool_eligible p";
      cases "pol_mintable q"; cases "pol_freezable q"; cases "pol_pausable q"; cases "pol_pool_eligible q")
    (simp_all add: policy_bits_def bool_u8_def)

lemma valid_symbol_length: "valid_symbol s \<Longrightarrow> s \<noteq> [] \<and> length s \<le> 16"
  by (auto simp: valid_symbol_def Let_def MAX_SYMBOL_LEN_def str_bytes_def split: if_splits)

section \<open>Commitment bytes\<close>

lemma concat_h256_inj:
  "length xs = length ys \<Longrightarrow> concat (map h256_bytes xs) @ r = concat (map h256_bytes ys) @ r' \<Longrightarrow> xs = ys \<and> r = r'"
proof (induction xs arbitrary: ys)
  case (Cons x xs)
  then obtain y ys' where "ys = y # ys'" by (cases ys) auto
  with Cons show ?case by (auto simp: append_eq_append_conv)
qed simp

lemma bool_u8_inj [simp]: "bool_u8 a = bool_u8 b \<longleftrightarrow> a = b"
  by (simp add: bool_u8_def)

text \<open>Entries with a symbol a byte can count: the bytes determine the entry, also in front of
  other data.\<close>

lemma commit_asset_inj:
  assumes eq: "commit_asset i @ r = commit_asset j @ r'"
    and "length (ai_symbol i) < 256" "length (ai_symbol j) < 256"
    and "length (ai_frozen i) < 2 ^ 64" "length (ai_frozen j) < 2 ^ 64"
  shows "i = j \<and> r = r'"
proof -
  have a: "ai_issuer i = ai_issuer j" and s: "(of_nat (length (ai_symbol i)) :: u8) = of_nat (length (ai_symbol j))"
    using eq unfolding commit_asset_def by (simp_all add: append_eq_append_conv)
  have "length (ai_symbol i) = length (ai_symbol j)"
    using arg_cong [OF s, of unat] assms(2,3) by (simp add: unat_of_nat)
  then have b: "ai_symbol i = ai_symbol j"
    using eq a unfolding commit_asset_def by (simp add: append_eq_append_conv)
  have c: "ai_decimals i = ai_decimals j" "ai_policy i = ai_policy j" "ai_paused i = ai_paused j"
    "ai_supply i = ai_supply j" "ai_burned i = ai_burned j" "ai_registered_at i = ai_registered_at j"
    and f: "usize_le (length (ai_frozen i)) = usize_le (length (ai_frozen j))"
    and t: "concat (map h256_bytes (ai_frozen i)) @ r = concat (map h256_bytes (ai_frozen j)) @ r'"
    using eq a b unfolding commit_asset_def by (simp_all add: append_eq_append_conv policy_bits_inj)
  have "length (ai_frozen i) = length (ai_frozen j)" using usize_le_inj [OF f] assms(4,5) by simp
  with t have "ai_frozen i = ai_frozen j \<and> r = r'" by (rule concat_h256_inj [rotated])
  with a b c show ?thesis by (simp add: AssetInfo.equality)
qed

section \<open>Properties\<close>

text \<open>Policy spellings round trip, the policy byte is faithful, and the commitment bytes of a
  registry entry determine the entry, whatever follows them.\<close>

lemma asset_encodings_faithful:
  assumes "length (ai_symbol i) \<le> MAX_SYMBOL_LEN" "length (ai_symbol j) \<le> MAX_SYMBOL_LEN"
    and "length (ai_frozen i) < 2 ^ 64" "length (ai_frozen j) < 2 ^ 64"
  shows "from_flags (flags p) = Ok p \<and> (policy_bits p = policy_bits q \<longleftrightarrow> p = q)
    \<and> (commit_asset i @ r = commit_asset j @ r' \<longleftrightarrow> i = j \<and> r = r')"
  using from_flags_flags policy_bits_inj commit_asset_inj [of i r j r'] assms
  by (auto simp: MAX_SYMBOL_LEN_def)

definition sample_asset :: AssetInfo where
  "sample_asset = \<lparr>ai_symbol = ''USDC'', ai_decimals = 6, ai_issuer = 5, ai_policy = policy_default, ai_supply = 0,
     ai_burned = 0, ai_paused = False, ai_frozen = [], ai_registered_at = 1\<rparr>"

end
