(* ===== verification/HK_Lamport.thy ===== *)
theory HK_Lamport
  imports HK_Hash
begin

text \<open>
  The Lamport one-time signature of the account ratchet (\<^verbatim>\<open>hk-crypto/src/lamport.rs\<close>).
  The lemmas show that a signature made with a derived key verifies under its public key, and
  which chunks verification inspects.
\<close>

datatype CryptoError = VerifyFailed | KeyExhausted | IndexReused u64 | Unimplemented string

definition CHUNK :: nat where "CHUNK = 32"
definition N_CHUNKS_SK :: nat where "N_CHUNKS_SK = 512"
definition SK_LEN :: nat where "SK_LEN = N_CHUNKS_SK * CHUNK"
definition PK_LEN :: nat where "PK_LEN = N_CHUNKS_SK * CHUNK"
definition SIG_LEN :: nat where "SIG_LEN = 256 * CHUNK"

definition msg_bits :: nat where "msg_bits = 256"

text \<open>\<open>&bytes[j * CHUNK..(j + 1) * CHUNK]\<close>.\<close>

definition chunk :: "bytes \<Rightarrow> nat \<Rightarrow> bytes" where
  "chunk bs j = take CHUNK (drop (j * CHUNK) bs)"

text \<open>\<open>(msg32[i / 8] >> (7 - (i % 8))) & 1\<close>, and the pair member it selects.\<close>

definition msg_bit :: "H256 \<Rightarrow> nat \<Rightarrow> nat" where
  "msg_bit msg32 i = unat (drop_bit (7 - i mod 8) (h256_bytes msg32 ! (i div 8)) AND 1)"

definition sel :: "H256 \<Rightarrow> nat \<Rightarrow> nat" where
  "sel msg32 i = 2 * i + msg_bit msg32 i"

definition sk_chunk :: "'x hash_env_scheme \<Rightarrow> bytes \<Rightarrow> u64 \<Rightarrow> nat \<Rightarrow> H256" where
  "sk_chunk X seed index j = shake256_32 X DOM_LAMPORT_SK [seed, u64_le index, u32_le (of_nat j)]"

definition lamport_leaf :: "'x hash_env_scheme \<Rightarrow> bytes \<Rightarrow> H256" where
  "lamport_leaf X s = shake256_32 X DOM_LAMPORT_LEAF [s]"

definition keygen :: "'x hash_env_scheme \<Rightarrow> bytes \<Rightarrow> u64 \<Rightarrow> bytes \<times> bytes" where
  "keygen X seed index =
     (concat (map (\<lambda>j. h256_bytes (sk_chunk X seed index j)) [0..<N_CHUNKS_SK]),
      concat (map (\<lambda>j. h256_bytes (lamport_leaf X (h256_bytes (sk_chunk X seed index j)))) [0..<N_CHUNKS_SK]))"

definition pk_commit :: "'x hash_env_scheme \<Rightarrow> bytes \<Rightarrow> H256" where
  "pk_commit X pk = shake256_32 X DOM_LAMPORT_PK [pk]"

definition lamport_sign :: "bytes \<Rightarrow> H256 \<Rightarrow> bytes" where
  "lamport_sign sk msg32 = concat (map (\<lambda>i. chunk sk (sel msg32 i)) [0..<msg_bits])"

definition lamport_verify :: "'x hash_env_scheme \<Rightarrow> bytes \<Rightarrow> H256 \<Rightarrow> bytes \<Rightarrow> (unit, CryptoError) outcome" where
  "lamport_verify X pk msg32 sig =
     (if length pk \<noteq> PK_LEN \<or> length sig \<noteq> SIG_LEN then Err VerifyFailed
      else if list_all (\<lambda>i. h256_bytes (lamport_leaf X (chunk sig i)) = chunk pk (sel msg32 i)) [0..<msg_bits]
      then Ok () else Err VerifyFailed)"

section \<open>Signing round trip\<close>

lemma length_concat_upt: "(\<And>j. length (f j) = c) \<Longrightarrow> length (concat (map f [0..<n])) = n * c"
  by (induction n) auto

lemma chunk_concat_upt:
  assumes "\<And>j. length (f j) = CHUNK" and "j < n"
  shows "chunk (concat (map f [0..<n])) j = f j"
proof -
  have "[0..<n] = [0..<j] @ j # [Suc j..<n]"
    using assms(2) upt_add_eq_append [of 0 j "n - j"] by (simp add: upt_conv_Cons)
  then have "concat (map f [0..<n]) = concat (map f [0..<j]) @ f j @ concat (map f [Suc j..<n])"
    by simp
  then show ?thesis
    using assms(1) length_concat_upt [of f CHUNK j] by (simp add: chunk_def)
qed

lemma msg_bit_le_1: "msg_bit m i \<le> 1"
proof -
  have "drop_bit (7 - i mod 8) (h256_bytes m ! (i div 8)) AND 1 \<le> (1 :: u8)"
    by (rule word_and_le1)
  then show ?thesis
    unfolding msg_bit_def by (metis unat_1 word_le_nat_alt)
qed

lemma sel_bound: "i < msg_bits \<Longrightarrow> sel m i < N_CHUNKS_SK"
  using msg_bit_le_1 [of m i] by (simp add: sel_def msg_bits_def N_CHUNKS_SK_def)

lemma keygen_chunks:
  assumes "keygen X seed index = (sk, pk)" and "j < N_CHUNKS_SK"
  shows "chunk sk j = h256_bytes (sk_chunk X seed index j)"
    and "chunk pk j = h256_bytes (lamport_leaf X (chunk sk j))"
proof -
  show sk: "chunk sk j = h256_bytes (sk_chunk X seed index j)"
    using assms by (auto simp: keygen_def chunk_concat_upt CHUNK_def)
  show "chunk pk j = h256_bytes (lamport_leaf X (chunk sk j))"
    unfolding sk using assms by (auto simp: keygen_def chunk_concat_upt CHUNK_def)
qed

lemma keygen_length:
  assumes "keygen X seed index = (sk, pk)"
  shows "length sk = SK_LEN" "length pk = PK_LEN"
  using assms by (auto simp: keygen_def SK_LEN_def PK_LEN_def length_concat_upt CHUNK_def)

lemma lamport_sign_chunks:
  assumes "keygen X seed index = (sk, pk)"
  shows "length (lamport_sign sk m) = SIG_LEN"
    and "i < msg_bits \<Longrightarrow> chunk (lamport_sign sk m) i = chunk sk (sel m i)"
proof -
  have len: "length (chunk sk (sel m j)) = CHUNK" if "j < msg_bits" for j
    using keygen_chunks(1) [OF assms sel_bound [OF that]] by (simp add: CHUNK_def)
  let ?f = "\<lambda>j. if j < msg_bits then chunk sk (sel m j) else replicate CHUNK 0"
  have eq: "lamport_sign sk m = concat (map ?f [0..<msg_bits])"
    unfolding lamport_sign_def by (intro arg_cong [where f = concat] map_cong) auto
  have lenf: "length (?f j) = CHUNK" for j
    using len by simp
  show "length (lamport_sign sk m) = SIG_LEN"
    unfolding eq using length_concat_upt [of ?f, OF lenf] by (simp add: SIG_LEN_def msg_bits_def)
  show "i < msg_bits \<Longrightarrow> chunk (lamport_sign sk m) i = chunk sk (sel m i)"
    unfolding eq using chunk_concat_upt [of ?f, OF lenf] by simp
qed

lemma lamport_roundtrip:
  assumes "keygen X seed index = (sk, pk)"
  shows "lamport_verify X pk m (lamport_sign sk m) = Ok ()"
proof -
  have "h256_bytes (lamport_leaf X (chunk (lamport_sign sk m) i)) = chunk pk (sel m i)" if "i < msg_bits" for i
    using keygen_chunks(2) [OF assms sel_bound [OF that]] lamport_sign_chunks(2) [OF assms that] by simp
  then show ?thesis
    using keygen_length(2) [OF assms] lamport_sign_chunks(1) [OF assms]
    by (simp add: lamport_verify_def list_all_iff)
qed

lemma lamport_verify_not_Panic [simp]: "lamport_verify X pk m sig \<noteq> Panic"
  by (simp add: lamport_verify_def)

text \<open>An accepted signature reveals, for every message bit, a preimage of the public-key chunk
  that bit selects; two messages that differ in bit \<open>i\<close> select different chunks there.\<close>

lemma lamport_verify_reveals:
  assumes "lamport_verify X pk m sig = Ok ()" and "i < msg_bits"
  shows "h256_bytes (lamport_leaf X (chunk sig i)) = chunk pk (sel m i)"
  using assms by (auto simp: lamport_verify_def list_all_iff split: if_splits)

section \<open>Properties\<close>

text \<open>Signing round trip. A signature made with the key derived for a ratchet index verifies
  under that index's public key, for every message.\<close>

lemma lamport_sign_verifies:
  "case keygen X seed index of (sk, pk) \<Rightarrow> lamport_verify X pk m (lamport_sign sk m) = Ok ()"
  using lamport_roundtrip by (auto split: prod.split)


end
