(* ===== verification/HK_Merkle.thy ===== *)
theory HK_Merkle
  imports HK_Hash
begin

text \<open>
  Merkle trees over an arbitrary node hash, as the circuit and the shielded pool use them: the
  ladder of empty subtrees, the reduction of one level, the path a wallet rebuilds, the fold the
  circuit runs, and the append-only frontier with its root. The reference is \<open>subtree\<close>, the
  plain recursive tree over all leaf slots; the interface locale \<open>append_only_tree\<close> states what
  an append-only commitment tree promises with respect to it.
\<close>

type_synonym node_hash = "H256 \<Rightarrow> H256 \<Rightarrow> H256"

section \<open>Definitions\<close>

fun empty_node :: "node_hash \<Rightarrow> nat \<Rightarrow> H256" where
  "empty_node node 0 = 0"
| "empty_node node (Suc l) = node (empty_node node l) (empty_node node l)"

text \<open>The ladder array: \<open>e[0]\<close> is zero and \<open>e[l + 1] = node(e[l], e[l])\<close>.\<close>

fun ladder :: "node_hash \<Rightarrow> nat \<Rightarrow> H256 list" where
  "ladder node 0 = [0]"
| "ladder node (Suc d) = (let e = ladder node d in e @ [node (e ! d) (e ! d)])"

text \<open>The fold of an authentication path, bit \<open>level\<close> of the index choosing the side.\<close>

fun fold_path :: "node_hash \<Rightarrow> H256 list \<Rightarrow> nat \<Rightarrow> u64 \<Rightarrow> H256 \<Rightarrow> H256" where
  "fold_path node [] level idx cur = cur"
| "fold_path node (sib # sibs) level idx cur =
     fold_path node sibs (Suc level) idx
       (if drop_bit level idx AND 1 = 1 then node sib cur else node cur sib)"

text \<open>One level up, a missing right sibling replaced by \<open>e\<close>.\<close>

fun next_level :: "node_hash \<Rightarrow> H256 \<Rightarrow> H256 list \<Rightarrow> H256 list" where
  "next_level node e [] = []"
| "next_level node e [a] = [node a e]"
| "next_level node e (a # b # rest) = node a b # next_level node e rest"

text \<open>One level up by \<open>chunks(2)\<close>: a lone last element is an index out of range.\<close>

fun pair_level :: "node_hash \<Rightarrow> H256 list \<Rightarrow> (H256 list, unit) outcome" where
  "pair_level node [] = Ok []"
| "pair_level node [a] = Panic"
| "pair_level node (a # b # rest) = bind_ok (pair_level node rest) (\<lambda>r. Ok (node a b # r))"

text \<open>The reference tree over all leaf slots.\<close>

fun subtree :: "node_hash \<Rightarrow> (nat \<Rightarrow> H256) \<Rightarrow> nat \<Rightarrow> nat \<Rightarrow> H256" where
  "subtree node f 0 p = f p"
| "subtree node f (Suc d) p = node (subtree node f d (2 * p)) (subtree node f d (2 * p + 1))"

definition slot :: "H256 list \<Rightarrow> nat \<Rightarrow> H256" where
  "slot xs i = (if i < length xs then xs ! i else 0)"

definition sibling :: "nat \<Rightarrow> nat" where
  "sibling p = (if even p then p + 1 else p - 1)"

section \<open>The ladder and padded levels\<close>

lemma length_ladder [simp]: "length (ladder node d) = Suc d"
  by (induction d) (auto simp: Let_def)

lemma ladder_nth: "l \<le> d \<Longrightarrow> ladder node d ! l = empty_node node l"
proof (induction d arbitrary: l)
  case (Suc d)
  then show ?case by (cases "l = Suc d") (auto simp: Let_def nth_append)
qed simp

lemma subtree_empty:
  "(\<And>i. p * 2 ^ d \<le> i \<Longrightarrow> i < (p + 1) * 2 ^ d \<Longrightarrow> f i = 0) \<Longrightarrow> subtree node f d p = empty_node node d"
proof (induction d arbitrary: p)
  case (Suc d)
  have "subtree node f d (2 * p) = empty_node node d"
    by (rule Suc.IH) (rule Suc.prems, auto simp: algebra_simps)
  moreover have "subtree node f d (2 * p + 1) = empty_node node d"
    by (rule Suc.IH) (rule Suc.prems, auto simp: algebra_simps)
  ultimately show ?case by simp
qed simp

lemma subtree_cong:
  "(\<And>i. p * 2 ^ d \<le> i \<Longrightarrow> i < (p + 1) * 2 ^ d \<Longrightarrow> f i = g i) \<Longrightarrow> subtree node f d p = subtree node g d p"
proof (induction d arbitrary: p)
  case (Suc d)
  have "subtree node f d (2 * p) = subtree node g d (2 * p)"
    by (rule Suc.IH) (rule Suc.prems, auto simp: algebra_simps)
  moreover have "subtree node f d (2 * p + 1) = subtree node g d (2 * p + 1)"
    by (rule Suc.IH) (rule Suc.prems, auto simp: algebra_simps)
  ultimately show ?case by simp
qed simp

text \<open>A level list stands for the whole level, empty subtrees beyond its end.\<close>

definition pad :: "node_hash \<Rightarrow> nat \<Rightarrow> H256 list \<Rightarrow> nat \<Rightarrow> H256" where
  "pad node l level p = (if p < length level then level ! p else empty_node node l)"

lemma pad_Cons [simp]: "pad node l (a # xs) 0 = a" "pad node l (a # xs) (Suc p) = pad node l xs p"
  by (auto simp: pad_def)

lemma pad_0: "pad node 0 xs = subtree node (slot xs) 0"
  by (auto simp: pad_def slot_def)

lemma next_level_pad:
  assumes "e = empty_node node l"
  shows "pad node (Suc l) (next_level node e level) p = node (pad node l level (2 * p)) (pad node l level (2 * p + 1))"
  using assms
proof (induction node e level arbitrary: p rule: next_level.induct)
  case (2 node e a)
  then show ?case by (cases p) (auto simp: pad_def)
next
  case (3 node e a b rest)
  then show ?case by (cases p) simp_all
qed (simp add: pad_def)

lemma next_level_nonempty [simp]: "next_level node e level = [] \<longleftrightarrow> level = []"
  by (cases "(node, e, level)" rule: next_level.cases) auto

lemma length_next_level [simp]: "length (next_level node e level) = (length level + 1) div 2"
  by (induction node e level rule: next_level.induct) auto

lemma pair_level_next: "even (length level) \<Longrightarrow> pair_level node level = Ok (next_level node e level)"
  by (induction node level rule: pair_level.induct) auto

lemma next_level_subtree:
  assumes "pad node l level = subtree node f l"
  shows "pad node (Suc l) (next_level node (empty_node node l) level) = subtree node f (Suc l)"
  by (rule ext) (simp add: next_level_pad assms)

section \<open>Paths\<close>

lemma and_one_iff: "drop_bit l idx AND 1 = 1 \<longleftrightarrow> odd (unat idx div 2 ^ l)" for idx :: "'a::len word"
proof -
  have "bit idx l \<longleftrightarrow> bit (unat idx) l" by (simp add: bit_unsigned_iff)
  then show ?thesis by (metis bit_iff_and_drop_bit_eq_1 bit_iff_odd)
qed

text \<open>A node with its sibling, on the side its position says, is the node above.\<close>

lemma subtree_combine:
  assumes "odd q \<Longrightarrow> a = subtree node f l (q - 1)" and "even q \<Longrightarrow> b = subtree node f l (q + 1)"
  shows "(if odd q then node a (subtree node f l q) else node (subtree node f l q) b) = subtree node f (Suc l) (q div 2)"
  using assms by (auto elim!: oddE evenE)

lemma fold_path_reaches:
  assumes "length sibs = n"
    and "\<And>k. k < n \<Longrightarrow> sibs ! k = subtree node f (l + k) (sibling (unat idx div 2 ^ (l + k)))"
  shows "fold_path node sibs l idx (subtree node f l (unat idx div 2 ^ l))
    = subtree node f (l + n) (unat idx div 2 ^ (l + n))"
  using assms
proof (induction sibs arbitrary: l n)
  case (Cons s sibs)
  let ?p = "unat idx div 2 ^ l"
  have n: "n = Suc (length sibs)" using Cons.prems(1) by simp
  have s: "s = subtree node f l (sibling ?p)" using Cons.prems(2) [of 0] n by simp
  have half: "unat idx div 2 ^ Suc l = ?p div 2"
    by (metis div_mult2_eq mult.commute power_Suc)
  have up: "(if drop_bit l idx AND 1 = 1 then node s (subtree node f l ?p) else node (subtree node f l ?p) s)
      = subtree node f (Suc l) (unat idx div 2 ^ Suc l)"
    unfolding half and_one_iff by (rule subtree_combine) (simp_all add: s sibling_def)
  have "fold_path node sibs (Suc l) idx (subtree node f (Suc l) (unat idx div 2 ^ Suc l))
      = subtree node f (Suc l + length sibs) (unat idx div 2 ^ (Suc l + length sibs))"
    by (rule Cons.IH) (use Cons.prems(2) [of "Suc _"] n in auto)
  with up n show ?case by simp
qed simp

section \<open>The contract of an append-only commitment tree\<close>

text \<open>
  \<open>represents t xs\<close> reads: \<open>t\<close> is the state after the leaves \<open>xs\<close> were appended in order. The
  contract: appends hand out consecutive indices until the capacity is reached, a refused append
  changes nothing, and the root is a function of the leaves alone.
\<close>

locale append_only_tree =
  fixes new_tree :: "'t"
    and append_leaf :: "'t \<Rightarrow> 'h \<Rightarrow> u64 option \<times> 't"
    and tree_root :: "'t \<Rightarrow> 'h"
    and capacity :: nat
    and represents :: "'t \<Rightarrow> 'h list \<Rightarrow> bool"
    and root_of_leaves :: "'h list \<Rightarrow> 'h"
  assumes new_represents: "represents new_tree []"
    and append_ok: "represents t xs \<Longrightarrow> length xs < capacity \<Longrightarrow>
      \<exists>t'. append_leaf t x = (Some (of_nat (length xs)), t') \<and> represents t' (xs @ [x])"
    and append_full: "represents t xs \<Longrightarrow> capacity \<le> length xs \<Longrightarrow> append_leaf t x = (None, t)"
    and root_ok: "represents t xs \<Longrightarrow> tree_root t = root_of_leaves xs"
begin

lemma append_all_represents:
  "represents t xs \<Longrightarrow> length xs + length ys \<le> capacity \<Longrightarrow>
    represents (for_each ys (\<lambda>y t. snd (append_leaf t y)) t) (xs @ ys)"
proof (induction ys arbitrary: t xs)
  case (Cons y ys)
  then obtain t' where "append_leaf t y = (Some (of_nat (length xs)), t')" "represents t' (xs @ [y])"
    using append_ok [of t xs y] by auto
  with Cons.IH [of t' "xs @ [y]"] Cons.prems(2) show ?case by simp
qed simp

lemma build_root:
  "length ys \<le> capacity \<Longrightarrow>
    tree_root (for_each ys (\<lambda>y t. snd (append_leaf t y)) new_tree) = root_of_leaves ys"
  using append_all_represents [OF new_represents, of ys] root_ok by simp

text \<open>Two trees with the same leaves have the same root, whatever their history.\<close>

lemma root_agrees: "represents t xs \<Longrightarrow> represents u xs \<Longrightarrow> tree_root t = tree_root u"
  by (simp add: root_ok)

end

end
