(* ===== verification/HK_Circuit.thy ===== *)
theory HK_Circuit
  imports HK_Merkle
begin

text \<open>
  The shielded-spend and mint statements (\<^verbatim>\<open>zkvm-bakeoff/circuit/src/lib.rs\<close>) and the digest of
  the aggregation tier (\<^verbatim>\<open>agg.rs\<close>). SHA-256 is the \<open>sha256\<close> field of \<open>hash_env\<close>. The lemmas show
  the WOTS round trip, that a WOTS signature of one message can never be walked forward to
  another, that a wallet's authorization folds to its address, exactly which witnesses the
  statement accepts, and that accepted spends conserve value.
\<close>

section \<open>Constants and data\<close>

definition TREE_DEPTH :: nat where "TREE_DEPTH = 32"
definition WOTS_MSG_DIGITS :: nat where "WOTS_MSG_DIGITS = 64"
definition WOTS_CSUM_DIGITS :: nat where "WOTS_CSUM_DIGITS = 3"
definition WOTS_CHAINS :: nat where "WOTS_CHAINS = WOTS_MSG_DIGITS + WOTS_CSUM_DIGITS"
definition WOTS_W :: u16 where "WOTS_W = 16"
definition DOM_CM :: u8 where "DOM_CM = 1"
definition DOM_NODE :: u8 where "DOM_NODE = 2"
definition DOM_PKD :: u8 where "DOM_PKD = 3"
definition DOM_NF :: u8 where "DOM_NF = 4"
definition DOM_OTS :: u8 where "DOM_OTS = 5"
definition DOM_SK :: u8 where "DOM_SK = 6"
definition DOM_TXBIND :: u8 where "DOM_TXBIND = 7"
definition DOM_OTS_NODE :: u8 where "DOM_OTS_NODE = 8"
definition DOM_ADDR :: u8 where "DOM_ADDR = 9"
definition DOM_NK :: u8 where "DOM_NK = 10"
definition DOM_NK_SEED :: u8 where "DOM_NK_SEED = 11"
definition DOM_LEAF_SEED :: u8 where "DOM_LEAF_SEED = 12"
definition SPEND_TREE_DEPTH :: nat where "SPEND_TREE_DEPTH = 10"

definition sha :: "'x hash_env_scheme \<Rightarrow> bytes list \<Rightarrow> H256" where
  "sha X parts = sha256 X (concat parts)"

record Note =
  nt_value :: u64
  nt_owner :: H256
  nt_rho :: H256
  nt_rcm :: H256

record MerklePath =
  mp_siblings :: "H256 list"
  mp_index :: u64

record WotsSig =
  ws_sig :: "H256 list"

record SpendWitness =
  sw_in_note :: Note
  sw_path :: MerklePath
  sw_sig :: WotsSig
  sw_ots_path :: MerklePath
  sw_nk :: H256
  sw_out_note :: Note
  sw_out2_note :: Note
  sw_fee :: u64
  sw_tx_binding :: H256

record SpendPublic =
  sp_merkle_root :: H256
  sp_nullifier :: H256
  sp_out_commitment :: H256
  sp_out2_commitment :: H256
  sp_fee :: u64
  sp_tx_binding :: H256

datatype CircuitError = BadPathLength | BadOtsPath | BadSpendSig | OwnerMismatch | ValueConservation

section \<open>WOTS\<close>

definition wots_step :: "'x hash_env_scheme \<Rightarrow> u8 \<Rightarrow> H256 \<Rightarrow> H256" where
  "wots_step X chain x = sha X [[DOM_OTS], [chain], h256_bytes x]"

definition wots_chain :: "'x hash_env_scheme \<Rightarrow> u8 \<Rightarrow> H256 \<Rightarrow> u16 \<Rightarrow> H256" where
  "wots_chain X chain x n = loop_n (unat n) (wots_step X chain) x"

text \<open>The nibbles of the message, high half first; the checksum of a list of digits; the digits.\<close>

definition nibbles :: "H256 \<Rightarrow> u8 list" where
  "nibbles msg = concat (map (\<lambda>byte. [drop_bit 4 byte, byte AND 15]) (h256_bytes msg))"

definition wots_csum :: "u8 list \<Rightarrow> u16" where
  "wots_csum ds = for_each ds (\<lambda>digit csum. csum + ((WOTS_W - 1) - ucast digit)) 0"

definition wots_digits :: "H256 \<Rightarrow> u8 list" where
  "wots_digits msg =
     (let csum = wots_csum (nibbles msg)
      in nibbles msg @ [ucast (drop_bit 8 csum AND 15), ucast (drop_bit 4 csum AND 15), ucast (csum AND 15)])"

definition pk_digest :: "'x hash_env_scheme \<Rightarrow> H256 list \<Rightarrow> H256" where
  "pk_digest X pk = sha256 X ([DOM_PKD] @ concat (map h256_bytes pk))"

definition wots_sk :: "'x hash_env_scheme \<Rightarrow> bytes \<Rightarrow> nat \<Rightarrow> H256" where
  "wots_sk X seed i = sha X [[DOM_SK], seed, [of_nat i]]"

definition wots_owner :: "'x hash_env_scheme \<Rightarrow> bytes \<Rightarrow> H256" where
  "wots_owner X seed =
     pk_digest X (map (\<lambda>i. wots_chain X (of_nat i) (wots_sk X seed i) (WOTS_W - 1)) [0..<WOTS_CHAINS])"

definition wots_sign :: "'x hash_env_scheme \<Rightarrow> bytes \<Rightarrow> H256 \<Rightarrow> WotsSig" where
  "wots_sign X seed msg =
     (let digits = wots_digits msg
      in \<lparr>ws_sig = map (\<lambda>i. wots_chain X (of_nat i) (wots_sk X seed i) (ucast (digits ! i))) [0..<WOTS_CHAINS]\<rparr>)"

definition wots_recover_owner :: "'x hash_env_scheme \<Rightarrow> H256 list \<Rightarrow> H256 \<Rightarrow> H256 option" where
  "wots_recover_owner X sig msg =
     (if length sig \<noteq> WOTS_CHAINS then None
      else let digits = wots_digits msg
           in Some (pk_digest X (map (\<lambda>i. wots_chain X (of_nat i) (sig ! i) ((WOTS_W - 1) - ucast (digits ! i)))
                [0..<WOTS_CHAINS])))"

section \<open>Commitments and addresses\<close>

definition commit_note :: "'x hash_env_scheme \<Rightarrow> Note \<Rightarrow> H256" where
  "commit_note X n = sha X [[DOM_CM], u64_le (nt_value n), h256_bytes (nt_owner n), h256_bytes (nt_rho n), h256_bytes (nt_rcm n)]"

definition merkle_node :: "'x hash_env_scheme \<Rightarrow> H256 \<Rightarrow> H256 \<Rightarrow> H256" where
  "merkle_node X left right = sha X [[DOM_NODE], h256_bytes left, h256_bytes right]"

definition nullifier :: "'x hash_env_scheme \<Rightarrow> H256 \<Rightarrow> H256 \<Rightarrow> H256" where
  "nullifier X nk rho = sha X [[DOM_NF], h256_bytes nk, h256_bytes rho]"

definition ots_node :: "'x hash_env_scheme \<Rightarrow> H256 \<Rightarrow> H256 \<Rightarrow> H256" where
  "ots_node X left right = sha X [[DOM_OTS_NODE], h256_bytes left, h256_bytes right]"

definition address_tag :: "'x hash_env_scheme \<Rightarrow> H256 \<Rightarrow> H256 \<Rightarrow> H256" where
  "address_tag X root nk =
     (let nk_commit = sha X [[DOM_NK], h256_bytes nk]
      in sha X [[DOM_ADDR], h256_bytes root, h256_bytes nk_commit])"

definition empty_roots :: "'x hash_env_scheme \<Rightarrow> H256 list" where
  "empty_roots X = ladder (merkle_node X) TREE_DEPTH"

definition tx_binding_for :: "'x hash_env_scheme \<Rightarrow> H256 \<Rightarrow> u64 \<Rightarrow> H256" where
  "tx_binding_for X credit_account fee = sha X [[DOM_TXBIND], h256_bytes credit_account, u64_le fee]"

section \<open>The spend tree of an address\<close>

definition spend_leaf_seed :: "'x hash_env_scheme \<Rightarrow> bytes \<Rightarrow> u32 \<Rightarrow> H256" where
  "spend_leaf_seed X master index = sha X [[DOM_LEAF_SEED], master, u32_le index]"

definition ots_empty_roots :: "'x hash_env_scheme \<Rightarrow> H256 list" where
  "ots_empty_roots X = ladder (ots_node X) SPEND_TREE_DEPTH"

text \<open>\<open>1u32 << h\<close> masks the shift amount in the release profile.\<close>

definition shl_one :: "u32 \<Rightarrow> u32" where
  "shl_one h = push_bit (unat h mod 32) 1"

definition spend_tree_leaves :: "'x hash_env_scheme \<Rightarrow> bytes \<Rightarrow> u32 \<Rightarrow> H256 list" where
  "spend_tree_leaves X master h =
     map (\<lambda>i. wots_owner X (h256_bytes (spend_leaf_seed X master (of_nat i)))) [0..<unat (shl_one h)]"

fun reduce_levels :: "node_hash \<Rightarrow> nat \<Rightarrow> H256 list \<Rightarrow> (H256 list, unit) outcome" where
  "reduce_levels node 0 level = Ok level"
| "reduce_levels node (Suc n) level = bind_ok (pair_level node level) (reduce_levels node n)"

definition spend_root :: "'x hash_env_scheme \<Rightarrow> bytes \<Rightarrow> u32 \<Rightarrow> (H256, unit) outcome" where
  "spend_root X master h =
     bind_ok (reduce_levels (ots_node X) (unat h) (spend_tree_leaves X master h)) (\<lambda>level.
       if level = [] then Panic
       else Ok (for_each [unat h..<SPEND_TREE_DEPTH]
              (\<lambda>l root. ots_node X root (ots_empty_roots X ! l)) (level ! 0)))"

definition derive_nk :: "'x hash_env_scheme \<Rightarrow> bytes \<Rightarrow> H256" where
  "derive_nk X master = sha X [[DOM_NK_SEED], master]"

fun auth_siblings :: "node_hash \<Rightarrow> nat \<Rightarrow> H256 list \<Rightarrow> nat \<Rightarrow> H256 list \<Rightarrow> (H256 list, unit) outcome" where
  "auth_siblings node 0 level idx sibs = Ok sibs"
| "auth_siblings node (Suc n) level idx sibs =
     (if idx XOR 1 < length level
      then bind_ok (pair_level node level) (\<lambda>next.
             auth_siblings node n next (drop_bit 1 idx) (sibs @ [level ! (idx XOR 1)]))
      else Panic)"

definition spend_auth :: "'x hash_env_scheme \<Rightarrow> bytes \<Rightarrow> u32 \<Rightarrow> u32 \<Rightarrow> H256 \<Rightarrow> (WotsSig \<times> MerklePath, unit) outcome" where
  "spend_auth X master h index msg =
     (let sig = wots_sign X (h256_bytes (spend_leaf_seed X master index)) msg
      in bind_ok (auth_siblings (ots_node X) (unat h) (spend_tree_leaves X master h) (unat index) []) (\<lambda>sibs.
           Ok (sig, \<lparr>mp_siblings = sibs @ map (\<lambda>l. ots_empty_roots X ! l) [unat h..<SPEND_TREE_DEPTH],
                     mp_index = u32_as_u64 index\<rparr>)))"

section \<open>The statements\<close>

definition run :: "'x hash_env_scheme \<Rightarrow> SpendWitness \<Rightarrow> (SpendPublic, CircuitError) outcome" where
  "run X w =
     (if length (mp_siblings (sw_path w)) \<noteq> TREE_DEPTH then Err BadPathLength
      else if length (mp_siblings (sw_ots_path w)) \<noteq> SPEND_TREE_DEPTH then Err BadOtsPath
      else
        let merkle_root = fold_path (merkle_node X) (mp_siblings (sw_path w)) 0 (mp_index (sw_path w))
                            (commit_note X (sw_in_note w))
        in bind_ok (ok_or (wots_recover_owner X (ws_sig (sw_sig w)) (sw_tx_binding w)) BadSpendSig) (\<lambda>leaf.
           let recovered_root = fold_path (ots_node X) (mp_siblings (sw_ots_path w)) 0 (mp_index (sw_ots_path w)) leaf
           in if address_tag X recovered_root (sw_nk w) \<noteq> nt_owner (sw_in_note w) then Err OwnerMismatch
              else let nf = nullifier X (sw_nk w) (nt_rho (sw_in_note w))
                   in (case checked_add (nt_value (sw_out_note w)) (nt_value (sw_out2_note w)) of
                         None \<Rightarrow> Err ValueConservation
                       | Some outs \<Rightarrow>
                           (case checked_add outs (sw_fee w) of
                              None \<Rightarrow> Err ValueConservation
                            | Some tot \<Rightarrow>
                                if nt_value (sw_in_note w) \<noteq> tot then Err ValueConservation
                                else Ok \<lparr>sp_merkle_root = merkle_root, sp_nullifier = nf,
                                         sp_out_commitment = commit_note X (sw_out_note w),
                                         sp_out2_commitment = commit_note X (sw_out2_note w),
                                         sp_fee = sw_fee w, sp_tx_binding = sw_tx_binding w\<rparr>))))"

text \<open>The prover-side witness builder.\<close>

definition build_valid_spend :: "'x hash_env_scheme \<Rightarrow> u8 \<Rightarrow> (SpendWitness, unit) outcome" where
  "build_valid_spend X seed =
     (let master = [seed];
          tx_binding = sha X [[0xAA], [seed]]
      in bind_ok (spend_root X master 2) (\<lambda>root.
         let nk = derive_nk X master;
             owner = address_tag X root nk
         in bind_ok (spend_auth X master 2 0 tx_binding) (\<lambda>(sig, ots_path).
            Ok \<lparr>sw_in_note = \<lparr>nt_value = 1000, nt_owner = owner,
                               nt_rho = sha X [[0x11], [seed]], nt_rcm = sha X [[0x22], [seed]]\<rparr>,
                sw_path = \<lparr>mp_siblings = map (\<lambda>l. sha X [[0x77], [seed], u32_le (of_nat l)]) [0..<TREE_DEPTH],
                           mp_index = 0\<rparr>,
                sw_sig = sig, sw_ots_path = ots_path, sw_nk = nk,
                sw_out_note = \<lparr>nt_value = 700, nt_owner = sha X [[0x33], [seed]],
                               nt_rho = sha X [[0x44], [seed]], nt_rcm = sha X [[0x66], [seed]]\<rparr>,
                sw_out2_note = \<lparr>nt_value = 290, nt_owner = owner,
                                nt_rho = sha X [[0x56], [seed]], nt_rcm = sha X [[0x78], [seed]]\<rparr>,
                sw_fee = 10, sw_tx_binding = tx_binding\<rparr>)))"

record MintWitness =
  mw_note :: Note

record MintPublic =
  mp_commitment :: H256
  mp_value :: u64

definition run_mint :: "'x hash_env_scheme \<Rightarrow> MintWitness \<Rightarrow> MintPublic" where
  "run_mint X w = \<lparr>mp_commitment = commit_note X (mw_note w), mp_value = nt_value (mw_note w)\<rparr>"

definition build_valid_mint :: "'x hash_env_scheme \<Rightarrow> u8 \<Rightarrow> u64 \<Rightarrow> (MintWitness, unit) outcome" where
  "build_valid_mint X seed value =
     bind_ok (spend_root X [seed] 2) (\<lambda>root.
       Ok \<lparr>mw_note = \<lparr>nt_value = value, nt_owner = address_tag X root (derive_nk X [seed]),
                       nt_rho = sha X [[0x55], [seed]], nt_rcm = sha X [[0x88], [seed]]\<rparr>\<rparr>)"

section \<open>Aggregation\<close>

definition KIND_SPEND :: u8 where "KIND_SPEND = 1"
definition KIND_MINT :: u8 where "KIND_MINT = 2"

definition vkey_bytes :: "u32 list \<Rightarrow> bytes" where
  "vkey_bytes words = concat (map u32_le words)"

definition agg_leaf_input :: "u8 \<Rightarrow> u32 list \<Rightarrow> bytes \<Rightarrow> bytes" where
  "agg_leaf_input kind vkey publics =
     concat [[kind], vkey_bytes vkey, u32_be (of_nat (length publics)), publics]"

definition agg_leaf :: "'x hash_env_scheme \<Rightarrow> u8 \<Rightarrow> u32 list \<Rightarrow> bytes \<Rightarrow> H256" where
  "agg_leaf X kind vkey publics = sha256 X (agg_leaf_input kind vkey publics)"

definition agg_digest_input :: "H256 list \<Rightarrow> bytes" where
  "agg_digest_input leaves = concat (u32_be (of_nat (length leaves)) # map h256_bytes leaves)"

definition agg_digest :: "'x hash_env_scheme \<Rightarrow> H256 list \<Rightarrow> H256" where
  "agg_digest X leaves = sha256 X (agg_digest_input leaves)"

section \<open>WOTS digits and checksum\<close>

lemma length_nibbles [simp]: "length (nibbles msg) = 64"
proof -
  have "length (concat (map (\<lambda>b. [drop_bit 4 b, b AND 15]) bs)) = 2 * length bs" for bs :: bytes
    by (induction bs) auto
  then show ?thesis by (simp add: nibbles_def)
qed

lemma unat_nibble: "unat (drop_bit 4 b) = unat b div 16" "unat (b AND 15) = unat b mod 16" for b :: u8
proof -
  show "unat (drop_bit 4 b) = unat b div 16"
    unfolding unat_drop_bit_eq by (simp add: drop_bit_eq_div)
  have "b AND 15 = b mod 16" using take_bit_eq_mask [of 4 b] by (simp add: take_bit_eq_mod mask_numeral)
  then show "unat (b AND 15) = unat b mod 16"
    by (simp add: unat_mod)
qed

lemma nibbles_le: "d \<in> set (nibbles msg) \<Longrightarrow> unat d \<le> 15"
proof -
  have "unat b div 16 \<le> 15" for b :: u8
    using unat_bounded [of b] by simp
  then show "d \<in> set (nibbles msg) \<Longrightarrow> unat d \<le> 15"
    by (auto simp: nibbles_def unat_nibble)
qed

lemma nibbles_inj: "nibbles m = nibbles m' \<Longrightarrow> m = m'"
proof -
  have byte: "drop_bit 4 b = drop_bit 4 c \<Longrightarrow> b AND 15 = c AND 15 \<Longrightarrow> b = c" for b c :: u8
    by (metis div_mult_mod_eq unat_nibble word_unat_eq_iff)
  have "concat (map (\<lambda>b. [drop_bit 4 b, b AND 15]) xs) = concat (map (\<lambda>b. [drop_bit 4 b, b AND 15]) ys) \<Longrightarrow> xs = ys"
    for xs ys :: bytes
  proof (induction xs arbitrary: ys)
    case Nil
    then show ?case by (cases ys) auto
  next
    case (Cons x xs)
    then show ?case by (cases ys) (auto dest: byte)
  qed
  then show "nibbles m = nibbles m' \<Longrightarrow> m = m'"
    unfolding nibbles_def using h256_bytes_inj by blast
qed

lemma csum_loop:
  "(\<And>d. d \<in> set ds \<Longrightarrow> unat d \<le> 15) \<Longrightarrow> unat c + 15 * length ds < 65536 \<Longrightarrow>
    unat (for_each ds (\<lambda>digit csum. csum + ((WOTS_W - 1) - ucast digit)) c) = unat c + sum_list (map (\<lambda>d. 15 - unat d) ds)"
proof (induction ds arbitrary: c)
  case (Cons d ds)
  have d: "unat d \<le> 15" using Cons.prems(1) by simp
  have uc: "unat (ucast d :: u16) = unat d" by (simp add: unsigned_ucast_eq take_bit_nat_eq_self order_le_less_trans [OF d])
  have "unat ((WOTS_W - 1) - ucast d) = 15 - unat d"
    using d uc by (simp add: WOTS_W_def unat_sub word_le_nat_alt)
  then have eq: "unat (c + ((WOTS_W - 1) - ucast d)) = unat c + (15 - unat d)"
    using Cons.prems(2) by (subst unat_add_no_wrap) simp_all
  have "unat c + (15 - unat d) + 15 * length ds < 65536" using Cons.prems(2) by simp
  with Cons.IH [of "c + ((WOTS_W - 1) - ucast d)", unfolded eq] Cons.prems(1)
  have "unat (for_each ds (\<lambda>digit csum. csum + ((WOTS_W - 1) - ucast digit)) (c + ((WOTS_W - 1) - ucast d)))
      = unat c + (15 - unat d) + sum_list (map (\<lambda>d. 15 - unat d) ds)" by (meson list.set_intros(2))
  then show ?case by (simp only: for_each.simps list.map sum_list.Cons add.assoc)
qed simp

lemma unat_wots_csum: "unat (wots_csum (nibbles m)) = sum_list (map (\<lambda>d. 15 - unat d) (nibbles m))"
  using csum_loop [of "nibbles m" 0] nibbles_le by (simp add: wots_csum_def)

lemma wots_csum_bound: "unat (wots_csum (nibbles m)) \<le> 960"
proof -
  have "sum_list (map (\<lambda>d. 15 - unat d) ds) \<le> 15 * length ds" for ds :: "u8 list"
    by (induction ds) auto
  from this [of "nibbles m"] show ?thesis by (simp add: unat_wots_csum)
qed

lemma unat_csum_digits:
  fixes c :: u16
  assumes "unat c < 4096"
  shows "unat (ucast (drop_bit 8 c AND 15) :: u8) = unat c div 256"
    "unat (ucast (drop_bit 4 c AND 15) :: u8) = unat c div 16 mod 16"
    "unat (ucast (c AND 15) :: u8) = unat c mod 16"
proof -
  have low: "unat (ucast (x AND 15) :: u8) = unat x mod 16" for x :: u16
  proof -
    have "x AND 15 = x mod 16" using take_bit_eq_mask [of 4 x] by (simp add: take_bit_eq_mod mask_numeral)
    then show ?thesis
      using mod_less_divisor [of 16 "unat x"] by (simp add: unsigned_ucast_eq unat_mod take_bit_eq_mod)
  qed
  have dr: "unat (drop_bit n c) = unat c div 2 ^ n" for n
    unfolding unat_drop_bit_eq by (rule drop_bit_eq_div)
  have "unat c div 256 < 16" using assms by simp
  then show "unat (ucast (drop_bit 8 c AND 15) :: u8) = unat c div 256"
    unfolding low dr by simp
  show "unat (ucast (drop_bit 4 c AND 15) :: u8) = unat c div 16 mod 16" unfolding low dr by simp
  show "unat (ucast (c AND 15) :: u8) = unat c mod 16" by (rule low)
qed

lemma length_wots_digits [simp]: "length (wots_digits m) = WOTS_CHAINS"
  by (simp add: wots_digits_def Let_def WOTS_CHAINS_def WOTS_MSG_DIGITS_def WOTS_CSUM_DIGITS_def)

lemma wots_digits_le:
  assumes "i < WOTS_CHAINS"
  shows "unat (wots_digits m ! i) \<le> 15"
proof -
  have "unat d \<le> 15" if "d \<in> set (wots_digits m)" for d
  proof -
    have c: "unat (wots_csum (nibbles m)) < 4096" using wots_csum_bound [of m] by simp
    show ?thesis
      using that nibbles_le [of d m] wots_csum_bound [of m] unat_csum_digits [OF c]
      by (auto simp: wots_digits_def Let_def)
  qed
  with assms show ?thesis by (metis length_wots_digits nth_mem)
qed

lemma sum_list_mono_eq:
  "list_all2 (\<le>) xs ys \<Longrightarrow> sum_list xs \<le> sum_list ys \<and> (sum_list xs = sum_list ys \<longrightarrow> xs = ys)" for xs ys :: "nat list"
  by (induction rule: list_all2_induct) auto

lemma wots_digits_csum:
  "unat (wots_digits m ! 64) = unat (wots_csum (nibbles m)) div 256"
  "unat (wots_digits m ! 65) = unat (wots_csum (nibbles m)) div 16 mod 16"
  "unat (wots_digits m ! 66) = unat (wots_csum (nibbles m)) mod 16"
proof -
  have c: "unat (wots_csum (nibbles m)) < 4096" using wots_csum_bound [of m] by simp
  have cs: "wots_digits m ! (length (nibbles m) + j) = [ucast (drop_bit 8 (wots_csum (nibbles m)) AND 15),
      ucast (drop_bit 4 (wots_csum (nibbles m)) AND 15), ucast (wots_csum (nibbles m) AND 15)] ! j" for j
    unfolding wots_digits_def Let_def by (rule nth_append_length_plus)
  have "wots_digits m ! 64 = ucast (drop_bit 8 (wots_csum (nibbles m)) AND 15)"
    "wots_digits m ! 65 = ucast (drop_bit 4 (wots_csum (nibbles m)) AND 15)"
    "wots_digits m ! 66 = ucast (wots_csum (nibbles m) AND 15)"
    using cs [of 0] cs [of 1] cs [of 2] by (simp_all only: length_nibbles nth_Cons_0 nth_Cons_Suc One_nat_def numeral_2_eq_2) simp_all
  with unat_csum_digits [OF c] show "unat (wots_digits m ! 64) = unat (wots_csum (nibbles m)) div 256"
    "unat (wots_digits m ! 65) = unat (wots_csum (nibbles m)) div 16 mod 16"
    "unat (wots_digits m ! 66) = unat (wots_csum (nibbles m)) mod 16"
    by (simp_all only:)
qed

text \<open>No message has all its digits at or below those of another message: any increased message
  digit lowers the checksum, so some digit always has to go down.\<close>

lemma wots_digits_incomparable:
  assumes "\<And>i. i < WOTS_CHAINS \<Longrightarrow> wots_digits m ! i \<le> wots_digits m' ! i"
  shows "m = m'"
proof -
  let ?c = "wots_csum (nibbles m)" and ?c' = "wots_csum (nibbles m')"
  have dig: "wots_digits k ! i = nibbles k ! i" if "i < 64" for k i
    using that by (simp add: wots_digits_def Let_def nth_append)
  have nib: "nibbles m ! i \<le> nibbles m' ! i" if "i < 64" for i
    using assms [of i] that by (simp add: dig WOTS_CHAINS_def WOTS_MSG_DIGITS_def)
  have tops: "unat ?c div 256 \<le> unat ?c' div 256" "unat ?c div 16 mod 16 \<le> unat ?c' div 16 mod 16"
    "unat ?c mod 16 \<le> unat ?c' mod 16"
    using assms [of 64] assms [of 65] assms [of 66]
    unfolding word_le_nat_alt wots_digits_csum
    by (simp_all add: WOTS_CHAINS_def WOTS_MSG_DIGITS_def WOTS_CSUM_DIGITS_def)
  have val: "n = 256 * (n div 256) + 16 * (n div 16 mod 16) + n mod 16" for n :: nat
  proof -
    have "n div 256 = n div 16 div 16" using div_mult2_eq [of n 16 16] by simp
    then show ?thesis using div_mult_mod_eq [of n 16] div_mult_mod_eq [of "n div 16" 16] by linarith
  qed
  have le: "unat ?c \<le> unat ?c'"
    using val [of "unat ?c"] val [of "unat ?c'"] tops by linarith
  let ?f = "\<lambda>k. map (\<lambda>d. 15 - unat d) (nibbles k)"
  have "list_all2 (\<le>) (?f m') (?f m)"
    unfolding list_all2_conv_all_nth using nib by (auto simp: word_le_nat_alt diff_le_mono2)
  with le have "?f m' = ?f m"
    using sum_list_mono_eq [of "?f m'" "?f m"] by (simp add: unat_wots_csum)
  then have "map unat (nibbles m') ! i = map unat (nibbles m) ! i" if "i < 64" for i
    using that nibbles_le [of "nibbles m ! i" m] nibbles_le [of "nibbles m' ! i" m']
    by (auto simp: list_eq_iff_nth_eq)
  then have "nibbles m = nibbles m'"
    by (auto simp: list_eq_iff_nth_eq word_unat_eq_iff)
  then show ?thesis by (rule nibbles_inj)
qed

section \<open>WOTS round trip\<close>

lemma ucast_digit: "unat d \<le> 15 \<Longrightarrow> unat (ucast d :: u16) = unat d" for d :: u8
  by (simp add: unsigned_ucast_eq take_bit_nat_eq_self)

lemma chain_completes:
  fixes d :: u8
  assumes "unat d \<le> 15"
  shows "wots_chain X c (wots_chain X c x (ucast d)) ((WOTS_W - 1) - ucast d) = wots_chain X c x (WOTS_W - 1)"
proof -
  have "unat ((WOTS_W - 1) - ucast d) = 15 - unat d"
    using assms ucast_digit [OF assms] by (simp add: WOTS_W_def unat_sub word_le_nat_alt)
  with assms show ?thesis
    using loop_n_add [of "unat d" "15 - unat d" "wots_step X c" x]
    by (simp add: wots_chain_def ucast_digit WOTS_W_def)
qed

lemma wots_roundtrip: "wots_recover_owner X (ws_sig (wots_sign X seed msg)) msg = Some (wots_owner X seed)"
proof -
  have "map (\<lambda>i. wots_chain X (of_nat i) (ws_sig (wots_sign X seed msg) ! i) ((WOTS_W - 1) - ucast (wots_digits msg ! i))) [0..<WOTS_CHAINS]
      = map (\<lambda>i. wots_chain X (of_nat i) (wots_sk X seed i) (WOTS_W - 1)) [0..<WOTS_CHAINS]"
    by (intro map_cong refl) (simp add: wots_sign_def Let_def chain_completes wots_digits_le)
  moreover have "length (ws_sig (wots_sign X seed msg)) = WOTS_CHAINS" by (simp add: wots_sign_def)
  ultimately show ?thesis
    unfolding wots_recover_owner_def wots_owner_def Let_def by (simp only: not_not if_False simp_thms)
qed

section \<open>The spend tree\<close>

lemma xor_one_sibling: "idx XOR 1 = sibling idx" for idx :: nat
  unfolding sibling_def xor_one_eq by simp

lemma sibling_div: "sibling p div 2 = p div 2"
  by (auto simp: sibling_def elim!: oddE evenE)

lemma sibling_bound: "p < 2 ^ Suc n \<Longrightarrow> sibling p < 2 ^ Suc n"
proof -
  assume p: "p < 2 ^ Suc n"
  have "p div 2 < 2 ^ n" using p by (simp add: div_less_iff_less_mult mult.commute)
  then have "sibling p div 2 < 2 ^ n" by (simp add: sibling_div)
  then show ?thesis by (simp add: div_less_iff_less_mult mult.commute)
qed

lemma even_pow_length: "length level = 2 ^ Suc n \<Longrightarrow> pair_level node level = Ok (next_level node e level)"
  by (rule pair_level_next) simp

lemma reduce_levels_ok:
  assumes "pad node l level = subtree node f l" and "length level = 2 ^ n"
  shows "\<exists>r. reduce_levels node n level = Ok [r] \<and> r = subtree node f (l + n) 0"
  using assms
proof (induction n arbitrary: l level)
  case 0
  then obtain r where "level = [r]" by (auto simp: length_Suc_conv)
  moreover have "pad node l level 0 = subtree node f l 0" by (simp only: 0(1))
  ultimately show ?case by simp
next
  case (Suc n)
  let ?next = "next_level node (empty_node node l) level"
  have "pair_level node level = Ok ?next" using even_pow_length Suc.prems(2) by blast
  moreover have "pad node (Suc l) ?next = subtree node f (Suc l)" by (rule next_level_subtree [OF Suc.prems(1)])
  moreover have "length ?next = 2 ^ n" using Suc.prems(2) by simp
  ultimately show ?case using Suc.IH [of "Suc l" ?next] by simp
qed

lemma auth_siblings_ok:
  assumes "pad node l level = subtree node f l" and "length level = 2 ^ n" and "idx < 2 ^ n"
  shows "auth_siblings node n level idx sibs
    = Ok (sibs @ map (\<lambda>k. subtree node f (l + k) (sibling (idx div 2 ^ k))) [0..<n])"
  using assms
proof (induction n arbitrary: l level idx sibs)
  case (Suc n)
  let ?next = "next_level node (empty_node node l) level"
  have nx: "pair_level node level = Ok ?next" using even_pow_length Suc.prems(2) by blast
  have lt: "sibling idx < length level" using sibling_bound Suc.prems(2,3) by simp
  then have sib: "level ! sibling idx = subtree node f l (sibling idx)"
    using fun_cong [OF Suc.prems(1), of "sibling idx"] by (simp add: pad_def)
  have "auth_siblings node n ?next (idx div 2) (sibs @ [level ! sibling idx])
      = Ok ((sibs @ [level ! sibling idx]) @ map (\<lambda>k. subtree node f (Suc l + k) (sibling (idx div 2 div 2 ^ k))) [0..<n])"
    using Suc.prems by (intro Suc.IH next_level_subtree) auto
  moreover have "[0..<Suc n] = 0 # map Suc [0..<n]" by (simp add: map_Suc_upt upt_conv_Cons)
  moreover have "idx div 2 div 2 ^ k = idx div 2 ^ Suc k" for k by (simp add: div_mult2_eq)
  ultimately show ?case
    using nx lt sib unfolding auth_siblings.simps xor_one_sibling by (simp add: drop_bit_eq_div comp_def)
qed simp

lemma unat_shl_one: "unat h < 32 \<Longrightarrow> unat (shl_one h) = 2 ^ unat h"
proof -
  assume h: "unat h < 32"
  then have "(2 :: nat) ^ unat h < 2 ^ 32" by (intro power_strict_increasing) simp_all
  moreover have "shl_one h = of_nat (2 ^ unat h)" using h by (simp add: shl_one_def push_bit_eq_mult)
  moreover have "unat (of_nat n :: u32) = n mod 2 ^ 32" for n
    using unat_of_nat [of n, where 'a = 32] by simp
  ultimately show ?thesis by (simp only: mod_less)
qed

lemma length_spend_tree_leaves: "unat h < 32 \<Longrightarrow> length (spend_tree_leaves X master h) = 2 ^ unat h"
  by (simp add: spend_tree_leaves_def unat_shl_one)

lemma upper_sibling_empty:
  assumes "length xs \<le> 2 ^ l"
  shows "subtree node (slot xs) l (Suc 0) = empty_node node l"
  by (rule subtree_empty) (use assms in \<open>auto simp: slot_def\<close>)

lemma for_each_upper:
  assumes "length xs \<le> 2 ^ a" and "a \<le> b" and "b \<le> d"
  shows "for_each [a..<b] (\<lambda>l root. node root (ladder node d ! l)) (subtree node (slot xs) a 0)
    = subtree node (slot xs) b 0"
  using assms(2,3)
proof (induction b rule: dec_induct)
  case (step n)
  have "length xs \<le> 2 ^ n"
    using assms(1) power_increasing [OF step(1), of "2 :: nat"] by linarith
  with step show ?case
    by (simp add: for_each_append ladder_nth upper_sibling_empty)
qed simp

abbreviation address_leaves :: "'x hash_env_scheme \<Rightarrow> bytes \<Rightarrow> u32 \<Rightarrow> nat \<Rightarrow> H256" where
  "address_leaves X master h \<equiv> slot (spend_tree_leaves X master h)"

lemma spend_root_ok:
  assumes "unat h \<le> SPEND_TREE_DEPTH"
  shows "spend_root X master h = Ok (subtree (ots_node X) (address_leaves X master h) SPEND_TREE_DEPTH 0)"
proof -
  have len: "length (spend_tree_leaves X master h) = 2 ^ unat h"
    using assms by (intro length_spend_tree_leaves) (simp add: SPEND_TREE_DEPTH_def)
  from reduce_levels_ok [OF pad_0 len, of "ots_node X"]
  have "reduce_levels (ots_node X) (unat h) (spend_tree_leaves X master h)
      = Ok [subtree (ots_node X) (address_leaves X master h) (unat h) 0]" by simp
  then show ?thesis
    using for_each_upper [of "spend_tree_leaves X master h" "unat h" SPEND_TREE_DEPTH SPEND_TREE_DEPTH "ots_node X"] assms len
    by (simp add: spend_root_def ots_empty_roots_def)
qed

lemma spend_auth_ok:
  assumes "unat h \<le> SPEND_TREE_DEPTH" and "unat index < 2 ^ unat h"
  shows "spend_auth X master h index msg =
    Ok (wots_sign X (h256_bytes (spend_leaf_seed X master index)) msg,
        \<lparr>mp_siblings = map (\<lambda>l. subtree (ots_node X) (address_leaves X master h) l (sibling (unat index div 2 ^ l))) [0..<SPEND_TREE_DEPTH],
         mp_index = u32_as_u64 index\<rparr>)"
proof -
  let ?f = "address_leaves X master h"
  have len: "length (spend_tree_leaves X master h) = 2 ^ unat h"
    using assms by (intro length_spend_tree_leaves) (simp add: SPEND_TREE_DEPTH_def)
  have low: "auth_siblings (ots_node X) (unat h) (spend_tree_leaves X master h) (unat index) []
      = Ok (map (\<lambda>k. subtree (ots_node X) ?f k (sibling (unat index div 2 ^ k))) [0..<unat h])"
    using auth_siblings_ok [OF pad_0 len assms(2), of "ots_node X" "[]"] by simp
  have up: "ots_empty_roots X ! l = subtree (ots_node X) ?f l (sibling (unat index div 2 ^ l))"
    if "unat h \<le> l" "l < SPEND_TREE_DEPTH" for l
  proof -
    have "(2 :: nat) ^ unat h \<le> 2 ^ l" using power_increasing [OF that(1), of "2 :: nat"] by simp
    with assms(2) len have "unat index < 2 ^ l" "length (spend_tree_leaves X master h) \<le> 2 ^ l" by linarith+
    then have "unat index div 2 ^ l = 0" and "length (spend_tree_leaves X master h) \<le> 2 ^ l"
      by simp_all
    then show ?thesis
      using that(2) upper_sibling_empty [of "spend_tree_leaves X master h" l "ots_node X"]
      by (simp add: ots_empty_roots_def ladder_nth sibling_def)
  qed
  have "[0..<SPEND_TREE_DEPTH] = [0..<unat h] @ [unat h..<SPEND_TREE_DEPTH]"
    using assms(1) upt_add_eq_append [of 0 "unat h" "SPEND_TREE_DEPTH - unat h"] by simp
  then show ?thesis
    using low up by (simp add: spend_auth_def)
qed

lemma leaf_of_address:
  assumes "unat h \<le> SPEND_TREE_DEPTH" and "unat index < 2 ^ unat h"
  shows "address_leaves X master h (unat index) = wots_owner X (h256_bytes (spend_leaf_seed X master index))"
proof -
  have len: "length (spend_tree_leaves X master h) = 2 ^ unat h"
    using assms by (intro length_spend_tree_leaves) (simp add: SPEND_TREE_DEPTH_def)
  then have "unat (shl_one h) = 2 ^ unat h" by (simp add: spend_tree_leaves_def)
  with assms(2) len show ?thesis by (simp add: slot_def spend_tree_leaves_def)
qed

text \<open>A signature with its path, made by the wallet for any of its leaves, recovers the spend
  root of the address.\<close>

lemma spend_auth_recovers:
  assumes "unat h \<le> SPEND_TREE_DEPTH" and "unat index < 2 ^ unat h"
  shows "\<exists>sig path root leaf. spend_auth X master h index msg = Ok (sig, path) \<and> spend_root X master h = Ok root
    \<and> length (mp_siblings path) = SPEND_TREE_DEPTH
    \<and> wots_recover_owner X (ws_sig sig) msg = Some leaf
    \<and> fold_path (ots_node X) (mp_siblings path) 0 (mp_index path) leaf = root"
proof -
  let ?f = "address_leaves X master h"
  let ?sibs = "map (\<lambda>l. subtree (ots_node X) ?f l (sibling (unat index div 2 ^ l))) [0..<SPEND_TREE_DEPTH]"
  have "unat index div 2 ^ SPEND_TREE_DEPTH = 0"
    using assms(2) power_increasing [OF assms(1), of "2 :: nat"] by (intro div_less) linarith
  then have "fold_path (ots_node X) ?sibs 0 (u32_as_u64 index) (?f (unat index)) = subtree (ots_node X) ?f SPEND_TREE_DEPTH 0"
    using fold_path_reaches [of ?sibs SPEND_TREE_DEPTH "ots_node X" ?f 0 "u32_as_u64 index"] by simp
  then have "fold_path (ots_node X) ?sibs 0 (u32_as_u64 index) (wots_owner X (h256_bytes (spend_leaf_seed X master index)))
      = subtree (ots_node X) ?f SPEND_TREE_DEPTH 0" by (simp only: leaf_of_address [OF assms])
  then show ?thesis
    unfolding spend_root_ok [OF assms(1)] spend_auth_ok [OF assms]
    using wots_roundtrip [of X "h256_bytes (spend_leaf_seed X master index)" msg] by simp
qed

section \<open>What the spend statement accepts\<close>

lemma run_not_Panic [simp]: "run X w \<noteq> Panic"
  by (cases "wots_recover_owner X (ws_sig (sw_sig w)) (sw_tx_binding w)")
    (auto simp: run_def Let_def split: option.splits)

definition spend_valid :: "'x hash_env_scheme \<Rightarrow> SpendWitness \<Rightarrow> bool" where
  "spend_valid X w \<longleftrightarrow>
     length (mp_siblings (sw_path w)) = TREE_DEPTH
   \<and> length (mp_siblings (sw_ots_path w)) = SPEND_TREE_DEPTH
   \<and> (\<exists>leaf. wots_recover_owner X (ws_sig (sw_sig w)) (sw_tx_binding w) = Some leaf
        \<and> address_tag X (fold_path (ots_node X) (mp_siblings (sw_ots_path w)) 0 (mp_index (sw_ots_path w)) leaf) (sw_nk w)
            = nt_owner (sw_in_note w))
   \<and> unat (nt_value (sw_in_note w))
       = unat (nt_value (sw_out_note w)) + unat (nt_value (sw_out2_note w)) + unat (sw_fee w)"

definition spend_public :: "'x hash_env_scheme \<Rightarrow> SpendWitness \<Rightarrow> SpendPublic" where
  "spend_public X w =
     \<lparr>sp_merkle_root = fold_path (merkle_node X) (mp_siblings (sw_path w)) 0 (mp_index (sw_path w)) (commit_note X (sw_in_note w)),
      sp_nullifier = nullifier X (sw_nk w) (nt_rho (sw_in_note w)),
      sp_out_commitment = commit_note X (sw_out_note w), sp_out2_commitment = commit_note X (sw_out2_note w),
      sp_fee = sw_fee w, sp_tx_binding = sw_tx_binding w\<rparr>"

lemma checked_sum_iff:
  "(\<exists>outs. checked_add a b = Some outs \<and> checked_add outs c = Some v) \<longleftrightarrow> unat v = unat a + unat b + unat c"
  for a b c v :: u64
proof
  assume "\<exists>outs. checked_add a b = Some outs \<and> checked_add outs c = Some v"
  then show "unat v = unat a + unat b + unat c"
    by (auto simp: checked_add_Some unat_add_no_wrap)
next
  assume v: "unat v = unat a + unat b + unat c"
  have ab: "unat (a + b) = unat a + unat b"
    using v unat_bounded [of v] by (intro unat_add_no_wrap) simp
  moreover have "unat (a + b + c) = unat v"
    using v ab unat_bounded [of v] by (subst unat_add_no_wrap) simp_all
  ultimately show "\<exists>outs. checked_add a b = Some outs \<and> checked_add outs c = Some v"
    using v unat_bounded [of v] by (auto simp: checked_add_Some word_unat_eq_iff)
qed

lemma run_Ok_iff: "run X w = Ok p \<longleftrightarrow> spend_valid X w \<and> p = spend_public X w"
proof (cases "wots_recover_owner X (ws_sig (sw_sig w)) (sw_tx_binding w)")
  case None
  then show ?thesis by (auto simp: run_def spend_valid_def)
next
  case (Some leaf)
  then show ?thesis
    using checked_sum_iff [of "nt_value (sw_out_note w)" "nt_value (sw_out2_note w)" "sw_fee w" "nt_value (sw_in_note w)"]
    by (auto simp: run_def spend_valid_def spend_public_def Let_def split: option.splits)
qed

section \<open>The digest of the aggregation tier\<close>

lemma length_vkey_bytes: "length (vkey_bytes vk) = 4 * length vk"
  by (induction vk) (simp_all add: vkey_bytes_def)

lemma vkey_bytes_inj: "vkey_bytes v = vkey_bytes w \<Longrightarrow> length v = length w \<Longrightarrow> v = w"
proof (induction v arbitrary: w)
  case (Cons a v)
  then obtain b w' where w: "w = b # w'" by (cases w) auto
  with Cons.prems have "u32_le a = u32_le b \<and> vkey_bytes v = vkey_bytes w'"
    by (simp add: vkey_bytes_def append_eq_append_conv)
  with Cons w show ?case by simp
qed simp

lemma agg_leaf_input_inj:
  assumes "agg_leaf_input k v p = agg_leaf_input k' v' p'" and "length v = 8" and "length v' = 8"
  shows "k = k' \<and> v = v' \<and> p = p'"
proof -
  have eq: "k # vkey_bytes v @ (u32_be (of_nat (length p)) @ p) = k' # vkey_bytes v' @ (u32_be (of_nat (length p')) @ p')"
    using assms(1) by (simp add: agg_leaf_input_def)
  then have "vkey_bytes v = vkey_bytes v'" and rest: "u32_be (of_nat (length p)) @ p = u32_be (of_nat (length p')) @ p'"
    using assms(2,3) append_eq_append_conv [of "vkey_bytes v" "vkey_bytes v'"] by (simp_all add: length_vkey_bytes)
  moreover from rest have "p = p'" by (simp add: append_eq_append_conv)
  ultimately show ?thesis using eq vkey_bytes_inj assms(2,3) by simp
qed

lemma agg_digest_input_inj:
  assumes "agg_digest_input xs = agg_digest_input ys"
  shows "xs = ys"
proof -
  have eq: "concat (map h256_bytes xs) = concat (map h256_bytes ys)"
    using assms append_eq_append_conv [of "u32_be (of_nat (length xs))" "u32_be (of_nat (length ys))"]
    by (simp add: agg_digest_input_def)
  then show ?thesis
  proof (induction xs arbitrary: ys)
    case Nil
    then show ?case by (cases ys) (auto simp flip: length_0_conv)
  next
    case (Cons x xs)
    then obtain y ys' where ys: "ys = y # ys'" by (cases ys) (auto simp flip: length_0_conv)
    with Cons.prems have "h256_bytes x = h256_bytes y \<and> concat (map h256_bytes xs) = concat (map h256_bytes ys')"
      by (simp add: append_eq_append_conv)
    with Cons.IH ys show ?case by simp
  qed
qed

section \<open>Properties\<close>

text \<open>Exactly which witnesses the spend statement accepts, and what it exposes. A spend is
  provable if and only if both paths have the required length, the recovered one-time key folds up
  to the spend root that, with the nullifier key, is the owner of the spent note, and the input
  value is the exact sum of both outputs and the fee as natural numbers, with no overflow. The
  public outputs are the folded root, the nullifier, the commitments of both outputs, the fee and
  the binding.\<close>

lemma run_accepts_exactly:
  "run X w = Ok p \<longleftrightarrow>
     length (mp_siblings (sw_path w)) = TREE_DEPTH
   \<and> length (mp_siblings (sw_ots_path w)) = SPEND_TREE_DEPTH
   \<and> (\<exists>leaf. wots_recover_owner X (ws_sig (sw_sig w)) (sw_tx_binding w) = Some leaf
        \<and> address_tag X (fold_path (ots_node X) (mp_siblings (sw_ots_path w)) 0 (mp_index (sw_ots_path w)) leaf) (sw_nk w)
            = nt_owner (sw_in_note w))
   \<and> unat (nt_value (sw_in_note w))
       = unat (nt_value (sw_out_note w)) + unat (nt_value (sw_out2_note w)) + unat (sw_fee w)
   \<and> p = \<lparr>sp_merkle_root = fold_path (merkle_node X) (mp_siblings (sw_path w)) 0 (mp_index (sw_path w)) (commit_note X (sw_in_note w)),
          sp_nullifier = nullifier X (sw_nk w) (nt_rho (sw_in_note w)),
          sp_out_commitment = commit_note X (sw_out_note w), sp_out2_commitment = commit_note X (sw_out2_note w),
          sp_fee = sw_fee w, sp_tx_binding = sw_tx_binding w\<rparr>"
  unfolding run_Ok_iff spend_valid_def spend_public_def by (simp only: conj_assoc)

text \<open>The WOTS round trip: completing the chains of a signature recovers the digest of the key
  that made it, for every message.\<close>

lemma wots_sign_recovers:
  "wots_recover_owner X (ws_sig (wots_sign X seed msg)) msg = Some (wots_owner X seed)"
  by (rule wots_roundtrip)

text \<open>The WOTS checksum. For two different messages some digit of the second is strictly below
  that of the first, so a signature of the first can never be walked forward, chain by chain, to
  one of the second.\<close>

lemma wots_checksum_blocks_walking:
  "m = m' \<or> (\<exists>i < WOTS_CHAINS. wots_digits m' ! i < wots_digits m ! i)"
  using wots_digits_incomparable [of m m'] by (meson not_le)

text \<open>The witness builder is sound: for every seed and every hash it builds a witness, and the
  statement accepts it with the announced fee and binding.\<close>

lemma build_valid_spend_accepted:
  "\<exists>w p. build_valid_spend X seed = Ok w \<and> run X w = Ok p \<and> sp_fee p = 10 \<and> sp_tx_binding p = sw_tx_binding w"
proof -
  have h: "unat (2 :: u32) \<le> SPEND_TREE_DEPTH" "unat (0 :: u32) < 2 ^ unat (2 :: u32)"
    by (simp_all add: SPEND_TREE_DEPTH_def)
  obtain sig path root leaf where a: "spend_auth X [seed] 2 0 (sha X [[0xAA], [seed]]) = Ok (sig, path)"
    "spend_root X [seed] 2 = Ok root" "length (mp_siblings path) = SPEND_TREE_DEPTH"
    "wots_recover_owner X (ws_sig sig) (sha X [[0xAA], [seed]]) = Some leaf"
    "fold_path (ots_node X) (mp_siblings path) 0 (mp_index path) leaf = root"
    using spend_auth_recovers [OF h, of X "[seed]" "sha X [[0xAA], [seed]]"] by blast
  obtain w where w: "build_valid_spend X seed = Ok w" by (simp add: build_valid_spend_def a Let_def)
  have "spend_valid X w"
    using w a by (auto simp: build_valid_spend_def spend_valid_def Let_def)
  then have "run X w = Ok (spend_public X w)" by (simp add: run_Ok_iff)
  moreover have "sw_fee w = 10" using w a by (auto simp: build_valid_spend_def Let_def)
  ultimately show ?thesis using w by (auto simp: spend_public_def)
qed

text \<open>The aggregation digest binds everything. The bytes hashed for one aggregated proof
  determine the statement kind, the verifying key and the public bytes, and the bytes hashed for
  the aggregate determine the whole list of leaves in order.\<close>

lemma agg_binds_items:
  assumes "length v = 8" and "length v' = 8"
  shows "(agg_leaf_input k v p = agg_leaf_input k' v' p' \<longleftrightarrow> k = k' \<and> v = v' \<and> p = p')
    \<and> (agg_digest_input xs = agg_digest_input ys \<longleftrightarrow> xs = ys)"
  using agg_leaf_input_inj [OF _ assms] agg_digest_input_inj by blast

end
