(* ===== verification/HK_Pool.thy ===== *)
theory HK_Pool
  imports HK_Circuit
begin

text \<open>
  The shielded pool's consensus state (\<^verbatim>\<open>hk-state/src/pool.rs\<close>): the append-only commitment tree
  in frontier form, the window of recent anchors, the spent nullifiers and the wallet-side path
  rebuild. The frontier tree is an instance of the contract \<open>append_only_tree\<close>; a tree has a
  frontier of exactly \<open>TREE_DEPTH\<close> entries, so its indexing never leaves the range.
\<close>

definition ANCHOR_WINDOW :: nat where "ANCHOR_WINDOW = 128"

record ProofVerifier =
  verify_spend :: "bytes \<Rightarrow> SpendPublic \<Rightarrow> bool"
  verify_mint :: "bytes \<Rightarrow> MintPublic \<Rightarrow> bool"

definition RejectAllVerifier :: ProofVerifier where
  "RejectAllVerifier = \<lparr>verify_spend = \<lambda>_ _. False, verify_mint = \<lambda>_ _. False\<rparr>"

record IncrementalTree =
  it_frontier :: "H256 list"
  it_next_index :: u64
  it_empty :: "H256 list"

definition empty_ladder :: "'x hash_env_scheme \<Rightarrow> H256 list" where
  "empty_ladder X = empty_roots X"

definition inc_new :: "'x hash_env_scheme \<Rightarrow> IncrementalTree" where
  "inc_new X = \<lparr>it_frontier = replicate TREE_DEPTH 0, it_next_index = 0, it_empty = empty_roots X\<rparr>"

definition has_capacity :: "IncrementalTree \<Rightarrow> u64 \<Rightarrow> bool" where
  "has_capacity t n \<longleftrightarrow> saturating_add (it_next_index t) n \<le> push_bit TREE_DEPTH 1 - 1"

definition is_full :: "IncrementalTree \<Rightarrow> bool" where
  "is_full t \<longleftrightarrow> \<not> has_capacity t 1"

fun append_loop :: "node_hash \<Rightarrow> nat \<Rightarrow> nat \<Rightarrow> H256 \<Rightarrow> u64 \<Rightarrow> H256 list \<Rightarrow> H256 list" where
  "append_loop node 0 l cur idx frontier = frontier"
| "append_loop node (Suc n) l cur idx frontier =
     (if idx AND 1 = 0 then frontier[l := cur]
      else append_loop node n (Suc l) (node (frontier ! l) cur) (drop_bit 1 idx) frontier)"

definition inc_append :: "'x hash_env_scheme \<Rightarrow> IncrementalTree \<Rightarrow> H256 \<Rightarrow> u64 option \<times> IncrementalTree" where
  "inc_append X t leaf =
     (if is_full t then (None, t)
      else let pos = it_next_index t
           in (Some pos,
               t\<lparr>it_frontier := append_loop (merkle_node X) TREE_DEPTH 0 leaf pos (it_frontier t),
                 it_next_index := pos + 1\<rparr>))"

fun root_loop :: "node_hash \<Rightarrow> H256 list \<Rightarrow> H256 list \<Rightarrow> nat \<Rightarrow> nat \<Rightarrow> H256 \<Rightarrow> u64 \<Rightarrow> H256" where
  "root_loop node frontier emp 0 l cur idx = cur"
| "root_loop node frontier emp (Suc n) l cur idx =
     root_loop node frontier emp n (Suc l)
       (if idx AND 1 = 1 then node (frontier ! l) cur else node cur (emp ! l)) (drop_bit 1 idx)"

definition inc_root :: "'x hash_env_scheme \<Rightarrow> IncrementalTree \<Rightarrow> H256" where
  "inc_root X t = root_loop (merkle_node X) (it_frontier t) (it_empty t) TREE_DEPTH 0 (it_empty t ! 0) (it_next_index t)"

record PoolState =
  ps_version :: u8
  ps_asset :: "AssetId option"
  ps_tree :: IncrementalTree
  ps_nullifiers :: "H256 btree_set"
  ps_total_shielded :: Amount
  ps_anchors :: "H256 list"

definition pool_default :: "'x hash_env_scheme \<Rightarrow> PoolState" where
  "pool_default X = \<lparr>ps_version = 1, ps_asset = None, ps_tree = inc_new X, ps_nullifiers = [],
     ps_total_shielded = 0, ps_anchors = []\<rparr>"

definition seal_anchor :: "'x hash_env_scheme \<Rightarrow> PoolState \<Rightarrow> PoolState" where
  "seal_anchor X p =
     (let r = inc_root X (ps_tree p)
      in if ps_anchors p \<noteq> [] \<and> last (ps_anchors p) = r then p
         else let as = ps_anchors p @ [r]
              in p\<lparr>ps_anchors := if length as > ANCHOR_WINDOW then tl as else as\<rparr>)"

definition is_recent_anchor :: "PoolState \<Rightarrow> H256 \<Rightarrow> bool" where
  "is_recent_anchor p root \<longleftrightarrow> root \<in> set (ps_anchors p)"

definition latest_anchor :: "PoolState \<Rightarrow> H256 option" where
  "latest_anchor p = (if ps_anchors p = [] then None else Some (last (ps_anchors p)))"

definition cover_key :: "'x hash_env_scheme \<Rightarrow> u8 \<Rightarrow> bytes \<Rightarrow> H256" where
  "cover_key X kind expected_publics = shake256_32 X DOM_AGG_COVER [[kind], expected_publics]"

fun path_loop :: "node_hash \<Rightarrow> H256 list \<Rightarrow> nat \<Rightarrow> nat \<Rightarrow> H256 list \<Rightarrow> nat \<Rightarrow> H256 list \<Rightarrow> H256 list \<times> H256 list" where
  "path_loop node emp 0 l level idx siblings = (siblings, level)"
| "path_loop node emp (Suc n) l level idx siblings =
     (let sib = (if idx XOR 1 < length level then level ! (idx XOR 1) else emp ! l)
      in path_loop node emp n (Suc l) (next_level node (emp ! l) level) (drop_bit 1 idx) (siblings @ [sib]))"

definition full_tree_path :: "'x hash_env_scheme \<Rightarrow> H256 list \<Rightarrow> u64 \<Rightarrow> (H256 list \<times> H256, unit) outcome" where
  "full_tree_path X leaves index =
     (if leaves = [] then Panic
      else if \<not> unat index < length leaves then Panic
      else case path_loop (merkle_node X) (empty_roots X) TREE_DEPTH 0 leaves (unat index) [] of
             (siblings, level) \<Rightarrow> Ok (siblings, level ! 0))"

section \<open>The frontier invariant\<close>

abbreviation full_root :: "'x hash_env_scheme \<Rightarrow> H256 list \<Rightarrow> H256" where
  "full_root X leaves \<equiv> subtree (merkle_node X) (slot leaves) TREE_DEPTH 0"

text \<open>Wherever the number of leaves has a one bit, the frontier holds the root of the complete
  subtree that ends there.\<close>

definition frontier_ok :: "node_hash \<Rightarrow> H256 list \<Rightarrow> H256 list \<Rightarrow> bool" where
  "frontier_ok node fr xs \<longleftrightarrow> length fr = TREE_DEPTH \<and>
     (\<forall>l < TREE_DEPTH. odd (length xs div 2 ^ l) \<longrightarrow> fr ! l = subtree node (slot xs) l (length xs div 2 ^ l - 1))"

definition inc_represents :: "'x hash_env_scheme \<Rightarrow> IncrementalTree \<Rightarrow> H256 list \<Rightarrow> bool" where
  "inc_represents X t xs \<longleftrightarrow> it_empty t = empty_roots X \<and> unat (it_next_index t) = length xs
     \<and> length xs < 2 ^ TREE_DEPTH \<and> frontier_ok (merkle_node X) (it_frontier t) xs"

lemma and_one_parity: "idx AND 1 = 0 \<longleftrightarrow> even (unat idx)" "idx AND 1 = 1 \<longleftrightarrow> odd (unat idx)" for idx :: u64
proof -
  show one: "idx AND 1 = 1 \<longleftrightarrow> odd (unat idx)" using and_one_iff [of 0 idx] by simp
  have "idx AND 1 = 0 \<or> idx AND 1 = 1" by (auto simp: and_one_eq mod_2_eq_odd)
  with one show "idx AND 1 = 0 \<longleftrightarrow> even (unat idx)" by auto
qed

lemma unat_shift_index:
  "unat idx = n div 2 ^ l \<Longrightarrow> unat (drop_bit 1 idx) = n div 2 ^ Suc l" for idx :: u64
  unfolding unat_drop_bit_eq by (simp add: drop_bit_eq_div div_mult2_eq mult.commute [of 2])

text \<open>Appending a leaf does not disturb complete subtrees before it.\<close>

lemma subtree_before:
  assumes "(p + 1) * 2 ^ l \<le> length xs"
  shows "subtree node (slot (xs @ [x])) l p = subtree node (slot xs) l p"
  by (rule subtree_cong) (use assms in \<open>auto simp: slot_def nth_append\<close>)

lemma last_block_before:
  fixes n :: nat
  assumes "odd (n div 2 ^ l)"
  shows "(n div 2 ^ l - 1 + 1) * 2 ^ l \<le> n"
proof -
  have "n div 2 ^ l - 1 + 1 = n div 2 ^ l" using assms by (cases "n div 2 ^ l") auto
  then show ?thesis by (metis div_times_less_eq_dividend)
qed

text \<open>Incrementing a number whose low \<open>l\<close> bits are all ones and whose bit \<open>l\<close> is zero.\<close>

lemma increment_bits:
  fixes n :: nat
  assumes "n mod 2 ^ l = 2 ^ l - 1" and "even (n div 2 ^ l)"
  shows "k < l \<Longrightarrow> even (Suc n div 2 ^ k)" and "Suc n div 2 ^ l = Suc (n div 2 ^ l)"
    and "l < k \<Longrightarrow> Suc n div 2 ^ k = n div 2 ^ k"
proof -
  let ?q = "n div 2 ^ l"
  have "n = ?q * 2 ^ l + (2 ^ l - 1)" using div_mult_mod_eq [of n "2 ^ l"] assms(1) by simp
  then have "Suc n = ?q * 2 ^ l + Suc (2 ^ l - 1)" by linarith
  then have S: "Suc n = Suc ?q * 2 ^ l" by simp
  then show q: "Suc n div 2 ^ l = Suc ?q" by (metis div_mult_self_is_m zero_less_numeral zero_less_power)
  show "even (Suc n div 2 ^ k)" if "k < l"
  proof -
    have "(2 :: nat) ^ l = 2 ^ (l - k) * 2 ^ k" using that by (simp flip: power_add)
    then have "Suc n div 2 ^ k = Suc ?q * 2 ^ (l - k)"
      using S by (metis div_mult_self_is_m mult.assoc zero_less_numeral zero_less_power)
    with that show ?thesis by simp
  qed
  show "Suc n div 2 ^ k = n div 2 ^ k" if "l < k"
  proof -
    have p: "(2 :: nat) ^ k = 2 ^ l * (2 * 2 ^ (k - Suc l))"
      using that by (simp flip: power_add power_Suc add: Suc_diff_Suc)
    have "Suc ?q div 2 = ?q div 2" using assms(2) by (auto elim!: evenE)
    then show ?thesis
      unfolding p div_mult2_eq q by simp
  qed
qed

lemma append_loop_ok:
  assumes "frontier_ok node fr xs" and "l + k = TREE_DEPTH" and "unat idx = length xs div 2 ^ l"
    and "length xs mod 2 ^ l = 2 ^ l - 1" and "length xs < 2 ^ TREE_DEPTH - 1"
    and "cur = subtree node (slot (xs @ [x])) l (length xs div 2 ^ l)"
  shows "frontier_ok node (append_loop node k l cur idx fr) (xs @ [x])"
  using assms
proof (induction k arbitrary: l cur idx)
  case 0
  then show ?case by simp
next
  case (Suc k)
  let ?n = "length xs" let ?q = "length xs div 2 ^ l"
  have len: "length fr = TREE_DEPTH" using Suc.prems(1) by (simp add: frontier_ok_def)
  show ?case
  proof (cases "even ?q")
    case True
    note bits = increment_bits [OF Suc.prems(4) True]
    have "fr[l := cur] ! j = subtree node (slot (xs @ [x])) j (Suc ?n div 2 ^ j - 1)"
      if "j < TREE_DEPTH" "odd (Suc ?n div 2 ^ j)" for j
    proof (cases j l rule: linorder_cases)
      case less
      then show ?thesis using bits(1) that(2) by blast
    next
      case equal
      then show ?thesis using bits(2) that(1) len Suc.prems(6) by simp
    next
      case greater
      then have "odd (?n div 2 ^ j)" using bits(3) that(2) by simp
      then have "fr ! j = subtree node (slot xs) j (?n div 2 ^ j - 1)"
        using Suc.prems(1) that(1) by (simp add: frontier_ok_def)
      also have "\<dots> = subtree node (slot (xs @ [x])) j (?n div 2 ^ j - 1)"
        by (rule subtree_before [symmetric]) (rule last_block_before [OF \<open>odd (?n div 2 ^ j)\<close>])
      finally show ?thesis using greater bits(3) by simp
    qed
    then show ?thesis
      using True Suc.prems(3) len by (simp add: frontier_ok_def and_one_parity)
  next
    case False
    have "fr ! l = subtree node (slot xs) l (?q - 1)"
      using Suc.prems(1,2) False by (simp add: frontier_ok_def)
    then have fl: "fr ! l = subtree node (slot (xs @ [x])) l (?q - 1)"
      using subtree_before [OF last_block_before [OF False]] by simp
    have half: "?n div 2 ^ Suc l = ?q div 2" by (simp add: div_mult2_eq mult.commute [of 2])
    have "node (fr ! l) cur = subtree node (slot (xs @ [x])) (Suc l) (?n div 2 ^ Suc l)"
      unfolding half using subtree_combine [of ?q "fr ! l" node "slot (xs @ [x])" l] fl False Suc.prems(6) by simp
    moreover have "?n mod 2 ^ Suc l = 2 ^ Suc l - 1"
      using Suc.prems(4) False by (simp add: mod_mult2_eq mult.commute [of 2] odd_iff_mod_2_eq_one)
    ultimately show ?thesis
      using Suc.IH [of "Suc l" "drop_bit 1 idx" "node (fr ! l) cur"] Suc.prems(1-3,5) False
        unat_shift_index [OF Suc.prems(3)]
      by (simp add: and_one_parity)
  qed
qed

lemma root_loop_ok:
  assumes "frontier_ok node fr xs" and "l + k = TREE_DEPTH" and "unat idx = length xs div 2 ^ l"
    and "cur = subtree node (slot xs) l (length xs div 2 ^ l)" and "emp = ladder node TREE_DEPTH"
  shows "root_loop node fr emp k l cur idx = subtree node (slot xs) TREE_DEPTH (length xs div 2 ^ TREE_DEPTH)"
  using assms
proof (induction k arbitrary: l cur idx)
  case (Suc k)
  let ?q = "length xs div 2 ^ l"
  have half: "length xs div 2 ^ Suc l = ?q div 2" by (simp add: div_mult2_eq mult.commute [of 2])
  have fr: "odd ?q \<Longrightarrow> fr ! l = subtree node (slot xs) l (?q - 1)"
    using Suc.prems(1,2) by (simp add: frontier_ok_def)
  have "length xs \<le> (?q + 1) * 2 ^ l"
    using dividend_less_div_times [of "2 ^ l" "length xs"] by (simp add: algebra_simps)
  then have "subtree node (slot xs) l (?q + 1) = empty_node node l"
    by (intro subtree_empty) (auto simp: slot_def)
  then have em: "emp ! l = subtree node (slot xs) l (?q + 1)"
    using Suc.prems(2,5) by (simp add: ladder_nth)
  have "(if idx AND 1 = 1 then node (fr ! l) cur else node cur (emp ! l))
      = subtree node (slot xs) (Suc l) (length xs div 2 ^ Suc l)"
    unfolding half and_one_parity Suc.prems(3,4) by (rule subtree_combine [OF fr em])
  then show ?case
    unfolding root_loop.simps using Suc.prems(1,2,5) unat_shift_index [OF Suc.prems(3)]
    by (intro Suc.IH) simp_all
qed simp

section \<open>The pool tree keeps the append-only contract\<close>

lemma unat_capacity: "unat (push_bit TREE_DEPTH 1 - 1 :: u64) = 2 ^ 32 - 1"
  by (simp add: TREE_DEPTH_def)

lemma has_capacity_iff:
  "has_capacity t n \<longleftrightarrow> unat (it_next_index t) + unat n \<le> 2 ^ 32 - 1"
  unfolding has_capacity_def word_le_nat_alt unat_capacity unat_saturating_add by auto

lemma is_full_iff: "is_full t \<longleftrightarrow> 2 ^ 32 - 1 \<le> unat (it_next_index t)"
  by (auto simp: is_full_def has_capacity_iff)

interpretation pool_tree: append_only_tree
  "inc_new X" "inc_append X" "inc_root X" "2 ^ 32 - 1" "inc_represents X" "full_root X"
  for X :: "'x hash_env_scheme"
proof unfold_locales
  show "inc_represents X (inc_new X) []"
    by (simp add: inc_represents_def inc_new_def frontier_ok_def)
next
  fix t :: IncrementalTree and xs x
  assume rep: "inc_represents X t xs" and len: "length xs < 2 ^ 32 - 1"
  then have n: "unat (it_next_index t) = length xs" by (simp add: inc_represents_def)
  have full: "\<not> is_full t" using len by (simp add: is_full_iff n)
  have "unat (it_next_index t + 1) = Suc (length xs)"
    using unat_plus_one [of "it_next_index t" "2 ^ 32"] n len by (simp add: word_less_nat_alt)
  moreover have "frontier_ok (merkle_node X) (append_loop (merkle_node X) TREE_DEPTH 0 x (it_next_index t) (it_frontier t)) (xs @ [x])"
    using rep len by (intro append_loop_ok) (auto simp: inc_represents_def TREE_DEPTH_def slot_def)
  moreover have "it_next_index t = of_nat (length xs)" by (simp flip: n)
  ultimately show "\<exists>t'. inc_append X t x = (Some (of_nat (length xs)), t') \<and> inc_represents X t' (xs @ [x])"
    using full rep len by (simp add: inc_append_def Let_def inc_represents_def TREE_DEPTH_def)
next
  fix t :: IncrementalTree and xs x
  assume "inc_represents X t xs" and "2 ^ 32 - 1 \<le> length xs"
  then show "inc_append X t x = (None, t)"
    by (simp add: inc_append_def is_full_iff inc_represents_def)
next
  fix t :: IncrementalTree and xs
  assume rep: "inc_represents X t xs"
  then have "it_empty t ! 0 = 0" by (simp add: inc_represents_def empty_roots_def ladder_nth)
  moreover have "length xs div 2 ^ TREE_DEPTH = 0" using rep by (simp add: inc_represents_def)
  ultimately show "inc_root X t = full_root X xs"
    using root_loop_ok [of "merkle_node X" "it_frontier t" xs 0 TREE_DEPTH "it_next_index t" 0 "it_empty t"] rep
    by (simp add: inc_root_def inc_represents_def empty_roots_def slot_def)
qed

section \<open>The wallet's path\<close>

lemma path_loop_ok:
  assumes "pad node l level = subtree node f l" and "l + n \<le> d"
  shows "\<exists>level'. path_loop node (ladder node d) n l level idx sibs
      = (sibs @ map (\<lambda>k. subtree node f (l + k) (sibling (idx div 2 ^ k))) [0..<n], level')
    \<and> pad node (l + n) level' = subtree node f (l + n) \<and> (level \<noteq> [] \<longrightarrow> level' \<noteq> [])"
  using assms
proof (induction n arbitrary: l level idx sibs)
  case (Suc n)
  note subtree.simps(2) [simp del]
  let ?next = "next_level node (ladder node d ! l) level"
  have e: "ladder node d ! l = empty_node node l" using Suc.prems(2) by (simp add: ladder_nth)
  have sib: "(if sibling idx < length level then level ! sibling idx else ladder node d ! l) = subtree node f l (sibling idx)"
    unfolding e pad_def [symmetric] Suc.prems(1) by (rule refl)
  have "pad node (Suc l) ?next = subtree node f (Suc l)"
    unfolding e by (rule next_level_subtree [OF Suc.prems(1)])
  from Suc.IH [OF this, of "idx div 2" "sibs @ [subtree node f l (sibling idx)]"] Suc.prems(2)
  obtain level' where "path_loop node (ladder node d) n (Suc l) ?next (idx div 2) (sibs @ [subtree node f l (sibling idx)])
      = ((sibs @ [subtree node f l (sibling idx)]) @ map (\<lambda>k. subtree node f (Suc l + k) (sibling (idx div 2 div 2 ^ k))) [0..<n], level')"
    "pad node (Suc l + n) level' = subtree node f (Suc l + n)" "level \<noteq> [] \<longrightarrow> level' \<noteq> []" by auto
  moreover have "[0..<Suc n] = 0 # map Suc [0..<n]" by (simp add: map_Suc_upt upt_conv_Cons)
  moreover have "idx div 2 div 2 ^ k = idx div 2 ^ Suc k" for k by (simp add: div_mult2_eq)
  ultimately show ?case
    unfolding path_loop.simps xor_one_sibling sib Let_def by (simp add: drop_bit_eq_div comp_def)
qed simp

lemma full_tree_path_ok:
  assumes "unat i < length leaves"
  shows "full_tree_path X leaves i = Ok (map (\<lambda>l. subtree (merkle_node X) (slot leaves) l (sibling (unat i div 2 ^ l))) [0..<TREE_DEPTH], full_root X leaves)"
proof -
  from path_loop_ok [OF pad_0 [of "merkle_node X" leaves], where n = TREE_DEPTH and d = TREE_DEPTH
      and idx = "unat i" and sibs = "[]"]
  obtain level' where pl: "path_loop (merkle_node X) (empty_roots X) TREE_DEPTH 0 leaves (unat i) []
      = (map (\<lambda>l. subtree (merkle_node X) (slot leaves) l (sibling (unat i div 2 ^ l))) [0..<TREE_DEPTH], level')"
    and lv: "pad (merkle_node X) TREE_DEPTH level' = subtree (merkle_node X) (slot leaves) TREE_DEPTH"
    and ne: "leaves \<noteq> [] \<longrightarrow> level' \<noteq> []"
    by (auto simp: empty_roots_def)
  have "leaves \<noteq> []" using assms by auto
  with ne have "level' ! 0 = full_root X leaves"
    using fun_cong [OF lv, of 0] unfolding pad_def by simp
  with pl assms \<open>leaves \<noteq> []\<close> show ?thesis by (simp add: full_tree_path_def)
qed

lemma full_tree_path_folds:
  assumes "unat i < length leaves" and "length leaves \<le> 2 ^ TREE_DEPTH"
  shows "\<exists>sibs. full_tree_path X leaves i = Ok (sibs, full_root X leaves) \<and> length sibs = TREE_DEPTH
    \<and> fold_path (merkle_node X) sibs 0 i (leaves ! unat i) = full_root X leaves"
proof -
  let ?sibs = "map (\<lambda>l. subtree (merkle_node X) (slot leaves) l (sibling (unat i div 2 ^ l))) [0..<TREE_DEPTH]"
  have "unat i div 2 ^ TREE_DEPTH = 0" using assms by (intro div_less) linarith
  then have "fold_path (merkle_node X) ?sibs 0 i (slot leaves (unat i)) = full_root X leaves"
    using fold_path_reaches [of ?sibs TREE_DEPTH "merkle_node X" "slot leaves" 0 i] by simp
  then show ?thesis
    unfolding full_tree_path_ok [OF assms(1)] using assms(1) by (simp add: slot_def)
qed

section \<open>Anchors\<close>

definition anchors_ok :: "PoolState \<Rightarrow> bool" where
  "anchors_ok p \<longleftrightarrow> length (ps_anchors p) \<le> ANCHOR_WINDOW"

lemma seal_anchor_ok: "anchors_ok p \<Longrightarrow> anchors_ok (seal_anchor X p)"
  by (auto simp: anchors_ok_def seal_anchor_def Let_def)

lemma ANCHOR_WINDOW_pos: "0 < ANCHOR_WINDOW" by (simp add: ANCHOR_WINDOW_def)

lemma seal_anchor_last: "ps_anchors (seal_anchor X p) \<noteq> [] \<and> last (ps_anchors (seal_anchor X p)) = inc_root X (ps_tree p)"
proof (cases "ps_anchors p")
  case Nil
  then show ?thesis using ANCHOR_WINDOW_pos by (auto simp: seal_anchor_def Let_def)
next
  case (Cons a as)
  then show ?thesis by (auto simp: seal_anchor_def Let_def)
qed

lemma seal_anchor_frame [simp]:
  "ps_tree (seal_anchor X p) = ps_tree p" "ps_nullifiers (seal_anchor X p) = ps_nullifiers p"
  "ps_total_shielded (seal_anchor X p) = ps_total_shielded p" "ps_asset (seal_anchor X p) = ps_asset p"
  "ps_version (seal_anchor X p) = ps_version p"
  by (auto simp: seal_anchor_def Let_def)

text \<open>Among the \<open>m\<close> most recent anchors.\<close>

definition among_last :: "nat \<Rightarrow> H256 \<Rightarrow> PoolState \<Rightarrow> bool" where
  "among_last m r p \<longleftrightarrow> r \<in> set (drop (length (ps_anchors p) - m) (ps_anchors p))"

lemma among_last_recent: "among_last m r p \<Longrightarrow> is_recent_anchor p r"
  by (auto simp: among_last_def is_recent_anchor_def dest: in_set_dropD)

lemma among_last_mono: "among_last m r p \<Longrightarrow> among_last (Suc m) r p"
  unfolding among_last_def using set_drop_subset_set_drop [of "length (ps_anchors p) - Suc m" "length (ps_anchors p) - m"]
  by (meson diff_le_mono2 lessI less_imp_le subsetD)

lemma seal_among_last:
  assumes "among_last m r p" and "Suc m \<le> ANCHOR_WINDOW" and "anchors_ok p"
  shows "among_last (Suc m) r (seal_anchor X p)"
proof (cases "ps_anchors p \<noteq> [] \<and> last (ps_anchors p) = inc_root X (ps_tree p)")
  case True
  then show ?thesis using among_last_mono [OF assms(1)] by (simp add: seal_anchor_def)
next
  case False
  let ?as = "ps_anchors p" and ?r = "inc_root X (ps_tree p)"
  have mem: "r \<in> set (drop (Suc (length ?as) - Suc m) (?as @ [?r]))"
    using assms(1) by (auto simp: among_last_def)
  show ?thesis
  proof (cases "Suc (length ?as) > ANCHOR_WINDOW")
    case True
    have "drop (length ?as - Suc m) (tl (?as @ [?r])) = drop (Suc (length ?as - Suc m)) (?as @ [?r])"
      by (simp only: drop_Suc)
    moreover have "Suc (length ?as - Suc m) = Suc (length ?as) - Suc m" using True assms(2) by simp
    ultimately show ?thesis
      using mem True False unfolding among_last_def seal_anchor_def Let_def by auto
  next
    case False
    with \<open>\<not> (?as \<noteq> [] \<and> last ?as = ?r)\<close> mem show ?thesis
      unfolding among_last_def seal_anchor_def Let_def by auto
  qed
qed

lemma seals_keep_anchor:
  assumes "among_last m r p" and "m + length ts \<le> ANCHOR_WINDOW" and "anchors_ok p"
  shows "is_recent_anchor (for_each ts (\<lambda>t p. seal_anchor X (p\<lparr>ps_tree := t\<rparr>)) p) r"
  using assms
proof (induction ts arbitrary: m p)
  case Nil
  then show ?case using among_last_recent by simp
next
  case (Cons t ts)
  have "among_last m r (p\<lparr>ps_tree := t\<rparr>)" "anchors_ok (p\<lparr>ps_tree := t\<rparr>)"
    using Cons.prems(1,3) by (simp_all add: among_last_def anchors_ok_def)
  then show ?case
    using Cons.IH [of "Suc m"] seal_among_last [of m r "p\<lparr>ps_tree := t\<rparr>" X]
      seal_anchor_ok [of "p\<lparr>ps_tree := t\<rparr>" X] Cons.prems(2) by simp
qed

section \<open>Properties\<close>

text \<open>The frontier is a faithful compression of the tree. After appending any list of
  commitments, at most \<open>2 ^ 32 - 1\<close> of them, to an empty tree, the frontier root is the root of the
  full depth-32 tree over those leaves padded with empty slots; the path a wallet rebuilds for any
  of the leaves comes with that same root, and the fold the circuit runs over the path ends in it.\<close>

lemma frontier_matches_full_tree:
  assumes "length leaves \<le> 2 ^ 32 - 1" and "unat i < length leaves"
  shows "inc_root X (for_each leaves (\<lambda>leaf t. snd (inc_append X t leaf)) (inc_new X)) = full_root X leaves
    \<and> (\<exists>sibs. full_tree_path X leaves i = Ok (sibs, full_root X leaves)
         \<and> fold_path (merkle_node X) sibs 0 i (leaves ! unat i) = full_root X leaves)"
proof -
  have "length leaves \<le> 2 ^ TREE_DEPTH" using assms(1) by (simp add: TREE_DEPTH_def)
  from full_tree_path_folds [OF assms(2) this] pool_tree.build_root [OF assms(1)] show ?thesis by blast
qed

text \<open>Appends hand out consecutive leaf indices from zero until the tree is full, and an append
  to a full tree changes nothing. Every tree that \<open>xs\<close> represents behaves so, and represents
  the longer list afterwards.\<close>

lemma inc_append_indices:
  assumes "inc_represents X t xs"
  shows "if length xs < 2 ^ 32 - 1
    then \<exists>t'. inc_append X t x = (Some (of_nat (length xs)), t') \<and> inc_represents X t' (xs @ [x])
           \<and> it_next_index t' = it_next_index t + 1
    else inc_append X t x = (None, t)"
proof (cases "length xs < 2 ^ 32 - 1")
  case True
  from pool_tree.append_ok [OF assms True, of x] obtain t'
    where t': "inc_append X t x = (Some (of_nat (length xs)), t')" "inc_represents X t' (xs @ [x])" by blast
  moreover have "it_next_index t' = it_next_index t + 1"
    using t'(1) by (auto simp: inc_append_def Let_def split: if_splits)
  ultimately show ?thesis using True by simp
next
  case False
  then show ?thesis using pool_tree.append_full [OF assms] by simp
qed

text \<open>Wallet, chain and circuit agree. For a note of an address with at most \<open>2 ^ 10\<close> one-time
  keys that sits in the pool's tree, the path rebuilt from the leaves and the authorization of
  any one-time key give a witness the spend statement accepts, for every balanced choice of
  outputs and fee, and the root it exposes is the pool's root.\<close>

lemma chain_and_circuit_agree:
  assumes "length leaves \<le> 2 ^ 32 - 1" and "unat i < length leaves" and "leaves ! unat i = commit_note X note"
    and "unat h \<le> 10" and "unat index < 2 ^ unat h"
    and "spend_root X master h = Ok root" and "nt_owner note = address_tag X root nk"
    and "unat (nt_value note) = unat (nt_value out1) + unat (nt_value out2) + unat fee"
    and "full_tree_path X leaves i = Ok (sibs, wallet_root)"
    and "spend_auth X master h index binding = Ok (sig, ots_path)"
  shows "run X \<lparr>sw_in_note = note, sw_path = \<lparr>mp_siblings = sibs, mp_index = i\<rparr>, sw_sig = sig,
      sw_ots_path = ots_path, sw_nk = nk, sw_out_note = out1, sw_out2_note = out2, sw_fee = fee, sw_tx_binding = binding\<rparr>
    = Ok \<lparr>sp_merkle_root = inc_root X (for_each leaves (\<lambda>leaf t. snd (inc_append X t leaf)) (inc_new X)),
         sp_nullifier = nullifier X nk (nt_rho note), sp_out_commitment = commit_note X out1,
         sp_out2_commitment = commit_note X out2, sp_fee = fee, sp_tx_binding = binding\<rparr>"
proof -
  have "length leaves \<le> 2 ^ TREE_DEPTH" using assms(1) by (simp add: TREE_DEPTH_def)
  from full_tree_path_folds [OF assms(2) this, of X] assms(3,9)
  have path: "length sibs = TREE_DEPTH" "fold_path (merkle_node X) sibs 0 i (commit_note X note) = full_root X leaves"
    by auto
  have "unat h \<le> SPEND_TREE_DEPTH" using assms(4) by (simp add: SPEND_TREE_DEPTH_def)
  from spend_auth_recovers [OF this assms(5), of X master binding] assms(6,10)
  have auth: "length (mp_siblings ots_path) = SPEND_TREE_DEPTH"
    "\<exists>leaf. wots_recover_owner X (ws_sig sig) binding = Some leaf \<and> fold_path (ots_node X) (mp_siblings ots_path) 0 (mp_index ots_path) leaf = root"
    by auto
  show ?thesis
    unfolding run_Ok_iff spend_valid_def spend_public_def pool_tree.build_root [OF assms(1)]
    using path auth assms(7,8) by auto
qed

text \<open>The anchor window. Sealing makes the current root a spendable anchor, keeps at most 128 of
  them, and a root stays spendable through the next 127 seals whatever is appended in between.\<close>

lemma anchor_stays_recent:
  assumes "anchors_ok p" and "length ts < ANCHOR_WINDOW"
  shows "let q = for_each ts (\<lambda>t p. seal_anchor X (p\<lparr>ps_tree := t\<rparr>)) (seal_anchor X p)
    in is_recent_anchor q (inc_root X (ps_tree p)) \<and> length (ps_anchors q) \<le> ANCHOR_WINDOW"
proof -
  let ?p = "seal_anchor X p" and ?r = "inc_root X (ps_tree p)"
  have "among_last 1 ?r ?p"
    using seal_anchor_last [of X p] by (cases "ps_anchors ?p" rule: rev_cases) (auto simp: among_last_def)
  then have "is_recent_anchor (for_each ts (\<lambda>t p. seal_anchor X (p\<lparr>ps_tree := t\<rparr>)) ?p) ?r"
    by (rule seals_keep_anchor) (use assms(2) seal_anchor_ok [OF assms(1)] in simp_all)
  moreover have "anchors_ok (for_each ts (\<lambda>t p. seal_anchor X (p\<lparr>ps_tree := t\<rparr>)) ?p)"
  proof (rule for_each_inv)
    show "anchors_ok ?p" by (rule seal_anchor_ok [OF assms(1)])
    show "anchors_ok q \<Longrightarrow> anchors_ok (seal_anchor X (q\<lparr>ps_tree := t\<rparr>))" for t q
      by (rule seal_anchor_ok) (simp add: anchors_ok_def)
  qed
  ultimately show ?thesis by (simp add: Let_def anchors_ok_def)
qed

end
