(* ===== verification/HK_Tx.thy ===== *)
theory HK_Tx
  imports HK_Assets HK_Lamport HK_Pool
begin

text \<open>
  Transactions (\<^verbatim>\<open>hk-state/src/tx.rs\<close>): the payload variants, the signed envelope and the digest
  the account key signs. The canonical JSON encoding of a payload comes from the \<^verbatim>\<open>serde_json\<close>
  crate and is the field \<open>json_tx\<close> of the environment; it fails with \<open>None\<close>.
\<close>

datatype Tx =
    Transfer AccountId AssetId Amount
  | MandateCreate MandateId "MandateId option" AccountId AssetId Amount Amount Amount Amount Timestamp u8
  | MandateSpend MandateId AccountId Amount
  | MandateRevoke MandateId
  | ChannelOpen ChannelId MandateId AccountId AssetId H256 Amount u32 Timestamp
  | ChannelSettle ChannelId H256 u32
  | ChannelRefund ChannelId
  | MintToPool AssetId Amount H256 bytes bytes
  | ShieldedSpend H256 H256 H256 H256 Amount "AccountId option" "MandateId option" bytes bytes bytes
  | AccountCreate AccountId H256 AssetId Amount
  | AssetRegister AssetId string u8 AssetPolicy
  | AssetMint AssetId AccountId Amount
  | AssetBurn AssetId Amount bytes
  | AssetFreeze AssetId AccountId bool
  | AssetPause AssetId bool

record SignedTx =
  stx_sender :: AccountId
  stx_nonce :: u64
  stx_payload :: Tx
  stx_next_auth :: H256
  stx_lamport_pk :: bytes
  stx_sig :: bytes

record tx_env = hash_env +
  json_tx :: "Tx \<Rightarrow> bytes option"

definition signing_digest :: "'x tx_env_scheme \<Rightarrow> Tx \<Rightarrow> AccountId \<Rightarrow> u64 \<Rightarrow> H256 \<Rightarrow> H256 option" where
  "signing_digest X payload sender nonce next_auth =
     (case json_tx X payload of
        None \<Rightarrow> None
      | Some payload_bytes \<Rightarrow>
          Some (shake256_32 X DOM_TX_MSG [payload_bytes, h256_bytes sender, u64_le nonce, h256_bytes next_auth]))"

text \<open>\<open>State::verify_envelope\<close>: the state-free part of the envelope check.\<close>

definition verify_envelope :: "'x tx_env_scheme \<Rightarrow> SignedTx \<Rightarrow> bool" where
  "verify_envelope X stx =
     (case signing_digest X (stx_payload stx) (stx_sender stx) (stx_nonce stx) (stx_next_auth stx) of
        Some digest \<Rightarrow> lamport_verify X (stx_lamport_pk stx) digest (stx_sig stx) = Ok ()
      | None \<Rightarrow> False)"

text \<open>An envelope signed with the key of a ratchet position.\<close>

definition sign_tx :: "'x tx_env_scheme \<Rightarrow> bytes \<Rightarrow> u64 \<Rightarrow> AccountId \<Rightarrow> Tx \<Rightarrow> H256 \<Rightarrow> SignedTx option" where
  "sign_tx X seed nonce sender payload next_auth =
     (case signing_digest X payload sender nonce next_auth of
        None \<Rightarrow> None
      | Some digest \<Rightarrow>
          (case keygen X seed nonce of
             (sk, pk) \<Rightarrow> Some \<lparr>stx_sender = sender, stx_nonce = nonce, stx_payload = payload, stx_next_auth = next_auth,
                              stx_lamport_pk = pk, stx_sig = lamport_sign sk digest\<rparr>))"

lemma sign_tx_verifies: "sign_tx X seed nonce sender payload next_auth = Some stx \<Longrightarrow> verify_envelope X stx"
  using lamport_roundtrip [of X seed nonce]
  by (auto simp: sign_tx_def verify_envelope_def split: option.splits prod.splits)

end
