(* ===== verification/HK_Mandate.thy ===== *)
theory HK_Mandate
  imports HK_Primitives
begin

text \<open>
  The mandate tree (\<^verbatim>\<open>hk-mandate/src/lib.rs\<close>): hierarchical budgets with drip accrual, a
  spend that must clear the whole ancestor chain, cascade revocation and attenuation. The
  lemmas show that a spend is atomic, exactly what it debits, that buffers never underflow,
  how much a node can let through over time, that revocation reaches the whole subtree, that
  the reported availability is exact, and that a tree built through the asset-bound entry
  point holds a single asset per chain.
\<close>

definition MAX_DEPTH :: nat where "MAX_DEPTH = 64"

datatype SpendError =
    NotFound
  | Revoked nat
  | Expired nat
  | PerTxCap nat
  | Insufficient nat Amount Amount
  | BadChain
  | Attenuation string

record MandateTree =
  mt_nodes :: "(MandateId, MandateNode) btree_map"

definition tree_new :: MandateTree where
  "tree_new = \<lparr>mt_nodes = []\<rparr>"

definition tree_get :: "MandateTree \<Rightarrow> MandateId \<Rightarrow> MandateNode option" where
  "tree_get t i = bmap_get (mt_nodes t) i"

definition set_node :: "MandateTree \<Rightarrow> MandateId \<Rightarrow> MandateNode \<Rightarrow> MandateTree" where
  "set_node t i n = t\<lparr>mt_nodes := bmap_insert (mt_nodes t) i n\<rparr>"

definition tree_insert :: "MandateTree \<Rightarrow> MandateNode \<Rightarrow> (unit, SpendError, MandateTree) step" where
  "tree_insert t node =
     (case mn_parent node of
        None \<Rightarrow> (Ok (), set_node t (mn_id node) node)
      | Some pid \<Rightarrow>
          try_ro (ok_or (tree_get t pid) NotFound) t (\<lambda>parent.
            if mn_expiry node > mn_expiry parent then (Err (Attenuation ''child expiry outlives parent''), t)
            else if mn_per_tx_max node > mn_per_tx_max parent
            then (Err (Attenuation ''child per_tx_max exceeds parent''), t)
            else (Ok (), set_node t (mn_id node) node)))"

definition check_asset_bound :: "MandateTree \<Rightarrow> MandateNode \<Rightarrow> (unit, SpendError) outcome" where
  "check_asset_bound t node =
     (case mn_parent node of
        None \<Rightarrow> Ok ()
      | Some pid \<Rightarrow>
          bind_ok (ok_or (tree_get t pid) NotFound) (\<lambda>parent.
            if mn_asset node \<noteq> mn_asset parent then Err (Attenuation ''child asset differs from parent'')
            else Ok ()))"

definition insert_asset_bound :: "MandateTree \<Rightarrow> MandateNode \<Rightarrow> (unit, SpendError, MandateTree) step" where
  "insert_asset_bound t node = try_ro (check_asset_bound t node) t (\<lambda>_. tree_insert t node)"

definition revoke :: "MandateTree \<Rightarrow> MandateId \<Rightarrow> (unit, SpendError, MandateTree) step" where
  "revoke t i =
     try_ro (ok_or (tree_get t i) NotFound) t (\<lambda>n. (Ok (), set_node t i (n\<lparr>mn_revoked := True\<rparr>)))"

definition accrue :: "MandateNode \<Rightarrow> Timestamp \<Rightarrow> MandateNode" where
  "accrue node now =
     (if now > mn_last_accrual node
      then let dt = u64_as_u128 (now - mn_last_accrual node)
           in node\<lparr>mn_buffer := min (saturating_add (mn_buffer node) (saturating_mul (mn_rate_per_sec node) dt))
                                   (mn_buffer_max node),
                   mn_last_accrual := now\<rparr>
      else node)"

fun chain_loop :: "MandateTree \<Rightarrow> nat \<Rightarrow> MandateId \<Rightarrow> MandateId list \<Rightarrow> (MandateId list, SpendError) outcome" where
  "chain_loop t 0 cur chain = Err BadChain"
| "chain_loop t (Suc n) cur chain =
     (case tree_get t cur of
        None \<Rightarrow> Err NotFound
      | Some node \<Rightarrow>
          (case mn_parent node of
             Some p \<Rightarrow> chain_loop t n p (chain @ [cur])
           | None \<Rightarrow> Ok (chain @ [cur])))"

definition chain_of :: "MandateTree \<Rightarrow> MandateId \<Rightarrow> (MandateId list, SpendError) outcome" where
  "chain_of t leaf = chain_loop t MAX_DEPTH leaf []"

text \<open>The buffer a node would have at \<open>now\<close>, as the read-only checks compute it.\<close>

definition projected :: "MandateNode \<Rightarrow> Timestamp \<Rightarrow> Amount" where
  "projected n now =
     (let dt = u64_as_u128 (saturating_sub now (mn_last_accrual n))
      in min (saturating_add (mn_buffer n) (saturating_mul (mn_rate_per_sec n) dt)) (mn_buffer_max n))"

fun check_loop :: "MandateTree \<Rightarrow> Amount \<Rightarrow> Timestamp \<Rightarrow> nat \<Rightarrow> MandateId list \<Rightarrow> (unit, SpendError) outcome" where
  "check_loop t amount now depth [] = Ok ()"
| "check_loop t amount now depth (i # rest) =
     (case tree_get t i of
        None \<Rightarrow> Panic
      | Some n \<Rightarrow>
          if mn_revoked n then Err (Revoked depth)
          else if now \<ge> mn_expiry n then Err (Expired depth)
          else if amount > mn_per_tx_max n then Err (PerTxCap depth)
          else if projected n now < amount then Err (Insufficient depth (projected n now) amount)
          else check_loop t amount now (Suc depth) rest)"

definition check :: "MandateTree \<Rightarrow> MandateId \<Rightarrow> Amount \<Rightarrow> Timestamp \<Rightarrow> (unit, SpendError) outcome" where
  "check t leaf amount now = bind_ok (chain_of t leaf) (\<lambda>chain. check_loop t amount now 0 chain)"

fun debit_loop :: "Amount \<Rightarrow> Timestamp \<Rightarrow> MandateId list \<Rightarrow> MandateTree \<Rightarrow> (unit, SpendError, MandateTree) step" where
  "debit_loop amount now [] t = (Ok (), t)"
| "debit_loop amount now (i # rest) t =
     (case tree_get t i of
        None \<Rightarrow> (Panic, t)
      | Some n \<Rightarrow>
          let n' = accrue n now
          in debit_loop amount now rest (set_node t i (n'\<lparr>mn_buffer := mn_buffer n' - amount\<rparr>)))"

definition spend :: "MandateTree \<Rightarrow> MandateId \<Rightarrow> Amount \<Rightarrow> Timestamp \<Rightarrow> (unit, SpendError, MandateTree) step" where
  "spend t leaf amount now =
     try_ro (check t leaf amount now) t (\<lambda>_.
     try_ro (chain_of t leaf) t (\<lambda>chain.
       debit_loop amount now chain t))"

definition root_of :: "MandateTree \<Rightarrow> MandateId \<Rightarrow> (MandateId, SpendError) outcome" where
  "root_of t leaf =
     bind_ok (chain_of t leaf) (\<lambda>chain. if chain = [] then Panic else Ok (last chain))"

fun available_loop :: "MandateTree \<Rightarrow> Timestamp \<Rightarrow> nat \<Rightarrow> MandateId list \<Rightarrow> Amount \<Rightarrow> (Amount, SpendError) outcome" where
  "available_loop t now depth [] avail = Ok avail"
| "available_loop t now depth (i # rest) avail =
     (case tree_get t i of
        None \<Rightarrow> Panic
      | Some n \<Rightarrow>
          if mn_revoked n then Err (Revoked depth)
          else if now \<ge> mn_expiry n then Err (Expired depth)
          else available_loop t now (Suc depth) rest (min (min avail (projected n now)) (mn_per_tx_max n)))"

definition available :: "MandateTree \<Rightarrow> MandateId \<Rightarrow> Timestamp \<Rightarrow> (Amount, SpendError) outcome" where
  "available t leaf now = bind_ok (chain_of t leaf) (\<lambda>chain. available_loop t now 0 chain (- 1))"

section \<open>Chains\<close>

lemma tree_get_set [simp]: "tree_get (set_node t i n) j = (if j = i then Some n else tree_get t j)"
  by (simp add: tree_get_def set_node_def)

text \<open>What a chain is: a leaf-to-root path of parent links.\<close>

fun is_chain :: "MandateTree \<Rightarrow> MandateId list \<Rightarrow> bool" where
  "is_chain t [] = False"
| "is_chain t [i] = (\<exists>n. tree_get t i = Some n \<and> mn_parent n = None)"
| "is_chain t (i # j # rest) = ((\<exists>n. tree_get t i = Some n \<and> mn_parent n = Some j) \<and> is_chain t (j # rest))"

lemma chain_loop_Ok:
  "chain_loop t n cur acc = Ok c \<Longrightarrow> \<exists>rest. c = acc @ cur # rest \<and> is_chain t (cur # rest) \<and> length (cur # rest) \<le> n"
proof (induction t n cur acc arbitrary: c rule: chain_loop.induct)
  case (2 t n cur chain)
  then obtain node where node: "tree_get t cur = Some node" by (auto split: option.splits)
  show ?case
  proof (cases "mn_parent node")
    case None
    then show ?thesis using 2(2) node by auto
  next
    case (Some p)
    with 2 node obtain rest where "c = (chain @ [cur]) @ p # rest" "is_chain t (p # rest)" "length (p # rest) \<le> n"
      by fastforce
    then show ?thesis using node Some by (intro exI [of _ "p # rest"]) simp
  qed
qed simp

lemma chain_loop_complete:
  "is_chain t (cur # rest) \<Longrightarrow> length (cur # rest) \<le> n \<Longrightarrow> chain_loop t n cur acc = Ok (acc @ cur # rest)"
proof (induction n arbitrary: cur rest acc)
  case (Suc n)
  then show ?case by (cases rest) auto
qed simp

lemma chain_of_iff: "chain_of t leaf = Ok c \<longleftrightarrow> (\<exists>rest. c = leaf # rest) \<and> is_chain t c \<and> length c \<le> MAX_DEPTH"
proof
  assume "chain_of t leaf = Ok c"
  then show "(\<exists>rest. c = leaf # rest) \<and> is_chain t c \<and> length c \<le> MAX_DEPTH"
    unfolding chain_of_def by (auto dest: chain_loop_Ok)
next
  assume "(\<exists>rest. c = leaf # rest) \<and> is_chain t c \<and> length c \<le> MAX_DEPTH"
  then show "chain_of t leaf = Ok c"
    unfolding chain_of_def using chain_loop_complete [of t leaf _ MAX_DEPTH "[]"] by auto
qed

lemma chain_loop_not_Panic [simp]: "chain_loop t n cur acc \<noteq> Panic"
  by (induction t n cur acc rule: chain_loop.induct) (auto split: option.splits)

lemma chain_of_not_Panic [simp]: "chain_of t leaf \<noteq> Panic"
  by (simp add: chain_of_def)

lemma is_chain_present: "is_chain t c \<Longrightarrow> i \<in> set c \<Longrightarrow> \<exists>n. tree_get t i = Some n"
  by (induction t c rule: is_chain.induct) auto

lemma is_chain_det:
  "is_chain t (i # xs) \<Longrightarrow> is_chain t (i # ys) \<Longrightarrow> xs = ys"
proof (induction xs arbitrary: i ys)
  case Nil
  then show ?case by (cases ys) auto
next
  case (Cons x xs)
  then show ?case by (cases ys) auto
qed

lemma is_chain_suffix: "is_chain t (xs @ i # ys) \<Longrightarrow> is_chain t (i # ys)"
proof (induction xs)
  case (Cons x xs)
  then show ?case by (cases "xs @ i # ys") auto
qed simp

lemma is_chain_distinct: "is_chain t c \<Longrightarrow> distinct c"
proof (rule ccontr)
  assume c: "is_chain t c" and "\<not> distinct c"
  then obtain xs ys zs i where split: "c = xs @ [i] @ ys @ [i] @ zs"
    using not_distinct_decomp by blast
  have "is_chain t (i # ys @ i # zs)" using is_chain_suffix [of t xs i] c split by simp
  moreover have "is_chain t (i # zs)" using is_chain_suffix [of t "xs @ i # ys" i zs] c split by simp
  ultimately have "ys @ i # zs = zs" by (rule is_chain_det)
  then have "length (ys @ i # zs) = length zs" by simp
  then show False by simp
qed

section \<open>Checking and spending\<close>

definition node_allows :: "MandateNode \<Rightarrow> Amount \<Rightarrow> Timestamp \<Rightarrow> bool" where
  "node_allows n amount now \<longleftrightarrow>
     \<not> mn_revoked n \<and> now < mn_expiry n \<and> amount \<le> mn_per_tx_max n \<and> amount \<le> projected n now"

definition charge :: "MandateNode \<Rightarrow> Amount \<Rightarrow> Timestamp \<Rightarrow> MandateNode" where
  "charge n amount now = (let n' = accrue n now in n'\<lparr>mn_buffer := mn_buffer n' - amount\<rparr>)"

lemma check_loop_Ok_iff:
  "check_loop t a now d c = Ok () \<longleftrightarrow> (\<forall>i \<in> set c. \<exists>n. tree_get t i = Some n \<and> node_allows n a now)"
  by (induction t a now d c rule: check_loop.induct)
    (auto simp: node_allows_def not_less not_le split: option.splits)

lemma check_loop_not_Panic:
  "(\<And>i. i \<in> set c \<Longrightarrow> \<exists>n. tree_get t i = Some n) \<Longrightarrow> check_loop t a now d c \<noteq> Panic"
proof (induction t a now d c rule: check_loop.induct)
  case (2 t amount now depth i rest)
  moreover obtain n where "tree_get t i = Some n" using 2(2) [of i] by auto
  ultimately show ?case by auto
qed simp

lemma check_not_Panic [simp]: "check t leaf a now \<noteq> Panic"
proof (cases "chain_of t leaf")
  case (Ok c)
  then have "is_chain t c" by (simp add: chain_of_iff)
  then show ?thesis
    using check_loop_not_Panic [of c t a now 0] is_chain_present Ok by (auto simp: check_def)
qed (auto simp: check_def)

lemma check_Ok_iff:
  "check t leaf a now = Ok () \<longleftrightarrow>
     (\<exists>c. chain_of t leaf = Ok c \<and> (\<forall>i \<in> set c. \<exists>n. tree_get t i = Some n \<and> node_allows n a now))"
  by (cases "chain_of t leaf") (auto simp: check_def check_loop_Ok_iff)

lemma unat_mono_min: "unat (min a b) = min (unat a) (unat b)" for a b :: "'a::len word"
  by (simp add: min_def word_le_nat_alt)

text \<open>After accrual the buffer is at least what the check projected, so the debit of a checked
  amount never wraps.\<close>

lemma accrue_projected: "projected n now \<le> mn_buffer (accrue n now)"
proof (cases "now > mn_last_accrual n")
  case True
  then show ?thesis
    by (simp add: accrue_def projected_def saturating_sub_def Let_def less_imp_le)
next
  case False
  then have "saturating_sub now (mn_last_accrual n) = 0"
    by (auto simp: saturating_sub_def)
  then have "projected n now = min (mn_buffer n) (mn_buffer_max n)"
    by (simp add: projected_def u64_as_u128_def saturating_mul_def saturating_add_def)
  with False show ?thesis by (simp add: accrue_def)
qed

lemma charge_buffer:
  assumes "node_allows n a now"
  shows "unat (mn_buffer (charge n a now)) + unat a = unat (mn_buffer (accrue n now))"
proof -
  have "a \<le> mn_buffer (accrue n now)"
    using assms accrue_projected [of n now] by (auto simp: node_allows_def)
  then show ?thesis
    by (simp add: charge_def Let_def unat_sub word_le_nat_alt)
qed

lemma accrue_frame [simp]:
  "mn_id (accrue n now) = mn_id n" "mn_parent (accrue n now) = mn_parent n"
  "mn_asset (accrue n now) = mn_asset n" "mn_revoked (accrue n now) = mn_revoked n"
  "mn_expiry (accrue n now) = mn_expiry n" "mn_per_tx_max (accrue n now) = mn_per_tx_max n"
  "mn_buffer_max (accrue n now) = mn_buffer_max n" "mn_rate_per_sec (accrue n now) = mn_rate_per_sec n"
  "mn_holder_key (accrue n now) = mn_holder_key n"
  by (simp_all add: accrue_def Let_def)

lemma charge_frame [simp]:
  "mn_id (charge n a now) = mn_id n" "mn_parent (charge n a now) = mn_parent n"
  "mn_asset (charge n a now) = mn_asset n" "mn_revoked (charge n a now) = mn_revoked n"
  "mn_expiry (charge n a now) = mn_expiry n" "mn_per_tx_max (charge n a now) = mn_per_tx_max n"
  "mn_buffer_max (charge n a now) = mn_buffer_max n" "mn_rate_per_sec (charge n a now) = mn_rate_per_sec n"
  "mn_holder_key (charge n a now) = mn_holder_key n"
  by (simp_all add: charge_def Let_def)

lemma debit_loop_spec:
  assumes "distinct c" and "\<And>i. i \<in> set c \<Longrightarrow> \<exists>n. tree_get t i = Some n"
  shows "\<exists>t'. debit_loop a now c t = (Ok (), t')
    \<and> (\<forall>j. tree_get t' j = (if j \<in> set c then map_option (\<lambda>n. charge n a now) (tree_get t j) else tree_get t j))"
  using assms
proof (induction c arbitrary: t)
  case (Cons i c)
  obtain n where n: "tree_get t i = Some n" using Cons.prems(2) [of i] by auto
  let ?t1 = "set_node t i (charge n a now)"
  have "\<exists>m. tree_get ?t1 j = Some m" if "j \<in> set c" for j
    using Cons.prems(2) [of j] that by auto
  then obtain t' where t': "debit_loop a now c ?t1 = (Ok (), t')"
    and post: "\<forall>j. tree_get t' j = (if j \<in> set c then map_option (\<lambda>n. charge n a now) (tree_get ?t1 j) else tree_get ?t1 j)"
    using Cons.IH [of ?t1] Cons.prems(1) by auto
  have "debit_loop a now (i # c) t = (Ok (), t')"
    using n t' by (simp add: charge_def Let_def)
  moreover have "tree_get t' j = (if j \<in> set (i # c) then map_option (\<lambda>n. charge n a now) (tree_get t j) else tree_get t j)" for j
    using post Cons.prems(1) n by auto
  ultimately show ?case by blast
qed simp

lemma spend_Ok_cases:
  assumes "check t leaf a now = Ok ()"
  obtains c t' where "chain_of t leaf = Ok c" and "spend t leaf a now = (Ok (), t')"
    and "\<And>j. tree_get t' j = (if j \<in> set c then map_option (\<lambda>n. charge n a now) (tree_get t j) else tree_get t j)"
    and "\<And>i. i \<in> set c \<Longrightarrow> \<exists>n. tree_get t i = Some n \<and> node_allows n a now"
proof -
  from assms obtain c where c: "chain_of t leaf = Ok c"
    and all: "\<And>i. i \<in> set c \<Longrightarrow> \<exists>n. tree_get t i = Some n \<and> node_allows n a now"
    by (auto simp: check_Ok_iff)
  have "distinct c" using c by (metis chain_of_iff is_chain_distinct)
  then obtain t' where "debit_loop a now c t = (Ok (), t')"
    "\<forall>j. tree_get t' j = (if j \<in> set c then map_option (\<lambda>n. charge n a now) (tree_get t j) else tree_get t j)"
    using debit_loop_spec [of c t a now] all by blast
  then show ?thesis
    using that [OF c] assms c all by (simp add: spend_def)
qed

interpretation mandate_spend: two_phase
  "\<lambda>t (leaf, a, now). check t leaf a now" "\<lambda>t (leaf, a, now). spend t leaf a now"
proof unfold_locales
  fix t :: MandateTree and i :: "MandateId \<times> Amount \<times> Timestamp" and e
  obtain leaf a now where i: "i = (leaf, a, now)" by (cases i)
  show "(case i of (leaf, a, now) \<Rightarrow> check t leaf a now) \<noteq> Panic"
    by (simp add: i)
  show "(case i of (leaf, a, now) \<Rightarrow> check t leaf a now) = Err e \<Longrightarrow>
    (case i of (leaf, a, now) \<Rightarrow> spend t leaf a now) = (Err e, t)"
    by (simp add: i spend_def)
  show "(case i of (leaf, a, now) \<Rightarrow> check t leaf a now) = Ok () \<Longrightarrow>
    fst (case i of (leaf, a, now) \<Rightarrow> spend t leaf a now) = Ok ()"
    by (auto simp: i elim: spend_Ok_cases)
qed

lemma spend_clean: "clean_from t (spend t leaf a now)"
  using mandate_spend.commit_clean [of t "(leaf, a, now)"] by simp

lemma spend_OkD:
  assumes "spend t leaf a now = (Ok (), t')"
  shows "check t leaf a now = Ok ()"
  using mandate_spend.commit_Ok_iff [of t "(leaf, a, now)"] assms by simp

text \<open>The full effect of an accepted spend: every node of the chain is charged without
  wrapping, every other node is untouched, and no key appears or disappears.\<close>

lemma spend_effect:
  assumes "spend t leaf a now = (Ok (), t')"
  shows "\<exists>c. chain_of t leaf = Ok c
    \<and> (\<forall>i \<in> set c. \<exists>n. tree_get t i = Some n \<and> node_allows n a now
          \<and> tree_get t' i = Some (charge n a now)
          \<and> unat (mn_buffer (charge n a now)) + unat a = unat (mn_buffer (accrue n now)))
    \<and> (\<forall>i. i \<notin> set c \<longrightarrow> tree_get t' i = tree_get t i)"
proof -
  obtain c t'' where c: "chain_of t leaf = Ok c" and sp: "spend t leaf a now = (Ok (), t'')"
    and post: "\<And>j. tree_get t'' j = (if j \<in> set c then map_option (\<lambda>n. charge n a now) (tree_get t j) else tree_get t j)"
    and all: "\<And>i. i \<in> set c \<Longrightarrow> \<exists>n. tree_get t i = Some n \<and> node_allows n a now"
    by (rule spend_Ok_cases [OF spend_OkD [OF assms]]) blast
  have "t'' = t'" using sp assms by simp
  with c post all charge_buffer show ?thesis by fastforce
qed

section \<open>Availability is exact\<close>

lemma available_loop_Ok:
  "available_loop t now d c av = Ok r \<Longrightarrow>
     (a \<le> r \<longleftrightarrow> a \<le> av \<and> (\<forall>i \<in> set c. \<exists>n. tree_get t i = Some n \<and> node_allows n a now))"
proof (induction t now d c av rule: available_loop.induct)
  case (2 t now depth i rest avail)
  then obtain n where n: "tree_get t i = Some n" "\<not> mn_revoked n" "\<not> now \<ge> mn_expiry n"
    by (auto split: option.splits if_splits)
  with 2 have "a \<le> r \<longleftrightarrow> a \<le> min (min avail (projected n now)) (mn_per_tx_max n)
      \<and> (\<forall>j \<in> set rest. \<exists>m. tree_get t j = Some m \<and> node_allows m a now)"
    by auto
  with n show ?case by (auto simp: node_allows_def not_le)
qed simp

lemma available_loop_complete:
  "(\<forall>i \<in> set c. \<exists>n. tree_get t i = Some n \<and> node_allows n a now) \<Longrightarrow> \<exists>r. available_loop t now d c av = Ok r"
proof (induction t now d c av rule: available_loop.induct)
  case (2 t now depth i rest avail)
  then obtain n where n: "tree_get t i = Some n" "node_allows n a now" by auto
  then show ?case using 2 by (auto simp: node_allows_def not_le)
qed simp

lemma check_iff_available:
  "check t leaf a now = Ok () \<longleftrightarrow> (\<exists>r. available t leaf now = Ok r \<and> a \<le> r)"
proof (cases "chain_of t leaf")
  case (Ok c)
  have "a \<le> (- 1 :: Amount)" by simp
  with Ok show ?thesis
    using available_loop_Ok [of t now 0 c "- 1" _ a] available_loop_complete [of c t a now 0 "- 1"]
    by (auto simp: available_def check_Ok_iff)
qed (auto simp: available_def check_def)

section \<open>Revocation reaches the subtree\<close>

definition on_chain :: "MandateTree \<Rightarrow> MandateId \<Rightarrow> MandateId \<Rightarrow> bool" where
  "on_chain t leaf i = (case chain_of t leaf of Ok c \<Rightarrow> i \<in> set c | _ \<Rightarrow> False)"

lemma revoked_blocks:
  assumes "on_chain t leaf i" and "tree_get t i = Some n" and "mn_revoked n"
  shows "check t leaf a now \<noteq> Ok ()"
  using assms by (force simp: on_chain_def check_Ok_iff node_allows_def split: outcome.splits)

lemma check_Err_spend: "check t leaf a now \<noteq> Ok () \<Longrightarrow> \<exists>e. spend t leaf a now = (Err e, t)"
  by (cases "check t leaf a now") (auto simp: spend_def)

section \<open>What a node can let through over time\<close>

text \<open>The budget of a node up to time \<open>T\<close>: its buffer plus the drip still to come.\<close>

definition budget :: "MandateNode \<Rightarrow> Timestamp \<Rightarrow> nat" where
  "budget n T = unat (mn_buffer n) + unat (mn_rate_per_sec n) * (unat T - unat (mn_last_accrual n))"

lemma unat_accrued_le:
  assumes "now > mn_last_accrual n"
  shows "unat (mn_buffer (accrue n now))
    \<le> unat (mn_buffer n) + unat (mn_rate_per_sec n) * (unat now - unat (mn_last_accrual n))"
proof -
  have dt: "unat (now - mn_last_accrual n) = unat now - unat (mn_last_accrual n)"
    using assms by (intro unat_sub less_imp_le)
  have "unat (mn_buffer (accrue n now))
      \<le> unat (saturating_add (mn_buffer n) (saturating_mul (mn_rate_per_sec n) (u64_as_u128 (now - mn_last_accrual n))))"
    using assms by (simp add: accrue_def Let_def unat_mono_min)
  also have "\<dots> \<le> unat (mn_buffer n) + unat (mn_rate_per_sec n) * unat (now - mn_last_accrual n)"
    by (simp add: unat_saturating_add unat_saturating_mul min.coboundedI1)
  finally show ?thesis by (simp only: dt)
qed

lemma charge_budget:
  assumes "node_allows n a now" and "now \<le> T"
  shows "budget (charge n a now) T + unat a \<le> budget n T"
proof (cases "now > mn_last_accrual n")
  case True
  have last: "mn_last_accrual (charge n a now) = now"
    using True by (simp add: charge_def accrue_def Let_def)
  have le: "unat (mn_last_accrual n) < unat now" "unat now \<le> unat T"
    using True assms(2) by (simp_all add: word_less_nat_alt word_le_nat_alt)
  have "budget (charge n a now) T + unat a
      = unat (mn_buffer (accrue n now)) + unat (mn_rate_per_sec n) * (unat T - unat now)"
    using charge_buffer [OF assms(1)] by (simp add: budget_def last)
  also have "\<dots> \<le> unat (mn_buffer n) + unat (mn_rate_per_sec n) * ((unat now - unat (mn_last_accrual n)) + (unat T - unat now))"
    using unat_accrued_le [OF True] by (simp add: distrib_left)
  also have "(unat now - unat (mn_last_accrual n)) + (unat T - unat now) = unat T - unat (mn_last_accrual n)"
    using le by simp
  finally show ?thesis by (simp add: budget_def)
next
  case False
  then have "accrue n now = n" by (simp add: accrue_def)
  with charge_buffer [OF assms(1)] show ?thesis
    by (simp add: budget_def charge_def)
qed

section \<open>The tree as a state machine\<close>

datatype tree_op =
    OpSpend MandateId Amount Timestamp
  | OpRevoke MandateId
  | OpInsert MandateNode
  | OpInsertBound MandateNode

text \<open>The calls the state machine makes on the tree: a new node always has a fresh id. A call
  that refuses is a step as well, and leaves the tree as it was.\<close>

inductive tree_step :: "MandateTree \<Rightarrow> tree_op \<Rightarrow> MandateTree \<Rightarrow> bool" where
  spend_ok: "spend t leaf a now = (Ok (), t') \<Longrightarrow> tree_step t (OpSpend leaf a now) t'"
| spend_refused: "spend t leaf a now = (Err e, t') \<Longrightarrow> tree_step t (OpSpend leaf a now) t'"
| revoke_any: "revoke t i = (r, t') \<Longrightarrow> tree_step t (OpRevoke i) t'"
| insert_any: "tree_get t (mn_id n) = None \<Longrightarrow> tree_insert t n = (r, t') \<Longrightarrow> tree_step t (OpInsert n) t'"
| insert_bound_any: "tree_get t (mn_id n) = None \<Longrightarrow> insert_asset_bound t n = (r, t') \<Longrightarrow> tree_step t (OpInsertBound n) t'"

inductive_cases tree_step_spendE: "tree_step t (OpSpend leaf a now) t'"
inductive_cases tree_step_revokeE: "tree_step t (OpRevoke i) t'"
inductive_cases tree_step_insertE: "tree_step t (OpInsert n) t'"
inductive_cases tree_step_boundE: "tree_step t (OpInsertBound n) t'"

inductive tree_run :: "MandateTree \<Rightarrow> tree_op list \<Rightarrow> MandateTree \<Rightarrow> bool" where
  run_nil: "tree_run t [] t"
| run_cons: "tree_step t op t1 \<Longrightarrow> tree_run t1 ops t2 \<Longrightarrow> tree_run t (op # ops) t2"

lemma tree_insert_cases:
  assumes "tree_insert t n = (r, t')"
  shows "t' = t \<or> (t' = set_node t (mn_id n) n \<and> (\<forall>p. mn_parent n = Some p \<longrightarrow>
    (\<exists>m. tree_get t p = Some m \<and> mn_expiry n \<le> mn_expiry m \<and> mn_per_tx_max n \<le> mn_per_tx_max m)))"
  using assms by (auto simp: tree_insert_def ok_or_def not_less split: option.splits if_splits)

lemma insert_asset_bound_cases:
  assumes "insert_asset_bound t n = (r, t')"
  shows "t' = t \<or> (t' = set_node t (mn_id n) n \<and> (\<forall>p. mn_parent n = Some p \<longrightarrow>
    (\<exists>m. tree_get t p = Some m \<and> mn_expiry n \<le> mn_expiry m \<and> mn_per_tx_max n \<le> mn_per_tx_max m
       \<and> mn_asset n = mn_asset m)))"
  using assms
  by (auto simp: insert_asset_bound_def check_asset_bound_def tree_insert_def ok_or_def not_less
      split: option.splits if_splits)

lemma tree_insert_clean: "clean_from t (tree_insert t n)"
  by (auto simp: tree_insert_def intro!: clean_from_try_ro split: option.splits)

lemma check_asset_bound_not_Panic [simp]: "check_asset_bound t n \<noteq> Panic"
  by (auto simp: check_asset_bound_def ok_or_def split: option.splits)

lemma insert_asset_bound_clean: "clean_from t (insert_asset_bound t n)"
  unfolding insert_asset_bound_def by (intro clean_from_try_ro tree_insert_clean) simp

lemma revoke_cases:
  assumes "revoke t i = (r, t')"
  shows "(t' = t \<and> tree_get t i = None \<and> r = Err NotFound)
    \<or> (\<exists>n. tree_get t i = Some n \<and> r = Ok () \<and> t' = set_node t i (n\<lparr>mn_revoked := True\<rparr>))"
  using assms by (cases "tree_get t i") (auto simp: revoke_def)

lemma revoke_clean: "clean_from t (revoke t i)"
  by (auto simp: revoke_def intro!: clean_from_try_ro)

text \<open>No step removes a node, changes its rate or its place, or lifts a revocation; the budget
  of every node only shrinks, by at least what the step let through.\<close>

definition flow :: "MandateTree \<Rightarrow> tree_op \<Rightarrow> MandateId \<Rightarrow> nat" where
  "flow t op i =
     (case op of
        OpSpend leaf a now \<Rightarrow>
          (if fst (spend t leaf a now) = Ok () \<and> on_chain t leaf i then unat a else 0)
      | _ \<Rightarrow> 0)"

definition op_before :: "Timestamp \<Rightarrow> tree_op \<Rightarrow> bool" where
  "op_before T op = (case op of OpSpend leaf a now \<Rightarrow> now \<le> T | _ \<Rightarrow> True)"

lemma tree_step_node:
  assumes "tree_step t op t'" and "tree_get t i = Some n" and "op_before T op"
  shows "\<exists>n'. tree_get t' i = Some n' \<and> mn_parent n' = mn_parent n \<and> mn_asset n' = mn_asset n
    \<and> mn_expiry n' = mn_expiry n \<and> mn_per_tx_max n' = mn_per_tx_max n \<and> mn_id n' = mn_id n
    \<and> (mn_revoked n \<longrightarrow> mn_revoked n') \<and> budget n' T + flow t op i \<le> budget n T"
  using assms(1)
proof cases
  case (spend_ok leaf a now)
  from spend_effect [OF spend_ok(2)] obtain c where c: "chain_of t leaf = Ok c"
    and inn: "\<forall>i \<in> set c. \<exists>n. tree_get t i = Some n \<and> node_allows n a now \<and> tree_get t' i = Some (charge n a now)
        \<and> unat (mn_buffer (charge n a now)) + unat a = unat (mn_buffer (accrue n now))"
    and out: "\<forall>i. i \<notin> set c \<longrightarrow> tree_get t' i = tree_get t i" by blast
  show ?thesis
  proof (cases "i \<in> set c")
    case True
    with inn assms(2) have "node_allows n a now" "tree_get t' i = Some (charge n a now)" by auto
    moreover have "flow t op i \<le> unat a" by (simp add: flow_def spend_ok)
    moreover have "now \<le> T" using assms(3) spend_ok by (simp add: op_before_def)
    ultimately show ?thesis
      using charge_budget [of n a now T] by auto
  next
    case False
    then have "flow t op i = 0" using c by (simp add: flow_def spend_ok on_chain_def)
    with False out assms(2) show ?thesis by simp
  qed
next
  case (spend_refused leaf a now e)
  then have "t' = t" using clean_fromD(2) [OF spend_clean, of t leaf a now e] by simp
  moreover have "flow t op i = 0" by (simp add: flow_def spend_refused)
  ultimately show ?thesis using assms(2) by simp
next
  case (revoke_any j r)
  have "flow t op i = 0" by (simp add: flow_def revoke_any)
  with revoke_cases [OF revoke_any(2)] assms(2) show ?thesis
    by (auto simp: budget_def)
next
  case (insert_any m r)
  have "flow t op i = 0" by (simp add: flow_def insert_any)
  with tree_insert_cases [OF insert_any(3)] assms(2) insert_any(2) show ?thesis by auto
next
  case (insert_bound_any m r)
  have "flow t op i = 0" by (simp add: flow_def insert_bound_any)
  with insert_asset_bound_cases [OF insert_bound_any(3)] assms(2) insert_bound_any(2) show ?thesis by auto
qed

text \<open>The total a node lets through along a run.\<close>

fun tree_exec :: "tree_op \<Rightarrow> MandateTree \<Rightarrow> MandateTree" where
  "tree_exec (OpSpend leaf a now) t = snd (spend t leaf a now)"
| "tree_exec (OpRevoke j) t = snd (revoke t j)"
| "tree_exec (OpInsert n) t = snd (tree_insert t n)"
| "tree_exec (OpInsertBound n) t = snd (insert_asset_bound t n)"

fun op_fresh :: "MandateTree \<Rightarrow> tree_op \<Rightarrow> bool" where
  "op_fresh t (OpInsert n) = (tree_get t (mn_id n) = None)"
| "op_fresh t (OpInsertBound n) = (tree_get t (mn_id n) = None)"
| "op_fresh t _ = True"

fun outflow :: "MandateId \<Rightarrow> tree_op list \<Rightarrow> MandateTree \<Rightarrow> nat" where
  "outflow i [] t = 0"
| "outflow i (op # ops) t = flow t op i + outflow i ops (tree_exec op t)"

lemma tree_step_iff: "tree_step t op t' \<longleftrightarrow> op_fresh t op \<and> t' = tree_exec op t"
proof
  show "tree_step t op t' \<Longrightarrow> op_fresh t op \<and> t' = tree_exec op t"
    by (cases rule: tree_step.cases) auto
next
  assume r: "op_fresh t op \<and> t' = tree_exec op t"
  show "tree_step t op t'"
  proof (cases op)
    case (OpSpend leaf a now)
    obtain o' t1 where sp: "spend t leaf a now = (o', t1)" by (cases "spend t leaf a now")
    have "o' \<noteq> Panic" using clean_fromD(1) [OF spend_clean, of t leaf a now] sp by simp
    with sp OpSpend r show ?thesis by (cases o') (auto intro: tree_step.intros)
  qed (use r in \<open>auto intro!: tree_step.intros prod.collapse [symmetric]\<close>)
qed

fun ops_fresh :: "MandateTree \<Rightarrow> tree_op list \<Rightarrow> bool" where
  "ops_fresh t [] = True"
| "ops_fresh t (op # ops) = (op_fresh t op \<and> ops_fresh (tree_exec op t) ops)"

lemma tree_run_iff: "tree_run t ops t' \<longleftrightarrow> ops_fresh t ops \<and> t' = for_each ops tree_exec t"
proof
  show "tree_run t ops t' \<Longrightarrow> ops_fresh t ops \<and> t' = for_each ops tree_exec t"
    by (induction rule: tree_run.induct) (auto simp: tree_step_iff)
next
  show "ops_fresh t ops \<and> t' = for_each ops tree_exec t \<Longrightarrow> tree_run t ops t'"
    by (induction ops arbitrary: t) (auto intro: tree_run.intros simp: tree_step_iff)
qed

lemma outflow_bounded:
  assumes "tree_run t ops t'" and "tree_get t i = Some n" and "\<forall>op \<in> set ops. op_before T op"
  shows "outflow i ops t \<le> budget n T"
  using assms
proof (induction arbitrary: n rule: tree_run.induct)
  case (run_cons t op t1 ops t2)
  from tree_step_node [OF run_cons.hyps(1) run_cons.prems(1), of T] run_cons.prems(2)
  obtain n1 where n1: "tree_get t1 i = Some n1" "budget n1 T + flow t op i \<le> budget n T" by auto
  have "outflow i ops t1 \<le> budget n1 T"
    using run_cons.IH n1(1) run_cons.prems(2) by simp
  moreover have "outflow i (op # ops) t = flow t op i + outflow i ops t1"
    using run_cons.hyps(1) by (simp add: tree_step_iff)
  ultimately show ?case using n1(2) by linarith
qed simp

section \<open>Attenuation, single-asset chains and standing revocations\<close>

definition attenuates :: "MandateNode \<Rightarrow> MandateNode \<Rightarrow> bool" where
  "attenuates n m \<longleftrightarrow> mn_expiry n \<le> mn_expiry m \<and> mn_per_tx_max n \<le> mn_per_tx_max m"

text \<open>Every node sits under its own id, below a parent that is present and at least as wide.\<close>

definition tree_wf :: "MandateTree \<Rightarrow> bool" where
  "tree_wf t \<longleftrightarrow> (\<forall>i n. tree_get t i = Some n \<longrightarrow> mn_id n = i \<and>
     (\<forall>p. mn_parent n = Some p \<longrightarrow> (\<exists>m. tree_get t p = Some m \<and> attenuates n m)))"

definition single_asset :: "MandateTree \<Rightarrow> bool" where
  "single_asset t \<longleftrightarrow> (\<forall>i n p m. tree_get t i = Some n \<longrightarrow> mn_parent n = Some p \<longrightarrow> tree_get t p = Some m \<longrightarrow>
     mn_asset n = mn_asset m)"

lemma tree_get_new [simp]: "tree_get tree_new i = None"
  by (simp add: tree_new_def tree_get_def)

lemma tree_new_wf: "tree_wf tree_new" "single_asset tree_new"
  by (simp_all add: tree_wf_def single_asset_def)

text \<open>What a step does to the nodes that were there, with the clock bound instantiated.\<close>

lemma tree_step_frame:
  assumes "tree_step t op t'" and "tree_get t i = Some n"
  shows "\<exists>n'. tree_get t' i = Some n' \<and> mn_parent n' = mn_parent n \<and> mn_asset n' = mn_asset n
    \<and> mn_expiry n' = mn_expiry n \<and> mn_per_tx_max n' = mn_per_tx_max n \<and> mn_id n' = mn_id n
    \<and> (mn_revoked n \<longrightarrow> mn_revoked n')"
proof -
  have "op_before (- 1) op" by (simp add: op_before_def split: tree_op.split)
  from tree_step_node [OF assms this] show ?thesis by blast
qed

text \<open>A node that a step adds is a root or attenuates a parent that was there.\<close>

lemma tree_step_fresh:
  assumes "tree_step t op t'" and "tree_get t i = None" and "tree_get t' i = Some n"
  shows "mn_id n = i \<and> (\<forall>p. mn_parent n = Some p \<longrightarrow> (\<exists>m. tree_get t p = Some m \<and> attenuates n m
    \<and> ((\<forall>k. op \<noteq> OpInsert k) \<longrightarrow> mn_asset n = mn_asset m)))"
  using assms(1)
proof cases
  case (spend_ok leaf a now)
  from spend_effect [OF spend_ok(2)] have "tree_get t i \<noteq> None"
    using assms(2,3) by (metis option.distinct(1))
  with assms(2) show ?thesis by simp
next
  case (spend_refused leaf a now e)
  then show ?thesis using clean_fromD(2) [OF spend_clean, of t leaf a now e] assms(2,3) by simp
next
  case (revoke_any j r)
  with revoke_cases [OF revoke_any(2)] assms(2,3) show ?thesis by (auto split: if_splits)
next
  case (insert_any k r)
  with tree_insert_cases [OF insert_any(3)] assms(2,3) show ?thesis
    by (auto simp: attenuates_def split: if_splits)
next
  case (insert_bound_any k r)
  with insert_asset_bound_cases [OF insert_bound_any(3)] assms(2,3) show ?thesis
    by (auto simp: attenuates_def split: if_splits)
qed

lemma tree_wfD:
  "tree_wf t \<Longrightarrow> tree_get t i = Some n \<Longrightarrow> mn_id n = i"
  "tree_wf t \<Longrightarrow> tree_get t i = Some n \<Longrightarrow> mn_parent n = Some p \<Longrightarrow> \<exists>m. tree_get t p = Some m \<and> attenuates n m"
  unfolding tree_wf_def by blast+

lemma tree_step_wf:
  assumes st: "tree_step t op t'" and wf: "tree_wf t"
  shows "tree_wf t'"
  unfolding tree_wf_def
proof (intro allI impI)
  fix i n
  assume n: "tree_get t' i = Some n"
  show "mn_id n = i \<and> (\<forall>p. mn_parent n = Some p \<longrightarrow> (\<exists>m. tree_get t' p = Some m \<and> attenuates n m))"
  proof (cases "tree_get t i")
    case None
    have up: "\<exists>m'. tree_get t' p = Some m' \<and> attenuates n m'" if "tree_get t p = Some m" "attenuates n m" for p m
      using tree_step_frame [OF st that(1)] that(2) by (auto simp: attenuates_def)
    have "mn_id n = i" "\<And>p. mn_parent n = Some p \<Longrightarrow> \<exists>m. tree_get t p = Some m \<and> attenuates n m"
      using tree_step_fresh [OF st None n] by auto
    with up show ?thesis by metis
  next
    case (Some k)
    with tree_step_frame [OF st Some] n have k: "mn_parent n = mn_parent k" "mn_id n = mn_id k"
      "mn_expiry n = mn_expiry k" "mn_per_tx_max n = mn_per_tx_max k" by auto
    have up: "\<exists>m'. tree_get t' p = Some m' \<and> attenuates n m'" if "tree_get t p = Some m" "attenuates k m" for p m
      using tree_step_frame [OF st that(1)] that(2) k by (auto simp: attenuates_def)
    show ?thesis using k tree_wfD [OF wf Some] up by metis
  qed
qed

lemma tree_step_single_asset:
  assumes st: "tree_step t op t'" and wf: "tree_wf t" and sa: "single_asset t" and op: "\<And>k. op \<noteq> OpInsert k"
  shows "single_asset t'"
  unfolding single_asset_def
proof (intro allI impI)
  fix i n p m
  assume n: "tree_get t' i = Some n" and p: "mn_parent n = Some p" and m: "tree_get t' p = Some m"
  show "mn_asset n = mn_asset m"
  proof (cases "tree_get t i")
    case None
    from tree_step_fresh [OF st None n] p obtain m0 where "tree_get t p = Some m0" "mn_asset n = mn_asset m0"
      using op by blast
    with tree_step_frame [OF st, of p m0] m show ?thesis by auto
  next
    case (Some k)
    with tree_step_frame [OF st Some] n have k: "mn_parent k = Some p" "mn_asset k = mn_asset n"
      using p by auto
    with wf Some obtain m0 where m0: "tree_get t p = Some m0" unfolding tree_wf_def by blast
    with sa Some k have "mn_asset k = mn_asset m0" unfolding single_asset_def by blast
    with k tree_step_frame [OF st m0] m show ?thesis by auto
  qed
qed

lemma tree_run_wf: "tree_run t ops t' \<Longrightarrow> tree_wf t \<Longrightarrow> tree_wf t'"
  by (induction rule: tree_run.induct) (auto dest: tree_step_wf)

lemma tree_run_single_asset:
  "tree_run t ops t' \<Longrightarrow> (\<And>k. OpInsert k \<notin> set ops) \<Longrightarrow> tree_wf t \<Longrightarrow> single_asset t \<Longrightarrow> single_asset t'"
  by (induction rule: tree_run.induct) (auto dest: tree_step_wf tree_step_single_asset)

lemma tree_run_revoked:
  "tree_run t ops t' \<Longrightarrow> tree_get t i = Some n \<Longrightarrow> mn_revoked n \<Longrightarrow> \<exists>n'. tree_get t' i = Some n' \<and> mn_revoked n'"
proof (induction arbitrary: n rule: tree_run.induct)
  case (run_cons t op t1 ops t2)
  from tree_step_frame [OF run_cons.hyps(1) run_cons.prems(1)] run_cons show ?case by blast
qed auto

text \<open>A relation between neighbours that is transitive relates the leaf to every ancestor.\<close>

lemma is_chain_related:
  assumes "is_chain t (i # c)" and "tree_get t i = Some n" and "j \<in> set (i # c)" and "tree_get t j = Some m"
    and refl: "\<And>x. R x x" and trans: "\<And>x y z. R x y \<Longrightarrow> R y z \<Longrightarrow> R x z"
    and link: "\<And>i n p m. tree_get t i = Some n \<Longrightarrow> mn_parent n = Some p \<Longrightarrow> tree_get t p = Some m \<Longrightarrow> R n m"
  shows "R n m"
  using assms(1-4)
proof (induction c arbitrary: i n)
  case Nil
  then show ?case using refl by simp
next
  case (Cons p c)
  then obtain k where k: "tree_get t p = Some k" using is_chain_present [of t "i # p # c" p] by auto
  have par: "mn_parent n = Some p" using Cons.prems(1,2) by simp
  show ?case
  proof (cases "j \<in> set (p # c)")
    case True
    then have "R k m" using Cons.IH [of p k] Cons.prems(1,4) k by simp
    with link [OF Cons.prems(2) par k] show ?thesis by (rule trans)
  next
    case False
    then show ?thesis using Cons.prems refl by auto
  qed
qed

lemma chain_attenuates:
  assumes "tree_wf t" and "chain_of t leaf = Ok c" and "tree_get t leaf = Some n"
    and "i \<in> set c" and "tree_get t i = Some m"
  shows "attenuates n m"
proof -
  from assms(2) obtain r where c: "c = leaf # r" and ch: "is_chain t (leaf # r)"
    by (auto simp: chain_of_iff)
  show ?thesis
    by (rule is_chain_related [OF ch assms(3) assms(4) [unfolded c] assms(5)])
      (use assms(1) in \<open>fastforce simp: attenuates_def tree_wf_def\<close>)+
qed

lemma chain_one_asset:
  assumes "single_asset t" and "chain_of t leaf = Ok c" and "tree_get t leaf = Some n"
    and "i \<in> set c" and "tree_get t i = Some m"
  shows "mn_asset n = mn_asset m"
proof -
  from assms(2) obtain r where c: "c = leaf # r" and ch: "is_chain t (leaf # r)"
    by (auto simp: chain_of_iff)
  show ?thesis
    by (rule is_chain_related [OF ch assms(3) assms(4) [unfolded c] assms(5),
        where R = "\<lambda>n m. mn_asset n = mn_asset m"])
      (use assms(1) in \<open>auto simp: single_asset_def\<close>)
qed

section \<open>Properties\<close>

text \<open>A mandate spend is atomic. It never panics; it is accepted exactly when the read-only
  check accepts; a refusal carries the error of the check and leaves the tree as it was.\<close>

lemma spend_atomic:
  "case spend t leaf a now of
     (Ok u, t') \<Rightarrow> check t leaf a now = Ok ()
   | (Err e, t') \<Rightarrow> check t leaf a now = Err e \<and> t' = t
   | (Panic, t') \<Rightarrow> False"
proof (cases "check t leaf a now")
  case (Ok u)
  then have "fst (spend t leaf a now) = Ok ()"
    using mandate_spend.commit_Ok_iff [of t "(leaf, a, now)"] by simp
  with Ok show ?thesis by (cases "spend t leaf a now") auto
qed (use mandate_spend.probe_total [of t "(leaf, a, now)"] in \<open>auto simp: spend_def\<close>)

text \<open>An accepted spend debits exactly the amount from the accrued buffer of every node of
  the leaf-to-root chain, without wrapping, and touches nothing else.\<close>

lemma spend_debits_chain:
  assumes "spend t leaf a now = (Ok (), t')"
  shows "\<exists>c. chain_of t leaf = Ok c \<and> leaf \<in> set c
    \<and> (\<forall>i \<in> set c. \<exists>n n'. tree_get t i = Some n \<and> tree_get t' i = Some n'
          \<and> \<not> mn_revoked n \<and> now < mn_expiry n \<and> a \<le> mn_per_tx_max n
          \<and> unat (mn_buffer n') + unat a = unat (mn_buffer (accrue n now)))
    \<and> (\<forall>i. i \<notin> set c \<longrightarrow> tree_get t' i = tree_get t i)"
proof -
  from spend_effect [OF assms] obtain c where c: "chain_of t leaf = Ok c"
    and inn: "\<forall>i \<in> set c. \<exists>n. tree_get t i = Some n \<and> node_allows n a now
          \<and> tree_get t' i = Some (charge n a now)
          \<and> unat (mn_buffer (charge n a now)) + unat a = unat (mn_buffer (accrue n now))"
    and out: "\<forall>i. i \<notin> set c \<longrightarrow> tree_get t' i = tree_get t i" by blast
  have "leaf \<in> set c" using c by (auto simp: chain_of_iff)
  moreover have "\<forall>i \<in> set c. \<exists>n n'. tree_get t i = Some n \<and> tree_get t' i = Some n'
          \<and> \<not> mn_revoked n \<and> now < mn_expiry n \<and> a \<le> mn_per_tx_max n
          \<and> unat (mn_buffer n') + unat a = unat (mn_buffer (accrue n now))"
    using inn unfolding node_allows_def by blast
  ultimately show ?thesis using c out by blast
qed

definition sample_root :: MandateNode where
  "sample_root = \<lparr>mn_id = 1, mn_parent = None, mn_holder_key = [], mn_scheme = LamportRatchetV0, mn_asset = 7,
     mn_rate_per_sec = 2, mn_buffer_max = 100, mn_per_tx_max = 50, mn_expiry = 1000, mn_revoked = False,
     mn_buffer = 60, mn_last_accrual = 10, mn_tier = 0\<rparr>"

definition sample_child :: MandateNode where
  "sample_child = sample_root\<lparr>mn_id := 2, mn_parent := Some 1, mn_per_tx_max := 30, mn_buffer := 20\<rparr>"

definition sample_ops :: "tree_op list" where
  "sample_ops = [OpInsertBound sample_root, OpInsertBound sample_child]"

definition sample_tree :: MandateTree where
  "sample_tree = for_each sample_ops tree_exec tree_new"

text \<open>C35: drip accrual bounds the outflow. Whatever sequence of spends, revocations and
  insertions runs up to time \<open>T\<close>, the total that passes through a node, its own spends and those
  of its whole subtree, is at most its buffer plus its rate times the elapsed seconds.\<close>

theorem mandate_outflow_bounded:
  assumes "tree_run t ops t'" and "tree_get t i = Some n" and "\<forall>op \<in> set ops. op_before T op"
  shows "outflow i ops t \<le> unat (mn_buffer n) + unat (mn_rate_per_sec n) * (unat T - unat (mn_last_accrual n))"
  using outflow_bounded [OF assms] by (simp add: budget_def)

theorem mandate_outflow_bounded_witness:
  "outflow 1 [OpSpend 2 25 15, OpSpend 1 30 20] sample_tree = 55 \<and>
   outflow 1 [OpSpend 2 25 15, OpSpend 1 30 20] sample_tree \<le> 60 + 2 * (20 - 10)"
proof -
  let ?ops = "[OpSpend 2 25 15, OpSpend 1 30 20]"
  have "tree_run sample_tree ?ops (for_each ?ops tree_exec sample_tree)" by (simp add: tree_run_iff)
  moreover have "tree_get sample_tree 1 = Some sample_root" by code_simp
  moreover have "\<forall>op \<in> set ?ops. op_before 20 op" by (simp add: op_before_def)
  ultimately have "outflow 1 ?ops sample_tree \<le> unat (mn_buffer sample_root)
      + unat (mn_rate_per_sec sample_root) * (unat (20 :: u64) - unat (mn_last_accrual sample_root))"
    by (rule mandate_outflow_bounded)
  moreover have "outflow 1 ?ops sample_tree = 55" by code_simp
  ultimately show ?thesis by (simp add: sample_root_def)
qed

text \<open>The reported availability is exact: a spend of an amount would be accepted right now
  exactly when the amount is at most what \<open>available\<close> reports.\<close>

lemma available_exact:
  "check t leaf a now = Ok () \<longleftrightarrow> (\<exists>r. available t leaf now = Ok r \<and> a \<le> r)"
  by (rule check_iff_available)

text \<open>C36: revocation cascades and stands. After a node is revoked, whatever runs afterwards, no
  spend is accepted from any leaf whose chain passes through that node, including leaves
  registered later; the refused spend changes nothing.\<close>

theorem revocation_cascades:
  assumes "revoke t i = (Ok (), t1)" and "tree_run t1 ops t2" and "chain_of t2 leaf = Ok c" and "i \<in> set c"
  shows "\<exists>e. spend t2 leaf a now = (Err e, t2)"
proof -
  from revoke_cases [OF assms(1)] obtain n where "tree_get t1 i = Some n" "mn_revoked n" by auto
  with tree_run_revoked [OF assms(2)] obtain m where "tree_get t2 i = Some m" "mn_revoked m" by blast
  moreover have "on_chain t2 leaf i" using assms(3,4) by (simp add: on_chain_def)
  ultimately show ?thesis using revoked_blocks check_Err_spend by blast
qed

theorem revocation_cascades_witness:
  "\<exists>e. spend (tree_exec (OpRevoke 1) sample_tree) 2 5 15 = (Err e, tree_exec (OpRevoke 1) sample_tree)"
proof (rule revocation_cascades [where t = sample_tree and i = 1 and c = "[2, 1]" and ops = "[]"])
  show "revoke sample_tree 1 = (Ok (), tree_exec (OpRevoke 1) sample_tree)" by code_simp
  show "chain_of (tree_exec (OpRevoke 1) sample_tree) 2 = Ok [2, 1]" by code_simp
qed (simp_all add: tree_run_iff)

text \<open>C37: in a tree grown from empty through the asset-bound entry point, a mandate never
  outlives or out-spends any of its ancestors and draws on the same asset as all of them.\<close>

theorem mandate_chain_attenuates:
  assumes "tree_run tree_new ops t" and "\<And>k. OpInsert k \<notin> set ops"
    and "chain_of t leaf = Ok c" and "tree_get t leaf = Some n" and "i \<in> set c" and "tree_get t i = Some m"
  shows "mn_expiry n \<le> mn_expiry m \<and> mn_per_tx_max n \<le> mn_per_tx_max m \<and> mn_asset n = mn_asset m"
proof -
  have "tree_wf t" using tree_run_wf [OF assms(1)] tree_new_wf by blast
  moreover have "single_asset t" using tree_run_single_asset [OF assms(1,2)] tree_new_wf by blast
  ultimately show ?thesis
    using chain_attenuates [of t leaf c n i m] chain_one_asset [of t leaf c n i m] assms(3-6)
    by (simp add: attenuates_def)
qed

theorem mandate_chain_attenuates_witness: "mn_per_tx_max sample_child \<le> mn_per_tx_max sample_root"
proof -
  have "tree_run tree_new sample_ops sample_tree"
    unfolding tree_run_iff sample_tree_def by code_simp
  moreover have "\<And>k. OpInsert k \<notin> set sample_ops" by (simp add: sample_ops_def)
  moreover have "chain_of sample_tree 2 = Ok [2, 1]" by code_simp
  moreover have "tree_get sample_tree 2 = Some sample_child" "tree_get sample_tree 1 = Some sample_root"
    by code_simp+
  ultimately show ?thesis
    using mandate_chain_attenuates [of sample_ops sample_tree 2 "[2, 1]" sample_child 1 sample_root] by simp
qed

end
