(* ===== verification/HK_Payword.thy ===== *)
theory HK_Payword
  imports HK_Hash
begin

text \<open>
  PayWord hash chains (\<^verbatim>\<open>hk-crypto/src/payword.rs\<close>): the payer's chain, the merchant's
  verifier, and the settlement check the state machine runs. The lemmas show that honest
  payments are accepted, that the merchant's claim always settles, and that the steps the
  merchant is credited with add up to the step it can settle.
\<close>

definition payword_link :: "'x hash_env_scheme \<Rightarrow> H256 \<Rightarrow> H256" where
  "payword_link X w = shake256_32 X DOM_PAYWORD_LINK [h256_bytes w]"

record PaywordChain =
  pw_words :: "H256 list"

fun mint_words :: "'x hash_env_scheme \<Rightarrow> nat \<Rightarrow> H256 list \<Rightarrow> H256 list" where
  "mint_words X 0 ws = ws"
| "mint_words X (Suc i) ws = mint_words X i (payword_link X (hd ws) # ws)"

text \<open>\<open>PaywordChain::mint\<close>: the words are filled from index \<open>n\<close> down to \<open>0\<close>; an empty chain
  trips the assertion, and a length of \<open>u32::MAX + 1\<close> wraps to an empty vector whose last
  index is out of range.\<close>

definition mint :: "'x hash_env_scheme \<Rightarrow> bytes \<Rightarrow> bytes \<Rightarrow> u32 \<Rightarrow> (PaywordChain, unit) outcome" where
  "mint X seed channel_context n =
     (if n = 0 then Panic
      else if n + 1 = 0 then Panic
      else Ok \<lparr>pw_words = mint_words X (unat n)
                 [shake256_32 X DOM_PAYWORD_SEED [seed, channel_context, u32_le n]]\<rparr>)"

definition tip :: "PaywordChain \<Rightarrow> H256" where
  "tip c = pw_words c ! 0"

definition pay :: "PaywordChain \<Rightarrow> u32 \<Rightarrow> H256 option" where
  "pay c k = (if unat k < length (pw_words c) then Some (pw_words c ! unat k) else None)"

definition max_steps :: "PaywordChain \<Rightarrow> u32" where
  "max_steps c = of_nat (length (pw_words c) - 1)"

record PaywordVerifier =
  pv_last_word :: H256
  pv_last_step :: u32
  pv_max_steps :: u32

definition verifier_new :: "H256 \<Rightarrow> u32 \<Rightarrow> PaywordVerifier" where
  "verifier_new t n = \<lparr>pv_last_word = t, pv_last_step = 0, pv_max_steps = n\<rparr>"

definition accept :: "'x hash_env_scheme \<Rightarrow> PaywordVerifier \<Rightarrow> u32 \<Rightarrow> H256 \<Rightarrow> (u32, unit, PaywordVerifier) step" where
  "accept X v k w_k =
     (if k \<le> pv_last_step v \<or> k > pv_max_steps v then (Err (), v)
      else if loop_n (unat (k - pv_last_step v)) (payword_link X) w_k \<noteq> pv_last_word v then (Err (), v)
      else (Ok (k - pv_last_step v), v\<lparr>pv_last_word := w_k, pv_last_step := k\<rparr>))"

definition steps_paid :: "PaywordVerifier \<Rightarrow> u32" where
  "steps_paid v = pv_last_step v"

definition settlement_claim :: "PaywordVerifier \<Rightarrow> H256 \<times> u32" where
  "settlement_claim v = (pv_last_word v, pv_last_step v)"

definition verify_settlement :: "'x hash_env_scheme \<Rightarrow> H256 \<Rightarrow> H256 \<Rightarrow> u32 \<Rightarrow> bool" where
  "verify_settlement X t word k =
     (if k = 0 then word = t else loop_n (unat k) (payword_link X) word = t)"

section \<open>The payer's chain\<close>

lemma verify_settlement_loop: "verify_settlement X t w k = (loop_n (unat k) (payword_link X) w = t)"
  by (simp add: verify_settlement_def)

text \<open>Consecutive words of a minted chain are linked.\<close>

fun linked :: "'x hash_env_scheme \<Rightarrow> H256 list \<Rightarrow> bool" where
  "linked X (v # w # ws) = (v = payword_link X w \<and> linked X (w # ws))"
| "linked X _ = True"

lemma mint_words_linked: "linked X ws \<Longrightarrow> ws \<noteq> [] \<Longrightarrow> linked X (mint_words X n ws)"
  by (induction X n ws rule: mint_words.induct) (auto simp: neq_Nil_conv)

lemma length_mint_words [simp]: "length (mint_words X n ws) = n + length ws"
  by (induction X n ws rule: mint_words.induct) auto

lemma linked_nth: "linked X ws \<Longrightarrow> Suc i < length ws \<Longrightarrow> ws ! i = payword_link X (ws ! Suc i)"
  by (induction X ws arbitrary: i rule: linked.induct) (auto simp: nth_Cons split: nat.splits)

lemma linked_loop:
  "linked X ws \<Longrightarrow> j + m < length ws \<Longrightarrow> loop_n m (payword_link X) (ws ! (j + m)) = ws ! j"
proof (induction m)
  case (Suc m)
  have "ws ! (j + m) = payword_link X (ws ! (j + Suc m))"
    using Suc.prems by (simp add: linked_nth)
  with Suc show ?case by simp
qed simp

lemma mint_chain:
  assumes "mint X seed ctx n = Ok c"
  shows "length (pw_words c) = Suc (unat n)" and "linked X (pw_words c)"
  using assms by (auto simp: mint_def mint_words_linked split: if_splits)

lemma mint_settles:
  assumes "mint X seed ctx n = Ok c" and "k \<le> n"
  shows "\<exists>w. pay c k = Some w \<and> verify_settlement X (tip c) w k"
proof -
  have le: "unat k \<le> unat n" using assms(2) by (simp add: word_le_nat_alt)
  then have "loop_n (unat k) (payword_link X) (pw_words c ! (0 + unat k)) = pw_words c ! 0"
    using mint_chain [OF assms(1)] by (intro linked_loop) auto
  with le mint_chain(1) [OF assms(1)] show ?thesis
    by (simp add: pay_def tip_def verify_settlement_loop)
qed

section \<open>The merchant's verifier\<close>

text \<open>The verifier's claim settles on chain, and its counter stays within the channel.\<close>

definition verifier_ok :: "'x hash_env_scheme \<Rightarrow> H256 \<Rightarrow> PaywordVerifier \<Rightarrow> bool" where
  "verifier_ok X t v \<longleftrightarrow> verify_settlement X t (pv_last_word v) (pv_last_step v) \<and> pv_last_step v \<le> pv_max_steps v"

lemma verifier_new_ok: "verifier_ok X t (verifier_new t n)"
  by (simp add: verifier_ok_def verifier_new_def verify_settlement_def)

lemma accept_Ok:
  assumes "accept X v k w = (Ok d, v')"
  shows "pv_last_step v < k" "k \<le> pv_max_steps v" "d = k - pv_last_step v"
    "v' = v\<lparr>pv_last_word := w, pv_last_step := k\<rparr>"
    "loop_n (unat k - unat (pv_last_step v)) (payword_link X) w = pv_last_word v"
    "unat d = unat k - unat (pv_last_step v)"
proof -
  show lt: "pv_last_step v < k"
    using assms by (auto simp: accept_def split: if_splits)
  have d: "unat (k - pv_last_step v) = unat k - unat (pv_last_step v)"
    using lt by (intro unat_sub less_imp_le)
  show "k \<le> pv_max_steps v" "d = k - pv_last_step v"
    "v' = v\<lparr>pv_last_word := w, pv_last_step := k\<rparr>"
    "loop_n (unat k - unat (pv_last_step v)) (payword_link X) w = pv_last_word v"
    "unat d = unat k - unat (pv_last_step v)"
    using assms d by (auto simp: accept_def split: if_splits)
qed

lemma accept_preserves_ok:
  assumes "verifier_ok X t v" and "accept X v k w = (r, v')"
  shows "verifier_ok X t v'"
proof (cases r)
  case (Ok d)
  note a = accept_Ok [OF assms(2) [unfolded Ok]]
  have "unat k = (unat k - unat (pv_last_step v)) + unat (pv_last_step v)"
    using a(1) by (simp add: word_less_nat_alt)
  then have "loop_n (unat k) (payword_link X) w = t"
    using a(5) assms(1) loop_n_add [of "unat k - unat (pv_last_step v)" "unat (pv_last_step v)"]
    by (metis verifier_ok_def verify_settlement_loop)
  with a(2,4) show ?thesis by (simp add: verifier_ok_def verify_settlement_loop)
qed (use assms in \<open>auto simp: accept_def split: if_splits\<close>)

lemma accept_refuses: "fst (accept X v k w) \<noteq> Panic" "fst (accept X v k w) = Err () \<Longrightarrow> snd (accept X v k w) = v"
  by (auto simp: accept_def)

lemma accept_honest:
  assumes "mint X seed ctx n = Ok c" and "pay c k = Some w"
    and "pv_last_word v = pw_words c ! unat (pv_last_step v)" and "pv_last_step v < k" and "k \<le> pv_max_steps v"
  shows "accept X v k w = (Ok (k - pv_last_step v), v\<lparr>pv_last_word := w, pv_last_step := k\<rparr>)"
proof -
  have lt: "unat (pv_last_step v) < unat k" using assms(4) by (simp add: word_less_nat_alt)
  have w: "w = pw_words c ! unat k" "unat k < length (pw_words c)"
    using assms(2) by (auto simp: pay_def split: if_splits)
  have "loop_n (unat k - unat (pv_last_step v)) (payword_link X)
      (pw_words c ! (unat (pv_last_step v) + (unat k - unat (pv_last_step v)))) = pw_words c ! unat (pv_last_step v)"
    using lt w(2) mint_chain(2) [OF assms(1)] by (intro linked_loop) auto
  then have "loop_n (unat (k - pv_last_step v)) (payword_link X) w = pv_last_word v"
    using lt assms(3) w(1) unat_sub [OF less_imp_le [OF assms(4)]] by simp
  with assms(4,5) show ?thesis
    by (auto simp: accept_def)
qed

text \<open>A session: the payer reveals words at a list of steps, the merchant keeps the count of
  newly paid steps.\<close>

fun receive :: "'x hash_env_scheme \<Rightarrow> (u32 \<times> H256) list \<Rightarrow> nat \<times> PaywordVerifier \<Rightarrow> nat \<times> PaywordVerifier" where
  "receive X [] s = s"
| "receive X ((k, w) # rest) (paid, v) =
     (case accept X v k w of
        (Ok d, v') \<Rightarrow> receive X rest (paid + unat d, v')
      | (_, v') \<Rightarrow> receive X rest (paid, v'))"

lemma receive_inv:
  assumes "receive X ps (paid, v) = (paid', v')" and "verifier_ok X t v"
  shows "verifier_ok X t v' \<and> paid' + unat (pv_last_step v) = paid + unat (pv_last_step v') \<and> pv_last_step v \<le> pv_last_step v'"
  using assms
proof (induction ps arbitrary: paid v)
  case (Cons p ps)
  obtain k w where p: "p = (k, w)" by (cases p)
  obtain r v1 where acc: "accept X v k w = (r, v1)" by (cases "accept X v k w")
  have ok1: "verifier_ok X t v1" using accept_preserves_ok Cons.prems(2) acc by blast
  show ?case
  proof (cases r)
    case (Ok d)
    note a = accept_Ok [OF acc [unfolded Ok]]
    have "receive X ps (paid + unat d, v1) = (paid', v')"
      using Cons.prems(1) p acc Ok by simp
    from Cons.IH [OF this ok1] a(1,4,6) show ?thesis
      by (auto simp: word_less_nat_alt word_le_nat_alt)
  next
    case (Err e)
    then have "v1 = v" using accept_refuses(2) [of X v k w] acc by simp
    moreover have "receive X ps (paid, v1) = (paid', v')"
      using Cons.prems(1) p acc Err by simp
    ultimately show ?thesis using Cons.IH ok1 by blast
  next
    case Panic
    then show ?thesis using accept_refuses(1) [of X v k w] acc by simp
  qed
qed simp

lemma receive_max_steps: "pv_max_steps (snd (receive X ps (paid, v))) = pv_max_steps v"
proof (induction ps arbitrary: paid v)
  case (Cons p ps)
  obtain k w where p: "p = (k, w)" by (cases p)
  show ?case using Cons by (auto simp: p accept_def)
qed simp

section \<open>Properties\<close>

text \<open>Every payment the payer can make settles. For a freshly minted chain, revealing the word
  of any step up to the chain's length passes the settlement check against the published tip.\<close>

lemma payword_pay_settles:
  assumes "mint X seed ctx n = Ok c" and "k \<le> n"
  shows "\<exists>w. pay c k = Some w \<and> verify_settlement X (tip c) w k"
  by (rule mint_settles [OF assms])

text \<open>The merchant is credited for exactly what it can settle. Whatever words a payer sends,
  valid or not, the steps the verifier reported as newly paid add up to the step of its settlement
  claim, that claim passes the on-chain check against the tip, and it never exceeds the channel's
  maximum.\<close>

lemma merchant_credit_settles:
  "case receive X msgs (0, verifier_new t n) of
     (paid, v) \<Rightarrow> paid = unat (steps_paid v) \<and> steps_paid v \<le> n
       \<and> verify_settlement X t (fst (settlement_claim v)) (snd (settlement_claim v))"
proof -
  obtain paid v where r: "receive X msgs (0, verifier_new t n) = (paid, v)"
    by (cases "receive X msgs (0, verifier_new t n)")
  have "pv_max_steps v = n" using receive_max_steps [of X msgs 0 "verifier_new t n"] r
    by (simp add: verifier_new_def)
  with receive_inv [OF r verifier_new_ok] r show ?thesis
    by (simp add: verifier_ok_def verifier_new_def steps_paid_def settlement_claim_def)
qed

end
