(* ===== verification/HK_State.thy ===== *)
theory HK_State
  imports HK_Tx HK_Mandate HK_Payword
begin

text \<open>
  The state machine (\<^verbatim>\<open>hk-state/src/lib.rs\<close>): its state, genesis, the block and transaction entry
  points, one definition per transaction handler, pool routing, snapshots, the state commitment
  and the conservation view. A handler on \<open>&mut self\<close> returns its outcome with the state it leaves;
  a receipt carries the error value that the code renders as a string.
\<close>

section \<open>State\<close>

record Account =
  acc_auth_commit :: H256
  acc_nonce :: u64

record Channel =
  ch_state :: ChannelState
  ch_escrow_remaining :: Amount
  ch_refunded :: bool

record GenesisAccount =
  ga_id :: AccountId
  ga_auth_commit :: H256

record GenesisFee =
  gf_micro :: Amount
  gf_from_height :: u64
  gf_asset :: "AssetId option"

record GenesisAsset =
  gs_id :: AssetId
  gs_symbol :: string
  gs_decimals :: u8
  gs_issuer :: AccountId
  gs_policy :: AssetPolicy

record Genesis =
  g_time :: Timestamp
  g_accounts :: "GenesisAccount list"
  g_alloc :: "(AccountId \<times> AssetId \<times> Amount) list"
  g_fee :: "GenesisFee option"
  g_assets :: "GenesisAsset list"

datatype Event =
    EvTransferred AccountId AccountId AssetId Amount
  | EvMandateCreated MandateId
  | EvMandateRevoked MandateId
  | EvMandateSpent MandateId AccountId Amount
  | EvChannelOpened ChannelId Amount
  | EvChannelSettled ChannelId u32 Amount
  | EvChannelRefunded ChannelId Amount
  | EvPoolMinted H256 Amount
  | EvPoolSpent H256 H256 H256 Amount "AccountId option"
  | EvAccountCreated AccountId AccountId AssetId Amount
  | EvAssetRegistered AssetId AccountId string
  | EvAssetMinted AssetId AccountId Amount
  | EvAssetBurned AssetId AccountId Amount bytes
  | EvAssetFrozen AssetId AccountId bool
  | EvAssetPaused AssetId bool

datatype StateError =
    UnknownAccount
  | DuplicateAccount
  | BadNonce u64 u64
  | AuthMismatch
  | BadSignature
  | Encode
  | InsufficientBalance Amount Amount
  | MandateErr SpendError
  | UnknownMandate
  | DuplicateMandate
  | NotHolder
  | MandateAssetMismatch
  | UnknownChannel
  | DuplicateChannel
  | ChannelIdMismatch
  | ChannelRefunded
  | NotExpired
  | BadSettlement
  | BadStep
  | Overflow
  | ZeroAmount
  | BadHeight
  | TimeBackwards
  | PoolProofInvalid
  | PoolUnknownAnchor
  | PoolDoubleSpend
  | PoolAssetMismatch
  | PoolValueRange
  | PoolFeeNeedsCredit
  | PoolFull
  | AccountExists
  | AccountIdMismatch
  | InsufficientFee Amount Amount
  | UnknownAsset
  | AssetExists
  | AssetIdMismatch
  | BadSymbol
  | BadDecimals
  | NotIssuer
  | PolicyForbids
  | AssetPaused
  | AccountFrozen
  | NotPoolEligible
  | BurnDestinationTooLong
  | BadFeeAssetPolicy
  | DuplicateAsset
  | SettleDeltaTooLarge u64 u64
  | ChannelTooLong u64 u64

record Receipt =
  rc_index :: nat
  rc_result :: "(Event list, StateError) outcome"

definition FEE_ASSET :: AssetId where
  "FEE_ASSET = h256_of_bytes (replicate 32 9)"

definition MAX_SETTLE_DELTA :: u64 where "MAX_SETTLE_DELTA = push_bit 16 1"
definition MAX_CHANNEL_STEPS :: u64 where "MAX_CHANNEL_STEPS = push_bit 17 1"

record State =
  st_height :: u64
  st_time :: Timestamp
  st_accounts :: "(AccountId, Account) btree_map"
  st_balances :: "(AccountId \<times> AssetId, Amount) btree_map"
  st_mandates :: MandateTree
  st_root_funding :: "(MandateId, AccountId) btree_map"
  st_channels :: "(ChannelId, Channel) btree_map"
  st_pool :: PoolState
  st_verifier :: ProofVerifier
  st_agg_cover :: "H256 btree_set"
  st_fee_micro :: Amount
  st_fee_from :: u64
  st_fees_burned :: Amount
  st_fee_asset :: AssetId
  st_assets :: "(AssetId, AssetInfo) btree_map"
  st_pools :: "(AssetId, PoolState) btree_map"
  st_multi_pool_from :: u64
  st_mandate_asset_from :: u64
  st_payword_cap_from :: u64

datatype PoolKey = LegacyPool | AssetPool AssetId

text \<open>The encoders the state machine calls: canonical JSON (\<^verbatim>\<open>serde_json\<close>) of mandate nodes and
  channels for the commitment, and \<^verbatim>\<open>bincode\<close> of the public statements.\<close>

record state_env = tx_env +
  json_mandate :: "MandateNode \<Rightarrow> bytes option"
  json_channel :: "Channel \<Rightarrow> bytes option"
  bincode_spend :: "SpendPublic \<Rightarrow> bytes option"
  bincode_mint :: "MintPublic \<Rightarrow> bytes option"

record StateSnapshot =
  ss_height :: u64
  ss_time :: Timestamp
  ss_accounts :: "(AccountId, Account) btree_map"
  ss_balances :: "(AccountId \<times> AssetId, Amount) btree_map"
  ss_mandates :: MandateTree
  ss_root_funding :: "(MandateId, AccountId) btree_map"
  ss_channels :: "(ChannelId, Channel) btree_map"
  ss_pool :: PoolState
  ss_fees_burned :: Amount
  ss_assets :: "(AssetId, AssetInfo) btree_map"
  ss_pools :: "(AssetId, PoolState) btree_map"

definition state_default :: "'x state_env_scheme \<Rightarrow> State" where
  "state_default X =
     \<lparr>st_height = 0, st_time = 0, st_accounts = [], st_balances = [], st_mandates = tree_new,
      st_root_funding = [], st_channels = [], st_pool = pool_default X, st_verifier = RejectAllVerifier,
      st_agg_cover = [], st_fee_micro = 0, st_fee_from = - 1, st_fees_burned = 0, st_fee_asset = FEE_ASSET,
      st_assets = [], st_pools = [], st_multi_pool_from = - 1, st_mandate_asset_from = - 1,
      st_payword_cap_from = - 1\<rparr>"

definition expected_spend_public :: "'x state_env_scheme \<Rightarrow> H256 \<Rightarrow> H256 \<Rightarrow> H256 \<Rightarrow> H256 \<Rightarrow> Amount \<Rightarrow> AccountId option \<Rightarrow> SpendPublic" where
  "expected_spend_public X anchor nf out out2 fee credit_to =
     (let credit_bytes = (case credit_to of Some a \<Rightarrow> a | None \<Rightarrow> 0)
      in \<lparr>sp_merkle_root = anchor, sp_nullifier = nf, sp_out_commitment = out, sp_out2_commitment = out2,
          sp_fee = u128_as_u64 fee, sp_tx_binding = tx_binding_for X credit_bytes (u128_as_u64 fee)\<rparr>)"

definition expected_mint_public :: "H256 \<Rightarrow> Amount \<Rightarrow> MintPublic" where
  "expected_mint_public commitment value = \<lparr>mp_commitment = commitment, mp_value = u128_as_u64 value\<rparr>"

section \<open>Genesis\<close>

fun genesis_accounts :: "GenesisAccount list \<Rightarrow> State \<Rightarrow> (State, StateError) outcome" where
  "genesis_accounts [] s = Ok s"
| "genesis_accounts (ga # rest) s =
     (if bmap_contains (st_accounts s) (ga_id ga) then Err DuplicateAccount
      else genesis_accounts rest
             (s\<lparr>st_accounts := bmap_insert (st_accounts s) (ga_id ga) \<lparr>acc_auth_commit = ga_auth_commit ga, acc_nonce = 0\<rparr>\<rparr>))"

fun genesis_assets :: "GenesisAsset list \<Rightarrow> State \<Rightarrow> (State, StateError) outcome" where
  "genesis_assets [] s = Ok s"
| "genesis_assets (ga # rest) s =
     (if \<not> valid_symbol (gs_symbol ga) then Err BadSymbol
      else if gs_decimals ga > MAX_DECIMALS then Err BadDecimals
      else if bmap_contains (st_assets s) (gs_id ga) then Err DuplicateAsset
      else genesis_assets rest
             (s\<lparr>st_assets := bmap_insert (st_assets s) (gs_id ga)
                 \<lparr>ai_symbol = gs_symbol ga, ai_decimals = gs_decimals ga, ai_issuer = gs_issuer ga, ai_policy = gs_policy ga,
                  ai_supply = 0, ai_burned = 0, ai_paused = False, ai_frozen = [], ai_registered_at = 0\<rparr>\<rparr>))"

definition credit :: "State \<Rightarrow> AccountId \<Rightarrow> AssetId \<Rightarrow> Amount \<Rightarrow> State" where
  "credit s i asset amount =
     (let e = (case bmap_get (st_balances s) (i, asset) of Some v \<Rightarrow> v | None \<Rightarrow> 0)
      in s\<lparr>st_balances := bmap_insert (st_balances s) (i, asset) (saturating_add e amount)\<rparr>)"

definition genesis_alloc :: "AccountId \<times> AssetId \<times> Amount \<Rightarrow> State \<Rightarrow> State" where
  "genesis_alloc al s =
     (case al of (i, asset, amount) \<Rightarrow>
        let s1 = credit s i asset amount
        in case bmap_get (st_assets s1) asset of
             Some info \<Rightarrow> s1\<lparr>st_assets := bmap_insert (st_assets s1) asset
                                (info\<lparr>ai_supply := saturating_add (ai_supply info) amount\<rparr>)\<rparr>
           | None \<Rightarrow> s1)"

definition from_genesis :: "'x state_env_scheme \<Rightarrow> Genesis \<Rightarrow> (State, StateError) outcome" where
  "from_genesis X g =
     bind_ok (genesis_accounts (g_accounts g) ((state_default X)\<lparr>st_height := 0, st_time := g_time g\<rparr>)) (\<lambda>s.
     bind_ok (genesis_assets (g_assets g) s) (\<lambda>s.
       let s = for_each (g_alloc g) genesis_alloc s;
           s = (case g_fee g of
                  Some f \<Rightarrow> (let s1 = s\<lparr>st_fee_micro := gf_micro f, st_fee_from := gf_from_height f\<rparr>
                             in case gf_asset f of Some a \<Rightarrow> s1\<lparr>st_fee_asset := a\<rparr> | None \<Rightarrow> s1)
                | None \<Rightarrow> s)
       in case bmap_get (st_assets s) (st_fee_asset s) of
            Some info \<Rightarrow>
              if pol_pausable (ai_policy info) \<or> pol_freezable (ai_policy info) then Err BadFeeAssetPolicy
              else Ok (s\<lparr>st_pool := seal_anchor X (st_pool s)\<rparr>)
          | None \<Rightarrow> Ok (s\<lparr>st_pool := seal_anchor X (st_pool s)\<rparr>)))"

section \<open>Balances and the asset gate\<close>

definition balance :: "State \<Rightarrow> AccountId \<Rightarrow> AssetId \<Rightarrow> Amount" where
  "balance s i asset = (case bmap_get (st_balances s) (i, asset) of Some v \<Rightarrow> v | None \<Rightarrow> 0)"

definition debit :: "State \<Rightarrow> AccountId \<Rightarrow> AssetId \<Rightarrow> Amount \<Rightarrow> (unit, StateError, State) step" where
  "debit s i asset amount =
     (let have_amt = balance s i asset
      in if have_amt < amount then (Err (InsufficientBalance have_amt amount), s)
         else (Ok (), s\<lparr>st_balances := bmap_insert (st_balances s) (i, asset) (have_amt - amount)\<rparr>))"

definition is_some_and :: "'a option \<Rightarrow> ('a \<Rightarrow> bool) \<Rightarrow> bool" where
  "is_some_and m P = (case m of Some x \<Rightarrow> P x | None \<Rightarrow> False)"

definition asset_gate :: "State \<Rightarrow> AssetId \<Rightarrow> AccountId option \<Rightarrow> AccountId option \<Rightarrow> (unit, StateError) outcome" where
  "asset_gate s asset from_acc to_acc =
     (case bmap_get (st_assets s) asset of
        Some info \<Rightarrow>
          if ai_paused info then Err AssetPaused
          else if is_some_and from_acc (bset_contains (ai_frozen info)) \<or> is_some_and to_acc (bset_contains (ai_frozen info))
          then Err AccountFrozen
          else Ok ()
      | None \<Rightarrow> Ok ())"

definition issuer_entry :: "State \<Rightarrow> AccountId \<Rightarrow> AssetId \<Rightarrow> (AssetPolicy \<Rightarrow> bool) \<Rightarrow> (AssetInfo, StateError) outcome" where
  "issuer_entry s sender asset allowed =
     bind_ok (ok_or (bmap_get (st_assets s) asset) UnknownAsset) (\<lambda>info.
       if ai_issuer info \<noteq> sender then Err NotIssuer
       else if \<not> allowed (ai_policy info) then Err PolicyForbids
       else Ok info)"

definition put_asset :: "State \<Rightarrow> AssetId \<Rightarrow> AssetInfo \<Rightarrow> State" where
  "put_asset s asset info = s\<lparr>st_assets := bmap_insert (st_assets s) asset info\<rparr>"

section \<open>Issued assets\<close>

definition do_asset_register :: "'x state_env_scheme \<Rightarrow> State \<Rightarrow> AccountId \<Rightarrow> AssetId \<Rightarrow> string \<Rightarrow> u8 \<Rightarrow> AssetPolicy \<Rightarrow>
    (Event list, StateError, State) step" where
  "do_asset_register X s sender asset symbol decimals policy =
     (if \<not> valid_symbol symbol then (Err BadSymbol, s)
      else if decimals > MAX_DECIMALS then (Err BadDecimals, s)
      else if asset \<noteq> derive_asset_id X sender symbol then (Err AssetIdMismatch, s)
      else if bmap_contains (st_assets s) asset then (Err AssetExists, s)
      else (Ok [EvAssetRegistered asset sender symbol],
            put_asset s asset
              \<lparr>ai_symbol = symbol, ai_decimals = decimals, ai_issuer = sender, ai_policy = policy, ai_supply = 0, ai_burned = 0,
               ai_paused = False, ai_frozen = [], ai_registered_at = st_height s\<rparr>))"

definition do_asset_mint :: "State \<Rightarrow> AccountId \<Rightarrow> AssetId \<Rightarrow> AccountId \<Rightarrow> Amount \<Rightarrow> (Event list, StateError, State) step" where
  "do_asset_mint s sender asset to_acc amount =
     (if amount = 0 then (Err ZeroAmount, s)
      else
        try_ro (issuer_entry s sender asset pol_mintable) s (\<lambda>info.
        try_ro (ok_or (checked_add (ai_supply info) amount) Overflow) s (\<lambda>_.
        try_ro (asset_gate s asset None (Some to_acc)) s (\<lambda>_.
          case bmap_get (st_assets s) asset of
            None \<Rightarrow> (Panic, s)
          | Some info \<Rightarrow>
              (Ok [EvAssetMinted asset to_acc amount],
               credit (put_asset s asset (info\<lparr>ai_supply := ai_supply info + amount\<rparr>)) to_acc asset amount)))))"

definition do_asset_burn :: "State \<Rightarrow> AccountId \<Rightarrow> AssetId \<Rightarrow> Amount \<Rightarrow> bytes \<Rightarrow> (Event list, StateError, State) step" where
  "do_asset_burn s sender asset amount destination =
     (if amount = 0 then (Err ZeroAmount, s)
      else if length destination > MAX_BURN_DESTINATION then (Err BurnDestinationTooLong, s)
      else if \<not> bmap_contains (st_assets s) asset then (Err UnknownAsset, s)
      else
        try_ro (asset_gate s asset (Some sender) None) s (\<lambda>_.
        try_rw (debit s sender asset amount) (\<lambda>_ s1.
          case bmap_get (st_assets s1) asset of
            None \<Rightarrow> (Panic, s1)
          | Some info \<Rightarrow>
              (Ok [EvAssetBurned asset sender amount destination],
               put_asset s1 asset (info\<lparr>ai_burned := saturating_add (ai_burned info) amount\<rparr>)))))"

definition do_asset_freeze :: "State \<Rightarrow> AccountId \<Rightarrow> AssetId \<Rightarrow> AccountId \<Rightarrow> bool \<Rightarrow> (Event list, StateError, State) step" where
  "do_asset_freeze s sender asset account frozen =
     try_ro (issuer_entry s sender asset pol_freezable) s (\<lambda>info.
       (Ok [EvAssetFrozen asset account frozen],
        put_asset s asset
          (info\<lparr>ai_frozen := if frozen then bset_insert (ai_frozen info) account else bset_remove (ai_frozen info) account\<rparr>)))"

definition do_asset_pause :: "State \<Rightarrow> AccountId \<Rightarrow> AssetId \<Rightarrow> bool \<Rightarrow> (Event list, StateError, State) step" where
  "do_asset_pause s sender asset paused =
     try_ro (issuer_entry s sender asset pol_pausable) s (\<lambda>info.
       (Ok [EvAssetPaused asset paused], put_asset s asset (info\<lparr>ai_paused := paused\<rparr>)))"

section \<open>Transfers and accounts\<close>

definition do_transfer :: "State \<Rightarrow> AccountId \<Rightarrow> AccountId \<Rightarrow> AssetId \<Rightarrow> Amount \<Rightarrow> (Event list, StateError, State) step" where
  "do_transfer s from_acc to_acc asset amount =
     (if amount = 0 then (Err ZeroAmount, s)
      else
        try_ro (asset_gate s asset (Some from_acc) (Some to_acc)) s (\<lambda>_.
        try_rw (debit s from_acc asset amount) (\<lambda>_ s1.
          (Ok [EvTransferred from_acc to_acc asset amount], credit s1 to_acc asset amount))))"

definition derive_account_id :: "'x hash_env_scheme \<Rightarrow> H256 \<Rightarrow> AccountId" where
  "derive_account_id X auth_commit = shake256_32 X DOM_ACCOUNT_ID [h256_bytes auth_commit]"

definition do_account_create :: "'x state_env_scheme \<Rightarrow> State \<Rightarrow> AccountId \<Rightarrow> AccountId \<Rightarrow> H256 \<Rightarrow> AssetId \<Rightarrow> Amount \<Rightarrow>
    (Event list, StateError, State) step" where
  "do_account_create X s sender i auth_commit asset amount =
     (if i \<noteq> derive_account_id X auth_commit then (Err AccountIdMismatch, s)
      else if bmap_contains (st_accounts s) i then (Err AccountExists, s)
      else
        try_rw (if amount > 0
                then try_ro (asset_gate s asset (Some sender) (Some i)) s (\<lambda>_. debit s sender asset amount)
                else (Ok (), s)) (\<lambda>_ s1.
          let s2 = s1\<lparr>st_accounts := bmap_insert (st_accounts s1) i \<lparr>acc_auth_commit = auth_commit, acc_nonce = 0\<rparr>\<rparr>;
              s3 = (if amount > 0 then credit s2 i asset amount else s2)
          in (Ok [EvAccountCreated i sender asset amount], s3)))"

section \<open>Mandates\<close>

definition holder_of :: "State \<Rightarrow> MandateId \<Rightarrow> (AccountId, StateError) outcome" where
  "holder_of s i =
     bind_ok (ok_or (tree_get (st_mandates s) i) UnknownMandate) (\<lambda>node.
       map_err (\<lambda>_. UnknownMandate) (h256_try_from (mn_holder_key node)))"

definition check_mandate_asset_bound :: "State \<Rightarrow> MandateId \<Rightarrow> MandateId \<Rightarrow> (unit, StateError) outcome" where
  "check_mandate_asset_bound s leaf root =
     bind_ok (ok_or (tree_get (st_mandates s) leaf) UnknownMandate) (\<lambda>l.
     bind_ok (ok_or (tree_get (st_mandates s) root) UnknownMandate) (\<lambda>r.
       if mn_asset l \<noteq> mn_asset r then Err MandateAssetMismatch else Ok ()))"

text \<open>A call on the mandate tree from the state: its error becomes \<open>StateError::Mandate\<close>.\<close>

definition on_mandates :: "State \<Rightarrow> ('a, SpendError, MandateTree) step \<Rightarrow> ('a, StateError, State) step" where
  "on_mandates s m = (case m of (r, t) \<Rightarrow> (map_err MandateErr r, s\<lparr>st_mandates := t\<rparr>))"

definition do_mandate_create :: "State \<Rightarrow> AccountId \<Rightarrow> MandateId \<Rightarrow> MandateId option \<Rightarrow> AccountId \<Rightarrow> AssetId \<Rightarrow> Amount \<Rightarrow> Amount \<Rightarrow> Amount
    \<Rightarrow> Amount \<Rightarrow> Timestamp \<Rightarrow> u8 \<Rightarrow> (Event list, StateError, State) step" where
  "do_mandate_create s sender i parent holder asset rate_per_sec buffer_max per_tx_max initial_buffer expiry tier =
     (if tree_get (st_mandates s) i \<noteq> None then (Err DuplicateMandate, s)
      else
        let asset_bound = st_height s \<ge> st_mandate_asset_from s
        in try_ro (case parent of
                     None \<Rightarrow> Ok ()
                   | Some p \<Rightarrow>
                       bind_ok (holder_of s p) (\<lambda>h.
                         if h \<noteq> sender then Err NotHolder
                         else if asset_bound
                         then bind_ok (ok_or (tree_get (st_mandates s) p) UnknownMandate) (\<lambda>pn.
                                if mn_asset pn \<noteq> asset then Err MandateAssetMismatch else Ok ())
                         else Ok ())) s (\<lambda>_.
           let node = \<lparr>mn_id = i, mn_parent = parent, mn_holder_key = h256_bytes holder, mn_scheme = LamportRatchetV0,
                       mn_asset = asset, mn_rate_per_sec = rate_per_sec, mn_buffer_max = buffer_max,
                       mn_per_tx_max = per_tx_max, mn_expiry = expiry, mn_revoked = False,
                       mn_buffer = min initial_buffer buffer_max, mn_last_accrual = st_time s, mn_tier = tier\<rparr>
           in try_rw (on_mandates s (if asset_bound then insert_asset_bound (st_mandates s) node
                                     else tree_insert (st_mandates s) node)) (\<lambda>_ s1.
                (Ok [EvMandateCreated i],
                 if parent = None then s1\<lparr>st_root_funding := bmap_insert (st_root_funding s1) i sender\<rparr> else s1))))"

text \<open>The part \<open>MandateSpend\<close> and \<open>ChannelOpen\<close> share: the funder of a leaf's root, asset-checked
  from the R17 height on.\<close>

definition funder_of :: "State \<Rightarrow> MandateId \<Rightarrow> (AccountId, StateError) outcome" where
  "funder_of s leaf =
     bind_ok (map_err MandateErr (root_of (st_mandates s) leaf)) (\<lambda>root.
     bind_ok (ok_or (bmap_get (st_root_funding s) root) UnknownMandate) (\<lambda>funder.
       if st_height s \<ge> st_mandate_asset_from s
       then bind_ok (check_mandate_asset_bound s leaf root) (\<lambda>_. Ok funder)
       else Ok funder))"

text \<open>Authorization, gate, balance, then the spend and the debit: the funding leg of both.\<close>

definition draw_on_mandate :: "State \<Rightarrow> MandateId \<Rightarrow> AccountId \<Rightarrow> AssetId \<Rightarrow> AccountId option \<Rightarrow> Amount \<Rightarrow> (unit, StateError, State) step" where
  "draw_on_mandate s leaf funder asset to_acc amount =
     try_ro (map_err MandateErr (check (st_mandates s) leaf amount (st_time s))) s (\<lambda>_.
     try_ro (asset_gate s asset (Some funder) to_acc) s (\<lambda>_.
       if balance s funder asset < amount then (Err (InsufficientBalance (balance s funder asset) amount), s)
       else
         try_rw (on_mandates s (spend (st_mandates s) leaf amount (st_time s))) (\<lambda>_ s1.
         expect_rw (debit s1 funder asset amount) (\<lambda>_ s2. (Ok (), s2)))))"

definition do_mandate_spend :: "State \<Rightarrow> AccountId \<Rightarrow> MandateId \<Rightarrow> AccountId \<Rightarrow> Amount \<Rightarrow> (Event list, StateError, State) step" where
  "do_mandate_spend s sender leaf to_acc amount =
     (if amount = 0 then (Err ZeroAmount, s)
      else
        try_ro (holder_of s leaf) s (\<lambda>h.
        if h \<noteq> sender then (Err NotHolder, s)
        else
          try_ro (ok_or (tree_get (st_mandates s) leaf) UnknownMandate) s (\<lambda>node.
          try_ro (funder_of s leaf) s (\<lambda>funder.
          try_rw (draw_on_mandate s leaf funder (mn_asset node) (Some to_acc) amount) (\<lambda>_ s1.
            (Ok [EvMandateSpent leaf to_acc amount], credit s1 to_acc (mn_asset node) amount))))))"

definition do_mandate_revoke :: "State \<Rightarrow> AccountId \<Rightarrow> MandateId \<Rightarrow> (Event list, StateError, State) step" where
  "do_mandate_revoke s sender target =
     try_ro (ok_or (tree_get (st_mandates s) target) UnknownMandate) s (\<lambda>node.
     try_ro (holder_of s (case mn_parent node of Some p \<Rightarrow> p | None \<Rightarrow> target)) s (\<lambda>authorizer.
       if authorizer \<noteq> sender then (Err NotHolder, s)
       else try_rw (on_mandates s (revoke (st_mandates s) target)) (\<lambda>_ s1. (Ok [EvMandateRevoked target], s1))))"

section \<open>Channels\<close>

definition derive_channel_id :: "'x hash_env_scheme \<Rightarrow> AccountId \<Rightarrow> AccountId \<Rightarrow> H256 \<Rightarrow> u64 \<Rightarrow> ChannelId" where
  "derive_channel_id X payer payee tip_word nonce =
     shake256_32 X DOM_CHANNEL_ID [h256_bytes payer, h256_bytes payee, h256_bytes tip_word, u64_le nonce]"

definition do_channel_open :: "'x state_env_scheme \<Rightarrow> State \<Rightarrow> AccountId \<Rightarrow> ChannelId \<Rightarrow> MandateId \<Rightarrow> AccountId \<Rightarrow> AssetId \<Rightarrow> H256 \<Rightarrow> Amount
    \<Rightarrow> u32 \<Rightarrow> Timestamp \<Rightarrow> (Event list, StateError, State) step" where
  "do_channel_open X s sender i mandate payee asset tip_word unit_price steps expiry =
     (if bmap_contains (st_channels s) i then (Err DuplicateChannel, s)
      else if unit_price = 0 \<or> steps = 0 then (Err ZeroAmount, s)
      else if st_height s \<ge> st_payword_cap_from s \<and> u32_as_u64 steps > MAX_CHANNEL_STEPS
      then (Err (ChannelTooLong (u32_as_u64 steps) MAX_CHANNEL_STEPS), s)
      else
        try_ro (holder_of s mandate) s (\<lambda>h.
        if h \<noteq> sender then (Err NotHolder, s)
        else
          try_ro (ok_or (bmap_get (st_accounts s) sender) UnknownAccount) s (\<lambda>acc.
          if derive_channel_id X sender payee tip_word (acc_nonce acc) \<noteq> i then (Err ChannelIdMismatch, s)
          else
            try_ro (ok_or (checked_mul unit_price (u32_as_u128 steps)) Overflow) s (\<lambda>deposit.
            try_ro (ok_or (tree_get (st_mandates s) mandate) UnknownMandate) s (\<lambda>node.
            if mn_asset node \<noteq> asset then (Err UnknownMandate, s)
            else
              try_ro (funder_of s mandate) s (\<lambda>funder.
              try_rw (draw_on_mandate s mandate funder asset None deposit) (\<lambda>_ s1.
                (Ok [EvChannelOpened i deposit],
                 s1\<lparr>st_channels := bmap_insert (st_channels s1) i
                     \<lparr>ch_state = \<lparr>cs_id = i, cs_payer = sender, cs_payee = payee, cs_asset = asset, cs_mandate = mandate,
                                  cs_tip = tip_word, cs_unit_price = unit_price, cs_max_steps = u32_as_u64 steps,
                                  cs_highest_step_settled = 0, cs_expiry = expiry\<rparr>,
                      ch_escrow_remaining = deposit, ch_refunded = False\<rparr>\<rparr>))))))))"

text \<open>The read-only part of a settlement: what is newly paid, or why not.\<close>

definition settle_quote :: "'x state_env_scheme \<Rightarrow> State \<Rightarrow> ChannelId \<Rightarrow> H256 \<Rightarrow> u32 \<Rightarrow> (Amount \<times> AccountId \<times> AssetId, StateError) outcome" where
  "settle_quote X s i word k =
     bind_ok (ok_or (bmap_get (st_channels s) i) UnknownChannel) (\<lambda>ch.
       if ch_refunded ch then Err ChannelRefunded
       else
         let prev = cs_highest_step_settled (ch_state ch)
         in if u32_as_u64 k \<le> prev \<or> u32_as_u64 k > cs_max_steps (ch_state ch) then Err BadStep
            else let newly = u32_as_u64 k - prev
                 in if st_height s \<ge> st_payword_cap_from s \<and> newly > MAX_SETTLE_DELTA
                    then Err (SettleDeltaTooLarge newly MAX_SETTLE_DELTA)
                    else if \<not> verify_settlement X (cs_tip (ch_state ch)) word k then Err BadSettlement
                    else bind_ok (ok_or (checked_mul (cs_unit_price (ch_state ch)) (u64_as_u128 newly)) Overflow) (\<lambda>paid.
                           Ok (paid, cs_payee (ch_state ch), cs_asset (ch_state ch))))"

definition do_channel_settle :: "'x state_env_scheme \<Rightarrow> State \<Rightarrow> ChannelId \<Rightarrow> H256 \<Rightarrow> u32 \<Rightarrow> (Event list, StateError, State) step" where
  "do_channel_settle X s i word k =
     try_ro (settle_quote X s i word k) s (\<lambda>(paid, payee, asset).
     try_ro (asset_gate s asset None (Some payee)) s (\<lambda>_.
       case bmap_get (st_channels s) i of
         None \<Rightarrow> (Panic, s)
       | Some ch \<Rightarrow>
           (Ok [EvChannelSettled i k paid],
            credit (s\<lparr>st_channels := bmap_insert (st_channels s) i
                       (ch\<lparr>ch_state := (ch_state ch)\<lparr>cs_highest_step_settled := u32_as_u64 k\<rparr>,
                           ch_escrow_remaining := ch_escrow_remaining ch - paid\<rparr>)\<rparr>) payee asset paid)))"

definition settle_delta :: "State \<Rightarrow> ChannelId \<Rightarrow> u32 \<Rightarrow> u64 option" where
  "settle_delta s i k =
     (case bmap_get (st_channels s) i of
        None \<Rightarrow> None
      | Some ch \<Rightarrow>
          if ch_refunded ch then None
          else let prev = cs_highest_step_settled (ch_state ch)
               in if u32_as_u64 k \<le> prev \<or> u32_as_u64 k > cs_max_steps (ch_state ch) then None
                  else Some (u32_as_u64 k - prev))"

definition settle_links :: "State \<Rightarrow> ChannelId \<Rightarrow> u32 \<Rightarrow> u64 option" where
  "settle_links s i k = map_option (\<lambda>_. u32_as_u64 k) (settle_delta s i k)"

definition do_channel_refund :: "State \<Rightarrow> AccountId \<Rightarrow> ChannelId \<Rightarrow> (Event list, StateError, State) step" where
  "do_channel_refund s sender i =
     try_ro (ok_or (bmap_get (st_channels s) i) UnknownChannel) s (\<lambda>ch.
       if ch_refunded ch then (Err ChannelRefunded, s)
       else if cs_payer (ch_state ch) \<noteq> sender then (Err NotHolder, s)
       else if st_time s < cs_expiry (ch_state ch) then (Err NotExpired, s)
       else
         try_ro (asset_gate s (cs_asset (ch_state ch)) None (Some (cs_payer (ch_state ch)))) s (\<lambda>_.
           (Ok [EvChannelRefunded i (ch_escrow_remaining ch)],
            credit (s\<lparr>st_channels := bmap_insert (st_channels s) i (ch\<lparr>ch_escrow_remaining := 0, ch_refunded := True\<rparr>)\<rparr>)
              (cs_payer (ch_state ch)) (cs_asset (ch_state ch)) (ch_escrow_remaining ch))))"

section \<open>The shielded pools\<close>

definition pool_key_of_asset :: "State \<Rightarrow> AssetId \<Rightarrow> (PoolKey, StateError) outcome" where
  "pool_key_of_asset s asset =
     (case ps_asset (st_pool s) of
        None \<Rightarrow> Ok LegacyPool
      | Some a \<Rightarrow>
          if a = asset then Ok LegacyPool
          else if st_height s \<ge> st_multi_pool_from s \<or> bmap_contains (st_pools s) asset then Ok (AssetPool asset)
          else Err PoolAssetMismatch)"

definition pool_key_of_anchor :: "State \<Rightarrow> H256 \<Rightarrow> PoolKey option" where
  "pool_key_of_anchor s anchor =
     (if is_recent_anchor (st_pool s) anchor then Some LegacyPool
      else map_option (\<lambda>(a, _). AssetPool a) (find (\<lambda>(_, p). is_recent_anchor p anchor) (st_pools s)))"

definition pool_ref :: "State \<Rightarrow> PoolKey \<Rightarrow> PoolState option" where
  "pool_ref s key = (case key of LegacyPool \<Rightarrow> Some (st_pool s) | AssetPool a \<Rightarrow> bmap_get (st_pools s) a)"

definition pool_asset :: "State \<Rightarrow> PoolKey \<Rightarrow> AssetId option" where
  "pool_asset s key = (case key of LegacyPool \<Rightarrow> ps_asset (st_pool s) | AssetPool a \<Rightarrow> Some a)"

definition pools_iter :: "State \<Rightarrow> (PoolKey \<times> PoolState) list" where
  "pools_iter s = (LegacyPool, st_pool s) # map (\<lambda>(a, p). (AssetPool a, p)) (st_pools s)"

definition shielded_of :: "State \<Rightarrow> AssetId \<Rightarrow> Amount" where
  "shielded_of s asset =
     (let t0 = (if ps_asset (st_pool s) = Some asset then saturating_add 0 (ps_total_shielded (st_pool s)) else 0)
      in case bmap_get (st_pools s) asset of
           Some p \<Rightarrow> saturating_add t0 (ps_total_shielded p)
         | None \<Rightarrow> t0)"

text \<open>A pool written back under its key.\<close>

definition put_pool :: "State \<Rightarrow> PoolKey \<Rightarrow> PoolState \<Rightarrow> State" where
  "put_pool s key p =
     (case key of
        LegacyPool \<Rightarrow> s\<lparr>st_pool := p\<rparr>
      | AssetPool a \<Rightarrow> s\<lparr>st_pools := bmap_insert (st_pools s) a p\<rparr>)"

text \<open>A new per-asset pool: the legacy pool's circuit version, its asset, its empty root sealed.\<close>

definition new_asset_pool :: "'x hash_env_scheme \<Rightarrow> u8 \<Rightarrow> AssetId \<Rightarrow> PoolState" where
  "new_asset_pool X version a = seal_anchor X ((pool_default X)\<lparr>ps_version := version, ps_asset := Some a\<rparr>)"

definition u64_max_amount :: Amount where "u64_max_amount = 18446744073709551615"

definition unwrap_or_default :: "bytes option \<Rightarrow> bytes" where
  "unwrap_or_default m = (case m of Some b \<Rightarrow> b | None \<Rightarrow> [])"

text \<open>A proof-less transaction rides on the block's verified aggregate, otherwise the injected
  verifier decides.\<close>

definition mint_proof_ok :: "'x state_env_scheme \<Rightarrow> State \<Rightarrow> bytes \<Rightarrow> MintPublic \<Rightarrow> bool" where
  "mint_proof_ok X s proof expected =
     (if proof = [] then bset_contains (st_agg_cover s) (cover_key X KIND_MINT (unwrap_or_default (bincode_mint X expected)))
      else verify_mint (st_verifier s) proof expected)"

definition spend_proof_ok :: "'x state_env_scheme \<Rightarrow> State \<Rightarrow> bytes \<Rightarrow> SpendPublic \<Rightarrow> bool" where
  "spend_proof_ok X s proof expected =
     (if proof = [] then bset_contains (st_agg_cover s) (cover_key X KIND_SPEND (unwrap_or_default (bincode_spend X expected)))
      else verify_spend (st_verifier s) proof expected)"

definition do_mint_to_pool :: "'x state_env_scheme \<Rightarrow> State \<Rightarrow> AccountId \<Rightarrow> AssetId \<Rightarrow> Amount \<Rightarrow> H256 \<Rightarrow> bytes \<Rightarrow> (Event list, StateError, State) step" where
  "do_mint_to_pool X s sender asset value commitment proof =
     (if value = 0 then (Err ZeroAmount, s)
      else if value > u64_max_amount then (Err PoolValueRange, s)
      else if (case bmap_get (st_assets s) asset of Some info \<Rightarrow> \<not> pol_pool_eligible (ai_policy info) | None \<Rightarrow> False)
      then (Err NotPoolEligible, s)
      else
        try_ro (asset_gate s asset (Some sender) None) s (\<lambda>_.
        try_ro (pool_key_of_asset s asset) s (\<lambda>key.
        if key \<noteq> LegacyPool \<and> \<not> (case bmap_get (st_assets s) asset of Some info \<Rightarrow> pol_pool_eligible (ai_policy info) | None \<Rightarrow> False)
        then (Err NotPoolEligible, s)
        else if is_some_and (pool_ref s key) (\<lambda>p. is_full (ps_tree p)) then (Err PoolFull, s)
        else if \<not> mint_proof_ok X s proof (expected_mint_public commitment value) then (Err PoolProofInvalid, s)
        else
          try_rw (debit s sender asset value) (\<lambda>_ s1.
            let version = ps_version (st_pool s1);
                p0 = (case key of
                        LegacyPool \<Rightarrow> st_pool s1
                      | AssetPool a \<Rightarrow> (case bmap_get (st_pools s1) a of Some p \<Rightarrow> p | None \<Rightarrow> new_asset_pool X version a));
                p1 = p0\<lparr>ps_asset := (case ps_asset p0 of Some a \<Rightarrow> Some a | None \<Rightarrow> Some asset)\<rparr>
            in case inc_append X (ps_tree p1) commitment of
                 (None, _) \<Rightarrow> (Panic, put_pool s1 key p1)
               | (Some _, t) \<Rightarrow>
                   (Ok [EvPoolMinted commitment value],
                    put_pool s1 key (p1\<lparr>ps_tree := t, ps_total_shielded := saturating_add (ps_total_shielded p1) value\<rparr>))))))"

text \<open>The mandate side of a shielded spend: authorization first, the asset rule once the pool is
  known.\<close>

definition spend_mandate_auth :: "State \<Rightarrow> AccountId \<Rightarrow> MandateId option \<Rightarrow> Amount \<Rightarrow> (unit, StateError) outcome" where
  "spend_mandate_auth s sender mandate fee =
     (case mandate of
        None \<Rightarrow> Ok ()
      | Some m \<Rightarrow>
          if fee = 0 then Err ZeroAmount
          else bind_ok (holder_of s m) (\<lambda>h.
                 if h \<noteq> sender then Err NotHolder
                 else map_err MandateErr (check (st_mandates s) m fee (st_time s))))"

definition spend_mandate_asset :: "State \<Rightarrow> MandateId option \<Rightarrow> AssetId option \<Rightarrow> (unit, StateError) outcome" where
  "spend_mandate_asset s mandate asset =
     (case mandate of
        None \<Rightarrow> Ok ()
      | Some m \<Rightarrow>
          if st_height s \<ge> st_mandate_asset_from s
          then bind_ok (map_err MandateErr (root_of (st_mandates s) m)) (\<lambda>root.
               bind_ok (check_mandate_asset_bound s m root) (\<lambda>_.
               bind_ok (ok_or (tree_get (st_mandates s) m) UnknownMandate) (\<lambda>node.
                 if asset \<noteq> Some (mn_asset node) then Err MandateAssetMismatch else Ok ())))
          else Ok ())"

text \<open>The effects on the pool: the nullifier is burned and both outputs enter the tree, in order.\<close>

definition pool_spend_effects :: "'x state_env_scheme \<Rightarrow> PoolState \<Rightarrow> H256 \<Rightarrow> H256 \<Rightarrow> H256 \<Rightarrow> Amount \<Rightarrow> PoolState option" where
  "pool_spend_effects X p nf out out2 fee =
     (case inc_append X (ps_tree p) out of
        (None, _) \<Rightarrow> None
      | (Some _, t1) \<Rightarrow>
          (case inc_append X t1 out2 of
             (None, _) \<Rightarrow> None
           | (Some _, t2) \<Rightarrow>
               Some (p\<lparr>ps_nullifiers := bset_insert (ps_nullifiers p) nf, ps_tree := t2,
                       ps_total_shielded := if fee > 0 then saturating_sub (ps_total_shielded p) fee
                                            else ps_total_shielded p\<rparr>)))"

definition do_shielded_spend :: "'x state_env_scheme \<Rightarrow> State \<Rightarrow> AccountId \<Rightarrow> H256 \<Rightarrow> H256 \<Rightarrow> H256 \<Rightarrow> H256 \<Rightarrow> Amount \<Rightarrow> AccountId option
    \<Rightarrow> MandateId option \<Rightarrow> bytes \<Rightarrow> (Event list, StateError, State) step" where
  "do_shielded_spend X s sender anchor nf out out2 fee credit_to mandate proof =
     (if fee > u64_max_amount then (Err PoolValueRange, s)
      else if fee > 0 \<and> credit_to = None then (Err PoolFeeNeedsCredit, s)
      else
        try_ro (spend_mandate_auth s sender mandate fee) s (\<lambda>_.
        try_ro (ok_or (pool_key_of_anchor s anchor) PoolUnknownAnchor) s (\<lambda>key.
        let asset = pool_asset s key
        in if fee > 0 \<and> asset = None then (Err PoolAssetMismatch, s)
           else
             try_ro (spend_mandate_asset s mandate asset) s (\<lambda>_.
             try_ro (if fee > 0 then (case asset of None \<Rightarrow> Panic | Some a \<Rightarrow> asset_gate s a None credit_to) else Ok ()) s (\<lambda>_.
             case pool_ref s key of
               None \<Rightarrow> (Panic, s)
             | Some pool \<Rightarrow>
                 if bset_contains (ps_nullifiers pool) nf then (Err PoolDoubleSpend, s)
                 else if \<not> has_capacity (ps_tree pool) 2 then (Err PoolFull, s)
                 else if \<not> spend_proof_ok X s proof (expected_spend_public X anchor nf out out2 fee credit_to)
                 then (Err PoolProofInvalid, s)
                 else
                   try_rw (case mandate of
                             None \<Rightarrow> (Ok (), s)
                           | Some m \<Rightarrow> on_mandates s (spend (st_mandates s) m fee (st_time s))) (\<lambda>_ s1.
                     case pool_ref s1 key of
                       None \<Rightarrow> (Panic, s1)
                     | Some p \<Rightarrow>
                         (case pool_spend_effects X p nf out out2 fee of
                            None \<Rightarrow> (Panic, s1)
                          | Some p' \<Rightarrow>
                              let s2 = put_pool s1 key p'
                              in if fee > 0
                                 then (case (credit_to, asset) of
                                         (Some to_acc, Some a) \<Rightarrow>
                                           (Ok [EvPoolSpent nf out out2 fee credit_to], credit s2 to_acc a fee)
                                       | _ \<Rightarrow> (Panic, s2))
                                 else (Ok [EvPoolSpent nf out out2 fee credit_to], s2))))))))"

section \<open>Dispatch, envelopes and blocks\<close>

fun dispatch :: "'x state_env_scheme \<Rightarrow> State \<Rightarrow> AccountId \<Rightarrow> Tx \<Rightarrow> (Event list, StateError, State) step" where
  "dispatch X s sender (Transfer to_acc asset amount) = do_transfer s sender to_acc asset amount"
| "dispatch X s sender (AccountCreate i auth_commit asset amount) = do_account_create X s sender i auth_commit asset amount"
| "dispatch X s sender (MandateCreate i parent holder asset rate buffer_max per_tx initial expiry tier) =
     do_mandate_create s sender i parent holder asset rate buffer_max per_tx initial expiry tier"
| "dispatch X s sender (MandateSpend leaf to_acc amount) = do_mandate_spend s sender leaf to_acc amount"
| "dispatch X s sender (MandateRevoke target) = do_mandate_revoke s sender target"
| "dispatch X s sender (ChannelOpen i mandate payee asset tip_word unit_price steps expiry) =
     do_channel_open X s sender i mandate payee asset tip_word unit_price steps expiry"
| "dispatch X s sender (ChannelSettle i word k) = do_channel_settle X s i word k"
| "dispatch X s sender (ChannelRefund i) = do_channel_refund s sender i"
| "dispatch X s sender (MintToPool asset value commitment proof ct) = do_mint_to_pool X s sender asset value commitment proof"
| "dispatch X s sender (ShieldedSpend anchor nf out out2 fee credit_to mandate proof ct ct2) =
     do_shielded_spend X s sender anchor nf out out2 fee credit_to mandate proof"
| "dispatch X s sender (AssetRegister asset symbol decimals policy) = do_asset_register X s sender asset symbol decimals policy"
| "dispatch X s sender (AssetMint asset to_acc amount) = do_asset_mint s sender asset to_acc amount"
| "dispatch X s sender (AssetBurn asset amount destination) = do_asset_burn s sender asset amount destination"
| "dispatch X s sender (AssetFreeze asset account frozen) = do_asset_freeze s sender asset account frozen"
| "dispatch X s sender (AssetPause asset paused) = do_asset_pause s sender asset paused"

text \<open>The envelope checks in their order: account, nonce, auth commitment, signature.\<close>

definition check_envelope :: "'x state_env_scheme \<Rightarrow> State \<Rightarrow> SignedTx \<Rightarrow> bool option \<Rightarrow> (unit, StateError) outcome" where
  "check_envelope X s stx pre_sig =
     bind_ok (ok_or (bmap_get (st_accounts s) (stx_sender stx)) UnknownAccount) (\<lambda>acc.
       if stx_nonce stx \<noteq> acc_nonce acc then Err (BadNonce (acc_nonce acc) (stx_nonce stx))
       else if pk_commit X (stx_lamport_pk stx) \<noteq> acc_auth_commit acc then Err AuthMismatch
       else if (case pre_sig of Some v \<Rightarrow> v | None \<Rightarrow> verify_envelope X stx) then Ok ()
       else if signing_digest X (stx_payload stx) (stx_sender stx) (stx_nonce stx) (stx_next_auth stx) = None
       then Err Encode
       else Err BadSignature)"

definition envelope_fee :: "State \<Rightarrow> Amount" where
  "envelope_fee s = (if st_height s \<ge> st_fee_from s then st_fee_micro s else 0)"

definition ratchet :: "State \<Rightarrow> SignedTx \<Rightarrow> State option" where
  "ratchet s stx =
     map_option (\<lambda>acc. s\<lparr>st_accounts := bmap_insert (st_accounts s) (stx_sender stx)
                           \<lparr>acc_auth_commit = stx_next_auth stx, acc_nonce = acc_nonce acc + 1\<rparr>\<rparr>)
       (bmap_get (st_accounts s) (stx_sender stx))"

definition apply_tx_at :: "'x state_env_scheme \<Rightarrow> State \<Rightarrow> SignedTx \<Rightarrow> bool option \<Rightarrow> (Event list, StateError, State) step" where
  "apply_tx_at X s stx pre_sig =
     try_ro (check_envelope X s stx pre_sig) s (\<lambda>_.
       let fee = envelope_fee s;
           fee_asset = st_fee_asset s
       in if fee > 0 \<and> balance s (stx_sender stx) fee_asset < fee
          then (Err (InsufficientFee (balance s (stx_sender stx) fee_asset) fee), s)
          else
            expect_rw (if fee > 0 then debit s (stx_sender stx) fee_asset fee else (Ok (), s)) (\<lambda>_ s1.
              case dispatch X s1 (stx_sender stx) (stx_payload stx) of
                (Err e, s2) \<Rightarrow> (Err e, if fee > 0 then credit s2 (stx_sender stx) fee_asset fee else s2)
              | (Panic, s2) \<Rightarrow> (Panic, s2)
              | (Ok events, s2) \<Rightarrow>
                  let s3 = (if fee > 0 then s2\<lparr>st_fees_burned := saturating_add (st_fees_burned s2) fee\<rparr> else s2)
                  in case ratchet s3 stx of
                       None \<Rightarrow> (Panic, s3)
                     | Some s4 \<Rightarrow> (Ok events, s4)))"

definition apply_tx :: "'x state_env_scheme \<Rightarrow> State \<Rightarrow> SignedTx \<Rightarrow> (Event list, StateError, State) step" where
  "apply_tx X s stx = apply_tx_at X s stx None"

fun apply_txs :: "'x state_env_scheme \<Rightarrow> nat \<Rightarrow> SignedTx list \<Rightarrow> bool list option \<Rightarrow> State \<Rightarrow> Receipt list \<Rightarrow> (Receipt list, StateError, State) step" where
  "apply_txs X i [] verdicts s receipts = (Ok receipts, s)"
| "apply_txs X i (stx # rest) verdicts s receipts =
     (case apply_tx_at X s stx (map_option (\<lambda>v. v ! i) verdicts) of
        (Panic, s1) \<Rightarrow> (Panic, s1)
      | (r, s1) \<Rightarrow> apply_txs X (Suc i) rest verdicts s1 (receipts @ [\<lparr>rc_index = i, rc_result = r\<rparr>]))"

definition end_block :: "'x state_env_scheme \<Rightarrow> State \<Rightarrow> State" where
  "end_block X s = s\<lparr>st_pool := seal_anchor X (st_pool s), st_pools := bmap_map_values (seal_anchor X) (st_pools s), st_agg_cover := []\<rparr>"

definition apply_block_verified :: "'x state_env_scheme \<Rightarrow> State \<Rightarrow> u64 \<Rightarrow> Timestamp \<Rightarrow> SignedTx list \<Rightarrow> bool list option \<Rightarrow>
    (Receipt list, StateError, State) step" where
  "apply_block_verified X s height time txs sig_verdicts =
     (if height \<noteq> st_height s + 1 then (Err BadHeight, s)
      else if time < st_time s then (Err TimeBackwards, s)
      else if is_some_and sig_verdicts (\<lambda>v. length v \<noteq> length txs) then (Err BadHeight, s)
      else try_rw (apply_txs X 0 txs sig_verdicts (s\<lparr>st_height := height, st_time := time\<rparr>) []) (\<lambda>receipts s1.
             (Ok receipts, end_block X s1)))"

definition apply_block :: "'x state_env_scheme \<Rightarrow> State \<Rightarrow> u64 \<Rightarrow> Timestamp \<Rightarrow> SignedTx list \<Rightarrow> (Receipt list, StateError, State) step" where
  "apply_block X s height time txs = apply_block_verified X s height time txs None"

definition set_block_coverage :: "State \<Rightarrow> H256 btree_set \<Rightarrow> State" where
  "set_block_coverage s cover = s\<lparr>st_agg_cover := cover\<rparr>"

section \<open>Persistence and views\<close>

definition to_snapshot :: "State \<Rightarrow> StateSnapshot" where
  "to_snapshot s =
     \<lparr>ss_height = st_height s, ss_time = st_time s, ss_accounts = st_accounts s, ss_balances = st_balances s,
      ss_mandates = st_mandates s, ss_root_funding = st_root_funding s, ss_channels = st_channels s, ss_pool = st_pool s,
      ss_fees_burned = st_fees_burned s, ss_assets = st_assets s, ss_pools = st_pools s\<rparr>"

definition from_snapshot :: "StateSnapshot \<Rightarrow> State" where
  "from_snapshot s =
     \<lparr>st_height = ss_height s, st_time = ss_time s, st_accounts = ss_accounts s, st_balances = ss_balances s,
      st_mandates = ss_mandates s, st_root_funding = ss_root_funding s, st_channels = ss_channels s, st_pool = ss_pool s,
      st_verifier = RejectAllVerifier, st_agg_cover = [], st_fee_micro = 0, st_fee_from = - 1,
      st_fees_burned = ss_fees_burned s, st_fee_asset = FEE_ASSET, st_assets = ss_assets s, st_pools = ss_pools s,
      st_multi_pool_from = - 1, st_mandate_asset_from = - 1, st_payword_cap_from = - 1\<rparr>"

definition commit_pool :: "'x hash_env_scheme \<Rightarrow> PoolState \<Rightarrow> bytes" where
  "commit_pool X p =
     [ps_version p]
     @ (case ps_asset p of Some a \<Rightarrow> [1] @ h256_bytes a | None \<Rightarrow> [0])
     @ u64_le (it_next_index (ps_tree p)) @ h256_bytes (inc_root X (ps_tree p))
     @ usize_le (length (ps_anchors p)) @ concat (map h256_bytes (ps_anchors p))
     @ usize_le (length (ps_nullifiers p)) @ concat (map h256_bytes (ps_nullifiers p))
     @ u128_le (ps_total_shielded p)"

fun commit_entries :: "('v \<Rightarrow> bytes option) \<Rightarrow> (H256, 'v) btree_map \<Rightarrow> (bytes, unit) outcome" where
  "commit_entries enc [] = Ok []"
| "commit_entries enc ((i, v) # rest) =
     (case enc v of
        None \<Rightarrow> Panic
      | Some b \<Rightarrow> bind_ok (commit_entries enc rest) (\<lambda>r. Ok (h256_bytes i @ b @ r)))"

definition commitment_bytes :: "'x state_env_scheme \<Rightarrow> State \<Rightarrow> (bytes, unit) outcome" where
  "commitment_bytes X s =
     bind_ok (commit_entries (json_mandate X) (mt_nodes (st_mandates s))) (\<lambda>mandates.
     bind_ok (commit_entries (json_channel X) (st_channels s)) (\<lambda>channels.
       Ok (u64_le (st_height s) @ u64_le (st_time s)
         @ concat (map (\<lambda>(i, acc). h256_bytes i @ h256_bytes (acc_auth_commit acc) @ u64_le (acc_nonce acc)) (st_accounts s))
         @ concat (map (\<lambda>((i, asset), amt). h256_bytes i @ h256_bytes asset @ u128_le amt) (st_balances s))
         @ mandates @ channels
         @ concat (map (\<lambda>(root, funder). h256_bytes root @ h256_bytes funder) (st_root_funding s))
         @ commit_pool X (st_pool s)
         @ (if st_fees_burned s > 0 then [0xFE] @ u128_le (st_fees_burned s) else [])
         @ (if st_assets s \<noteq> []
            then [0xA5] @ usize_le (length (st_assets s)) @ concat (map (\<lambda>(i, info). h256_bytes i @ commit_asset info) (st_assets s))
            else [])
         @ (if st_pools s \<noteq> []
            then [0xB6] @ usize_le (length (st_pools s)) @ concat (map (\<lambda>(a, p). h256_bytes a @ commit_pool X p) (st_pools s))
            else []))))"

definition state_commitment :: "'x state_env_scheme \<Rightarrow> State \<Rightarrow> (H256, unit) outcome" where
  "state_commitment X s = bind_ok (commitment_bytes X s) (\<lambda>buf. Ok (shake256_32 X DOM_STATE_COMMIT [buf]))"

definition asset_conservation :: "State \<Rightarrow> AssetId \<Rightarrow> (Amount \<times> Amount) option" where
  "asset_conservation s asset =
     (case bmap_get (st_assets s) asset of
        None \<Rightarrow> None
      | Some info \<Rightarrow>
          let held = for_each (st_balances s) (\<lambda>((_, a), amt) held. if a = asset then saturating_add held amt else held) 0;
              held = for_each (st_channels s) (\<lambda>(_, ch) held.
                       if cs_asset (ch_state ch) = asset then saturating_add held (ch_escrow_remaining ch) else held) held;
              held = (if ps_asset (st_pool s) = Some asset then saturating_add held (ps_total_shielded (st_pool s)) else held);
              held = (case bmap_get (st_pools s) asset of Some p \<Rightarrow> saturating_add held (ps_total_shielded p) | None \<Rightarrow> held);
              issued = saturating_sub (ai_supply info) (ai_burned info);
              issued = (if asset = st_fee_asset s then saturating_sub issued (st_fees_burned s) else issued)
          in Some (held, issued))"

definition asset_by_symbol :: "'x state_env_scheme \<Rightarrow> State \<Rightarrow> AccountId \<Rightarrow> string \<Rightarrow> (AssetId \<times> AssetInfo) option" where
  "asset_by_symbol X s issuer symbol =
     (let i = derive_asset_id X issuer symbol in map_option (\<lambda>info. (i, info)) (bmap_get (st_assets s) i))"

end
