(* ===== verification/HK_Handlers.thy ===== *)
theory HK_Handlers
  imports HK_State
begin

text \<open>
  What each handler of the state machine does when it accepts, as one elimination rule per
  handler, and that each refuses cleanly: it never panics and an error leaves the state it got.
\<close>

section \<open>Read-only helpers never panic\<close>

lemma asset_gate_not_Panic [simp]: "asset_gate s a f t \<noteq> Panic"
  by (auto simp: asset_gate_def split: option.splits)

lemma issuer_entry_not_Panic [simp]: "issuer_entry s snd_acc a P \<noteq> Panic"
  by (cases "bmap_get (st_assets s) a") (auto simp: issuer_entry_def)

lemma h256_try_from_not_Panic [simp]: "h256_try_from v \<noteq> Panic"
  by (simp add: h256_try_from_def)

lemma holder_of_not_Panic [simp]: "holder_of s i \<noteq> Panic"
  by (cases "tree_get (st_mandates s) i") (auto simp: holder_of_def)

lemma check_mandate_asset_bound_not_Panic [simp]: "check_mandate_asset_bound s l r \<noteq> Panic"
  by (cases "tree_get (st_mandates s) l"; cases "tree_get (st_mandates s) r") (auto simp: check_mandate_asset_bound_def)

lemma root_of_not_Panic [simp]: "root_of t leaf \<noteq> Panic"
proof (cases "chain_of t leaf")
  case (Ok c)
  then have "c \<noteq> []" by (auto simp: chain_of_iff)
  with Ok show ?thesis by (simp add: root_of_def)
qed (simp_all add: root_of_def)

lemma funder_of_not_Panic [simp]: "funder_of s leaf \<noteq> Panic"
  by (auto simp: funder_of_def simp: bind_ok_Panic_iff)

lemma pool_key_of_asset_not_Panic [simp]: "pool_key_of_asset s a \<noteq> Panic"
  by (auto simp: pool_key_of_asset_def split: option.splits)

lemma settle_quote_not_Panic [simp]: "settle_quote X s i w k \<noteq> Panic"
  by (auto simp: settle_quote_def Let_def simp: bind_ok_Panic_iff)

lemma spend_mandate_auth_not_Panic [simp]: "spend_mandate_auth s snd_acc m fee \<noteq> Panic"
  by (auto simp: spend_mandate_auth_def simp: bind_ok_Panic_iff split: option.splits)

lemma spend_mandate_asset_not_Panic [simp]: "spend_mandate_asset s m a \<noteq> Panic"
  by (auto simp: spend_mandate_asset_def simp: bind_ok_Panic_iff split: option.splits)

lemma check_envelope_not_Panic [simp]: "check_envelope X s stx pre \<noteq> Panic"
  by (auto simp: check_envelope_def simp: bind_ok_Panic_iff)

section \<open>Debits and credits\<close>

definition debited :: "State \<Rightarrow> AccountId \<Rightarrow> AssetId \<Rightarrow> Amount \<Rightarrow> State" where
  "debited s i a amount = s\<lparr>st_balances := bmap_insert (st_balances s) (i, a) (balance s i a - amount)\<rparr>"

lemma debit_Ok_iff: "debit s i a amount = (Ok u, s') \<longleftrightarrow> amount \<le> balance s i a \<and> s' = debited s i a amount"
  by (auto simp: debit_def debited_def Let_def)

lemma debit_clean [simp]: "clean_from s (debit s i a amount)"
  by (simp add: debit_def Let_def)

interpretation ledger_debit: two_phase
  "\<lambda>s (i, a, amount). if balance s i a < amount then Err (InsufficientBalance (balance s i a) amount) else Ok ()"
  "\<lambda>s (i, a, amount). debit s i a amount"
  by unfold_locales (auto simp: debit_def Let_def split: if_splits)

lemma debit_after_check: "\<not> balance s i a < amount \<Longrightarrow> debit s i a amount = (Ok (), debited s i a amount)"
  by (simp add: debit_Ok_iff not_less)

lemma debited_frame [simp]:
  "st_height (debited s i a x) = st_height s" "st_time (debited s i a x) = st_time s"
  "st_accounts (debited s i a x) = st_accounts s" "st_mandates (debited s i a x) = st_mandates s"
  "st_root_funding (debited s i a x) = st_root_funding s" "st_channels (debited s i a x) = st_channels s"
  "st_pool (debited s i a x) = st_pool s" "st_pools (debited s i a x) = st_pools s" "st_assets (debited s i a x) = st_assets s"
  "st_fee_asset (debited s i a x) = st_fee_asset s" "st_fees_burned (debited s i a x) = st_fees_burned s"
  "st_fee_micro (debited s i a x) = st_fee_micro s" "st_fee_from (debited s i a x) = st_fee_from s"
  "st_verifier (debited s i a x) = st_verifier s" "st_agg_cover (debited s i a x) = st_agg_cover s"
  "st_multi_pool_from (debited s i a x) = st_multi_pool_from s" "st_mandate_asset_from (debited s i a x) = st_mandate_asset_from s"
  "st_payword_cap_from (debited s i a x) = st_payword_cap_from s"
  by (simp_all add: debited_def)

lemma credit_frame [simp]:
  "st_height (credit s i a x) = st_height s" "st_time (credit s i a x) = st_time s"
  "st_accounts (credit s i a x) = st_accounts s" "st_mandates (credit s i a x) = st_mandates s"
  "st_root_funding (credit s i a x) = st_root_funding s" "st_channels (credit s i a x) = st_channels s"
  "st_pool (credit s i a x) = st_pool s" "st_pools (credit s i a x) = st_pools s" "st_assets (credit s i a x) = st_assets s"
  "st_fee_asset (credit s i a x) = st_fee_asset s" "st_fees_burned (credit s i a x) = st_fees_burned s"
  "st_fee_micro (credit s i a x) = st_fee_micro s" "st_fee_from (credit s i a x) = st_fee_from s"
  "st_verifier (credit s i a x) = st_verifier s" "st_agg_cover (credit s i a x) = st_agg_cover s"
  "st_multi_pool_from (credit s i a x) = st_multi_pool_from s" "st_mandate_asset_from (credit s i a x) = st_mandate_asset_from s"
  "st_payword_cap_from (credit s i a x) = st_payword_cap_from s"
  by (simp_all add: credit_def Let_def)

lemma balance_debited: "balance (debited s i a x) j b = (if j = i \<and> b = a then balance s i a - x else balance s j b)"
  by (auto simp: balance_def debited_def)

lemma balance_credit: "balance (credit s i a x) j b = (if j = i \<and> b = a then saturating_add (balance s i a) x else balance s j b)"
  by (auto simp: balance_def credit_def Let_def)

lemma balance_cong: "st_balances s = st_balances s' \<Longrightarrow> balance s i a = balance s' i a"
  by (simp add: balance_def)

text \<open>A debit of a present entry and a credit of the same amount restore the state exactly.\<close>

lemma credit_debited_restores:
  assumes "0 < x" and "x \<le> balance s i a"
  shows "credit (debited s i a x) i a x = s"
proof -
  have "balance s i a \<noteq> 0" using assms by auto
  then obtain v where v: "bmap_get (st_balances s) (i, a) = Some v" "balance s i a = v"
    by (cases "bmap_get (st_balances s) (i, a)") (auto simp: balance_def)
  then show ?thesis
    using assms(2) bmap.put_restore [OF v(1)]
    by (simp add: credit_def debited_def Let_def saturating_add_sub_cancel)
qed

section \<open>Mandate calls from the state\<close>

lemma on_mandates_Ok_iff:
  "on_mandates s m = (Ok x, s') \<longleftrightarrow> (\<exists>t. m = (Ok x, t) \<and> s' = s\<lparr>st_mandates := t\<rparr>)"
  by (cases m) (auto simp: on_mandates_def)

lemma on_mandates_clean: "clean_from (st_mandates s) m \<Longrightarrow> clean_from s (on_mandates s m)"
  by (cases m; cases "fst m") (auto simp: on_mandates_def)

lemma draw_on_mandate_clean: "clean_from s (draw_on_mandate s leaf funder a t amount)"
  unfolding draw_on_mandate_def
proof (intro clean_from_try_ro)
  show "map_err MandateErr (check (st_mandates s) leaf amount (st_time s)) \<noteq> Panic" by simp
  show "asset_gate s a (Some funder) t \<noteq> Panic" by simp
  fix x y
  show "clean_from s (if balance s funder a < amount then (Err (InsufficientBalance (balance s funder a) amount), s)
      else try_rw (on_mandates s (spend (st_mandates s) leaf amount (st_time s))) (\<lambda>_ s1.
        expect_rw (debit s1 funder a amount) (\<lambda>_ s2. (Ok (), s2))))"
  proof (cases "balance s funder a < amount")
    case False
    have "clean_from s (try_rw (on_mandates s (spend (st_mandates s) leaf amount (st_time s))) (\<lambda>_ s1.
        expect_rw (debit s1 funder a amount) (\<lambda>_ s2. (Ok (), s2))))"
    proof (intro clean_from_try_rw on_mandates_clean spend_clean)
      fix u s1
      assume "on_mandates s (spend (st_mandates s) leaf amount (st_time s)) = (Ok u, s1)"
      then have "balance s1 funder a = balance s funder a"
        by (auto simp: on_mandates_Ok_iff intro: balance_cong)
      with False show "clean_from s (expect_rw (debit s1 funder a amount) (\<lambda>_ s2. (Ok (), s2)))"
        by (simp add: debit_after_check)
    qed
    with False show ?thesis by simp
  qed simp
qed

lemma draw_on_mandate_OkE:
  assumes "draw_on_mandate s leaf funder a t amount = (Ok u, s')"
  obtains m where "spend (st_mandates s) leaf amount (st_time s) = (Ok (), m)" "amount \<le> balance s funder a"
    "asset_gate s a (Some funder) t = Ok ()" "s' = debited (s\<lparr>st_mandates := m\<rparr>) funder a amount"
proof -
  from assms have gate: "asset_gate s a (Some funder) t = Ok ()" and bal: "\<not> balance s funder a < amount"
    and rest: "try_rw (on_mandates s (spend (st_mandates s) leaf amount (st_time s))) (\<lambda>_ s1.
        expect_rw (debit s1 funder a amount) (\<lambda>_ s2. (Ok (), s2))) = (Ok u, s')"
    unfolding draw_on_mandate_def by (auto elim!: try_ro_OkE split: if_splits)
  from rest obtain x s1 where s1: "on_mandates s (spend (st_mandates s) leaf amount (st_time s)) = (Ok x, s1)"
    and d: "expect_rw (debit s1 funder a amount) (\<lambda>_ s2. (Ok (), s2)) = (Ok u :: (unit, StateError) outcome, s')"
    by (rule try_rw_OkE)
  from d obtain y where "debit s1 funder a amount = (Ok y, s')"
    by (rule expect_rw_OkE) simp
  moreover from s1 obtain m where "spend (st_mandates s) leaf amount (st_time s) = (Ok (), m)" "s1 = s\<lparr>st_mandates := m\<rparr>"
    by (auto simp: on_mandates_Ok_iff)
  ultimately show ?thesis using that gate bal by (simp add: debit_Ok_iff not_less)
qed

section \<open>Accepted transactions, handler by handler\<close>

lemma do_transfer_OkE:
  assumes "do_transfer s f t a x = (Ok ev, s')"
  obtains "asset_gate s a (Some f) (Some t) = Ok ()" "x \<le> balance s f a" "s' = credit (debited s f a x) t a x"
  using assms by (auto simp: do_transfer_def debit_Ok_iff elim!: try_ro_OkE try_rw_OkE split: if_splits)

lemma do_transfer_clean: "clean_from s (do_transfer s f t a x)"
  by (auto simp: do_transfer_def intro!: clean_from_try_ro clean_from_try_rw)

definition with_account :: "State \<Rightarrow> AccountId \<Rightarrow> H256 \<Rightarrow> State" where
  "with_account s i c = s\<lparr>st_accounts := bmap_insert (st_accounts s) i \<lparr>acc_auth_commit = c, acc_nonce = 0\<rparr>\<rparr>"

lemma do_account_create_OkE:
  assumes "do_account_create X s snd_acc i c a x = (Ok ev, s')"
  obtains "i = derive_account_id X c" "bmap_get (st_accounts s) i = None" "x = 0" "s' = with_account s i c"
  | "i = derive_account_id X c" "bmap_get (st_accounts s) i = None" "0 < x" "x \<le> balance s snd_acc a"
    "asset_gate s a (Some snd_acc) (Some i) = Ok ()" "s' = credit (with_account (debited s snd_acc a x) i c) i a x"
proof (cases "x = 0")
  case True
  with assms that(1) show ?thesis
    by (auto simp: do_account_create_def bmap_contains_def with_account_def split: if_splits)
next
  case False
  then have "0 < x" by (simp add: word_neq_0_conv)
  with assms that(2) show ?thesis
    by (auto simp: do_account_create_def bmap_contains_def with_account_def debit_Ok_iff
        elim!: try_ro_OkE try_rw_OkE split: if_splits)
qed

lemma do_account_create_clean: "clean_from s (do_account_create X s snd_acc i c a x)"
  by (auto simp: do_account_create_def Let_def intro!: clean_from_try_ro clean_from_try_rw split: if_splits)

lemma issuer_entry_Ok_iff:
  "issuer_entry s snd_acc a P = Ok info \<longleftrightarrow> bmap_get (st_assets s) a = Some info \<and> ai_issuer info = snd_acc \<and> P (ai_policy info)"
  by (cases "bmap_get (st_assets s) a") (auto simp: issuer_entry_def)

lemma do_asset_register_OkE:
  assumes "do_asset_register X s snd_acc a sy d pol = (Ok ev, s')"
  obtains info where "bmap_get (st_assets s) a = None" "a = derive_asset_id X snd_acc sy" "valid_symbol sy"
    "s' = put_asset s a info" "ai_supply info = 0" "ai_burned info = 0" "\<not> ai_paused info" "ai_frozen info = []"
    "ai_symbol info = sy" "ai_issuer info = snd_acc" "ai_policy info = pol"
  using assms by (auto simp: do_asset_register_def bmap_contains_def split: if_splits)

lemma do_asset_register_clean: "clean_from s (do_asset_register X s snd_acc a sy d pol)"
  by (simp add: do_asset_register_def)

lemma do_asset_mint_OkE:
  assumes "do_asset_mint s snd_acc a t x = (Ok ev, s')"
  obtains info where "bmap_get (st_assets s) a = Some info" "ai_issuer info = snd_acc" "pol_mintable (ai_policy info)"
    "unat (ai_supply info) + unat x < 2 ^ 128" "asset_gate s a None (Some t) = Ok ()"
    "s' = credit (put_asset s a (info\<lparr>ai_supply := ai_supply info + x\<rparr>)) t a x"
  using assms
  by (auto simp: do_asset_mint_def issuer_entry_Ok_iff checked_add_Some elim!: try_ro_OkE split: if_splits option.splits)

lemma do_asset_mint_clean: "clean_from s (do_asset_mint s snd_acc a t x)"
  by (auto simp: do_asset_mint_def issuer_entry_Ok_iff intro!: clean_from_try_ro split: option.splits)

lemma do_asset_burn_OkE:
  assumes "do_asset_burn s snd_acc a x d = (Ok ev, s')"
  obtains info where "bmap_get (st_assets s) a = Some info" "asset_gate s a (Some snd_acc) None = Ok ()" "x \<le> balance s snd_acc a"
    "s' = put_asset (debited s snd_acc a x) a (info\<lparr>ai_burned := saturating_add (ai_burned info) x\<rparr>)"
  using assms
  by (auto simp: do_asset_burn_def debit_Ok_iff elim!: try_ro_OkE try_rw_OkE split: if_splits option.splits)

lemma do_asset_burn_clean: "clean_from s (do_asset_burn s snd_acc a x d)"
  by (auto simp: do_asset_burn_def debit_Ok_iff bmap_contains_def intro!: clean_from_try_ro clean_from_try_rw split: option.splits)

lemma do_asset_freeze_OkE:
  assumes "do_asset_freeze s snd_acc a acc f = (Ok ev, s')"
  obtains info where "bmap_get (st_assets s) a = Some info" "ai_issuer info = snd_acc" "pol_freezable (ai_policy info)"
    "s' = put_asset s a (info\<lparr>ai_frozen := if f then bset_insert (ai_frozen info) acc else bset_remove (ai_frozen info) acc\<rparr>)"
  using assms by (auto simp: do_asset_freeze_def issuer_entry_Ok_iff elim!: try_ro_OkE)

lemma do_asset_freeze_clean: "clean_from s (do_asset_freeze s snd_acc a acc f)"
  by (auto simp: do_asset_freeze_def intro!: clean_from_try_ro)

lemma do_asset_pause_OkE:
  assumes "do_asset_pause s snd_acc a b = (Ok ev, s')"
  obtains info where "bmap_get (st_assets s) a = Some info" "ai_issuer info = snd_acc" "pol_pausable (ai_policy info)"
    "s' = put_asset s a (info\<lparr>ai_paused := b\<rparr>)"
  using assms by (auto simp: do_asset_pause_def issuer_entry_Ok_iff elim!: try_ro_OkE)

lemma do_asset_pause_clean: "clean_from s (do_asset_pause s snd_acc a b)"
  by (auto simp: do_asset_pause_def intro!: clean_from_try_ro)

lemma do_mandate_create_OkE:
  assumes "do_mandate_create s snd_acc i parent holder a rate bmax ptx init expiry tier = (Ok ev, s')"
  obtains node t where "tree_get (st_mandates s) i = None" "mn_id node = i" "mn_parent node = parent" "mn_asset node = a"
    "(if st_height s \<ge> st_mandate_asset_from s then insert_asset_bound (st_mandates s) node
      else tree_insert (st_mandates s) node) = (Ok (), t)"
    "parent \<noteq> None \<Longrightarrow> holder_of s (the parent) = Ok snd_acc"
    "s' = s\<lparr>st_mandates := t, st_root_funding :=
       if parent = None then bmap_insert (st_root_funding s) i snd_acc else st_root_funding s\<rparr>"
proof -
  let ?node = "\<lparr>mn_id = i, mn_parent = parent, mn_holder_key = h256_bytes holder, mn_scheme = LamportRatchetV0,
      mn_asset = a, mn_rate_per_sec = rate, mn_buffer_max = bmax, mn_per_tx_max = ptx, mn_expiry = expiry, mn_revoked = False,
      mn_buffer = min init bmax, mn_last_accrual = st_time s, mn_tier = tier\<rparr>"
  have none: "tree_get (st_mandates s) i = None"
    using assms by (auto simp: do_mandate_create_def split: if_splits)
  from assms none have hold: "parent \<noteq> None \<Longrightarrow> holder_of s (the parent) = Ok snd_acc"
    by (auto simp: do_mandate_create_def Let_def elim!: try_ro_OkE bind_ok_OkE split: if_splits)
  from assms none obtain t where
    ins: "(if st_height s \<ge> st_mandate_asset_from s then insert_asset_bound (st_mandates s) ?node
      else tree_insert (st_mandates s) ?node) = (Ok (), t)"
    and s': "s' = s\<lparr>st_mandates := t, st_root_funding := if parent = None then bmap_insert (st_root_funding s) i snd_acc else st_root_funding s\<rparr>"
    unfolding do_mandate_create_def Let_def
    by (auto simp: on_mandates_Ok_iff elim!: try_ro_OkE try_rw_OkE split: if_splits)
  show ?thesis
    by (rule that [OF none _ _ _ ins hold s']) simp_all
qed

lemma do_mandate_create_clean: "clean_from s (do_mandate_create s snd_acc i parent holder a rate bmax ptx init expiry tier)"
  unfolding do_mandate_create_def Let_def
  by (auto simp: bind_ok_Panic_iff intro!: clean_from_try_ro clean_from_try_rw on_mandates_clean tree_insert_clean insert_asset_bound_clean
      split: option.splits if_splits)

lemma do_mandate_spend_OkE:
  assumes "do_mandate_spend s snd_acc leaf to_acc x = (Ok ev, s')"
  obtains node funder m where "holder_of s leaf = Ok snd_acc" "tree_get (st_mandates s) leaf = Some node" "funder_of s leaf = Ok funder"
    "spend (st_mandates s) leaf x (st_time s) = (Ok (), m)" "x \<le> balance s funder (mn_asset node)"
    "asset_gate s (mn_asset node) (Some funder) (Some to_acc) = Ok ()"
    "s' = credit (debited (s\<lparr>st_mandates := m\<rparr>) funder (mn_asset node) x) to_acc (mn_asset node) x"
proof -
  from assms obtain node funder s1 where "holder_of s leaf = Ok snd_acc" "tree_get (st_mandates s) leaf = Some node"
    "funder_of s leaf = Ok funder" "draw_on_mandate s leaf funder (mn_asset node) (Some to_acc) x = (Ok (), s1)"
    "s' = credit s1 to_acc (mn_asset node) x"
    by (auto simp: do_mandate_spend_def elim!: try_ro_OkE try_rw_OkE split: if_splits)
  then show ?thesis using that by (elim draw_on_mandate_OkE) simp
qed

lemma do_mandate_spend_clean: "clean_from s (do_mandate_spend s snd_acc leaf to_acc x)"
  by (auto simp: do_mandate_spend_def intro!: clean_from_try_ro clean_from_try_rw draw_on_mandate_clean)

lemma do_mandate_revoke_OkE:
  assumes "do_mandate_revoke s snd_acc target = (Ok ev, s')"
  obtains node m where "tree_get (st_mandates s) target = Some node"
    "holder_of s (case mn_parent node of Some p \<Rightarrow> p | None \<Rightarrow> target) = Ok snd_acc"
    "revoke (st_mandates s) target = (Ok (), m)" "s' = s\<lparr>st_mandates := m\<rparr>"
  using assms
  by (auto simp: do_mandate_revoke_def on_mandates_Ok_iff elim!: try_ro_OkE try_rw_OkE split: if_splits)

lemma do_mandate_revoke_clean: "clean_from s (do_mandate_revoke s snd_acc target)"
  by (auto simp: do_mandate_revoke_def intro!: clean_from_try_ro clean_from_try_rw on_mandates_clean revoke_clean)

definition opened_channel :: "ChannelId \<Rightarrow> AccountId \<Rightarrow> AccountId \<Rightarrow> AssetId \<Rightarrow> MandateId \<Rightarrow> H256 \<Rightarrow> Amount \<Rightarrow> u32 \<Rightarrow> Timestamp \<Rightarrow> Amount \<Rightarrow> Channel" where
  "opened_channel i payer payee a m t price steps expiry deposit =
     \<lparr>ch_state = \<lparr>cs_id = i, cs_payer = payer, cs_payee = payee, cs_asset = a, cs_mandate = m, cs_tip = t, cs_unit_price = price,
        cs_max_steps = u32_as_u64 steps, cs_highest_step_settled = 0, cs_expiry = expiry\<rparr>,
      ch_escrow_remaining = deposit, ch_refunded = False\<rparr>"

lemma do_channel_open_OkE:
  assumes "do_channel_open X s snd_acc i m payee a t price steps expiry = (Ok ev, s')"
  obtains deposit node funder tr where "bmap_get (st_channels s) i = None" "price \<noteq> 0" "steps \<noteq> 0"
    "st_height s \<ge> st_payword_cap_from s \<Longrightarrow> u32_as_u64 steps \<le> MAX_CHANNEL_STEPS"
    "holder_of s m = Ok snd_acc" "checked_mul price (u32_as_u128 steps) = Some deposit"
    "tree_get (st_mandates s) m = Some node" "mn_asset node = a" "funder_of s m = Ok funder"
    "spend (st_mandates s) m deposit (st_time s) = (Ok (), tr)" "deposit \<le> balance s funder a"
    "asset_gate s a (Some funder) None = Ok ()"
    "s' = (debited (s\<lparr>st_mandates := tr\<rparr>) funder a deposit)
        \<lparr>st_channels := bmap_insert (st_channels s) i (opened_channel i snd_acc payee a m t price steps expiry deposit)\<rparr>"
proof -
  from assms have g: "bmap_get (st_channels s) i = None" "price \<noteq> 0" "steps \<noteq> 0"
    "st_height s \<ge> st_payword_cap_from s \<Longrightarrow> u32_as_u64 steps \<le> MAX_CHANNEL_STEPS"
    by (auto simp: do_channel_open_def bmap_contains_def not_less split: if_splits)
  from assms obtain deposit node funder s1 where "holder_of s m = Ok snd_acc" "checked_mul price (u32_as_u128 steps) = Some deposit"
    "tree_get (st_mandates s) m = Some node" "mn_asset node = a" "funder_of s m = Ok funder"
    "draw_on_mandate s m funder a None deposit = (Ok (), s1)"
    "s' = s1\<lparr>st_channels := bmap_insert (st_channels s1) i (opened_channel i snd_acc payee a m t price steps expiry deposit)\<rparr>"
    by (auto simp: do_channel_open_def opened_channel_def elim!: try_ro_OkE try_rw_OkE split: if_splits)
  with g that show ?thesis by (elim draw_on_mandate_OkE) simp
qed

lemma do_channel_open_clean: "clean_from s (do_channel_open X s snd_acc i m payee a t price steps expiry)"
  by (auto simp: do_channel_open_def intro!: clean_from_try_ro clean_from_try_rw draw_on_mandate_clean)

lemma settle_quote_OkE:
  assumes "settle_quote X s i w k = Ok (paid, payee, a)"
  obtains ch where "bmap_get (st_channels s) i = Some ch" "\<not> ch_refunded ch"
    "cs_highest_step_settled (ch_state ch) < u32_as_u64 k" "u32_as_u64 k \<le> cs_max_steps (ch_state ch)"
    "st_height s \<ge> st_payword_cap_from s \<Longrightarrow> u32_as_u64 k - cs_highest_step_settled (ch_state ch) \<le> MAX_SETTLE_DELTA"
    "verify_settlement X (cs_tip (ch_state ch)) w k"
    "checked_mul (cs_unit_price (ch_state ch)) (u64_as_u128 (u32_as_u64 k - cs_highest_step_settled (ch_state ch))) = Some paid"
    "payee = cs_payee (ch_state ch)" "a = cs_asset (ch_state ch)"
  using assms by (auto simp: settle_quote_def Let_def not_less not_le elim!: bind_ok_OkE split: if_splits)

lemma do_channel_settle_OkE:
  assumes "do_channel_settle X s i w k = (Ok ev, s')"
  obtains ch paid where "bmap_get (st_channels s) i = Some ch" "\<not> ch_refunded ch"
    "cs_highest_step_settled (ch_state ch) < u32_as_u64 k" "u32_as_u64 k \<le> cs_max_steps (ch_state ch)"
    "st_height s \<ge> st_payword_cap_from s \<Longrightarrow> u32_as_u64 k - cs_highest_step_settled (ch_state ch) \<le> MAX_SETTLE_DELTA"
    "verify_settlement X (cs_tip (ch_state ch)) w k"
    "checked_mul (cs_unit_price (ch_state ch)) (u64_as_u128 (u32_as_u64 k - cs_highest_step_settled (ch_state ch))) = Some paid"
    "asset_gate s (cs_asset (ch_state ch)) None (Some (cs_payee (ch_state ch))) = Ok ()"
    "s' = credit (s\<lparr>st_channels := bmap_insert (st_channels s) i
             (ch\<lparr>ch_state := (ch_state ch)\<lparr>cs_highest_step_settled := u32_as_u64 k\<rparr>,
                 ch_escrow_remaining := ch_escrow_remaining ch - paid\<rparr>)\<rparr>) (cs_payee (ch_state ch)) (cs_asset (ch_state ch)) paid"
    "ev = [EvChannelSettled i k paid]"
proof -
  from assms obtain paid payee a where q: "settle_quote X s i w k = Ok (paid, payee, a)"
    and rest: "try_ro (asset_gate s a None (Some payee)) s (\<lambda>_.
       case bmap_get (st_channels s) i of None \<Rightarrow> (Panic, s) | Some ch \<Rightarrow>
           (Ok [EvChannelSettled i k paid],
            credit (s\<lparr>st_channels := bmap_insert (st_channels s) i
                       (ch\<lparr>ch_state := (ch_state ch)\<lparr>cs_highest_step_settled := u32_as_u64 k\<rparr>,
                           ch_escrow_remaining := ch_escrow_remaining ch - paid\<rparr>)\<rparr>) payee a paid)) = (Ok ev, s')"
    unfolding do_channel_settle_def by (elim try_ro_OkE) auto
  from q obtain ch where ch: "bmap_get (st_channels s) i = Some ch" "\<not> ch_refunded ch"
    "cs_highest_step_settled (ch_state ch) < u32_as_u64 k" "u32_as_u64 k \<le> cs_max_steps (ch_state ch)"
    "st_height s \<ge> st_payword_cap_from s \<Longrightarrow> u32_as_u64 k - cs_highest_step_settled (ch_state ch) \<le> MAX_SETTLE_DELTA"
    "verify_settlement X (cs_tip (ch_state ch)) w k"
    "checked_mul (cs_unit_price (ch_state ch)) (u64_as_u128 (u32_as_u64 k - cs_highest_step_settled (ch_state ch))) = Some paid"
    and eq: "payee = cs_payee (ch_state ch)" "a = cs_asset (ch_state ch)" by (rule settle_quote_OkE) blast
  show ?thesis by (rule that [OF ch]) (use rest ch(1) eq in \<open>auto elim!: try_ro_OkE\<close>)
qed

lemma do_channel_settle_clean: "clean_from s (do_channel_settle X s i w k)"
  unfolding do_channel_settle_def
  by (auto intro!: clean_from_try_ro elim!: settle_quote_OkE)

lemma do_channel_refund_OkE:
  assumes "do_channel_refund s snd_acc i = (Ok ev, s')"
  obtains ch where "bmap_get (st_channels s) i = Some ch" "\<not> ch_refunded ch" "cs_payer (ch_state ch) = snd_acc"
    "cs_expiry (ch_state ch) \<le> st_time s" "asset_gate s (cs_asset (ch_state ch)) None (Some (cs_payer (ch_state ch))) = Ok ()"
    "s' = credit (s\<lparr>st_channels := bmap_insert (st_channels s) i (ch\<lparr>ch_escrow_remaining := 0, ch_refunded := True\<rparr>)\<rparr>)
        (cs_payer (ch_state ch)) (cs_asset (ch_state ch)) (ch_escrow_remaining ch)"
  using assms by (auto simp: do_channel_refund_def not_less elim!: try_ro_OkE split: if_splits)

lemma do_channel_refund_clean: "clean_from s (do_channel_refund s snd_acc i)"
  by (auto simp: do_channel_refund_def intro!: clean_from_try_ro)

section \<open>Accepted pool transactions\<close>

lemma inc_append_iff: "fst (inc_append X t x) = None \<longleftrightarrow> is_full t"
  by (simp add: inc_append_def Let_def)

lemma inc_append_SomeE:
  assumes "\<not> is_full t"
  obtains pos t' where "inc_append X t x = (Some pos, t')"
  using assms by (simp add: inc_append_def Let_def)

lemma inc_append_next:
  assumes "inc_append X t x = (Some pos, t')"
  shows "it_next_index t' = it_next_index t + 1" "pos = it_next_index t" "\<not> is_full t"
    "length (it_frontier t') = length (it_frontier t)" "it_empty t' = it_empty t"
proof -
  have len: "length (append_loop node n l cur idx fr) = length fr" for node n l cur idx fr
    by (induction node n l cur idx fr rule: append_loop.induct) auto
  show "it_next_index t' = it_next_index t + 1" "pos = it_next_index t" "\<not> is_full t"
    "length (it_frontier t') = length (it_frontier t)" "it_empty t' = it_empty t"
    using assms len by (auto simp: inc_append_def Let_def split: if_splits)
qed

lemma inc_new_not_full: "\<not> is_full (inc_new X)"
  by (simp add: is_full_iff inc_new_def)

text \<open>The pool a shield lands in, before the commitment enters.\<close>

definition mint_target :: "'x state_env_scheme \<Rightarrow> State \<Rightarrow> PoolKey \<Rightarrow> PoolState" where
  "mint_target X s key =
     (case key of
        LegacyPool \<Rightarrow> st_pool s
      | AssetPool a \<Rightarrow> (case bmap_get (st_pools s) a of Some p \<Rightarrow> p | None \<Rightarrow> new_asset_pool X (ps_version (st_pool s)) a))"

definition pin_asset :: "PoolState \<Rightarrow> AssetId \<Rightarrow> PoolState" where
  "pin_asset p a = p\<lparr>ps_asset := (case ps_asset p of Some b \<Rightarrow> Some b | None \<Rightarrow> Some a)\<rparr>"

lemma mint_target_not_full:
  "\<not> is_some_and (pool_ref s key) (\<lambda>p. is_full (ps_tree p)) \<Longrightarrow> \<not> is_full (ps_tree (mint_target X s key))"
  by (auto simp: mint_target_def pool_ref_def is_some_and_def new_asset_pool_def pool_default_def inc_new_not_full
      split: PoolKey.splits option.splits)

lemma mint_body_unfold:
  "(let version = ps_version (st_pool s1);
        p0 = (case key of LegacyPool \<Rightarrow> st_pool s1
              | AssetPool a \<Rightarrow> (case bmap_get (st_pools s1) a of Some p \<Rightarrow> p | None \<Rightarrow> new_asset_pool X version a));
        p1 = p0\<lparr>ps_asset := (case ps_asset p0 of Some a \<Rightarrow> Some a | None \<Rightarrow> Some asset)\<rparr>
    in f p1) = f (pin_asset (mint_target X s1 key) asset)"
  by (simp add: mint_target_def pin_asset_def Let_def split: PoolKey.splits)

lemma do_mint_to_pool_alt:
  "do_mint_to_pool X s snd_acc asset v c proof =
     (if v = 0 then (Err ZeroAmount, s)
      else if v > u64_max_amount then (Err PoolValueRange, s)
      else if (case bmap_get (st_assets s) asset of Some info \<Rightarrow> \<not> pol_pool_eligible (ai_policy info) | None \<Rightarrow> False)
      then (Err NotPoolEligible, s)
      else
        try_ro (asset_gate s asset (Some snd_acc) None) s (\<lambda>_.
        try_ro (pool_key_of_asset s asset) s (\<lambda>key.
        if key \<noteq> LegacyPool \<and> \<not> (case bmap_get (st_assets s) asset of Some info \<Rightarrow> pol_pool_eligible (ai_policy info) | None \<Rightarrow> False)
        then (Err NotPoolEligible, s)
        else if is_some_and (pool_ref s key) (\<lambda>p. is_full (ps_tree p)) then (Err PoolFull, s)
        else if \<not> mint_proof_ok X s proof (expected_mint_public c v) then (Err PoolProofInvalid, s)
        else
          try_rw (debit s snd_acc asset v) (\<lambda>_ s1.
            let p1 = pin_asset (mint_target X s1 key) asset
            in case inc_append X (ps_tree p1) c of
                 (None, _) \<Rightarrow> (Panic, put_pool s1 key p1)
               | (Some _, t) \<Rightarrow>
                   (Ok [EvPoolMinted c v],
                    put_pool s1 key (p1\<lparr>ps_tree := t, ps_total_shielded := saturating_add (ps_total_shielded p1) v\<rparr>))))))"
  unfolding do_mint_to_pool_def mint_target_def pin_asset_def Let_def by (rule refl)

lemma mint_target_debited [simp]: "mint_target X (debited s i a x) key = mint_target X s key"
  by (simp add: mint_target_def split: PoolKey.split option.split)

lemma pin_asset_frame [simp]:
  "ps_tree (pin_asset p a) = ps_tree p" "ps_total_shielded (pin_asset p a) = ps_total_shielded p"
  "ps_nullifiers (pin_asset p a) = ps_nullifiers p" "ps_anchors (pin_asset p a) = ps_anchors p"
  by (simp_all add: pin_asset_def)

lemma do_mint_to_pool_OkE:
  assumes "do_mint_to_pool X s snd_acc asset v c proof = (Ok ev, s')"
  obtains key pos t where "v \<noteq> 0" "v \<le> u64_max_amount" "asset_gate s asset (Some snd_acc) None = Ok ()"
    "\<And>info. bmap_get (st_assets s) asset = Some info \<Longrightarrow> pol_pool_eligible (ai_policy info)"
    "key \<noteq> LegacyPool \<Longrightarrow> bmap_get (st_assets s) asset \<noteq> None"
    "pool_key_of_asset s asset = Ok key" "mint_proof_ok X s proof (expected_mint_public c v)"
    "v \<le> balance s snd_acc asset" "inc_append X (ps_tree (mint_target X s key)) c = (Some pos, t)"
    "s' = put_pool (debited s snd_acc asset v) key
        ((pin_asset (mint_target X s key) asset)\<lparr>ps_tree := t, ps_total_shielded := saturating_add (ps_total_shielded (mint_target X s key)) v\<rparr>)"
proof -
  from assms have g: "v \<noteq> 0" "v \<le> u64_max_amount" "asset_gate s asset (Some snd_acc) None = Ok ()"
    "\<And>info. bmap_get (st_assets s) asset = Some info \<Longrightarrow> pol_pool_eligible (ai_policy info)"
    unfolding do_mint_to_pool_alt by (auto simp: not_less elim!: try_ro_OkE split: if_splits option.splits)
  from assms obtain key where k: "pool_key_of_asset s asset = Ok key"
    unfolding do_mint_to_pool_alt by (auto elim!: try_ro_OkE split: if_splits)
  from assms k have p: "mint_proof_ok X s proof (expected_mint_public c v)" "v \<le> balance s snd_acc asset"
    "key \<noteq> LegacyPool \<Longrightarrow> bmap_get (st_assets s) asset \<noteq> None"
    unfolding do_mint_to_pool_alt by (auto simp: debit_Ok_iff elim!: try_ro_OkE try_rw_OkE split: if_splits option.splits)
  from assms k obtain pos t where "inc_append X (ps_tree (mint_target X s key)) c = (Some pos, t)"
    "s' = put_pool (debited s snd_acc asset v) key
        ((pin_asset (mint_target X s key) asset)\<lparr>ps_tree := t, ps_total_shielded := saturating_add (ps_total_shielded (mint_target X s key)) v\<rparr>)"
    unfolding do_mint_to_pool_alt
    by (auto simp: debit_Ok_iff Let_def elim!: try_ro_OkE try_rw_OkE split: if_splits prod.splits option.splits)
  with g k p that show ?thesis by blast
qed

lemma do_mint_to_pool_clean: "clean_from s (do_mint_to_pool X s snd_acc asset v c proof)"
proof -
  have tail: "clean_from s (try_rw (debit s snd_acc asset v) (\<lambda>_ s1.
            let p1 = pin_asset (mint_target X s1 key) asset
            in case inc_append X (ps_tree (mint_target X s1 key)) c of
                 (None, _) \<Rightarrow> (Panic, put_pool s1 key p1)
               | (Some _, t) \<Rightarrow> (Ok [EvPoolMinted c v],
                    put_pool s1 key (p1\<lparr>ps_tree := t, ps_total_shielded := saturating_add (ps_total_shielded p1) v\<rparr>))))"
    if nf: "\<not> is_some_and (pool_ref s key) (\<lambda>p. is_full (ps_tree p))" for key
  proof -
    obtain pos t where "inc_append X (ps_tree (mint_target X s key)) c = (Some pos, t)"
      using mint_target_not_full [OF nf] by (rule inc_append_SomeE)
    then show ?thesis by (intro clean_from_try_rw) (auto simp: debit_Ok_iff)
  qed
  show ?thesis unfolding do_mint_to_pool_alt by (auto intro!: clean_from_try_ro intro: tail)
qed

lemma pool_key_of_anchor_ref:
  assumes "bmap_ok (st_pools s)" and "pool_key_of_anchor s anchor = Some key"
  obtains p where "pool_ref s key = Some p" "is_recent_anchor p anchor"
proof (cases key)
  case LegacyPool
  then show ?thesis
    using assms(2) that by (auto simp: pool_key_of_anchor_def pool_ref_def split: if_splits)
next
  case (AssetPool a)
  with assms(2) obtain p where "find (\<lambda>(_, p). is_recent_anchor p anchor) (st_pools s) = Some (a, p)"
    by (auto simp: pool_key_of_anchor_def split: if_splits)
  then have "(a, p) \<in> set (st_pools s)" "is_recent_anchor p anchor"
    by (auto simp: find_Some_iff) (metis nth_mem)
  with AssetPool assms(1) that show ?thesis by (simp add: pool_ref_def bmap_mem_get)
qed

lemma pool_spend_effects_Some:
  assumes "has_capacity (ps_tree p) 2"
  obtains p' where "pool_spend_effects X p nf out out2 fee = Some p'"
proof -
  have cap: "unat (it_next_index (ps_tree p)) + 2 \<le> 2 ^ 32 - 1" using assms by (simp add: has_capacity_iff)
  then have "\<not> is_full (ps_tree p)" by (simp add: is_full_iff)
  then obtain pos t1 where a1: "inc_append X (ps_tree p) out = (Some pos, t1)" by (rule inc_append_SomeE)
  have "it_next_index (ps_tree p) < 2 ^ 32" using cap by (simp add: word_less_nat_alt)
  then have "unat (it_next_index t1) = Suc (unat (it_next_index (ps_tree p)))"
    using inc_append_next(1) [OF a1] unat_plus_one by auto
  then have "\<not> is_full t1" using cap by (simp add: is_full_iff)
  then obtain pos2 t2 where a2: "inc_append X t1 out2 = (Some pos2, t2)" by (rule inc_append_SomeE)
  show ?thesis using that a1 a2 by (simp add: pool_spend_effects_def)
qed

lemma pool_spend_effects_cases:
  assumes "pool_spend_effects X p nf out out2 fee = Some p'"
  obtains pos1 pos2 t1 t2 where "inc_append X (ps_tree p) out = (Some pos1, t1)" "inc_append X t1 out2 = (Some pos2, t2)"
    "p' = p\<lparr>ps_nullifiers := bset_insert (ps_nullifiers p) nf, ps_tree := t2,
            ps_total_shielded := if fee > 0 then saturating_sub (ps_total_shielded p) fee else ps_total_shielded p\<rparr>"
  using assms by (auto simp: pool_spend_effects_def split: option.splits prod.splits)

text \<open>The mandate leg of a shielded spend, once the read-only checks have passed.\<close>

definition mandate_leg :: "State \<Rightarrow> MandateId option \<Rightarrow> Amount \<Rightarrow> (unit, StateError, State) step" where
  "mandate_leg s mandate fee =
     (case mandate of None \<Rightarrow> (Ok (), s) | Some m \<Rightarrow> on_mandates s (spend (st_mandates s) m fee (st_time s)))"

lemma mandate_leg_clean: "clean_from s (mandate_leg s mandate fee)"
  by (auto simp: mandate_leg_def intro!: on_mandates_clean spend_clean split: option.split)

lemma mandate_leg_OkE:
  assumes "mandate_leg s mandate fee = (Ok u, s1)"
  obtains t where "s1 = s\<lparr>st_mandates := t\<rparr>"
    "(mandate = None \<and> t = st_mandates s) \<or> (\<exists>m. mandate = Some m \<and> spend (st_mandates s) m fee (st_time s) = (Ok (), t))"
  using assms by (auto simp: mandate_leg_def on_mandates_Ok_iff split: option.splits)

text \<open>The effects of an accepted shielded spend on the pool and the credited account.\<close>

definition spend_tail :: "'x state_env_scheme \<Rightarrow> State \<Rightarrow> PoolKey \<Rightarrow> AssetId option \<Rightarrow> H256 \<Rightarrow> H256 \<Rightarrow> H256 \<Rightarrow> Amount \<Rightarrow> AccountId option \<Rightarrow>
    (Event list, StateError, State) step" where
  "spend_tail X s1 key asset nf out out2 fee credit_to =
     (case pool_ref s1 key of
        None \<Rightarrow> (Panic, s1)
      | Some p \<Rightarrow>
          (case pool_spend_effects X p nf out out2 fee of
             None \<Rightarrow> (Panic, s1)
           | Some p' \<Rightarrow>
               let s2 = put_pool s1 key p'
               in if fee > 0
                  then (case (credit_to, asset) of
                          (Some to_acc, Some a) \<Rightarrow> (Ok [EvPoolSpent nf out out2 fee credit_to], credit s2 to_acc a fee)
                        | _ \<Rightarrow> (Panic, s2))
                  else (Ok [EvPoolSpent nf out out2 fee credit_to], s2)))"

lemma do_shielded_spend_alt:
  "do_shielded_spend X s snd_acc anchor nf out out2 fee credit_to mandate proof =
     (if fee > u64_max_amount then (Err PoolValueRange, s)
      else if fee > 0 \<and> credit_to = None then (Err PoolFeeNeedsCredit, s)
      else
        try_ro (spend_mandate_auth s snd_acc mandate fee) s (\<lambda>_.
        try_ro (ok_or (pool_key_of_anchor s anchor) PoolUnknownAnchor) s (\<lambda>key.
        if fee > 0 \<and> pool_asset s key = None then (Err PoolAssetMismatch, s)
        else
          try_ro (spend_mandate_asset s mandate (pool_asset s key)) s (\<lambda>_.
          try_ro (if fee > 0 then (case pool_asset s key of None \<Rightarrow> Panic | Some a \<Rightarrow> asset_gate s a None credit_to) else Ok ()) s (\<lambda>_.
          case pool_ref s key of
            None \<Rightarrow> (Panic, s)
          | Some pool \<Rightarrow>
              if bset_contains (ps_nullifiers pool) nf then (Err PoolDoubleSpend, s)
              else if \<not> has_capacity (ps_tree pool) 2 then (Err PoolFull, s)
              else if \<not> spend_proof_ok X s proof (expected_spend_public X anchor nf out out2 fee credit_to)
              then (Err PoolProofInvalid, s)
              else try_rw (mandate_leg s mandate fee) (\<lambda>_ s1. spend_tail X s1 key (pool_asset s key) nf out out2 fee credit_to))))))"
  unfolding do_shielded_spend_def spend_tail_def mandate_leg_def Let_def by (rule refl)

lemma pool_ref_mandates [simp]: "pool_ref (s\<lparr>st_mandates := t\<rparr>) key = pool_ref s key"
  by (simp add: pool_ref_def split: PoolKey.split)

lemma do_shielded_spend_clean:
  assumes "bmap_ok (st_pools s)"
  shows "clean_from s (do_shielded_spend X s snd_acc anchor nf out out2 fee credit_to mandate proof)"
proof -
  have tail: "clean_from s (try_rw (mandate_leg s mandate fee) (\<lambda>_ s1. spend_tail X s1 key (pool_asset s key) nf out out2 fee credit_to))"
    if ref: "pool_ref s key = Some pool" and cap: "has_capacity (ps_tree pool) 2"
      and cr: "\<not> (fee > 0 \<and> credit_to = None)" "\<not> (fee > 0 \<and> pool_asset s key = None)" for key pool
  proof (intro clean_from_try_rw mandate_leg_clean)
    fix u s1
    assume "mandate_leg s mandate fee = (Ok u, s1)"
    then obtain t where "s1 = s\<lparr>st_mandates := t\<rparr>" by (rule mandate_leg_OkE)
    moreover obtain p' where "pool_spend_effects X pool nf out out2 fee = Some p'"
      using pool_spend_effects_Some [OF cap] by blast
    ultimately show "clean_from s (spend_tail X s1 key (pool_asset s key) nf out out2 fee credit_to)"
      using ref cr by (auto simp: spend_tail_def Let_def)
  qed
  show ?thesis
    unfolding do_shielded_spend_alt
  proof (intro clean_from_try_ro clean_from_if)
    fix u key v w
    assume c: "\<not> (0 < fee \<and> credit_to = None)" "\<not> (0 < fee \<and> pool_asset s key = None)"
      and k: "ok_or (pool_key_of_anchor s anchor) PoolUnknownAnchor = Ok key"
    from k obtain pool where ref: "pool_ref s key = Some pool"
      using pool_key_of_anchor_ref [OF assms] by (metis ok_or_Ok_iff)
    show "clean_from s (case pool_ref s key of None \<Rightarrow> (Panic, s) | Some pool \<Rightarrow>
              if bset_contains (ps_nullifiers pool) nf then (Err PoolDoubleSpend, s)
              else if \<not> has_capacity (ps_tree pool) 2 then (Err PoolFull, s)
              else if \<not> spend_proof_ok X s proof (expected_spend_public X anchor nf out out2 fee credit_to)
              then (Err PoolProofInvalid, s)
              else try_rw (mandate_leg s mandate fee) (\<lambda>_ s1. spend_tail X s1 key (pool_asset s key) nf out out2 fee credit_to))"
      using ref tail [OF ref _ c] by auto
  qed (auto split: option.splits)
qed

lemma do_shielded_spend_OkE:
  assumes "do_shielded_spend X s snd_acc anchor nf out out2 fee credit_to mandate proof = (Ok ev, s')"
  obtains key pool t p' where "fee \<le> u64_max_amount" "spend_mandate_auth s snd_acc mandate fee = Ok ()"
    "pool_key_of_anchor s anchor = Some key" "spend_mandate_asset s mandate (pool_asset s key) = Ok ()"
    "pool_ref s key = Some pool" "\<not> bset_contains (ps_nullifiers pool) nf"
    "spend_proof_ok X s proof (expected_spend_public X anchor nf out out2 fee credit_to)"
    "(mandate = None \<and> t = st_mandates s) \<or> (\<exists>m. mandate = Some m \<and> spend (st_mandates s) m fee (st_time s) = (Ok (), t))"
    "pool_spend_effects X pool nf out out2 fee = Some p'"
    "(fee = 0 \<and> s' = put_pool (s\<lparr>st_mandates := t\<rparr>) key p') \<or>
     (\<exists>to_acc a. 0 < fee \<and> credit_to = Some to_acc \<and> pool_asset s key = Some a \<and> asset_gate s a None (Some to_acc) = Ok ()
        \<and> s' = credit (put_pool (s\<lparr>st_mandates := t\<rparr>) key p') to_acc a fee)"
proof -
  from assms obtain key where g: "fee \<le> u64_max_amount" "spend_mandate_auth s snd_acc mandate fee = Ok ()"
    "pool_key_of_anchor s anchor = Some key" "spend_mandate_asset s mandate (pool_asset s key) = Ok ()"
    and gate: "(if fee > 0 then (case pool_asset s key of None \<Rightarrow> Panic | Some a \<Rightarrow> asset_gate s a None credit_to) else Ok ()) = Ok ()"
    and rest: "(case pool_ref s key of None \<Rightarrow> (Panic, s) | Some pool \<Rightarrow>
              if bset_contains (ps_nullifiers pool) nf then (Err PoolDoubleSpend, s)
              else if \<not> has_capacity (ps_tree pool) 2 then (Err PoolFull, s)
              else if \<not> spend_proof_ok X s proof (expected_spend_public X anchor nf out out2 fee credit_to)
              then (Err PoolProofInvalid, s)
              else try_rw (mandate_leg s mandate fee) (\<lambda>_ s1. spend_tail X s1 key (pool_asset s key) nf out out2 fee credit_to)) = (Ok ev, s')"
    unfolding do_shielded_spend_alt by (auto simp: not_less elim!: try_ro_OkE split: if_splits)
  from rest obtain pool where p: "pool_ref s key = Some pool" "\<not> bset_contains (ps_nullifiers pool) nf"
    "spend_proof_ok X s proof (expected_spend_public X anchor nf out out2 fee credit_to)"
    and tl: "try_rw (mandate_leg s mandate fee) (\<lambda>_ s1. spend_tail X s1 key (pool_asset s key) nf out out2 fee credit_to) = (Ok ev, s')"
    by (auto split: option.splits if_splits)
  from tl obtain u s1 where leg: "mandate_leg s mandate fee = (Ok u, s1)"
    and st: "spend_tail X s1 key (pool_asset s key) nf out out2 fee credit_to = (Ok ev, s')" by (rule try_rw_OkE)
  from leg obtain t where t: "s1 = s\<lparr>st_mandates := t\<rparr>"
    "(mandate = None \<and> t = st_mandates s) \<or> (\<exists>m. mandate = Some m \<and> spend (st_mandates s) m fee (st_time s) = (Ok (), t))"
    by (rule mandate_leg_OkE)
  from st t(1) p(1) obtain p' where e: "pool_spend_effects X pool nf out out2 fee = Some p'"
    by (auto simp: spend_tail_def split: option.splits)
  have "(fee = 0 \<and> s' = put_pool s1 key p') \<or>
     (\<exists>to_acc a. 0 < fee \<and> credit_to = Some to_acc \<and> pool_asset s key = Some a \<and> asset_gate s a None (Some to_acc) = Ok ()
        \<and> s' = credit (put_pool s1 key p') to_acc a fee)"
    using st t(1) p(1) e gate
    by (cases "fee = 0") (auto simp: spend_tail_def Let_def word_neq_0_conv split: option.splits if_splits)
  with g p t e that show ?thesis by blast
qed

section \<open>Dispatch and the envelope\<close>

lemmas handlers_clean = do_transfer_clean do_account_create_clean do_mandate_create_clean do_mandate_spend_clean
  do_mandate_revoke_clean do_channel_open_clean do_channel_settle_clean do_channel_refund_clean do_mint_to_pool_clean
  do_asset_register_clean do_asset_mint_clean do_asset_burn_clean do_asset_freeze_clean do_asset_pause_clean

lemma dispatch_clean: "bmap_ok (st_pools s) \<Longrightarrow> clean_from s (dispatch X s snd_acc tx)"
  by (cases tx) (simp_all add: handlers_clean do_shielded_spend_clean)

lemmas handlers_OkE = do_transfer_OkE do_account_create_OkE do_mandate_create_OkE do_mandate_spend_OkE
  do_mandate_revoke_OkE do_channel_open_OkE do_channel_settle_OkE do_channel_refund_OkE do_mint_to_pool_OkE
  do_shielded_spend_OkE do_asset_register_OkE do_asset_mint_OkE do_asset_burn_OkE do_asset_freeze_OkE do_asset_pause_OkE

lemma put_pool_frame [simp]:
  "st_height (put_pool s k p) = st_height s" "st_time (put_pool s k p) = st_time s"
  "st_accounts (put_pool s k p) = st_accounts s" "st_balances (put_pool s k p) = st_balances s"
  "st_mandates (put_pool s k p) = st_mandates s" "st_root_funding (put_pool s k p) = st_root_funding s"
  "st_channels (put_pool s k p) = st_channels s" "st_assets (put_pool s k p) = st_assets s"
  "st_fee_asset (put_pool s k p) = st_fee_asset s" "st_fees_burned (put_pool s k p) = st_fees_burned s"
  "st_fee_micro (put_pool s k p) = st_fee_micro s" "st_fee_from (put_pool s k p) = st_fee_from s"
  by (auto simp: put_pool_def split: PoolKey.split)

lemma put_asset_frame [simp]:
  "st_height (put_asset s a i) = st_height s" "st_time (put_asset s a i) = st_time s"
  "st_accounts (put_asset s a i) = st_accounts s" "st_balances (put_asset s a i) = st_balances s"
  "st_mandates (put_asset s a i) = st_mandates s" "st_root_funding (put_asset s a i) = st_root_funding s"
  "st_channels (put_asset s a i) = st_channels s" "st_pool (put_asset s a i) = st_pool s" "st_pools (put_asset s a i) = st_pools s"
  "st_fee_asset (put_asset s a i) = st_fee_asset s" "st_fees_burned (put_asset s a i) = st_fees_burned s"
  "st_assets (put_asset s a i) = bmap_insert (st_assets s) a i"
  "st_fee_micro (put_asset s a i) = st_fee_micro s" "st_fee_from (put_asset s a i) = st_fee_from s"
  by (simp_all add: put_asset_def)

lemma with_account_frame [simp]:
  "st_height (with_account s j c) = st_height s" "st_time (with_account s j c) = st_time s"
  "st_balances (with_account s j c) = st_balances s" "st_mandates (with_account s j c) = st_mandates s"
  "st_root_funding (with_account s j c) = st_root_funding s" "st_channels (with_account s j c) = st_channels s"
  "st_pool (with_account s j c) = st_pool s" "st_pools (with_account s j c) = st_pools s"
  "st_assets (with_account s j c) = st_assets s" "st_fee_asset (with_account s j c) = st_fee_asset s"
  "st_fees_burned (with_account s j c) = st_fees_burned s"
  "st_accounts (with_account s j c) = bmap_insert (st_accounts s) j \<lparr>acc_auth_commit = c, acc_nonce = 0\<rparr>"
  "st_fee_micro (with_account s j c) = st_fee_micro s" "st_fee_from (with_account s j c) = st_fee_from s"
  by (simp_all add: with_account_def)

text \<open>No transaction body touches an existing account's key or nonce, the clock, or the fee policy.\<close>

lemma dispatch_frame:
  assumes "dispatch X s snd_acc tx = (Ok ev, s')"
  shows "bmap_get (st_accounts s) i = Some acc \<Longrightarrow> bmap_get (st_accounts s') i = Some acc"
    and "st_height s' = st_height s" and "st_time s' = st_time s" and "st_fee_asset s' = st_fee_asset s"
    and "st_fees_burned s' = st_fees_burned s" and "st_fee_micro s' = st_fee_micro s" and "st_fee_from s' = st_fee_from s"
  using assms by (cases tx; force elim!: handlers_OkE)+

lemma check_envelope_Ok:
  assumes "check_envelope X s stx pre = Ok ()"
  obtains acc where "bmap_get (st_accounts s) (stx_sender stx) = Some acc" "stx_nonce stx = acc_nonce acc"
    "pk_commit X (stx_lamport_pk stx) = acc_auth_commit acc"
    "case pre of Some v \<Rightarrow> v | None \<Rightarrow> verify_envelope X stx"
  using assms by (auto simp: check_envelope_def elim!: bind_ok_OkE split: if_splits)

end
