(* ===== verification/HK_Ledger.thy ===== *)
theory HK_Ledger
  imports HK_Handlers
begin

text \<open>
  Invariants of the ledger and their preservation by every transaction: well-formedness of the
  state (ordered maps, pools, channels whose escrow always covers what is left to settle) and the
  conservation of every registered asset (supply equals what accounts, channels and pools hold,
  plus what was burned, plus burned fees).
\<close>

section \<open>One transaction\<close>

definition fee_paid :: "State \<Rightarrow> SignedTx \<Rightarrow> State" where
  "fee_paid s stx = (if 0 < envelope_fee s then debited s (stx_sender stx) (st_fee_asset s) (envelope_fee s) else s)"

definition settled :: "State \<Rightarrow> Amount \<Rightarrow> SignedTx \<Rightarrow> Account \<Rightarrow> State" where
  "settled s fee stx acc =
     (let s1 = (if 0 < fee then s\<lparr>st_fees_burned := saturating_add (st_fees_burned s) fee\<rparr> else s)
      in s1\<lparr>st_accounts := bmap_insert (st_accounts s1) (stx_sender stx)
              \<lparr>acc_auth_commit = stx_next_auth stx, acc_nonce = acc_nonce acc + 1\<rparr>\<rparr>)"

lemma fee_paid_frame [simp]:
  "st_height (fee_paid s stx) = st_height s" "st_time (fee_paid s stx) = st_time s" "st_accounts (fee_paid s stx) = st_accounts s"
  "st_mandates (fee_paid s stx) = st_mandates s" "st_root_funding (fee_paid s stx) = st_root_funding s"
  "st_channels (fee_paid s stx) = st_channels s" "st_pool (fee_paid s stx) = st_pool s" "st_pools (fee_paid s stx) = st_pools s"
  "st_assets (fee_paid s stx) = st_assets s" "st_fee_asset (fee_paid s stx) = st_fee_asset s"
  "st_fees_burned (fee_paid s stx) = st_fees_burned s"
  by (simp_all add: fee_paid_def)

lemma fee_step:
  assumes "\<not> (0 < envelope_fee s \<and> balance s (stx_sender stx) (st_fee_asset s) < envelope_fee s)"
  shows "(if 0 < envelope_fee s then debit s (stx_sender stx) (st_fee_asset s) (envelope_fee s) else (Ok (), s)) = (Ok (), fee_paid s stx)"
  using assms by (auto simp: fee_paid_def debit_after_check)

text \<open>A refusal after the fee was taken gives it back exactly.\<close>

lemma fee_refund:
  assumes "\<not> (0 < envelope_fee s \<and> balance s (stx_sender stx) (st_fee_asset s) < envelope_fee s)"
  shows "(if 0 < envelope_fee s then credit (fee_paid s stx) (stx_sender stx) (st_fee_asset s) (envelope_fee s) else fee_paid s stx) = s"
  using assms by (auto simp: fee_paid_def not_less intro: credit_debited_restores)

lemma ratchet_Some:
  assumes "bmap_get (st_accounts s) (stx_sender stx) = Some acc"
  shows "ratchet (if 0 < fee then s\<lparr>st_fees_burned := saturating_add (st_fees_burned s) fee\<rparr> else s) stx = Some (settled s fee stx acc)"
  using assms by (auto simp: ratchet_def settled_def Let_def)

lemma apply_tx_at_unfold:
  "apply_tx_at X s stx pre =
     try_ro (check_envelope X s stx pre) s (\<lambda>_.
       if 0 < envelope_fee s \<and> balance s (stx_sender stx) (st_fee_asset s) < envelope_fee s
       then (Err (InsufficientFee (balance s (stx_sender stx) (st_fee_asset s)) (envelope_fee s)), s)
       else case dispatch X (fee_paid s stx) (stx_sender stx) (stx_payload stx) of
              (Err e, s2) \<Rightarrow> (Err e, if 0 < envelope_fee s then credit s2 (stx_sender stx) (st_fee_asset s) (envelope_fee s) else s2)
            | (Panic, s2) \<Rightarrow> (Panic, s2)
            | (Ok events, s2) \<Rightarrow>
                let s3 = (if 0 < envelope_fee s then s2\<lparr>st_fees_burned := saturating_add (st_fees_burned s2) (envelope_fee s)\<rparr> else s2)
                in case ratchet s3 stx of None \<Rightarrow> (Panic, s3) | Some s4 \<Rightarrow> (Ok events, s4))"
proof (cases "0 < envelope_fee s \<and> balance s (stx_sender stx) (st_fee_asset s) < envelope_fee s")
  case True
  then show ?thesis by (simp add: apply_tx_at_def Let_def)
next
  case False
  show ?thesis
    unfolding apply_tx_at_def Let_def fee_step [OF False] expect_rw_simps using False by (simp only: if_False)
qed

lemma apply_tx_at_clean:
  assumes "bmap_ok (st_pools s)"
  shows "clean_from s (apply_tx_at X s stx pre)"
  unfolding apply_tx_at_unfold
proof (intro clean_from_try_ro clean_from_if)
  fix u
  assume env: "check_envelope X s stx pre = Ok u"
    and fee: "\<not> (0 < envelope_fee s \<and> balance s (stx_sender stx) (st_fee_asset s) < envelope_fee s)"
  from env obtain acc where acc: "bmap_get (st_accounts s) (stx_sender stx) = Some acc"
    using check_envelope_Ok [of X s stx pre] by auto
  obtain r s2 where d: "dispatch X (fee_paid s stx) (stx_sender stx) (stx_payload stx) = (r, s2)" by fastforce
  have cl: "clean_from (fee_paid s stx) (r, s2)" using dispatch_clean [of "fee_paid s stx" X] assms d by (metis fee_paid_frame(8))
  show "clean_from s (case dispatch X (fee_paid s stx) (stx_sender stx) (stx_payload stx) of
              (Err e, s2) \<Rightarrow> (Err e, if 0 < envelope_fee s then credit s2 (stx_sender stx) (st_fee_asset s) (envelope_fee s) else s2)
            | (Panic, s2) \<Rightarrow> (Panic, s2)
            | (Ok events, s2) \<Rightarrow>
                let s3 = (if 0 < envelope_fee s then s2\<lparr>st_fees_burned := saturating_add (st_fees_burned s2) (envelope_fee s)\<rparr> else s2)
                in case ratchet s3 stx of None \<Rightarrow> (Panic, s3) | Some s4 \<Rightarrow> (Ok events, s4))"
  proof (cases r)
    case (Ok ev)
    have "bmap_get (st_accounts s2) (stx_sender stx) = Some acc"
      using dispatch_frame(1) [OF d [unfolded Ok]] acc by simp
    with Ok d show ?thesis by (simp add: Let_def ratchet_Some)
  next
    case (Err e)
    with cl have "s2 = fee_paid s stx" by simp
    with Err d fee_refund [OF fee] show ?thesis by simp
  next
    case Panic
    with cl show ?thesis by simp
  qed
qed simp_all

lemma apply_tx_at_OkE:
  assumes "apply_tx_at X s stx pre = (Ok ev, s')"
  obtains acc s2 where "check_envelope X s stx pre = Ok ()" "bmap_get (st_accounts s) (stx_sender stx) = Some acc"
    "stx_nonce stx = acc_nonce acc"
    "0 < envelope_fee s \<Longrightarrow> envelope_fee s \<le> balance s (stx_sender stx) (st_fee_asset s)"
    "dispatch X (fee_paid s stx) (stx_sender stx) (stx_payload stx) = (Ok ev, s2)" "s' = settled s2 (envelope_fee s) stx acc"
proof -
  from assms have env: "check_envelope X s stx pre = Ok ()"
    and fee: "\<not> (0 < envelope_fee s \<and> balance s (stx_sender stx) (st_fee_asset s) < envelope_fee s)"
    unfolding apply_tx_at_unfold by (auto elim!: try_ro_OkE split: if_splits)
  from env obtain acc where acc: "bmap_get (st_accounts s) (stx_sender stx) = Some acc" "stx_nonce stx = acc_nonce acc"
    by (rule check_envelope_Ok)
  obtain r s2 where d: "dispatch X (fee_paid s stx) (stx_sender stx) (stx_payload stx) = (r, s2)" by fastforce
  have r: "r = Ok ev" using assms env fee d unfolding apply_tx_at_unfold
    by (cases r) (auto simp: Let_def split: option.splits if_splits)
  have "bmap_get (st_accounts s2) (stx_sender stx) = Some acc"
    using dispatch_frame(1) [OF d [unfolded r]] acc by simp
  then have s': "s' = settled s2 (envelope_fee s) stx acc"
    using assms env fee d r unfolding apply_tx_at_unfold by (simp add: Let_def ratchet_Some)
  show ?thesis by (rule that [OF env acc _ _ s']) (use fee d r in \<open>auto simp: not_less\<close>)
qed

section \<open>Well-formed states\<close>

definition pool_ok :: "'x hash_env_scheme \<Rightarrow> PoolState \<Rightarrow> bool" where
  "pool_ok X p \<longleftrightarrow> length (it_frontier (ps_tree p)) = TREE_DEPTH \<and> it_empty (ps_tree p) = empty_roots X
     \<and> anchors_ok p \<and> bset_ok (ps_nullifiers p)"

text \<open>An open channel holds exactly the price of the steps not yet settled; a refunded one holds
  nothing.\<close>

definition channel_ok :: "Channel \<Rightarrow> bool" where
  "channel_ok ch \<longleftrightarrow>
     (if ch_refunded ch then ch_escrow_remaining ch = 0
      else cs_highest_step_settled (ch_state ch) \<le> cs_max_steps (ch_state ch)
        \<and> unat (ch_escrow_remaining ch)
            = unat (cs_unit_price (ch_state ch)) * (unat (cs_max_steps (ch_state ch)) - unat (cs_highest_step_settled (ch_state ch))))"

definition state_ok :: "'x state_env_scheme \<Rightarrow> State \<Rightarrow> bool" where
  "state_ok X s \<longleftrightarrow>
     bmap_ok (st_accounts s) \<and> bmap_ok (st_balances s) \<and> bmap_ok (st_root_funding s) \<and> bmap_ok (st_channels s)
     \<and> bmap_ok (st_assets s) \<and> bmap_ok (st_pools s) \<and> tree_wf (st_mandates s)
     \<and> pool_ok X (st_pool s) \<and> bmap_all (\<lambda>_. pool_ok X) (st_pools s) \<and> bmap_all (\<lambda>_. channel_ok) (st_channels s)"

lemma pool_default_ok: "pool_ok X (pool_default X)"
  by (simp add: pool_ok_def pool_default_def inc_new_def anchors_ok_def bset_ok_def)

lemma pool_ok_seal: "pool_ok X p \<Longrightarrow> pool_ok X (seal_anchor X p)"
  by (simp add: pool_ok_def seal_anchor_ok)

lemma pool_ok_append:
  assumes "pool_ok X p" and "inc_append X (ps_tree p) c = (Some pos, t)"
  shows "pool_ok X ((pin_asset p a)\<lparr>ps_tree := t, ps_total_shielded := v\<rparr>)"
  using assms inc_append_next(4,5) [OF assms(2)] by (simp add: pool_ok_def anchors_ok_def)

lemma pool_ok_spend:
  assumes "pool_ok X p" and "pool_spend_effects X p nf out out2 fee = Some p'"
  shows "pool_ok X p'"
  using assms(2)
proof (rule pool_spend_effects_cases)
  fix pos1 pos2 t1 t2
  assume a1: "inc_append X (ps_tree p) out = (Some pos1, t1)" and a2: "inc_append X t1 out2 = (Some pos2, t2)"
    and "p' = p\<lparr>ps_nullifiers := bset_insert (ps_nullifiers p) nf, ps_tree := t2,
            ps_total_shielded := if fee > 0 then saturating_sub (ps_total_shielded p) fee else ps_total_shielded p\<rparr>"
  then show ?thesis
    using assms(1) inc_append_next(4,5) [OF a1] inc_append_next(4,5) [OF a2] by (simp add: pool_ok_def anchors_ok_def)
qed

lemma mint_target_ok:
  assumes "pool_ok X (st_pool s)" and "bmap_all (\<lambda>_. pool_ok X) (st_pools s)"
  shows "pool_ok X (mint_target X s key)"
proof -
  have "pool_ok X ((pool_default X)\<lparr>ps_version := v, ps_asset := Some a\<rparr>)" for v a
    using pool_default_ok [of X] by (simp add: pool_ok_def anchors_ok_def)
  then show ?thesis
    using assms by (auto simp: mint_target_def new_asset_pool_def pool_ok_seal split: PoolKey.split option.split dest: bmap_all_get)
qed

lemma opened_channel_ok:
  assumes "checked_mul price (u32_as_u128 steps) = Some deposit"
  shows "channel_ok (opened_channel i payer payee a m t price steps expiry deposit)"
  using assms by (auto simp: channel_ok_def opened_channel_def checked_mul_Some unat_mult_no_wrap)

lemma settle_amounts:
  assumes "channel_ok ch" "\<not> ch_refunded ch" "cs_highest_step_settled (ch_state ch) < k" "k \<le> cs_max_steps (ch_state ch)"
    and "checked_mul (cs_unit_price (ch_state ch)) (u64_as_u128 (k - cs_highest_step_settled (ch_state ch))) = Some paid"
  shows "unat paid = unat (cs_unit_price (ch_state ch)) * (unat k - unat (cs_highest_step_settled (ch_state ch)))"
    and "unat (ch_escrow_remaining ch - paid) + unat paid = unat (ch_escrow_remaining ch)"
    and "unat (ch_escrow_remaining ch - paid) = unat (cs_unit_price (ch_state ch)) * (unat (cs_max_steps (ch_state ch)) - unat k)"
proof -
  let ?p = "unat (cs_unit_price (ch_state ch))" and ?h = "unat (cs_highest_step_settled (ch_state ch))"
  let ?m = "unat (cs_max_steps (ch_state ch))"
  have ord: "?h < unat k" "unat k \<le> ?m" using assms(3,4) by (simp_all add: word_less_nat_alt word_le_nat_alt)
  have "unat (k - cs_highest_step_settled (ch_state ch)) = unat k - ?h" using assms(3) by (intro unat_sub less_imp_le)
  then show paid: "unat paid = ?p * (unat k - ?h)"
    using assms(5) by (auto simp: checked_mul_Some unat_mult_no_wrap)
  have esc: "unat (ch_escrow_remaining ch) = ?p * (?m - ?h)" using assms(1,2) by (simp add: channel_ok_def)
  have split: "?p * (?m - ?h) = ?p * (unat k - ?h) + ?p * (?m - unat k)" using ord by (simp flip: distrib_left)
  then have le: "paid \<le> ch_escrow_remaining ch" using esc paid by (simp add: word_le_nat_alt)
  then have sub: "unat (ch_escrow_remaining ch - paid) = unat (ch_escrow_remaining ch) - unat paid" by (rule unat_sub)
  show "unat (ch_escrow_remaining ch - paid) + unat paid = unat (ch_escrow_remaining ch)"
    using sub le by (simp add: word_le_nat_alt)
  show "unat (ch_escrow_remaining ch - paid) = ?p * (?m - unat k)" using sub esc split paid by simp
qed

lemma settled_channel_ok:
  assumes "channel_ok ch" "\<not> ch_refunded ch" "cs_highest_step_settled (ch_state ch) < k" "k \<le> cs_max_steps (ch_state ch)"
    and "checked_mul (cs_unit_price (ch_state ch)) (u64_as_u128 (k - cs_highest_step_settled (ch_state ch))) = Some paid"
  shows "channel_ok (ch\<lparr>ch_state := (ch_state ch)\<lparr>cs_highest_step_settled := k\<rparr>, ch_escrow_remaining := ch_escrow_remaining ch - paid\<rparr>)"
  using settle_amounts(3) [OF assms] assms by (simp add: channel_ok_def)

lemma tree_wf_ops:
  "tree_wf t \<Longrightarrow> spend t leaf x now = (Ok (), t') \<Longrightarrow> tree_wf t'"
  "tree_wf t \<Longrightarrow> revoke t i = (Ok (), t') \<Longrightarrow> tree_wf t'"
  "tree_wf t \<Longrightarrow> tree_get t (mn_id n) = None \<Longrightarrow> tree_insert t n = (Ok (), t') \<Longrightarrow> tree_wf t'"
  "tree_wf t \<Longrightarrow> tree_get t (mn_id n) = None \<Longrightarrow> insert_asset_bound t n = (Ok (), t') \<Longrightarrow> tree_wf t'"
  by (blast intro: tree_step_wf tree_step.intros)+

lemma bal_maps_ok [simp]:
  "bmap_ok (st_balances s) \<Longrightarrow> bmap_ok (st_balances (debited s i a x))"
  "bmap_ok (st_balances s) \<Longrightarrow> bmap_ok (st_balances (credit s i a x))"
  by (simp_all add: debited_def credit_def Let_def)

lemma state_ok_debited [simp]: "state_ok X s \<Longrightarrow> state_ok X (debited s i a x)"
  by (simp add: state_ok_def)

lemma state_ok_credit [simp]: "state_ok X s \<Longrightarrow> state_ok X (credit s i a x)"
  by (simp add: state_ok_def)

lemma state_ok_put_pool: "state_ok X s \<Longrightarrow> pool_ok X p \<Longrightarrow> state_ok X (put_pool s key p)"
  by (auto simp: state_ok_def put_pool_def bmap_all_insert split: PoolKey.split)

lemma state_ok_put_asset [simp]: "state_ok X s \<Longrightarrow> state_ok X (put_asset s a i)"
  by (simp add: state_ok_def)

lemma state_ok_with_account [simp]: "state_ok X s \<Longrightarrow> state_ok X (with_account s i c)"
  by (simp add: state_ok_def)

lemma state_ok_mandates [simp]: "state_ok X s \<Longrightarrow> tree_wf t \<Longrightarrow> state_ok X (s\<lparr>st_mandates := t\<rparr>)"
  by (simp add: state_ok_def)

lemma state_ok_channel:
  "state_ok X s \<Longrightarrow> channel_ok ch \<Longrightarrow> state_ok X (s\<lparr>st_channels := bmap_insert (st_channels s) i ch\<rparr>)"
  by (simp add: state_ok_def bmap_all_insert)

lemma state_okD:
  assumes "state_ok X s"
  shows "bmap_ok (st_pools s)" "tree_wf (st_mandates s)" "pool_ok X (st_pool s)" "bmap_all (\<lambda>_. pool_ok X) (st_pools s)"
    "bmap_get (st_channels s) i = Some ch \<Longrightarrow> channel_ok ch" "pool_ref s key = Some p \<Longrightarrow> pool_ok X p"
  using assms bmap_all_get [of "\<lambda>_. pool_ok X" "st_pools s"]
  by (auto simp: state_ok_def pool_ref_def dest: bmap_all_get split: PoolKey.splits)

lemma dispatch_state_ok:
  assumes ok: "state_ok X s" and d: "dispatch X s snd_acc tx = (Ok ev, s')"
  shows "state_ok X s'"
proof (cases tx)
  case (MandateCreate i parent holder a rate bmax ptx init expiry tier)
  with d have "do_mandate_create s snd_acc i parent holder a rate bmax ptx init expiry tier = (Ok ev, s')" by simp
  then show ?thesis
  proof (rule do_mandate_create_OkE)
    fix node t
    assume fresh: "tree_get (st_mandates s) i = None" "mn_id node = i"
      and ins: "(if st_height s \<ge> st_mandate_asset_from s then insert_asset_bound (st_mandates s) node
          else tree_insert (st_mandates s) node) = (Ok (), t)"
      and s': "s' = s\<lparr>st_mandates := t, st_root_funding :=
        if parent = None then bmap_insert (st_root_funding s) i snd_acc else st_root_funding s\<rparr>"
    have "tree_wf t" using tree_wf_ops(3,4) [of "st_mandates s" node t] state_okD(2) [OF ok] fresh ins by (auto split: if_splits)
    then show ?thesis using ok s' by (simp add: state_ok_def)
  qed
next
  case (MandateSpend leaf to_acc x)
  with d have "do_mandate_spend s snd_acc leaf to_acc x = (Ok ev, s')" by simp
  then show ?thesis
    by (rule do_mandate_spend_OkE) (use ok tree_wf_ops(1) [OF state_okD(2) [OF ok]] in auto)
next
  case (MandateRevoke target)
  with d have "do_mandate_revoke s snd_acc target = (Ok ev, s')" by simp
  then show ?thesis
    by (rule do_mandate_revoke_OkE) (use ok tree_wf_ops(2) [OF state_okD(2) [OF ok]] in auto)
next
  case (ChannelOpen i m payee a t price steps expiry)
  with d have "do_channel_open X s snd_acc i m payee a t price steps expiry = (Ok ev, s')" by simp
  then show ?thesis
  proof (rule do_channel_open_OkE)
    fix deposit node funder tr
    assume dep: "checked_mul price (u32_as_u128 steps) = Some deposit" and sp: "spend (st_mandates s) m deposit (st_time s) = (Ok (), tr)"
      and s': "s' = (debited (s\<lparr>st_mandates := tr\<rparr>) funder a deposit)
        \<lparr>st_channels := bmap_insert (st_channels s) i (opened_channel i snd_acc payee a m t price steps expiry deposit)\<rparr>"
    have "state_ok X (debited (s\<lparr>st_mandates := tr\<rparr>) funder a deposit)"
      using ok tree_wf_ops(1) [OF state_okD(2) [OF ok] sp] by simp
    from state_ok_channel [OF this opened_channel_ok [OF dep]] show ?thesis by (simp add: s')
  qed
next
  case (ChannelSettle i w k)
  with d have "do_channel_settle X s i w k = (Ok ev, s')" by simp
  then show ?thesis
    by (rule do_channel_settle_OkE) (auto intro!: state_ok_credit state_ok_channel [OF ok] settled_channel_ok dest: state_okD(5) [OF ok])
next
  case (ChannelRefund i)
  with d ok show ?thesis
    by (auto elim!: do_channel_refund_OkE intro!: state_ok_credit state_ok_channel simp: channel_ok_def)
next
  case (MintToPool a v c pf ct)
  with d have "do_mint_to_pool X s snd_acc a v c pf = (Ok ev, s')" by simp
  then show ?thesis
    by (rule do_mint_to_pool_OkE)
      (use ok in \<open>auto intro!: state_ok_put_pool pool_ok_append mint_target_ok state_okD(3,4)\<close>)
next
  case (ShieldedSpend anchor nf out out2 fee credit_to mandate pf ct ct2)
  with d have "do_shielded_spend X s snd_acc anchor nf out out2 fee credit_to mandate pf = (Ok ev, s')" by simp
  then show ?thesis
  proof (rule do_shielded_spend_OkE)
    fix key pool t p'
    assume ref: "pool_ref s key = Some pool" and e: "pool_spend_effects X pool nf out out2 fee = Some p'"
      and t: "(mandate = None \<and> t = st_mandates s) \<or> (\<exists>m. mandate = Some m \<and> spend (st_mandates s) m fee (st_time s) = (Ok (), t))"
      and s': "(fee = 0 \<and> s' = put_pool (s\<lparr>st_mandates := t\<rparr>) key p') \<or>
       (\<exists>to_acc a. 0 < fee \<and> credit_to = Some to_acc \<and> pool_asset s key = Some a \<and> asset_gate s a None (Some to_acc) = Ok ()
        \<and> s' = credit (put_pool (s\<lparr>st_mandates := t\<rparr>) key p') to_acc a fee)"
    have "tree_wf t" using t tree_wf_ops(1) [OF state_okD(2) [OF ok]] state_okD(2) [OF ok] by auto
    moreover have "pool_ok X p'" using pool_ok_spend [OF _ e] state_okD(6) [OF ok ref] by simp
    ultimately show ?thesis using s' state_ok_put_pool [of X "s\<lparr>st_mandates := t\<rparr>" p' key] ok by auto
  qed
qed (use d ok in \<open>auto elim!: handlers_OkE\<close>)

end
