(* ===== verification/HK_Conservation.thy ===== *)
theory HK_Conservation
  imports HK_Ledger
begin

text \<open>
  Conservation of registered assets (invariant I5' of the source): the sum of what accounts,
  channels and pools hold, plus what was burned, plus the burned fees of the fee asset, is the
  supply. The sums are natural numbers, so where the invariant holds no saturating operation
  saturates. It is stated for one asset at a time, and rests on the soundness of the proofs of
  spends out of the pools of that asset.
\<close>

section \<open>What an asset's holders hold\<close>

definition bal_of :: "AssetId \<Rightarrow> State \<Rightarrow> nat" where
  "bal_of b s = bmap_sum (\<lambda>k v. if snd k = b then unat v else 0) (st_balances s)"

definition esc_of :: "AssetId \<Rightarrow> State \<Rightarrow> nat" where
  "esc_of b s = bmap_sum (\<lambda>_ ch. if cs_asset (ch_state ch) = b then unat (ch_escrow_remaining ch) else 0) (st_channels s)"

definition pool_of :: "AssetId \<Rightarrow> State \<Rightarrow> nat" where
  "pool_of b s = (if ps_asset (st_pool s) = Some b then unat (ps_total_shielded (st_pool s)) else 0)
     + (case bmap_get (st_pools s) b of Some p \<Rightarrow> unat (ps_total_shielded p) | None \<Rightarrow> 0)"

definition held :: "AssetId \<Rightarrow> State \<Rightarrow> nat" where
  "held b s = bal_of b s + esc_of b s + pool_of b s"

definition fees_of :: "AssetId \<Rightarrow> State \<Rightarrow> nat" where
  "fees_of b s = (if b = st_fee_asset s then unat (st_fees_burned s) else 0)"

definition supply_of :: "AssetId \<Rightarrow> State \<Rightarrow> nat" where
  "supply_of b s = (case bmap_get (st_assets s) b of Some info \<Rightarrow> unat (ai_supply info) | None \<Rightarrow> 0)"

definition burned_of :: "AssetId \<Rightarrow> State \<Rightarrow> nat" where
  "burned_of b s = (case bmap_get (st_assets s) b of Some info \<Rightarrow> unat (ai_burned info) | None \<Rightarrow> 0)"

text \<open>Conservation of one asset, up to an amount of it that is in flight, the fee of the running transaction. An asset that is
  not registered has no supply, so nobody holds it; an unpinned legacy pool is empty.\<close>

definition conserved_but :: "AssetId \<Rightarrow> nat \<Rightarrow> State \<Rightarrow> bool" where
  "conserved_but q d s \<longleftrightarrow> held q s + burned_of q s + fees_of q s + d = supply_of q s
     \<and> (ps_asset (st_pool s) = None \<longrightarrow> ps_total_shielded (st_pool s) = 0)"

abbreviation conserved :: "AssetId \<Rightarrow> State \<Rightarrow> bool" where
  "conserved q \<equiv> conserved_but q 0"

lemma unat_amount_lt [simp]: "unat (x :: Amount) < 2 ^ 128"
  using unsigned_less [of x] by simp

lemma supply_of_lt: "supply_of b s < 2 ^ 128"
  by (simp add: supply_of_def split: option.split)

lemma registered [simp]:
  "bmap_get (st_assets s) b = Some info \<Longrightarrow> supply_of b s = unat (ai_supply info)"
  "bmap_get (st_assets s) b = Some info \<Longrightarrow> burned_of b s = unat (ai_burned info)"
  by (simp_all add: supply_of_def burned_of_def)

lemma conserved_butD:
  assumes "conserved_but q d s"
  shows "held q s + burned_of q s + fees_of q s + d = supply_of q s" "held q s < 2 ^ 128"
proof -
  show eq: "held q s + burned_of q s + fees_of q s + d = supply_of q s"
    using assms by (simp add: conserved_but_def)
  show "held q s < 2 ^ 128" using eq supply_of_lt [of q s] by linarith
qed

section \<open>How the sums move\<close>

lemma bal_of_entry: "unat (balance s i b) \<le> bal_of b s"
  using bmap_sum_ge [of "st_balances s" "(i, b)" _ "\<lambda>k v. if snd k = b then unat v else 0"]
  by (auto simp: balance_def bal_of_def split: option.split)

lemma bal_of_put:
  "bal_of b (s\<lparr>st_balances := bmap_insert (st_balances s) (i, a) v\<rparr>) + (if b = a then unat (balance s i a) else 0)
    = bal_of b s + (if b = a then unat v else 0)"
  using bmap_sum_insert [of "\<lambda>k v. if snd k = b then unat v else 0" "st_balances s" "(i, a)" v]
  by (auto simp: bal_of_def balance_def split: option.splits)

lemma bal_of_debited:
  assumes "x \<le> balance s i a"
  shows "bal_of b (debited s i a x) + (if b = a then unat x else 0) = bal_of b s"
proof -
  have "unat (balance s i a - x) + unat x = unat (balance s i a)"
    using assms by (simp add: unat_sub word_le_nat_alt)
  then show ?thesis using bal_of_put [of b s i a "balance s i a - x"] by (auto simp: debited_def)
qed

lemma bal_of_credit:
  assumes "b = a \<Longrightarrow> bal_of a s + unat x < 2 ^ 128"
  shows "bal_of b (credit s i a x) = bal_of b s + (if b = a then unat x else 0)"
proof -
  have credit: "credit s i a x = s\<lparr>st_balances := bmap_insert (st_balances s) (i, a) (saturating_add (balance s i a) x)\<rparr>"
    by (simp add: credit_def balance_def Let_def)
  have "unat (saturating_add (balance s i a) x) = unat (balance s i a) + unat x" if "b = a"
    using assms [OF that] bal_of_entry [of s i a] by (simp add: unat_saturating_add)
  then show ?thesis
    unfolding credit using bal_of_put [of b s i a "saturating_add (balance s i a) x"] by (auto split: if_splits)
qed

lemma sums_frame [simp]:
  "esc_of b (debited s i a x) = esc_of b s" "pool_of b (debited s i a x) = pool_of b s"
  "esc_of b (credit s i a x) = esc_of b s" "pool_of b (credit s i a x) = pool_of b s"
  "fees_of b (debited s i a x) = fees_of b s" "fees_of b (credit s i a x) = fees_of b s"
  "bal_of b (put_asset s a info) = bal_of b s" "esc_of b (put_asset s a info) = esc_of b s"
  "pool_of b (put_asset s a info) = pool_of b s" "fees_of b (put_asset s a info) = fees_of b s"
  "bal_of b (put_pool s k p) = bal_of b s" "esc_of b (put_pool s k p) = esc_of b s" "fees_of b (put_pool s k p) = fees_of b s"
  "bal_of b (with_account s j c) = bal_of b s" "esc_of b (with_account s j c) = esc_of b s"
  "pool_of b (with_account s j c) = pool_of b s" "fees_of b (with_account s j c) = fees_of b s"
  by (simp_all add: esc_of_def pool_of_def fees_of_def bal_of_def)

lemma sums_cong:
  "st_balances s = st_balances s' \<Longrightarrow> bal_of b s = bal_of b s'"
  "st_channels s = st_channels s' \<Longrightarrow> esc_of b s = esc_of b s'"
  "st_pool s = st_pool s' \<Longrightarrow> st_pools s = st_pools s' \<Longrightarrow> pool_of b s = pool_of b s'"
  "st_fee_asset s = st_fee_asset s' \<Longrightarrow> st_fees_burned s = st_fees_burned s' \<Longrightarrow> fees_of b s = fees_of b s'"
  by (simp_all add: bal_of_def esc_of_def pool_of_def fees_of_def)

lemma held_cong:
  "st_balances s = st_balances s' \<Longrightarrow> st_channels s = st_channels s' \<Longrightarrow> st_pool s = st_pool s' \<Longrightarrow> st_pools s = st_pools s' \<Longrightarrow>
    held b s = held b s'"
  by (simp add: held_def bal_of_def esc_of_def pool_of_def)

text \<open>Moving money between accounts keeps the total of every asset that cannot overflow.\<close>

lemma held_debited: "x \<le> balance s i a \<Longrightarrow> held b (debited s i a x) + (if b = a then unat x else 0) = held b s"
  using bal_of_debited [of x s i a b] by (simp add: held_def)

lemma held_credit: "(b = a \<Longrightarrow> held a s + unat x < 2 ^ 128) \<Longrightarrow> held b (credit s i a x) = held b s + (if b = a then unat x else 0)"
  using bal_of_credit [of b a s x i] by (auto simp: held_def)

lemma held_channel_put:
  "held b (s\<lparr>st_channels := bmap_insert (st_channels s) i ch\<rparr>)
     + (case bmap_get (st_channels s) i of None \<Rightarrow> 0 | Some old \<Rightarrow> if cs_asset (ch_state old) = b then unat (ch_escrow_remaining old) else 0)
   = held b s + (if cs_asset (ch_state ch) = b then unat (ch_escrow_remaining ch) else 0)"
  using bmap_sum_insert [of "\<lambda>_ ch. if cs_asset (ch_state ch) = b then unat (ch_escrow_remaining ch) else 0" "st_channels s" i ch]
  by (simp add: held_def esc_of_def bal_of_def pool_of_def split: option.splits)

section \<open>Backed unshieldings\<close>

text \<open>What the ledger relies on from the proof system: a spend whose proof verifies takes no more out of a pool of the asset than was shielded into it.\<close>

fun backed_spend :: "AssetId \<Rightarrow> State \<Rightarrow> Tx \<Rightarrow> bool" where
  "backed_spend q s (ShieldedSpend anchor _ _ _ fee _ _ _ _ _) =
     (case pool_key_of_anchor s anchor of
        None \<Rightarrow> True
      | Some key \<Rightarrow> pool_asset s key = Some q \<longrightarrow> (case pool_ref s key of None \<Rightarrow> True | Some p \<Rightarrow> fee \<le> ps_total_shielded p))"
| "backed_spend q s _ = True"

section \<open>Every handler conserves\<close>

lemma conserved_same_assets:
  assumes "conserved_but q d s" and "st_assets s' = st_assets s" and "st_fee_asset s' = st_fee_asset s" and "st_fees_burned s' = st_fees_burned s"
    and "ps_asset (st_pool s') = None \<Longrightarrow> ps_total_shielded (st_pool s') = 0"
    and "held q s < 2 ^ 128 \<Longrightarrow> held q s' = held q s"
  shows "conserved_but q d s'"
proof -
  have "held q s' = held q s" using assms(6) conserved_butD(2) [OF assms(1)] by simp
  moreover have "fees_of q s' = fees_of q s" by (rule sums_cong(4) [OF assms(3,4)])
  moreover have "supply_of q s' = supply_of q s" "burned_of q s' = burned_of q s" by (simp_all add: supply_of_def burned_of_def assms(2))
  ultimately show ?thesis using conserved_butD(1) [OF assms(1)] assms(5) by (simp add: conserved_but_def)
qed

lemma conserved_unpinned: "conserved_but q d s \<Longrightarrow> ps_asset (st_pool s) = None \<Longrightarrow> ps_total_shielded (st_pool s) = 0"
  by (simp add: conserved_but_def)

lemma held_move:
  assumes "x \<le> balance s f a" and "held b s < 2 ^ 128"
  shows "held b (credit (debited s f a x) t a x) = held b s"
proof -
  have d: "held b (debited s f a x) + (if b = a then unat x else 0) = held b s" by (rule held_debited [OF assms(1)])
  then show ?thesis using held_credit [of b a "debited s f a x" x t] assms(2) by (auto split: if_splits)
qed

lemma transfer_conserves:
  assumes "conserved_but q d s" and "do_transfer s f t a x = (Ok ev, s')"
  shows "conserved_but q d s'"
  using assms(2)
  by (rule do_transfer_OkE)
    (auto intro!: conserved_same_assets [OF assms(1)] held_move conserved_unpinned [OF assms(1)])

lemma account_create_conserves:
  assumes "conserved_but q d s" and "do_account_create X s snd_acc i c a x = (Ok ev, s')"
  shows "conserved_but q d s'"
  using assms(2)
proof (rule do_account_create_OkE)
  assume "s' = with_account s i c"
  then show ?thesis
    by (auto intro!: conserved_same_assets [OF assms(1)] held_cong conserved_unpinned [OF assms(1)])
next
  assume x: "x \<le> balance s snd_acc a" and s': "s' = credit (with_account (debited s snd_acc a x) i c) i a x"
  have "held b s' = held b s" if "held b s < 2 ^ 128" for b
  proof -
    have eq: "held b (with_account (debited s snd_acc a x) i c) = held b (debited s snd_acc a x)" by (rule held_cong) simp_all
    show ?thesis
      using held_credit [of b a "with_account (debited s snd_acc a x) i c" x i] held_debited [OF x, of b] that eq
      by (auto simp: s' split: if_splits)
  qed
  then show ?thesis
    by (intro conserved_same_assets [OF assms(1)]) (auto simp: s' dest: conserved_unpinned [OF assms(1)])
qed

lemma mandates_held [simp]: "held b (s\<lparr>st_mandates := t\<rparr>) = held b s"
  by (rule held_cong) simp_all

lemma mandate_create_conserves:
  assumes "conserved_but q d s" and "do_mandate_create s snd_acc i parent holder a rate bmax ptx init expiry tier = (Ok ev, s')"
  shows "conserved_but q d s'"
  using assms(2)
  by (rule do_mandate_create_OkE)
    (auto intro!: conserved_same_assets [OF assms(1)] held_cong conserved_unpinned [OF assms(1)])

lemma mandate_spend_conserves:
  assumes "conserved_but q d s" and "do_mandate_spend s snd_acc leaf to_acc x = (Ok ev, s')"
  shows "conserved_but q d s'"
  using assms(2)
proof (rule do_mandate_spend_OkE)
  fix node funder m
  assume x: "x \<le> balance s funder (mn_asset node)"
    and s': "s' = credit (debited (s\<lparr>st_mandates := m\<rparr>) funder (mn_asset node) x) to_acc (mn_asset node) x"
  have "x \<le> balance (s\<lparr>st_mandates := m\<rparr>) funder (mn_asset node)" using x by (simp add: balance_def)
  from held_move [OF this] show ?thesis
    by (intro conserved_same_assets [OF assms(1)]) (auto simp: s' dest: conserved_unpinned [OF assms(1)])
qed

lemma mandate_revoke_conserves:
  assumes "conserved_but q d s" and "do_mandate_revoke s snd_acc target = (Ok ev, s')"
  shows "conserved_but q d s'"
  using assms(2)
  by (rule do_mandate_revoke_OkE) (auto intro!: conserved_same_assets [OF assms(1)] conserved_unpinned [OF assms(1)])

lemma channel_open_conserves:
  assumes "conserved_but q d s" and "do_channel_open X s snd_acc i m payee a t price steps expiry = (Ok ev, s')"
  shows "conserved_but q d s'"
  using assms(2)
proof (rule do_channel_open_OkE)
  fix deposit node funder tr
  let ?s1 = "debited (s\<lparr>st_mandates := tr\<rparr>) funder a deposit"
  let ?ch = "opened_channel i snd_acc payee a m t price steps expiry deposit"
  assume none: "bmap_get (st_channels s) i = None" and dep: "deposit \<le> balance s funder a"
    and s': "s' = ?s1\<lparr>st_channels := bmap_insert (st_channels s) i ?ch\<rparr>"
  have "deposit \<le> balance (s\<lparr>st_mandates := tr\<rparr>) funder a" using dep by (simp add: balance_def)
  then have "held b s' = held b s" for b
    using held_debited [of deposit "s\<lparr>st_mandates := tr\<rparr>" funder a b] held_channel_put [of b ?s1 i ?ch] none
    by (auto simp: s' opened_channel_def split: if_splits)
  then show ?thesis
    by (intro conserved_same_assets [OF assms(1)]) (auto simp: s' dest: conserved_unpinned [OF assms(1)])
qed

lemma channel_settle_conserves:
  assumes "conserved_but q d s" and "state_ok X s" and "do_channel_settle X s i w k = (Ok ev, s')"
  shows "conserved_but q d s'"
  using assms(3)
proof (rule do_channel_settle_OkE)
  fix ch :: Channel and paid
  let ?a = "cs_asset (ch_state ch)"
  let ?ch = "ch\<lparr>ch_state := (ch_state ch)\<lparr>cs_highest_step_settled := u32_as_u64 k\<rparr>, ch_escrow_remaining := ch_escrow_remaining ch - paid\<rparr>"
  let ?s1 = "s\<lparr>st_channels := bmap_insert (st_channels s) i ?ch\<rparr>"
  assume ch: "bmap_get (st_channels s) i = Some ch" and q: "\<not> ch_refunded ch"
    "cs_highest_step_settled (ch_state ch) < u32_as_u64 k" "u32_as_u64 k \<le> cs_max_steps (ch_state ch)"
    "checked_mul (cs_unit_price (ch_state ch)) (u64_as_u128 (u32_as_u64 k - cs_highest_step_settled (ch_state ch))) = Some paid"
    and s': "s' = credit ?s1 (cs_payee (ch_state ch)) ?a paid"
  have esc: "unat (ch_escrow_remaining ch - paid) + unat paid = unat (ch_escrow_remaining ch)"
    by (rule settle_amounts(2) [OF state_okD(5) [OF assms(2) ch] q])
  have "held b s' = held b s" if "held b s < 2 ^ 128" for b
  proof -
    have "held b ?s1 + (if ?a = b then unat paid else 0) = held b s"
      using held_channel_put [of b s i ?ch] ch esc by (auto split: if_splits)
    then show ?thesis using held_credit [of b ?a ?s1 paid "cs_payee (ch_state ch)"] that by (auto simp: s' split: if_splits)
  qed
  then show ?thesis
    by (intro conserved_same_assets [OF assms(1)]) (auto simp: s' dest: conserved_unpinned [OF assms(1)])
qed

lemma channel_refund_conserves:
  assumes "conserved_but q d s" and "do_channel_refund s snd_acc i = (Ok ev, s')"
  shows "conserved_but q d s'"
  using assms(2)
proof (rule do_channel_refund_OkE)
  fix ch :: Channel
  let ?a = "cs_asset (ch_state ch)" and ?ch = "ch\<lparr>ch_escrow_remaining := 0, ch_refunded := True\<rparr>"
  let ?s1 = "s\<lparr>st_channels := bmap_insert (st_channels s) i ?ch\<rparr>"
  assume ch: "bmap_get (st_channels s) i = Some ch"
    and s': "s' = credit ?s1 (cs_payer (ch_state ch)) ?a (ch_escrow_remaining ch)"
  have "held b s' = held b s" if "held b s < 2 ^ 128" for b
  proof -
    have "held b ?s1 + (if ?a = b then unat (ch_escrow_remaining ch) else 0) = held b s"
      using held_channel_put [of b s i ?ch] ch by (auto split: if_splits)
    then show ?thesis
      using held_credit [of b ?a ?s1 "ch_escrow_remaining ch" "cs_payer (ch_state ch)"] that by (auto simp: s' split: if_splits)
  qed
  then show ?thesis
    by (intro conserved_same_assets [OF assms(1)]) (auto simp: s' dest: conserved_unpinned [OF assms(1)])
qed

section \<open>Pools\<close>

definition key_total :: "State \<Rightarrow> PoolKey \<Rightarrow> nat" where
  "key_total s key = (case pool_ref s key of Some p \<Rightarrow> unat (ps_total_shielded p) | None \<Rightarrow> 0)"

lemma pool_of_put:
  assumes "pool_asset (put_pool s key p) key = Some a"
    and "pool_asset s key = Some a \<or> pool_asset s key = None \<and> key_total s key = 0"
  shows "pool_of b (put_pool s key p) + (if b = a then key_total s key else 0)
    = pool_of b s + (if b = a then unat (ps_total_shielded p) else 0)"
  using assms by (cases key) (auto simp: pool_of_def put_pool_def pool_asset_def key_total_def pool_ref_def split: option.split)

lemma pool_of_put_same:
  assumes "pool_ref s key = Some p" and "ps_asset p' = ps_asset p" and "ps_total_shielded p' = ps_total_shielded p"
  shows "pool_of b (put_pool s key p') = pool_of b s"
  using assms by (cases key) (auto simp: pool_of_def put_pool_def pool_ref_def)

lemma key_total_le_held: "pool_asset s key = Some a \<Longrightarrow> key_total s key \<le> held a s"
  by (cases key) (auto simp: key_total_def pool_asset_def pool_ref_def held_def pool_of_def)

lemma mint_target_total: "unat (ps_total_shielded (mint_target X s key)) = key_total s key"
  by (cases key) (simp_all add: key_total_def mint_target_def pool_ref_def new_asset_pool_def seal_anchor_def pool_default_def Let_def split: option.split)

lemma pool_key_of_asset_cases:
  assumes "pool_key_of_asset s a = Ok key"
  shows "pool_asset s key = Some a \<or> pool_asset s key = None \<and> key = LegacyPool"
  using assms by (auto simp: pool_key_of_asset_def pool_asset_def split: option.splits if_splits)

lemma mint_to_pool_conserves:
  assumes con: "conserved_but q d s" and "do_mint_to_pool X s snd_acc a v c pf = (Ok ev, s')"
  shows "conserved_but q d s'"
  using assms(2)
proof (rule do_mint_to_pool_OkE)
  fix key t
  let ?s1 = "debited s snd_acc a v" and ?old = "mint_target X s key"
  let ?p = "(pin_asset ?old a)\<lparr>ps_tree := t, ps_total_shielded := saturating_add (ps_total_shielded ?old) v\<rparr>"
  assume k: "pool_key_of_asset s a = Ok key" and v: "v \<le> balance s snd_acc a" and s': "s' = put_pool ?s1 key ?p"
  have tot: "key_total ?s1 key = key_total s key" and ast: "pool_asset ?s1 key = pool_asset s key"
    by (cases key; simp add: key_total_def pool_ref_def pool_asset_def)+
  have before: "pool_asset ?s1 key = Some a \<or> pool_asset ?s1 key = None \<and> key_total ?s1 key = 0"
    unfolding ast tot using pool_key_of_asset_cases [OF k] conserved_unpinned [OF con]
    by (auto simp: key_total_def pool_ref_def pool_asset_def)
  have after: "pool_asset (put_pool ?s1 key ?p) key = Some a"
    using pool_key_of_asset_cases [OF k]
    by (cases key) (auto simp: pool_asset_def put_pool_def pin_asset_def mint_target_def)
  have "held b s' = held b s" if "held b s < 2 ^ 128" for b
  proof -
    have "held b ?s1 + (if b = a then unat v else 0) = held b s" by (rule held_debited [OF v])
    moreover have "unat (saturating_add (ps_total_shielded ?old) v) = key_total s key + unat v" if "b = a"
    proof -
      have "key_total s key \<le> held a ?s1" using before key_total_le_held [of ?s1 key a] tot by auto
      then have "key_total s key + unat v < 2 ^ 128"
        using held_debited [OF v, of a] \<open>held b s < 2 ^ 128\<close> that by simp
      then show ?thesis by (simp add: unat_saturating_add mint_target_total)
    qed
    ultimately show ?thesis
      using pool_of_put [OF after before, of b] tot by (auto simp: s' held_def split: if_splits)
  qed
  moreover have "ps_asset (st_pool s') = None \<Longrightarrow> ps_total_shielded (st_pool s') = 0"
    using conserved_unpinned [OF con] by (cases key) (auto simp: s' put_pool_def pin_asset_def split: option.splits)
  ultimately show ?thesis
    by (intro conserved_same_assets [OF con]) (auto simp: s')
qed

lemma shielded_spend_conserves:
  assumes con: "conserved_but q d s" and adm: "backed_spend q s (ShieldedSpend anchor nf out out2 fee credit_to mandate pf ct ct2)"
    and "do_shielded_spend X s snd_acc anchor nf out out2 fee credit_to mandate pf = (Ok ev, s')"
  shows "conserved_but q d s'"
  using assms(3)
proof (rule do_shielded_spend_OkE)
  fix key pool t p'
  let ?s1 = "s\<lparr>st_mandates := t\<rparr>"
  let ?s2 = "put_pool ?s1 key p'"
  assume ka: "pool_key_of_anchor s anchor = Some key" and ref: "pool_ref s key = Some pool"
    and e: "pool_spend_effects X pool nf out out2 fee = Some p'"
    and s': "(fee = 0 \<and> s' = ?s2) \<or> (\<exists>to_acc a. 0 < fee \<and> credit_to = Some to_acc \<and> pool_asset s key = Some a
        \<and> asset_gate s a None (Some to_acc) = Ok () \<and> s' = credit ?s2 to_acc a fee)"
  have p': "ps_asset p' = ps_asset pool" "ps_total_shielded p' = saturating_sub (ps_total_shielded pool) fee"
    using e by (auto elim!: pool_spend_effects_cases simp: saturating_sub_def word_neq_0_conv [symmetric] word_gt_0)
  have le: "unat fee \<le> unat (ps_total_shielded pool)" if "pool_asset s key = Some q" using adm ka ref that by (simp add: word_le_nat_alt)
  have kt: "key_total ?s1 key = unat (ps_total_shielded pool)" using ref by (simp add: key_total_def)
  have pa: "pool_asset ?s1 key = pool_asset s key" "pool_asset ?s2 key = pool_asset s key"
    using ref p'(1) by (cases key; simp add: pool_asset_def put_pool_def pool_ref_def)+
  have "held q s' = held q s" if "held q s < 2 ^ 128"
    using s'
  proof (elim disjE exE conjE)
    assume "fee = 0" "s' = ?s2"
    moreover from this have "pool_of q ?s2 = pool_of q ?s1"
      using pool_of_put_same [of ?s1 key pool p' q] ref p' by (simp add: saturating_sub_def)
    moreover have "held q ?s1 = held q s" by simp
    ultimately show ?thesis by (simp add: held_def)
  next
    fix to_acc a
    assume a: "pool_asset s key = Some a" and s': "s' = credit ?s2 to_acc a fee"
    have "pool_of q ?s2 + (if q = a then unat fee else 0) = pool_of q ?s1"
      using pool_of_put [of ?s1 key p' a q] pa a kt le by (cases "q = a") (auto simp: p'(2) unat_saturating_sub split: if_splits)
    moreover have "held q ?s1 = held q s" by simp
    ultimately have "held q ?s2 + (if q = a then unat fee else 0) = held q s" by (simp add: held_def)
    then show ?thesis using held_credit [of q a ?s2 fee to_acc] that by (auto simp: s' split: if_splits)
  qed
  moreover have "ps_asset (st_pool s') = None \<Longrightarrow> ps_total_shielded (st_pool s') = 0"
    using s' ref p' conserved_unpinned [OF con]
    by (cases key) (auto simp: put_pool_def pool_ref_def saturating_sub_def pool_asset_def)
  moreover have "st_assets s' = st_assets s" "st_fee_asset s' = st_fee_asset s" "st_fees_burned s' = st_fees_burned s" using s' by auto
  ultimately show ?thesis by (intro conserved_same_assets [OF con]) auto
qed

section \<open>Issued assets\<close>

lemma held_put_asset [simp]: "held b (put_asset s a info) = held b s"
  by (simp add: held_def)

lemma sums_put_asset [simp]:
  "supply_of b (put_asset s a info) = (if b = a then unat (ai_supply info) else supply_of b s)"
  "burned_of b (put_asset s a info) = (if b = a then unat (ai_burned info) else burned_of b s)"
  by (simp_all add: supply_of_def burned_of_def)

lemma sums_money [simp]:
  "supply_of b (credit s i a x) = supply_of b s" "burned_of b (credit s i a x) = burned_of b s"
  "supply_of b (debited s i a x) = supply_of b s" "burned_of b (debited s i a x) = burned_of b s"
  by (simp_all add: supply_of_def burned_of_def)

lemma conserved_put_asset:
  assumes con: "conserved_but q d s" and new: "unat (ai_supply info) = supply_of a s" "unat (ai_burned info) = burned_of a s"
  shows "conserved_but q d (put_asset s a info)"
  using con new by (auto simp: conserved_but_def)

lemma asset_register_conserves:
  assumes con: "conserved_but q d s" and "do_asset_register X s snd_acc a sy dec pol = (Ok ev, s')"
  shows "conserved_but q d s'"
  using assms(2)
  by (rule do_asset_register_OkE) (auto intro!: conserved_put_asset [OF con] simp: supply_of_def burned_of_def bmap_contains_def split: option.splits)

lemma asset_freeze_conserves:
  assumes con: "conserved_but q d s" and "do_asset_freeze s snd_acc a acc f = (Ok ev, s')"
  shows "conserved_but q d s'"
  using assms(2) by (rule do_asset_freeze_OkE) (auto intro!: conserved_put_asset [OF con])

lemma asset_pause_conserves:
  assumes con: "conserved_but q d s" and "do_asset_pause s snd_acc a b = (Ok ev, s')"
  shows "conserved_but q d s'"
  using assms(2) by (rule do_asset_pause_OkE) (auto intro!: conserved_put_asset [OF con])

lemma asset_mint_conserves:
  assumes con: "conserved_but q d s" and "do_asset_mint s snd_acc a t x = (Ok ev, s')"
  shows "conserved_but q d s'"
  using assms(2)
proof (rule do_asset_mint_OkE)
  fix info :: AssetInfo
  let ?new = "info\<lparr>ai_supply := ai_supply info + x\<rparr>"
  assume r: "bmap_get (st_assets s) a = Some info" and sup: "unat (ai_supply info) + unat x < 2 ^ 128"
    and s': "s' = credit (put_asset s a ?new) t a x"
  note eq = conserved_butD(1) [OF con]
  have "held q (put_asset s a ?new) + unat x < 2 ^ 128" if "q = a" using eq sup r that by simp
  then have h: "held q s' = held q s + (if q = a then unat x else 0)"
    using held_credit [of q a "put_asset s a ?new" x t] by (simp add: s')
  have "unat (ai_supply info + x) = unat (ai_supply info) + unat x" using sup by (intro unat_add_no_wrap) simp
  then have "held q s' + burned_of q s' + fees_of q s' + d = supply_of q s'" using eq r by (auto simp: h) (simp_all add: s')
  then show ?thesis using conserved_unpinned [OF con] by (simp add: conserved_but_def s')
qed

lemma asset_burn_conserves:
  assumes con: "conserved_but q d s" and "do_asset_burn s snd_acc a x dest = (Ok ev, s')"
  shows "conserved_but q d s'"
  using assms(2)
proof (rule do_asset_burn_OkE)
  fix info :: AssetInfo
  let ?new = "info\<lparr>ai_burned := saturating_add (ai_burned info) x\<rparr>"
  assume r: "bmap_get (st_assets s) a = Some info" and x: "x \<le> balance s snd_acc a" and s': "s' = put_asset (debited s snd_acc a x) a ?new"
  note eq = conserved_butD(1) [OF con]
  have h: "held q s' + (if q = a then unat x else 0) = held q s" using held_debited [OF x, of q] by (simp add: s')
  have "unat (ai_burned info) + unat x < 2 ^ 128" if "q = a"
    using h eq r that unat_amount_lt [of "ai_supply info"] by (simp del: unat_amount_lt unat_lt_u128)
  then have "unat (ai_burned ?new) = unat (ai_burned info) + unat x" if "q = a" using that by (simp add: unat_saturating_add)
  then have "held q s' + burned_of q s' + fees_of q s' + d = supply_of q s'" using eq h r by (cases "q = a") (simp_all add: s')
  then show ?thesis using conserved_unpinned [OF con] by (simp add: conserved_but_def s')
qed

section \<open>Transactions and blocks conserve\<close>

lemma dispatch_conserves:
  assumes "conserved_but q d s" and "state_ok X s" and "backed_spend q s tx" and "dispatch X s snd_acc tx = (Ok ev, s')"
  shows "conserved_but q d s'"
proof (cases tx)
  case (ShieldedSpend anchor nf out out2 fee credit_to mandate pf ct ct2)
  with assms show ?thesis by (auto intro: shielded_spend_conserves simp del: backed_spend.simps)
next
  case (ChannelSettle i w k)
  with assms show ?thesis by (auto intro: channel_settle_conserves)
qed (use assms(1,4) in \<open>auto intro: transfer_conserves account_create_conserves mandate_create_conserves mandate_spend_conserves
    mandate_revoke_conserves channel_open_conserves channel_refund_conserves mint_to_pool_conserves asset_freeze_conserves
    asset_register_conserves asset_pause_conserves asset_mint_conserves asset_burn_conserves\<close>)

definition in_flight :: "State \<Rightarrow> AssetId \<Rightarrow> nat" where
  "in_flight s b = (if b = st_fee_asset s then unat (envelope_fee s) else 0)"

lemma fee_paid_held:
  assumes "0 < envelope_fee s \<Longrightarrow> envelope_fee s \<le> balance s (stx_sender stx) (st_fee_asset s)"
  shows "held b (fee_paid s stx) + in_flight s b = held b s"
proof (cases "0 < envelope_fee s")
  case True
  then show ?thesis using held_debited [OF assms [OF True], of b] by (simp add: fee_paid_def in_flight_def)
next
  case False
  then have "envelope_fee s = 0" by (simp add: word_gt_0)
  then show ?thesis by (simp add: fee_paid_def in_flight_def)
qed

lemma fee_paid_conserves:
  assumes "conserved q s" and "0 < envelope_fee s \<Longrightarrow> envelope_fee s \<le> balance s (stx_sender stx) (st_fee_asset s)"
  shows "conserved_but q (in_flight s q) (fee_paid s stx)"
proof -
  have "held q (fee_paid s stx) + in_flight s q = held q s" by (rule fee_paid_held) (rule assms(2))
  moreover have "fees_of q (fee_paid s stx) = fees_of q s" by (rule sums_cong) simp_all
  moreover have "supply_of q (fee_paid s stx) = supply_of q s" "burned_of q (fee_paid s stx) = burned_of q s" by (simp_all add: supply_of_def burned_of_def)
  ultimately show ?thesis using conserved_butD(1) [OF assms(1)] conserved_unpinned [OF assms(1)] by (simp add: conserved_but_def)
qed

lemma pool_lookup_fee_paid [simp]:
  "pool_key_of_anchor (fee_paid s stx) anchor = pool_key_of_anchor s anchor" "pool_ref (fee_paid s stx) key = pool_ref s key"
  by (simp_all add: pool_key_of_anchor_def pool_ref_def split: PoolKey.split)

lemma backed_fee_paid [simp]: "backed_spend q (fee_paid s stx) tx = backed_spend q s tx"
  by (cases tx) (auto simp: pool_asset_def split: option.split PoolKey.split)

lemma settled_frame [simp]:
  "st_balances (settled s fee stx acc) = st_balances s" "st_channels (settled s fee stx acc) = st_channels s"
  "st_pool (settled s fee stx acc) = st_pool s" "st_pools (settled s fee stx acc) = st_pools s"
  "st_assets (settled s fee stx acc) = st_assets s" "st_fee_asset (settled s fee stx acc) = st_fee_asset s"
  "st_mandates (settled s fee stx acc) = st_mandates s" "st_root_funding (settled s fee stx acc) = st_root_funding s"
  "st_height (settled s fee stx acc) = st_height s" "st_time (settled s fee stx acc) = st_time s"
  "st_accounts (settled s fee stx acc) =
     bmap_insert (st_accounts s) (stx_sender stx) \<lparr>acc_auth_commit = stx_next_auth stx, acc_nonce = acc_nonce acc + 1\<rparr>"
  "st_fees_burned (settled s fee stx acc) = saturating_add (st_fees_burned s) fee"
  by (simp_all add: settled_def Let_def word_gt_0 saturating_add_def)

lemma settled_conserves:
  assumes con: "conserved_but q (if q = st_fee_asset s then unat fee else 0) s"
  shows "conserved q (settled s fee stx acc)"
proof -
  note eq = conserved_butD(1) [OF con]
  have "unat (st_fees_burned s) + unat fee < 2 ^ 128" if "q = st_fee_asset s"
    using eq supply_of_lt [of q s] that by (simp add: fees_of_def)
  then have "fees_of q (settled s fee stx acc) = fees_of q s + (if q = st_fee_asset s then unat fee else 0)"
    by (auto simp: fees_of_def unat_saturating_add)
  moreover have "held q (settled s fee stx acc) = held q s" by (rule held_cong) simp_all
  moreover have "supply_of q (settled s fee stx acc) = supply_of q s" "burned_of q (settled s fee stx acc) = burned_of q s"
    by (simp_all add: supply_of_def burned_of_def)
  ultimately show ?thesis using eq conserved_unpinned [OF con] by (simp add: conserved_but_def)
qed

lemma state_ok_fee_paid: "state_ok X s \<Longrightarrow> state_ok X (fee_paid s stx)"
  by (simp add: fee_paid_def)

lemma apply_tx_at_state_ok:
  assumes "state_ok X s" and "apply_tx_at X s stx pre = (Ok ev, s')"
  shows "state_ok X s'"
  using assms(2)
proof (rule apply_tx_at_OkE)
  fix acc s2
  assume d: "dispatch X (fee_paid s stx) (stx_sender stx) (stx_payload stx) = (Ok ev, s2)" and s': "s' = settled s2 (envelope_fee s) stx acc"
  have "state_ok X s2" by (rule dispatch_state_ok [OF state_ok_fee_paid [OF assms(1)] d])
  then show ?thesis by (simp add: state_ok_def s')
qed

lemma apply_tx_at_conserves:
  assumes "state_ok X s" and con: "conserved q s" and "backed_spend q s (stx_payload stx)" and "apply_tx_at X s stx pre = (Ok ev, s')"
  shows "conserved q s'"
  using assms(4)
proof (rule apply_tx_at_OkE)
  fix acc s2
  assume fee: "0 < envelope_fee s \<Longrightarrow> envelope_fee s \<le> balance s (stx_sender stx) (st_fee_asset s)"
    and d: "dispatch X (fee_paid s stx) (stx_sender stx) (stx_payload stx) = (Ok ev, s2)"
    and s': "s' = settled s2 (envelope_fee s) stx acc"
  have "conserved_but q (in_flight s q) s2"
    by (rule dispatch_conserves [OF fee_paid_conserves [OF con] state_ok_fee_paid [OF assms(1)] _ d]) (simp_all add: fee assms(3))
  moreover have "in_flight s q = (if q = st_fee_asset s2 then unat (envelope_fee s) else 0)"
    using dispatch_frame(4) [OF d] by (auto simp: in_flight_def)
  ultimately show ?thesis unfolding s' by (intro settled_conserves) simp
qed

end
