(* ===== verification/HK_Blocks.thy ===== *)
theory HK_Blocks
  imports HK_Conservation
begin

text \<open>
  Blocks and genesis over the ledger invariants: a block runs its transactions one by one, each
  either committing or refusing without a trace; genesis establishes the invariants and every
  block keeps them, conservation of an asset as long as its unshieldings are backed.
\<close>

section \<open>Blocks as runs of transactions\<close>

interpretation ledger: transactional "state_ok X" "\<lambda>_ _. True" "\<lambda>s (stx, pre). apply_tx_at X s stx pre" for X
  by unfold_locales (auto intro: apply_tx_at_clean apply_tx_at_state_ok state_okD(1))

text \<open>Every unshielding of the asset that is accepted is backed; nothing is asked of transactions that are refused.\<close>

definition sound_tx :: "'x state_env_scheme \<Rightarrow> AssetId \<Rightarrow> State \<Rightarrow> SignedTx \<times> bool option \<Rightarrow> bool" where
  "sound_tx X q s i \<longleftrightarrow> (case i of (stx, pre) \<Rightarrow> (\<exists>ev s'. apply_tx_at X s stx pre = (Ok ev, s')) \<longrightarrow> backed_spend q s (stx_payload stx))"

interpretation conserving: transactional "\<lambda>s. state_ok X s \<and> conserved q s" "sound_tx X q" "\<lambda>s (stx, pre). apply_tx_at X s stx pre" for X q
  by unfold_locales (auto simp: sound_tx_def intro: apply_tx_at_clean apply_tx_at_state_ok apply_tx_at_conserves state_okD(1))

fun tx_inputs :: "nat \<Rightarrow> SignedTx list \<Rightarrow> bool list option \<Rightarrow> (SignedTx \<times> bool option) list" where
  "tx_inputs i [] v = []"
| "tx_inputs i (stx # rest) v = (stx, map_option (\<lambda>v. v ! i) v) # tx_inputs (Suc i) rest v"

abbreviation exec_tx :: "'x state_env_scheme \<Rightarrow> State \<Rightarrow> SignedTx \<times> bool option \<Rightarrow> (Event list, StateError, State) step" where
  "exec_tx X \<equiv> \<lambda>s (stx, pre). apply_tx_at X s stx pre"

text \<open>A block never panics: it gives one receipt per transaction, in order, and leaves the state
  the transactions lead to.\<close>

lemma apply_txs_run:
  assumes "state_ok X s"
  shows "\<exists>receipts. apply_txs X i txs v s rs = (Ok (rs @ receipts), fold_steps (exec_tx X) (tx_inputs i txs v) s)
    \<and> map rc_index receipts = [i..<i + length txs]"
  using assms
proof (induction txs arbitrary: i s rs)
  case (Cons stx rest)
  let ?pre = "map_option (\<lambda>v. v ! i) v"
  obtain r s1 where r: "apply_tx_at X s stx ?pre = (r, s1)" by fastforce
  have ok: "state_ok X s1" using ledger.exec_keeps_inv [OF Cons.prems, of "(stx, ?pre)"] r by simp
  have np: "r \<noteq> Panic" using ledger.exec_never_panics [OF Cons.prems, of "(stx, ?pre)"] r by simp
  obtain receipts where
    "apply_txs X (Suc i) rest v s1 (rs @ [\<lparr>rc_index = i, rc_result = r\<rparr>])
      = (Ok ((rs @ [\<lparr>rc_index = i, rc_result = r\<rparr>]) @ receipts), fold_steps (exec_tx X) (tx_inputs (Suc i) rest v) s1)"
    "map rc_index receipts = [Suc i..<Suc i + length rest]"
    using Cons.IH [OF ok] by blast
  then show ?case
    using r np by (intro exI [of _ "\<lparr>rc_index = i, rc_result = r\<rparr> # receipts"]) (cases r; simp add: upt_conv_Cons del: upt_Suc)
qed simp

lemma st_clock_ok [simp]:
  "state_ok X (s\<lparr>st_height := h, st_time := t\<rparr>) = state_ok X s" "conserved_but q d (s\<lparr>st_height := h, st_time := t\<rparr>) = conserved_but q d s"
proof -
  have "held q (s\<lparr>st_height := h, st_time := t\<rparr>) = held q s" "fees_of q (s\<lparr>st_height := h, st_time := t\<rparr>) = fees_of q s"
    "supply_of q (s\<lparr>st_height := h, st_time := t\<rparr>) = supply_of q s" "burned_of q (s\<lparr>st_height := h, st_time := t\<rparr>) = burned_of q s"
    by (simp_all add: held_def bal_of_def esc_of_def pool_of_def fees_of_def supply_of_def burned_of_def)
  then show "conserved_but q d (s\<lparr>st_height := h, st_time := t\<rparr>) = conserved_but q d s" by (simp add: conserved_but_def)
qed (simp add: state_ok_def)

lemma seal_anchor_keeps [simp]:
  "ps_asset (seal_anchor X p) = ps_asset p" "ps_total_shielded (seal_anchor X p) = ps_total_shielded p"
  "ps_nullifiers (seal_anchor X p) = ps_nullifiers p" "ps_tree (seal_anchor X p) = ps_tree p"
  by (simp_all add: seal_anchor_def Let_def)

lemma end_block_ok: "state_ok X s \<Longrightarrow> state_ok X (end_block X s)"
  by (auto simp: state_ok_def end_block_def pool_ok_seal intro: bmap_all_map_values)

lemma end_block_held [simp]: "held b (end_block X s) = held b s"
  by (auto simp: held_def bal_of_def esc_of_def pool_of_def end_block_def split: option.split)

lemma end_block_conserves: "conserved_but q d s \<Longrightarrow> conserved_but q d (end_block X s)"
proof -
  assume con: "conserved_but q d s"
  have "held q (end_block X s) = held q s" "fees_of q (end_block X s) = fees_of q s" "supply_of q (end_block X s) = supply_of q s" "burned_of q (end_block X s) = burned_of q s"
    by simp (simp_all add: fees_of_def supply_of_def burned_of_def end_block_def)
  then show ?thesis using con by (simp add: conserved_but_def) (simp add: end_block_def)
qed

lemma apply_block_verified_cases:
  assumes ok: "state_ok X s"
  obtains e where "apply_block_verified X s h t txs v = (Err e, s)" "e = BadHeight \<or> e = TimeBackwards"
  | receipts s1 where "h = st_height s + 1" "st_time s \<le> t" "s1 = s\<lparr>st_height := h, st_time := t\<rparr>"
    "apply_block_verified X s h t txs v = (Ok receipts, end_block X (fold_steps (exec_tx X) (tx_inputs 0 txs v) s1))"
    "map rc_index receipts = [0..<length txs]"
proof -
  let ?s1 = "s\<lparr>st_height := h, st_time := t\<rparr>"
  have "state_ok X ?s1" using ok by simp
  from apply_txs_run [OF this, of 0 txs v "[]"] obtain receipts where
    "apply_txs X 0 txs v ?s1 [] = (Ok receipts, fold_steps (exec_tx X) (tx_inputs 0 txs v) ?s1)" "map rc_index receipts = [0..<length txs]"
    by auto
  note run = this
  show ?thesis
  proof (cases "h = st_height s + 1 \<and> st_time s \<le> t \<and> \<not> is_some_and v (\<lambda>v. length v \<noteq> length txs)")
    case True
    then show ?thesis using that(2) [of ?s1 receipts] run by (simp add: apply_block_verified_def not_less)
  next
    case False
    then have "\<exists>e. apply_block_verified X s h t txs v = (Err e, s) \<and> (e = BadHeight \<or> e = TimeBackwards)"
      by (auto simp: apply_block_verified_def not_le)
    then show ?thesis using that(1) by blast
  qed
qed

section \<open>Genesis\<close>

text \<open>How much of an asset the genesis allocations give out.\<close>

definition alloc_total :: "AssetId \<Rightarrow> (AccountId \<times> AssetId \<times> Amount) list \<Rightarrow> nat" where
  "alloc_total b al = sum_list (map (\<lambda>(_, a, x). if a = b then unat x else 0) al)"

lemma genesis_accounts_frame:
  "genesis_accounts gas s = Ok s' \<Longrightarrow> \<exists>m. s' = s\<lparr>st_accounts := m\<rparr> \<and> (bmap_ok (st_accounts s) \<longrightarrow> bmap_ok m)"
proof (induction gas s rule: genesis_accounts.induct)
  case (1 s)
  then show ?case by (intro exI [of _ "st_accounts s"]) simp
next
  case (2 ga rest s)
  then show ?case by (fastforce split: if_splits)
qed

lemma genesis_assets_frame:
  "genesis_assets gas s = Ok s' \<Longrightarrow> bmap_all (\<lambda>_ i. ai_supply i = 0 \<and> ai_burned i = 0) (st_assets s) \<Longrightarrow>
    \<exists>m. s' = s\<lparr>st_assets := m\<rparr> \<and> (bmap_ok (st_assets s) \<longrightarrow> bmap_ok m) \<and> bmap_all (\<lambda>_ i. ai_supply i = 0 \<and> ai_burned i = 0) m"
proof (induction gas s rule: genesis_assets.induct)
  case (1 s)
  then show ?case by (intro exI [of _ "st_assets s"]) simp
next
  case (2 ga rest s)
  let ?s1 = "s\<lparr>st_assets := bmap_insert (st_assets s) (gs_id ga)
      \<lparr>ai_symbol = gs_symbol ga, ai_decimals = gs_decimals ga, ai_issuer = gs_issuer ga, ai_policy = gs_policy ga,
       ai_supply = 0, ai_burned = 0, ai_paused = False, ai_frozen = [], ai_registered_at = 0\<rparr>\<rparr>"
  from "2.prems" have g: "genesis_assets rest ?s1 = Ok s'" and c: "valid_symbol (gs_symbol ga)" "\<not> gs_decimals ga > MAX_DECIMALS"
    "\<not> bmap_contains (st_assets s) (gs_id ga)" by (auto split: if_splits)
  have "bmap_all (\<lambda>_ i. ai_supply i = 0 \<and> ai_burned i = 0) (st_assets ?s1)" using "2.prems"(2) by (simp add: bmap_all_insert)
  from "2.IH" [OF _ _ _ g this] c show ?case by auto
qed

text \<open>Until the first block nothing is burned and the supply is what accounts hold.\<close>

definition fresh_ledger :: "AssetId \<Rightarrow> State \<Rightarrow> bool" where
  "fresh_ledger q s \<longleftrightarrow> st_fees_burned s = 0 \<and> ps_total_shielded (st_pool s) = 0 \<and> burned_of q s = 0 \<and> supply_of q s = held q s"

lemma fresh_ledger_conserved: "fresh_ledger q s \<Longrightarrow> conserved q s"
  by (auto simp: fresh_ledger_def conserved_but_def fees_of_def)

lemma genesis_alloc_held:
  assumes "q = a \<Longrightarrow> held q s + unat x < 2 ^ 128"
  shows "held q (genesis_alloc (i, a, x) s) = held q s + (if q = a then unat x else 0)"
proof -
  have "held q (credit s i a x) = held q s + (if q = a then unat x else 0)" using held_credit [of q a s x i] assms by auto
  moreover have "held q (genesis_alloc (i, a, x) s) = held q (credit s i a x)"
    by (rule held_cong) (auto simp: genesis_alloc_def Let_def split: option.split)
  ultimately show ?thesis by simp
qed

lemma genesis_alloc_sums:
  "st_fees_burned (genesis_alloc (i, a, x) s) = st_fees_burned s" "st_pool (genesis_alloc (i, a, x) s) = st_pool s"
  "burned_of q (genesis_alloc (i, a, x) s) = burned_of q s"
  "bmap_get (st_assets s) a = Some info \<Longrightarrow> supply_of q (genesis_alloc (i, a, x) s) = (if q = a then unat (saturating_add (ai_supply info) x) else supply_of q s)"
  "bmap_get (st_assets s) a = None \<Longrightarrow> supply_of q (genesis_alloc (i, a, x) s) = supply_of q s"
  by (auto simp: genesis_alloc_def Let_def burned_of_def supply_of_def split: option.split)

lemma genesis_alloc_fresh:
  assumes fresh: "fresh_ledger q s" and room: "q = a \<Longrightarrow> held q s + unat x < 2 ^ 128" and known: "q = a \<Longrightarrow> bmap_get (st_assets s) q = None \<Longrightarrow> x = 0"
  shows "fresh_ledger q (genesis_alloc (i, a, x) s)"
proof (cases "bmap_get (st_assets s) a")
  case None
  then show ?thesis using fresh known genesis_alloc_held [OF room, where i = i] by (auto simp: fresh_ledger_def genesis_alloc_sums)
next
  case (Some info)
  then have "q = a \<Longrightarrow> unat (saturating_add (ai_supply info) x) = held q s + unat x"
    using fresh room by (simp add: fresh_ledger_def unat_saturating_add)
  then show ?thesis using fresh genesis_alloc_held [OF room, where i = i] by (auto simp: fresh_ledger_def genesis_alloc_sums Some)
qed

lemma genesis_alloc_frame:
  "\<exists>m n. genesis_alloc al s = s\<lparr>st_balances := m, st_assets := n\<rparr> \<and> (bmap_ok (st_balances s) \<longrightarrow> bmap_ok m) \<and> (bmap_ok (st_assets s) \<longrightarrow> bmap_ok n)"
proof (cases al)
  case (fields i a x)
  define s1 where "s1 = credit s i a x"
  have m: "s1 = s\<lparr>st_balances := st_balances s1\<rparr>" "bmap_ok (st_balances s) \<longrightarrow> bmap_ok (st_balances s1)" "st_assets s1 = st_assets s"
    by (simp_all add: s1_def credit_def Let_def)
  show ?thesis
  proof (cases "bmap_get (st_assets s) a")
    case None
    then have "genesis_alloc al s = s\<lparr>st_balances := st_balances s1, st_assets := st_assets s\<rparr>"
      using fields m by (simp add: genesis_alloc_def Let_def flip: s1_def)
    then show ?thesis using m(2) by blast
  next
    case (Some info)
    let ?n = "bmap_insert (st_assets s) a (info\<lparr>ai_supply := saturating_add (ai_supply info) x\<rparr>)"
    have "genesis_alloc al s = s\<lparr>st_balances := st_balances s1, st_assets := ?n\<rparr>"
      using fields Some m(3) arg_cong [OF m(1), of "\<lambda>s. s\<lparr>st_assets := ?n\<rparr>"] by (simp add: genesis_alloc_def Let_def flip: s1_def)
    then show ?thesis using m(2) by (metis bmap_ok_insert)
  qed
qed

lemma genesis_alloc_known: "bmap_get (st_assets (genesis_alloc al s)) b = None \<longleftrightarrow> bmap_get (st_assets s) b = None"
  by (cases al) (auto simp: genesis_alloc_def Let_def split: option.split)

lemma genesis_allocs_ok: "state_ok X s \<Longrightarrow> state_ok X (for_each al genesis_alloc s)"
proof (induction al arbitrary: s)
  case (Cons x al)
  have "state_ok X (genesis_alloc x s)" using Cons.prems genesis_alloc_frame [of x s] by (auto simp: state_ok_def)
  then show ?case using Cons.IH by simp
qed simp

lemma genesis_allocs:
  "fresh_ledger q s \<Longrightarrow> held q s + alloc_total q al < 2 ^ 128 \<Longrightarrow> (bmap_get (st_assets s) q = None \<Longrightarrow> alloc_total q al = 0) \<Longrightarrow>
    fresh_ledger q (for_each al genesis_alloc s)"
proof (induction al arbitrary: s)
  case (Cons x al)
  obtain i a v where x: "x = (i, a, v)" by (cases x)
  have room: "q = a \<Longrightarrow> held q s + unat v < 2 ^ 128" using Cons.prems(2) by (simp add: x alloc_total_def)
  have "held q (genesis_alloc x s) + alloc_total q al < 2 ^ 128"
    using Cons.prems(2) by (auto simp: x genesis_alloc_held [OF room] alloc_total_def)
  moreover have known: "q = a \<Longrightarrow> bmap_get (st_assets s) q = None \<Longrightarrow> v = 0" using Cons.prems(3) by (simp add: x alloc_total_def unat_eq_0)
  have "fresh_ledger q (genesis_alloc x s)" unfolding x by (rule genesis_alloc_fresh [OF Cons.prems(1) room known])
  moreover have "bmap_get (st_assets (genesis_alloc x s)) q = None \<Longrightarrow> alloc_total q al = 0"
    using Cons.prems(3) by (auto simp: genesis_alloc_known alloc_total_def x split: if_splits)
  ultimately show ?case using Cons.IH by simp
qed simp

lemma state_default_ok: "state_ok X ((state_default X)\<lparr>st_height := h, st_time := t, st_accounts := m, st_assets := n\<rparr>) \<longleftrightarrow> bmap_ok m \<and> bmap_ok n"
  by (simp add: state_ok_def state_default_def pool_default_ok bmap_all_def tree_new_wf)

lemma empty_ledger_fresh:
  assumes "bmap_all (\<lambda>_ i. ai_supply i = 0 \<and> ai_burned i = 0) n"
  shows "fresh_ledger q ((state_default X)\<lparr>st_height := h, st_time := t, st_accounts := m, st_assets := n\<rparr>)"
    and "held q ((state_default X)\<lparr>st_height := h, st_time := t, st_accounts := m, st_assets := n\<rparr>) = 0"
proof -
  show h: "held q ((state_default X)\<lparr>st_height := h, st_time := t, st_accounts := m, st_assets := n\<rparr>) = 0"
    by (simp add: held_def bal_of_def esc_of_def pool_of_def state_default_def pool_default_def)
  show "fresh_ledger q ((state_default X)\<lparr>st_height := h, st_time := t, st_accounts := m, st_assets := n\<rparr>)"
    unfolding fresh_ledger_def h using bmap_all_get [OF assms, of q]
    by (auto simp: state_default_def pool_default_def supply_of_def burned_of_def split: option.split)
qed

lemma fresh_ledger_fee: "fresh_ledger q (s\<lparr>st_fee_micro := a, st_fee_from := f\<rparr>) = fresh_ledger q s" "fresh_ledger q (s\<lparr>st_fee_asset := c\<rparr>) = fresh_ledger q s"
  "state_ok X (s\<lparr>st_fee_micro := a, st_fee_from := f\<rparr>) = state_ok X s" "state_ok X (s\<lparr>st_fee_asset := c\<rparr>) = state_ok X s"
  by (simp_all add: fresh_ledger_def held_def bal_of_def esc_of_def pool_of_def state_ok_def supply_of_def burned_of_def)

lemma fresh_ledger_seal: "fresh_ledger q s \<Longrightarrow> fresh_ledger q (s\<lparr>st_pool := seal_anchor X (st_pool s)\<rparr>)"
  "state_ok X s \<Longrightarrow> state_ok X (s\<lparr>st_pool := seal_anchor X (st_pool s)\<rparr>)"
  by (simp_all add: fresh_ledger_def held_def bal_of_def esc_of_def pool_of_def state_ok_def pool_ok_seal supply_of_def burned_of_def)

lemma genesis_assets_known: "genesis_assets gas s = Ok s' \<Longrightarrow> bmap_get (st_assets s') b \<noteq> None \<longleftrightarrow> bmap_get (st_assets s) b \<noteq> None \<or> b \<in> gs_id ` set gas"
proof (induction gas s rule: genesis_assets.induct)
  case (2 ga rest s)
  then show ?case by (fastforce split: if_splits)
qed simp

lemma from_genesis_ok:
  assumes g: "from_genesis X g = Ok s"
  shows "state_ok X s"
    and "alloc_total q (g_alloc g) < 2 ^ 128 \<Longrightarrow> q \<in> gs_id ` set (g_assets g) \<or> alloc_total q (g_alloc g) = 0 \<Longrightarrow> conserved q s"
proof -
  let ?s0 = "(state_default X)\<lparr>st_height := 0, st_time := g_time g\<rparr>"
  from g obtain s1 s2 where a: "genesis_accounts (g_accounts g) ?s0 = Ok s1" and b: "genesis_assets (g_assets g) s1 = Ok s2"
    by (auto simp: from_genesis_def elim!: bind_ok_OkE)
  from genesis_accounts_frame [OF a] obtain m where m: "s1 = ?s0\<lparr>st_accounts := m\<rparr>" "bmap_ok m"
    by (auto simp: state_default_def bmap_ok_def)
  have "bmap_all (\<lambda>_ i. ai_supply i = 0 \<and> ai_burned i = 0) (st_assets s1)" by (simp add: m state_default_def bmap_all_def)
  from genesis_assets_frame [OF b this] obtain n where n: "s2 = s1\<lparr>st_assets := n\<rparr>" "bmap_ok n"
    "bmap_all (\<lambda>_ i. ai_supply i = 0 \<and> ai_burned i = 0) n"
    by (auto simp: m state_default_def bmap_ok_def)
  let ?s3 = "for_each (g_alloc g) genesis_alloc s2"
  define s4 where "s4 = (case g_fee g of
      Some f \<Rightarrow> (let s1 = ?s3\<lparr>st_fee_micro := gf_micro f, st_fee_from := gf_from_height f\<rparr>
                 in case gf_asset f of Some a \<Rightarrow> s1\<lparr>st_fee_asset := a\<rparr> | None \<Rightarrow> s1)
    | None \<Rightarrow> ?s3)"
  have s: "s = s4\<lparr>st_pool := seal_anchor X (st_pool s4)\<rparr>"
    using g unfolding from_genesis_def a bind_ok_simps b Let_def s4_def [unfolded Let_def, symmetric]
    by (auto split: option.splits if_splits)
  have "state_ok X s2" using state_default_ok [where X = X and h = 0 and t = "g_time g" and m = m and n = n] m(2) n(2) by (simp add: n(1) m(1))
  then have "state_ok X s4" using genesis_allocs_ok [of X s2] by (auto simp: s4_def Let_def fresh_ledger_fee split: option.split)
  then show "state_ok X s" unfolding s by (rule fresh_ledger_seal)
  assume room: "alloc_total q (g_alloc g) < 2 ^ 128" and known: "q \<in> gs_id ` set (g_assets g) \<or> alloc_total q (g_alloc g) = 0"
  have "bmap_get (st_assets s2) q = None \<Longrightarrow> alloc_total q (g_alloc g) = 0" using genesis_assets_known [OF b, of q] known by auto
  then have "fresh_ledger q ?s3"
    using empty_ledger_fresh [OF n(3), where X = X and h = 0 and t = "g_time g" and m = m and q = q] room by (intro genesis_allocs) (simp_all add: n(1) m(1))
  then have "fresh_ledger q s4" by (auto simp: s4_def Let_def fresh_ledger_fee split: option.split)
  then show "conserved q s" unfolding s by (intro fresh_ledger_conserved fresh_ledger_seal)
qed

section \<open>Chains of blocks\<close>

text \<open>A block the node hands over: height, time, transactions, precomputed verdicts and the
  aggregation coverage installed before it.\<close>

record Block =
  bk_height :: u64
  bk_time :: Timestamp
  bk_txs :: "SignedTx list"
  bk_verdicts :: "bool list option"
  bk_cover :: "H256 btree_set"

definition exec_block :: "'x state_env_scheme \<Rightarrow> State \<Rightarrow> Block \<Rightarrow> (Receipt list, StateError, State) step" where
  "exec_block X s b = apply_block_verified X (set_block_coverage s (bk_cover b)) (bk_height b) (bk_time b) (bk_txs b) (bk_verdicts b)"

definition block_start :: "Block \<Rightarrow> State \<Rightarrow> State" where
  "block_start b s = s\<lparr>st_agg_cover := bk_cover b, st_height := bk_height b, st_time := bk_time b\<rparr>"

text \<open>No unshielding of the asset that the block accepts takes more out of its pool than is in it.\<close>

definition unshields_backed :: "'x state_env_scheme \<Rightarrow> AssetId \<Rightarrow> State \<Rightarrow> Block \<Rightarrow> bool" where
  "unshields_backed X q s b = all_admissible (sound_tx X q) (exec_tx X)
     (tx_inputs 0 (bk_txs b) (bk_verdicts b)) (block_start b s)"

lemma cover_ok [simp]: "state_ok X (set_block_coverage s c) = state_ok X s" "conserved_but q d (set_block_coverage s c) = conserved_but q d s"
  by (simp_all add: set_block_coverage_def state_ok_def conserved_but_def held_def bal_of_def esc_of_def pool_of_def fees_of_def supply_of_def burned_of_def)

lemma all_admissible_trivial: "all_admissible (\<lambda>_ _. True) exec is s"
  by (induction "is" arbitrary: s) auto

lemma exec_block_state_ok:
  assumes "state_ok X s"
  shows "state_ok X (snd (exec_block X s b))"
proof (rule apply_block_verified_cases [of X "set_block_coverage s (bk_cover b)" "bk_height b" "bk_time b" "bk_txs b" "bk_verdicts b"])
  fix receipts s1
  let ?s2 = "fold_steps (exec_tx X) (tx_inputs 0 (bk_txs b) (bk_verdicts b)) s1"
  assume s1: "s1 = (set_block_coverage s (bk_cover b))\<lparr>st_height := bk_height b, st_time := bk_time b\<rparr>"
    and run: "apply_block_verified X (set_block_coverage s (bk_cover b)) (bk_height b) (bk_time b) (bk_txs b) (bk_verdicts b) = (Ok receipts, end_block X ?s2)"
  have "state_ok X s1" using assms by (simp add: s1)
  then have "state_ok X ?s2" by (rule ledger.run_keeps_inv [OF _ all_admissible_trivial])
  then show ?thesis by (simp add: exec_block_def run end_block_ok)
qed (simp_all add: exec_block_def assms)

lemma exec_block_conserves:
  assumes "state_ok X s" and "conserved q s" and adm: "unshields_backed X q s b"
  shows "conserved q (snd (exec_block X s b))"
proof (rule apply_block_verified_cases [of X "set_block_coverage s (bk_cover b)" "bk_height b" "bk_time b" "bk_txs b" "bk_verdicts b"])
  fix receipts s1
  let ?s2 = "fold_steps (exec_tx X) (tx_inputs 0 (bk_txs b) (bk_verdicts b)) s1"
  assume s1: "s1 = (set_block_coverage s (bk_cover b))\<lparr>st_height := bk_height b, st_time := bk_time b\<rparr>"
    and run: "apply_block_verified X (set_block_coverage s (bk_cover b)) (bk_height b) (bk_time b) (bk_txs b) (bk_verdicts b) = (Ok receipts, end_block X ?s2)"
  have "state_ok X s1 \<and> conserved q s1" using assms by (simp add: s1)
  moreover have "all_admissible (sound_tx X q) (exec_tx X) (tx_inputs 0 (bk_txs b) (bk_verdicts b)) s1"
    using adm by (simp add: s1 unshields_backed_def block_start_def set_block_coverage_def)
  ultimately have "conserved q ?s2" using conserving.run_keeps_inv [of X s1 q] by blast
  then show ?thesis by (simp add: exec_block_def run end_block_conserves)
qed (simp_all add: exec_block_def assms)

lemma exec_block_clean_outcome:
  assumes "state_ok X s"
  shows "fst (exec_block X s b) \<noteq> Panic"
  by (rule apply_block_verified_cases [of X "set_block_coverage s (bk_cover b)" "bk_height b" "bk_time b" "bk_txs b" "bk_verdicts b"])
    (simp_all add: exec_block_def assms)

interpretation chain: transactional "\<lambda>s. state_ok X s \<and> conserved q s"
  "unshields_backed X q" "\<lambda>s b. (case exec_block X s b of (Err e, _) \<Rightarrow> (Err e, s) | r \<Rightarrow> r)" for X q
proof (unfold_locales, goal_cases)
  case (1 s b)
  then show ?case using exec_block_clean_outcome [of X s b] by (auto split: prod.split outcome.split)
next
  case (2 s b r s')
  then have "exec_block X s b = (Ok r, s')" by (auto split: prod.splits outcome.splits)
  with 2 show ?case using exec_block_state_ok [of X s b] exec_block_conserves [of X s q b] by simp
qed

section \<open>The conservation view\<close>

lemma for_each_sat_sum:
  assumes "\<And>x h. f x h = (if P x then saturating_add h (g x) else h)"
    and "unat h + sum_list (map (\<lambda>x. if P x then unat (g x) else 0) xs) < 2 ^ 128"
  shows "unat (for_each xs f (h :: Amount)) = unat h + sum_list (map (\<lambda>x. if P x then unat (g x) else 0) xs)"
  using assms(2)
proof (induction xs arbitrary: h)
  case (Cons x xs)
  have "unat (f x h) = unat h + (if P x then unat (g x) else 0)"
    using Cons.prems by (cases "P x") (simp_all add: assms(1) unat_saturating_add)
  with Cons show ?case by simp
qed simp

lemma balances_view:
  assumes "bal_of a s < 2 ^ 128"
  shows "unat (for_each (st_balances s) (\<lambda>((_, c), amt) h. if c = a then saturating_add h amt else h) 0) = bal_of a s"
proof -
  have eq: "sum_list (map (\<lambda>x. if snd (fst x) = a then unat (snd x) else 0) (st_balances s)) = bal_of a s"
    by (simp add: bal_of_def bmap_sum_def case_prod_unfold)
  show ?thesis
    using for_each_sat_sum [of "\<lambda>((_, c), amt) h. if c = a then saturating_add h amt else h" "\<lambda>x. snd (fst x) = a" snd 0 "st_balances s"]
      assms eq by (simp add: case_prod_unfold)
qed

lemma escrow_view:
  assumes "unat h + esc_of a s < 2 ^ 128"
  shows "unat (for_each (st_channels s) (\<lambda>(_, ch) h. if cs_asset (ch_state ch) = a then saturating_add h (ch_escrow_remaining ch) else h) h)
    = unat h + esc_of a s"
proof -
  have eq: "sum_list (map (\<lambda>x. if cs_asset (ch_state (snd x)) = a then unat (ch_escrow_remaining (snd x)) else 0) (st_channels s)) = esc_of a s"
    by (simp add: esc_of_def bmap_sum_def case_prod_unfold)
  show ?thesis
    using for_each_sat_sum [of "\<lambda>(_, ch) h. if cs_asset (ch_state ch) = a then saturating_add h (ch_escrow_remaining ch) else h"
        "\<lambda>x. cs_asset (ch_state (snd x)) = a" "\<lambda>x. ch_escrow_remaining (snd x)" h "st_channels s"]
      assms eq by (simp add: case_prod_unfold)
qed

lemma conservation_view:
  assumes con: "conserved a s" and r: "bmap_get (st_assets s) a = Some info"
  obtains h where "asset_conservation s a = Some (h, h)" "unat h = held a s"
proof -
  note eq = conserved_butD [OF con]
  define h1 where "h1 = for_each (st_balances s) (\<lambda>((_, c), amt) h. if c = a then saturating_add h amt else h) 0"
  define h2 where "h2 = for_each (st_channels s) (\<lambda>(_, ch) h. if cs_asset (ch_state ch) = a then saturating_add h (ch_escrow_remaining ch) else h) h1"
  define h3 where "h3 = (if ps_asset (st_pool s) = Some a then saturating_add h2 (ps_total_shielded (st_pool s)) else h2)"
  define h4 where "h4 = (case bmap_get (st_pools s) a of Some p \<Rightarrow> saturating_add h3 (ps_total_shielded p) | None \<Rightarrow> h3)"
  define q1 where "q1 = saturating_sub (ai_supply info) (ai_burned info)"
  define q2 where "q2 = (if a = st_fee_asset s then saturating_sub q1 (st_fees_burned s) else q1)"
  have lt: "held a s < 2 ^ 128" by (rule eq(2))
  have "unat h1 = bal_of a s" unfolding h1_def by (rule balances_view) (use lt in \<open>simp add: held_def\<close>)
  then have h2: "unat h2 = bal_of a s + esc_of a s" unfolding h2_def by (subst escrow_view) (use lt in \<open>simp_all add: held_def\<close>)
  have h3: "unat h3 = unat h2 + (if ps_asset (st_pool s) = Some a then unat (ps_total_shielded (st_pool s)) else 0)"
    using lt h2 by (cases "ps_asset (st_pool s) = Some a") (simp_all add: h3_def unat_saturating_add held_def pool_of_def)
  have "unat h4 = unat h3 + (case bmap_get (st_pools s) a of Some p \<Rightarrow> unat (ps_total_shielded p) | None \<Rightarrow> 0)"
    using lt h2 h3 by (auto simp: h4_def unat_saturating_add held_def pool_of_def split: option.splits)
  then have h4: "unat h4 = held a s" using h2 h3 by (simp add: held_def pool_of_def)
  have "unat q2 = held a s" using eq(1) r by (auto simp: q2_def q1_def unat_saturating_sub fees_of_def)
  then have "q2 = h4" using h4 by (simp add: word_unat_eq_iff)
  moreover have "asset_conservation s a = Some (h4, q2)"
    unfolding asset_conservation_def r option.case Let_def h4_def h3_def h2_def h1_def q2_def q1_def by (rule refl)
  ultimately show ?thesis using that h4 by simp
qed

end
