(* ===== verification/HK_Chain.thy ===== *)
theory HK_Chain
  imports HK_Blocks
begin

text \<open>
  The states a node can be in, from genesis on, and what holds of every transaction and block
  there: conservation, all-or-nothing transactions, total blocks, the nonce ratchet, channel
  escrows, nullifiers, the asset gate and the authority behind every debit.
\<close>

section \<open>Chain states\<close>

text \<open>A node builds its state from genesis, installs its proof verifier and the activation heights
  of the protocol revisions, and executes blocks.\<close>

inductive chain_state :: "'x state_env_scheme \<Rightarrow> State \<Rightarrow> bool" for X where
  genesis: "from_genesis X g = Ok s \<Longrightarrow> chain_state X s"
| configure: "chain_state X s \<Longrightarrow> chain_state X (s\<lparr>st_verifier := v, st_multi_pool_from := a, st_mandate_asset_from := m, st_payword_cap_from := c\<rparr>)"
| block: "chain_state X s \<Longrightarrow> exec_block X s b = (Ok r, s') \<Longrightarrow> chain_state X s'"

text \<open>The same from a given genesis, with blocks in which no accepted unshielding of one asset takes more than its pool holds.\<close>

inductive backed_chain :: "'x state_env_scheme \<Rightarrow> AssetId \<Rightarrow> Genesis \<Rightarrow> State \<Rightarrow> bool" for X q g where
  backed_genesis: "from_genesis X g = Ok s \<Longrightarrow> backed_chain X q g s"
| backed_configure: "backed_chain X q g s \<Longrightarrow>
    backed_chain X q g (s\<lparr>st_verifier := v, st_multi_pool_from := a, st_mandate_asset_from := m, st_payword_cap_from := c\<rparr>)"
| backed_block: "backed_chain X q g s \<Longrightarrow> unshields_backed X q s b \<Longrightarrow> exec_block X s b = (Ok r, s') \<Longrightarrow> backed_chain X q g s'"

lemma configure_ok [simp]:
  "state_ok X (s\<lparr>st_verifier := v, st_multi_pool_from := a, st_mandate_asset_from := m, st_payword_cap_from := c\<rparr>) = state_ok X s"
  "conserved_but q d (s\<lparr>st_verifier := v, st_multi_pool_from := a, st_mandate_asset_from := m, st_payword_cap_from := c\<rparr>) = conserved_but q d s"
  by (simp_all add: state_ok_def conserved_but_def held_def bal_of_def esc_of_def pool_of_def fees_of_def supply_of_def burned_of_def)

lemma chain_state_ok: "chain_state X s \<Longrightarrow> state_ok X s"
proof (induction rule: chain_state.induct)
  case (genesis g s)
  then show ?case by (rule from_genesis_ok)
next
  case (block s b r s')
  then show ?case using exec_block_state_ok [of X s b] by simp
qed simp

lemma backed_chain_state: "backed_chain X q g s \<Longrightarrow> chain_state X s"
  by (induction rule: backed_chain.induct) (auto intro: chain_state.intros)

lemma backed_chain_conserved:
  assumes "backed_chain X q g s" and "alloc_total q (g_alloc g) < 2 ^ 128" and "q \<in> gs_id ` set (g_assets g) \<or> alloc_total q (g_alloc g) = 0"
  shows "conserved q s"
  using assms(1)
proof (induction rule: backed_chain.induct)
  case (backed_genesis s)
  then show ?case using assms(2,3) by (rule from_genesis_ok(2))
next
  case (backed_block s b r s')
  then show ?case
    using chain_state_ok [OF backed_chain_state [OF backed_block.hyps(1)]] exec_block_conserves [of X s q b] by simp
qed simp

section \<open>Nonces\<close>

lemma apply_tx_at_nonce:
  assumes "apply_tx_at X s stx pre = (r, s')" and "state_ok X s" and "bmap_get (st_accounts s) i = Some acc"
  obtains acc' where "bmap_get (st_accounts s') i = Some acc'"
    "acc_nonce acc' = (if i = stx_sender stx \<and> (\<exists>ev. r = Ok ev) then acc_nonce acc + 1 else acc_nonce acc)"
proof (cases r)
  case (Ok ev)
  with assms(1) have "apply_tx_at X s stx pre = (Ok ev, s')" by simp
  then show ?thesis
  proof (rule apply_tx_at_OkE)
    fix a s2
    assume a: "bmap_get (st_accounts s) (stx_sender stx) = Some a"
      and d: "dispatch X (fee_paid s stx) (stx_sender stx) (stx_payload stx) = (Ok ev, s2)" and s': "s' = settled s2 (envelope_fee s) stx a"
    have "bmap_get (st_accounts s2) i = Some acc" using dispatch_frame(1) [OF d] assms(3) by simp
    then show ?thesis using that a assms(3) Ok by (cases "i = stx_sender stx") (auto simp: s')
  qed
next
  case (Err e)
  then have "s' = s" using apply_tx_at_clean [OF state_okD(1) [OF assms(2)], of X stx pre] assms(1) by simp
  with Err that assms(3) show ?thesis by simp
next
  case Panic
  then show ?thesis using apply_tx_at_clean [OF state_okD(1) [OF assms(2)], of X stx pre] assms(1) by simp
qed

text \<open>Over a run of transactions an account's nonce advances by the number it sent successfully.\<close>

lemma run_nonce:
  assumes "state_ok X s" and "bmap_get (st_accounts s) i = Some acc"
  shows "\<exists>acc' j. bmap_get (st_accounts (fold_steps (exec_tx X) txs s)) i = Some acc' \<and> acc_nonce acc' = acc_nonce acc + of_nat j \<and> j \<le> length txs"
  using assms
proof (induction txs arbitrary: s acc)
  case Nil
  then show ?case by (intro exI [of _ acc] exI [of _ 0]) simp
next
  case (Cons x txs)
  obtain stx pre where x: "x = (stx, pre)" by (cases x)
  obtain r s' where r: "apply_tx_at X s stx pre = (r, s')" by fastforce
  obtain acc' where acc': "bmap_get (st_accounts s') i = Some acc'"
    "acc_nonce acc' = (if i = stx_sender stx \<and> (\<exists>ev. r = Ok ev) then acc_nonce acc + 1 else acc_nonce acc)"
    using apply_tx_at_nonce [OF r Cons.prems] by blast
  have "state_ok X s'" using ledger.exec_keeps_inv [OF Cons.prems(1), of "(stx, pre)"] r by simp
  from Cons.IH [OF this acc'(1)] obtain a2 j where "bmap_get (st_accounts (fold_steps (exec_tx X) txs s')) i = Some a2"
    "acc_nonce a2 = acc_nonce acc' + of_nat j" "j \<le> length txs" by blast
  then show ?case using acc'(2) r x
    by (intro exI [of _ a2] exI [of _ "if i = stx_sender stx \<and> (\<exists>ev. r = Ok ev) then Suc j else j"]) (simp add: add.assoc)
qed

lemma block_start_ok: "state_ok X (block_start b s) = state_ok X s" "st_accounts (block_start b s) = st_accounts s"
  by (simp_all add: block_start_def state_ok_def)

lemma length_tx_inputs [simp]: "length (tx_inputs i txs v) = length txs"
  by (induction txs arbitrary: i) simp_all

text \<open>Nor does a block take a nonce back, whether it is executed or refused.\<close>

lemma exec_block_nonce:
  assumes "state_ok X s" and "bmap_get (st_accounts s) i = Some acc"
  shows "\<exists>acc' j. bmap_get (st_accounts (snd (exec_block X s b))) i = Some acc' \<and> acc_nonce acc' = acc_nonce acc + of_nat j \<and> j \<le> length (bk_txs b)"
proof (rule apply_block_verified_cases [of X "set_block_coverage s (bk_cover b)" "bk_height b" "bk_time b" "bk_txs b" "bk_verdicts b"])
  fix receipts s1
  let ?s2 = "fold_steps (exec_tx X) (tx_inputs 0 (bk_txs b) (bk_verdicts b)) s1"
  assume s1: "s1 = (set_block_coverage s (bk_cover b))\<lparr>st_height := bk_height b, st_time := bk_time b\<rparr>"
    and run: "apply_block_verified X (set_block_coverage s (bk_cover b)) (bk_height b) (bk_time b) (bk_txs b) (bk_verdicts b) = (Ok receipts, end_block X ?s2)"
  have "state_ok X s1" "bmap_get (st_accounts s1) i = Some acc" using assms by (simp_all add: s1) (simp add: set_block_coverage_def)
  from run_nonce [OF this, of "tx_inputs 0 (bk_txs b) (bk_verdicts b)"] show ?thesis by (simp add: exec_block_def run end_block_def)
next
  fix e
  assume "apply_block_verified X (set_block_coverage s (bk_cover b)) (bk_height b) (bk_time b) (bk_txs b) (bk_verdicts b)
      = (Err e, set_block_coverage s (bk_cover b))"
  then show ?thesis using assms(2) by (intro exI [of _ acc] exI [of _ 0]) (simp add: exec_block_def set_block_coverage_def)
qed (simp add: assms(1))

lemma blocks_nonce:
  assumes "state_ok X s" and "bmap_get (st_accounts s) i = Some acc"
  shows "\<exists>acc' j. bmap_get (st_accounts (fold_steps (exec_block X) bs s)) i = Some acc' \<and> acc_nonce acc' = acc_nonce acc + of_nat j
    \<and> j \<le> sum_list (map (\<lambda>b. length (bk_txs b)) bs) \<and> state_ok X (fold_steps (exec_block X) bs s)"
  using assms
proof (induction bs arbitrary: s acc)
  case Nil
  then show ?case by (intro exI [of _ acc] exI [of _ 0]) simp
next
  case (Cons b bs)
  obtain a1 j1 where 1: "bmap_get (st_accounts (snd (exec_block X s b))) i = Some a1" "acc_nonce a1 = acc_nonce acc + of_nat j1" "j1 \<le> length (bk_txs b)"
    using exec_block_nonce [OF Cons.prems, of b] by blast
  from Cons.IH [OF exec_block_state_ok [OF Cons.prems(1)] 1(1)] obtain a2 j2
    where "bmap_get (st_accounts (fold_steps (exec_block X) (b # bs) s)) i = Some a2" "acc_nonce a2 = acc_nonce a1 + of_nat j2"
      "j2 \<le> sum_list (map (\<lambda>b. length (bk_txs b)) bs)" "state_ok X (fold_steps (exec_block X) (b # bs) s)" by auto
  with 1(2,3) show ?case by (intro exI [of _ a2] exI [of _ "j1 + j2"]) (simp add: add.assoc)
qed

lemma of_nat_u64_nonzero: "0 < n \<Longrightarrow> n < 2 ^ 64 \<Longrightarrow> (of_nat n :: u64) \<noteq> 0"
  using word_of_nat_eq_0_iff [of n, where 'a = 64] by (auto dest: dvd_imp_le)

lemma bad_nonce_refused:
  assumes "bmap_get (st_accounts s) (stx_sender stx) = Some acc" and "stx_nonce stx \<noteq> acc_nonce acc"
  shows "apply_tx_at X s stx pre = (Err (BadNonce (acc_nonce acc) (stx_nonce stx)), s)"
  using assms by (simp add: apply_tx_at_def check_envelope_def)

section \<open>Nullifiers\<close>

definition spent_in :: "State \<Rightarrow> PoolKey \<Rightarrow> H256 \<Rightarrow> bool" where
  "spent_in s key nf = is_some_and (pool_ref s key) (\<lambda>p. bset_contains (ps_nullifiers p) nf)"

lemma spent_in_put_pool:
  "spent_in (put_pool s k p) key nf = (if key = k then bset_contains (ps_nullifiers p) nf else spent_in s key nf)"
  by (auto simp: spent_in_def put_pool_def pool_ref_def is_some_and_def split: PoolKey.splits)

lemma spent_in_frame [simp]:
  "spent_in (debited s i a x) key nf = spent_in s key nf" "spent_in (credit s i a x) key nf = spent_in s key nf"
  "spent_in (put_asset s a info) key nf = spent_in s key nf" "spent_in (with_account s i c) key nf = spent_in s key nf"
  "spent_in (s\<lparr>st_mandates := t\<rparr>) key nf = spent_in s key nf" "spent_in (s\<lparr>st_channels := m\<rparr>) key nf = spent_in s key nf"
  "spent_in (s\<lparr>st_root_funding := f\<rparr>) key nf = spent_in s key nf" "spent_in (settled s fee stx acc) key nf = spent_in s key nf"
  "spent_in (fee_paid s stx) key nf = spent_in s key nf"
  by (auto simp: spent_in_def pool_ref_def split: PoolKey.split)

lemma mint_target_spent:
  "spent_in s key nf \<Longrightarrow> bset_contains (ps_nullifiers (mint_target X s key)) nf"
  by (auto simp: spent_in_def mint_target_def pool_ref_def is_some_and_def split: PoolKey.splits option.splits)

lemma dispatch_spent_grows:
  assumes "dispatch X s snd_acc tx = (Ok ev, s')" and "spent_in s key nf"
  shows "spent_in s' key nf"
proof (cases tx)
  case (MintToPool a v c pf ct)
  with assms(1) have "do_mint_to_pool X s snd_acc a v c pf = (Ok ev, s')" by simp
  then show ?thesis
    by (rule do_mint_to_pool_OkE) (use assms(2) mint_target_spent [of s key nf X] in \<open>auto simp: spent_in_put_pool\<close>)
next
  case (ShieldedSpend anchor n2 out out2 fee credit_to mandate pf ct ct2)
  with assms(1) have "do_shielded_spend X s snd_acc anchor n2 out out2 fee credit_to mandate pf = (Ok ev, s')" by simp
  then show ?thesis
  proof (rule do_shielded_spend_OkE)
    fix key2 pool t p'
    assume ref: "pool_ref s key2 = Some pool" and e: "pool_spend_effects X pool n2 out out2 fee = Some p'"
      and s': "(fee = 0 \<and> s' = put_pool (s\<lparr>st_mandates := t\<rparr>) key2 p') \<or>
       (\<exists>to_acc a. 0 < fee \<and> credit_to = Some to_acc \<and> pool_asset s key2 = Some a \<and> asset_gate s a None (Some to_acc) = Ok ()
        \<and> s' = credit (put_pool (s\<lparr>st_mandates := t\<rparr>) key2 p') to_acc a fee)"
    have "bset_contains (ps_nullifiers p') nf" if "bset_contains (ps_nullifiers pool) nf"
      using e that by (auto elim!: pool_spend_effects_cases)
    then show ?thesis using s' assms(2) ref by (auto simp: spent_in_put_pool) (auto simp: spent_in_def is_some_and_def)
  qed
next
  case (MandateCreate i parent holder a rate bmax ptx init expiry tier)
  with assms(1) have "do_mandate_create s snd_acc i parent holder a rate bmax ptx init expiry tier = (Ok ev, s')" by simp
  then show ?thesis
    by (rule do_mandate_create_OkE) (use assms(2) in simp)
qed (use assms in \<open>auto elim!: handlers_OkE\<close>)

lemma exec_tx_spent_grows:
  assumes "state_ok X s" and "spent_in s key nf"
  shows "spent_in (snd (exec_tx X s (stx, pre))) key nf"
proof (cases "fst (apply_tx_at X s stx pre)")
  case (Ok ev)
  then have "apply_tx_at X s stx pre = (Ok ev, snd (apply_tx_at X s stx pre))" by (metis prod.collapse)
  then show ?thesis
    by (rule apply_tx_at_OkE) (use assms(2) in \<open>auto intro: dispatch_spent_grows\<close>)
qed (use assms ledger.exec_refused [OF assms(1), of "(stx, pre)"] ledger.exec_never_panics [OF assms(1), of "(stx, pre)"] in auto)

lemma run_spent_grows: "state_ok X s \<Longrightarrow> spent_in s key nf \<Longrightarrow> spent_in (fold_steps (exec_tx X) txs s) key nf"
proof (induction txs arbitrary: s)
  case (Cons x txs)
  obtain stx pre where x: "x = (stx, pre)" by (cases x)
  have "state_ok X (snd (exec_tx X s x))" using ledger.exec_keeps_inv [OF Cons.prems(1), of x] by simp
  then show ?case using Cons.IH exec_tx_spent_grows [OF Cons.prems, of stx pre] by (simp add: x)
qed simp

lemma end_block_spent [simp]: "spent_in (end_block X s) key nf = spent_in s key nf"
  by (cases key) (auto simp: spent_in_def end_block_def pool_ref_def is_some_and_def split: option.split)

lemma exec_block_spent_grows:
  assumes "state_ok X s" and "spent_in s key nf"
  shows "spent_in (snd (exec_block X s b)) key nf"
proof (rule apply_block_verified_cases [of X "set_block_coverage s (bk_cover b)" "bk_height b" "bk_time b" "bk_txs b" "bk_verdicts b"])
  fix receipts s1
  let ?s2 = "fold_steps (exec_tx X) (tx_inputs 0 (bk_txs b) (bk_verdicts b)) s1"
  assume s1: "s1 = (set_block_coverage s (bk_cover b))\<lparr>st_height := bk_height b, st_time := bk_time b\<rparr>"
    and run: "apply_block_verified X (set_block_coverage s (bk_cover b)) (bk_height b) (bk_time b) (bk_txs b) (bk_verdicts b) = (Ok receipts, end_block X ?s2)"
  have "state_ok X s1" "spent_in s1 key nf"
    using assms by (simp_all add: s1) (simp add: spent_in_def pool_ref_def set_block_coverage_def split: PoolKey.splits)
  then have "spent_in ?s2 key nf" by (rule run_spent_grows)
  then show ?thesis by (simp add: exec_block_def run)
next
  have "spent_in (set_block_coverage s c) key nf" for c
    using assms(2) by (simp add: spent_in_def pool_ref_def set_block_coverage_def split: PoolKey.splits)
  moreover fix e
  assume "apply_block_verified X (set_block_coverage s (bk_cover b)) (bk_height b) (bk_time b) (bk_txs b) (bk_verdicts b)
      = (Err e, set_block_coverage s (bk_cover b))"
  ultimately show ?thesis by (simp add: exec_block_def)
qed (simp add: assms)

lemma shielded_spend_marks:
  assumes "do_shielded_spend X s snd_acc anchor nf out out2 fee credit_to mandate pf = (Ok ev, s')"
  obtains key where "pool_key_of_anchor s anchor = Some key" "\<not> spent_in s key nf" "spent_in s' key nf"
  using assms
proof (rule do_shielded_spend_OkE)
  fix key pool t p'
  assume k: "pool_key_of_anchor s anchor = Some key" and ref: "pool_ref s key = Some pool" and n: "\<not> bset_contains (ps_nullifiers pool) nf"
    and e: "pool_spend_effects X pool nf out out2 fee = Some p'"
    and s': "(fee = 0 \<and> s' = put_pool (s\<lparr>st_mandates := t\<rparr>) key p') \<or>
       (\<exists>to_acc a. 0 < fee \<and> credit_to = Some to_acc \<and> pool_asset s key = Some a \<and> asset_gate s a None (Some to_acc) = Ok ()
        \<and> s' = credit (put_pool (s\<lparr>st_mandates := t\<rparr>) key p') to_acc a fee)"
  have "bset_contains (ps_nullifiers p') nf" using e by (auto elim!: pool_spend_effects_cases)
  then have "spent_in s' key nf" using s' by (auto simp: spent_in_put_pool)
  moreover have "\<not> spent_in s key nf" using ref n by (simp add: spent_in_def is_some_and_def)
  ultimately show ?thesis using that k by blast
qed

end
