(* ===== verification/HK_Properties.thy ===== *)
theory HK_Properties
  imports HK_Chain
begin

text \<open>
  The ledger's properties, with a small concrete chain on which each of them applies.
\<close>

section \<open>Blocks and verdicts\<close>

lemma check_envelope_verdict: "check_envelope X s stx (Some (verify_envelope X stx)) = check_envelope X s stx None"
  by (simp add: check_envelope_def)

lemma apply_tx_verdict: "apply_tx_at X s stx (Some (verify_envelope X stx)) = apply_tx_at X s stx None"
  by (simp add: apply_tx_at_def check_envelope_verdict)

lemma apply_txs_verdicts:
  "apply_txs X (length pre) txs (Some (map (verify_envelope X) (pre @ txs))) s rs = apply_txs X (length pre) txs None s rs"
proof (induction txs arbitrary: pre s rs)
  case (Cons stx rest)
  have "map (verify_envelope X) (pre @ stx # rest) ! length pre = verify_envelope X stx" by (simp add: nth_append)
  then have "apply_tx_at X s stx (map_option (\<lambda>v. v ! length pre) (Some (map (verify_envelope X) (pre @ stx # rest))))
      = apply_tx_at X s stx None"
    by (simp only: option.map apply_tx_verdict)
  moreover have "apply_txs X (Suc (length pre)) rest (Some (map (verify_envelope X) (pre @ stx # rest))) s rs
      = apply_txs X (Suc (length pre)) rest None s rs" for s rs
    using Cons.IH [of "pre @ [stx]" s rs] by simp
  ultimately show ?case by (simp only: apply_txs.simps option.map)
qed simp

text \<open>C15: applying a block with signature verdicts computed beforehand, in parallel and outside the
  state, gives exactly the receipts and the state of verifying each envelope inline.\<close>

theorem verdicts_as_inline:
  "apply_block_verified X s h t txs (Some (map (verify_envelope X) txs)) = apply_block X s h t txs"
  using apply_txs_verdicts [of X "[]" txs]
  by (simp add: apply_block_def apply_block_verified_def is_some_and_def)

lemma exec_tx_clock:
  assumes "state_ok X s"
  shows "st_height (snd (exec_tx X s x)) = st_height s" "st_time (snd (exec_tx X s x)) = st_time s"
proof -
  obtain stx pre where x: "x = (stx, pre)" by (cases x)
  obtain r s' where r: "apply_tx_at X s stx pre = (r, s')" by fastforce
  have "st_height s' = st_height s \<and> st_time s' = st_time s"
  proof (cases r)
    case (Ok ev)
    then show ?thesis using r by (auto elim!: apply_tx_at_OkE dest: dispatch_frame(2,3))
  qed (use r apply_tx_at_clean [OF state_okD(1) [OF assms], of X stx pre] in auto)
  then show "st_height (snd (exec_tx X s x)) = st_height s" "st_time (snd (exec_tx X s x)) = st_time s" by (simp_all add: x r)
qed

lemma run_clock:
  "state_ok X s \<Longrightarrow> st_height (fold_steps (exec_tx X) txs s) = st_height s \<and> st_time (fold_steps (exec_tx X) txs s) = st_time s"
proof (induction txs arbitrary: s)
  case (Cons x txs)
  have "state_ok X (snd (exec_tx X s x))" using ledger.exec_keeps_inv [OF Cons.prems, of x] by simp
  then show ?case using Cons.IH exec_tx_clock [OF Cons.prems, of x] by simp
qed simp

section \<open>A small chain\<close>

definition sample_env :: state_env where
  "sample_env = \<lparr>xof256 = xof256 sample_hash, sha256 = sha256 sample_hash, json_tx = \<lambda>_. Some [], json_mandate = \<lambda>_. Some [],
     json_channel = \<lambda>_. Some [], bincode_spend = \<lambda>_. Some [], bincode_mint = \<lambda>_. Some []\<rparr>"

definition sample_info :: AssetInfo where
  "sample_info = \<lparr>ai_symbol = ''USDC'', ai_decimals = 6, ai_issuer = 1, ai_policy = policy_default, ai_supply = 100,
     ai_burned = 0, ai_paused = False, ai_frozen = [], ai_registered_at = 0\<rparr>"

definition sample_genesis :: Genesis where
  "sample_genesis = \<lparr>g_time = 0,
     g_accounts = [\<lparr>ga_id = 1, ga_auth_commit = pk_commit sample_env []\<rparr>, \<lparr>ga_id = 2, ga_auth_commit = 8\<rparr>],
     g_alloc = [(1, 7, 100)], g_fee = Some \<lparr>gf_micro = 1, gf_from_height = 0, gf_asset = Some 7\<rparr>,
     g_assets = [\<lparr>gs_id = 7, gs_symbol = ''USDC'', gs_decimals = 6, gs_issuer = 1, gs_policy = policy_default\<rparr>]\<rparr>"

definition sample_state :: State where
  "sample_state =
     \<lparr>st_height = 0, st_time = 0,
      st_accounts = [(1, \<lparr>acc_auth_commit = pk_commit sample_env [], acc_nonce = 0\<rparr>), (2, \<lparr>acc_auth_commit = 8, acc_nonce = 0\<rparr>)],
      st_balances = [((1, 7), 100)], st_mandates = tree_new,
      st_root_funding = [], st_channels = [], st_pool = seal_anchor sample_env (pool_default sample_env), st_verifier = RejectAllVerifier,
      st_agg_cover = [], st_fee_micro = 1, st_fee_from = 0, st_fees_burned = 0, st_fee_asset = 7,
      st_assets = [(7, sample_info)], st_pools = [], st_multi_pool_from = - 1, st_mandate_asset_from = - 1,
      st_payword_cap_from = - 1\<rparr>"

definition sample_tx :: SignedTx where
  "sample_tx = \<lparr>stx_sender = 1, stx_nonce = 0, stx_payload = Transfer 2 7 30, stx_next_auth = 9, stx_lamport_pk = [], stx_sig = []\<rparr>"

lemma sample_symbol: "valid_symbol ''USDC''"
  by (simp add: valid_symbol_def str_bytes_def MAX_SYMBOL_LEN_def is_ascii_alphabetic_def is_ascii_alphanumeric_def)

lemma sample_genesis_runs: "from_genesis sample_env sample_genesis = Ok sample_state"
  by (simp add: from_genesis_def sample_genesis_def state_default_def sample_symbol bmap_contains_def MAX_DECIMALS_def
      genesis_alloc_def credit_def saturating_add_def policy_default_def sample_state_def sample_info_def Let_def)

lemma sample_chain: "chain_state sample_env sample_state"
  by (rule chain_state.genesis [OF sample_genesis_runs])

lemmas sample_ok = chain_state_ok [OF sample_chain]

lemma sample_tx_accepted: "\<exists>ev s'. apply_tx_at sample_env sample_state sample_tx (Some True) = (Ok ev, s')"
  by (simp add: apply_tx_at_def check_envelope_def sample_state_def sample_tx_def envelope_fee_def balance_def debit_def
      do_transfer_def asset_gate_def sample_info_def is_some_and_def credit_def ratchet_def Let_def)

section \<open>Who loses and who gains\<close>

lemma asset_gate_Ok_iff:
  "asset_gate s a f t = Ok () \<longleftrightarrow> (\<forall>info. bmap_get (st_assets s) a = Some info \<longrightarrow> \<not> ai_paused info
     \<and> (\<forall>i. f = Some i \<or> t = Some i \<longrightarrow> \<not> bset_contains (ai_frozen info) i))"
  by (auto simp: asset_gate_def is_some_and_def split: option.splits if_splits)

lemma balance_frame [simp]:
  "balance (s\<lparr>st_mandates := m\<rparr>) i a = balance s i a" "balance (s\<lparr>st_channels := c\<rparr>) i a = balance s i a"
  "balance (s\<lparr>st_root_funding := f\<rparr>) i a = balance s i a" "balance (put_asset s b info) i a = balance s i a"
  "balance (put_pool s key p) i a = balance s i a" "balance (with_account s j c2) i a = balance s i a"
  "balance (settled s fee stx acc) i a = balance s i a"
  by (simp_all add: balance_def)

lemma saturating_add_mono: "x \<le> saturating_add x y" for x y :: "'a::len word"
proof -
  have "unat x \<le> 2 ^ LENGTH('a) - 1" by (rule unat_bounded)
  then show ?thesis by (simp add: word_le_nat_alt unat_saturating_add)
qed

text \<open>The accounts an accepted transaction debits: its sender, or the account that funds the root
  of a mandate whose leaf the sender holds.\<close>

fun drawn_leaf :: "Tx \<Rightarrow> MandateId option" where
  "drawn_leaf (MandateSpend leaf _ _) = Some leaf"
| "drawn_leaf (ChannelOpen _ m _ _ _ _ _ _) = Some m"
| "drawn_leaf _ = None"

definition may_debit :: "State \<Rightarrow> AccountId \<Rightarrow> Tx \<Rightarrow> AccountId \<Rightarrow> bool" where
  "may_debit s sender tx i \<longleftrightarrow> i = sender \<or>
     (case drawn_leaf tx of Some leaf \<Rightarrow> holder_of s leaf = Ok sender \<and> funder_of s leaf = Ok i | None \<Rightarrow> False)"

lemma dispatch_debits:
  assumes "dispatch X s snd_acc tx = (Ok ev, s')" and "balance s' i a < balance s i a"
  shows "may_debit s snd_acc tx i"
proof (rule ccontr)
  assume n: "\<not> may_debit s snd_acc tx i"
  have up: "\<not> saturating_add (balance s i a) x < balance s i a" for x by (simp add: not_less saturating_add_mono)
  show False
    using assms n up
    by (cases tx) (auto elim!: handlers_OkE simp: may_debit_def balance_credit balance_debited split: if_splits)
qed

lemma dispatch_gated:
  assumes "dispatch X s snd_acc tx = (Ok ev, s')" and "balance s' i a \<noteq> balance s i a" and "bmap_get (st_assets s) a = Some info"
  shows "\<not> ai_paused info \<and> \<not> bset_contains (ai_frozen info) i"
  using assms
  by (cases tx)
    (auto elim!: handlers_OkE simp: balance_credit balance_debited asset_gate_Ok_iff split: if_splits)

lemma fee_paid_balance:
  "balance (fee_paid s stx) i a = (if i = stx_sender stx \<and> a = st_fee_asset s then balance s i a - envelope_fee s else balance s i a)"
  by (auto simp: fee_paid_def balance_debited word_gt_0)

lemma may_debit_fee_paid [simp]: "may_debit (fee_paid s stx) sender tx i = may_debit s sender tx i"
proof -
  have h: "holder_of (fee_paid s stx) l = holder_of s l" for l by (simp add: holder_of_def)
  have f: "funder_of (fee_paid s stx) l = funder_of s l" for l
  proof -
    have "check_mandate_asset_bound (fee_paid s stx) l r = check_mandate_asset_bound s l r" for r
      by (simp add: check_mandate_asset_bound_def)
    moreover have "st_mandate_asset_from (fee_paid s stx) = st_mandate_asset_from s" by (simp add: fee_paid_def)
    ultimately show ?thesis by (simp add: funder_of_def cong: if_cong)
  qed
  show ?thesis by (simp add: may_debit_def h f split: option.split)
qed

section \<open>Properties of the ledger\<close>

text \<open>C1: conservation. Take an asset of which genesis gave out less than $2^{128}$ units, and none at all unless genesis registered
  it. In every state the chain reaches, as long as no unshielding of the asset that was accepted took more out of a pool than the pool
  held (this is what the proofs of spends are trusted for), once the asset is registered its conservation view balances: what accounts, channels and pools hold, summed without
  saturation, is the supply minus burns minus burned fees.\<close>

theorem registered_assets_conserved:
  assumes "backed_chain X a g s" and "alloc_total a (g_alloc g) < 2 ^ 128" and "a \<in> gs_id ` set (g_assets g) \<or> alloc_total a (g_alloc g) = 0"
    and "bmap_get (st_assets s) a = Some info"
  shows "\<exists>h. asset_conservation s a = Some (h, h) \<and> unat h = held a s
    \<and> held a s + unat (ai_burned info) + fees_of a s = unat (ai_supply info)"
proof -
  have con: "conserved a s" by (rule backed_chain_conserved [OF assms(1-3)])
  show ?thesis using conservation_view [OF con assms(4)] conserved_butD(1) [OF con] assms(4) by auto
qed

definition sample_block :: Block where
  "sample_block = \<lparr>bk_height = 1, bk_time = 5, bk_txs = [sample_tx], bk_verdicts = Some [True], bk_cover = []\<rparr>"

lemma sample_block_runs:
  obtains r s where "exec_block sample_env sample_state sample_block = (Ok r, s)" "bmap_get (st_assets s) 7 = Some sample_info"
    "st_fees_burned s = 1" "st_fee_asset s = 7" "balance s 2 7 = 30"
proof -
  let ?s1 = "(set_block_coverage sample_state [])\<lparr>st_height := 1, st_time := 5\<rparr>"
  obtain ev s where s: "apply_tx_at sample_env ?s1 sample_tx (Some True) = (Ok ev, s)"
    and f: "bmap_get (st_assets s) 7 = Some sample_info" "st_fees_burned s = 1" "st_fee_asset s = 7" "balance s 2 7 = 30"
    by (simp add: apply_tx_at_def check_envelope_def sample_state_def sample_tx_def envelope_fee_def balance_def debit_def set_block_coverage_def
      do_transfer_def asset_gate_def sample_info_def is_some_and_def credit_def ratchet_def saturating_add_def Let_def)
  have "exec_block sample_env sample_state sample_block = (Ok [\<lparr>rc_index = 0, rc_result = Ok ev\<rparr>], end_block sample_env s)"
    using s by (simp add: exec_block_def sample_block_def apply_block_verified_def is_some_and_def) (simp add: sample_state_def set_block_coverage_def)
  then show ?thesis by (rule that) (use f in \<open>simp_all add: end_block_def balance_def\<close>)
qed

lemma sample_block_backed: "unshields_backed sample_env a sample_state sample_block"
  by (simp add: unshields_backed_def sample_block_def sound_tx_def sample_tx_def)

theorem registered_assets_conserved_witness:
  "\<exists>r s h. exec_block sample_env sample_state sample_block = (Ok r, s) \<and> balance s 2 7 = 30 \<and> asset_conservation s 7 = Some (h, h) \<and> unat h = 99"
proof -
  obtain r s where s: "exec_block sample_env sample_state sample_block = (Ok r, s)" "bmap_get (st_assets s) 7 = Some sample_info"
    "st_fees_burned s = 1" "st_fee_asset s = 7" "balance s 2 7 = 30" by (rule sample_block_runs)
  have c: "backed_chain sample_env 7 sample_genesis s" by (rule backed_block [OF backed_genesis [OF sample_genesis_runs] sample_block_backed s(1)])
  have g: "alloc_total 7 (g_alloc sample_genesis) < 2 ^ 128" "7 \<in> gs_id ` set (g_assets sample_genesis) \<or> alloc_total 7 (g_alloc sample_genesis) = 0"
    by (simp_all add: sample_genesis_def alloc_total_def)
  from registered_assets_conserved [OF c g s(2)] s show ?thesis by (auto simp: sample_info_def fees_of_def)
qed

text \<open>C2: a transaction is all or nothing. On every chain state it never panics, and a refused one,
  for whatever reason and after whatever partial work, leaves the whole state as it was, the fee
  included.\<close>

theorem transaction_atomic:
  assumes "chain_state X s"
  shows "(\<exists>ev s'. apply_tx X s stx = (Ok ev, s')) \<or> (\<exists>e. apply_tx X s stx = (Err e, s))"
proof -
  have "clean_from s (apply_tx_at X s stx None)"
    using chain_state_ok [OF assms] by (auto intro: apply_tx_at_clean state_okD(1))
  then show ?thesis by (cases "apply_tx X s stx"; cases "fst (apply_tx X s stx)") (auto simp: apply_tx_def)
qed

theorem transaction_atomic_witness:
  "apply_tx sample_env sample_state (sample_tx\<lparr>stx_sender := 3\<rparr>) = (Err UnknownAccount, sample_state)"
proof -
  have "fst (apply_tx sample_env sample_state (sample_tx\<lparr>stx_sender := 3\<rparr>)) = Err UnknownAccount"
    by (simp add: apply_tx_def apply_tx_at_def check_envelope_def sample_state_def sample_tx_def)
  then show ?thesis using transaction_atomic [OF sample_chain, of "sample_tx\<lparr>stx_sender := 3\<rparr>"] by auto
qed

text \<open>C3: a block is total. On a chain state it is either refused as a whole, leaving the state as it
  was, exactly when its height does not follow or its time runs back, or it advances the chain by
  one, with one receipt per transaction in order.\<close>

theorem block_outcome:
  assumes "chain_state X s"
  shows "if h = st_height s + 1 \<and> st_time s \<le> t
    then \<exists>rs s'. apply_block X s h t txs = (Ok rs, s') \<and> map rc_index rs = [0..<length txs] \<and> st_height s' = h \<and> st_time s' = t
    else \<exists>e. apply_block X s h t txs = (Err e, s)"
proof (cases "h = st_height s + 1 \<and> st_time s \<le> t")
  case True
  let ?s1 = "s\<lparr>st_height := h, st_time := t\<rparr>"
  let ?s2 = "fold_steps (exec_tx X) (tx_inputs 0 txs None) ?s1"
  have ok: "state_ok X ?s1" using chain_state_ok [OF assms] by simp
  from apply_txs_run [OF this, of 0 txs None "[]"] obtain rs where
    "apply_txs X 0 txs None ?s1 [] = (Ok rs, ?s2)" "map rc_index rs = [0..<length txs]" by auto
  moreover have "st_height (end_block X ?s2) = h" "st_time (end_block X ?s2) = t"
    using run_clock [OF ok, of "tx_inputs 0 txs None"] by (simp_all add: end_block_def)
  ultimately show ?thesis using True by (simp add: apply_block_def apply_block_verified_def is_some_and_def not_less)
qed (auto simp: apply_block_def apply_block_verified_def not_le)

theorem block_outcome_witness: "\<exists>rs s'. apply_block sample_env sample_state 1 5 [sample_tx] = (Ok rs, s') \<and> length rs = 1 \<and> st_height s' = 1"
proof -
  have "st_height sample_state = 0" "st_time sample_state = 0" by (simp_all add: sample_state_def)
  then show ?thesis
    using block_outcome [OF sample_chain, of 1 5 "[sample_tx]"] by (auto dest: arg_cong [of _ _ length])
qed

text \<open>C12: no replay. Once accepted, the same envelope is refused with a nonce error and without a trace: after the rest of its
  block, after that block is closed, after any blocks that follow and any transactions of the block then begun, whoever sent them and with whatever precomputed
  verdicts, as long as fewer than $2^{64} - 1$ transactions lie between, where the nonce would have come round.\<close>

theorem accepted_once:
  assumes "state_ok X s" and "apply_tx_at X s stx pre = (Ok ev, s1)"
    and "length rest + sum_list (map (\<lambda>b. length (bk_txs b)) bs) + length txs < 2 ^ 64 - 1"
    and "s2 = fold_steps (exec_tx X) rest s1"
    and "s3 = s2 \<or> s3 = fold_steps (exec_tx X) txs (block_start b (fold_steps (exec_block X) bs (end_block X s2)))"
  shows "\<exists>n. apply_tx_at X s3 stx pre2 = (Err (BadNonce n (stx_nonce stx)), s3)"
proof -
  from assms(2) obtain acc where acc: "bmap_get (st_accounts s) (stx_sender stx) = Some acc" "stx_nonce stx = acc_nonce acc"
    by (rule apply_tx_at_OkE)
  from apply_tx_at_nonce [OF assms(2,1) acc(1)] obtain a1 where
    a1: "bmap_get (st_accounts s1) (stx_sender stx) = Some a1" "acc_nonce a1 = acc_nonce acc + 1" by auto
  have ok1: "state_ok X s1" by (rule apply_tx_at_state_ok [OF assms(1,2)])
  have ok2: "state_ok X s2" unfolding assms(4) by (rule ledger.run_keeps_inv [OF ok1 all_admissible_trivial])
  from run_nonce [OF ok1 a1(1), of rest] obtain a2 j where
    a2: "bmap_get (st_accounts s2) (stx_sender stx) = Some a2" "acc_nonce a2 = acc_nonce a1 + of_nat j" "j \<le> length rest" unfolding assms(4) by blast
  have e: "state_ok X (end_block X s2)" "bmap_get (st_accounts (end_block X s2)) (stx_sender stx) = Some a2"
    using end_block_ok [OF ok2] a2(1) by (simp_all add: end_block_def)
  from blocks_nonce [OF e, of bs] obtain a3 j3 where a3: "bmap_get (st_accounts (block_start b (fold_steps (exec_block X) bs (end_block X s2)))) (stx_sender stx) = Some a3"
      "acc_nonce a3 = acc_nonce a2 + of_nat j3" "j3 \<le> sum_list (map (\<lambda>b. length (bk_txs b)) bs)"
      "state_ok X (block_start b (fold_steps (exec_block X) bs (end_block X s2)))" by (auto simp: block_start_ok)
  from run_nonce [OF a3(4,1), of txs] obtain a4 j4 where
    a4: "bmap_get (st_accounts (fold_steps (exec_tx X) txs (block_start b (fold_steps (exec_block X) bs (end_block X s2))))) (stx_sender stx) = Some a4"
      "acc_nonce a4 = acc_nonce a3 + of_nat j4" "j4 \<le> length txs" by blast
  have "\<exists>a i. bmap_get (st_accounts s3) (stx_sender stx) = Some a \<and> acc_nonce a = stx_nonce stx + of_nat (Suc i)
      \<and> i \<le> length rest + sum_list (map (\<lambda>b. length (bk_txs b)) bs) + length txs"
    using assms(5)
  proof
    assume "s3 = s2"
    then show ?thesis using a2 a1(2) acc(2) by (intro exI [of _ a2] exI [of _ j]) (simp add: add.assoc)
  next
    assume "s3 = fold_steps (exec_tx X) txs (block_start b (fold_steps (exec_block X) bs (end_block X s2)))"
    then show ?thesis using a4 a3(2,3) a2(2,3) a1(2) acc(2) by (intro exI [of _ a4] exI [of _ "j + j3 + j4"]) (simp add: algebra_simps)
  qed
  then obtain a i where a: "bmap_get (st_accounts s3) (stx_sender stx) = Some a" "acc_nonce a = stx_nonce stx + of_nat (Suc i)"
    "i \<le> length rest + sum_list (map (\<lambda>b. length (bk_txs b)) bs) + length txs" by blast
  have "(of_nat (Suc i) :: u64) \<noteq> 0" by (rule of_nat_u64_nonzero) (use a(3) assms(3) in simp_all)
  then have "stx_nonce stx \<noteq> acc_nonce a" by (simp add: a(2))
  from bad_nonce_refused [OF a(1) this] show ?thesis by blast
qed

theorem accepted_once_witness:
  "\<exists>ev s1 s3 n. apply_tx_at sample_env sample_state sample_tx (Some True) = (Ok ev, s1)
    \<and> s3 = block_start sample_block (snd (exec_block sample_env (end_block sample_env s1) sample_block))
    \<and> apply_tx_at sample_env s3 sample_tx None = (Err (BadNonce n 0), s3)"
proof -
  obtain ev s1 where t: "apply_tx_at sample_env sample_state sample_tx (Some True) = (Ok ev, s1)" using sample_tx_accepted by blast
  define s3 where "s3 = block_start sample_block (snd (exec_block sample_env (end_block sample_env s1) sample_block))"
  have "\<exists>n. apply_tx_at sample_env s3 sample_tx None = (Err (BadNonce n (stx_nonce sample_tx)), s3)"
  proof (rule accepted_once [OF sample_ok t, where rest = "[]" and bs = "[sample_block]" and txs = "[]" and b = sample_block])
    show "length ([] :: (SignedTx \<times> bool option) list) + sum_list (map (\<lambda>b. length (bk_txs b)) [sample_block]) + length ([] :: (SignedTx \<times> bool option) list) < 2 ^ 64 - 1"
      by (simp add: sample_block_def)
    show "s1 = fold_steps (exec_tx sample_env) [] s1" by simp
    show "s3 = s1 \<or> s3 = fold_steps (exec_tx sample_env) [] (block_start sample_block (fold_steps (exec_block sample_env) [sample_block] (end_block sample_env s1)))"
      by (simp add: s3_def)
  qed
  with t show ?thesis by (auto simp: sample_tx_def s3_def)
qed

text \<open>C8: authority. An accepted transaction lowers an account's balance only if the account is its
  sender, or funds the root of the mandate the transaction draws on, whose leaf the sender
  holds.\<close>

theorem debits_authorised:
  assumes "apply_tx_at X s stx pre = (Ok ev, s')" and "balance s' i a < balance s i a"
  shows "may_debit s (stx_sender stx) (stx_payload stx) i"
  using assms(1)
proof (rule apply_tx_at_OkE)
  fix acc s2
  assume d: "dispatch X (fee_paid s stx) (stx_sender stx) (stx_payload stx) = (Ok ev, s2)" and s': "s' = settled s2 (envelope_fee s) stx acc"
  show ?thesis
  proof (cases "i = stx_sender stx")
    case False
    then have "balance s2 i a < balance (fee_paid s stx) i a" using assms(2) by (simp add: s' fee_paid_balance)
    then show ?thesis using dispatch_debits [OF d] by simp
  qed (simp add: may_debit_def)
qed

theorem debits_authorised_witness: "may_debit sample_state 1 (Transfer 2 7 30) 1"
proof -
  obtain ev s1 where t: "apply_tx_at sample_env sample_state sample_tx (Some True) = (Ok ev, s1)" using sample_tx_accepted by blast
  then have "balance s1 1 7 < balance sample_state 1 7"
    by (auto simp: apply_tx_at_def check_envelope_def sample_state_def sample_tx_def envelope_fee_def balance_def debit_def
        do_transfer_def asset_gate_def sample_info_def is_some_and_def credit_def ratchet_def Let_def)
  then show ?thesis using debits_authorised [OF t] by (simp add: sample_tx_def)
qed

text \<open>C14: the issuer's controls hold. While an asset other than the fee asset is paused no accepted
  transaction changes any balance in it, and none changes the balance of an account the issuer
  froze, on either side.\<close>

theorem controls_respected:
  assumes "apply_tx_at X s stx pre = (Ok ev, s')" and "bmap_get (st_assets s) a = Some info" and "a \<noteq> st_fee_asset s"
    and "ai_paused info \<or> bset_contains (ai_frozen info) i"
  shows "balance s' i a = balance s i a"
  using assms(1)
proof (rule apply_tx_at_OkE)
  fix acc s2
  assume d: "dispatch X (fee_paid s stx) (stx_sender stx) (stx_payload stx) = (Ok ev, s2)" and s': "s' = settled s2 (envelope_fee s) stx acc"
  have "balance s2 i a = balance (fee_paid s stx) i a" using dispatch_gated [OF d, of i a info] assms(2,4) by auto
  then show ?thesis using assms(3) by (simp add: s' fee_paid_balance)
qed

definition sample_paused :: State where
  "sample_paused = sample_state\<lparr>st_assets := [(6, sample_info\<lparr>ai_paused := True\<rparr>), (7, sample_info)]\<rparr>"

theorem controls_respected_witness:
  "\<exists>ev s'. apply_tx_at sample_env sample_paused sample_tx (Some True) = (Ok ev, s') \<and> balance s' 2 6 = balance sample_paused 2 6"
proof -
  obtain ev s' where t: "apply_tx_at sample_env sample_paused sample_tx (Some True) = (Ok ev, s')"
    by (simp add: apply_tx_at_def check_envelope_def sample_paused_def sample_state_def sample_tx_def envelope_fee_def balance_def debit_def
        do_transfer_def asset_gate_def sample_info_def is_some_and_def credit_def ratchet_def Let_def)
  have "balance s' 2 6 = balance sample_paused 2 6"
    by (rule controls_respected [OF t, where info = "sample_info\<lparr>ai_paused := True\<rparr>"]) (simp_all add: sample_paused_def sample_state_def)
  with t show ?thesis by blast
qed

text \<open>C13: exact settlement. An accepted settlement claims a word of the payer's hash chain, pays the payee, and nobody else,
  unit price times the newly claimed steps out of the escrow, marks those steps as settled, touches no other channel, and leaves an escrow
  that still covers exactly the steps not yet settled. Nothing wraps; the payee's balance is added to with saturation, which does not
  happen where the asset is conserved.\<close>

theorem settlement_exact:
  assumes "state_ok X s" and "do_channel_settle X s i w k = (Ok ev, s')"
  shows "\<exists>ch ch' paid. bmap_get (st_channels s) i = Some ch \<and> bmap_get (st_channels s') i = Some ch'
    \<and> ev = [EvChannelSettled i k paid] \<and> verify_settlement X (cs_tip (ch_state ch)) w k
    \<and> settle_delta s i k = Some (u32_as_u64 k - cs_highest_step_settled (ch_state ch))
    \<and> unat paid = unat (cs_unit_price (ch_state ch)) * (unat k - unat (cs_highest_step_settled (ch_state ch)))
    \<and> unat (ch_escrow_remaining ch') + unat paid = unat (ch_escrow_remaining ch)
    \<and> unat (ch_escrow_remaining ch') = unat (cs_unit_price (ch_state ch)) * (unat (cs_max_steps (ch_state ch)) - unat k)
    \<and> ch_state ch' = (ch_state ch)\<lparr>cs_highest_step_settled := u32_as_u64 k\<rparr> \<and> \<not> ch_refunded ch'
    \<and> (\<forall>j. j \<noteq> i \<longrightarrow> bmap_get (st_channels s') j = bmap_get (st_channels s) j)
    \<and> (\<forall>j b. balance s' j b = (if j = cs_payee (ch_state ch) \<and> b = cs_asset (ch_state ch) then saturating_add (balance s j b) paid else balance s j b))
    \<and> (conserved (cs_asset (ch_state ch)) s \<longrightarrow> unat (balance s' (cs_payee (ch_state ch)) (cs_asset (ch_state ch)))
         = unat (balance s (cs_payee (ch_state ch)) (cs_asset (ch_state ch))) + unat paid)"
  using assms(2)
proof (rule do_channel_settle_OkE)
  fix ch paid
  assume ch: "bmap_get (st_channels s) i = Some ch" and q: "\<not> ch_refunded ch"
    "cs_highest_step_settled (ch_state ch) < u32_as_u64 k" "u32_as_u64 k \<le> cs_max_steps (ch_state ch)"
    "checked_mul (cs_unit_price (ch_state ch)) (u64_as_u128 (u32_as_u64 k - cs_highest_step_settled (ch_state ch))) = Some paid"
    and v: "verify_settlement X (cs_tip (ch_state ch)) w k" and ev: "ev = [EvChannelSettled i k paid]"
    and s': "s' = credit (s\<lparr>st_channels := bmap_insert (st_channels s) i
             (ch\<lparr>ch_state := (ch_state ch)\<lparr>cs_highest_step_settled := u32_as_u64 k\<rparr>,
                 ch_escrow_remaining := ch_escrow_remaining ch - paid\<rparr>)\<rparr>) (cs_payee (ch_state ch)) (cs_asset (ch_state ch)) paid"
  let ?p = "cs_payee (ch_state ch)" and ?a = "cs_asset (ch_state ch)"
  have d: "settle_delta s i k = Some (u32_as_u64 k - cs_highest_step_settled (ch_state ch))"
    using ch q by (auto simp: settle_delta_def Let_def not_le)
  note amounts = settle_amounts [OF state_okD(5) [OF assms(1) ch] q]
  have bal: "balance s' j b = (if j = ?p \<and> b = ?a then saturating_add (balance s j b) paid else balance s j b)" for j b
    by (simp add: s' balance_credit)
  have "unat (balance s' ?p ?a) = unat (balance s ?p ?a) + unat paid" if "conserved ?a s"
  proof -
    have "unat (ch_escrow_remaining ch) \<le> esc_of ?a s" unfolding esc_of_def
      using bmap_sum_ge [OF ch, of "\<lambda>_ c. if cs_asset (ch_state c) = ?a then unat (ch_escrow_remaining c) else 0"] by simp
    then have "unat (balance s ?p ?a) + unat paid < 2 ^ 128"
      using conserved_butD(2) [OF that] bal_of_entry [of s ?p ?a] amounts(2) by (simp add: held_def)
    then show ?thesis by (simp add: bal unat_saturating_add)
  qed
  then show ?thesis using amounts ch q(1) v ev d bal
    by (intro exI [of _ ch] exI [of _ "ch\<lparr>ch_state := (ch_state ch)\<lparr>cs_highest_step_settled := u32_as_u64 k\<rparr>, ch_escrow_remaining := ch_escrow_remaining ch - paid\<rparr>"]
        exI [of _ paid]) (simp add: s')
qed

definition sample_channel :: Channel where
  "sample_channel = opened_channel 4 1 2 7 3 (payword_link sample_env 5) 10 2 99 20"

definition sample_channel_state :: State where
  "sample_channel_state = sample_state\<lparr>st_channels := bmap_insert (st_channels sample_state) 4 sample_channel\<rparr>"

theorem settlement_exact_witness: "\<exists>s' ch'. do_channel_settle sample_env sample_channel_state 4 5 1 = (Ok [EvChannelSettled 4 1 10], s')
  \<and> bmap_get (st_channels s') 4 = Some ch' \<and> unat (ch_escrow_remaining ch') = 10 \<and> cs_highest_step_settled (ch_state ch') = 1 \<and> balance s' 2 7 = 10"
proof -
  have "channel_ok sample_channel" unfolding sample_channel_def
    by (rule opened_channel_ok) (simp add: checked_mul_def u32_as_u128_def)
  then have ok: "state_ok sample_env sample_channel_state"
    unfolding sample_channel_state_def by (rule state_ok_channel [OF sample_ok])
  obtain s' where t: "do_channel_settle sample_env sample_channel_state 4 5 1 = (Ok [EvChannelSettled 4 1 10], s')"
    by (simp add: do_channel_settle_def settle_quote_def sample_channel_state_def sample_state_def sample_channel_def opened_channel_def
        verify_settlement_loop asset_gate_def sample_info_def is_some_and_def u32_as_u64_def u64_as_u128_def checked_mul_def Let_def)
  have "bmap_get (st_channels sample_channel_state) 4 = Some sample_channel" by (simp add: sample_channel_state_def sample_state_def)
  moreover have "balance sample_channel_state 2 7 = 0" by (simp add: sample_channel_state_def sample_state_def balance_def)
  ultimately show ?thesis
    using settlement_exact [OF ok t] t by (auto simp: sample_channel_def opened_channel_def u32_as_u64_def saturating_add_def)
qed

section \<open>Nullifiers and wallets\<close>

lemma apply_tx_at_spend_marks:
  assumes "apply_tx_at X s stx pre = (Ok ev, s')" and "stx_payload stx = ShieldedSpend anchor nf out out2 fee credit_to mandate pf ct ct2"
  obtains key where "pool_key_of_anchor s anchor = Some key" "\<not> spent_in s key nf" "spent_in s' key nf"
  using assms(1)
proof (rule apply_tx_at_OkE)
  fix acc s2
  assume d: "dispatch X (fee_paid s stx) (stx_sender stx) (stx_payload stx) = (Ok ev, s2)" and s': "s' = settled s2 (envelope_fee s) stx acc"
  from d assms(2) have "do_shielded_spend X (fee_paid s stx) (stx_sender stx) anchor nf out out2 fee credit_to mandate pf = (Ok ev, s2)" by simp
  then show ?thesis by (rule shielded_spend_marks) (use that s' in simp)
qed

lemma blocks_spent_grow:
  "state_ok X s \<Longrightarrow> spent_in s key nf \<Longrightarrow> state_ok X (fold_steps (exec_block X) bs s) \<and> spent_in (fold_steps (exec_block X) bs s) key nf"
  by (induction bs arbitrary: s) (simp_all add: exec_block_state_ok exec_block_spent_grows)

text \<open>C9: no double spend. An accepted shielded spend marks its nullifier in the pool its anchor
  belongs to, and from then on, through any sequence of blocks, no shielded spend of that nullifier
  out of that pool is accepted, under any anchor, proof, fee or sender.\<close>

theorem nullifier_spent_once:
  assumes "state_ok X s" and "apply_tx_at X s stx pre = (Ok ev, s1)"
    and "stx_payload stx = ShieldedSpend anchor nf out out2 fee credit_to mandate pf ct ct2"
  shows "\<exists>key. pool_key_of_anchor s anchor = Some key \<and>
    (\<forall>bs s2 stx2 pre2 anchor2 o1 o2 f2 c2 m2 p2 e1 e2. s2 = fold_steps (exec_block X) bs s1
      \<and> stx_payload stx2 = ShieldedSpend anchor2 nf o1 o2 f2 c2 m2 p2 e1 e2 \<and> pool_key_of_anchor s2 anchor2 = Some key
      \<longrightarrow> (\<nexists>ev2 s3. apply_tx_at X s2 stx2 pre2 = (Ok ev2, s3)))"
proof -
  from assms(2,3) obtain key where key: "pool_key_of_anchor s anchor = Some key" "spent_in s1 key nf"
    by (rule apply_tx_at_spend_marks)
  have ok: "state_ok X s1" by (rule apply_tx_at_state_ok [OF assms(1,2)])
  have "\<nexists>ev2 s3. apply_tx_at X s2 stx2 pre2 = (Ok ev2, s3)"
    if "s2 = fold_steps (exec_block X) bs s1" and p: "stx_payload stx2 = ShieldedSpend anchor2 nf o1 o2 f2 c2 m2 p2 e1 e2"
      and k: "pool_key_of_anchor s2 anchor2 = Some key" for bs s2 stx2 pre2 anchor2 o1 o2 f2 c2 m2 p2 e1 e2
  proof (intro notI, elim exE)
    fix ev2 s3
    assume "apply_tx_at X s2 stx2 pre2 = (Ok ev2, s3)"
    from this p show False
      by (rule apply_tx_at_spend_marks) (use blocks_spent_grow [OF ok key(2), of bs] that k in simp)
  qed
  with key(1) show ?thesis by blast
qed

definition accepting :: ProofVerifier where
  "accepting = \<lparr>verify_spend = \<lambda>_ _. True, verify_mint = \<lambda>_ _. True\<rparr>"

definition sample_pool_state :: State where
  "sample_pool_state = sample_state\<lparr>st_pool := (pool_default sample_env)\<lparr>ps_anchors := [5]\<rparr>, st_verifier := accepting\<rparr>"

definition sample_spend :: SignedTx where
  "sample_spend = sample_tx\<lparr>stx_payload := ShieldedSpend 5 6 1 2 0 None None [1] [] []\<rparr>"

lemma sample_pool_ok: "state_ok sample_env sample_pool_state"
  using sample_ok by (simp add: state_ok_def sample_pool_state_def pool_ok_def pool_default_def inc_new_def anchors_ok_def ANCHOR_WINDOW_def bset_ok_def)

lemma sample_spend_accepted:
  "\<exists>ev s'. apply_tx_at sample_env sample_pool_state sample_spend (Some True) = (Ok ev, s') \<and> is_recent_anchor (st_pool s') 5"
proof -
  let ?p = "(pool_default sample_env)\<lparr>ps_anchors := [5]\<rparr>"
  have cap: "has_capacity (ps_tree ?p) 2" by (simp add: has_capacity_iff pool_default_def inc_new_def)
  from pool_spend_effects_Some [OF this] obtain p' where p': "pool_spend_effects sample_env ?p 6 1 2 0 = Some p'" .
  have recent: "is_recent_anchor p' 5" using p' by (auto elim!: pool_spend_effects_cases simp: is_recent_anchor_def)
  have pool: "bset_contains (ps_nullifiers ?p) 6 = False" "is_recent_anchor ?p 5" by (simp_all add: pool_default_def is_recent_anchor_def)
  show ?thesis
    using p' cap pool recent
    by (simp add: apply_tx_at_def check_envelope_def sample_pool_state_def sample_state_def sample_spend_def sample_tx_def envelope_fee_def
        balance_def debit_def do_shielded_spend_def spend_mandate_auth_def spend_mandate_asset_def pool_key_of_anchor_def pool_ref_def
        spend_proof_ok_def accepting_def u64_max_amount_def put_pool_def ratchet_def Let_def)
qed

theorem nullifier_spent_once_witness:
  "\<exists>ev s1. apply_tx_at sample_env sample_pool_state sample_spend (Some True) = (Ok ev, s1)
    \<and> (\<nexists>ev2 s3. apply_tx_at sample_env s1 (sample_spend\<lparr>stx_nonce := 1\<rparr>) None = (Ok ev2, s3))"
proof -
  obtain ev s1 where t: "apply_tx_at sample_env sample_pool_state sample_spend (Some True) = (Ok ev, s1)"
    and rec: "is_recent_anchor (st_pool s1) 5" using sample_spend_accepted by blast
  have p: "stx_payload sample_spend = ShieldedSpend 5 6 1 2 0 None None [1] [] []"
    "stx_payload (sample_spend\<lparr>stx_nonce := 1\<rparr>) = ShieldedSpend 5 6 1 2 0 None None [1] [] []" by (simp_all add: sample_spend_def)
  obtain key where key: "pool_key_of_anchor sample_pool_state 5 = Some key"
    and all: "\<forall>bs s2 stx2 pre2 anchor2 o1 o2 f2 c2 m2 p2 e1 e2. s2 = fold_steps (exec_block sample_env) bs s1
      \<and> stx_payload stx2 = ShieldedSpend anchor2 6 o1 o2 f2 c2 m2 p2 e1 e2 \<and> pool_key_of_anchor s2 anchor2 = Some key
      \<longrightarrow> (\<nexists>ev2 s3. apply_tx_at sample_env s2 stx2 pre2 = (Ok ev2, s3))"
    using nullifier_spent_once [OF sample_pool_ok t p(1)] by blast
  have "key = LegacyPool" using key by (simp add: pool_key_of_anchor_def sample_pool_state_def is_recent_anchor_def)
  moreover have "pool_key_of_anchor s1 5 = Some LegacyPool" using rec by (simp add: pool_key_of_anchor_def)
  ultimately have "\<nexists>ev2 s3. apply_tx_at sample_env s1 (sample_spend\<lparr>stx_nonce := 1\<rparr>) None = (Ok ev2, s3)"
    using all p(2) fold_steps.simps(1) [of "exec_block sample_env" s1] by metis
  with t show ?thesis by blast
qed

text \<open>A wallet is never locked out. When a transaction that names the key of its next ratchet
  position is accepted, the envelope check passes for whatever the wallet signs with that next key:
  the signature verifies, the key matches the new commitment and the nonce is the new one.\<close>

lemma wallet_ratchets_on:
  assumes "apply_tx X s stx = (Ok ev, s')" and "stx_nonce stx = n" and "stx_sender stx = i"
    and "stx_next_auth stx = pk_commit X (snd (keygen X seed (n + 1)))"
    and "sign_tx X seed (n + 1) i payload next2 = Some stx2"
  shows "check_envelope X s' stx2 None = Ok ()"
proof -
  from assms(1) [unfolded apply_tx_def] obtain acc s2 where acc: "bmap_get (st_accounts s) i = Some acc" "n = acc_nonce acc"
    and s': "s' = settled s2 (envelope_fee s) stx acc"
    using assms(2,3) by (auto elim!: apply_tx_at_OkE)
  have "bmap_get (st_accounts s') i = Some \<lparr>acc_auth_commit = stx_next_auth stx, acc_nonce = n + 1\<rparr>" using assms(3) acc(2) by (simp add: s')
  moreover have "verify_envelope X stx2" by (rule sign_tx_verifies [OF assms(5)])
  moreover have "stx_sender stx2 = i" "stx_nonce stx2 = n + 1" "stx_lamport_pk stx2 = snd (keygen X seed (n + 1))"
    using assms(5) by (auto simp: sign_tx_def split: option.splits prod.splits)
  ultimately show ?thesis using assms(4) by (simp add: check_envelope_def)
qed

definition sample_wallet_state :: State where
  "sample_wallet_state = sample_state\<lparr>st_accounts := [(1, \<lparr>acc_auth_commit = pk_commit sample_env (snd (keygen sample_env [3] 0)), acc_nonce = 0\<rparr>)]\<rparr>"

lemma sample_signs: "sign_tx sample_env seed n i tx nxt \<noteq> None"
  by (simp add: sign_tx_def signing_digest_def sample_env_def split: prod.split)

end
