(* ===== verification/HK_Consensus.thy ===== *)
theory HK_Consensus
  imports HK_Hash "HOL-Library.Multiset"
begin

text \<open>
  The consensus datatypes (\<^verbatim>\<open>hk-consensus/src/context.rs\<close>): addresses, heights, block values, votes,
  proposals, streamed proposal parts and the bytes that get signed for each, validators and the
  ordered validator set, the per-height set history and proposer selection. A 20-byte address is a
  160-bit word, most significant byte first, so that its byte-wise order is the order of the words.
  \<^verbatim>\<open>Round\<close>, \<^verbatim>\<open>VoteType\<close> and \<^verbatim>\<open>NilOrVal\<close> are the engine's types.
\<close>

definition DOM_VALIDATOR_ADDR :: string where "DOM_VALIDATOR_ADDR = ''hk/v1/validator-address''"
definition DOM_BLOCK_VALUE :: string where "DOM_BLOCK_VALUE = ''hk/v1/block-value''"
definition DOM_SIGN_VOTE :: string where "DOM_SIGN_VOTE = ''hk/v1/consensus-vote''"
definition DOM_SIGN_PROPOSAL :: string where "DOM_SIGN_PROPOSAL = ''hk/v1/consensus-proposal''"
definition DOM_SIGN_PART :: string where "DOM_SIGN_PART = ''hk/v1/consensus-proposal-part''"

type_synonym HkAddress = "160 word"
type_synonym HkPub = bytes
type_synonym HkSig = bytes
type_synonym HkHeight = u64
type_synonym HkValueId = H256

definition addr_bytes :: "HkAddress \<Rightarrow> bytes" where
  "addr_bytes a = be_bytes 20 (unat a)"

definition from_public_key :: "'x hash_env_scheme \<Rightarrow> HkPub \<Rightarrow> HkAddress" where
  "from_public_key X public_key =
     of_nat (be_value (take 20 (h256_bytes (shake256_32 X DOM_VALIDATOR_ADDR [public_key]))))"

text \<open>Heights: \<open>increment\<close>, \<open>increment_by\<close> and \<open>decrement_by\<close>.\<close>

definition increment :: "HkHeight \<Rightarrow> HkHeight" where "increment h = h + 1"
definition increment_by :: "HkHeight \<Rightarrow> u64 \<Rightarrow> HkHeight" where "increment_by h n = h + n"
definition decrement_by :: "HkHeight \<Rightarrow> u64 \<Rightarrow> HkHeight option" where "decrement_by h n = Some (saturating_sub h n)"

datatype Round = RoundNil | RoundSome u32
datatype VoteType = Prevote | Precommit
datatype 'v NilOrVal = NilVal | Val 'v

definition as_i64 :: "Round \<Rightarrow> 64 word" where
  "as_i64 r = (case r of RoundNil \<Rightarrow> - 1 | RoundSome n \<Rightarrow> ucast n)"

record HkValue =
  hv_id :: HkValueId
  hv_txs :: bytes

definition value_new :: "'x hash_env_scheme \<Rightarrow> bytes \<Rightarrow> HkValue" where
  "value_new X txs = \<lparr>hv_id = shake256_32 X DOM_BLOCK_VALUE [txs], hv_txs = txs\<rparr>"

definition size_bytes :: "HkValue \<Rightarrow> nat" where "size_bytes v = length (hv_txs v)"

section \<open>Votes, proposals and parts\<close>

record HkVote =
  vt_typ :: VoteType
  vt_height :: HkHeight
  vt_round :: Round
  vt_value :: "HkValueId NilOrVal"
  vt_address :: HkAddress
  vt_extension :: "(bytes \<times> HkSig) option"

definition new_prevote :: "HkHeight \<Rightarrow> Round \<Rightarrow> HkValueId NilOrVal \<Rightarrow> HkAddress \<Rightarrow> HkVote" where
  "new_prevote h r v a = \<lparr>vt_typ = Prevote, vt_height = h, vt_round = r, vt_value = v, vt_address = a, vt_extension = None\<rparr>"

definition new_precommit :: "HkHeight \<Rightarrow> Round \<Rightarrow> HkValueId NilOrVal \<Rightarrow> HkAddress \<Rightarrow> HkVote" where
  "new_precommit h r v a = \<lparr>vt_typ = Precommit, vt_height = h, vt_round = r, vt_value = v, vt_address = a, vt_extension = None\<rparr>"

definition extend_vote :: "HkVote \<Rightarrow> bytes \<times> HkSig \<Rightarrow> HkVote" where
  "extend_vote v e = v\<lparr>vt_extension := Some e\<rparr>"

definition vote_sign_bytes :: "HkVote \<Rightarrow> bytes" where
  "vote_sign_bytes v =
     str_bytes DOM_SIGN_VOTE @ [0]
     @ [case vt_typ v of Prevote \<Rightarrow> 0 | Precommit \<Rightarrow> 1]
     @ u64_le (vt_height v) @ u64_le (as_i64 (vt_round v))
     @ (case vt_value v of NilVal \<Rightarrow> [0] | Val i \<Rightarrow> [1] @ h256_bytes i)
     @ addr_bytes (vt_address v)"

record HkProposal =
  pr_height :: HkHeight
  pr_round :: Round
  pr_value :: HkValue
  pr_pol_round :: Round
  pr_address :: HkAddress

definition proposal_sign_bytes :: "HkProposal \<Rightarrow> bytes" where
  "proposal_sign_bytes p =
     str_bytes DOM_SIGN_PROPOSAL @ [0]
     @ u64_le (pr_height p) @ u64_le (as_i64 (pr_round p)) @ u64_le (as_i64 (pr_pol_round p))
     @ h256_bytes (hv_id (pr_value p)) @ usize_le (length (hv_txs (pr_value p))) @ hv_txs (pr_value p)
     @ addr_bytes (pr_address p)"

record HkProposalInit =
  in_height :: HkHeight
  in_round :: Round
  in_pol_round :: Round
  in_proposer :: HkAddress

record HkProposalFin =
  fin_value_id :: HkValueId

datatype HkProposalPart = PartInit HkProposalInit | TxBatch bytes | PartFin HkProposalFin

definition get_type :: "HkProposalPart \<Rightarrow> string" where
  "get_type p = (case p of PartInit _ \<Rightarrow> ''init'' | TxBatch _ \<Rightarrow> ''tx-batch'' | PartFin _ \<Rightarrow> ''fin'')"

definition as_init :: "HkProposalPart \<Rightarrow> HkProposalInit option" where
  "as_init p = (case p of PartInit i \<Rightarrow> Some i | _ \<Rightarrow> None)"

definition as_tx_batch :: "HkProposalPart \<Rightarrow> bytes option" where
  "as_tx_batch p = (case p of TxBatch d \<Rightarrow> Some d | _ \<Rightarrow> None)"

definition as_fin :: "HkProposalPart \<Rightarrow> HkProposalFin option" where
  "as_fin p = (case p of PartFin f \<Rightarrow> Some f | _ \<Rightarrow> None)"

definition is_first :: "HkProposalPart \<Rightarrow> bool" where "is_first p = (case p of PartInit _ \<Rightarrow> True | _ \<Rightarrow> False)"
definition is_last :: "HkProposalPart \<Rightarrow> bool" where "is_last p = (case p of PartFin _ \<Rightarrow> True | _ \<Rightarrow> False)"

definition part_sign_bytes :: "HkProposalPart \<Rightarrow> bytes" where
  "part_sign_bytes p =
     str_bytes DOM_SIGN_PART @ [0]
     @ (case p of
          PartInit i \<Rightarrow> [0] @ u64_le (in_height i) @ u64_le (as_i64 (in_round i)) @ u64_le (as_i64 (in_pol_round i)) @ addr_bytes (in_proposer i)
        | TxBatch data \<Rightarrow> [1] @ usize_le (length data) @ data
        | PartFin f \<Rightarrow> [2] @ h256_bytes (fin_value_id f))"

section \<open>Validators and their set\<close>

record HkValidator =
  vl_address :: HkAddress
  vl_root_pk :: bytes
  vl_public_key :: HkPub
  vl_epoch :: u64
  vl_voting_power :: u64

definition validator_new :: "'x hash_env_scheme \<Rightarrow> bytes \<Rightarrow> HkPub \<Rightarrow> u64 \<Rightarrow> HkValidator" where
  "validator_new X root_pk public_key voting_power =
     \<lparr>vl_address = from_public_key X public_key, vl_root_pk = root_pk, vl_public_key = public_key, vl_epoch = 0,
      vl_voting_power = voting_power\<rparr>"

type_synonym HkValidatorSet = "HkValidator list"

text \<open>The set order: voting power descending, then address ascending; the sort is stable.\<close>

definition seat_key :: "HkValidator \<Rightarrow> int \<times> HkAddress" where
  "seat_key v = (- uint (vl_voting_power v), vl_address v)"

definition vset_new :: "HkValidator list \<Rightarrow> (HkValidatorSet, 'e) outcome" where
  "vset_new validators = (if validators = [] then Panic else Ok (sort_key seat_key validators))"

definition total_voting_power :: "HkValidatorSet \<Rightarrow> u64" where
  "total_voting_power vs = for_each vs (\<lambda>v acc. saturating_add acc (vl_voting_power v)) 0"

definition get_by_address :: "HkValidatorSet \<Rightarrow> HkAddress \<Rightarrow> HkValidator option" where
  "get_by_address vs a = find (\<lambda>v. vl_address v = a) vs"

definition get_by_index :: "HkValidatorSet \<Rightarrow> nat \<Rightarrow> HkValidator option" where
  "get_by_index vs i = (if i < length vs then Some (vs ! i) else None)"

definition rotate_operational_key :: "HkValidatorSet \<Rightarrow> HkAddress \<Rightarrow> HkPub \<Rightarrow> HkValidatorSet" where
  "rotate_operational_key vs a new_op_pk = map (\<lambda>v. if vl_address v = a then v\<lparr>vl_public_key := new_op_pk\<rparr> else v) vs"

section \<open>The context\<close>

text \<open>\<open>validator_set_at\<close>: the last history entry in force at a height; a context without a history
  answers nothing.\<close>

definition validator_set_at :: "(u64 \<times> HkValidatorSet) list option \<Rightarrow> HkHeight \<Rightarrow> HkValidatorSet option" where
  "validator_set_at hist h =
     (case hist of None \<Rightarrow> None | Some entries \<Rightarrow> map_option snd (find (\<lambda>(from, _). from \<le> h) (rev entries)))"

definition placeholder_signature :: "HkSig option" where "placeholder_signature = Some []"

text \<open>\<open>abstain_threshold\<close>, by the value of \<^verbatim>\<open>HK_ABSTAIN_GAP\<close> as parsed: 20 when unset, off when 0.\<close>

definition abstain_threshold :: "u64 option \<Rightarrow> u64 option" where
  "abstain_threshold gap = (case gap of Some n \<Rightarrow> (if n = 0 then None else Some n) | None \<Rightarrow> Some 20)"

text \<open>\<open>select_proposer\<close>, its two assertions included; the index is 64-bit \<open>usize\<close> arithmetic.\<close>

definition proposer_index :: "HkHeight \<Rightarrow> u32 \<Rightarrow> nat \<Rightarrow> nat" where
  "proposer_index h r n = unat (saturating_sub h 1 + ucast r :: u64) mod n"

definition select_proposer :: "HkValidatorSet \<Rightarrow> HkHeight \<Rightarrow> Round \<Rightarrow> (HkValidator, unit) outcome" where
  "select_proposer vs h round =
     (if vs = [] then Panic
      else case round of
             RoundNil \<Rightarrow> Panic
           | RoundSome r \<Rightarrow> (case get_by_index vs (proposer_index h r (length vs)) of None \<Rightarrow> Panic | Some v \<Rightarrow> Ok v))"

section \<open>Signed bytes are unambiguous\<close>

lemma length_addr_bytes [simp]: "length (addr_bytes a) = 20"
  by (simp add: addr_bytes_def)

lemma addr_bytes_inj [simp]: "addr_bytes a = addr_bytes b \<longleftrightarrow> a = b"
proof
  assume "addr_bytes a = addr_bytes b"
  then have "le_bytes 20 (unat a) = le_bytes 20 (unat b)" by (simp add: addr_bytes_def be_bytes_def)
  moreover have "unat a < 256 ^ 20" "unat b < 256 ^ 20" using unsigned_less [of a] unsigned_less [of b] by simp_all
  ultimately show "a = b" using le_bytes_inj [of 20 "unat a" "unat b"] by (simp add: word_unat_eq_iff)
qed simp

lemma ucast_u32_not_minus_1: "(ucast (n :: u32) :: u64) \<noteq> - 1"
proof
  assume "(ucast n :: u64) = - 1"
  then have "unat (u32_as_u64 n) = unat (- 1 :: u64)" by (simp add: u32_as_u64_def)
  moreover have "unat n < 4294967296" by (rule unat_lt_u32)
  ultimately show False unfolding unat_widen unat_minus_one_word by simp
qed

lemma as_i64_inj [simp]: "as_i64 r = as_i64 q \<longleftrightarrow> r = q"
proof -
  have "(ucast m :: u64) = ucast n \<longleftrightarrow> m = n" for m n :: u32
  proof
    assume "(ucast m :: u64) = ucast n"
    then have "unat (u32_as_u64 m) = unat (u32_as_u64 n)" by (simp add: u32_as_u64_def)
    then show "m = n" unfolding unat_widen by (simp add: word_unat_eq_iff)
  qed simp
  then show ?thesis
    using ucast_u32_not_minus_1 by (cases r; cases q) (auto simp: as_i64_def dest: sym)
qed

text \<open>Everything a vote's signature covers: all of it but the extension.\<close>

definition vote_core :: "HkVote \<Rightarrow> HkVote" where "vote_core v = v\<lparr>vt_extension := None\<rparr>"

lemma vote_sign_bytes_inj: "vote_sign_bytes v = vote_sign_bytes w \<Longrightarrow> vote_core v = vote_core w"
proof -
  assume eq: "vote_sign_bytes v = vote_sign_bytes w"
  have len: "length (vote_sign_bytes v) = length (vote_sign_bytes w)" using eq by simp
  from eq have "vt_typ v = vt_typ w" "vt_height v = vt_height w" "vt_round v = vt_round w"
    and rest: "(case vt_value v of NilVal \<Rightarrow> [0] | Val i \<Rightarrow> [1] @ h256_bytes i) @ addr_bytes (vt_address v)
        = (case vt_value w of NilVal \<Rightarrow> [0] | Val i \<Rightarrow> [1] @ h256_bytes i) @ addr_bytes (vt_address w)"
    by (auto simp: vote_sign_bytes_def append_eq_append_conv split: VoteType.splits)
  moreover from rest have "vt_value v = vt_value w" "vt_address v = vt_address w"
    by (auto simp: append_eq_append_conv split: NilOrVal.splits)
  ultimately show ?thesis by (simp add: vote_core_def HkVote.equality)
qed

lemma framed_inj:
  assumes "usize_le (length x) @ x @ r = usize_le (length y) @ y @ q" and "length x < 2 ^ 64" "length y < 2 ^ 64"
  shows "x = y \<and> r = q"
proof -
  have "usize_le (length x) = usize_le (length y)" and rest: "x @ r = y @ q" using assms(1) by (simp_all add: append_eq_append_conv)
  then have "length x = length y" using usize_le_inj assms(2,3) by blast
  with rest show ?thesis by simp
qed

lemma proposal_sign_bytes_inj:
  assumes "proposal_sign_bytes p = proposal_sign_bytes q" and "length (hv_txs (pr_value p)) < 2 ^ 64" "length (hv_txs (pr_value q)) < 2 ^ 64"
  shows "p = q"
proof -
  from assms(1) have a: "pr_height p = pr_height q" "pr_round p = pr_round q" "pr_pol_round p = pr_pol_round q" "hv_id (pr_value p) = hv_id (pr_value q)"
    and rest: "usize_le (length (hv_txs (pr_value p))) @ hv_txs (pr_value p) @ addr_bytes (pr_address p)
      = usize_le (length (hv_txs (pr_value q))) @ hv_txs (pr_value q) @ addr_bytes (pr_address q)"
    by (simp_all add: proposal_sign_bytes_def append_eq_append_conv)
  from framed_inj [OF rest assms(2,3)] have "hv_txs (pr_value p) = hv_txs (pr_value q)" "pr_address p = pr_address q" by simp_all
  with a show ?thesis by (simp add: HkProposal.equality HkValue.equality)
qed

definition part_size_ok :: "HkProposalPart \<Rightarrow> bool" where
  "part_size_ok p = (case p of TxBatch d \<Rightarrow> length d < 2 ^ 64 | _ \<Rightarrow> True)"

lemma part_sign_bytes_inj:
  assumes "part_sign_bytes p = part_sign_bytes q" and "part_size_ok p" "part_size_ok q"
  shows "p = q"
proof (cases p)
  case (PartInit i)
  with assms(1) show ?thesis by (cases q) (simp_all add: part_sign_bytes_def append_eq_append_conv)
next
  case (TxBatch d)
  with assms show ?thesis
    using framed_inj [of d "[]" _ "[]"] by (cases q) (simp_all add: part_sign_bytes_def part_size_ok_def)
next
  case (PartFin f)
  with assms(1) show ?thesis by (cases q) (simp_all add: part_sign_bytes_def)
qed

lemma sign_tags: "0 \<notin> set (str_bytes DOM_SIGN_VOTE)" "0 \<notin> set (str_bytes DOM_SIGN_PROPOSAL)" "0 \<notin> set (str_bytes DOM_SIGN_PART)"
  "str_bytes DOM_SIGN_VOTE \<noteq> str_bytes DOM_SIGN_PROPOSAL" "str_bytes DOM_SIGN_VOTE \<noteq> str_bytes DOM_SIGN_PART"
  "str_bytes DOM_SIGN_PROPOSAL \<noteq> str_bytes DOM_SIGN_PART"
  by (simp_all add: DOM_SIGN_VOTE_def DOM_SIGN_PROPOSAL_def DOM_SIGN_PART_def str_bytes_def)

lemma tagged_disjoint: "0 \<notin> set a \<Longrightarrow> 0 \<notin> set (b :: bytes) \<Longrightarrow> a \<noteq> b \<Longrightarrow> a @ [0] @ x \<noteq> b @ [0] @ y"
  using tag_prefix_inj by blast

lemma sign_kinds_disjoint:
  "vote_sign_bytes v \<noteq> proposal_sign_bytes p" "vote_sign_bytes v \<noteq> part_sign_bytes t" "proposal_sign_bytes p \<noteq> part_sign_bytes t"
  unfolding vote_sign_bytes_def proposal_sign_bytes_def part_sign_bytes_def by (intro tagged_disjoint sign_tags)+

text \<open>A validator's signature means one thing. The bytes signed for a vote determine the vote up
  to its separately signed extension, the bytes signed for a proposal or a streamed part determine
  it entirely, and no vote, proposal and part share signed bytes.\<close>

lemma signed_bytes_unambiguous:
  assumes "length (hv_txs (pr_value p)) < 2 ^ 64" "length (hv_txs (pr_value q)) < 2 ^ 64" "part_size_ok t" "part_size_ok u"
  shows "(vote_sign_bytes v = vote_sign_bytes w \<longleftrightarrow> vote_core v = vote_core w)
    \<and> (proposal_sign_bytes p = proposal_sign_bytes q \<longleftrightarrow> p = q) \<and> (part_sign_bytes t = part_sign_bytes u \<longleftrightarrow> t = u)
    \<and> vote_sign_bytes v \<noteq> proposal_sign_bytes p \<and> vote_sign_bytes v \<noteq> part_sign_bytes t \<and> proposal_sign_bytes p \<noteq> part_sign_bytes t"
proof (intro conjI iffI)
  assume "vote_core v = vote_core w"
  then have "vote_sign_bytes (vote_core v) = vote_sign_bytes (vote_core w)" by simp
  then show "vote_sign_bytes v = vote_sign_bytes w" by (simp add: vote_sign_bytes_def vote_core_def)
qed (use assms sign_kinds_disjoint in \<open>auto intro: vote_sign_bytes_inj proposal_sign_bytes_inj part_sign_bytes_inj\<close>)

section \<open>Proposers take turns\<close>

lemma proposer_index_eq:
  assumes "unat (saturating_sub h 1) + n \<le> 2 ^ 64" and "r < n" and "n \<le> 2 ^ 32"
  shows "proposer_index h (of_nat r) n = (unat (saturating_sub h 1) + r) mod n"
proof -
  have r: "unat (of_nat r :: u32) = r" using assms(2,3) by (simp add: unat_of_nat)
  then have u: "unat (ucast (of_nat r :: u32) :: u64) = r" using unat_widen(1) [of "of_nat r"] by (simp add: u32_as_u64_def)
  then have "unat (saturating_sub h 1 + ucast (of_nat r :: u32) :: u64) = unat (saturating_sub h 1) + r"
    using unat_add_no_wrap [of "saturating_sub h 1" "ucast (of_nat r :: u32) :: u64"] assms(1,2) by simp
  then show ?thesis by (simp add: proposer_index_def)
qed

text \<open>C40: proposers take turns. At every height the seats propose in set order starting from one that
  moves on by one per height: within as many rounds as there are seats every seat proposes exactly
  once, and selection never fails.\<close>

theorem proposers_take_turns:
  assumes "vs \<noteq> []" and "length vs \<le> 2 ^ 32" and "unat (saturating_sub h 1) + length vs \<le> 2 ^ 64"
  shows "map (\<lambda>r. select_proposer vs h (RoundSome (of_nat r))) [0..<length vs] = map Ok (rotate (unat (saturating_sub h 1)) vs)"
proof (rule nth_equalityI)
  fix i
  assume "i < length (map (\<lambda>r. select_proposer vs h (RoundSome (of_nat r))) [0..<length vs])"
  then have i: "i < length vs" by simp
  have "get_by_index vs (proposer_index h (of_nat i) (length vs)) = Some (rotate (unat (saturating_sub h 1)) vs ! i)"
    using i assms(1) by (simp add: proposer_index_eq [OF assms(3) i assms(2)] get_by_index_def nth_rotate)
  then show "map (\<lambda>r. select_proposer vs h (RoundSome (of_nat r))) [0..<length vs] ! i = map Ok (rotate (unat (saturating_sub h 1)) vs) ! i"
    using i assms(1) by (simp add: select_proposer_def)
qed simp

definition sample_seat :: "u64 \<Rightarrow> HkValidator" where
  "sample_seat n = \<lparr>vl_address = ucast n, vl_root_pk = [ucast n], vl_public_key = [], vl_epoch = 0, vl_voting_power = n\<rparr>"

theorem proposers_take_turns_witness:
  "select_proposer [sample_seat 3, sample_seat 2, sample_seat 1] 2 (RoundSome 1) = Ok (sample_seat 1)"
proof -
  have h: "unat (saturating_sub (2 :: u64) 1) = 1" by (simp add: saturating_sub_def)
  have "map (\<lambda>r. select_proposer [sample_seat 3, sample_seat 2, sample_seat 1] 2 (RoundSome (of_nat r))) [0..<3]
      = map Ok (rotate 1 [sample_seat 3, sample_seat 2, sample_seat 1])"
    using proposers_take_turns [of "[sample_seat 3, sample_seat 2, sample_seat 1]" 2] by (simp add: h numeral_3_eq_3)
  then show ?thesis by (simp add: upt_rec)
qed

section \<open>The validator set\<close>

text \<open>Seats with distinct roots and addresses and a power of at least one.\<close>

definition vset_ok :: "u64 \<Rightarrow> HkValidatorSet \<Rightarrow> bool" where
  "vset_ok m vs \<longleftrightarrow> vs \<noteq> [] \<and> distinct (map vl_root_pk vs) \<and> distinct (map vl_address vs)
     \<and> (\<forall>v \<in> set vs. 1 \<le> vl_voting_power v \<and> vl_voting_power v \<le> m) \<and> sorted (map seat_key vs)"

definition seat_power :: "(HkValidator \<Rightarrow> bool) \<Rightarrow> HkValidatorSet \<Rightarrow> nat" where
  "seat_power P vs = sum_list (map (\<lambda>v. if P v then unat (vl_voting_power v) else 0) vs)"

lemma seat_power_simps [simp]:
  "seat_power P [] = 0" "seat_power P (v # vs) = (if P v then unat (vl_voting_power v) else 0) + seat_power P vs"
  by (simp_all add: seat_power_def)

lemma seat_power_le: "seat_power P vs \<le> seat_power (\<lambda>_. True) vs"
  by (induction vs) auto

lemma seat_power_split: "seat_power P vs + seat_power Q vs = seat_power (\<lambda>v. P v \<or> Q v) vs + seat_power (\<lambda>v. P v \<and> Q v) vs"
  by (induction vs) auto

lemma total_power_bound: "\<forall>v \<in> set vs. vl_voting_power v \<le> m \<Longrightarrow> seat_power (\<lambda>_. True) vs \<le> length vs * unat m"
  by (induction vs) (auto simp: word_le_nat_alt)

lemma total_voting_power_sum:
  assumes "seat_power (\<lambda>_. True) vs < 2 ^ 64"
  shows "unat (total_voting_power vs) = seat_power (\<lambda>_. True) vs"
proof -
  have "unat acc + seat_power (\<lambda>_. True) vs < 2 ^ 64 \<Longrightarrow>
      unat (for_each vs (\<lambda>v acc. saturating_add acc (vl_voting_power v)) acc) = unat acc + seat_power (\<lambda>_. True) vs" for acc
    by (induction vs arbitrary: acc) (simp_all add: unat_saturating_add)
  from this [of 0] show ?thesis using assms by (simp add: total_voting_power_def)
qed

lemma seat_power_mset: "mset vs = mset ws \<Longrightarrow> seat_power P vs = seat_power P ws"
proof -
  assume "mset vs = mset ws"
  then have "mset (map f vs) = mset (map f ws)" for f :: "HkValidator \<Rightarrow> nat" by simp
  then have "sum_list (map f vs) = sum_list (map f ws)" for f :: "HkValidator \<Rightarrow> nat" by (metis sum_mset_sum_list)
  then show ?thesis by (simp add: seat_power_def)
qed

lemma distinct_map_sort_key [simp]: "distinct (map f (sort_key k xs)) = distinct (map f xs)"
  by (rule mset_eq_imp_distinct_iff) simp

lemma sort_key_eq_Nil [simp]: "sort_key k xs = [] \<longleftrightarrow> xs = []"
  by (metis length_0_conv length_sort)

lemma vset_new_ok:
  assumes "vset_new vs = Ok ws" and "distinct (map vl_root_pk vs)" "distinct (map vl_address vs)"
    and "\<forall>v \<in> set vs. 1 \<le> vl_voting_power v \<and> vl_voting_power v \<le> m"
  shows "vset_ok m ws"
proof -
  have ws: "ws = sort_key seat_key vs" "vs \<noteq> []" using assms(1) by (auto simp: vset_new_def split: if_splits)
  with assms(2-4) show ?thesis by (simp add: vset_ok_def)
qed

end
