(* ===== verification/HK_SetChange.thy ===== *)
theory HK_SetChange
  imports HK_Consensus
begin

text \<open>
  How the validator set of a running chain changes: root identities (\<^verbatim>\<open>hk-crypto/src/slhdsa_adapter.rs\<close>),
  key rotation (\<^verbatim>\<open>hk-consensus/src/rotation.rs\<close> and \<open>apply_rotation\<close> of \<^verbatim>\<open>context.rs\<close>) and set changes
  (\<^verbatim>\<open>hk-consensus/src/setchange.rs\<close>). The SLH-DSA primitives of the \<^verbatim>\<open>fips205\<close> crate are fields of the
  environment; the error strings are the constructors of \<open>ChangeError\<close>.
\<close>

section \<open>Root identities\<close>

record root_env = hash_env +
  slh_keygen :: "bytes \<Rightarrow> bytes \<Rightarrow> bytes \<Rightarrow> bytes \<times> bytes"
  slh_sign :: "bytes \<Rightarrow> bytes \<Rightarrow> bytes"
  slh_pk_ok :: "bytes \<Rightarrow> bool"
  slh_verify :: "bytes \<Rightarrow> bytes \<Rightarrow> bytes \<Rightarrow> bool"

definition SLH_N :: nat where "SLH_N = 24"
definition ROOT_PK_LEN :: nat where "ROOT_PK_LEN = 48"
definition ROOT_SIG_LEN :: nat where "ROOT_SIG_LEN = 16224"
definition DOM_ROOT_SEED :: string where "DOM_ROOT_SEED = ''hk/v1/slhdsa-root-seed''"

record RootSecret =
  rs_sk :: bytes
  rs_pk :: bytes

definition root_from_seed :: "'x root_env_scheme \<Rightarrow> bytes \<Rightarrow> RootSecret" where
  "root_from_seed X seed32 =
     (let m = shake256_n X DOM_ROOT_SEED [seed32] (3 * SLH_N);
          (pk, sk) = slh_keygen X (take SLH_N m) (take SLH_N (drop SLH_N m)) (drop (2 * SLH_N) m)
      in \<lparr>rs_sk = sk, rs_pk = pk\<rparr>)"

definition root_sign :: "'x root_env_scheme \<Rightarrow> RootSecret \<Rightarrow> bytes \<Rightarrow> bytes" where
  "root_sign X root msg = slh_sign X (rs_sk root) msg"

definition root_verify :: "'x root_env_scheme \<Rightarrow> bytes \<Rightarrow> bytes \<Rightarrow> bytes \<Rightarrow> bool" where
  "root_verify X pk msg sig =
     (if length pk \<noteq> ROOT_PK_LEN \<or> length sig \<noteq> ROOT_SIG_LEN then False
      else if \<not> slh_pk_ok X pk then False
      else slh_verify X pk msg sig)"

section \<open>Rotation certificates\<close>

definition DOM_ROTATION_V1 :: string where "DOM_ROTATION_V1 = ''hk/v1/rotation-cert''"
definition DOM_ROTATION_V2 :: string where "DOM_ROTATION_V2 = ''hk/v2/rotation-cert''"
definition ROTATION_FRESHNESS_HORIZON :: u64 where "ROTATION_FRESHNESS_HORIZON = 100000"

datatype RotationDomain = V1 | V2

record RotationRules =
  rr_height :: u64
  rr_chain_id :: string
  rr_v2_from :: u64

definition rules_domain :: "RotationRules \<Rightarrow> RotationDomain" where
  "rules_domain r = (if rr_height r \<ge> rr_v2_from r then V2 else V1)"

definition activation :: "RotationRules \<Rightarrow> u64" where
  "activation r = saturating_add (rr_height r) 1"

record RotationCert =
  rc_root_pk :: bytes
  rc_new_op_pk :: HkPub
  rc_epoch :: u64
  rc_valid_from_height :: u64
  rc_root_sig :: bytes

datatype ChangeError =
    EmptyChainId
  | BadWindow
  | BadRootLength
  | EmptyOpKey
  | PowerZero
  | PowerTooLarge u64
  | WrongChain string
  | NoApprovals
  | DuplicateApproval
  | ApproverNotSeated
  | BadApprovalSignature
  | NoQuorum u64 u64
  | OutsideWindow u64
  | AddressCollision
  | LastSeat
  | SubjectNotSeated
  | NotRegisteredRoot
  | StaleEpoch u64 u64
  | FutureValidFrom u64 u64
  | StaleValidFrom u64 u64
  | BadRotationSignature
  | SignedUnderV1
  | UnknownRoot

definition put_bytes :: "bytes \<Rightarrow> bytes" where
  "put_bytes b = usize_le (length b) @ b"

definition rotation_signing_bytes :: "RotationDomain \<Rightarrow> string \<Rightarrow> bytes \<Rightarrow> HkPub \<Rightarrow> u64 \<Rightarrow> u64 \<Rightarrow> bytes" where
  "rotation_signing_bytes dm chain_id root_pk new_op_pk epoch valid_from_height =
     (case dm of
        V1 \<Rightarrow> str_bytes DOM_ROTATION_V1 @ [0]
      | V2 \<Rightarrow> str_bytes DOM_ROTATION_V2 @ [0] @ put_bytes (str_bytes chain_id))
     @ put_bytes root_pk @ put_bytes new_op_pk @ u64_le epoch @ u64_le valid_from_height"

definition issue :: "'x root_env_scheme \<Rightarrow> RootSecret \<Rightarrow> RotationDomain \<Rightarrow> string \<Rightarrow> HkPub \<Rightarrow> u64 \<Rightarrow> u64 \<Rightarrow> RotationCert" where
  "issue X root dm chain_id new_op_pk epoch valid_from_height =
     (let msg = rotation_signing_bytes dm chain_id (rs_pk root) new_op_pk epoch valid_from_height
      in \<lparr>rc_root_pk = rs_pk root, rc_new_op_pk = new_op_pk, rc_epoch = epoch, rc_valid_from_height = valid_from_height,
          rc_root_sig = root_sign X root msg\<rparr>)"

definition issue_for :: "'x root_env_scheme \<Rightarrow> RootSecret \<Rightarrow> string \<Rightarrow> u64 \<Rightarrow> HkPub \<Rightarrow> u64 \<Rightarrow> u64 \<Rightarrow> RotationCert" where
  "issue_for X root chain_id v2_from new_op_pk epoch valid_from_height =
     issue X root (if valid_from_height \<ge> v2_from then V2 else V1) chain_id new_op_pk epoch valid_from_height"

definition rotation_verify_sig :: "'x root_env_scheme \<Rightarrow> RotationCert \<Rightarrow> RotationDomain \<Rightarrow> string \<Rightarrow> bool" where
  "rotation_verify_sig X c dm chain_id =
     (if length (rc_root_pk c) \<noteq> ROOT_PK_LEN \<or> length (rc_root_sig c) \<noteq> ROOT_SIG_LEN then False
      else root_verify X (rc_root_pk c)
             (rotation_signing_bytes dm chain_id (rc_root_pk c) (rc_new_op_pk c) (rc_epoch c) (rc_valid_from_height c)) (rc_root_sig c))"

definition check_window :: "RotationCert \<Rightarrow> RotationRules \<Rightarrow> (unit, ChangeError) outcome" where
  "check_window c rules =
     (if rules_domain rules = V1 then Ok ()
      else if rc_valid_from_height c > activation rules then Err (FutureValidFrom (rc_valid_from_height c) (activation rules))
      else if saturating_add (rc_valid_from_height c) ROTATION_FRESHNESS_HORIZON < activation rules
      then Err (StaleValidFrom (rc_valid_from_height c) (activation rules))
      else Ok ())"

definition rotation_verify_against :: "'x root_env_scheme \<Rightarrow> RotationCert \<Rightarrow> bytes \<Rightarrow> u64 option \<Rightarrow> RotationRules \<Rightarrow> (unit, ChangeError) outcome" where
  "rotation_verify_against X c registered_root_pk last_epoch rules =
     (if rc_root_pk c \<noteq> registered_root_pk then Err NotRegisteredRoot
      else if (case last_epoch of Some prev \<Rightarrow> rc_epoch c \<le> prev | None \<Rightarrow> False)
      then Err (StaleEpoch (rc_epoch c) (case last_epoch of Some prev \<Rightarrow> prev | None \<Rightarrow> 0))
      else bind_ok (check_window c rules) (\<lambda>_.
        case rules_domain rules of
          V1 \<Rightarrow> if rotation_verify_sig X c V1 [] then Ok () else Err BadRotationSignature
        | V2 \<Rightarrow> if rotation_verify_sig X c V2 (rr_chain_id rules) then Ok ()
                else if rotation_verify_sig X c V1 [] then Err SignedUnderV1
                else Err BadRotationSignature))"

definition apply_rotation :: "'x root_env_scheme \<Rightarrow> HkValidatorSet \<Rightarrow> RotationCert \<Rightarrow> RotationRules \<Rightarrow> (HkValidatorSet, ChangeError) outcome" where
  "apply_rotation X vs c rules =
     bind_ok (ok_or (find (\<lambda>v. vl_root_pk v = rc_root_pk c) vs) UnknownRoot) (\<lambda>target.
     bind_ok (rotation_verify_against X c (vl_root_pk target) (Some (vl_epoch target)) rules) (\<lambda>_.
       Ok (map (\<lambda>v. if vl_address v = vl_address target then v\<lparr>vl_public_key := rc_new_op_pk c, vl_epoch := rc_epoch c\<rparr> else v) vs)))"

section \<open>Set changes\<close>

definition DOM_SET_CHANGE :: string where "DOM_SET_CHANGE = ''hk/v1/set-change''"
definition MAX_VOTING_POWER :: u64 where "MAX_VOTING_POWER = push_bit 32 1"

datatype SetChange =
    Admit bytes HkPub u64
  | Remove bytes
  | SetPower bytes u64

record SetChangeBody =
  sb_chain_id :: string
  sb_change :: SetChange
  sb_not_before :: u64
  sb_not_after :: u64

record Approval =
  ap_root_pk :: bytes
  ap_root_sig :: bytes

record SetChangeCert =
  sc_body :: SetChangeBody
  sc_approvals :: "Approval list"

definition change_bytes :: "SetChange \<Rightarrow> bytes" where
  "change_bytes ch =
     (case ch of
        Admit root_pk public_key voting_power \<Rightarrow> [1] @ put_bytes root_pk @ put_bytes public_key @ u64_le voting_power
      | Remove root_pk \<Rightarrow> [2] @ put_bytes root_pk
      | SetPower root_pk voting_power \<Rightarrow> [3] @ put_bytes root_pk @ u64_le voting_power)"

definition body_signing_bytes :: "SetChangeBody \<Rightarrow> bytes" where
  "body_signing_bytes b =
     str_bytes DOM_SET_CHANGE @ [0] @ put_bytes (str_bytes (sb_chain_id b)) @ change_bytes (sb_change b)
     @ u64_le (sb_not_before b) @ u64_le (sb_not_after b)"

definition subject_root :: "SetChangeBody \<Rightarrow> bytes" where
  "subject_root b = (case sb_change b of Admit r _ _ \<Rightarrow> r | Remove r \<Rightarrow> r | SetPower r _ \<Rightarrow> r)"

definition check_shape :: "SetChangeBody \<Rightarrow> (unit, ChangeError) outcome" where
  "check_shape b =
     (if sb_chain_id b = [] then Err EmptyChainId
      else if sb_not_after b < sb_not_before b then Err BadWindow
      else case sb_change b of
             Admit root_pk public_key voting_power \<Rightarrow>
               if length root_pk \<noteq> ROOT_PK_LEN then Err BadRootLength
               else if public_key = [] then Err EmptyOpKey
               else if voting_power = 0 then Err PowerZero
               else if voting_power > MAX_VOTING_POWER then Err (PowerTooLarge voting_power)
               else Ok ()
           | Remove root_pk \<Rightarrow> if length root_pk \<noteq> ROOT_PK_LEN then Err BadRootLength else Ok ()
           | SetPower root_pk voting_power \<Rightarrow>
               if length root_pk \<noteq> ROOT_PK_LEN then Err BadRootLength
               else if voting_power = 0 then Err PowerZero
               else if voting_power > MAX_VOTING_POWER then Err (PowerTooLarge voting_power)
               else Ok ())"

definition approval_sign :: "'x root_env_scheme \<Rightarrow> RootSecret \<Rightarrow> SetChangeBody \<Rightarrow> Approval" where
  "approval_sign X root b = \<lparr>ap_root_pk = rs_pk root, ap_root_sig = root_sign X root (body_signing_bytes b)\<rparr>"

definition approval_verify :: "'x root_env_scheme \<Rightarrow> Approval \<Rightarrow> SetChangeBody \<Rightarrow> bool" where
  "approval_verify X a b =
     (if length (ap_root_pk a) \<noteq> ROOT_PK_LEN \<or> length (ap_root_sig a) \<noteq> ROOT_SIG_LEN then False
      else root_verify X (ap_root_pk a) (body_signing_bytes b) (ap_root_sig a))"

fun approvals_loop :: "'x root_env_scheme \<Rightarrow> HkValidatorSet \<Rightarrow> SetChangeBody \<Rightarrow> Approval list \<Rightarrow> bytes list \<Rightarrow> u64 \<Rightarrow> (u64, ChangeError) outcome" where
  "approvals_loop X vs b [] seen approving = Ok approving"
| "approvals_loop X vs b (a # rest) seen approving =
     (if ap_root_pk a \<in> set seen then Err DuplicateApproval
      else case find (\<lambda>v. vl_root_pk v = ap_root_pk a) vs of
             None \<Rightarrow> Err ApproverNotSeated
           | Some seat \<Rightarrow>
               if \<not> approval_verify X a b then Err BadApprovalSignature
               else approvals_loop X vs b rest (seen @ [ap_root_pk a]) (saturating_add approving (vl_voting_power seat)))"

definition cert_verify_against :: "'x root_env_scheme \<Rightarrow> SetChangeCert \<Rightarrow> HkValidatorSet \<Rightarrow> string \<Rightarrow> (unit, ChangeError) outcome" where
  "cert_verify_against X c vs chain_id =
     bind_ok (check_shape (sc_body c)) (\<lambda>_.
       if sb_chain_id (sc_body c) \<noteq> chain_id then Err (WrongChain (sb_chain_id (sc_body c)))
       else if sc_approvals c = [] then Err NoApprovals
       else bind_ok (approvals_loop X vs (sc_body c) (sc_approvals c) [] 0) (\<lambda>approving.
         if saturating_mul approving 3 \<le> saturating_mul (total_voting_power vs) 2
         then Err (NoQuorum approving (total_voting_power vs))
         else Ok ()))"

definition in_window :: "SetChangeCert \<Rightarrow> u64 \<Rightarrow> bool" where
  "in_window c h = (sb_not_before (sc_body c) \<le> h \<and> h \<le> sb_not_after (sc_body c))"

definition apply_change :: "'x root_env_scheme \<Rightarrow> HkValidatorSet \<Rightarrow> SetChange \<Rightarrow> (HkValidatorSet option, ChangeError) outcome" where
  "apply_change X vs ch =
     (case ch of
        Admit root_pk public_key voting_power \<Rightarrow>
          if list_ex (\<lambda>v. vl_root_pk v = root_pk) vs then Ok None
          else let newcomer = validator_new X root_pk public_key voting_power
               in if list_ex (\<lambda>v. vl_address v = vl_address newcomer) vs then Err AddressCollision
                  else bind_ok (vset_new (vs @ [newcomer])) (\<lambda>ws. Ok (Some ws))
      | Remove root_pk \<Rightarrow>
          if \<not> list_ex (\<lambda>v. vl_root_pk v = root_pk) vs then Ok None
          else let vals = filter (\<lambda>v. vl_root_pk v \<noteq> root_pk) vs
               in if vals = [] then Err LastSeat else bind_ok (vset_new vals) (\<lambda>ws. Ok (Some ws))
      | SetPower root_pk voting_power \<Rightarrow>
          (case find (\<lambda>v. vl_root_pk v = root_pk) vs of
             None \<Rightarrow> Err SubjectNotSeated
           | Some seat \<Rightarrow>
               if vl_voting_power seat = voting_power then Ok None
               else bind_ok (vset_new (map (\<lambda>v. if vl_root_pk v = root_pk then v\<lparr>vl_voting_power := voting_power\<rparr> else v) vs))
                      (\<lambda>ws. Ok (Some ws))))"

definition apply_set_change :: "'x root_env_scheme \<Rightarrow> HkValidatorSet \<Rightarrow> SetChangeCert \<Rightarrow> u64 \<Rightarrow> string \<Rightarrow> (HkValidatorSet option, ChangeError) outcome" where
  "apply_set_change X vs c height chain_id =
     bind_ok (cert_verify_against X c vs chain_id) (\<lambda>_.
       if \<not> in_window c height then Err (OutsideWindow height)
       else apply_change X vs (sb_change (sc_body c)))"

definition reweight_roots :: "HkValidatorSet \<Rightarrow> bytes list \<Rightarrow> u64 \<Rightarrow> (HkValidatorSet option, unit) outcome" where
  "reweight_roots vs roots pow =
     (let hit = (\<lambda>v. vl_root_pk v \<in> set roots \<and> vl_voting_power v \<noteq> pow);
          vals = map (\<lambda>v. if hit v then v\<lparr>vl_voting_power := pow\<rparr> else v) vs
      in if list_ex hit vs then bind_ok (vset_new vals) (\<lambda>ws. Ok (Some ws)) else Ok None)"

definition quorum_power :: "u64 \<Rightarrow> u64" where
  "quorum_power total_pow = saturating_add (saturating_mul total_pow 2 div 3) 1"

section \<open>Applied changes keep the set well formed\<close>

lemma vset_new_not_Panic [simp]: "vset_new vs = Panic \<longleftrightarrow> vs = []" "vset_new vs \<noteq> Err e" "vset_new vs = Ok ws \<longleftrightarrow> vs \<noteq> [] \<and> ws = sort_key seat_key vs"
  by (auto simp: vset_new_def)

lemma check_shape_not_Panic [simp]: "check_shape b \<noteq> Panic"
  by (auto simp: check_shape_def split: SetChange.splits)

lemma approvals_loop_not_Panic [simp]: "approvals_loop X vs b as seen p \<noteq> Panic"
  by (induction X vs b as seen p rule: approvals_loop.induct) (auto split: option.splits)

lemma cert_verify_not_Panic [simp]: "cert_verify_against X c vs i \<noteq> Panic"
  by (auto simp: cert_verify_against_def bind_ok_Panic_iff split: if_splits)

lemma apply_change_not_Panic: "apply_change X vs ch \<noteq> Panic"
  by (cases ch; cases vs) (auto simp: apply_change_def Let_def bind_ok_Panic_iff split: option.splits if_splits)

lemma apply_set_change_OkE:
  assumes "apply_set_change X vs c h i = Ok r"
  obtains "cert_verify_against X c vs i = Ok ()" "in_window c h" "check_shape (sc_body c) = Ok ()" "sb_chain_id (sc_body c) = i"
    "apply_change X vs (sb_change (sc_body c)) = Ok r"
  using assms by (auto simp: apply_set_change_def cert_verify_against_def elim!: bind_ok_OkE split: if_splits)

fun change_shape_ok :: "SetChange \<Rightarrow> bool" where
  "change_shape_ok (Admit r k p) = (1 \<le> p \<and> p \<le> MAX_VOTING_POWER)"
| "change_shape_ok (Remove r) = True"
| "change_shape_ok (SetPower r p) = (1 \<le> p \<and> p \<le> MAX_VOTING_POWER)"

lemma check_shape_power: "check_shape b = Ok () \<Longrightarrow> change_shape_ok (sb_change b)"
proof -
  have "1 \<le> p \<longleftrightarrow> p \<noteq> 0" for p :: u64 by (auto simp: word_le_nat_alt Suc_le_eq word_unat_eq_iff)
  then show "check_shape b = Ok () \<Longrightarrow> change_shape_ok (sb_change b)"
    by (cases "sb_change b") (auto simp: check_shape_def not_less split: if_splits)
qed

lemma distinct_map_filter_sub: "distinct (map f xs) \<Longrightarrow> distinct (map f (filter P xs))"
  by (induction xs) auto

lemma apply_change_ok:
  assumes "vset_ok MAX_VOTING_POWER vs" and "change_shape_ok ch" and "apply_change X vs ch = Ok (Some ws)"
  shows "vset_ok MAX_VOTING_POWER ws"
proof (cases ch)
  case (Admit r k p)
  let ?n = "validator_new X r k p"
  have ws: "vset_new (vs @ [?n]) = (Ok ws :: (HkValidatorSet, ChangeError) outcome)" and new: "r \<notin> vl_root_pk ` set vs" "vl_address ?n \<notin> vl_address ` set vs"
    using assms(3) Admit by (auto simp: apply_change_def Let_def list_ex_iff elim!: bind_ok_OkE split: if_splits)
  show ?thesis
    by (rule vset_new_ok [OF ws]) (use assms(1,2) Admit new in \<open>auto simp: vset_ok_def validator_new_def\<close>)
next
  case (Remove r)
  have ws: "vset_new (filter (\<lambda>v. vl_root_pk v \<noteq> r) vs) = (Ok ws :: (HkValidatorSet, ChangeError) outcome)"
    using assms(3) Remove by (auto simp: apply_change_def Let_def elim!: bind_ok_OkE split: if_splits)
  show ?thesis
    by (rule vset_new_ok [OF ws]) (use assms(1) in \<open>auto simp: vset_ok_def distinct_map_filter_sub\<close>)
next
  case (SetPower r p)
  let ?f = "\<lambda>v. if vl_root_pk v = r then v\<lparr>vl_voting_power := p\<rparr> else v"
  have ws: "vset_new (map ?f vs) = (Ok ws :: (HkValidatorSet, ChangeError) outcome)"
    using assms(3) SetPower by (auto simp: apply_change_def split: option.splits if_splits elim!: bind_ok_OkE)
  have e: "map vl_root_pk (map ?f vs) = map vl_root_pk vs" "map vl_address (map ?f vs) = map vl_address vs" by auto
  have "distinct (map vl_root_pk (map ?f vs))" "distinct (map vl_address (map ?f vs))"
    unfolding e using assms(1) unfolding vset_ok_def by blast+
  then show ?thesis
  proof (rule vset_new_ok [OF ws])
    show "\<forall>v \<in> set (map ?f vs). 1 \<le> vl_voting_power v \<and> vl_voting_power v \<le> MAX_VOTING_POWER"
      using assms(1,2) SetPower by (auto simp: vset_ok_def)
  qed
qed

lemma reweighted_others:
  assumes "vl_root_pk v \<noteq> r"
  shows "v \<in> set (map (\<lambda>u. if vl_root_pk u = r then u\<lparr>vl_voting_power := p\<rparr> else u) vs) \<longleftrightarrow> v \<in> set vs"
proof
  assume "v \<in> set (map (\<lambda>u. if vl_root_pk u = r then u\<lparr>vl_voting_power := p\<rparr> else u) vs)"
  then obtain u where u: "u \<in> set vs" "v = (if vl_root_pk u = r then u\<lparr>vl_voting_power := p\<rparr> else u)" by auto
  show "v \<in> set vs"
  proof (cases "vl_root_pk u = r")
    case True
    with u(2) have "vl_root_pk v = r" by simp
    with assms show ?thesis by simp
  qed (use u in simp)
next
  assume "v \<in> set vs"
  with assms show "v \<in> set (map (\<lambda>u. if vl_root_pk u = r then u\<lparr>vl_voting_power := p\<rparr> else u) vs)"
    by (auto intro!: image_eqI [of _ _ v])
qed

lemma reweighted_subject:
  assumes "v \<in> set (map (\<lambda>u. if vl_root_pk u = r then u\<lparr>vl_voting_power := p\<rparr> else u) vs)" and "vl_root_pk v = r"
  shows "vl_voting_power v = p"
proof -
  from assms(1) obtain u where u: "v = (if vl_root_pk u = r then u\<lparr>vl_voting_power := p\<rparr> else u)" unfolding set_map by (rule imageE)
  show ?thesis using assms(2) unfolding u by (cases "vl_root_pk u = r") simp_all
qed

lemma apply_change_SetPower:
  assumes "apply_change X vs (SetPower r p) = Ok (Some ws)"
  shows "set ws = set (map (\<lambda>u. if vl_root_pk u = r then u\<lparr>vl_voting_power := p\<rparr> else u) vs)"
  using assms by (auto simp: apply_change_def simp del: set_map split: if_splits option.splits elim!: bind_ok_OkE)

lemma apply_change_others:
  assumes "apply_change X vs ch = Ok (Some ws)" and "vl_root_pk v \<noteq> (case ch of Admit r _ _ \<Rightarrow> r | Remove r \<Rightarrow> r | SetPower r _ \<Rightarrow> r)"
  shows "v \<in> set ws \<longleftrightarrow> v \<in> set vs"
proof (cases ch)
  case (Admit r k p)
  then have "set ws = insert (validator_new X r k p) (set vs)"
    using assms(1) by (auto simp: apply_change_def Let_def split: if_splits elim!: bind_ok_OkE)
  then show ?thesis using assms(2) Admit by (auto simp: validator_new_def)
next
  case (Remove r)
  then have "set ws = set vs \<inter> {v. vl_root_pk v \<noteq> r}"
    using assms(1) by (auto simp: apply_change_def Let_def split: if_splits elim!: bind_ok_OkE)
  then show ?thesis using assms(2) Remove by simp
next
  case (SetPower r p)
  then have "set ws = set (map (\<lambda>u. if vl_root_pk u = r then u\<lparr>vl_voting_power := p\<rparr> else u) vs)"
    using assms(1) apply_change_SetPower by blast
  then show ?thesis using reweighted_others [of v r p vs] assms(2) SetPower by simp
qed

lemma find_distinct:
  assumes "distinct (map f xs)" and "k < length xs" and "f (xs ! k) = r"
  shows "find (\<lambda>x. f x = r) xs = Some (xs ! k)"
proof -
  have "f (xs ! j) \<noteq> r" if "j < k" for j
  proof
    assume "f (xs ! j) = r"
    then have "map f xs ! j = map f xs ! k" using assms(2,3) that by simp
    then show False using nth_eq_iff_index_eq [OF assms(1), of j k] assms(2) that by simp
  qed
  with assms(2,3) show ?thesis unfolding find_Some_iff by blast
qed

section \<open>Quorums\<close>

lemma find_root:
  assumes "distinct (map vl_root_pk vs)" and "find (\<lambda>v. vl_root_pk v = r) vs = Some seat"
  shows "seat \<in> set vs" "vl_root_pk seat = r" "seat_power (\<lambda>v. vl_root_pk v = r) vs = unat (vl_voting_power seat)"
proof -
  show "seat \<in> set vs" "vl_root_pk seat = r" using assms(2) by (auto simp: find_Some_iff)
  have none: "r \<notin> vl_root_pk ` set ws \<Longrightarrow> seat_power (\<lambda>v. vl_root_pk v = r) ws = 0" for ws by (induction ws) auto
  show "seat_power (\<lambda>v. vl_root_pk v = r) vs = unat (vl_voting_power seat)"
    using assms by (induction vs) (auto simp: none image_iff split: if_splits)
qed

lemma seat_power_insert:
  assumes "r \<notin> R"
  shows "seat_power (\<lambda>v. vl_root_pk v \<in> insert r R) vs = seat_power (\<lambda>v. vl_root_pk v = r) vs + seat_power (\<lambda>v. vl_root_pk v \<in> R) vs"
  using assms by (induction vs) auto

text \<open>The approving power is the power of the approvers' seats, counted once.\<close>

lemma approvals_power:
  assumes "approvals_loop X vs b as seen p = Ok q" and "distinct (map vl_root_pk vs)" and "seat_power (\<lambda>_. True) vs < 2 ^ 64"
    and "unat p = seat_power (\<lambda>v. vl_root_pk v \<in> set seen) vs"
  shows "unat q = seat_power (\<lambda>v. vl_root_pk v \<in> set seen \<union> ap_root_pk ` set as) vs"
  using assms(1,4,2,3)
proof (induction X vs b as seen p rule: approvals_loop.induct)
  case (2 X vs b a rest seen p)
  from "2.prems"(1) obtain seat where new: "ap_root_pk a \<notin> set seen" and f: "find (\<lambda>v. vl_root_pk v = ap_root_pk a) vs = Some seat"
    and ver: "\<not> \<not> approval_verify X a b"
    and run: "approvals_loop X vs b rest (seen @ [ap_root_pk a]) (saturating_add p (vl_voting_power seat)) = Ok q"
    by (auto split: option.splits if_splits)
  have ins: "seat_power (\<lambda>v. vl_root_pk v \<in> insert (ap_root_pk a) (set seen)) vs = unat (vl_voting_power seat) + unat p"
    using seat_power_insert [OF new] find_root(3) [OF "2.prems"(3) f] "2.prems"(2) by simp
  then have "unat (saturating_add p (vl_voting_power seat)) = seat_power (\<lambda>v. vl_root_pk v \<in> set (seen @ [ap_root_pk a])) vs"
    using seat_power_le [of "\<lambda>v. vl_root_pk v \<in> insert (ap_root_pk a) (set seen)" vs] "2.prems"(4) by (simp add: unat_saturating_add)
  from "2.IH" [OF new f ver run this "2.prems"(3,4)] show ?case by (simp add: Un_insert_right)
qed simp

definition approver_roots :: "SetChangeCert \<Rightarrow> bytes set" where
  "approver_roots c = ap_root_pk ` set (sc_approvals c)"

lemma cert_power:
  assumes "cert_verify_against X c vs i = Ok ()" and "distinct (map vl_root_pk vs)" and "3 * seat_power (\<lambda>_. True) vs < 2 ^ 64"
  shows "3 * seat_power (\<lambda>v. vl_root_pk v \<in> approver_roots c) vs > 2 * seat_power (\<lambda>_. True) vs"
proof -
  from assms(1) obtain q where run: "approvals_loop X vs (sc_body c) (sc_approvals c) [] 0 = Ok q"
    and more: "\<not> saturating_mul q 3 \<le> saturating_mul (total_voting_power vs) 2"
    by (auto simp: cert_verify_against_def elim!: bind_ok_OkE split: if_splits)
  have lt: "seat_power (\<lambda>_. True) vs < 2 ^ 64" using assms(3) by simp
  have none: "seat_power (\<lambda>v. False) vs = 0" by (induction vs) auto
  have q: "unat q = seat_power (\<lambda>v. vl_root_pk v \<in> approver_roots c) vs"
    using approvals_power [OF run assms(2) lt] none by (simp add: approver_roots_def)
  have "unat q * 3 < 2 ^ 64" "unat (total_voting_power vs) * 2 < 2 ^ 64"
    using q seat_power_le [of "\<lambda>v. vl_root_pk v \<in> approver_roots c" vs] assms(3) total_voting_power_sum [OF lt] by simp_all
  then show ?thesis
    using more q total_voting_power_sum [OF lt] by (simp add: word_le_nat_alt unat_saturating_mul)
qed

text \<open>The bound on a seat's power keeps the total, and three times it, far from 64 bits.\<close>

lemma bounded_set_power:
  assumes "vset_ok MAX_VOTING_POWER vs" and "length vs \<le> 2 ^ 16"
  shows "3 * seat_power (\<lambda>_. True) vs < 2 ^ 50"
proof -
  have m: "unat MAX_VOTING_POWER = 2 ^ 32" by (simp add: MAX_VOTING_POWER_def)
  have "seat_power (\<lambda>_. True) vs \<le> length vs * 2 ^ 32"
    using total_power_bound [of vs MAX_VOTING_POWER] assms(1) m by (simp add: vset_ok_def)
  also have "\<dots> \<le> 2 ^ 16 * 2 ^ 32" using assms(2) by (intro mult_right_mono) auto
  finally show ?thesis by simp
qed

section \<open>Properties\<close>

text \<open>C24: quorums intersect. On a well-formed set of up to $2^{16}$ seats any two certificates that pass
  verification share approvers with more than a third of the total power, and the quorum
  arithmetic cannot overflow: three times the total stays below $2^{50}$.\<close>

theorem quorums_intersect:
  assumes "vset_ok MAX_VOTING_POWER vs" and "length vs \<le> 2 ^ 16"
    and "cert_verify_against X c1 vs i = Ok ()" and "cert_verify_against X c2 vs j = Ok ()"
  shows "3 * seat_power (\<lambda>v. vl_root_pk v \<in> approver_roots c1 \<inter> approver_roots c2) vs > seat_power (\<lambda>_. True) vs
    \<and> unat (total_voting_power vs) = seat_power (\<lambda>_. True) vs \<and> 3 * seat_power (\<lambda>_. True) vs < 2 ^ 50"
proof -
  have b: "3 * seat_power (\<lambda>_. True) vs < 2 ^ 50" by (rule bounded_set_power [OF assms(1,2)])
  then have b64: "3 * seat_power (\<lambda>_. True) vs < 2 ^ 64" "seat_power (\<lambda>_. True) vs < 2 ^ 64" by simp_all
  have d: "distinct (map vl_root_pk vs)" using assms(1) by (simp add: vset_ok_def)
  note c1 = cert_power [OF assms(3) d b64(1)] and c2 = cert_power [OF assms(4) d b64(1)]
  have "seat_power (\<lambda>v. vl_root_pk v \<in> approver_roots c1) vs + seat_power (\<lambda>v. vl_root_pk v \<in> approver_roots c2) vs
      \<le> seat_power (\<lambda>_. True) vs + seat_power (\<lambda>v. vl_root_pk v \<in> approver_roots c1 \<inter> approver_roots c2) vs"
    using seat_power_split [of "\<lambda>v. vl_root_pk v \<in> approver_roots c1" vs "\<lambda>v. vl_root_pk v \<in> approver_roots c2"]
      seat_power_le [of "\<lambda>v. vl_root_pk v \<in> approver_roots c1 \<or> vl_root_pk v \<in> approver_roots c2" vs] by simp
  with c1 c2 show ?thesis using b total_voting_power_sum [OF b64(2)] by simp
qed

text \<open>C25: set changes are safe and total. Applying a certificate to a well-formed set never panics;
  an accepted change was made for this chain inside its window, leaves a well-formed, non-empty set
  of bounded powers, and touches no seat but the one it names.\<close>

theorem set_change_safe:
  assumes "vset_ok MAX_VOTING_POWER vs"
  shows "apply_set_change X vs c h i \<noteq> Panic
    \<and> (\<forall>ws. apply_set_change X vs c h i = Ok (Some ws) \<longrightarrow> vset_ok MAX_VOTING_POWER ws \<and> sb_chain_id (sc_body c) = i \<and> in_window c h
        \<and> (\<forall>v. vl_root_pk v \<noteq> subject_root (sc_body c) \<longrightarrow> (v \<in> set ws \<longleftrightarrow> v \<in> set vs)))"
proof (intro conjI allI impI)
  show "apply_set_change X vs c h i \<noteq> Panic"
    by (auto simp: apply_set_change_def bind_ok_Panic_iff apply_change_not_Panic split: if_splits)
next
  fix ws
  assume "apply_set_change X vs c h i = Ok (Some ws)"
  then obtain sh: "check_shape (sc_body c) = Ok ()" and w: "in_window c h" and i: "sb_chain_id (sc_body c) = i"
    and ch: "apply_change X vs (sb_change (sc_body c)) = Ok (Some ws)" by (rule apply_set_change_OkE)
  show "vset_ok MAX_VOTING_POWER ws" by (rule apply_change_ok [OF assms check_shape_power [OF sh] ch])
  show "sb_chain_id (sc_body c) = i" "in_window c h" by (rule i, rule w)
  show "v \<in> set ws \<longleftrightarrow> v \<in> set vs" if "vl_root_pk v \<noteq> subject_root (sc_body c)" for v
    using apply_change_others [OF ch, of v] that by (simp add: subject_root_def)
qed

text \<open>Applying a certificate is idempotent. Once it changed the set, applying it again to the set
  it produced, at any height and under any chain id, never changes the set a second time.\<close>

lemma set_change_idempotent:
  assumes "vset_ok MAX_VOTING_POWER vs" and "apply_set_change X vs c h i = Ok (Some ws)"
  shows "apply_set_change X ws c h2 i2 \<noteq> Ok (Some us)"
proof
  assume again: "apply_set_change X ws c h2 i2 = Ok (Some us)"
  from assms(2) obtain ch: "apply_change X vs (sb_change (sc_body c)) = Ok (Some ws)" by (rule apply_set_change_OkE)
  from again obtain ch2: "apply_change X ws (sb_change (sc_body c)) = Ok (Some us)" by (rule apply_set_change_OkE)
  show False
  proof (cases "sb_change (sc_body c)")
    case (Admit r k p)
    then have "list_ex (\<lambda>v. vl_root_pk v = r) ws"
      using ch by (auto simp: apply_change_def Let_def list_ex_iff validator_new_def elim!: bind_ok_OkE split: if_splits)
    then show False using ch2 Admit by (simp add: apply_change_def)
  next
    case (Remove r)
    then have "\<not> list_ex (\<lambda>v. vl_root_pk v = r) ws"
      using ch by (auto simp: apply_change_def Let_def list_ex_iff elim!: bind_ok_OkE split: if_splits)
    then show False using ch2 Remove by (simp add: apply_change_def)
  next
    case (SetPower r p)
    then have "set ws = set (map (\<lambda>u. if vl_root_pk u = r then u\<lparr>vl_voting_power := p\<rparr> else u) vs)"
      using ch apply_change_SetPower by simp
    moreover obtain seat where seat: "find (\<lambda>v. vl_root_pk v = r) ws = Some seat" "vl_voting_power seat \<noteq> p"
      using ch2 SetPower by (auto simp: apply_change_def split: option.splits if_splits)
    moreover from seat(1) have "seat \<in> set ws" "vl_root_pk seat = r" by (auto simp: find_Some_iff)
    ultimately show False using reweighted_subject [of seat r p vs] by simp
  qed
qed

text \<open>C26: rotation only moves one seat's key forward. An accepted rotation was signed for the seat's
  registered root with a strictly larger epoch; it keeps the order, addresses, roots and powers of
  all seats and every other seat's key, and the same certificate is refused on the set it
  produced.\<close>

theorem rotation_monotone:
  assumes "vset_ok m vs" and "apply_rotation X vs c rules = Ok ws"
  shows "map (\<lambda>v. (vl_address v, vl_root_pk v, vl_voting_power v)) ws = map (\<lambda>v. (vl_address v, vl_root_pk v, vl_voting_power v)) vs
    \<and> vset_ok m ws
    \<and> (\<exists>k < length vs. vl_root_pk (vs ! k) = rc_root_pk c \<and> vl_epoch (vs ! k) < rc_epoch c
        \<and> ws = vs[k := (vs ! k)\<lparr>vl_public_key := rc_new_op_pk c, vl_epoch := rc_epoch c\<rparr>])
    \<and> apply_rotation X ws c rules2 = Err (StaleEpoch (rc_epoch c) (rc_epoch c))"
proof -
  from assms(2) obtain seat where f: "find (\<lambda>v. vl_root_pk v = rc_root_pk c) vs = Some seat"
    and ver: "rotation_verify_against X c (vl_root_pk seat) (Some (vl_epoch seat)) rules = Ok ()"
    and ws: "ws = map (\<lambda>v. if vl_address v = vl_address seat then v\<lparr>vl_public_key := rc_new_op_pk c, vl_epoch := rc_epoch c\<rparr> else v) vs"
    by (auto simp: apply_rotation_def elim!: bind_ok_OkE)
  from f obtain k where k: "k < length vs" "vs ! k = seat" "vl_root_pk seat = rc_root_pk c" by (auto simp: find_Some_iff)
  have ep: "vl_epoch seat < rc_epoch c" using ver by (auto simp: rotation_verify_against_def not_le split: if_splits)
  have dis: "distinct (map vl_address vs)" "distinct (map vl_root_pk vs)" using assms(1) by (simp_all add: vset_ok_def)
  have upd: "ws = vs[k := seat\<lparr>vl_public_key := rc_new_op_pk c, vl_epoch := rc_epoch c\<rparr>]"
  proof (rule nth_equalityI)
    fix j
    assume "j < length ws"
    then have j: "j < length vs" by (simp add: ws)
    have "vl_address (vs ! j) = vl_address seat \<longleftrightarrow> j = k"
      using dis(1) j k(1,2) by (metis length_map nth_eq_iff_index_eq nth_map)
    then show "ws ! j = vs[k := seat\<lparr>vl_public_key := rc_new_op_pk c, vl_epoch := rc_epoch c\<rparr>] ! j"
      using j k(2) by (simp add: ws nth_list_update)
  qed (simp add: ws)
  have key: "map (\<lambda>v. (vl_address v, vl_root_pk v, vl_voting_power v)) ws = map (\<lambda>v. (vl_address v, vl_root_pk v, vl_voting_power v)) vs"
    by (simp add: ws)
  have ok: "vset_ok m ws"
  proof -
    have e: "map vl_address ws = map vl_address vs" "map vl_root_pk ws = map vl_root_pk vs" "map seat_key ws = map seat_key vs"
      by (simp_all add: ws seat_key_def)
    have "map vl_voting_power ws = map vl_voting_power vs" by (simp add: ws)
    then have "vl_voting_power ` set ws = vl_voting_power ` set vs" by (metis set_map)
    moreover have "\<forall>p \<in> vl_voting_power ` set vs. 1 \<le> p \<and> p \<le> m" using assms(1) by (simp add: vset_ok_def)
    ultimately have "\<forall>v \<in> set ws. 1 \<le> vl_voting_power v \<and> vl_voting_power v \<le> m" by (metis imageI)
    moreover have "ws \<noteq> []" using k(1) by (auto simp: ws)
    ultimately show ?thesis using assms(1) unfolding vset_ok_def e by blast
  qed
  have "find (\<lambda>v. vl_root_pk v = rc_root_pk c) ws = Some (ws ! k)"
    by (rule find_distinct) (use ok k upd in \<open>simp_all add: vset_ok_def\<close>)
  then have "find (\<lambda>v. vl_root_pk v = rc_root_pk c) ws = Some (seat\<lparr>vl_public_key := rc_new_op_pk c, vl_epoch := rc_epoch c\<rparr>)"
    using k(1) upd by simp
  then have "apply_rotation X ws c rules2 = Err (StaleEpoch (rc_epoch c) (rc_epoch c))"
    using k(3) by (simp add: apply_rotation_def rotation_verify_against_def)
  then show ?thesis using key ok k ep upd by auto
qed

section \<open>A concrete set\<close>

definition sample_root_env :: root_env where
  "sample_root_env = \<lparr>xof256 = xof256 sample_hash, sha256 = sha256 sample_hash, slh_keygen = \<lambda>a b c. (a @ b, c),
     slh_sign = \<lambda>_ _. replicate 16224 0, slh_pk_ok = \<lambda>_. True, slh_verify = \<lambda>_ _ _. True\<rparr>"

definition sample_vset :: HkValidatorSet where
  "sample_vset =
     [\<lparr>vl_address = 1, vl_root_pk = replicate 48 1, vl_public_key = [1], vl_epoch = 0, vl_voting_power = 3\<rparr>,
      \<lparr>vl_address = 2, vl_root_pk = replicate 48 2, vl_public_key = [2], vl_epoch = 0, vl_voting_power = 1\<rparr>]"

definition sample_cert :: "SetChange \<Rightarrow> SetChangeCert" where
  "sample_cert ch =
     \<lparr>sc_body = \<lparr>sb_chain_id = ''hk'', sb_change = ch, sb_not_before = 0, sb_not_after = 9\<rparr>,
      sc_approvals = [\<lparr>ap_root_pk = replicate 48 1, ap_root_sig = replicate 16224 0\<rparr>]\<rparr>"

lemma sample_vset_ok: "vset_ok MAX_VOTING_POWER sample_vset" "length sample_vset \<le> 2 ^ 16"
  by (simp_all add: vset_ok_def sample_vset_def MAX_VOTING_POWER_def seat_key_def)

lemma sample_cert_ok:
  assumes "check_shape (sc_body (sample_cert ch)) = Ok ()"
  shows "cert_verify_against sample_root_env (sample_cert ch) sample_vset ''hk'' = Ok ()"
  using assms
  by (simp add: cert_verify_against_def sample_cert_def sample_vset_def approval_verify_def root_verify_def sample_root_env_def
      ROOT_PK_LEN_def ROOT_SIG_LEN_def total_voting_power_def saturating_add_def saturating_mul_def)

lemma sample_shapes: "check_shape (sc_body (sample_cert (Remove (replicate 48 2)))) = Ok ()"
  "check_shape (sc_body (sample_cert (SetPower (replicate 48 2) 2))) = Ok ()"
  by (simp_all add: check_shape_def sample_cert_def ROOT_PK_LEN_def MAX_VOTING_POWER_def)

theorem quorums_intersect_witness:
  "seat_power (\<lambda>v. vl_root_pk v \<in> approver_roots (sample_cert (Remove (replicate 48 2))) \<inter> approver_roots (sample_cert (SetPower (replicate 48 2) 2))) sample_vset > 1"
proof -
  have "seat_power (\<lambda>_. True) sample_vset = 4" by (simp add: sample_vset_def)
  then show ?thesis
    using quorums_intersect [OF sample_vset_ok sample_cert_ok [OF sample_shapes(1)] sample_cert_ok [OF sample_shapes(2)]] by simp
qed

lemma sample_removal: "apply_set_change sample_root_env sample_vset (sample_cert (Remove (replicate 48 2))) 5 ''hk'' = Ok (Some [hd sample_vset])"
  using sample_cert_ok [OF sample_shapes(1)]
  by (simp add: apply_set_change_def) (simp add: in_window_def sample_cert_def apply_change_def sample_vset_def vset_new_def)

theorem set_change_safe_witness: "vset_ok MAX_VOTING_POWER [hd sample_vset]"
  using set_change_safe [OF sample_vset_ok(1), of sample_root_env "sample_cert (Remove (replicate 48 2))" 5 "''hk''"] sample_removal by blast

definition sample_rotation :: RotationCert where
  "sample_rotation = \<lparr>rc_root_pk = replicate 48 2, rc_new_op_pk = [7], rc_epoch = 1, rc_valid_from_height = 6, rc_root_sig = replicate 16224 0\<rparr>"

definition sample_rules :: RotationRules where
  "sample_rules = \<lparr>rr_height = 6, rr_chain_id = ''hk'', rr_v2_from = 0\<rparr>"

theorem rotation_monotone_witness:
  "\<exists>ws. apply_rotation sample_root_env sample_vset sample_rotation sample_rules = Ok ws
    \<and> apply_rotation sample_root_env ws sample_rotation sample_rules = Err (StaleEpoch 1 1)"
proof -
  obtain ws where ws: "apply_rotation sample_root_env sample_vset sample_rotation sample_rules = Ok ws"
    by (simp add: apply_rotation_def sample_vset_def sample_rotation_def sample_rules_def rotation_verify_against_def check_window_def
        rules_domain_def activation_def saturating_add_def ROTATION_FRESHNESS_HORIZON_def rotation_verify_sig_def root_verify_def
        sample_root_env_def ROOT_PK_LEN_def ROOT_SIG_LEN_def)
  from rotation_monotone [OF sample_vset_ok(1) ws, of sample_rules] ws show ?thesis by (auto simp: sample_rotation_def)
qed

end
