(* ===== verification/HK_Mempool.thy ===== *)
theory HK_Mempool
  imports HK_Properties
begin

text \<open>
  The indexed mempool (\<^verbatim>\<open>hk-node/src/mempool.rs\<close>), the transaction id (\<^verbatim>\<open>hk-node/src/batch.rs\<close>)
  and the proposer's pick (\<^verbatim>\<open>settle_cost\<close> and \<^verbatim>\<open>select_batch_txs\<close> of \<^verbatim>\<open>hk-node/src/state.rs\<close>): the
  FIFO queue with its three indexes, admission against the chain's state, the commit-time prune
  and the selection of a block's transactions under the link budget.
  The JSON encoding of a signed transaction comes from \<^verbatim>\<open>serde_json\<close>; the two environment
  variables are read once, so their parsed values are fields of the environment. Hash maps
  and hash sets are never iterated here, so they are maps and sets.
\<close>

section \<open>Data\<close>

record node_env = state_env +
  json_signed :: "SignedTx \<Rightarrow> bytes option"
  hk_mempool_cap :: "nat option"
  hk_nonce_window :: "u64 option"

definition DOM_TXID :: string where "DOM_TXID = ''hk/v1/txid''"
definition MAX_TXS_PER_BLOCK :: nat where "MAX_TXS_PER_BLOCK = 1024"
definition DEFAULT_CAP :: nat where "DEFAULT_CAP = 8192"
definition NONCE_WINDOW :: u64 where "NONCE_WINDOW = 64"
definition MAX_SETTLE_LINKS_PER_BLOCK :: u64 where "MAX_SETTLE_LINKS_PER_BLOCK = push_bit 17 1"

definition txid :: "'x node_env_scheme \<Rightarrow> SignedTx \<Rightarrow> (H256, 'e) outcome" where
  "txid X tx = (case json_signed X tx of Some bs \<Rightarrow> Ok (shake256_32 X DOM_TXID [bs]) | None \<Rightarrow> Panic)"

definition nonce_window :: "'x node_env_scheme \<Rightarrow> u64" where
  "nonce_window X = (case hk_nonce_window X of Some n \<Rightarrow> if n > 0 then n else NONCE_WINDOW | None \<Rightarrow> NONCE_WINDOW)"

datatype AdmitError =
    Full
  | DuplicateTx
  | DuplicateSlot u64
  | UnknownSender
  | StaleNonce u64 u64
  | FutureNonce u64 u64
  | NonceGap u64 u64
  | NullifierSpent
  | NullifierPending
  | UnknownAnchor
  | BadEnvelope
  | AuthMismatch
  | BadSignature
  | ChannelTooLong u32
  | SettleDeltaTooLarge u64
  | SettleTooCostly u64

record EnvelopeVerdict =
  ev_pk_commit :: "H256 option"
  ev_signature :: "(unit, AdmitError) outcome"

record Mempool =
  mp_q :: "SignedTx list"
  mp_ids :: "H256 set"
  mp_keys :: "AccountId \<times> u64 \<rightharpoonup> H256"
  mp_nullifiers :: "H256 set"
  mp_cap :: nat

definition mempool_new :: "nat \<Rightarrow> Mempool" where
  "mempool_new cap = \<lparr>mp_q = [], mp_ids = {}, mp_keys = Map.empty, mp_nullifiers = {}, mp_cap = cap\<rparr>"

definition mempool_default :: "'x node_env_scheme \<Rightarrow> Mempool" where
  "mempool_default X = mempool_new (case hk_mempool_cap X of Some n \<Rightarrow> if n > 0 then n else DEFAULT_CAP | None \<Rightarrow> DEFAULT_CAP)"

section \<open>Admission\<close>

definition gate :: "'x node_env_scheme \<Rightarrow> Mempool \<Rightarrow> SignedTx \<Rightarrow> (H256, AdmitError) outcome" where
  "gate X m tx =
     (if length (mp_q m) \<ge> mp_cap m then Err Full
      else bind_ok (txid X tx) (\<lambda>i.
        if i \<in> mp_ids m then Err DuplicateTx
        else if (stx_sender tx, stx_nonce tx) \<in> dom (mp_keys m) then Err (DuplicateSlot (stx_nonce tx))
        else Ok i))"

text \<open>The links a settlement makes the chain hash in the next block.\<close>

definition settle_cost :: "State \<Rightarrow> ChannelId \<Rightarrow> u32 \<Rightarrow> u64" where
  "settle_cost s i k =
     (case settle_links s i k of
        Some links \<Rightarrow> links
      | None \<Rightarrow>
          if bmap_contains (st_channels s) i then 0
          else if saturating_add (st_height s) 1 \<ge> st_payword_cap_from s then min (u32_as_u64 k) MAX_SETTLE_DELTA
          else u32_as_u64 k)"

definition channel_open_cap :: "SignedTx \<Rightarrow> (unit, AdmitError) outcome" where
  "channel_open_cap tx =
     (case stx_payload tx of
        ChannelOpen i mandate payee asset t unit_price steps expiry \<Rightarrow>
          if u32_as_u64 steps > MAX_CHANNEL_STEPS then Err (ChannelTooLong steps) else Ok ()
      | _ \<Rightarrow> Ok ())"

definition channel_settle_cap :: "SignedTx \<Rightarrow> State \<Rightarrow> (unit, AdmitError) outcome" where
  "channel_settle_cap tx s =
     (case stx_payload tx of
        ChannelSettle i word k \<Rightarrow>
          bind_ok
            (case settle_delta s i k of
               Some delta \<Rightarrow> if delta > MAX_SETTLE_DELTA then Err (SettleDeltaTooLarge delta) else Ok ()
             | None \<Rightarrow>
                 if \<not> bmap_contains (st_channels s) i \<and> u32_as_u64 k > MAX_SETTLE_DELTA
                 then Err (SettleDeltaTooLarge (u32_as_u64 k)) else Ok ())
            (\<lambda>_. let links = settle_cost s i k
                 in if links > MAX_SETTLE_LINKS_PER_BLOCK then Err (SettleTooCostly links) else Ok ())
      | _ \<Rightarrow> Ok ())"

definition envelope_verdict :: "'x node_env_scheme \<Rightarrow> SignedTx \<Rightarrow> EnvelopeVerdict" where
  "envelope_verdict X tx =
     (if length (stx_lamport_pk tx) \<noteq> PK_LEN \<or> length (stx_sig tx) \<noteq> SIG_LEN
      then \<lparr>ev_pk_commit = None, ev_signature = Err BadEnvelope\<rparr>
      else case channel_open_cap tx of
        Err e \<Rightarrow> \<lparr>ev_pk_commit = None, ev_signature = Err e\<rparr>
      | _ \<Rightarrow>
          \<lparr>ev_pk_commit = Some (pk_commit X (stx_lamport_pk tx)),
           ev_signature =
             (if verify_envelope X tx then Ok ()
              else if signing_digest X (stx_payload tx) (stx_sender tx) (stx_nonce tx) (stx_next_auth tx) = None
              then Err BadEnvelope
              else Err BadSignature)\<rparr>)"

definition index :: "Mempool \<Rightarrow> SignedTx \<Rightarrow> H256 \<Rightarrow> Mempool" where
  "index m tx i =
     (let m1 = m\<lparr>mp_ids := insert i (mp_ids m), mp_keys := (mp_keys m)((stx_sender tx, stx_nonce tx) \<mapsto> stx_next_auth tx)\<rparr>
      in case stx_payload tx of
           ShieldedSpend anchor nf out out2 fee credit_to mandate prf ct ct2 \<Rightarrow>
             m1\<lparr>mp_nullifiers := insert nf (mp_nullifiers m1)\<rparr>
         | _ \<Rightarrow> m1)"

definition unindex :: "'x node_env_scheme \<Rightarrow> Mempool \<Rightarrow> SignedTx \<Rightarrow> (Mempool, AdmitError) outcome" where
  "unindex X m tx =
     bind_ok (txid X tx) (\<lambda>i.
       let m1 = m\<lparr>mp_ids := mp_ids m - {i}, mp_keys := (mp_keys m)((stx_sender tx, stx_nonce tx) := None)\<rparr>
       in case stx_payload tx of
            ShieldedSpend anchor nf out out2 fee credit_to mandate prf ct ct2 \<Rightarrow>
              Ok (m1\<lparr>mp_nullifiers := mp_nullifiers m1 - {nf}\<rparr>)
          | _ \<Rightarrow> Ok m1)"

text \<open>The lookups of a shielded spend in the pool its anchor routes to.\<close>

definition pool_preconditions :: "Mempool \<Rightarrow> SignedTx \<Rightarrow> State \<Rightarrow> (unit, AdmitError) outcome" where
  "pool_preconditions m tx s =
     (case stx_payload tx of
        ShieldedSpend anchor nf out out2 fee credit_to mandate prf ct ct2 \<Rightarrow>
          (case Option.bind (pool_key_of_anchor s anchor) (pool_ref s) of
             None \<Rightarrow> Err UnknownAnchor
           | Some pool \<Rightarrow>
               if bset_contains (ps_nullifiers pool) nf then Err NullifierSpent
               else if nf \<in> mp_nullifiers m then Err NullifierPending
               else Ok ())
      | _ \<Rightarrow> Ok ())"

text \<open>The commitment the key must open: the account's, or the pending predecessor's.\<close>

definition expected_auth :: "Mempool \<Rightarrow> SignedTx \<Rightarrow> Account \<Rightarrow> (H256, AdmitError) outcome" where
  "expected_auth m tx acc =
     (if stx_nonce tx = acc_nonce acc then Ok (acc_auth_commit acc)
      else ok_or (mp_keys m (stx_sender tx, stx_nonce tx - 1)) (NonceGap (stx_nonce tx) (stx_nonce tx - 1)))"

definition admit_gated :: "'x node_env_scheme \<Rightarrow> Mempool \<Rightarrow> SignedTx \<Rightarrow> H256 \<Rightarrow> State \<Rightarrow> EnvelopeVerdict \<Rightarrow>
    (H256, AdmitError, Mempool) step" where
  "admit_gated X m tx i s verdict =
     (case ev_pk_commit verdict of
        None \<Rightarrow> (Err (case ev_signature verdict of Err e \<Rightarrow> e | _ \<Rightarrow> BadEnvelope), m)
      | Some pkc \<Rightarrow>
          try_ro (ok_or (bmap_get (st_accounts s) (stx_sender tx)) UnknownSender) m (\<lambda>acc.
            let current = acc_nonce acc
            in if stx_nonce tx < current then (Err (StaleNonce current (stx_nonce tx)), m)
               else if stx_nonce tx \<ge> current + nonce_window X then (Err (FutureNonce current (stx_nonce tx)), m)
               else
                 try_ro (pool_preconditions m tx s) m (\<lambda>_.
                 try_ro (expected_auth m tx acc) m (\<lambda>expected.
                   if pkc \<noteq> expected then (Err AuthMismatch, m)
                   else try_ro (ev_signature verdict) m (\<lambda>_.
                     let m1 = index m tx i
                     in (Ok i, m1\<lparr>mp_q := mp_q m1 @ [tx]\<rparr>))))))"

definition try_admit :: "'x node_env_scheme \<Rightarrow> Mempool \<Rightarrow> SignedTx \<Rightarrow> State \<Rightarrow> (H256, AdmitError, Mempool) step" where
  "try_admit X m tx s =
     try_ro (gate X m tx) m (\<lambda>i.
     try_ro (channel_settle_cap tx s) m (\<lambda>_.
       let verdict = envelope_verdict X tx
       in admit_gated X m tx i s verdict))"

definition try_admit_verified :: "'x node_env_scheme \<Rightarrow> Mempool \<Rightarrow> SignedTx \<Rightarrow> State \<Rightarrow> EnvelopeVerdict \<Rightarrow> (H256, AdmitError, Mempool) step" where
  "try_admit_verified X m tx s verdict =
     try_ro (gate X m tx) m (\<lambda>i.
     try_ro (channel_settle_cap tx s) m (\<lambda>_. admit_gated X m tx i s verdict))"

definition insert_unchecked :: "'x node_env_scheme \<Rightarrow> Mempool \<Rightarrow> SignedTx \<Rightarrow> (bool, AdmitError, Mempool) step" where
  "insert_unchecked X m tx =
     try_ro (txid X tx) m (\<lambda>i.
       if i \<in> mp_ids m \<or> length (mp_q m) \<ge> mp_cap m then (Ok False, m)
       else let m1 = index m tx i in (Ok True, m1\<lparr>mp_q := mp_q m1 @ [tx]\<rparr>))"

section \<open>The commit-time prune\<close>

fun prune_loop :: "'x node_env_scheme \<Rightarrow> (AccountId \<times> u64) set \<Rightarrow> SignedTx list \<Rightarrow> SignedTx list \<Rightarrow> Mempool \<Rightarrow>
    (SignedTx list, AdmitError, Mempool) step" where
  "prune_loop X gone [] kept m = (Ok kept, m)"
| "prune_loop X gone (tx # rest) kept m =
     (if (stx_sender tx, stx_nonce tx) \<in> gone
      then try_ro (unindex X m tx) m (\<lambda>m1. prune_loop X gone rest kept m1)
      else prune_loop X gone rest (kept @ [tx]) m)"

definition remove_included :: "'x node_env_scheme \<Rightarrow> Mempool \<Rightarrow> (AccountId \<times> u64) list \<Rightarrow> (nat, AdmitError, Mempool) step" where
  "remove_included X m included =
     (if included = [] then (Ok 0, m)
      else let gone = set included;
               before = length (mp_q m)
           in try_rw (prune_loop X gone (mp_q m) [] (m\<lparr>mp_q := []\<rparr>)) (\<lambda>kept m1.
                (Ok (before - length kept), m1\<lparr>mp_q := kept\<rparr>)))"

section \<open>The proposer's pick\<close>

fun select_loop :: "State \<Rightarrow> nat \<Rightarrow> SignedTx list \<Rightarrow> SignedTx list \<Rightarrow> nat \<Rightarrow> u64 \<Rightarrow> AccountId set \<Rightarrow> SignedTx list \<times> nat" where
  "select_loop s room [] picked n_held links held_senders = (picked, n_held)"
| "select_loop s room (tx # rest) picked n_held links held_senders =
     (if length picked \<ge> room then (picked, n_held)
      else if stx_sender tx \<in> held_senders then select_loop s room rest picked (n_held + 1) links held_senders
      else case stx_payload tx of
        ChannelSettle i word k \<Rightarrow>
          let cost = settle_cost s i k
          in if saturating_add links cost > MAX_SETTLE_LINKS_PER_BLOCK
             then select_loop s room rest picked (n_held + 1) links (insert (stx_sender tx) held_senders)
             else select_loop s room rest (picked @ [tx]) n_held (saturating_add links cost) held_senders
      | _ \<Rightarrow> select_loop s room rest (picked @ [tx]) n_held links held_senders)"

definition select_batch_txs :: "State \<Rightarrow> SignedTx list \<Rightarrow> nat \<Rightarrow> u64 \<Rightarrow> SignedTx list \<times> nat" where
  "select_batch_txs s pending room links_so_far = select_loop s room pending [] 0 links_so_far {}"

section \<open>The indexes describe the queue\<close>

definition slot_of :: "SignedTx \<Rightarrow> AccountId \<times> u64" where
  "slot_of tx = (stx_sender tx, stx_nonce tx)"

fun payload_nullifiers :: "Tx \<Rightarrow> H256 list" where
  "payload_nullifiers (ShieldedSpend anchor nf out out2 fee credit_to mandate prf ct ct2) = [nf]"
| "payload_nullifiers _ = []"

abbreviation nullifiers_of :: "SignedTx list \<Rightarrow> H256 list" where
  "nullifiers_of ts \<equiv> concat (map (payload_nullifiers \<circ> stx_payload) ts)"

definition tx_hash :: "'x node_env_scheme \<Rightarrow> SignedTx \<Rightarrow> H256" where
  "tx_hash X tx = shake256_32 X DOM_TXID [the (json_signed X tx)]"

lemma txid_encoded: "json_signed X tx \<noteq> None \<Longrightarrow> txid X tx = Ok (tx_hash X tx)"
  by (auto simp: txid_def tx_hash_def)

lemma txid_Ok_iff: "txid X tx = Ok i \<longleftrightarrow> json_signed X tx \<noteq> None \<and> i = tx_hash X tx"
  by (auto simp: txid_def tx_hash_def split: option.splits)

lemma txid_not_Err [simp]: "txid X tx \<noteq> Err e"
  by (simp add: txid_def split: option.split)

text \<open>The three indexes of \<open>m\<close> hold exactly what the transactions \<open>ts\<close> put there.\<close>

definition indexes :: "'x node_env_scheme \<Rightarrow> Mempool \<Rightarrow> SignedTx list \<Rightarrow> bool" where
  "indexes X m ts \<longleftrightarrow>
     (\<forall>t \<in> set ts. json_signed X t \<noteq> None)
     \<and> distinct (map (tx_hash X) ts) \<and> mp_ids m = tx_hash X ` set ts
     \<and> distinct (map slot_of ts) \<and> Map.graph (mp_keys m) = (\<lambda>t. (slot_of t, stx_next_auth t)) ` set ts
     \<and> distinct (nullifiers_of ts) \<and> mp_nullifiers m = set (nullifiers_of ts)"

lemma indexes_queue [simp]: "indexes X (m\<lparr>mp_q := q\<rparr>) ts \<longleftrightarrow> indexes X m ts"
  by (simp add: indexes_def)

lemma index_fields [simp]:
  "mp_q (index m tx i) = mp_q m" "mp_cap (index m tx i) = mp_cap m" "mp_ids (index m tx i) = insert i (mp_ids m)"
  "mp_keys (index m tx i) = (mp_keys m)(slot_of tx \<mapsto> stx_next_auth tx)"
  "mp_nullifiers (index m tx i) = set (payload_nullifiers (stx_payload tx)) \<union> mp_nullifiers m"
  by (cases "stx_payload tx"; simp add: index_def slot_of_def)+

lemma unindex_Ok:
  assumes "json_signed X tx \<noteq> None"
  obtains m1 where "unindex X m tx = Ok m1" "mp_q m1 = mp_q m" "mp_cap m1 = mp_cap m" "mp_ids m1 = mp_ids m - {tx_hash X tx}"
    "mp_keys m1 = (mp_keys m)(slot_of tx := None)" "mp_nullifiers m1 = mp_nullifiers m - set (payload_nullifiers (stx_payload tx))"
proof -
  let ?m1 = "m\<lparr>mp_ids := mp_ids m - {tx_hash X tx}, mp_keys := (mp_keys m)(slot_of tx := None),
    mp_nullifiers := mp_nullifiers m - set (payload_nullifiers (stx_payload tx))\<rparr>"
  have "unindex X m tx = Ok ?m1"
    using assms by (cases "stx_payload tx") (simp_all add: unindex_def txid_encoded slot_of_def)
  then show ?thesis by (rule that) simp_all
qed

lemma key_entry:
  assumes "indexes X m ts"
  shows "mp_keys m k = Some a \<longleftrightarrow> (\<exists>t \<in> set ts. slot_of t = k \<and> stx_next_auth t = a)"
proof -
  have "mp_keys m k = Some a \<longleftrightarrow> (k, a) \<in> Map.graph (mp_keys m)" by (metis in_graphD in_graphI)
  then show ?thesis using assms by (auto simp: indexes_def)
qed

lemma key_pending: "indexes X m ts \<Longrightarrow> k \<in> dom (mp_keys m) \<longleftrightarrow> k \<in> slot_of ` set ts"
  unfolding domIff not_None_eq by (subst key_entry) auto

lemma graph_keep_others: "k \<notin> f ` A \<Longrightarrow> {e \<in> (\<lambda>t. (f t, g t)) ` A. fst e \<noteq> k} = (\<lambda>t. (f t, g t)) ` A"
  by force

lemma index_append:
  assumes "indexes X m ts" and "json_signed X tx \<noteq> None" and "tx_hash X tx \<notin> mp_ids m" and "slot_of tx \<notin> dom (mp_keys m)"
    and "set (payload_nullifiers (stx_payload tx)) \<inter> mp_nullifiers m = {}"
  shows "indexes X (index m tx (tx_hash X tx)) (ts @ [tx])"
proof -
  have fresh: "slot_of tx \<notin> slot_of ` set ts" using assms(4) key_pending [OF assms(1)] by blast
  have keys: "Map.graph ((mp_keys m)(slot_of tx \<mapsto> stx_next_auth tx)) = (\<lambda>t. (slot_of t, stx_next_auth t)) ` set (ts @ [tx])"
    using assms(1) by (simp add: indexes_def graph_fun_upd_None graph_keep_others [OF fresh])
  have one: "distinct (payload_nullifiers (stx_payload tx))" by (cases "stx_payload tx") auto
  show ?thesis
    using assms keys fresh one unfolding indexes_def index_fields by (auto simp: image_iff)
qed

lemma unindex_remove:
  assumes "indexes X m (kept @ tx # rest)"
  obtains m1 where "unindex X m tx = Ok m1" "indexes X m1 (kept @ rest)" "mp_q m1 = mp_q m" "mp_cap m1 = mp_cap m"
proof -
  have enc: "json_signed X tx \<noteq> None" using assms by (simp add: indexes_def)
  obtain m1 where m1: "unindex X m tx = Ok m1" "mp_q m1 = mp_q m" "mp_cap m1 = mp_cap m" "mp_ids m1 = mp_ids m - {tx_hash X tx}"
    "mp_keys m1 = (mp_keys m)(slot_of tx := None)" "mp_nullifiers m1 = mp_nullifiers m - set (payload_nullifiers (stx_payload tx))"
    by (rule unindex_Ok [OF enc])
  have fresh: "slot_of tx \<notin> slot_of ` set (kept @ rest)" using assms by (auto simp: indexes_def)
  have keys: "Map.graph ((mp_keys m)(slot_of tx := None)) = (\<lambda>t. (slot_of t, stx_next_auth t)) ` set (kept @ rest)"
  proof -
    have "Map.graph (mp_keys m) = insert (slot_of tx, stx_next_auth tx) ((\<lambda>t. (slot_of t, stx_next_auth t)) ` set (kept @ rest))"
      using assms by (auto simp: indexes_def)
    then show ?thesis using graph_keep_others [OF fresh, of stx_next_auth] by (auto simp: graph_fun_upd_None)
  qed
  have ids: "mp_ids m - {tx_hash X tx} = tx_hash X ` set (kept @ rest)"
  proof -
    have "mp_ids m = insert (tx_hash X tx) (tx_hash X ` set (kept @ rest))" "tx_hash X tx \<notin> tx_hash X ` set (kept @ rest)"
      using assms by (auto simp: indexes_def)
    then show ?thesis by simp
  qed
  have nfs: "mp_nullifiers m - set (payload_nullifiers (stx_payload tx)) = set (nullifiers_of (kept @ rest))"
    using assms unfolding indexes_def by auto
  have "indexes X m1 (kept @ rest)"
    using assms keys ids nfs unfolding indexes_def m1(4-6) by auto
  with m1 that show ?thesis by blast
qed

lemma prune_loop_exact:
  "indexes X m (kept @ rest) \<Longrightarrow>
   \<exists>m1. prune_loop X gone rest kept m = (Ok (kept @ filter (\<lambda>t. slot_of t \<notin> gone) rest), m1)
      \<and> indexes X m1 (kept @ filter (\<lambda>t. slot_of t \<notin> gone) rest) \<and> mp_cap m1 = mp_cap m"
proof (induction rest arbitrary: kept m)
  case (Cons tx rest)
  show ?case
  proof (cases "slot_of tx \<in> gone")
    case True
    obtain m1 where m1: "unindex X m tx = Ok m1" "indexes X m1 (kept @ rest)" "mp_cap m1 = mp_cap m"
      by (rule unindex_remove [OF Cons.prems])
    show ?thesis using Cons.IH [OF m1(2)] m1(1,3) True by (simp add: slot_of_def)
  next
    case False
    then show ?thesis using Cons.IH [of m "kept @ [tx]"] Cons.prems by (simp add: slot_of_def)
  qed
qed simp

definition indexed :: "'x node_env_scheme \<Rightarrow> Mempool \<Rightarrow> bool" where
  "indexed X m \<longleftrightarrow> indexes X m (mp_q m) \<and> length (mp_q m) \<le> mp_cap m"

lemma indexed_new: "indexed X (mempool_new cap)"
  by (simp add: indexed_def indexes_def mempool_new_def)

lemma remove_included_exact:
  assumes "indexed X m"
  obtains m' where "remove_included X m included = (Ok (length (mp_q m) - length (mp_q m')), m')"
    "mp_q m' = filter (\<lambda>t. slot_of t \<notin> set included) (mp_q m)" "indexed X m'" "mp_cap m' = mp_cap m"
proof (cases "included = []")
  case True
  then show ?thesis using that [of m] assms by (simp add: remove_included_def)
next
  case False
  let ?left = "filter (\<lambda>t. slot_of t \<notin> set included) (mp_q m)"
  have "indexes X (m\<lparr>mp_q := []\<rparr>) ([] @ mp_q m)" using assms by (simp add: indexed_def)
  from prune_loop_exact [OF this, of "set included"] obtain m1
    where m1: "prune_loop X (set included) (mp_q m) [] (m\<lparr>mp_q := []\<rparr>) = (Ok ?left, m1)" "indexes X m1 ?left" "mp_cap m1 = mp_cap m"
    by auto
  have "length ?left \<le> mp_cap m" using assms length_filter_le le_trans unfolding indexed_def by blast
  then show ?thesis using that [of "m1\<lparr>mp_q := ?left\<rparr>"] m1 False by (simp add: remove_included_def indexed_def)
qed

section \<open>What an admission checked\<close>

lemma admit_gated_OkE:
  assumes "admit_gated X m tx i s v = (Ok j, m')"
  obtains pkc acc expected where "ev_pk_commit v = Some pkc" "bmap_get (st_accounts s) (stx_sender tx) = Some acc"
    "acc_nonce acc \<le> stx_nonce tx" "stx_nonce tx < acc_nonce acc + nonce_window X" "pool_preconditions m tx s = Ok ()"
    "expected_auth m tx acc = Ok expected" "pkc = expected" "ev_signature v = Ok ()"
    "j = i" "m' = (index m tx i)\<lparr>mp_q := mp_q m @ [tx]\<rparr>"
  using assms by (auto simp: admit_gated_def Let_def not_less not_le elim!: try_ro_OkE split: option.splits if_splits)

lemma gate_OkE:
  assumes "gate X m tx = Ok i"
  obtains "length (mp_q m) < mp_cap m" "json_signed X tx \<noteq> None" "i = tx_hash X tx" "i \<notin> mp_ids m" "slot_of tx \<notin> dom (mp_keys m)"
  using assms by (auto simp: gate_def slot_of_def not_le txid_Ok_iff elim!: bind_ok_OkE split: if_splits)

lemma open_cap_not_Panic [simp]: "channel_open_cap tx \<noteq> Panic"
  by (simp add: channel_open_cap_def split: Tx.split)

lemma settle_cap_not_Panic [simp]: "channel_settle_cap tx s \<noteq> Panic"
  by (auto simp: channel_settle_cap_def Let_def bind_ok_Panic_iff split: Tx.split option.split)

lemma envelope_verdict_Ok:
  assumes "ev_pk_commit (envelope_verdict X tx) = Some pkc" and "ev_signature (envelope_verdict X tx) = Ok ()"
  shows "pkc = pk_commit X (stx_lamport_pk tx)" "verify_envelope X tx"
    "case stx_payload tx of ChannelOpen i mandate payee asset t unit_price steps expiry \<Rightarrow> u32_as_u64 steps \<le> MAX_CHANNEL_STEPS | _ \<Rightarrow> True"
proof -
  have "channel_open_cap tx = Ok ()"
    using assms by (cases "channel_open_cap tx") (auto simp: envelope_verdict_def split: if_splits)
  with assms show "pkc = pk_commit X (stx_lamport_pk tx)" "verify_envelope X tx"
    by (auto simp: envelope_verdict_def split: if_splits)
  show "case stx_payload tx of ChannelOpen i mandate payee asset t unit_price steps expiry \<Rightarrow> u32_as_u64 steps \<le> MAX_CHANNEL_STEPS | _ \<Rightarrow> True"
    using \<open>channel_open_cap tx = Ok ()\<close> by (auto simp: channel_open_cap_def split: Tx.splits if_splits)
qed

lemma try_admit_OkE:
  assumes "try_admit X m tx s = (Ok i, m')"
  obtains acc where "length (mp_q m) < mp_cap m" "json_signed X tx \<noteq> None" "i = tx_hash X tx" "i \<notin> mp_ids m"
    "slot_of tx \<notin> dom (mp_keys m)" "channel_settle_cap tx s = Ok ()" "verify_envelope X tx"
    "bmap_get (st_accounts s) (stx_sender tx) = Some acc"
    "acc_nonce acc \<le> stx_nonce tx" "stx_nonce tx < acc_nonce acc + nonce_window X" "pool_preconditions m tx s = Ok ()"
    "expected_auth m tx acc = Ok (pk_commit X (stx_lamport_pk tx))" "m' = (index m tx i)\<lparr>mp_q := mp_q m @ [tx]\<rparr>"
proof -
  from assms obtain j where g: "gate X m tx = Ok j" and c: "channel_settle_cap tx s = Ok ()"
    and a: "admit_gated X m tx j s (envelope_verdict X tx) = (Ok i, m')"
    unfolding try_admit_def Let_def by (auto elim!: try_ro_OkE)
  from a show ?thesis
  proof (rule admit_gated_OkE)
    fix pkc acc expected
    assume v: "ev_pk_commit (envelope_verdict X tx) = Some pkc" "ev_signature (envelope_verdict X tx) = Ok ()"
      and rest: "bmap_get (st_accounts s) (stx_sender tx) = Some acc" "acc_nonce acc \<le> stx_nonce tx"
        "stx_nonce tx < acc_nonce acc + nonce_window X" "pool_preconditions m tx s = Ok ()"
        "expected_auth m tx acc = Ok expected" "pkc = expected" "i = j" "m' = (index m tx j)\<lparr>mp_q := mp_q m @ [tx]\<rparr>"
    show ?thesis using g
      by (rule gate_OkE) (rule that, use c rest envelope_verdict_Ok [OF v] in auto)
  qed
qed

lemma pool_preconditions_fresh:
  "pool_preconditions m tx s = Ok () \<Longrightarrow> set (payload_nullifiers (stx_payload tx)) \<inter> mp_nullifiers m = {}"
  by (cases "stx_payload tx") (auto simp: pool_preconditions_def split: option.splits if_splits)

lemma try_admit_indexed:
  assumes "indexed X m" and "try_admit X m tx s = (Ok i, m')"
  shows "indexed X m'" "mp_q m' = mp_q m @ [tx]" "mp_cap m' = mp_cap m"
proof -
  from assms(2) have m': "m' = (index m tx (tx_hash X tx))\<lparr>mp_q := mp_q m @ [tx]\<rparr>" and len: "length (mp_q m) < mp_cap m"
    and fresh: "json_signed X tx \<noteq> None" "tx_hash X tx \<notin> mp_ids m" "slot_of tx \<notin> dom (mp_keys m)"
      "set (payload_nullifiers (stx_payload tx)) \<inter> mp_nullifiers m = {}"
    using pool_preconditions_fresh by (auto elim!: try_admit_OkE)
  have "indexes X (index m tx (tx_hash X tx)) (mp_q m @ [tx])"
    using assms(1) by (intro index_append fresh) (simp add: indexed_def)
  then show "indexed X m'" using len by (simp add: m' indexed_def)
  show "mp_q m' = mp_q m @ [tx]" "mp_cap m' = mp_cap m" by (simp_all add: m')
qed

lemma txid_Panic_iff [simp]: "txid X tx = Panic \<longleftrightarrow> json_signed X tx = None"
  by (simp add: txid_def split: option.split)

text \<open>A refused transaction leaves the pool as it was; the only panic is an encoding the JSON
  library refuses.\<close>

lemma pool_preconditions_not_Panic [simp]: "pool_preconditions m tx s \<noteq> Panic"
  by (auto simp: pool_preconditions_def split: Tx.split option.split)

lemma expected_auth_not_Panic [simp]: "expected_auth m tx acc \<noteq> Panic"
  by (simp add: expected_auth_def)

lemma verdict_not_Panic [simp]: "ev_signature (envelope_verdict X tx) \<noteq> Panic"
  by (auto simp: envelope_verdict_def split: outcome.split)

lemma admit_gated_clean:
  "ev_signature v \<noteq> Panic \<Longrightarrow> clean_from m (admit_gated X m tx i s v)"
  by (auto simp: admit_gated_def Let_def intro!: clean_from_try_ro split: option.split)

lemma try_admit_clean: "json_signed X tx \<noteq> None \<Longrightarrow> clean_from m (try_admit X m tx s)"
  unfolding try_admit_def Let_def
  by (intro clean_from_try_ro admit_gated_clean) (auto simp: gate_def bind_ok_Panic_iff)

section \<open>Queued transactions walk the ratchet\<close>

fun ratchet_walk :: "'x state_env_scheme \<Rightarrow> H256 \<Rightarrow> u64 \<Rightarrow> SignedTx list \<Rightarrow> bool" where
  "ratchet_walk X auth n [] = True"
| "ratchet_walk X auth n (t # ts) =
     (stx_nonce t = n \<and> pk_commit X (stx_lamport_pk t) = auth \<and> verify_envelope X t
      \<and> ratchet_walk X (stx_next_auth t) (n + 1) ts)"

abbreviation by_sender :: "AccountId \<Rightarrow> SignedTx list \<Rightarrow> SignedTx list" where
  "by_sender i ts \<equiv> filter (\<lambda>t. stx_sender t = i) ts"

text \<open>The transactions of one sender, in queue order, open the account's commitment and then
  each other's, at consecutive nonces from the account's.\<close>

definition walks :: "'x state_env_scheme \<Rightarrow> State \<Rightarrow> SignedTx list \<Rightarrow> AccountId \<Rightarrow> bool" where
  "walks X s ts i \<longleftrightarrow>
     (case bmap_get (st_accounts s) i of
        None \<Rightarrow> by_sender i ts = []
      | Some acc \<Rightarrow> ratchet_walk X (acc_auth_commit acc) (acc_nonce acc) (by_sender i ts))"

lemma walks_cong: "by_sender i ts = by_sender i us \<Longrightarrow> walks X s ts i \<longleftrightarrow> walks X s us i"
  unfolding walks_def by (simp only:)

lemma ratchet_walk_append:
  "ratchet_walk X a n (ts @ us) \<longleftrightarrow> ratchet_walk X a n ts
     \<and> ratchet_walk X (if ts = [] then a else stx_next_auth (last ts)) (n + of_nat (length ts)) us"
  by (induction ts arbitrary: a n) (auto simp: add.assoc)

lemma ratchet_walk_nonces: "ratchet_walk X a n ts \<Longrightarrow> j < length ts \<Longrightarrow> stx_nonce (ts ! j) = n + of_nat j"
proof (induction ts arbitrary: a n j)
  case (Cons t ts)
  then show ?case by (cases j) (auto simp: add.assoc)
qed simp

lemma ratchet_walk_snoc:
  assumes "ratchet_walk X a n ts" and "stx_nonce t \<notin> stx_nonce ` set ts" and "verify_envelope X t"
    and "if stx_nonce t = n then pk_commit X (stx_lamport_pk t) = a
         else \<exists>p \<in> set ts. stx_nonce p = stx_nonce t - 1 \<and> stx_next_auth p = pk_commit X (stx_lamport_pk t)"
  shows "ratchet_walk X a n (ts @ [t])"
proof (cases "stx_nonce t = n")
  case True
  have "ts = []"
  proof (rule ccontr)
    assume "ts \<noteq> []"
    then have "stx_nonce (ts ! 0) = n" "ts ! 0 \<in> set ts" using ratchet_walk_nonces [OF assms(1), of 0] by auto
    then show False using assms(2) True by (metis imageI)
  qed
  then show ?thesis using assms(3,4) True by simp
next
  case False
  then obtain j where j: "j < length ts" "stx_nonce (ts ! j) = stx_nonce t - 1" "stx_next_auth (ts ! j) = pk_commit X (stx_lamport_pk t)"
    using assms(4) by (auto simp: in_set_conv_nth)
  have nonce: "stx_nonce t = n + of_nat (Suc j)"
    using ratchet_walk_nonces [OF assms(1) j(1)] j(2) by (simp add: algebra_simps)
  have "\<not> Suc j < length ts"
  proof
    assume "Suc j < length ts"
    then have "stx_nonce (ts ! Suc j) = stx_nonce t" using ratchet_walk_nonces [OF assms(1)] nonce by metis
    then show False using assms(2) \<open>Suc j < length ts\<close> by (metis imageI nth_mem)
  qed
  then have len: "length ts = Suc j" using j(1) by simp
  then have ne: "ts \<noteq> []" by auto
  then have "last ts = ts ! j" "ts \<noteq> []" using len by (simp_all add: last_conv_nth)
  then show ?thesis using assms(1,3) j(3) nonce len by (simp add: ratchet_walk_append)
qed

lemma try_admit_walks:
  assumes "indexed X m" and "\<And>i. walks X s (mp_q m) i" and "try_admit X m tx s = (Ok j, m')"
  shows "walks X s (mp_q m') i"
proof (cases "stx_sender tx = i")
  case False
  then have "by_sender i (mp_q m') = by_sender i (mp_q m)" using try_admit_indexed(2) [OF assms(1,3)] by simp
  then show ?thesis using assms(2) [of i] walks_cong by blast
next
  case True
  from assms(3) obtain acc where slot: "slot_of tx \<notin> dom (mp_keys m)" and v: "verify_envelope X tx"
    and acc: "bmap_get (st_accounts s) i = Some acc" and e: "expected_auth m tx acc = Ok (pk_commit X (stx_lamport_pk tx))"
    using True by (auto elim!: try_admit_OkE)
  have ix: "indexes X m (mp_q m)" using assms(1) by (simp add: indexed_def)
  have "ratchet_walk X (acc_auth_commit acc) (acc_nonce acc) (by_sender i (mp_q m) @ [tx])"
  proof (rule ratchet_walk_snoc [OF _ _ v])
    show "ratchet_walk X (acc_auth_commit acc) (acc_nonce acc) (by_sender i (mp_q m))"
      using assms(2) [of i] acc by (simp add: walks_def)
    show "stx_nonce tx \<notin> stx_nonce ` set (by_sender i (mp_q m))"
      using slot True unfolding key_pending [OF ix] by (auto simp: slot_of_def image_iff)
    show "if stx_nonce tx = acc_nonce acc then pk_commit X (stx_lamport_pk tx) = acc_auth_commit acc
         else \<exists>p \<in> set (by_sender i (mp_q m)). stx_nonce p = stx_nonce tx - 1 \<and> stx_next_auth p = pk_commit X (stx_lamport_pk tx)"
      using e True by (auto simp: expected_auth_def key_entry [OF ix] slot_of_def)
  qed
  then show ?thesis using True acc try_admit_indexed(2) [OF assms(1,3)] by (simp add: walks_def)
qed

end
