(* ===== verification/HK_Proposer.thy ===== *)
theory HK_Proposer
  imports HK_Mempool "HOL-Library.Sublist"
begin

text \<open>
  From the pool to the block: what the proposer picks keeps every sender's order and the link
  budget, the picked transactions walk the ratchets of the chain they run on, and a
  transaction the door admitted can always be carried.
\<close>

section \<open>The pick\<close>

fun settle_links_of :: "State \<Rightarrow> Tx \<Rightarrow> nat" where
  "settle_links_of s (ChannelSettle i word k) = unat (settle_cost s i k)"
| "settle_links_of s _ = 0"

text \<open>How the pick goes on after one transaction that is looked at.\<close>

lemma select_loop_step:
  assumes "length picked < room"
  obtains (skip) H' where "select_loop s room (tx # rest) picked h links H = select_loop s room rest picked (h + 1) links H'"
      "H' = insert (stx_sender tx) H"
      "stx_sender tx \<in> H \<or> unat links + settle_links_of s (stx_payload tx) > unat MAX_SETTLE_LINKS_PER_BLOCK"
  | (take) links' where "select_loop s room (tx # rest) picked h links H = select_loop s room rest (picked @ [tx]) h links' H"
      "stx_sender tx \<notin> H" "unat links \<le> unat MAX_SETTLE_LINKS_PER_BLOCK \<Longrightarrow> unat links' = unat links + settle_links_of s (stx_payload tx)"
      "unat links \<le> unat MAX_SETTLE_LINKS_PER_BLOCK \<Longrightarrow> unat links' \<le> unat MAX_SETTLE_LINKS_PER_BLOCK"
proof (cases "stx_sender tx \<in> H")
  case True
  then show ?thesis using skip [of H] assms by (simp add: insert_absorb)
next
  case False
  note new = this
  have small: "unat MAX_SETTLE_LINKS_PER_BLOCK = 131072" by (simp add: MAX_SETTLE_LINKS_PER_BLOCK_def)
  show ?thesis
  proof (cases "\<exists>i w k. stx_payload tx = ChannelSettle i w k")
    case True
    then obtain i w k where p: "stx_payload tx = ChannelSettle i w k" by blast
    let ?c = "settle_cost s i k"
    have over: "saturating_add links ?c > MAX_SETTLE_LINKS_PER_BLOCK \<longleftrightarrow> unat links + unat ?c > 131072"
      unfolding word_less_nat_alt unat_saturating_add small by simp
    show ?thesis
    proof (cases "saturating_add links ?c > MAX_SETTLE_LINKS_PER_BLOCK")
      case True
      then show ?thesis using skip [of "insert (stx_sender tx) H"] assms new p over small by (simp add: Let_def)
    next
      case False
      then have "unat (saturating_add links ?c) = unat links + unat ?c" using over unfolding unat_saturating_add by simp
      then show ?thesis using take [of "saturating_add links ?c"] assms new p False over small by (simp add: Let_def)
    qed
  next
    case False
    then have "settle_links_of s (stx_payload tx) = 0" "select_loop s room (tx # rest) picked h links H = select_loop s room rest (picked @ [tx]) h links H"
      using assms new by (cases "stx_payload tx"; simp)+
    then show ?thesis using take [of links] new by simp
  qed
qed

lemma select_loop_spec:
  assumes "length picked \<le> room" and "unat links \<le> unat MAX_SETTLE_LINKS_PER_BLOCK"
  obtains picked2 where "fst (select_loop s room rest picked h links H) = picked @ picked2" "subseq picked2 rest"
    "length picked + length picked2 \<le> room" "\<And>i. prefix (by_sender i picked2) (by_sender i rest)" "\<And>i. i \<in> H \<Longrightarrow> by_sender i picked2 = []"
    "unat links + sum_list (map (\<lambda>t. settle_links_of s (stx_payload t)) picked2) \<le> unat MAX_SETTLE_LINKS_PER_BLOCK"
  using assms
proof (induction rest arbitrary: picked h links H thesis)
  case Nil
  then show ?case by (simp add: Nil.prems(1) [of "[]"])
next
  case (Cons tx rest)
  show ?case
  proof (cases "length picked < room")
    case False
    then show ?thesis using Cons.prems by (simp add: Cons.prems(1) [of "[]"])
  next
    case True
    then show ?thesis
    proof (cases rule: select_loop_step [where s = s and tx = tx and rest = rest and h = h and links = links and H = H])
      case (skip H')
      obtain p2 where p2: "fst (select_loop s room rest picked (h + 1) links H') = picked @ p2" "subseq p2 rest" "length picked + length p2 \<le> room"
        "\<And>i. prefix (by_sender i p2) (by_sender i rest)" "\<And>i. i \<in> H' \<Longrightarrow> by_sender i p2 = []"
        "unat links + sum_list (map (\<lambda>t. settle_links_of s (stx_payload t)) p2) \<le> unat MAX_SETTLE_LINKS_PER_BLOCK"
        by (rule Cons.IH [OF _ Cons.prems(2,3)]) blast
      have "prefix (by_sender i p2) (by_sender i (tx # rest))" for i
        using p2(4) [of i] p2(5) [of i] skip(2) by (cases "stx_sender tx = i") auto
      then show ?thesis using p2 skip by (intro Cons.prems(1) [of p2]) (auto simp del: select_loop.simps)
    next
      case (take links')
      have len: "length (picked @ [tx]) \<le> room" using True by simp
      obtain p2 where p2: "fst (select_loop s room rest (picked @ [tx]) h links' H) = (picked @ [tx]) @ p2" "subseq p2 rest"
        "length (picked @ [tx]) + length p2 \<le> room"
        "\<And>i. prefix (by_sender i p2) (by_sender i rest)" "\<And>i. i \<in> H \<Longrightarrow> by_sender i p2 = []"
        "unat links' + sum_list (map (\<lambda>t. settle_links_of s (stx_payload t)) p2) \<le> unat MAX_SETTLE_LINKS_PER_BLOCK"
        by (rule Cons.IH [OF _ len take(4) [OF Cons.prems(3)]]) blast
      then show ?thesis using take Cons.prems(3) by (intro Cons.prems(1) [of "tx # p2"]) (auto simp del: select_loop.simps)
    qed
  qed
qed

section \<open>Running picked transactions\<close>

lemma ratchet_walk_prefix: "ratchet_walk X a n ts \<Longrightarrow> prefix us ts \<Longrightarrow> ratchet_walk X a n us"
  by (auto simp: prefix_def ratchet_walk_append)

lemma walks_prefix:
  assumes "walks X s ts i" and "prefix (by_sender i us) (by_sender i ts)"
  shows "walks X s us i"
proof (cases "bmap_get (st_accounts s) i")
  case (Some acc)
  then show ?thesis using assms ratchet_walk_prefix by (auto simp: walks_def)
qed (use assms in \<open>simp add: walks_def\<close>)

lemma walks_head: "walks X s (t # ts) (stx_sender t) \<Longrightarrow> check_envelope X s t None = Ok ()"
  by (auto simp: walks_def check_envelope_def split: option.splits)

lemma walks_accepted:
  assumes "walks X s (t # ts) i" and "apply_tx_at X s t pre = (Ok ev, s')"
  shows "walks X s' ts i"
  using assms(2)
proof (rule apply_tx_at_OkE)
  fix acc s2
  assume acc: "bmap_get (st_accounts s) (stx_sender t) = Some acc" "stx_nonce t = acc_nonce acc"
    and d: "dispatch X (fee_paid s t) (stx_sender t) (stx_payload t) = (Ok ev, s2)" and s': "s' = settled s2 (envelope_fee s) t acc"
  show ?thesis
  proof (cases "stx_sender t = i")
    case True
    then show ?thesis using assms(1) acc by (auto simp: walks_def s')
  next
    case False
    show ?thesis
    proof (cases "bmap_get (st_accounts s) i")
      case None
      then have "by_sender i ts = []" using assms(1) False by (simp add: walks_def)
      then show ?thesis by (simp add: walks_def split: option.split)
    next
      case (Some a)
      then have "bmap_get (st_accounts s2) i = Some a" using dispatch_frame(1) [OF d] by simp
      then show ?thesis using assms(1) False Some by (simp add: walks_def s')
    qed
  qed
qed

lemma walks_other:
  assumes "walks X s (t # ts) i" and "stx_sender t \<noteq> i"
  shows "walks X s ts i"
  using assms(1) walks_cong [of i "t # ts" ts X s] assms(2) by simp

text \<open>The state the \<open>j\<close>-th transaction of a block meets.\<close>

abbreviation met :: "'x state_env_scheme \<Rightarrow> State \<Rightarrow> SignedTx list \<Rightarrow> nat \<Rightarrow> State" where
  "met X s ts j \<equiv> fold_steps (exec_tx X) (map (\<lambda>t. (t, None)) (take j ts)) s"

lemma run_walks:
  assumes "state_ok X s" and "walks X s ts i" and "j \<le> length ts"
    and "\<And>l. l < j \<Longrightarrow> stx_sender (ts ! l) = i \<Longrightarrow> \<exists>ev. fst (apply_tx_at X (met X s ts l) (ts ! l) None) = Ok ev"
  shows "walks X (met X s ts j) (drop j ts) i"
  using assms
proof (induction ts arbitrary: s j)
  case (Cons t ts)
  show ?case
  proof (cases j)
    case (Suc k)
    obtain r s' where r: "apply_tx_at X s t None = (r, s')" by fastforce
    have ok: "state_ok X s'" using ledger.exec_keeps_inv [OF Cons.prems(1), of "(t, None)"] r by simp
    have w: "walks X s' ts i"
    proof (cases "stx_sender t = i")
      case True
      then obtain ev where "apply_tx_at X s t None = (Ok ev, s')" using Cons.prems(4) [of 0] Suc r by auto
      then show ?thesis by (rule walks_accepted [OF Cons.prems(2)])
    next
      case False
      show ?thesis
      proof (cases r)
        case (Ok ev)
        with r show ?thesis by (auto intro: walks_accepted [OF Cons.prems(2)])
      next
        case (Err e)
        then have "s' = s" using apply_tx_at_clean [OF state_okD(1) [OF Cons.prems(1)], of X t None] r by simp
        then show ?thesis using walks_other [OF Cons.prems(2) False] by simp
      next
        case Panic
        then show ?thesis using apply_tx_at_clean [OF state_okD(1) [OF Cons.prems(1)], of X t None] r by simp
      qed
    qed
    have "\<exists>ev. fst (apply_tx_at X (met X s' ts l) (ts ! l) None) = Ok ev" if "l < k" "stx_sender (ts ! l) = i" for l
      using Cons.prems(4) [of "Suc l"] that Suc r by simp
    from Cons.IH [OF ok w _ this] show ?thesis using Suc Cons.prems(3) r by simp
  qed (use Cons.prems in simp)
qed simp

section \<open>Channels only move forward\<close>

definition channel_later :: "Channel \<Rightarrow> Channel \<Rightarrow> bool" where
  "channel_later ch ch' \<longleftrightarrow> (ch_refunded ch \<longrightarrow> ch_refunded ch')
     \<and> cs_highest_step_settled (ch_state ch) \<le> cs_highest_step_settled (ch_state ch')
     \<and> cs_max_steps (ch_state ch') = cs_max_steps (ch_state ch)"

definition channels_later :: "State \<Rightarrow> State \<Rightarrow> bool" where
  "channels_later s s' \<longleftrightarrow> (\<forall>i ch. bmap_get (st_channels s) i = Some ch \<longrightarrow>
     (\<exists>ch'. bmap_get (st_channels s') i = Some ch' \<and> channel_later ch ch'))"

lemma channel_later_refl [simp]: "channel_later ch ch"
  by (simp add: channel_later_def)

lemma channels_later_same: "st_channels s' = st_channels s \<Longrightarrow> channels_later s s'"
  by (simp add: channels_later_def)

lemma channel_later_trans: "channel_later a b \<Longrightarrow> channel_later b c \<Longrightarrow> channel_later a c"
  by (auto simp: channel_later_def)

lemma channels_later_trans: "channels_later s s1 \<Longrightarrow> channels_later s1 s2 \<Longrightarrow> channels_later s s2"
  unfolding channels_later_def using channel_later_trans by blast

lemma channels_later_insert:
  assumes "\<And>ch. bmap_get (st_channels s) i = Some ch \<Longrightarrow> channel_later ch new" and "st_channels s' = bmap_insert (st_channels s) i new"
  shows "channels_later s s'"
  using assms by (auto simp: channels_later_def)

lemma dispatch_channels:
  assumes "dispatch X s snd_acc tx = (Ok ev, s')"
  shows "channels_later s s'"
proof (cases "\<exists>i. (\<exists>m p a t pr k e. tx = ChannelOpen i m p a t pr k e) \<or> (\<exists>w k. tx = ChannelSettle i w k) \<or> tx = ChannelRefund i")
  case False
  then have "st_channels s' = st_channels s"
    using assms by (cases tx) (auto elim!: handlers_OkE)
  then show ?thesis by (rule channels_later_same)
next
  case True
  then show ?thesis
  proof (elim exE disjE)
    fix i m p a t pr k e
    assume "tx = ChannelOpen i m p a t pr k e"
    with assms show ?thesis
      by (auto elim!: do_channel_open_OkE intro!: channels_later_insert)
  next
    fix i w k
    assume "tx = ChannelSettle i w k"
    with assms show ?thesis
      by (auto elim!: do_channel_settle_OkE intro!: channels_later_insert simp: channel_later_def)
  next
    fix i
    assume "tx = ChannelRefund i"
    with assms show ?thesis
      by (auto elim!: do_channel_refund_OkE intro!: channels_later_insert simp: channel_later_def)
  qed
qed

lemma exec_tx_channels:
  assumes "state_ok X s"
  shows "channels_later s (snd (exec_tx X s x))"
proof -
  obtain t pre where x: "x = (t, pre)" by (cases x)
  obtain r s' where r: "apply_tx_at X s t pre = (r, s')" by fastforce
  have "channels_later s s'"
  proof (cases r)
    case (Ok ev)
    with r obtain acc s2 where d: "dispatch X (fee_paid s t) (stx_sender t) (stx_payload t) = (Ok ev, s2)"
      and s': "s' = settled s2 (envelope_fee s) t acc" by (auto elim!: apply_tx_at_OkE)
    show ?thesis using dispatch_channels [OF d] by (simp add: channels_later_def s')
  qed (use r apply_tx_at_clean [OF state_okD(1) [OF assms], of X t pre] in \<open>auto intro: channels_later_same\<close>)
  then show ?thesis by (simp add: x r)
qed

lemma run_channels: "state_ok X s \<Longrightarrow> channels_later s (fold_steps (exec_tx X) txs s)"
proof (induction txs arbitrary: s)
  case (Cons x txs)
  have "state_ok X (snd (exec_tx X s x))" using ledger.exec_keeps_inv [OF Cons.prems, of x] by simp
  from channels_later_trans [OF exec_tx_channels [OF Cons.prems] Cons.IH [OF this]] show ?case by simp
qed (simp add: channels_later_same)

lemma channels_later_cover: "channels_later s (set_block_coverage s c)"
  by (simp add: set_block_coverage_def channels_later_same)

lemma exec_block_channels:
  assumes "state_ok X s"
  shows "channels_later s (snd (exec_block X s b))"
proof (rule apply_block_verified_cases [of X "set_block_coverage s (bk_cover b)" "bk_height b" "bk_time b" "bk_txs b" "bk_verdicts b"])
  fix receipts s1
  let ?s2 = "fold_steps (exec_tx X) (tx_inputs 0 (bk_txs b) (bk_verdicts b)) s1"
  assume s1: "s1 = (set_block_coverage s (bk_cover b))\<lparr>st_height := bk_height b, st_time := bk_time b\<rparr>"
    and run: "apply_block_verified X (set_block_coverage s (bk_cover b)) (bk_height b) (bk_time b) (bk_txs b) (bk_verdicts b) = (Ok receipts, end_block X ?s2)"
  have "channels_later s s1" using channels_later_cover [of s "bk_cover b"] by (simp add: s1 channels_later_def)
  moreover have "channels_later s1 ?s2" by (rule run_channels) (simp add: s1 assms)
  ultimately have "channels_later s ?s2" by (rule channels_later_trans)
  moreover have "channels_later ?s2 (end_block X ?s2)" by (simp add: end_block_def channels_later_same)
  ultimately have "channels_later s (end_block X ?s2)" by (rule channels_later_trans)
  then show ?thesis by (simp add: exec_block_def run)
qed (simp_all add: exec_block_def assms channels_later_cover)

lemma blocks_channels: "state_ok X s \<Longrightarrow> channels_later s (fold_steps (exec_block X) bs s)"
proof (induction bs arbitrary: s)
  case (Cons b bs)
  from channels_later_trans [OF exec_block_channels [OF Cons.prems] Cons.IH [OF exec_block_state_ok [OF Cons.prems]]]
  show ?case by simp
qed (simp add: channels_later_same)

section \<open>The door's cost check holds for good\<close>

lemma settle_cost_le_step: "settle_cost s i k \<le> u32_as_u64 k"
  by (auto simp: settle_cost_def settle_links_def split: option.split)

lemma settle_cost_later:
  assumes "channel_settle_cap tx s = Ok ()" and "stx_payload tx = ChannelSettle i w k" and "channels_later s s'"
  shows "settle_cost s' i k \<le> MAX_SETTLE_LINKS_PER_BLOCK"
proof (cases "u32_as_u64 k \<le> MAX_SETTLE_LINKS_PER_BLOCK")
  case True
  then show ?thesis using settle_cost_le_step order_trans by blast
next
  case False
  have max: "MAX_SETTLE_DELTA < MAX_SETTLE_LINKS_PER_BLOCK"
    by (simp add: MAX_SETTLE_DELTA_def MAX_SETTLE_LINKS_PER_BLOCK_def)
  have cost: "settle_cost s i k \<le> MAX_SETTLE_LINKS_PER_BLOCK"
    using assms(1,2) by (auto simp: channel_settle_cap_def Let_def not_less elim!: bind_ok_OkE split: option.splits if_splits)
  have none: "settle_delta s i k = None"
  proof (rule ccontr)
    assume "settle_delta s i k \<noteq> None"
    then have "settle_cost s i k = u32_as_u64 k" by (auto simp: settle_cost_def settle_links_def)
    then show False using cost False by simp
  qed
  have "bmap_contains (st_channels s) i"
    using assms(1,2) none False max by (auto simp: channel_settle_cap_def elim!: bind_ok_OkE split: if_splits)
  then obtain ch where ch: "bmap_get (st_channels s) i = Some ch" by (auto simp: bmap_contains_def)
  then obtain ch' where ch': "bmap_get (st_channels s') i = Some ch'" "channel_later ch ch'"
    using assms(3) unfolding channels_later_def by blast
  have "settle_delta s' i k = None"
    using none ch ch' by (auto simp: settle_delta_def channel_later_def Let_def split: if_splits)
  then have "settle_cost s' i k = 0" using ch'(1) by (simp add: settle_cost_def settle_links_def bmap_contains_def)
  then show ?thesis by simp
qed

section \<open>The door and the chain\<close>

text \<open>What the chain needs of a shielded spend's pool.\<close>

fun spend_live :: "State \<Rightarrow> Tx \<Rightarrow> bool" where
  "spend_live s (ShieldedSpend anchor nf out out2 fee credit_to mandate prf ct ct2) \<longleftrightarrow>
     (\<exists>key p. pool_key_of_anchor s anchor = Some key \<and> pool_ref s key = Some p \<and> \<not> bset_contains (ps_nullifiers p) nf)"
| "spend_live s _ \<longleftrightarrow> True"

text \<open>The pool has room for the transaction and the door's own caps let it pass.\<close>

definition door_open :: "'x node_env_scheme \<Rightarrow> Mempool \<Rightarrow> State \<Rightarrow> SignedTx \<Rightarrow> bool" where
  "door_open X m s tx \<longleftrightarrow>
     length (mp_q m) < mp_cap m \<and> json_signed X tx \<noteq> None \<and> tx_hash X tx \<notin> mp_ids m \<and> slot_of tx \<notin> dom (mp_keys m)
     \<and> set (payload_nullifiers (stx_payload tx)) \<inter> mp_nullifiers m = {}
     \<and> channel_settle_cap tx s = Ok () \<and> channel_open_cap tx = Ok () \<and> stx_nonce tx < stx_nonce tx + nonce_window X"

lemma verify_envelope_lengths:
  "verify_envelope X tx \<Longrightarrow> length (stx_lamport_pk tx) = PK_LEN \<and> length (stx_sig tx) = SIG_LEN"
  by (auto simp: verify_envelope_def lamport_verify_def split: option.splits if_splits)

lemma spend_live_precondition:
  assumes "set (payload_nullifiers (stx_payload tx)) \<inter> mp_nullifiers m = {}"
  shows "pool_preconditions m tx s = Ok () \<longleftrightarrow> spend_live s (stx_payload tx)"
  using assms by (cases "stx_payload tx") (auto simp: pool_preconditions_def bind_eq_Some_conv split: option.splits)

lemma door_admits:
  assumes "door_open X m s tx" and "check_envelope X s tx None = Ok ()" and "spend_live s (stx_payload tx)"
  shows "\<exists>m'. try_admit X m tx s = (Ok (tx_hash X tx), m')"
proof -
  from assms(2) obtain acc where acc: "bmap_get (st_accounts s) (stx_sender tx) = Some acc" "stx_nonce tx = acc_nonce acc"
    "pk_commit X (stx_lamport_pk tx) = acc_auth_commit acc" "verify_envelope X tx"
    by (auto elim: check_envelope_Ok)
  have "gate X m tx = Ok (tx_hash X tx)"
    using assms(1) by (auto simp: gate_def door_open_def txid_encoded slot_of_def)
  moreover have "envelope_verdict X tx = \<lparr>ev_pk_commit = Some (pk_commit X (stx_lamport_pk tx)), ev_signature = Ok ()\<rparr>"
    using verify_envelope_lengths [OF acc(4)] acc(4) assms(1) by (simp add: envelope_verdict_def door_open_def)
  moreover have "pool_preconditions m tx s = Ok ()"
    using assms(1,3) spend_live_precondition [of tx m s] by (simp add: door_open_def)
  ultimately show ?thesis
    using acc assms(1) by (simp add: try_admit_def admit_gated_def door_open_def expected_auth_def Let_def not_le)
qed

lemma channel_open_cap_not_Panic [simp]: "channel_open_cap tx \<noteq> Panic"
  by (simp add: channel_open_cap_def split: Tx.split)

lemma admitted_open_cap:
  assumes "try_admit X m tx s = (Ok j, m')"
  shows "channel_open_cap tx = Ok ()"
proof (cases "channel_open_cap tx")
  case (Err e)
  then have "ev_pk_commit (envelope_verdict X tx) = None" by (simp add: envelope_verdict_def)
  then show ?thesis using assms by (auto simp: try_admit_def admit_gated_def Let_def elim!: try_ro_OkE split: outcome.splits)
qed simp_all

lemma admitted_door_open:
  assumes "try_admit X m tx s = (Ok j, m')" and "bmap_get (st_accounts s) (stx_sender tx) = Some acc" and "acc_nonce acc = stx_nonce tx"
  shows "door_open X m s tx"
proof -
  from assms(1) have "pool_preconditions m tx s = Ok ()" by (auto elim: try_admit_OkE)
  then have "set (payload_nullifiers (stx_payload tx)) \<inter> mp_nullifiers m = {}" using pool_preconditions_fresh by blast
  moreover from assms have "length (mp_q m) < mp_cap m \<and> json_signed X tx \<noteq> None \<and> tx_hash X tx \<notin> mp_ids m \<and> slot_of tx \<notin> dom (mp_keys m)
     \<and> channel_settle_cap tx s = Ok () \<and> stx_nonce tx < stx_nonce tx + nonce_window X" by (auto elim!: try_admit_OkE)
  ultimately show ?thesis using admitted_open_cap [OF assms(1)] by (simp add: door_open_def)
qed

lemma dispatch_spend_live: "dispatch X s snd_acc tx = (Ok ev, s') \<Longrightarrow> spend_live s tx"
  by (cases tx) (auto elim: do_shielded_spend_OkE)

lemma spend_live_fee_paid [simp]: "spend_live (fee_paid s t) tx = spend_live s tx"
  by (cases tx) simp_all

lemma at_clock:
  "check_envelope X (s\<lparr>st_height := h, st_time := t\<rparr>) tx pre = check_envelope X s tx pre"
  "spend_live (s\<lparr>st_height := h, st_time := t\<rparr>) p = spend_live s p"
  by (simp add: check_envelope_def) (cases p; simp add: pool_key_of_anchor_def pool_ref_def split: PoolKey.split)

section \<open>Restoring a pool\<close>

lemma indexes_unique:
  assumes "indexes X m ts" and "indexes X n ts" and "mp_q m = mp_q n" and "mp_cap m = mp_cap n"
  shows "m = n"
proof -
  have "mp_keys m k = mp_keys n k" for k
    using key_entry [OF assms(1), of k] key_entry [OF assms(2), of k] by (metis option.exhaust)
  then have "mp_keys m = mp_keys n" by (rule ext)
  then show ?thesis using assms by (cases m; cases n) (simp add: indexes_def)
qed

lemma restore_loop:
  assumes "indexes X m (ts @ us)" and "length (ts @ us) \<le> cap" and "indexes X m0 ts" and "mp_q m0 = ts" and "mp_cap m0 = cap"
  shows "\<exists>m1. fold_steps (insert_unchecked X) us m0 = m1 \<and> indexes X m1 (ts @ us) \<and> mp_q m1 = ts @ us \<and> mp_cap m1 = cap"
  using assms
proof (induction us arbitrary: ts m0)
  case (Cons u us)
  let ?m1 = "(index m0 u (tx_hash X u))\<lparr>mp_q := ts @ [u]\<rparr>"
  have enc: "json_signed X u \<noteq> None" using Cons.prems(1) by (simp add: indexes_def)
  have fresh: "tx_hash X u \<notin> mp_ids m0" "set (payload_nullifiers (stx_payload u)) \<inter> mp_nullifiers m0 = {}"
    using Cons.prems(1,3) by (auto simp: indexes_def)
  have slot: "slot_of u \<notin> dom (mp_keys m0)"
    using Cons.prems(1) unfolding key_pending [OF Cons.prems(3)] by (auto simp: indexes_def)
  have step: "insert_unchecked X m0 u = (Ok True, ?m1)"
    using enc fresh(1) Cons.prems(2,4,5) by (simp add: insert_unchecked_def txid_encoded)
  have ix: "indexes X ?m1 (ts @ [u])" using index_append [OF Cons.prems(3) enc fresh(1) slot fresh(2)] by simp
  have "\<exists>m1. fold_steps (insert_unchecked X) us ?m1 = m1 \<and> indexes X m1 ((ts @ [u]) @ us) \<and> mp_q m1 = (ts @ [u]) @ us \<and> mp_cap m1 = cap"
    by (rule Cons.IH) (use Cons.prems ix in simp_all)
  then show ?case by (simp add: step)
qed simp

lemma restore_queue:
  assumes "indexed X m"
  shows "fold_steps (insert_unchecked X) (mp_q m) (mempool_new (mp_cap m)) = m"
proof -
  have ix: "indexes X m (mp_q m)" using assms by (simp add: indexed_def)
  obtain m1 where m1: "fold_steps (insert_unchecked X) (mp_q m) (mempool_new (mp_cap m)) = m1" "indexes X m1 (mp_q m)" "mp_q m1 = mp_q m" "mp_cap m1 = mp_cap m"
    using restore_loop [of X m "[]" "mp_q m" "mp_cap m" "mempool_new (mp_cap m)"] assms
    by (auto simp: indexed_def mempool_new_def indexes_def)
  then show ?thesis using indexes_unique [OF m1(2) ix] by simp
qed

section \<open>A small pool\<close>

definition sample_node :: node_env where
  "sample_node = \<lparr>xof256 = xof256 sample_hash, sha256 = sha256 sample_hash, json_tx = \<lambda>_. Some [], json_mandate = \<lambda>_. Some [],
     json_channel = \<lambda>_. Some [], bincode_spend = \<lambda>_. Some [], bincode_mint = \<lambda>_. Some [],
     json_signed = \<lambda>t. Some [ucast (stx_nonce t)], hk_mempool_cap = None, hk_nonce_window = None\<rparr>"

abbreviation sample_pk :: "u64 \<Rightarrow> bytes" where
  "sample_pk n \<equiv> snd (keygen sample_node [3] n)"

definition sample_node_genesis :: Genesis where
  "sample_node_genesis = \<lparr>g_time = 0, g_accounts = [\<lparr>ga_id = 1, ga_auth_commit = pk_commit sample_node (sample_pk 0)\<rparr>],
     g_alloc = [], g_fee = None, g_assets = []\<rparr>"

definition sample_node_state :: State where
  "sample_node_state = (state_default sample_node)\<lparr>st_accounts := [(1, \<lparr>acc_auth_commit = pk_commit sample_node (sample_pk 0), acc_nonce = 0\<rparr>)],
     st_pool := seal_anchor sample_node (pool_default sample_node)\<rparr>"

lemma sample_node_genesis_runs: "from_genesis sample_node sample_node_genesis = Ok sample_node_state"
  by (simp add: from_genesis_def sample_node_genesis_def sample_node_state_def state_default_def bmap_contains_def Let_def)

lemma sample_node_ok: "state_ok sample_node sample_node_state"
  using chain_state_ok [OF chain_state.genesis [OF sample_node_genesis_runs]]
  by (simp add: sample_node_genesis_def alloc_total_def)

definition sample_signed :: SignedTx where
  "sample_signed = the (sign_tx sample_node [3] 0 1 (MandateRevoke 4) 9)"

lemma sample_signed_fields:
  "stx_sender sample_signed = 1" "stx_nonce sample_signed = 0" "stx_payload sample_signed = MandateRevoke 4"
  "stx_next_auth sample_signed = 9" "stx_lamport_pk sample_signed = sample_pk 0" "verify_envelope sample_node sample_signed"
proof -
  have "sign_tx sample_node [3] 0 1 (MandateRevoke 4) 9 \<noteq> None"
    by (simp add: sign_tx_def signing_digest_def sample_node_def split: prod.split)
  then obtain t where t: "sign_tx sample_node [3] 0 1 (MandateRevoke 4) 9 = Some t" by blast
  show "stx_sender sample_signed = 1" "stx_nonce sample_signed = 0" "stx_payload sample_signed = MandateRevoke 4"
    "stx_next_auth sample_signed = 9" "stx_lamport_pk sample_signed = sample_pk 0"
    using t by (auto simp: sample_signed_def sign_tx_def split: option.splits prod.splits)
  show "verify_envelope sample_node sample_signed" using sign_tx_verifies [OF t] t by (simp add: sample_signed_def)
qed

lemma sample_encodes [simp]: "json_signed sample_node t \<noteq> None"
  by (simp add: sample_node_def)

lemma sample_door: "door_open sample_node (mempool_new 5) sample_node_state sample_signed"
  by (simp add: door_open_def mempool_new_def sample_signed_fields channel_settle_cap_def channel_open_cap_def
      nonce_window_def sample_node_def NONCE_WINDOW_def)

lemma sample_envelope: "check_envelope sample_node sample_node_state sample_signed None = Ok ()"
  by (simp add: check_envelope_def sample_signed_fields sample_node_state_def)

definition sample_pool :: Mempool where
  "sample_pool = snd (try_admit sample_node (mempool_new 5) sample_signed sample_node_state)"

lemma sample_admitted: "try_admit sample_node (mempool_new 5) sample_signed sample_node_state = (Ok (tx_hash sample_node sample_signed), sample_pool)"
  using door_admits [OF sample_door sample_envelope] by (auto simp: sample_pool_def sample_signed_fields)

lemma walks_empty [simp]: "walks X s [] i"
  by (simp add: walks_def split: option.split)

lemma sample_pool_facts:
  "indexed sample_node sample_pool" "mp_q sample_pool = [sample_signed]" "walks sample_node sample_node_state (mp_q sample_pool) i"
  using try_admit_indexed [OF indexed_new sample_admitted] try_admit_walks [OF indexed_new _ sample_admitted, of i]
  by (simp_all add: mempool_new_def)

lemma mempool_new_queue [simp]: "mp_q (mempool_new cap) = []"
  by (simp add: mempool_new_def)

section \<open>Properties\<close>

text \<open>C27: the pool stays sound under admission. From a pool whose indexes describe its queue and whose
  queued transactions walk their senders' key ratchets from the chain's state, an admission either
  appends the transaction under its id, keeping both, or refuses it and changes nothing.\<close>

theorem admission_keeps_pool:
  assumes "indexed X m" and "\<And>i. walks X s (mp_q m) i" and "json_signed X tx \<noteq> None"
  shows "case try_admit X m tx s of
      (Ok j, m') \<Rightarrow> j = tx_hash X tx \<and> mp_q m' = mp_q m @ [tx] \<and> indexed X m' \<and> (\<forall>i. walks X s (mp_q m') i)
    | (Err e, m') \<Rightarrow> m' = m
    | (Panic, m') \<Rightarrow> False"
proof -
  obtain r m' where r: "try_admit X m tx s = (r, m')" by fastforce
  show ?thesis
  proof (cases r)
    case (Ok j)
    with r have a: "try_admit X m tx s = (Ok j, m')" by simp
    then have "j = tx_hash X tx" by (elim try_admit_OkE)
    moreover have "\<forall>i. walks X s (mp_q m') i" using try_admit_walks [OF assms(1,2) a] by blast
    ultimately show ?thesis using try_admit_indexed [OF assms(1) a] by (simp add: a)
  qed (use try_admit_clean [OF assms(3), of m s] r in auto)
qed

theorem admission_keeps_pool_witness:
  "\<exists>m'. try_admit sample_node (mempool_new 5) sample_signed sample_node_state = (Ok (tx_hash sample_node sample_signed), m')
     \<and> mp_q m' = [sample_signed] \<and> indexed sample_node m' \<and> (\<forall>i. walks sample_node sample_node_state (mp_q m') i)"
  using admission_keeps_pool [of sample_node "mempool_new 5" sample_node_state sample_signed, OF indexed_new]
  by (auto simp: sample_admitted)

text \<open>C28: the door and the chain agree up to the door's own limits. A transaction at the chain's nonce is admitted exactly when
  the chain's own envelope check passes, the spend's anchor and nullifier are live, and the door is open to it: the pool has room, neither the
  transaction nor its slot nor its nullifier is pending, it can be encoded, and the door's caps on settlements and channel openings, which wait for no activation height and
  may stop what the chain still accepts, let it pass. And of what the chain would accept in the next block, at any height and time, the door admits exactly what it is open to.\<close>

theorem door_agrees_with_chain:
  "((\<exists>j m'. try_admit X m tx s = (Ok j, m')) \<and> (\<exists>acc. bmap_get (st_accounts s) (stx_sender tx) = Some acc \<and> acc_nonce acc = stx_nonce tx)
        \<longleftrightarrow> check_envelope X s tx None = Ok () \<and> spend_live s (stx_payload tx) \<and> door_open X m s tx)
    \<and> (\<forall>h t ev s'. apply_tx_at X (s\<lparr>st_height := h, st_time := t\<rparr>) tx None = (Ok ev, s') \<longrightarrow> ((\<exists>j m'. try_admit X m tx s = (Ok j, m')) \<longleftrightarrow> door_open X m s tx))"
    (is "(?adm \<and> ?now \<longleftrightarrow> ?env \<and> ?live \<and> ?open) \<and> ?rest")
proof
  show eq: "?adm \<and> ?now \<longleftrightarrow> ?env \<and> ?live \<and> ?open"
  proof
    assume "?env \<and> ?live \<and> ?open"
    then show "?adm \<and> ?now" using door_admits [of X m s tx] by (auto elim: check_envelope_Ok)
  next
    assume "?adm \<and> ?now"
    then obtain j m' acc where a: "try_admit X m tx s = (Ok j, m')"
      and acc: "bmap_get (st_accounts s) (stx_sender tx) = Some acc" "acc_nonce acc = stx_nonce tx" by blast
    from a acc have "pk_commit X (stx_lamport_pk tx) = acc_auth_commit acc" "verify_envelope X tx" "pool_preconditions m tx s = Ok ()"
      by (auto elim!: try_admit_OkE simp: expected_auth_def)
    moreover have "?open" by (rule admitted_door_open [OF a acc])
    ultimately show "?env \<and> ?live \<and> ?open"
      using acc spend_live_precondition [of tx m s] by (simp add: check_envelope_def door_open_def)
  qed
  show ?rest
  proof (intro allI impI)
    fix h t ev s'
    assume "apply_tx_at X (s\<lparr>st_height := h, st_time := t\<rparr>) tx None = (Ok ev, s')"
    then have "?env" "?live"
      by (auto elim!: apply_tx_at_OkE dest!: dispatch_spend_live simp: at_clock)
    moreover from \<open>?env\<close> have "?now" by (auto elim: check_envelope_Ok)
    ultimately show "?adm \<longleftrightarrow> ?open" using eq by blast
  qed
qed

theorem door_agrees_with_chain_witness:
  "\<exists>j m'. try_admit sample_node (mempool_new 5) sample_signed sample_node_state = (Ok j, m')"
  using door_agrees_with_chain [of sample_node "mempool_new 5" sample_signed sample_node_state] sample_door sample_envelope by (simp add: sample_signed_fields)

text \<open>C29: a proposal never fails on an envelope of its own making. When a block is filled from a pool whose
  queued transactions walk the ratchets of the proposer's chain, then, whatever height and time the
  block gets, every picked transaction passes the envelope check in the state it meets, unless an
  earlier transaction of the same sender in that block was refused.\<close>

theorem proposal_envelopes_pass:
  assumes "state_ok X s" and "\<And>i. walks X s (mp_q m) i" and "links_so_far \<le> MAX_SETTLE_LINKS_PER_BLOCK"
    and "picked = fst (select_batch_txs s (mp_q m) room links_so_far)" and "s0 = s\<lparr>st_height := h, st_time := t\<rparr>" and "j < length picked"
    and "\<And>l. l < j \<Longrightarrow> stx_sender (picked ! l) = stx_sender (picked ! j) \<Longrightarrow>
           \<exists>ev. fst (apply_tx_at X (met X s0 picked l) (picked ! l) None) = Ok ev"
  shows "check_envelope X (met X s0 picked j) (picked ! j) None = Ok ()"
proof -
  let ?i = "stx_sender (picked ! j)"
  obtain p2 where "picked = p2" "prefix (by_sender ?i p2) (by_sender ?i (mp_q m))"
    using select_loop_spec [of "[]" room links_so_far s "mp_q m" 0 "{}"] assms(3,4)
    by (auto simp: select_batch_txs_def word_le_nat_alt)
  then have "walks X s picked ?i" using walks_prefix [OF assms(2)] by blast
  then have "walks X s0 picked ?i" by (simp add: walks_def assms(5))
  moreover have "state_ok X s0" using assms(1) by (simp add: assms(5))
  ultimately have "walks X (met X s0 picked j) (drop j picked) ?i"
    by (intro run_walks) (use assms(6,7) in auto)
  then show ?thesis using walks_head by (simp add: assms(6) Cons_nth_drop_Suc [symmetric])
qed

theorem proposal_envelopes_pass_witness:
  "fst (select_batch_txs sample_node_state (mp_q sample_pool) 8 0) = [sample_signed]
   \<and> check_envelope sample_node (met sample_node (sample_node_state\<lparr>st_height := 1, st_time := 7\<rparr>) [sample_signed] 0) ([sample_signed] ! 0) None = Ok ()"
proof -
  have p: "fst (select_batch_txs sample_node_state (mp_q sample_pool) 8 0) = [sample_signed]"
    by (simp add: select_batch_txs_def sample_pool_facts sample_signed_fields)
  show ?thesis
    using proposal_envelopes_pass [OF sample_node_ok sample_pool_facts(3), of 0 "[sample_signed]" 8 _ 7 1 0] p by simp
qed

text \<open>C30: the block a proposer fills from the pool has at most the room it was given, carries at most the budgeted
  links of settlement work, keeps the queue's order, and of every sender takes the oldest transactions
  without a gap.\<close>

theorem proposal_within_budget:
  assumes "links_so_far \<le> MAX_SETTLE_LINKS_PER_BLOCK" and "picked = fst (select_batch_txs s pending room links_so_far)"
  shows "length picked \<le> room \<and> subseq picked pending \<and> (\<forall>i. prefix (by_sender i picked) (by_sender i pending))
    \<and> unat links_so_far + sum_list (map (\<lambda>t. settle_links_of s (stx_payload t)) picked) \<le> 2 ^ 17"
proof -
  have max: "unat MAX_SETTLE_LINKS_PER_BLOCK = 2 ^ 17" by (simp add: MAX_SETTLE_LINKS_PER_BLOCK_def)
  obtain p2 where "fst (select_loop s room pending [] 0 links_so_far {}) = [] @ p2" "subseq p2 pending" "length ([] :: SignedTx list) + length p2 \<le> room"
    "\<And>i. prefix (by_sender i p2) (by_sender i pending)"
    "unat links_so_far + sum_list (map (\<lambda>t. settle_links_of s (stx_payload t)) p2) \<le> unat MAX_SETTLE_LINKS_PER_BLOCK"
    using select_loop_spec [of "[]" room links_so_far s pending 0 "{}"] assms(1) by (auto simp: word_le_nat_alt)
  then show ?thesis using assms(2) by (simp add: select_batch_txs_def max)
qed

theorem proposal_within_budget_witness:
  "unat (0 :: u64) + sum_list (map (\<lambda>t. settle_links_of sample_node_state (stx_payload t))
     (fst (select_batch_txs sample_node_state [sample_signed] 1 0))) \<le> 2 ^ 17"
  using proposal_within_budget [of 0 _ sample_node_state "[sample_signed]" 1] by simp

text \<open>Nothing the door admits is parked for ever. A transaction that was admitted and has reached the head of the
  queue is the first one picked for an empty block, in whatever state any later blocks have left the chain.\<close>

lemma admitted_is_carried:
  assumes "state_ok X s" and "try_admit X m tx s = (Ok j, m')" and "0 < room"
  shows "\<exists>others. fst (select_batch_txs (fold_steps (exec_block X) bs s) (tx # rest) room 0) = tx # others"
proof -
  let ?s = "fold_steps (exec_block X) bs s"
  have cap: "channel_settle_cap tx s = Ok ()" using assms(2) by (elim try_admit_OkE)
  have fit: "\<not> unat (0 :: u64) + settle_links_of ?s (stx_payload tx) > unat MAX_SETTLE_LINKS_PER_BLOCK"
    using settle_cost_later [OF cap _ blocks_channels [OF assms(1)]] by (cases "stx_payload tx") (auto simp: word_le_nat_alt not_less)
  have room: "length ([] :: SignedTx list) < room" using assms(3) by simp
  then show ?thesis
  proof (cases rule: select_loop_step [where s = ?s and tx = tx and rest = rest and h = 0 and links = 0 and H = "{}"])
    case (take links')
    obtain p2 where "fst (select_loop ?s room rest ([] @ [tx]) 0 links' {}) = ([] @ [tx]) @ p2"
      by (rule select_loop_spec [of "[] @ [tx]" room links' ?s rest 0 "{}"]) (use take assms(3) in auto)
    then show ?thesis using take(1) by (simp add: select_batch_txs_def del: select_loop.simps)
  qed (use fit in auto)
qed

text \<open>A commit prunes exactly the included slots, reports how many transactions left, keeps the indexes
  true to the queue, and the pruned pool survives a restart: refilling an empty pool from the exported queue gives it back.\<close>

lemma prune_and_restore:
  assumes "indexed X m" and "remove_included X m included = (r, m')"
  shows "r = Ok (length (mp_q m) - length (mp_q m')) \<and> mp_q m' = filter (\<lambda>t. slot_of t \<notin> set included) (mp_q m) \<and> indexed X m'
    \<and> fold_steps (insert_unchecked X) (mp_q m') (mempool_new (mp_cap m')) = m'"
proof -
  obtain m2 where m2: "remove_included X m included = (Ok (length (mp_q m) - length (mp_q m2)), m2)"
    "mp_q m2 = filter (\<lambda>t. slot_of t \<notin> set included) (mp_q m)" "indexed X m2"
    by (rule remove_included_exact [OF assms(1)])
  then have "m' = m2" "r = Ok (length (mp_q m) - length (mp_q m2))" using assms(2) by auto
  then show ?thesis using m2 restore_queue [OF m2(3)] by simp
qed

end
