(* ===== verification/HK_Batch.thy ===== *)
theory HK_Batch
  imports HK_Mempool HK_SetChange
begin

text \<open>
  The bytes inside a block value (\<^verbatim>\<open>hk-node/src/batch.rs\<close>): a batch binds the parent state
  commitment, the ordered transactions, the key rotations, the aggregate proof and the set
  changes. A batch without set changes travels in the old framing, one with set changes behind an
  eight-byte magic. The \<^verbatim>\<open>bincode\<close> crate's encoders and decoders are fields of the environment.
\<close>

section \<open>Batches\<close>

record Batch =
  bt_parent_app_hash :: H256
  bt_txs :: "SignedTx list"
  bt_rotations :: "RotationCert list"
  bt_agg_proof :: bytes
  bt_set_changes :: "SetChangeCert list"

record BatchV1 =
  b1_parent_app_hash :: H256
  b1_txs :: "SignedTx list"
  b1_rotations :: "RotationCert list"
  b1_agg_proof :: bytes

record wire_env = node_env +
  ser_batch_v1 :: "BatchV1 \<Rightarrow> bytes option"
  de_batch_v1 :: "bytes \<Rightarrow> BatchV1 option"
  ser_batch :: "Batch \<Rightarrow> bytes option"
  de_batch :: "bytes \<Rightarrow> Batch option"

definition BATCH_V2_MAGIC :: bytes where "BATCH_V2_MAGIC = str_bytes ''HK-BLK-2''"

text \<open>\<open>expect\<close> on a failed encoding panics.\<close>

definition batch_encode :: "'x wire_env_scheme \<Rightarrow> Batch \<Rightarrow> (bytes, 'e) outcome" where
  "batch_encode X b =
     (if bt_set_changes b = []
      then let v1 = \<lparr>b1_parent_app_hash = bt_parent_app_hash b, b1_txs = bt_txs b, b1_rotations = bt_rotations b,
                     b1_agg_proof = bt_agg_proof b\<rparr>
           in (case ser_batch_v1 X v1 of Some bs \<Rightarrow> Ok bs | None \<Rightarrow> Panic)
      else (case ser_batch X b of Some bs \<Rightarrow> Ok (BATCH_V2_MAGIC @ bs) | None \<Rightarrow> Panic))"

definition strip_prefix :: "bytes \<Rightarrow> bytes \<Rightarrow> bytes option" where
  "strip_prefix bs p = (if take (length p) bs = p then Some (drop (length p) bs) else None)"

definition batch_decode :: "'x wire_env_scheme \<Rightarrow> bytes \<Rightarrow> Batch option" where
  "batch_decode X bs =
     (if bs = [] then None
      else case strip_prefix bs BATCH_V2_MAGIC of
        Some rest \<Rightarrow> de_batch X rest
      | None \<Rightarrow>
          map_option (\<lambda>v1. \<lparr>bt_parent_app_hash = b1_parent_app_hash v1, bt_txs = b1_txs v1, bt_rotations = b1_rotations v1,
                           bt_agg_proof = b1_agg_proof v1, bt_set_changes = []\<rparr>)
            (de_batch_v1 X bs))"

section \<open>The framing\<close>

text \<open>What \<^verbatim>\<open>bincode\<close> promises of a fixed-field struct: decoding undoes encoding, and a leading
  byte array is written as it is.\<close>

definition bincode_faithful :: "'x wire_env_scheme \<Rightarrow> bool" where
  "bincode_faithful X \<longleftrightarrow>
     (\<forall>b bs. ser_batch_v1 X b = Some bs \<longrightarrow> de_batch_v1 X bs = Some b \<and> take 32 bs = h256_bytes (b1_parent_app_hash b))
     \<and> (\<forall>b bs. ser_batch X b = Some bs \<longrightarrow> de_batch X bs = Some b)"

lemma magic_length [simp]: "length BATCH_V2_MAGIC = 8"
  by (simp add: BATCH_V2_MAGIC_def)

text \<open>The wire is faithful. Decoding an encoded batch gives the batch back, in both framings, for every batch
  whose parent commitment does not itself start with the magic (a batch in the old framing starts
  with that commitment).\<close>

lemma batch_roundtrip:
  assumes "bincode_faithful X" and "batch_encode X b = Ok bs"
    and "bt_set_changes b = [] \<Longrightarrow> take 8 (h256_bytes (bt_parent_app_hash b)) \<noteq> BATCH_V2_MAGIC"
  shows "batch_decode X bs = Some b"
proof (cases "bt_set_changes b = []")
  case True
  let ?v1 = "\<lparr>b1_parent_app_hash = bt_parent_app_hash b, b1_txs = bt_txs b, b1_rotations = bt_rotations b, b1_agg_proof = bt_agg_proof b\<rparr>"
  have ser: "ser_batch_v1 X ?v1 = Some bs"
    using assms(2) True by (auto simp: batch_encode_def Let_def split: option.splits)
  then have d: "de_batch_v1 X bs = Some ?v1" "take 32 bs = h256_bytes (bt_parent_app_hash b)"
    using assms(1) unfolding bincode_faithful_def by fastforce+
  have "take 8 bs = take 8 (take 32 bs)" by (simp add: min_def)
  then have "take 8 bs \<noteq> BATCH_V2_MAGIC" using d(2) assms(3) True by simp
  moreover have "bs \<noteq> []" using arg_cong [OF d(2), of length] by auto
  ultimately show ?thesis using d(1) True by (simp add: batch_decode_def strip_prefix_def)
next
  case False
  then obtain rest where "ser_batch X b = Some rest" "bs = BATCH_V2_MAGIC @ rest"
    using assms(2) by (auto simp: batch_encode_def split: option.splits)
  moreover have "BATCH_V2_MAGIC \<noteq> []" by (simp add: BATCH_V2_MAGIC_def str_bytes_def)
  ultimately show ?thesis using assms(1) by (simp add: batch_decode_def strip_prefix_def bincode_faithful_def)
qed

definition sample_batch :: Batch where
  "sample_batch = \<lparr>bt_parent_app_hash = 5, bt_txs = [], bt_rotations = [], bt_agg_proof = [1, 2], bt_set_changes = []\<rparr>"

definition sample_v1 :: BatchV1 where
  "sample_v1 = \<lparr>b1_parent_app_hash = 5, b1_txs = [], b1_rotations = [], b1_agg_proof = [1, 2]\<rparr>"

definition sample_wire :: wire_env where
  "sample_wire = \<lparr>xof256 = xof256 sample_hash, sha256 = sha256 sample_hash, json_tx = \<lambda>_. Some [], json_mandate = \<lambda>_. Some [],
     json_channel = \<lambda>_. Some [], bincode_spend = \<lambda>_. Some [], bincode_mint = \<lambda>_. Some [],
     json_signed = \<lambda>t. Some [ucast (stx_nonce t)], hk_mempool_cap = None, hk_nonce_window = None,
     ser_batch_v1 = \<lambda>b. if b = sample_v1 then Some (h256_bytes 5 @ [1, 2]) else None,
     de_batch_v1 = \<lambda>bs. if bs = h256_bytes 5 @ [1, 2] then Some sample_v1 else None,
     ser_batch = \<lambda>b. if b = sample_batch then Some [9] else None,
     de_batch = \<lambda>bs. if bs = [9] then Some sample_batch else None\<rparr>"

lemma sample_wire_faithful: "bincode_faithful sample_wire"
  by (simp add: bincode_faithful_def sample_wire_def sample_v1_def)

end
