(* ===== verification/HK_Node.thy ===== *)
theory HK_Node
  imports HK_Proposer HK_Batch
begin

text \<open>
  The node's application (\<^verbatim>\<open>hk-node/src/state.rs\<close>, activation heights of \<^verbatim>\<open>hk-node/src/genesis.rs\<close>): building a
  proposal, committing a decided batch to the chain and to the node's indexes, applying the
  rotations and set changes it carries, and rebuilding the same state from the block log after a
  restart. The receipts' texts are kept as the values they print; log lines, timers,
  locks and the store's files are not modelled. The aggregate STARK verifier is a value of the
  application, the LMS key generation of an operational seed a field of the environment.
\<close>

section \<open>Receipts\<close>

type_synonym ReceiptDetail = "(nat, StateError) outcome"

record ReceiptLog =
  rl_map :: "H256 \<rightharpoonup> ReceiptDetail"
  rl_order :: "H256 list"
  rl_cap :: nat

definition rlog_new :: "nat \<Rightarrow> ReceiptLog" where
  "rlog_new cap = \<lparr>rl_map = Map.empty, rl_order = [], rl_cap = cap\<rparr>"

definition rlog_insert :: "ReceiptLog \<Rightarrow> H256 \<Rightarrow> ReceiptDetail \<Rightarrow> ReceiptLog" where
  "rlog_insert log i detail =
     (let log1 = log\<lparr>rl_map := (rl_map log)(i \<mapsto> detail)\<rparr>
      in if rl_map log i \<noteq> None then log1
         else let order = rl_order log @ [i]
              in if length order > rl_cap log
                 then log1\<lparr>rl_map := (rl_map log1)(hd order := None), rl_order := tl order\<rparr>
                 else log1\<lparr>rl_order := order\<rparr>)"

definition rlog_get :: "ReceiptLog \<Rightarrow> H256 \<Rightarrow> ReceiptDetail option" where
  "rlog_get log i = rl_map log i"

definition rlog_entries :: "ReceiptLog \<Rightarrow> (H256 \<times> ReceiptDetail) list" where
  "rlog_entries log = List.map_filter (\<lambda>i. map_option (\<lambda>d. (i, d)) (rl_map log i)) (rl_order log)"

definition rlog_restore :: "ReceiptLog \<Rightarrow> (H256 \<times> ReceiptDetail) list \<Rightarrow> ReceiptLog" where
  "rlog_restore log entries = for_each entries (\<lambda>(i, detail) l. rlog_insert l i detail) log"

section \<open>Small pieces\<close>

fun suffix_loop :: "u64 list \<Rightarrow> u64 \<Rightarrow> u64" where
  "suffix_loop [] m = m"
| "suffix_loop (h # rest) m = (if h + 1 = m then suffix_loop rest h else m)"

definition contiguous_suffix_min :: "u64 list \<Rightarrow> u64 option" where
  "contiguous_suffix_min heights =
     (case rev heights of [] \<Rightarrow> None | h # rest \<Rightarrow> Some (suffix_loop rest h))"

definition rotation_threshold :: "'x hash_env_scheme \<Rightarrow> u64 \<Rightarrow> bytes \<Rightarrow> u64" where
  "rotation_threshold X capacity root_pk =
     (let h = h256_bytes (shake256_32 X ''hk/v1/rotation-jitter'' [root_pk]);
          jitter = (of_nat (le_value [h ! 0, h ! 1]) :: u64) mod 1001
      in saturating_mul capacity (1500 + jitter) div 10000)"

definition rotation_due :: "u64 \<Rightarrow> u64 \<Rightarrow> u64 \<Rightarrow> u64 option \<Rightarrow> bool \<Rightarrow> u64 \<Rightarrow> u64 \<Rightarrow> bool \<Rightarrow> bool \<times> bool" where
  "rotation_due remaining threshold height rotate_every mine_pending next_epoch highest_issued issue_stale =
     (let threshold_hit = remaining < threshold;
          interval_hit = is_some_and rotate_every (\<lambda>n. height > 0 \<and> height mod n = 0);
          guards_pass = (\<not> mine_pending \<and> next_epoch > highest_issued) \<or> issue_stale;
          due = (threshold_hit \<or> interval_hit) \<and> guards_pass
      in (due, threshold_hit))"

definition op_seed :: "'x hash_env_scheme \<Rightarrow> H256 \<Rightarrow> u64 \<Rightarrow> H256" where
  "op_seed X master epoch =
     (if epoch = 0 then master else shake256_32 X ''hk/v1/op-rotation-seed'' [h256_bytes master, u64_le epoch])"

fun tx_kind :: "Tx \<Rightarrow> string" where
  "tx_kind (Transfer _ _ _) = ''transfer''"
| "tx_kind (MandateCreate _ _ _ _ _ _ _ _ _ _) = ''mandate_create''"
| "tx_kind (MandateSpend _ _ _) = ''mandate_spend''"
| "tx_kind (MandateRevoke _) = ''mandate_revoke''"
| "tx_kind (ChannelOpen _ _ _ _ _ _ _ _) = ''channel_open''"
| "tx_kind (ChannelSettle _ _ _) = ''channel_settle''"
| "tx_kind (ChannelRefund _) = ''channel_refund''"
| "tx_kind (MintToPool _ _ _ _ _) = ''shield''"
| "tx_kind (ShieldedSpend _ _ _ _ _ _ _ _ _ _) = ''shielded_spend''"
| "tx_kind (AccountCreate _ _ _ _) = ''account_create''"
| "tx_kind (AssetRegister _ _ _ _) = ''asset_register''"
| "tx_kind (AssetMint _ _ _) = ''asset_mint''"
| "tx_kind (AssetBurn _ _ _) = ''asset_burn''"
| "tx_kind (AssetFreeze _ _ _) = ''asset_freeze''"
| "tx_kind (AssetPause _ _) = ''asset_pause''"

fun tx_counterparty :: "Tx \<Rightarrow> AccountId option" where
  "tx_counterparty (Transfer to_acc _ _) = Some to_acc"
| "tx_counterparty (MandateSpend _ to_acc _) = Some to_acc"
| "tx_counterparty (ChannelOpen _ _ payee _ _ _ _ _) = Some payee"
| "tx_counterparty (AccountCreate i _ _ _) = Some i"
| "tx_counterparty (ShieldedSpend _ _ _ _ _ credit_to _ _ _ _) = credit_to"
| "tx_counterparty (AssetMint _ to_acc _) = Some to_acc"
| "tx_counterparty (AssetFreeze _ account _) = Some account"
| "tx_counterparty _ = None"

text \<open>The activation table; the environment variables are given as parsed.\<close>

record Bootstrap =
  bs_height :: u64
  bs_founding_power :: u64

definition TESTNET1 :: string where "TESTNET1 = ''hashkinetics-1-4e4ea68d''"
definition G1_TESTNET1_HEIGHT :: u64 where "G1_TESTNET1_HEIGHT = 110000"
definition G1_FOUNDING_POWER :: u64 where "G1_FOUNDING_POWER = 4"

definition bootstrap_from :: "string \<Rightarrow> u64 option \<Rightarrow> u64 option \<Rightarrow> Bootstrap option" where
  "bootstrap_from chain_id env_height env_power =
     (if chain_id = TESTNET1 then Some \<lparr>bs_height = G1_TESTNET1_HEIGHT, bs_founding_power = G1_FOUNDING_POWER\<rparr>
      else case env_height of
        None \<Rightarrow> None
      | Some h \<Rightarrow>
          if h > 0
          then Some \<lparr>bs_height = h, bs_founding_power =
                 (case env_power of Some p \<Rightarrow> if p > 0 then p else G1_FOUNDING_POWER | None \<Rightarrow> G1_FOUNDING_POWER)\<rparr>
          else None)"

section \<open>The application's state\<close>

record ProposedValue =
  pv_height :: HkHeight
  pv_round :: Round
  pv_valid_round :: Round
  pv_proposer :: HkAddress
  pv_value :: HkValue
  pv_valid :: bool

record CommitCertificate =
  cc_height :: HkHeight
  cc_round :: Round
  cc_value_id :: HkValueId
  cc_signatures :: "(HkAddress \<times> HkSig) list"

record DecidedEntry =
  de_value :: HkValue
  de_certificate :: CommitCertificate

datatype NodeError =
    AppHashDivergence u64
  | ApplyFailed StateError
  | ValueNotFound HkValueId u64
  | SnapshotMismatch u64
  | CorruptBlock u64

record app_env = wire_env +
  op_public :: "H256 \<Rightarrow> HkPub"
  hk_g1_height :: "u64 option"
  hk_g1_power :: "u64 option"
  hk_decided_window :: "u64 option"

record HkApp =
  ha_address :: HkAddress
  ha_validators :: HkValidatorSet
  ha_chain :: State
  ha_mempool :: Mempool
  ha_receipts :: ReceiptLog
  ha_pool_notes :: "(H256 \<times> bytes) list"
  ha_pool_notes_by_asset :: "(AssetId, (H256 \<times> bytes) list) btree_map"
  ha_bundles :: "(SignedTx list \<times> bytes) list"
  ha_agg :: "((bytes \<Rightarrow> H256 \<Rightarrow> bool) \<times> u32 list \<times> u32 list) option"
  ha_chain_id :: string
  ha_chain_start_time :: u64
  ha_rotation_v2_from :: u64
  ha_current_height :: HkHeight
  ha_undecided :: "(u64 \<times> int, ProposedValue list) btree_map"
  ha_decided :: "(u64, DecidedEntry) btree_map"
  ha_master_seed :: H256
  ha_root :: RootSecret
  ha_my_root_pk :: bytes
  ha_genesis_roots :: "bytes list"
  ha_current_epoch :: u64
  ha_highest_issued_epoch :: u64
  ha_op_handle :: "H256 \<times> u64"
  ha_rotate_every :: "u64 option"
  ha_pending_rotations :: "RotationCert list"
  ha_foreign_rotations :: "RotationCert list"
  ha_pending_set_changes :: "SetChangeCert list"
  ha_tx_index :: "H256 \<rightharpoonup> u64 \<times> u32"
  ha_acct_index :: "AccountId \<rightharpoonup> (H256 \<times> u64 \<times> string) list"
  ha_set_history :: "(u64 \<times> HkValidatorSet) list"
  ha_last_app_hash :: "H256 option"

definition rotation_rules :: "HkApp \<Rightarrow> u64 \<Rightarrow> RotationRules" where
  "rotation_rules a height = \<lparr>rr_height = height, rr_chain_id = ha_chain_id a, rr_v2_from = ha_rotation_v2_from a\<rparr>"

section \<open>Proposing\<close>

definition settle_cost_of :: "State \<Rightarrow> SignedTx \<Rightarrow> u64 option" where
  "settle_cost_of s tx = (case stx_payload tx of ChannelSettle i word k \<Rightarrow> Some (settle_cost s i k) | _ \<Rightarrow> None)"

definition build_bundle :: "HkApp \<Rightarrow> SignedTx list \<times> bytes" where
  "build_bundle a =
     (case ha_bundles a of
        (btxs, aggp) # _ \<Rightarrow> if length btxs \<le> MAX_TXS_PER_BLOCK then (btxs, aggp) else ([], [])
      | [] \<Rightarrow> ([], []))"

definition ride_foreign :: "RotationCert \<Rightarrow> RotationCert list \<Rightarrow> RotationCert list" where
  "ride_foreign cert rotations =
     (if list_ex (\<lambda>r. rc_root_pk r = rc_root_pk cert \<and> rc_epoch r \<ge> rc_epoch cert) rotations then rotations else rotations @ [cert])"

fun set_change_queue :: "'r root_env_scheme \<Rightarrow> HkValidatorSet \<Rightarrow> u64 \<Rightarrow> string \<Rightarrow> SetChangeCert list \<Rightarrow> SetChangeCert list \<times> SetChangeCert list" where
  "set_change_queue R vs height chain_id [] = ([], [])"
| "set_change_queue R vs height chain_id (cert # rest) =
     (case set_change_queue R vs height chain_id rest of
        (keep, include) \<Rightarrow>
          if sb_not_before (sc_body cert) > height then (cert # keep, include)
          else case apply_set_change R vs cert height chain_id of
                 Ok (Some _) \<Rightarrow> (cert # keep, cert # include)
               | _ \<Rightarrow> (keep, include))"

definition build_batch :: "'x app_env_scheme \<Rightarrow> 'r root_env_scheme \<Rightarrow> HkApp \<Rightarrow> u64 \<Rightarrow> (bytes, NodeError, HkApp) step" where
  "build_batch X R a height =
     (case state_commitment X (ha_chain a) of
        Ok parent_app_hash \<Rightarrow>
          (case build_bundle a of
             (btxs, agg_proof) \<Rightarrow>
               let room = MAX_TXS_PER_BLOCK - length btxs;
                   bundle_links = foldl saturating_add 0 (List.map_filter (settle_cost_of (ha_chain a)) btxs);
                   picked = fst (select_batch_txs (ha_chain a) (mp_q (ha_mempool a)) room bundle_links);
                   foreign = filter (\<lambda>c. case apply_rotation R (ha_validators a) c (rotation_rules a height) of Ok _ \<Rightarrow> True | _ \<Rightarrow> False)
                               (ha_foreign_rotations a);
                   rotations = for_each foreign ride_foreign (ha_pending_rotations a)
               in case set_change_queue R (ha_validators a) height (ha_chain_id a) (ha_pending_set_changes a) of
                    (keep, include) \<Rightarrow>
                      (batch_encode X \<lparr>bt_parent_app_hash = parent_app_hash, bt_txs = btxs @ picked, bt_rotations = rotations,
                                       bt_agg_proof = agg_proof, bt_set_changes = include\<rparr>,
                       a\<lparr>ha_foreign_rotations := foreign, ha_pending_set_changes := keep\<rparr>))
      | _ \<Rightarrow> (Panic, a))"

definition undecided_key :: "HkHeight \<Rightarrow> Round \<Rightarrow> u64 \<times> int" where
  "undecided_key height r = (height, sint (as_i64 r))"

definition store_undecided :: "HkApp \<Rightarrow> ProposedValue \<Rightarrow> HkApp" where
  "store_undecided a v =
     (let key = undecided_key (pv_height v) (pv_round v);
          entry = (case bmap_get (ha_undecided a) key of Some vs \<Rightarrow> vs | None \<Rightarrow> [])
      in a\<lparr>ha_undecided := bmap_insert (ha_undecided a) key
            (if list_ex (\<lambda>e. hv_id (pv_value e) = hv_id (pv_value v) \<and> pv_proposer e = pv_proposer v) entry then entry else entry @ [v])\<rparr>)"

definition find_undecided :: "HkApp \<Rightarrow> HkHeight \<Rightarrow> Round \<Rightarrow> HkValueId \<Rightarrow> ProposedValue option" where
  "find_undecided a height r value_id =
     (case bmap_get (ha_undecided a) (undecided_key height r) of
        None \<Rightarrow> None
      | Some vs \<Rightarrow> find (\<lambda>v. hv_id (pv_value v) = value_id) vs)"

definition previously_built :: "HkApp \<Rightarrow> HkHeight \<Rightarrow> Round \<Rightarrow> (HkHeight \<times> Round \<times> HkValue) option" where
  "previously_built a height r =
     (case bmap_get (ha_undecided a) (undecided_key height r) of
        None \<Rightarrow> None
      | Some vs \<Rightarrow> map_option (\<lambda>v. (pv_height v, pv_round v, pv_value v)) (find (\<lambda>v. pv_proposer v = ha_address a) vs))"

definition propose_value :: "'x app_env_scheme \<Rightarrow> 'r root_env_scheme \<Rightarrow> HkApp \<Rightarrow> HkHeight \<Rightarrow> Round \<Rightarrow>
    (HkHeight \<times> Round \<times> HkValue, NodeError, HkApp) step" where
  "propose_value X R a height r =
     try_rw (build_batch X R a height) (\<lambda>bs a1.
       let v = value_new X bs
       in (Ok (height, r, v),
           store_undecided a1 \<lparr>pv_height = height, pv_round = r, pv_valid_round = RoundNil, pv_proposer = ha_address a,
                               pv_value = v, pv_valid = True\<rparr>))"

section \<open>Committing a batch\<close>

text \<open>\<open>par_bools\<close> maps in parallel and keeps the order.\<close>

definition par_bools :: "('t \<Rightarrow> bool) \<Rightarrow> 't list \<Rightarrow> bool list" where
  "par_bools f items = map f items"

definition batch_txs :: "Batch option \<Rightarrow> SignedTx list" where
  "batch_txs batch = (case batch of Some b \<Rightarrow> bt_txs b | None \<Rightarrow> [])"

text \<open>The public statements of the proof-less pool transactions, in order, and their cover keys.\<close>

fun agg_loop :: "'x state_env_scheme \<Rightarrow> SignedTx list \<Rightarrow> (u8 \<times> bytes) list \<Rightarrow> H256 btree_set \<Rightarrow> (u8 \<times> bytes) list \<times> H256 btree_set" where
  "agg_loop X [] pubs covers = (pubs, covers)"
| "agg_loop X (tx # rest) pubs covers =
     (case stx_payload tx of
        MintToPool asset v commitment prf ct \<Rightarrow>
          if prf = []
          then let pb = unwrap_or_default (bincode_mint X (expected_mint_public commitment v))
               in agg_loop X rest (pubs @ [(KIND_MINT, pb)]) (bset_insert covers (cover_key X KIND_MINT pb))
          else agg_loop X rest pubs covers
      | ShieldedSpend anchor nf out out2 fee credit_to mandate prf ct ct2 \<Rightarrow>
          if prf = []
          then let pb = unwrap_or_default (bincode_spend X (expected_spend_public X anchor nf out out2 fee credit_to))
               in agg_loop X rest (pubs @ [(KIND_SPEND, pb)]) (bset_insert covers (cover_key X KIND_SPEND pb))
          else agg_loop X rest pubs covers
      | _ \<Rightarrow> agg_loop X rest pubs covers)"

text \<open>The coverage a batch installs: the aggregate verified live, or the verdict recorded then.\<close>

definition agg_coverage :: "'x state_env_scheme \<Rightarrow> HkApp \<Rightarrow> Batch option \<Rightarrow> bool \<Rightarrow> bool \<Rightarrow> H256 btree_set option" where
  "agg_coverage X a batch live_agg recorded_agg_valid =
     (case batch of
        None \<Rightarrow> None
      | Some b \<Rightarrow>
          if bt_agg_proof b = [] then None
          else case agg_loop X (bt_txs b) [] [] of
            (pubs, covers) \<Rightarrow>
              if pubs = [] then None
              else if live_agg
              then (case ha_agg a of
                      Some (agg_verify, s_hash, m_hash) \<Rightarrow>
                        let leaves = map (\<lambda>(kind, pb). agg_leaf X kind (if kind = KIND_MINT then m_hash else s_hash) pb) pubs;
                            digest = agg_digest X leaves
                        in if agg_verify (bt_agg_proof b) digest then Some covers else None
                    | None \<Rightarrow> None)
              else if recorded_agg_valid then Some covers else None)"

definition receipt_detail :: "Receipt \<Rightarrow> ReceiptDetail" where
  "receipt_detail r = (case rc_result r of Ok events \<Rightarrow> Ok (length events) | Err e \<Rightarrow> Err e | Panic \<Rightarrow> Panic)"

fun record_receipts :: "'x node_env_scheme \<Rightarrow> (SignedTx \<times> Receipt) list \<Rightarrow> ReceiptLog \<Rightarrow> (ReceiptLog, 'e) outcome" where
  "record_receipts X [] log = Ok log"
| "record_receipts X ((tx, r) # rest) log =
     bind_ok (txid X tx) (\<lambda>i. record_receipts X rest (rlog_insert log i (receipt_detail r)))"

text \<open>\<open>entry(k).or_default().push(x)\<close> on a hash map and on an ordered map.\<close>

definition push_entry :: "('k \<rightharpoonup> 'v list) \<Rightarrow> 'k \<Rightarrow> 'v \<Rightarrow> ('k \<rightharpoonup> 'v list)" where
  "push_entry m k x = m(k \<mapsto> (case m k of Some xs \<Rightarrow> xs | None \<Rightarrow> []) @ [x])"

definition push_bmap :: "('k::linorder, 'v list) btree_map \<Rightarrow> 'k \<Rightarrow> 'v \<Rightarrow> ('k, 'v list) btree_map" where
  "push_bmap m k x = bmap_insert m k ((case bmap_get m k of Some xs \<Rightarrow> xs | None \<Rightarrow> []) @ [x])"

definition index_one :: "(AccountId \<rightharpoonup> (H256 \<times> u64 \<times> string) list) \<Rightarrow> SignedTx \<Rightarrow> H256 \<Rightarrow> u64 \<Rightarrow> (AccountId \<rightharpoonup> (H256 \<times> u64 \<times> string) list)" where
  "index_one ai tx i height =
     (let kind = tx_kind (stx_payload tx);
          ai1 = push_entry ai (stx_sender tx) (i, height, kind)
      in case tx_counterparty (stx_payload tx) of
           Some cp \<Rightarrow> if cp \<noteq> stx_sender tx then push_entry ai1 cp (i, height, kind) else ai1
         | None \<Rightarrow> ai1)"

fun index_txs_into :: "'x node_env_scheme \<Rightarrow> u64 \<Rightarrow> nat \<Rightarrow> SignedTx list \<Rightarrow> (H256 \<rightharpoonup> u64 \<times> u32) \<Rightarrow> (AccountId \<rightharpoonup> (H256 \<times> u64 \<times> string) list) \<Rightarrow>
    ((H256 \<rightharpoonup> u64 \<times> u32) \<times> (AccountId \<rightharpoonup> (H256 \<times> u64 \<times> string) list), 'e) outcome" where
  "index_txs_into X height n [] ti ai = Ok (ti, ai)"
| "index_txs_into X height n (tx # rest) ti ai =
     bind_ok (txid X tx) (\<lambda>i.
       index_txs_into X height (Suc n) rest (ti(i \<mapsto> (height, of_nat n)))
         (if ti i \<noteq> None then ai else index_one ai tx i height))"

fun note_loop :: "State \<Rightarrow> (SignedTx \<times> Receipt) list \<Rightarrow> (H256 \<times> bytes) list \<Rightarrow> (AssetId, (H256 \<times> bytes) list) btree_map \<Rightarrow>
    (H256 \<times> bytes) list \<times> (AssetId, (H256 \<times> bytes) list) btree_map" where
  "note_loop s [] notes by_asset = (notes, by_asset)"
| "note_loop s ((tx, r) # rest) notes by_asset =
     (if (case rc_result r of Ok _ \<Rightarrow> True | _ \<Rightarrow> False)
      then (case stx_payload tx of
              MintToPool asset v commitment prf ct \<Rightarrow>
                (case pool_key_of_asset s asset of
                   Ok (AssetPool k) \<Rightarrow> note_loop s rest notes (push_bmap by_asset k (commitment, ct))
                 | _ \<Rightarrow> note_loop s rest (notes @ [(commitment, ct)]) by_asset)
            | ShieldedSpend anchor nf out out2 fee credit_to mandate prf ct ct2 \<Rightarrow>
                (case pool_key_of_anchor s anchor of
                   Some (AssetPool k) \<Rightarrow> note_loop s rest notes (push_bmap (push_bmap by_asset k (out, ct)) k (out2, ct2))
                 | _ \<Rightarrow> note_loop s rest (notes @ [(out, ct), (out2, ct2)]) by_asset)
            | _ \<Rightarrow> note_loop s rest notes by_asset)
      else note_loop s rest notes by_asset)"

definition prune_pool :: "'x node_env_scheme \<Rightarrow> Mempool \<Rightarrow> (AccountId \<times> u64) list \<Rightarrow> (Mempool, 'e) outcome" where
  "prune_pool X m included =
     (case remove_included X m included of (Ok _, m1) \<Rightarrow> Ok m1 | _ \<Rightarrow> Panic)"

definition parent_check :: "'x state_env_scheme \<Rightarrow> State \<Rightarrow> H256 option \<Rightarrow> Batch option \<Rightarrow> u64 \<Rightarrow> (unit, NodeError) outcome" where
  "parent_check X chain cached batch height =
     (case batch of
        None \<Rightarrow> Ok ()
      | Some b \<Rightarrow>
          bind_ok (case cached of Some h \<Rightarrow> Ok h | None \<Rightarrow> (case state_commitment X chain of Ok h \<Rightarrow> Ok h | _ \<Rightarrow> Panic)) (\<lambda>ours.
            if bt_parent_app_hash b \<noteq> ours then Err (AppHashDivergence height) else Ok ()))"

text \<open>What follows a successful apply: receipts, indexes, prune, bundles, notes and the new commitment.\<close>

definition finish_block :: "'x node_env_scheme \<Rightarrow> HkApp \<Rightarrow> u64 \<Rightarrow> SignedTx list \<Rightarrow> Receipt list \<Rightarrow> (HkApp, NodeError) outcome" where
  "finish_block X a height txs receipts =
     bind_ok (record_receipts X (zip txs receipts) (ha_receipts a)) (\<lambda>log.
     bind_ok (index_txs_into X height 0 txs (ha_tx_index a) (ha_acct_index a)) (\<lambda>(ti, ai).
     let included = map (\<lambda>(tx, r). (stx_sender tx, stx_nonce tx)) (zip txs receipts) in
     bind_ok (if included \<noteq> [] then prune_pool X (ha_mempool a) included else Ok (ha_mempool a)) (\<lambda>m.
     let bundles = (if included \<noteq> []
                    then filter (\<lambda>(btxs, _). \<not> list_ex (\<lambda>t. (stx_sender t, stx_nonce t) \<in> set included) btxs) (ha_bundles a)
                    else ha_bundles a) in
     case note_loop (ha_chain a) (zip txs receipts) (ha_pool_notes a) (ha_pool_notes_by_asset a) of
       (notes, by_asset) \<Rightarrow>
         bind_ok (case state_commitment X (ha_chain a) of Ok h \<Rightarrow> Ok h | _ \<Rightarrow> Panic) (\<lambda>app_hash.
           Ok (a\<lparr>ha_mempool := m, ha_receipts := log, ha_pool_notes := notes, ha_pool_notes_by_asset := by_asset,
                 ha_bundles := bundles, ha_tx_index := ti, ha_acct_index := ai, ha_last_app_hash := Some app_hash\<rparr>)))))"

definition apply_batch_to_chain :: "'x node_env_scheme \<Rightarrow> HkApp \<Rightarrow> u64 \<Rightarrow> Batch option \<Rightarrow> bool \<Rightarrow> bool \<Rightarrow> (bool, NodeError, HkApp) step" where
  "apply_batch_to_chain X a height batch live_agg recorded_agg_valid =
     (let time = ha_chain_start_time a + height;
          txs = batch_txs batch;
          sig_verdicts = par_bools (verify_envelope X) txs;
          cached = ha_last_app_hash a;
          a1 = a\<lparr>ha_last_app_hash := None\<rparr>
      in try_ro (parent_check X (ha_chain a) cached batch height) a1 (\<lambda>_.
           let coverage = agg_coverage X a batch live_agg recorded_agg_valid;
               chain1 = (case coverage of Some covers \<Rightarrow> set_block_coverage (ha_chain a) covers | None \<Rightarrow> ha_chain a)
           in case apply_block_verified X chain1 height time txs (Some sig_verdicts) of
                (Ok receipts, chain2) \<Rightarrow>
                  (case finish_block X (a1\<lparr>ha_chain := chain2\<rparr>) height txs receipts of
                     Ok a2 \<Rightarrow> (Ok (coverage \<noteq> None), a2)
                   | Err e \<Rightarrow> (Err e, a1\<lparr>ha_chain := chain2\<rparr>)
                   | Panic \<Rightarrow> (Panic, a1\<lparr>ha_chain := chain2\<rparr>))
              | (Err e, chain2) \<Rightarrow> (Err (ApplyFailed e), a1\<lparr>ha_chain := chain2\<rparr>)
              | (Panic, chain2) \<Rightarrow> (Panic, a1\<lparr>ha_chain := chain2\<rparr>)))"

section \<open>Rotations and set changes of a block\<close>

definition retire :: "RotationCert \<Rightarrow> RotationCert list \<Rightarrow> RotationCert list" where
  "retire cert cs = filter (\<lambda>c. \<not> (rc_root_pk c = rc_root_pk cert \<and> rc_epoch c \<le> rc_epoch cert)) cs"

fun rotations_loop :: "'x app_env_scheme \<Rightarrow> 'r root_env_scheme \<Rightarrow> RotationRules \<Rightarrow> bool \<Rightarrow> RotationCert list \<Rightarrow> HkApp \<Rightarrow> bool \<Rightarrow> HkApp \<times> bool" where
  "rotations_loop X R rules replay [] a any_applied = (a, any_applied)"
| "rotations_loop X R rules replay (cert # rest) a any_applied =
     (case apply_rotation R (ha_validators a) cert rules of
        Ok new_set \<Rightarrow>
          let a1 = a\<lparr>ha_validators := new_set\<rparr>;
              mine = (rc_root_pk cert = ha_my_root_pk a);
              a2 = (if mine \<and> rc_epoch cert > ha_current_epoch a
                    then if replay then a1\<lparr>ha_current_epoch := rc_epoch cert\<rparr>
                         else a1\<lparr>ha_current_epoch := rc_epoch cert,
                                 ha_op_handle := (op_seed X (ha_master_seed a) (rc_epoch cert), rc_epoch cert)\<rparr>
                    else a1);
              a3 = a2\<lparr>ha_pending_rotations := retire cert (ha_pending_rotations a),
                      ha_foreign_rotations := retire cert (ha_foreign_rotations a)\<rparr>
          in rotations_loop X R rules replay rest a3 True
      | _ \<Rightarrow> rotations_loop X R rules replay rest a any_applied)"

definition apply_rotations :: "'x app_env_scheme \<Rightarrow> 'r root_env_scheme \<Rightarrow> HkApp \<Rightarrow> u64 \<Rightarrow> Batch option \<Rightarrow> bool \<Rightarrow> HkApp" where
  "apply_rotations X R a height batch replay =
     (case rotations_loop X R (rotation_rules a height) replay (case batch of Some b \<Rightarrow> bt_rotations b | None \<Rightarrow> []) a False of
        (a1, any_applied) \<Rightarrow>
          if any_applied then a1\<lparr>ha_set_history := ha_set_history a1 @ [(height + 1, ha_validators a1)]\<rparr> else a1)"

fun set_changes_loop :: "'r root_env_scheme \<Rightarrow> u64 \<Rightarrow> SetChangeCert list \<Rightarrow> HkApp \<Rightarrow> bool \<Rightarrow> (HkApp \<times> bool, NodeError) outcome" where
  "set_changes_loop R height [] a any_applied = Ok (a, any_applied)"
| "set_changes_loop R height (cert # rest) a any_applied =
     (let retired = (\<lambda>a. a\<lparr>ha_pending_set_changes := filter (\<lambda>q. sc_body q \<noteq> sc_body cert) (ha_pending_set_changes a)\<rparr>)
      in case apply_set_change R (ha_validators a) cert height (ha_chain_id a) of
           Ok (Some new_set) \<Rightarrow> set_changes_loop R height rest (retired (a\<lparr>ha_validators := new_set\<rparr>)) True
         | Ok None \<Rightarrow> set_changes_loop R height rest (retired a) any_applied
         | Err e \<Rightarrow> set_changes_loop R height rest (retired a) any_applied
         | Panic \<Rightarrow> Panic)"

definition apply_bootstrap :: "'x app_env_scheme \<Rightarrow> HkApp \<Rightarrow> u64 \<Rightarrow> bool \<Rightarrow> (HkApp \<times> bool, NodeError) outcome" where
  "apply_bootstrap X a height any_applied =
     (case bootstrap_from (ha_chain_id a) (hk_g1_height X) (hk_g1_power X) of
        Some b \<Rightarrow>
          if height = bs_height b
          then (case reweight_roots (ha_validators a) (ha_genesis_roots a) (bs_founding_power b) of
                  Ok (Some new_set) \<Rightarrow> Ok (a\<lparr>ha_validators := new_set\<rparr>, True)
                | Ok None \<Rightarrow> Ok (a, any_applied)
                | _ \<Rightarrow> Panic)
          else Ok (a, any_applied)
      | None \<Rightarrow> Ok (a, any_applied))"

definition apply_set_changes :: "'x app_env_scheme \<Rightarrow> 'r root_env_scheme \<Rightarrow> HkApp \<Rightarrow> u64 \<Rightarrow> Batch option \<Rightarrow> (HkApp, NodeError) outcome" where
  "apply_set_changes X R a height batch =
     bind_ok (set_changes_loop R height (case batch of Some b \<Rightarrow> bt_set_changes b | None \<Rightarrow> []) a False) (\<lambda>(a1, any1).
     bind_ok (apply_bootstrap X a1 height any1) (\<lambda>(a2, any2).
       Ok (if any2 then a2\<lparr>ha_set_history := ha_set_history a2 @ [(height + 1, ha_validators a2)]\<rparr> else a2)))"

section \<open>Commit and replay\<close>

text \<open>The part of \<open>commit\<close> and of the replay loop that follows from a decided batch.\<close>

definition execute_decided :: "'x app_env_scheme \<Rightarrow> 'r root_env_scheme \<Rightarrow> HkApp \<Rightarrow> u64 \<Rightarrow> bytes \<Rightarrow> bool \<Rightarrow> bool \<Rightarrow> (bool, NodeError, HkApp) step" where
  "execute_decided X R a height value_bytes live recorded =
     (let batch = batch_decode X value_bytes
      in try_rw (apply_batch_to_chain X a height batch live recorded) (\<lambda>agg_valid a1.
         let a2 = apply_rotations X R a1 height batch (\<not> live)
         in case apply_set_changes X R a2 height batch of
              Ok a3 \<Rightarrow> (Ok agg_valid, a3)
            | Err e \<Rightarrow> (Err e, a2)
            | Panic \<Rightarrow> (Panic, a2)))"

definition decided_window :: "'x app_env_scheme \<Rightarrow> u64" where
  "decided_window X = (case hk_decided_window X of Some n \<Rightarrow> n | None \<Rightarrow> 512)"

definition trim_decided :: "u64 \<Rightarrow> (u64, DecidedEntry) btree_map \<Rightarrow> (u64, DecidedEntry) btree_map" where
  "trim_decided window m = (if window > 0 then drop (length m - unat window) m else m)"

definition lookup_decided :: "HkApp \<Rightarrow> u64 \<Rightarrow> HkValueId \<Rightarrow> HkValue option" where
  "lookup_decided a height value_id =
     map_option pv_value (find (\<lambda>v. hv_id (pv_value v) = value_id)
       (concat (map snd (filter (\<lambda>((h, _), _). h = height) (ha_undecided a)))))"

text \<open>The rotation trigger; how many leaves are left and whether the last issue is stale are readings.\<close>

definition issue_rotation :: "'x app_env_scheme \<Rightarrow> 'r root_env_scheme \<Rightarrow> HkApp \<Rightarrow> u64 \<Rightarrow> u64 \<Rightarrow> u64 \<Rightarrow> bool \<Rightarrow> HkApp" where
  "issue_rotation X R a height capacity remaining issue_stale =
     (let mine_pending = list_ex (\<lambda>c. rc_root_pk c = ha_my_root_pk a) (ha_pending_rotations a);
          next_epoch = ha_current_epoch a + 1;
          threshold = rotation_threshold X capacity (ha_my_root_pk a);
          (due, threshold_hit) = rotation_due remaining threshold height (ha_rotate_every a) mine_pending next_epoch
                                   (ha_highest_issued_epoch a) issue_stale
      in if due
         then let new_op_pk = op_public X (op_seed X (ha_master_seed a) next_epoch);
                  cert = issue_for R (ha_root a) (ha_chain_id a) (ha_rotation_v2_from a) new_op_pk next_epoch (height + 1)
              in a\<lparr>ha_highest_issued_epoch := max (ha_highest_issued_epoch a) next_epoch,
                   ha_pending_rotations :=
                     filter (\<lambda>c. \<not> (rc_root_pk c = ha_my_root_pk a \<and> rc_epoch c \<le> next_epoch)) (ha_pending_rotations a) @ [cert]\<rparr>
         else a)"

definition commit :: "'x app_env_scheme \<Rightarrow> 'r root_env_scheme \<Rightarrow> HkApp \<Rightarrow> CommitCertificate \<Rightarrow> u64 \<Rightarrow> u64 \<Rightarrow> bool \<Rightarrow> (bool, NodeError, HkApp) step" where
  "commit X R a certificate capacity remaining issue_stale =
     (let height = cc_height certificate
      in try_ro (ok_or (lookup_decided a height (cc_value_id certificate)) (ValueNotFound (cc_value_id certificate) height)) a (\<lambda>v.
         try_rw (execute_decided X R a height (hv_txs v) True False) (\<lambda>agg_valid a1.
           let a2 = a1\<lparr>ha_decided := trim_decided (decided_window X)
                          (bmap_insert (ha_decided a1) height \<lparr>de_value = v, de_certificate = certificate\<rparr>),
                       ha_undecided := filter (\<lambda>((h, _), _). h > height) (ha_undecided a1),
                       ha_current_height := height + 1\<rparr>
           in (Ok agg_valid, issue_rotation X R a2 height capacity remaining issue_stale))))"

record StoredBlock =
  sb_height :: u64
  sb_value_bytes :: bytes
  sb_certificate :: CommitCertificate
  sb_agg_valid :: bool

definition certificate_value_mismatch :: "CommitCertificate \<Rightarrow> HkValue \<Rightarrow> bool" where
  "certificate_value_mismatch cert v \<longleftrightarrow> cc_value_id cert \<noteq> hv_id v"

text \<open>The replay loop of \<open>restore_from_store\<close>; a gap in the log stops it.\<close>

fun replay_loop :: "'x app_env_scheme \<Rightarrow> 'r root_env_scheme \<Rightarrow> StoredBlock list \<Rightarrow> HkApp \<Rightarrow> (unit, NodeError, HkApp) step" where
  "replay_loop X R [] a = (Ok (), a)"
| "replay_loop X R (sb # rest) a =
     (if sb_height sb \<noteq> st_height (ha_chain a) + 1 then (Ok (), a)
      else let v = value_new X (sb_value_bytes sb)
           in if certificate_value_mismatch (sb_certificate sb) v then (Err (CorruptBlock (sb_height sb)), a)
              else try_rw (execute_decided X R a (sb_height sb) (hv_txs v) False (sb_agg_valid sb)) (\<lambda>_ a1.
                     replay_loop X R rest
                       (a1\<lparr>ha_decided := bmap_insert (ha_decided a1) (sb_height sb) \<lparr>de_value = v, de_certificate = sb_certificate sb\<rparr>\<rparr>)))"

end
