(* ===== verification/HK_Restart.thy ===== *)
theory HK_Restart
  imports HK_Node
begin

text \<open>
  The node against the ledger and against itself after a restart: a committed batch is a block of
  the state machine on top of the state its parent commitment names, and replaying the block log
  rebuilds the ledger, the validator set and its history, the receipts and the note feeds exactly.
\<close>

section \<open>What a commit did\<close>

lemma apply_batch_OkE:
  assumes "apply_batch_to_chain X a h batch live rec = (Ok v, a')"
  obtains receipts chain2 where "parent_check X (ha_chain a) (ha_last_app_hash a) batch h = Ok ()"
    "v = (agg_coverage X a batch live rec \<noteq> None)"
    "apply_block_verified X (case agg_coverage X a batch live rec of Some c \<Rightarrow> set_block_coverage (ha_chain a) c | None \<Rightarrow> ha_chain a)
       h (ha_chain_start_time a + h) (batch_txs batch) (Some (map (verify_envelope X) (batch_txs batch))) = (Ok receipts, chain2)"
    "finish_block X (a\<lparr>ha_last_app_hash := None, ha_chain := chain2\<rparr>) h (batch_txs batch) receipts = Ok a'"
proof -
  let ?cov = "agg_coverage X a batch live rec"
  let ?s1 = "case ?cov of Some c \<Rightarrow> set_block_coverage (ha_chain a) c | None \<Rightarrow> ha_chain a"
  obtain r chain2 where r: "apply_block_verified X ?s1 h (ha_chain_start_time a + h) (batch_txs batch) (Some (map (verify_envelope X) (batch_txs batch))) = (r, chain2)"
    by fastforce
  have p: "parent_check X (ha_chain a) (ha_last_app_hash a) batch h = Ok ()"
    using assms unfolding apply_batch_to_chain_def Let_def by (auto elim!: try_ro_OkE)
  have "\<exists>receipts. r = Ok receipts \<and> finish_block X (a\<lparr>ha_last_app_hash := None, ha_chain := chain2\<rparr>) h (batch_txs batch) receipts = Ok a' \<and> v = (?cov \<noteq> None)"
    using assms unfolding apply_batch_to_chain_def Let_def p try_ro_simps par_bools_def r
    by (cases r) (auto split: outcome.splits)
  with p r that show ?thesis by blast
qed

lemma finish_block_OkE:
  assumes "finish_block X a h txs receipts = Ok a'"
  obtains log ti ai m bundles nts by_asset app_hash where
    "record_receipts X (zip txs receipts) (ha_receipts a) = (Ok log :: (_, NodeError) outcome)"
    "index_txs_into X h 0 txs (ha_tx_index a) (ha_acct_index a) = (Ok (ti, ai) :: (_, NodeError) outcome)"
    "map (\<lambda>(tx, r). (stx_sender tx, stx_nonce tx)) (zip txs receipts) \<noteq> [] \<Longrightarrow>
       prune_pool X (ha_mempool a) (map (\<lambda>(tx, r). (stx_sender tx, stx_nonce tx)) (zip txs receipts)) = (Ok m :: (_, NodeError) outcome)"
    "map (\<lambda>(tx, r). (stx_sender tx, stx_nonce tx)) (zip txs receipts) = [] \<Longrightarrow> m = ha_mempool a"
    "note_loop (ha_chain a) (zip txs receipts) (ha_pool_notes a) (ha_pool_notes_by_asset a) = (nts, by_asset)"
    "state_commitment X (ha_chain a) = Ok app_hash"
    "a' = a\<lparr>ha_mempool := m, ha_receipts := log, ha_pool_notes := nts, ha_pool_notes_by_asset := by_asset,
              ha_bundles := bundles, ha_tx_index := ti, ha_acct_index := ai, ha_last_app_hash := Some app_hash\<rparr>"
proof -
  let ?inc = "map (\<lambda>(tx, r). (stx_sender tx, stx_nonce tx)) (zip txs receipts)"
  obtain nts by_asset where n: "note_loop (ha_chain a) (zip txs receipts) (ha_pool_notes a) (ha_pool_notes_by_asset a) = (nts, by_asset)"
    by fastforce
  from assms obtain log where log: "record_receipts X (zip txs receipts) (ha_receipts a) = (Ok log :: (_, NodeError) outcome)"
    unfolding finish_block_def by (auto elim: bind_ok_OkE)
  from assms obtain ti ai where ix: "index_txs_into X h 0 txs (ha_tx_index a) (ha_acct_index a) = (Ok (ti, ai) :: (_, NodeError) outcome)"
    unfolding finish_block_def log bind_ok_simps by (elim bind_ok_OkE) auto
  from assms obtain m where m: "(if ?inc \<noteq> [] then prune_pool X (ha_mempool a) ?inc else Ok (ha_mempool a)) = (Ok m :: (_, NodeError) outcome)"
    unfolding finish_block_def log ix bind_ok_simps Let_def prod.case by (elim bind_ok_OkE)
  from assms obtain c where c: "state_commitment X (ha_chain a) = Ok c"
    unfolding finish_block_def log ix m n bind_ok_simps Let_def prod.case by (elim bind_ok_OkE) (auto split: outcome.splits)
  have a': "a' = a\<lparr>ha_mempool := m, ha_receipts := log, ha_pool_notes := nts, ha_pool_notes_by_asset := by_asset,
      ha_bundles := (if ?inc \<noteq> [] then filter (\<lambda>(btxs, _). \<not> list_ex (\<lambda>t. (stx_sender t, stx_nonce t) \<in> set ?inc) btxs) (ha_bundles a) else ha_bundles a),
      ha_tx_index := ti, ha_acct_index := ai, ha_last_app_hash := Some c\<rparr>"
    using assms unfolding finish_block_def log ix m n c bind_ok_simps Let_def prod.case outcome.case outcome.inject by (rule sym)
  show ?thesis
    by (rule that [OF log ix _ _ n c a']) (use m in \<open>simp_all split: if_splits\<close>)
qed

section \<open>The application's invariant\<close>

text \<open>The ledger is well formed and no coverage is left over; a cached commitment is the commitment of
  the state; the pool's indexes are true; every stored proposal carries the id of its content.\<close>

definition app_ok :: "'x node_env_scheme \<Rightarrow> HkApp \<Rightarrow> bool" where
  "app_ok X a \<longleftrightarrow> state_ok X (ha_chain a) \<and> st_agg_cover (ha_chain a) = []
     \<and> (\<forall>h. ha_last_app_hash a = Some h \<longrightarrow> state_commitment X (ha_chain a) = Ok h)
     \<and> indexed X (ha_mempool a)
     \<and> (\<forall>k vs v. (k, vs) \<in> set (ha_undecided a) \<and> v \<in> set vs \<longrightarrow> pv_value v = value_new X (hv_txs (pv_value v)))"

lemma app_okD:
  assumes "app_ok X a"
  shows "state_ok X (ha_chain a)" "st_agg_cover (ha_chain a) = []" "indexed X (ha_mempool a)"
    "ha_last_app_hash a = Some h \<Longrightarrow> state_commitment X (ha_chain a) = Ok h"
  using assms by (auto simp: app_ok_def)

text \<open>A cached commitment never changes the verdict of the divergence check.\<close>

lemma parent_check_cached:
  assumes "app_ok X a"
  shows "parent_check X (ha_chain a) (ha_last_app_hash a) batch h = parent_check X (ha_chain a) None batch h"
  using app_okD(4) [OF assms]
  by (cases "ha_last_app_hash a") (auto simp: parent_check_def split: option.split)

lemma parent_check_Ok:
  assumes "parent_check X s None (Some b) h = Ok ()"
  shows "state_commitment X s = Ok (bt_parent_app_hash b)"
  using assms by (cases "state_commitment X s") (auto simp: parent_check_def split: if_splits)

text \<open>The block of the state machine a batch stands for.\<close>

definition block_of :: "'x node_env_scheme \<Rightarrow> HkApp \<Rightarrow> u64 \<Rightarrow> Batch option \<Rightarrow> bool \<Rightarrow> bool \<Rightarrow> Block" where
  "block_of X a h batch live rec =
     \<lparr>bk_height = h, bk_time = ha_chain_start_time a + h, bk_txs = batch_txs batch,
      bk_verdicts = Some (map (verify_envelope X) (batch_txs batch)),
      bk_cover = (case agg_coverage X a batch live rec of Some c \<Rightarrow> c | None \<Rightarrow> [])\<rparr>"

lemma exec_block_of:
  assumes "st_agg_cover (ha_chain a) = []"
  shows "exec_block X (ha_chain a) (block_of X a h batch live rec) =
    apply_block_verified X (case agg_coverage X a batch live rec of Some c \<Rightarrow> set_block_coverage (ha_chain a) c | None \<Rightarrow> ha_chain a)
       h (ha_chain_start_time a + h) (batch_txs batch) (Some (map (verify_envelope X) (batch_txs batch)))"
proof -
  have "set_block_coverage (ha_chain a) [] = ha_chain a" using assms by (simp add: set_block_coverage_def)
  then show ?thesis by (simp add: exec_block_def block_of_def split: option.split)
qed

lemma exec_block_result:
  assumes "state_ok X s" and "exec_block X s b = (Ok receipts, s')"
  shows "length receipts = length (bk_txs b)" "st_agg_cover s' = []" "st_height s' = bk_height b" "bk_height b = st_height s + 1"
proof -
  have "length receipts = length (bk_txs b) \<and> st_agg_cover s' = [] \<and> st_height s' = bk_height b \<and> bk_height b = st_height s + 1"
  proof (rule apply_block_verified_cases [of X "set_block_coverage s (bk_cover b)" "bk_height b" "bk_time b" "bk_txs b" "bk_verdicts b"])
    show "state_ok X (set_block_coverage s (bk_cover b))" using assms(1) by simp
  next
    fix e assume "apply_block_verified X (set_block_coverage s (bk_cover b)) (bk_height b) (bk_time b) (bk_txs b) (bk_verdicts b) = (Err e, set_block_coverage s (bk_cover b))"
    then show ?thesis using assms(2) by (simp add: exec_block_def)
  next
    fix rs s1
    let ?s2 = "fold_steps (exec_tx X) (tx_inputs 0 (bk_txs b) (bk_verdicts b)) s1"
    assume h: "bk_height b = st_height (set_block_coverage s (bk_cover b)) + 1"
      and s1: "s1 = (set_block_coverage s (bk_cover b))\<lparr>st_height := bk_height b, st_time := bk_time b\<rparr>"
      and run: "apply_block_verified X (set_block_coverage s (bk_cover b)) (bk_height b) (bk_time b) (bk_txs b) (bk_verdicts b) = (Ok rs, end_block X ?s2)"
      and ix: "map rc_index rs = [0..<length (bk_txs b)]"
    have eq: "receipts = rs" "s' = end_block X ?s2" using assms(2) run by (simp_all add: exec_block_def)
    have "state_ok X s1" using assms(1) by (simp add: s1)
    then have "st_height ?s2 = bk_height b" using run_clock [of X s1] by (simp add: s1)
    then show ?thesis using h arg_cong [OF ix, of length] by (simp add: eq end_block_def set_block_coverage_def)
  qed
  then show "length receipts = length (bk_txs b)" "st_agg_cover s' = []" "st_height s' = bk_height b" "bk_height b = st_height s + 1" by auto
qed

lemma prune_pool_Ok:
  assumes "indexed X m"
  obtains m' where "prune_pool X m included = (Ok m' :: (_, 'e) outcome)" "indexed X m'"
    "mp_q m' = filter (\<lambda>t. slot_of t \<notin> set included) (mp_q m)"
  using remove_included_exact [OF assms, of included] by (metis (lifting) prune_pool_def case_prod_conv outcome.case(1))

lemma app_ok_update:
  assumes "app_ok X a" and "state_ok X s" and "st_agg_cover s = []" and "state_commitment X s = Ok c" and "indexed X m"
  shows "app_ok X (a\<lparr>ha_last_app_hash := None, ha_chain := s, ha_mempool := m, ha_receipts := log, ha_pool_notes := nts,
    ha_pool_notes_by_asset := by_asset, ha_bundles := bundles, ha_tx_index := ti, ha_acct_index := ai, ha_last_app_hash := Some c\<rparr>)"
  using assms by (simp add: app_ok_def)

lemma apply_batch_executes:
  assumes "app_ok X a" and "apply_batch_to_chain X a h batch live rec = (Ok v, a')"
  obtains receipts where "exec_block X (ha_chain a) (block_of X a h batch live rec) = (Ok receipts, ha_chain a')" "app_ok X a'"
    "mp_q (ha_mempool a') = filter (\<lambda>t. slot_of t \<notin> slot_of ` set (batch_txs batch)) (mp_q (ha_mempool a))"
    "record_receipts X (zip (batch_txs batch) receipts) (ha_receipts a) = (Ok (ha_receipts a') :: (_, NodeError) outcome)"
    "parent_check X (ha_chain a) None batch h = Ok ()" "v = (agg_coverage X a batch live rec \<noteq> None)"
  using assms(2)
proof (rule apply_batch_OkE)
  fix receipts :: "Receipt list" and chain2 :: State
  let ?txs = "batch_txs batch"
  let ?inc = "map (\<lambda>(tx, r). (stx_sender tx, stx_nonce tx)) (zip ?txs receipts)"
  assume p: "parent_check X (ha_chain a) (ha_last_app_hash a) batch h = Ok ()" and v: "v = (agg_coverage X a batch live rec \<noteq> None)"
    and run: "apply_block_verified X (case agg_coverage X a batch live rec of Some c \<Rightarrow> set_block_coverage (ha_chain a) c | None \<Rightarrow> ha_chain a)
       h (ha_chain_start_time a + h) ?txs (Some (map (verify_envelope X) ?txs)) = (Ok receipts, chain2)"
    and fin: "finish_block X (a\<lparr>ha_last_app_hash := None, ha_chain := chain2\<rparr>) h ?txs receipts = Ok a'"
  have ex: "exec_block X (ha_chain a) (block_of X a h batch live rec) = (Ok receipts, chain2)"
    by (rule trans [OF exec_block_of [OF app_okD(2) [OF assms(1)]] run])
  have ok: "state_ok X chain2" using exec_block_state_ok [OF app_okD(1) [OF assms(1)], of "block_of X a h batch live rec"] ex by simp
  note res = exec_block_result [OF app_okD(1) [OF assms(1)] ex]
  have len: "length receipts = length ?txs" using res(1) by (simp add: block_of_def)
  have "?inc = map slot_of (map fst (zip ?txs receipts))" by (simp add: slot_of_def case_prod_beta)
  then have inc: "set ?inc = slot_of ` set ?txs" by (simp only: map_fst_zip [OF len [symmetric]] set_map)
  from fin show ?thesis
  proof (rule finish_block_OkE)
    fix log ti ai m bundles nts by_asset c
    assume log: "record_receipts X (zip ?txs receipts) (ha_receipts (a\<lparr>ha_last_app_hash := None, ha_chain := chain2\<rparr>)) = (Ok log :: (_, NodeError) outcome)"
      and m1: "?inc \<noteq> [] \<Longrightarrow> prune_pool X (ha_mempool (a\<lparr>ha_last_app_hash := None, ha_chain := chain2\<rparr>)) ?inc = (Ok m :: (_, NodeError) outcome)"
      and m2: "?inc = [] \<Longrightarrow> m = ha_mempool (a\<lparr>ha_last_app_hash := None, ha_chain := chain2\<rparr>)"
      and c: "state_commitment X (ha_chain (a\<lparr>ha_last_app_hash := None, ha_chain := chain2\<rparr>)) = Ok c"
      and a': "a' = a\<lparr>ha_last_app_hash := None, ha_chain := chain2, ha_mempool := m, ha_receipts := log, ha_pool_notes := nts, ha_pool_notes_by_asset := by_asset,
              ha_bundles := bundles, ha_tx_index := ti, ha_acct_index := ai, ha_last_app_hash := Some c\<rparr>"
    have m: "indexed X m \<and> mp_q m = filter (\<lambda>t. slot_of t \<notin> slot_of ` set ?txs) (mp_q (ha_mempool a))"
    proof (cases "?inc = []")
      case True
      then have "set ?inc = {}" by (simp only: list.set)
      then have "slot_of ` set ?txs = {}" using inc by (simp only:)
      then show ?thesis using m2 [OF True] app_okD(3) [OF assms(1)] by simp
    next
      case False
      obtain m' where m': "prune_pool X (ha_mempool a) ?inc = (Ok m' :: (_, NodeError) outcome)" "indexed X m'"
        "mp_q m' = filter (\<lambda>t. slot_of t \<notin> set ?inc) (mp_q (ha_mempool a))"
        by (rule prune_pool_Ok [OF app_okD(3) [OF assms(1)]])
      then show ?thesis using m1 [OF False] inc by simp
    qed
    have "app_ok X a'" unfolding a' by (rule app_ok_update [OF assms(1) ok res(2)]) (use c m in auto)
    then show ?thesis
      by (intro that [of receipts]) (use ex p parent_check_cached [OF assms(1)] m log v in \<open>simp_all add: a'\<close>)
  qed
qed

section \<open>Replay\<close>

text \<open>What a node knows of the chain: everything the block log determines.\<close>

definition ledger_view where
  "ledger_view a = (ha_chain a, ha_receipts a, ha_pool_notes a, ha_pool_notes_by_asset a, ha_tx_index a, ha_acct_index a,
     ha_validators a, ha_set_history a, ha_current_epoch a, ha_chain_id a, ha_chain_start_time a, ha_rotation_v2_from a,
     ha_my_root_pk a, ha_genesis_roots a)"

lemma ledger_viewD:
  assumes "ledger_view a = ledger_view b"
  shows "ha_chain b = ha_chain a" "ha_receipts b = ha_receipts a" "ha_pool_notes b = ha_pool_notes a"
    "ha_pool_notes_by_asset b = ha_pool_notes_by_asset a" "ha_tx_index b = ha_tx_index a" "ha_acct_index b = ha_acct_index a"
    "ha_validators b = ha_validators a" "ha_set_history b = ha_set_history a" "ha_current_epoch b = ha_current_epoch a"
    "ha_chain_id b = ha_chain_id a" "ha_chain_start_time b = ha_chain_start_time a" "ha_rotation_v2_from b = ha_rotation_v2_from a"
    "ha_my_root_pk b = ha_my_root_pk a" "ha_genesis_roots b = ha_genesis_roots a"
  using assms by (simp_all add: ledger_view_def)

lemma recorded_coverage:
  "agg_coverage X b batch False (agg_coverage X a batch True rec \<noteq> None) = agg_coverage X a batch True rec"
  by (auto simp: agg_coverage_def Let_def split: option.split prod.split)

lemma finish_block_sim:
  assumes "ledger_view a = ledger_view b" and "indexed X (ha_mempool b)" and "finish_block X a h txs receipts = Ok a'"
  obtains b' where "finish_block X b h txs receipts = Ok b'" "ledger_view a' = ledger_view b'"
  using assms(3)
proof (rule finish_block_OkE)
  fix log ti ai m bundles nts by_asset c
  let ?inc = "map (\<lambda>(tx, r). (stx_sender tx, stx_nonce tx)) (zip txs receipts)"
  note view = ledger_viewD [OF assms(1)]
  assume log: "record_receipts X (zip txs receipts) (ha_receipts a) = (Ok log :: (_, NodeError) outcome)"
    and ix: "index_txs_into X h 0 txs (ha_tx_index a) (ha_acct_index a) = (Ok (ti, ai) :: (_, NodeError) outcome)"
    and n: "note_loop (ha_chain a) (zip txs receipts) (ha_pool_notes a) (ha_pool_notes_by_asset a) = (nts, by_asset)"
    and c: "state_commitment X (ha_chain a) = Ok c"
    and a': "a' = a\<lparr>ha_mempool := m, ha_receipts := log, ha_pool_notes := nts, ha_pool_notes_by_asset := by_asset,
              ha_bundles := bundles, ha_tx_index := ti, ha_acct_index := ai, ha_last_app_hash := Some c\<rparr>"
  obtain m' where m': "(if ?inc \<noteq> [] then prune_pool X (ha_mempool b) ?inc else Ok (ha_mempool b)) = (Ok m' :: (_, NodeError) outcome)"
    using prune_pool_Ok [OF assms(2), of ?inc] by metis
  have "\<exists>b'. finish_block X b h txs receipts = Ok b' \<and> ledger_view a' = ledger_view b'"
    unfolding finish_block_def view log ix m' n c bind_ok_simps Let_def prod.case outcome.case a' ledger_view_def
    by (simp add: view)
  then show ?thesis using that by blast
qed

lemma apply_batch_sim:
  assumes "ledger_view a = ledger_view b" and "app_ok X a" and "app_ok X b" and "apply_batch_to_chain X a h batch True rec = (Ok v, a')"
  obtains b' where "apply_batch_to_chain X b h batch False v = (Ok v, b')" "ledger_view a' = ledger_view b'"
  using assms(4)
proof (rule apply_batch_OkE)
  fix receipts :: "Receipt list" and chain2 :: State
  let ?cov = "agg_coverage X a batch True rec"
  note view = ledger_viewD [OF assms(1)]
  assume p: "parent_check X (ha_chain a) (ha_last_app_hash a) batch h = Ok ()" and v: "v = (?cov \<noteq> None)"
    and run: "apply_block_verified X (case ?cov of Some c \<Rightarrow> set_block_coverage (ha_chain a) c | None \<Rightarrow> ha_chain a)
       h (ha_chain_start_time a + h) (batch_txs batch) (Some (map (verify_envelope X) (batch_txs batch))) = (Ok receipts, chain2)"
    and fin: "finish_block X (a\<lparr>ha_last_app_hash := None, ha_chain := chain2\<rparr>) h (batch_txs batch) receipts = Ok a'"
  have p': "parent_check X (ha_chain b) (ha_last_app_hash b) batch h = Ok ()"
    using p parent_check_cached [OF assms(2)] parent_check_cached [OF assms(3)] view(1) by metis
  have cov: "agg_coverage X b batch False v = ?cov" unfolding v by (rule recorded_coverage)
  have "ledger_view (a\<lparr>ha_last_app_hash := None, ha_chain := chain2\<rparr>) = ledger_view (b\<lparr>ha_last_app_hash := None, ha_chain := chain2\<rparr>)"
    by (simp add: ledger_view_def view)
  moreover have "indexed X (ha_mempool (b\<lparr>ha_last_app_hash := None, ha_chain := chain2\<rparr>))" using app_okD(3) [OF assms(3)] by simp
  ultimately obtain b' where b': "finish_block X (b\<lparr>ha_last_app_hash := None, ha_chain := chain2\<rparr>) h (batch_txs batch) receipts = Ok b'"
    "ledger_view a' = ledger_view b'" using fin by (rule finish_block_sim)
  have "apply_batch_to_chain X b h batch False v = (Ok v, b')"
    unfolding apply_batch_to_chain_def Let_def p' try_ro_simps par_bools_def cov
    unfolding view(1,11) run prod.case outcome.case b'(1) by (simp add: v)
  then show ?thesis using that b'(2) by blast
qed

lemma rotations_sim:
  assumes "ledger_view a = ledger_view b" and "rotations_loop X R rules r1 certs a any = (a', any')"
  obtains b' where "rotations_loop X R rules r2 certs b any = (b', any')" "ledger_view a' = ledger_view b'"
  using assms
proof (induction certs arbitrary: a b any thesis)
  case Nil
  then show ?case by simp
next
  case (Cons cert certs)
  note view = ledger_viewD [OF Cons.prems(2)]
  show ?case
  proof (cases "apply_rotation R (ha_validators a) cert rules")
    case (Ok new_set)
    let ?next = "\<lambda>a r. (if rc_root_pk cert = ha_my_root_pk a \<and> rc_epoch cert > ha_current_epoch a
          then if r then a\<lparr>ha_validators := new_set, ha_current_epoch := rc_epoch cert\<rparr>
               else a\<lparr>ha_validators := new_set, ha_current_epoch := rc_epoch cert, ha_op_handle := (op_seed X (ha_master_seed a) (rc_epoch cert), rc_epoch cert)\<rparr>
          else a\<lparr>ha_validators := new_set\<rparr>)\<lparr>ha_pending_rotations := retire cert (ha_pending_rotations a), ha_foreign_rotations := retire cert (ha_foreign_rotations a)\<rparr>"
    have step: "rotations_loop X R rules r (cert # certs) a any = rotations_loop X R rules r certs (?next a r) True"
      if "apply_rotation R (ha_validators a) cert rules = Ok new_set" for a r using that by (simp add: Let_def)
    have "ledger_view (?next a r1) = ledger_view (?next b r2)" by (simp add: ledger_view_def view)
    then obtain b' where "rotations_loop X R rules r2 certs (?next b r2) True = (b', any')" "ledger_view a' = ledger_view b'"
      using Cons.prems(3) step [OF Ok] by (metis Cons.IH)
    then show ?thesis using Cons.prems(1) step [of b r2] Ok view(7) by metis
  next
    case (Err e)
    then show ?thesis using Cons.prems view(7) by (auto elim: Cons.IH)
  next
    case Panic
    then show ?thesis using Cons.prems view(7) by (auto elim: Cons.IH)
  qed
qed

lemma apply_rotations_sim:
  assumes "ledger_view a = ledger_view b"
  shows "ledger_view (apply_rotations X R a h batch r1) = ledger_view (apply_rotations X R b h batch r2)"
proof -
  note view = ledger_viewD [OF assms]
  have rules: "rotation_rules b h = rotation_rules a h" by (simp add: rotation_rules_def view)
  let ?cs = "case batch of Some b \<Rightarrow> bt_rotations b | None \<Rightarrow> []"
  obtain a' any where a': "rotations_loop X R (rotation_rules a h) r1 ?cs a False = (a', any)" by fastforce
  obtain b' where b': "rotations_loop X R (rotation_rules a h) r2 ?cs b False = (b', any)" "ledger_view a' = ledger_view b'"
    by (rule rotations_sim [OF assms a'])
  show ?thesis using ledger_viewD [OF b'(2)] unfolding apply_rotations_def rules a' b'(1) by (simp add: ledger_view_def)
qed

lemma set_changes_sim:
  "ledger_view a = ledger_view b \<Longrightarrow> set_changes_loop R h certs a any = Ok (a', any') \<Longrightarrow>
   \<exists>b'. set_changes_loop R h certs b any = Ok (b', any') \<and> ledger_view a' = ledger_view b'"
proof (induction certs arbitrary: a b any)
  case (Cons cert certs)
  note view = ledger_viewD [OF Cons.prems(1)]
  let ?ret = "\<lambda>a. a\<lparr>ha_pending_set_changes := filter (\<lambda>q. sc_body q \<noteq> sc_body cert) (ha_pending_set_changes a)\<rparr>"
  have same: "ledger_view (?ret a) = ledger_view (?ret b)" "ledger_view (?ret (a\<lparr>ha_validators := vs\<rparr>)) = ledger_view (?ret (b\<lparr>ha_validators := vs\<rparr>))" for vs
    by (simp_all add: ledger_view_def view)
  have skip: ?case if "set_changes_loop R h (cert # certs) a any = set_changes_loop R h certs (?ret a) any"
    "set_changes_loop R h (cert # certs) b any = set_changes_loop R h certs (?ret b) any"
    using Cons.IH [OF same(1), of any] Cons.prems(2) that by (simp only:)
  have taken: ?case if "set_changes_loop R h (cert # certs) a any = set_changes_loop R h certs (?ret (a\<lparr>ha_validators := vs\<rparr>)) True"
    "set_changes_loop R h (cert # certs) b any = set_changes_loop R h certs (?ret (b\<lparr>ha_validators := vs\<rparr>)) True" for vs
    using Cons.IH [OF same(2), of vs True] Cons.prems(2) that by (simp only:)
  show ?case
  proof (cases "apply_set_change R (ha_validators a) cert h (ha_chain_id a)")
    case (Ok r)
    show ?thesis
    proof (cases r)
      case None
      then show ?thesis by (intro skip) (use Ok view in \<open>simp_all add: Let_def\<close>)
    next
      case (Some vs)
      then show ?thesis by (intro taken [of vs]) (use Ok view in \<open>simp_all add: Let_def\<close>)
    qed
  next
    case (Err e)
    then show ?thesis by (intro skip) (use view in \<open>simp_all add: Let_def\<close>)
  next
    case Panic
    then show ?thesis using Cons.prems(2) by (simp add: Let_def)
  qed
qed simp

lemma bootstrap_sim:
  assumes "ledger_view a = ledger_view b" and "apply_bootstrap X a h any = Ok (a', any')"
  shows "\<exists>b'. apply_bootstrap X b h any = Ok (b', any') \<and> ledger_view a' = ledger_view b'"
proof -
  note view = ledger_viewD [OF assms(1)]
  show ?thesis
    using assms unfolding apply_bootstrap_def view
    by (auto simp: ledger_view_def split: option.splits if_splits outcome.splits)
qed

lemma apply_set_changes_OkE:
  assumes "apply_set_changes X R a h batch = Ok a'"
  obtains a1 any1 a2 any2 where "set_changes_loop R h (case batch of Some b \<Rightarrow> bt_set_changes b | None \<Rightarrow> []) a False = Ok (a1, any1)"
    "apply_bootstrap X a1 h any1 = Ok (a2, any2)"
    "a' = (if any2 then a2\<lparr>ha_set_history := ha_set_history a2 @ [(h + 1, ha_validators a2)]\<rparr> else a2)"
  using assms unfolding apply_set_changes_def by (auto elim!: bind_ok_OkE)

lemma apply_set_changes_sim:
  assumes "ledger_view a = ledger_view b" and "apply_set_changes X R a h batch = Ok a'"
  shows "\<exists>b'. apply_set_changes X R b h batch = Ok b' \<and> ledger_view a' = ledger_view b'"
proof -
  let ?cs = "case batch of Some b \<Rightarrow> bt_set_changes b | None \<Rightarrow> []"
  from assms(2) obtain a1 any1 a2 any2 where s1: "set_changes_loop R h ?cs a False = Ok (a1, any1)" and s2: "apply_bootstrap X a1 h any1 = Ok (a2, any2)"
    and a': "a' = (if any2 then a2\<lparr>ha_set_history := ha_set_history a2 @ [(h + 1, ha_validators a2)]\<rparr> else a2)"
    by (rule apply_set_changes_OkE)
  from set_changes_sim [OF assms(1) s1] obtain b1 where b1: "set_changes_loop R h ?cs b False = Ok (b1, any1)" "ledger_view a1 = ledger_view b1" by blast
  from bootstrap_sim [OF b1(2) s2] obtain b2 where b2: "apply_bootstrap X b1 h any1 = Ok (b2, any2)" "ledger_view a2 = ledger_view b2" by blast
  show ?thesis
    unfolding apply_set_changes_def b1(1) b2(1) a' bind_ok_simps prod.case
    using ledger_viewD [OF b2(2)] by (simp add: ledger_view_def)
qed

text \<open>Rotations and set changes touch neither the ledger nor the pool.\<close>

lemma app_ok_cong:
  "app_ok X a \<Longrightarrow> ha_chain b = ha_chain a \<Longrightarrow> ha_mempool b = ha_mempool a \<Longrightarrow> ha_last_app_hash b = ha_last_app_hash a \<Longrightarrow>
   set (ha_undecided b) \<subseteq> set (ha_undecided a) \<Longrightarrow> app_ok X b"
  unfolding app_ok_def by (simp add: subset_eq) blast

lemma rotations_loop_frame:
  assumes "rotations_loop X R rules r certs a any = (a', any')"
  shows "ha_chain a' = ha_chain a \<and> ha_mempool a' = ha_mempool a \<and> ha_last_app_hash a' = ha_last_app_hash a \<and> ha_undecided a' = ha_undecided a"
  using assms
proof (induction certs arbitrary: a any)
  case (Cons cert certs)
  then show ?case
    by (cases "apply_rotation R (ha_validators a) cert rules") (auto simp: Let_def dest!: Cons.IH split: if_splits)
qed simp

lemma apply_rotations_ok: "app_ok X a \<Longrightarrow> app_ok X (apply_rotations Y R a h batch r)"
  using rotations_loop_frame [of Y R "rotation_rules a h" r "case batch of Some b \<Rightarrow> bt_rotations b | None \<Rightarrow> []" a False]
  by (auto simp: apply_rotations_def intro: app_ok_cong split: prod.split)

lemma set_changes_frame:
  "set_changes_loop R h certs a any = Ok (a', any') \<Longrightarrow>
   ha_chain a' = ha_chain a \<and> ha_mempool a' = ha_mempool a \<and> ha_last_app_hash a' = ha_last_app_hash a \<and> ha_undecided a' = ha_undecided a"
proof (induction certs arbitrary: a any)
  case (Cons cert certs)
  show ?case
  proof (cases "apply_set_change R (ha_validators a) cert h (ha_chain_id a)")
    case (Ok r)
    then show ?thesis using Cons.prems by (cases r) (auto simp: Let_def dest!: Cons.IH)
  qed (use Cons.prems in \<open>auto simp: Let_def dest!: Cons.IH\<close>)
qed simp

lemma bootstrap_frame:
  "apply_bootstrap X a h any = Ok (a', any') \<Longrightarrow>
   ha_chain a' = ha_chain a \<and> ha_mempool a' = ha_mempool a \<and> ha_last_app_hash a' = ha_last_app_hash a \<and> ha_undecided a' = ha_undecided a"
  by (auto simp: apply_bootstrap_def split: option.splits if_splits outcome.splits)

lemma apply_set_changes_ok: "app_ok X a \<Longrightarrow> apply_set_changes Y R a h batch = Ok a' \<Longrightarrow> app_ok X a'"
  by (elim apply_set_changes_OkE; drule set_changes_frame; drule bootstrap_frame) (auto intro: app_ok_cong)

lemma execute_decided_OkE:
  assumes "execute_decided X R a h bs live rec = (Ok v, a')"
  obtains a1 where "apply_batch_to_chain X a h (batch_decode X bs) live rec = (Ok v, a1)"
    "apply_set_changes X R (apply_rotations X R a1 h (batch_decode X bs) (\<not> live)) h (batch_decode X bs) = Ok a'"
  using assms unfolding execute_decided_def Let_def by (elim try_rw_OkE) (auto split: outcome.splits)

lemma execute_decided_ok:
  assumes "app_ok X a" and "execute_decided X R a h bs live rec = (Ok v, a')"
  shows "app_ok X a'" "h = st_height (ha_chain a) + 1"
proof -
  from assms(2) obtain a1 where a1: "apply_batch_to_chain X a h (batch_decode X bs) live rec = (Ok v, a1)"
    "apply_set_changes X R (apply_rotations X R a1 h (batch_decode X bs) (\<not> live)) h (batch_decode X bs) = Ok a'"
    by (rule execute_decided_OkE)
  obtain receipts where r: "exec_block X (ha_chain a) (block_of X a h (batch_decode X bs) live rec) = (Ok receipts, ha_chain a1)" "app_ok X a1"
    by (rule apply_batch_executes [OF assms(1) a1(1)])
  show "app_ok X a'" by (rule apply_set_changes_ok [OF apply_rotations_ok [OF r(2)] a1(2)])
  show "h = st_height (ha_chain a) + 1"
    using exec_block_result(4) [OF app_okD(1) [OF assms(1)] r(1)] by (simp add: block_of_def)
qed

lemma execute_decided_sim:
  assumes "ledger_view a = ledger_view b" and "app_ok X a" and "app_ok X b" and "execute_decided X R a h bs True rec = (Ok v, a')"
  obtains b' where "execute_decided X R b h bs False v = (Ok v, b')" "ledger_view a' = ledger_view b'"
  using assms(4)
proof (rule execute_decided_OkE)
  fix a1
  let ?batch = "batch_decode X bs"
  assume a1: "apply_batch_to_chain X a h ?batch True rec = (Ok v, a1)"
    and a': "apply_set_changes X R (apply_rotations X R a1 h ?batch (\<not> True)) h ?batch = Ok a'"
  obtain b1 where b1: "apply_batch_to_chain X b h ?batch False v = (Ok v, b1)" "ledger_view a1 = ledger_view b1"
    by (rule apply_batch_sim [OF assms(1-3) a1])
  from apply_set_changes_sim [OF apply_rotations_sim [OF b1(2)] a'] obtain b'
    where "apply_set_changes X R (apply_rotations X R b1 h ?batch (\<not> False)) h ?batch = Ok b'" "ledger_view a' = ledger_view b'" by blast
  then show ?thesis using that b1(1) by (simp add: execute_decided_def)
qed

lemma find_SomeD: "find P xs = Some x \<Longrightarrow> P x \<and> x \<in> set xs"
  by (auto simp: find_Some_iff)

lemma lookup_decided_Some:
  assumes "lookup_decided a h i = Some v" and "app_ok X a"
  shows "hv_id v = i" "v = value_new X (hv_txs v)"
proof -
  from assms(1) obtain p where p: "find (\<lambda>v. hv_id (pv_value v) = i) (concat (map snd (filter (\<lambda>((h', _), _). h' = h) (ha_undecided a)))) = Some p" "v = pv_value p"
    by (auto simp: lookup_decided_def)
  from p(1) have "hv_id (pv_value p) = i" "p \<in> set (concat (map snd (filter (\<lambda>((h', _), _). h' = h) (ha_undecided a))))"
    using find_SomeD by fastforce+
  then show "hv_id v = i" "v = value_new X (hv_txs v)" using assms(2) p(2) by (auto simp: app_ok_def)
qed

lemma commit_OkE:
  assumes "commit X R a cert cap left stale = (Ok v, a')"
  obtains val a1 where "lookup_decided a (cc_height cert) (cc_value_id cert) = Some val"
    "execute_decided X R a (cc_height cert) (hv_txs val) True False = (Ok v, a1)" "ledger_view a' = ledger_view a1"
    "app_ok X a1 \<Longrightarrow> app_ok X a'"
proof -
  from assms obtain val a1 where c: "lookup_decided a (cc_height cert) (cc_value_id cert) = Some val"
    "execute_decided X R a (cc_height cert) (hv_txs val) True False = (Ok v, a1)"
    "a' = issue_rotation X R (a1\<lparr>ha_decided := trim_decided (decided_window X) (bmap_insert (ha_decided a1) (cc_height cert) \<lparr>de_value = val, de_certificate = cert\<rparr>),
        ha_undecided := filter (\<lambda>((h, _), _). h > cc_height cert) (ha_undecided a1), ha_current_height := cc_height cert + 1\<rparr>) (cc_height cert) cap left stale"
    unfolding commit_def Let_def by (auto elim!: try_ro_OkE try_rw_OkE)
  show ?thesis
  proof (rule that [OF c(1,2)])
    show "ledger_view a' = ledger_view a1" by (simp add: c(3) issue_rotation_def ledger_view_def Let_def split: prod.split)
    show "app_ok X a1 \<Longrightarrow> app_ok X a'"
      by (erule app_ok_cong) (auto simp: c(3) issue_rotation_def Let_def split: prod.splits if_splits)
  qed
qed

section \<open>Running and restarting\<close>

text \<open>A node that ran from \<open>a0\<close>: between commits it may admit, propose, gossip and sign, which leaves the
  ledger's view alone; every commit appends its block to the log.\<close>

inductive live_run :: "'x app_env_scheme \<Rightarrow> 'r root_env_scheme \<Rightarrow> HkApp \<Rightarrow> StoredBlock list \<Rightarrow> HkApp \<Rightarrow> bool" for X R a0 where
  start: "live_run X R a0 [] a0"
| elsewhere: "live_run X R a0 log a \<Longrightarrow> ledger_view b = ledger_view a \<Longrightarrow> app_ok X b \<Longrightarrow> live_run X R a0 log b"
| committed: "live_run X R a0 log a \<Longrightarrow> lookup_decided a (cc_height cert) (cc_value_id cert) = Some val \<Longrightarrow>
    commit X R a cert cap left stale = (Ok v, a') \<Longrightarrow>
    live_run X R a0 (log @ [\<lparr>sb_height = cc_height cert, sb_value_bytes = hv_txs val, sb_certificate = cert, sb_agg_valid = v\<rparr>]) a'"

lemma live_run_ok: "live_run X R a0 log a \<Longrightarrow> app_ok X a0 \<Longrightarrow> app_ok X a"
proof (induction rule: live_run.induct)
  case (committed log a cert val cap left stale v a')
  from committed.hyps(3) show ?case
    by (rule commit_OkE) (use execute_decided_ok(1) committed in blast)
qed

lemma replay_step:
  assumes "ledger_view a = ledger_view b" and "app_ok X a" and "app_ok X b" and "lookup_decided a (cc_height cert) (cc_value_id cert) = Some val"
    and "commit X R a cert cap left stale = (Ok v, a')"
  obtains b' where "\<forall>rest. replay_loop X R (\<lparr>sb_height = cc_height cert, sb_value_bytes = hv_txs val, sb_certificate = cert, sb_agg_valid = v\<rparr> # rest) b = replay_loop X R rest b'"
    "ledger_view a' = ledger_view b'" "app_ok X b'"
  using assms(5)
proof (rule commit_OkE)
  fix val2 a1
  let ?h = "cc_height cert"
  assume l: "lookup_decided a ?h (cc_value_id cert) = Some val2" and e: "execute_decided X R a ?h (hv_txs val2) True False = (Ok v, a1)"
    and va: "ledger_view a' = ledger_view a1"
  have val: "val2 = val" using l assms(4) by simp
  obtain b1 where b1: "execute_decided X R b ?h (hv_txs val) False v = (Ok v, b1)" "ledger_view a1 = ledger_view b1"
    by (rule execute_decided_sim [OF assms(1-3) e [unfolded val]])
  have h: "?h = st_height (ha_chain b) + 1" by (rule execute_decided_ok(2) [OF assms(3) b1(1)])
  have id: "cc_value_id cert = hv_id (value_new X (hv_txs val))" using lookup_decided_Some [OF assms(4,2)] by metis
  have txs: "hv_txs (value_new X (hv_txs val)) = hv_txs val" by (simp add: value_new_def)
  let ?b' = "b1\<lparr>ha_decided := bmap_insert (ha_decided b1) ?h \<lparr>de_value = value_new X (hv_txs val), de_certificate = cert\<rparr>\<rparr>"
  show ?thesis
  proof (rule that [of ?b'])
    show "\<forall>rest. replay_loop X R (\<lparr>sb_height = ?h, sb_value_bytes = hv_txs val, sb_certificate = cert, sb_agg_valid = v\<rparr> # rest) b = replay_loop X R rest ?b'"
      using h id b1(1) by (simp add: certificate_value_mismatch_def txs Let_def)
    show "ledger_view a' = ledger_view ?b'" using va b1(2) by (simp add: ledger_view_def)
    show "app_ok X ?b'" using execute_decided_ok(1) [OF assms(3) b1(1)] by (rule app_ok_cong) simp_all
  qed
qed

lemma replay_run:
  assumes "live_run X R a0 log a" and "app_ok X a0" and "app_ok X b0" and "ledger_view a0 = ledger_view b0"
  shows "\<exists>b. (\<forall>rest. replay_loop X R (log @ rest) b0 = replay_loop X R rest b) \<and> ledger_view a = ledger_view b \<and> app_ok X b"
  using assms
proof (induction rule: live_run.induct)
  case start
  then show ?case by auto
next
  case (elsewhere log a b)
  then show ?case by metis
next
  case (committed log a cert val cap left stale v a')
  then obtain b where b: "\<And>rest. replay_loop X R (log @ rest) b0 = replay_loop X R rest b" "ledger_view a = ledger_view b" "app_ok X b" by blast
  have ok: "app_ok X a" by (rule live_run_ok [OF committed.hyps(1) committed.prems(1)])
  obtain b' where "\<forall>rest. replay_loop X R (\<lparr>sb_height = cc_height cert, sb_value_bytes = hv_txs val, sb_certificate = cert, sb_agg_valid = v\<rparr> # rest) b = replay_loop X R rest b'"
    "ledger_view a' = ledger_view b'" "app_ok X b'"
    by (rule replay_step [OF b(2) ok b(3) committed.hyps(2,3)])
  then show ?case using b(1) by (intro exI [of _ b']) simp
qed

section \<open>The set history\<close>

text \<open>One step of the history: either nothing changed, or the new set was appended from the next height on.\<close>

definition hist_step :: "u64 \<Rightarrow> HkApp \<Rightarrow> HkApp \<Rightarrow> bool" where
  "hist_step h a a' \<longleftrightarrow> (ha_set_history a' = ha_set_history a \<and> ha_validators a' = ha_validators a)
     \<or> ha_set_history a' = ha_set_history a @ [(h + 1, ha_validators a')]"

lemma rotations_loop_sets:
  "rotations_loop X R rules r certs a any = (a', any') \<Longrightarrow>
   ha_set_history a' = ha_set_history a \<and> (any \<longrightarrow> any') \<and> (any' \<or> ha_validators a' = ha_validators a)"
proof (induction certs arbitrary: a any)
  case (Cons cert certs)
  show ?case
  proof (cases "apply_rotation R (ha_validators a) cert rules")
    case (Ok new_set)
    then obtain n where "rotations_loop X R rules r certs n True = (a', any')" "ha_set_history n = ha_set_history a"
      using Cons.prems by (simp add: Let_def split: if_splits)
    then show ?thesis using Cons.IH [of n True] by simp
  qed (use Cons.prems Cons.IH in auto)
qed simp

lemma apply_rotations_hist: "hist_step h a (apply_rotations X R a h batch r)"
proof -
  obtain a' any where l: "rotations_loop X R (rotation_rules a h) r (case batch of Some b \<Rightarrow> bt_rotations b | None \<Rightarrow> []) a False = (a', any)" by fastforce
  show ?thesis using rotations_loop_sets [OF l] unfolding apply_rotations_def l by (cases any) (simp_all add: hist_step_def)
qed

lemma set_changes_sets:
  "set_changes_loop R h certs a any = Ok (a', any') \<Longrightarrow>
   ha_set_history a' = ha_set_history a \<and> (any \<longrightarrow> any') \<and> (any' \<or> ha_validators a' = ha_validators a)"
proof (induction certs arbitrary: a any)
  case (Cons cert certs)
  show ?case
  proof (cases "apply_set_change R (ha_validators a) cert h (ha_chain_id a)")
    case (Ok r)
    then show ?thesis using Cons.prems by (cases r) (auto simp: Let_def dest!: Cons.IH)
  qed (use Cons.prems in \<open>auto simp: Let_def dest!: Cons.IH\<close>)
qed simp

lemma apply_set_changes_hist: "apply_set_changes X R a h batch = Ok a' \<Longrightarrow> hist_step h a a'"
proof (erule apply_set_changes_OkE)
  fix a1 any1 a2 any2
  assume s1: "set_changes_loop R h (case batch of Some b \<Rightarrow> bt_set_changes b | None \<Rightarrow> []) a False = Ok (a1, any1)"
    and s2: "apply_bootstrap X a1 h any1 = Ok (a2, any2)"
    and a': "a' = (if any2 then a2\<lparr>ha_set_history := ha_set_history a2 @ [(h + 1, ha_validators a2)]\<rparr> else a2)"
  have "ha_set_history a2 = ha_set_history a1 \<and> (any1 \<longrightarrow> any2) \<and> (any2 \<or> ha_validators a2 = ha_validators a1)"
    using s2 by (auto simp: apply_bootstrap_def split: option.splits if_splits outcome.splits)
  then show ?thesis using set_changes_sets [OF s1] by (auto simp: hist_step_def a')
qed

definition hist_ok :: "HkApp \<Rightarrow> bool" where
  "hist_ok a \<longleftrightarrow> ha_set_history a \<noteq> [] \<and> snd (last (ha_set_history a)) = ha_validators a
     \<and> (\<forall>(from, _) \<in> set (ha_set_history a). from \<le> st_height (ha_chain a) + 1)"

lemma find_append: "find P (xs @ ys) = (case find P xs of None \<Rightarrow> find P ys | Some x \<Rightarrow> Some x)"
  by (induction xs) auto

lemma set_at_past:
  assumes "\<forall>(from, _) \<in> set entries. k < from"
  shows "validator_set_at (Some (hist @ entries)) k = validator_set_at (Some hist) k"
proof -
  have "find (\<lambda>(from, _). from \<le> k) (rev entries) = None" using assms by (auto simp: find_None_iff not_le)
  then show ?thesis by (simp add: validator_set_at_def find_append)
qed

lemma set_at_last: "hist \<noteq> [] \<Longrightarrow> fst (last hist) \<le> k \<Longrightarrow> validator_set_at (Some hist) k = Some (snd (last hist))"
  by (cases hist rule: rev_cases) (auto simp: validator_set_at_def)

lemma execute_decided_hist:
  assumes "hist_ok a" and "execute_decided X R a h bs live rec = (Ok v, a')"
  obtains entries where "ha_set_history a' = ha_set_history a @ entries" "\<forall>(from, _) \<in> set entries. from = h + 1"
    "snd (last (ha_set_history a')) = ha_validators a'"
  using assms(2)
proof (rule execute_decided_OkE)
  fix a1
  let ?batch = "batch_decode X bs"
  assume a1: "apply_batch_to_chain X a h ?batch live rec = (Ok v, a1)"
    and a': "apply_set_changes X R (apply_rotations X R a1 h ?batch (\<not> live)) h ?batch = Ok a'"
  have "ha_set_history a1 = ha_set_history a" "ha_validators a1 = ha_validators a"
    using a1 by (auto elim!: apply_batch_OkE finish_block_OkE)
  then show ?thesis
    using that assms(1) apply_rotations_hist [of h a1 X R ?batch "\<not> live"] apply_set_changes_hist [OF a']
    unfolding hist_step_def hist_ok_def by auto
qed

lemma apply_rotations_chain: "ha_chain (apply_rotations X R a h batch r) = ha_chain a"
proof -
  obtain a' any where l: "rotations_loop X R (rotation_rules a h) r (case batch of Some b \<Rightarrow> bt_rotations b | None \<Rightarrow> []) a False = (a', any)" by fastforce
  show ?thesis using rotations_loop_frame [OF l] unfolding apply_rotations_def l by simp
qed

lemma apply_set_changes_chain: "apply_set_changes X R a h batch = Ok a' \<Longrightarrow> ha_chain a' = ha_chain a"
  by (elim apply_set_changes_OkE; drule set_changes_frame; drule bootstrap_frame) auto

lemma execute_decided_height:
  assumes "app_ok X a" and "execute_decided X R a h bs live rec = (Ok v, a')"
  shows "h = st_height (ha_chain a) + 1 \<and> st_height (ha_chain a') = h"
  using assms(2)
proof (rule execute_decided_OkE)
  fix a1
  let ?batch = "batch_decode X bs"
  assume a1: "apply_batch_to_chain X a h ?batch live rec = (Ok v, a1)"
    and a': "apply_set_changes X R (apply_rotations X R a1 h ?batch (\<not> live)) h ?batch = Ok a'"
  obtain receipts where r: "exec_block X (ha_chain a) (block_of X a h ?batch live rec) = (Ok receipts, ha_chain a1)" "app_ok X a1"
    by (rule apply_batch_executes [OF assms(1) a1])
  have "ha_chain a' = ha_chain a1" using apply_set_changes_chain [OF a'] by (simp add: apply_rotations_chain)
  then show ?thesis using exec_block_result(3,4) [OF app_okD(1) [OF assms(1)] r(1)] by (simp add: block_of_def)
qed

lemma exec_block_time: "exec_block X s b = (Ok receipts, s') \<Longrightarrow> st_time s \<le> bk_time b"
  by (simp add: exec_block_def apply_block_verified_def set_block_coverage_def not_less split: if_splits)

section \<open>Commits that refuse\<close>

text \<open>The JSON library encodes every transaction, mandate and channel.\<close>

definition encodable :: "'x node_env_scheme \<Rightarrow> bool" where
  "encodable X \<longleftrightarrow> (\<forall>t. json_signed X t \<noteq> None) \<and> (\<forall>n. json_mandate X n \<noteq> None) \<and> (\<forall>c. json_channel X c \<noteq> None)"

lemma commit_entries_Ok: "(\<And>v. enc v \<noteq> None) \<Longrightarrow> \<exists>bs. commit_entries enc m = Ok bs"
proof (induction m)
  case (Cons e m)
  obtain i v where e: "e = (i, v)" by (cases e)
  obtain b where "enc v = Some b" using Cons.prems by blast
  then show ?case using Cons.IH [OF Cons.prems] by (auto simp: e)
qed simp

lemma state_commitment_Ok: "encodable X \<Longrightarrow> \<exists>h. state_commitment X s = Ok h"
  using commit_entries_Ok [of "json_mandate X" "mt_nodes (st_mandates s)"] commit_entries_Ok [of "json_channel X" "st_channels s"]
  by (auto simp: encodable_def state_commitment_def commitment_bytes_def)

lemma record_receipts_Ok: "encodable X \<Longrightarrow> \<exists>log'. record_receipts X ps log = Ok log'"
proof (induction ps arbitrary: log)
  case (Cons p ps)
  then show ?case by (cases p) (simp add: encodable_def txid_encoded)
qed simp

lemma index_txs_Ok: "encodable X \<Longrightarrow> \<exists>r. index_txs_into X h n txs ti ai = Ok r"
proof (induction txs arbitrary: n ti ai)
  case (Cons tx txs)
  then show ?case by (simp add: encodable_def txid_encoded)
qed simp

lemma finish_block_total:
  assumes "encodable X" and "indexed X (ha_mempool a)"
  shows "\<exists>a'. finish_block X a h txs receipts = Ok a'"
proof -
  let ?inc = "map (\<lambda>(tx, r). (stx_sender tx, stx_nonce tx)) (zip txs receipts)"
  obtain log where log: "record_receipts X (zip txs receipts) (ha_receipts a) = (Ok log :: (_, NodeError) outcome)"
    using record_receipts_Ok [OF assms(1)] by blast
  obtain ti ai where ix: "index_txs_into X h 0 txs (ha_tx_index a) (ha_acct_index a) = (Ok (ti, ai) :: (_, NodeError) outcome)"
    using index_txs_Ok [OF assms(1)] by (metis surj_pair)
  obtain m where m: "(if ?inc \<noteq> [] then prune_pool X (ha_mempool a) ?inc else Ok (ha_mempool a)) = (Ok m :: (_, NodeError) outcome)"
    using prune_pool_Ok [OF assms(2), of ?inc] by metis
  obtain c where c: "state_commitment X (ha_chain a) = Ok c" using state_commitment_Ok [OF assms(1)] by blast
  obtain nts by_asset where n: "note_loop (ha_chain a) (zip txs receipts) (ha_pool_notes a) (ha_pool_notes_by_asset a) = (nts, by_asset)"
    by fastforce
  show ?thesis unfolding finish_block_def log ix m n c bind_ok_simps Let_def prod.case outcome.case by blast
qed

lemma apply_batch_not_Ok:
  assumes "encodable X" and "app_ok X a" and "apply_batch_to_chain X a h batch live rec = (r, a')" and "\<forall>v. r \<noteq> Ok v"
  shows "r = Err (AppHashDivergence h) \<and> a' = a\<lparr>ha_last_app_hash := None\<rparr> \<and> (\<exists>b. batch = Some b \<and> state_commitment X (ha_chain a) \<noteq> Ok (bt_parent_app_hash b))
     \<or> (\<exists>e c. (e = BadHeight \<or> e = TimeBackwards) \<and> r = Err (ApplyFailed e) \<and> a' = a\<lparr>ha_last_app_hash := None, ha_chain := (ha_chain a)\<lparr>st_agg_cover := c\<rparr>\<rparr>)"
proof -
  obtain own where own: "state_commitment X (ha_chain a) = Ok own" using state_commitment_Ok [OF assms(1)] by blast
  show ?thesis
  proof (cases "parent_check X (ha_chain a) (ha_last_app_hash a) batch h")
    case (Ok u)
    let ?cov = "agg_coverage X a batch live rec"
    let ?s1 = "case ?cov of Some c \<Rightarrow> set_block_coverage (ha_chain a) c | None \<Rightarrow> ha_chain a"
    let ?run = "apply_block_verified X ?s1 h (ha_chain_start_time a + h) (batch_txs batch) (Some (map (verify_envelope X) (batch_txs batch)))"
    have s1: "state_ok X ?s1" using app_okD(1) [OF assms(2)] by (cases ?cov) simp_all
    have s1c: "\<exists>c. ?s1 = (ha_chain a)\<lparr>st_agg_cover := c\<rparr>"
    proof (cases ?cov)
      case None
      then show ?thesis by (intro exI [of _ "st_agg_cover (ha_chain a)"]) simp
    qed (auto simp: set_block_coverage_def)
    from s1 show ?thesis
    proof (rule apply_block_verified_cases [of X ?s1 h "ha_chain_start_time a + h" "batch_txs batch" "Some (map (verify_envelope X) (batch_txs batch))"])
      fix e
      assume e: "?run = (Err e, ?s1)" "e = BadHeight \<or> e = TimeBackwards"
      have "r = Err (ApplyFailed e)" "a' = a\<lparr>ha_last_app_hash := None, ha_chain := ?s1\<rparr>"
        using assms(3) unfolding apply_batch_to_chain_def Let_def Ok try_ro_simps par_bools_def e(1) by simp_all
      then show ?thesis using e(2) s1c by auto
    next
      fix receipts s2
      assume run: "?run = (Ok receipts, end_block X (fold_steps (exec_tx X) (tx_inputs 0 (batch_txs batch) (Some (map (verify_envelope X) (batch_txs batch)))) s2))"
      obtain a2 where "finish_block X (a\<lparr>ha_last_app_hash := None, ha_chain := end_block X (fold_steps (exec_tx X)
          (tx_inputs 0 (batch_txs batch) (Some (map (verify_envelope X) (batch_txs batch)))) s2)\<rparr>) h (batch_txs batch) receipts = Ok a2"
        using finish_block_total [OF assms(1), of "a\<lparr>ha_last_app_hash := None, ha_chain := _\<rparr>"] app_okD(3) [OF assms(2)] by fastforce
      then have "\<exists>v. r = Ok v"
        using assms(3) unfolding apply_batch_to_chain_def Let_def Ok try_ro_simps par_bools_def run by auto
      then show ?thesis using assms(4) by blast
    qed
  next
    case (Err e)
    then have "e = AppHashDivergence h \<and> (\<exists>b. batch = Some b \<and> bt_parent_app_hash b \<noteq> own)"
      using own unfolding parent_check_cached [OF assms(2)] by (auto simp: parent_check_def split: option.splits if_splits)
    then show ?thesis using assms(3) own Err by (auto simp: apply_batch_to_chain_def Let_def)
  next
    case Panic
    then show ?thesis using own unfolding parent_check_cached [OF assms(2)] by (auto simp: parent_check_def split: option.splits if_splits)
  qed
qed

text \<open>A batch on top of the chain, with the right parent and a clock that does not run back, is committed.\<close>

lemma apply_block_verified_runs:
  assumes "state_ok X s" and "h = st_height s + 1" and "st_time s \<le> t" and "length v = length txs"
  shows "\<exists>receipts s'. apply_block_verified X s h t txs (Some v) = (Ok receipts, s')"
proof (rule apply_block_verified_cases [OF assms(1), of h t txs "Some v"])
  fix e assume e: "apply_block_verified X s h t txs (Some v) = (Err e, s)"
  have "state_ok X (s\<lparr>st_height := h, st_time := t\<rparr>)" using assms(1) by simp
  from apply_txs_run [OF this, of 0 txs "Some v" "[]"] obtain receipts s2 where
    "apply_txs X 0 txs (Some v) (s\<lparr>st_height := h, st_time := t\<rparr>) [] = (Ok receipts, s2)" by auto
  then show ?thesis using assms(2-4) by (simp add: apply_block_verified_def not_less [symmetric] is_some_and_def)
qed blast

lemma apply_batch_runs:
  assumes "encodable X" and "app_ok X a" and "h = st_height (ha_chain a) + 1" and "st_time (ha_chain a) \<le> ha_chain_start_time a + h"
    and "\<And>b. batch = Some b \<Longrightarrow> state_commitment X (ha_chain a) = Ok (bt_parent_app_hash b)"
  shows "\<exists>v a'. apply_batch_to_chain X a h batch live rec = (Ok v, a')"
proof -
  let ?cov = "agg_coverage X a batch live rec"
  let ?s1 = "case ?cov of Some c \<Rightarrow> set_block_coverage (ha_chain a) c | None \<Rightarrow> ha_chain a"
  have eq: "st_height ?s1 = st_height (ha_chain a)" "st_time ?s1 = st_time (ha_chain a)"
    by (simp_all add: set_block_coverage_def split: option.split)
  have ok: "state_ok X ?s1" using app_okD(1) [OF assms(2)] by (simp split: option.split)
  note s1 = ok assms(3) [folded eq] assms(4) [folded eq]
  from apply_block_verified_runs [OF s1, of "map (verify_envelope X) (batch_txs batch)" "batch_txs batch"] obtain receipts chain2 where
    run: "apply_block_verified X ?s1 h (ha_chain_start_time a + h) (batch_txs batch) (Some (map (verify_envelope X) (batch_txs batch))) = (Ok receipts, chain2)"
    by auto
  have p: "parent_check X (ha_chain a) (ha_last_app_hash a) batch h = Ok ()"
    unfolding parent_check_cached [OF assms(2)] using assms(5) by (cases batch) (simp_all add: parent_check_def)
  obtain a2 where "finish_block X (a\<lparr>ha_last_app_hash := None, ha_chain := chain2\<rparr>) h (batch_txs batch) receipts = Ok a2"
    using finish_block_total [OF assms(1), of "a\<lparr>ha_last_app_hash := None, ha_chain := chain2\<rparr>"] app_okD(3) [OF assms(2)] by fastforce
  then show ?thesis unfolding apply_batch_to_chain_def Let_def p try_ro_simps par_bools_def run by simp
qed

section \<open>A small node\<close>

definition sample_app_env :: app_env where
  "sample_app_env = \<lparr>xof256 = \<lambda>_ n. replicate n 0, sha256 = \<lambda>_. 0, json_tx = \<lambda>_. Some [], json_mandate = \<lambda>_. Some [],
     json_channel = \<lambda>_. Some [], bincode_spend = \<lambda>_. Some [], bincode_mint = \<lambda>_. Some [],
     json_signed = \<lambda>_. Some [], hk_mempool_cap = None, hk_nonce_window = None,
     ser_batch_v1 = \<lambda>_. None, de_batch_v1 = \<lambda>_. Some \<lparr>b1_parent_app_hash = 0, b1_txs = [sample_tx], b1_rotations = [], b1_agg_proof = []\<rparr>,
     ser_batch = \<lambda>_. None, de_batch = \<lambda>_. None, op_public = \<lambda>_. [], hk_g1_height = None, hk_g1_power = None, hk_decided_window = None\<rparr>"

definition sample_app_batch :: Batch where
  "sample_app_batch = \<lparr>bt_parent_app_hash = 0, bt_txs = [sample_tx], bt_rotations = [], bt_agg_proof = [], bt_set_changes = []\<rparr>"

definition sample_app_genesis :: Genesis where
  "sample_app_genesis = \<lparr>g_time = 0, g_accounts = [], g_alloc = [], g_fee = None, g_assets = []\<rparr>"

definition sample_app_state :: State where
  "sample_app_state = (state_default sample_app_env)\<lparr>st_pool := seal_anchor sample_app_env (pool_default sample_app_env)\<rparr>"

definition sample_app :: HkApp where
  "sample_app = \<lparr>ha_address = 0, ha_validators = sample_vset, ha_chain = sample_app_state, ha_mempool = mempool_new 5, ha_receipts = rlog_new 5,
     ha_pool_notes = [], ha_pool_notes_by_asset = [], ha_bundles = [], ha_agg = None, ha_chain_id = ''hk'', ha_chain_start_time = 0,
     ha_rotation_v2_from = 0, ha_current_height = 1,
     ha_undecided = [((1, 0), [\<lparr>pv_height = 1, pv_round = RoundSome 0, pv_valid_round = RoundNil, pv_proposer = 0, pv_value = \<lparr>hv_id = 0, hv_txs = [1]\<rparr>, pv_valid = True\<rparr>])],
     ha_decided = [], ha_master_seed = 0, ha_root = \<lparr>rs_sk = [], rs_pk = []\<rparr>, ha_my_root_pk = [], ha_genesis_roots = [], ha_current_epoch = 0,
     ha_highest_issued_epoch = 0, ha_op_handle = (0, 0), ha_rotate_every = None, ha_pending_rotations = [], ha_foreign_rotations = [],
     ha_pending_set_changes = [], ha_tx_index = Map.empty, ha_acct_index = Map.empty, ha_set_history = [(1, sample_vset)], ha_last_app_hash = None\<rparr>"

definition sample_commit :: CommitCertificate where
  "sample_commit = \<lparr>cc_height = 1, cc_round = RoundSome 0, cc_value_id = 0, cc_signatures = []\<rparr>"

lemma be_value_zeros: "be_value (replicate n 0) = 0"
proof -
  have "le_value (replicate n 0) = 0" by (induction n) auto
  then show ?thesis by (simp add: be_value_def)
qed

lemma sample_app_hash [simp]: "shake256_32 sample_app_env d ps = 0"
  by (simp add: shake256_32_def sample_app_env_def h256_of_bytes_def be_value_zeros)

lemma sample_app_encodable: "encodable sample_app_env"
  by (simp add: encodable_def sample_app_env_def)

lemma sample_app_commitment: "state_commitment sample_app_env s = Ok 0"
  using state_commitment_Ok [OF sample_app_encodable, of s] by (auto simp: state_commitment_def elim!: bind_ok_OkE)

lemma sample_app_genesis_runs: "from_genesis sample_app_env sample_app_genesis = Ok sample_app_state"
  by (simp add: from_genesis_def sample_app_genesis_def sample_app_state_def state_default_def Let_def)

lemma sample_app_state_ok: "state_ok sample_app_env sample_app_state"
  using chain_state_ok [OF chain_state.genesis [OF sample_app_genesis_runs]]
  by (simp add: sample_app_genesis_def alloc_total_def)

lemma sample_app_state_fields: "st_agg_cover sample_app_state = []" "st_height sample_app_state = 0" "st_time sample_app_state = 0"
  by (simp_all add: sample_app_state_def state_default_def)

lemma sample_app_ok: "app_ok sample_app_env sample_app"
  by (simp add: app_ok_def sample_app_def sample_app_state_ok sample_app_state_fields indexed_new value_new_def)

lemma sample_app_hist: "hist_ok sample_app"
  by (simp add: hist_ok_def sample_app_def sample_app_state_fields)

lemma sample_decode: "batch_decode sample_app_env [1] = Some sample_app_batch"
  by (simp add: batch_decode_def strip_prefix_def BATCH_V2_MAGIC_def str_bytes_def sample_app_env_def sample_app_batch_def)

lemma sample_apply: "\<exists>v a'. apply_batch_to_chain sample_app_env sample_app 1 (Some sample_app_batch) True False = (Ok v, a')"
proof (rule apply_batch_runs [OF sample_app_encodable sample_app_ok])
  show "st_time (ha_chain sample_app) \<le> ha_chain_start_time sample_app + 1" "(1::u64) = st_height (ha_chain sample_app) + 1"
    by (simp_all add: sample_app_def sample_app_state_fields)
qed (simp add: sample_app_commitment sample_app_batch_def)

lemma sample_execute: "\<exists>v a'. execute_decided sample_app_env sample_root_env sample_app 1 [1] True False = (Ok v, a') \<and> ha_validators a' = sample_vset"
proof -
  from sample_apply obtain v a1 where a1: "apply_batch_to_chain sample_app_env sample_app 1 (Some sample_app_batch) True False = (Ok v, a1)" by blast
  then have f: "ha_chain_id a1 = ''hk''" "ha_validators a1 = sample_vset"
    by (auto elim!: apply_batch_OkE finish_block_OkE simp: sample_app_def)
  have rot: "apply_rotations sample_app_env sample_root_env a1 1 (Some sample_app_batch) False = a1"
    by (simp add: apply_rotations_def sample_app_batch_def)
  have none: "bootstrap_from ''hk'' (hk_g1_height sample_app_env) (hk_g1_power sample_app_env) = None"
    by (simp add: bootstrap_from_def TESTNET1_def sample_app_env_def)
  have "apply_set_changes sample_app_env sample_root_env a1 1 (Some sample_app_batch) = Ok a1"
    by (simp add: apply_set_changes_def sample_app_batch_def apply_bootstrap_def f none)
  then show ?thesis by (simp add: execute_decided_def sample_decode a1 rot f)
qed

lemma sample_lookup: "lookup_decided sample_app 1 0 = Some \<lparr>hv_id = 0, hv_txs = [1]\<rparr>"
  by (simp add: lookup_decided_def sample_app_def)

lemma sample_commits: "\<exists>v a'. commit sample_app_env sample_root_env sample_app sample_commit 10 10 False = (Ok v, a')"
  using sample_execute by (auto simp: commit_def sample_commit_def sample_lookup Let_def)

section \<open>The node's guarantees\<close>

text \<open>C4: Committing a decided batch either runs exactly the block it stands for on the state machine, or refuses.
  It commits if and only if the batch names the commitment of the node's own state as its parent, is
  the next height and does not turn the clock back. Then the ledger is the result of that block (with one verdict per
  transaction and the aggregate's coverage), the invariant holds again, and the pool has lost exactly
  the transactions whose sender and nonce the block included. A refused batch is reported as a divergence, a bad height or a clock running
  backwards, and of the ledger only the coverage of the aborted block may differ. It never panics.\<close>

theorem batch_commits_block:
  assumes "encodable X" and "app_ok X a" and "apply_batch_to_chain X a h batch live rec = (r, a')"
  defines "due \<equiv> h = st_height (ha_chain a) + 1 \<and> st_time (ha_chain a) \<le> ha_chain_start_time a + h
     \<and> (\<forall>b. batch = Some b \<longrightarrow> state_commitment X (ha_chain a) = Ok (bt_parent_app_hash b))"
  shows "due \<and> (\<exists>receipts. r = Ok (agg_coverage X a batch live rec \<noteq> None)
            \<and> exec_block X (ha_chain a) (block_of X a h batch live rec) = (Ok receipts, ha_chain a') \<and> app_ok X a'
            \<and> mp_q (ha_mempool a') = filter (\<lambda>t. slot_of t \<notin> slot_of ` set (batch_txs batch)) (mp_q (ha_mempool a)))
       \<or> \<not> due \<and> (\<exists>e c. r = Err e \<and> e \<in> {AppHashDivergence h, ApplyFailed BadHeight, ApplyFailed TimeBackwards}
            \<and> ha_chain a' = (ha_chain a)\<lparr>st_agg_cover := c\<rparr>)"
proof (cases "\<exists>v. r = Ok v")
  case True
  then obtain v where v: "apply_batch_to_chain X a h batch live rec = (Ok v, a')" using assms(3) by blast
  from apply_batch_executes [OF assms(2) v] obtain receipts where
    ex: "exec_block X (ha_chain a) (block_of X a h batch live rec) = (Ok receipts, ha_chain a')" "app_ok X a'"
    "mp_q (ha_mempool a') = filter (\<lambda>t. slot_of t \<notin> slot_of ` set (batch_txs batch)) (mp_q (ha_mempool a))"
    "parent_check X (ha_chain a) None batch h = Ok ()" "v = (agg_coverage X a batch live rec \<noteq> None)" by blast
  have "st_time (ha_chain a) \<le> ha_chain_start_time a + h"
    using exec_block_time [OF ex(1)] by (simp add: block_of_def)
  moreover have "h = st_height (ha_chain a) + 1" using exec_block_result(4) [OF app_okD(1) [OF assms(2)] ex(1)] by (simp add: block_of_def)
  ultimately have due unfolding due_def using parent_check_Ok ex(4) by blast
  then show ?thesis using ex v assms(3) by auto
next
  case False
  then have n: "\<forall>v. r \<noteq> Ok v" by blast
  have "\<not> due"
  proof
    assume due
    then obtain v a2 where "apply_batch_to_chain X a h batch live rec = (Ok v, a2)"
      using apply_batch_runs [OF assms(1,2), of h batch live rec] unfolding due_def by blast
    then show False using assms(3) n by auto
  qed
  moreover have "\<exists>e c. r = Err e \<and> e \<in> {AppHashDivergence h, ApplyFailed BadHeight, ApplyFailed TimeBackwards}
            \<and> ha_chain a' = (ha_chain a)\<lparr>st_agg_cover := c\<rparr>"
    using apply_batch_not_Ok [OF assms(1-3) n]
  proof (elim disjE conjE exE)
    assume "r = Err (AppHashDivergence h)" "a' = a\<lparr>ha_last_app_hash := None\<rparr>"
    then show ?thesis by (intro exI [of _ "AppHashDivergence h"] exI [of _ "st_agg_cover (ha_chain a)"]) simp
  qed auto
  ultimately show ?thesis by blast
qed

theorem batch_commits_block_witness:
  "\<exists>receipts a'. apply_batch_to_chain sample_app_env sample_app 1 (Some sample_app_batch) True False = (Ok False, a') \<and> app_ok sample_app_env a'
     \<and> exec_block sample_app_env sample_app_state (block_of sample_app_env sample_app 1 (Some sample_app_batch) True False) = (Ok receipts, ha_chain a')"
proof -
  obtain v a' where v: "apply_batch_to_chain sample_app_env sample_app 1 (Some sample_app_batch) True False = (Ok v, a')" using sample_apply by blast
  have "agg_coverage sample_app_env sample_app (Some sample_app_batch) True False = None" "ha_chain sample_app = sample_app_state"
    by (simp_all add: agg_coverage_def sample_app_batch_def sample_app_def)
  then show ?thesis using batch_commits_block [OF sample_app_encodable sample_app_ok v] v by auto
qed

text \<open>C5: A restart resumes the same chain. However a node came to commit a sequence of blocks, with any other activity of
  its pool, proposals and timers in between, replaying those blocks from the log on any node that started from the same ledger ends
  without an error in the same ledger, receipts, note feeds, indexes, validator set, set history and key
  epoch. The aggregate verdicts recorded in the log take the place of the live verifier.\<close>

theorem restart_resumes:
  assumes "live_run X R a0 log a" and "app_ok X a0" and "app_ok X b0" and "ledger_view a0 = ledger_view b0"
  shows "\<exists>b. replay_loop X R log b0 = (Ok (), b) \<and> ledger_view a = ledger_view b \<and> app_ok X b"
proof -
  from replay_run [OF assms] obtain b where b: "\<forall>rest. replay_loop X R (log @ rest) b0 = replay_loop X R rest b" "ledger_view a = ledger_view b" "app_ok X b" by blast
  have "replay_loop X R log b0 = (Ok (), b)" using spec [OF b(1), of "[]"] by simp
  then show ?thesis using b by blast
qed

theorem restart_resumes_witness:
  "\<exists>v a b. commit sample_app_env sample_root_env sample_app sample_commit 10 10 False = (Ok v, a)
     \<and> replay_loop sample_app_env sample_root_env [\<lparr>sb_height = 1, sb_value_bytes = [1], sb_certificate = sample_commit, sb_agg_valid = v\<rparr>] sample_app = (Ok (), b)
     \<and> ledger_view a = ledger_view b"
proof -
  obtain v a where c: "commit sample_app_env sample_root_env sample_app sample_commit 10 10 False = (Ok v, a)" using sample_commits by blast
  have "live_run sample_app_env sample_root_env sample_app
      ([] @ [\<lparr>sb_height = cc_height sample_commit, sb_value_bytes = hv_txs \<lparr>hv_id = 0, hv_txs = [1]\<rparr>, sb_certificate = sample_commit, sb_agg_valid = v\<rparr>]) a"
    by (rule live_run.committed [OF live_run.start _ c]) (simp add: sample_commit_def sample_lookup)
  from restart_resumes [OF this sample_app_ok sample_app_ok refl] c show ?thesis by (auto simp: sample_commit_def)
qed

text \<open>Votes of a height are checked against the validator set of that height. Executing a decided block, with its
  rotations, set changes and the founding bootstrap, leaves the set of every height up to that block
  as it was, and the set of every later height is the node's current one.\<close>

lemma signing_set_by_height:
  assumes "app_ok X a" and "hist_ok a" and "execute_decided X R a h bs live rec = (Ok v, a')" and "h + 1 \<noteq> 0"
  shows "hist_ok a' \<and> (\<forall>k. validator_set_at (Some (ha_set_history a')) k =
     (if k \<le> h then validator_set_at (Some (ha_set_history a)) k else Some (ha_validators a')))"
proof -
  let ?h = "ha_set_history a" and ?h' = "ha_set_history a'"
  obtain entries where e: "?h' = ?h @ entries" "\<forall>(from, _) \<in> set entries. from = h + 1" "snd (last ?h') = ha_validators a'"
    by (rule execute_decided_hist [OF assms(2,3)])
  have h: "h = st_height (ha_chain a) + 1" "st_height (ha_chain a') = h" using execute_decided_height [OF assms(1,3)] by auto
  have lt: "h < h + 1" using assms(4) inc_less_eq_triv_imp [of h] by (auto simp: not_le [symmetric])
  have ok: "hist_ok a'" using assms(2) e h lt unfolding hist_ok_def by (fastforce intro: order.trans [OF _ less_imp_le])
  have past: "validator_set_at (Some ?h') k = validator_set_at (Some ?h) k" if "k \<le> h" for k
    unfolding e(1) by (rule set_at_past) (use e(2) lt that in auto)
  have later: "validator_set_at (Some ?h') k = Some (ha_validators a')" if "\<not> k \<le> h" for k
  proof -
    have "fst (last ?h') \<le> h + 1"
      using ok h(2) last_in_set [of ?h'] unfolding hist_ok_def by (auto simp: case_prod_beta)
    moreover have "h + 1 \<le> k" using that by (simp add: inc_le)
    ultimately show ?thesis using set_at_last [of ?h' k] ok e(3) by (auto simp: hist_ok_def)
  qed
  show ?thesis using ok past later by simp
qed

end
