(* ===== verification/HK_Json.thy ===== *)
theory HK_Json
  imports HK_Prelude
begin

text \<open>
  JSON values as the services read and build them (\<^verbatim>\<open>serde_json::Value\<close>), and the numbers Rust's
  standard library prints and parses. Numbers of a JSON text are integers here; the library that
  parses and prints the text is a parameter of the components that call it.
\<close>

section \<open>Values\<close>

datatype Json = JNull | JBool bool | JNum int | JStr string | JArr "Json list" | JObj "(string \<times> Json) list"

fun json_get :: "Json \<Rightarrow> string \<Rightarrow> Json option" where
  "json_get (JObj fs) k = map_of fs k"
| "json_get _ k = None"

fun as_str :: "Json \<Rightarrow> string option" where
  "as_str (JStr s) = Some s"
| "as_str _ = None"

fun as_u64 :: "Json \<Rightarrow> u64 option" where
  "as_u64 (JNum n) = (if 0 \<le> n \<and> n < 2 ^ 64 then Some (word_of_int n) else None)"
| "as_u64 _ = None"

fun as_bool :: "Json \<Rightarrow> bool option" where
  "as_bool (JBool b) = Some b"
| "as_bool _ = None"

fun as_array :: "Json \<Rightarrow> Json list option" where
  "as_array (JArr xs) = Some xs"
| "as_array _ = None"

definition and_then :: "'a option \<Rightarrow> ('a \<Rightarrow> 'b option) \<Rightarrow> 'b option" where
  "and_then m f = (case m of Some x \<Rightarrow> f x | None \<Rightarrow> None)"

lemma and_then_simps [simp]: "and_then None f = None" "and_then (Some x) f = f x"
  by (simp_all add: and_then_def)

definition unwrap_or :: "'a option \<Rightarrow> 'a \<Rightarrow> 'a" where
  "unwrap_or m d = (case m of Some x \<Rightarrow> x | None \<Rightarrow> d)"

lemma unwrap_or_simps [simp]: "unwrap_or None d = d" "unwrap_or (Some x) d = x"
  by (simp_all add: unwrap_or_def)

definition json_str :: "Json \<Rightarrow> string \<Rightarrow> string option" where
  "json_str v k = and_then (json_get v k) as_str"

section \<open>Strings\<close>

definition starts_with :: "string \<Rightarrow> string \<Rightarrow> bool" where
  "starts_with s p \<longleftrightarrow> take (length p) s = p"

definition strip_str :: "string \<Rightarrow> string \<Rightarrow> string option" where
  "strip_str p s = (if starts_with s p then Some (drop (length p) s) else None)"

definition is_space :: "char \<Rightarrow> bool" where
  "is_space c \<longleftrightarrow> (of_char c :: nat) \<in> {9, 10, 11, 12, 13, 32}"

definition trim_str :: "string \<Rightarrow> string" where
  "trim_str s = rev (dropWhile is_space (rev (dropWhile is_space s)))"

section \<open>Numbers\<close>

definition digit_char :: "nat \<Rightarrow> char" where
  "digit_char d = (if d < 10 then char_of (48 + d) else char_of (87 + d))"

fun show_radix :: "nat \<Rightarrow> nat \<Rightarrow> string" where
  "show_radix r n = (if r < 2 \<or> n < r then [digit_char n] else show_radix r (n div r) @ [digit_char (n mod r)])"

declare show_radix.simps [simp del]

abbreviation show_dec :: "nat \<Rightarrow> string" where "show_dec \<equiv> show_radix 10"

datatype ParseIntError = PIEmpty | PIInvalidDigit | PIPosOverflow

definition char_digit :: "nat \<Rightarrow> char \<Rightarrow> nat option" where
  "char_digit r c =
     (let n = of_char c;
          d = (if 48 \<le> n \<and> n \<le> 57 then Some (n - 48)
               else if 97 \<le> n \<and> n \<le> 122 then Some (n - 87)
               else if 65 \<le> n \<and> n \<le> 90 then Some (n - 55) else None)
      in case d of Some x \<Rightarrow> if x < r then Some x else None | None \<Rightarrow> None)"

text \<open>\<open>from_str_radix\<close> of an unsigned type of \<open>bits\<close> bits.\<close>

fun radix_loop :: "nat \<Rightarrow> nat \<Rightarrow> string \<Rightarrow> nat \<Rightarrow> (nat, ParseIntError) outcome" where
  "radix_loop r bits [] acc = Ok acc"
| "radix_loop r bits (c # cs) acc =
     (case char_digit r c of
        None \<Rightarrow> Err PIInvalidDigit
      | Some d \<Rightarrow> if acc * r + d \<ge> 2 ^ bits then Err PIPosOverflow else radix_loop r bits cs (acc * r + d))"

definition from_str_radix :: "nat \<Rightarrow> nat \<Rightarrow> string \<Rightarrow> (nat, ParseIntError) outcome" where
  "from_str_radix r bits s =
     (if s = [] then Err PIEmpty
      else if s = ''+'' \<or> s = ''-'' then Err PIInvalidDigit
      else if hd s = CHR ''+'' then radix_loop r bits (tl s) 0
      else radix_loop r bits s 0)"

definition parse_u128 :: "string \<Rightarrow> u128 option" where
  "parse_u128 s = (case from_str_radix 10 128 s of Ok n \<Rightarrow> Some (of_nat n) | _ \<Rightarrow> None)"

definition parse_u64 :: "string \<Rightarrow> u64 option" where
  "parse_u64 s = (case from_str_radix 10 64 s of Ok n \<Rightarrow> Some (of_nat n) | _ \<Rightarrow> None)"

section \<open>Printing and parsing agree\<close>

lemma char_digit_digit_char: "d < r \<Longrightarrow> r \<le> 36 \<Longrightarrow> char_digit r (digit_char d) = Some d"
  by (auto simp: char_digit_def digit_char_def Let_def)

lemma radix_loop_append:
  "radix_loop r bits (xs @ ys) acc = bind_ok (radix_loop r bits xs acc) (radix_loop r bits ys)"
  by (induction xs arbitrary: acc) (auto split: option.split)

lemma radix_loop_show:
  "2 \<le> r \<Longrightarrow> r \<le> 36 \<Longrightarrow> n < 2 ^ bits \<Longrightarrow> radix_loop r bits (show_radix r n) 0 = Ok n"
proof (induction r n rule: show_radix.induct)
  case (1 r n)
  show ?case
  proof (cases "n < r")
    case True
    then show ?thesis using 1 by (subst show_radix.simps) (simp add: char_digit_digit_char not_le)
  next
    case False
    have "n div r < 2 ^ bits" using 1(4) by (meson div_le_dividend le_less_trans)
    then have "radix_loop r bits (show_radix r (n div r)) 0 = Ok (n div r)" using 1 False by simp
    then show ?thesis using 1 False
      by (subst show_radix.simps) (simp add: radix_loop_append char_digit_digit_char not_le)
  qed
qed

lemma show_radix_digits: "2 \<le> r \<Longrightarrow> r \<le> 36 \<Longrightarrow> set (show_radix r n) \<subseteq> digit_char ` {..<r}"
proof (induction r n rule: show_radix.induct)
  case (1 r n)
  show ?case
  proof (cases "n < r")
    case True
    then show ?thesis using 1 by (subst show_radix.simps) auto
  next
    case False
    then have "set (show_radix r (n div r)) \<subseteq> digit_char ` {..<r}" using 1 by simp
    then show ?thesis using 1 False by (subst show_radix.simps) auto
  qed
qed

lemma show_radix_nonempty: "show_radix r n \<noteq> []"
  by (subst show_radix.simps) simp

lemma digit_char_not_sign: "d < 36 \<Longrightarrow> digit_char d \<noteq> CHR ''+'' \<and> digit_char d \<noteq> CHR ''-''"
proof -
  have "(of_char (CHR ''+'') :: nat) = 43" "(of_char (CHR ''-'') :: nat) = 45" by simp_all
  moreover assume "d < 36"
  then have "(of_char (digit_char d) :: nat) \<ge> 48" by (simp add: digit_char_def)
  ultimately show ?thesis by auto
qed

lemma from_str_radix_show:
  assumes "2 \<le> r" and "r \<le> 36" and "n < 2 ^ bits"
  shows "from_str_radix r bits (show_radix r n) = Ok n"
proof -
  obtain c cs where s: "show_radix r n = c # cs" using show_radix_nonempty by (meson neq_Nil_conv)
  then have "c \<in> digit_char ` {..<r}" using show_radix_digits [OF assms(1,2), of n] by auto
  then have "c \<noteq> CHR ''+''" "c \<noteq> CHR ''-''" using digit_char_not_sign assms(2) by fastforce+
  then show ?thesis using radix_loop_show [OF assms] by (simp add: from_str_radix_def s)
qed

lemma parse_u128_show [simp]: "parse_u128 (show_dec (unat a)) = Some a"
  using from_str_radix_show [of 10 "unat a" 128] unsigned_less [of a] by (simp add: parse_u128_def)

end
