(* ===== verification/HK_Eth.thy ===== *)
theory HK_Eth
  imports HK_Json HK_Tx
begin

text \<open>
  The Ethereum side of the bridge (\<^verbatim>\<open>hk-node/src/eth.rs\<close>): quantities and hex, the ABI words and calls, the
  bridge events, the EIP-712 digests and the RLP encoding of EIP-1559 transactions. Keccak-256,
  the hex codec and the secp256k1 signer are fields of an environment. Byte arrays of a fixed
  length are byte lists; error texts are the source's, with the library's parts printed by the environment.
\<close>

section \<open>Hashing and hex\<close>

record eth_env = tx_env +
  hex_encode :: "bytes \<Rightarrow> string"
  hex_decode :: "string \<Rightarrow> (bytes, string) outcome"
  keccak :: "bytes \<Rightarrow> bytes"
  show_json :: "Json \<Rightarrow> string"
  ec_point :: "bytes \<Rightarrow> (bytes, string) outcome"
  ec_sign :: "bytes \<Rightarrow> bytes \<Rightarrow> (bytes \<times> u8, string) outcome"

definition keccak256 :: "'x eth_env_scheme \<Rightarrow> bytes list \<Rightarrow> bytes" where
  "keccak256 X parts = keccak X (concat parts)"

definition hex0x :: "'x eth_env_scheme \<Rightarrow> bytes \<Rightarrow> string" where
  "hex0x X b = ''0x'' @ hex_encode X b"

definition unhex :: "'x eth_env_scheme \<Rightarrow> string \<Rightarrow> (bytes, string) outcome" where
  "unhex X s =
     (let t = trim_str s;
          t = (case strip_str ''0x'' t of Some r \<Rightarrow> r | None \<Rightarrow> (case strip_str ''0X'' t of Some r \<Rightarrow> r | None \<Rightarrow> t))
      in if t = [] then Ok []
         else map_err (\<lambda>e. ''bad hex '' @ [CHR 0x27] @ s @ [CHR 0x27] @ '': '' @ e) (hex_decode X t))"

definition parse_int_text :: "ParseIntError \<Rightarrow> string" where
  "parse_int_text e = (case e of PIEmpty \<Rightarrow> ''cannot parse integer from empty string''
     | PIInvalidDigit \<Rightarrow> ''invalid digit found in string'' | PIPosOverflow \<Rightarrow> ''number too large to fit in target type'')"

definition qty :: "'x eth_env_scheme \<Rightarrow> Json \<Rightarrow> (u128, string) outcome" where
  "qty X v =
     bind_ok (ok_or (as_str v) (''quantity is not a string: '' @ show_json X v)) (\<lambda>s.
       let t = (case strip_str ''0x'' s of Some r \<Rightarrow> r | None \<Rightarrow> s)
       in if t = [] then Ok 0
          else case from_str_radix 16 128 t of
                 Ok n \<Rightarrow> Ok (of_nat n)
               | Err e \<Rightarrow> Err (''bad quantity '' @ [CHR 0x27] @ s @ [CHR 0x27] @ '': '' @ parse_int_text e)
               | Panic \<Rightarrow> Panic)"

definition qty_hex :: "u128 \<Rightarrow> string" where
  "qty_hex n = ''0x'' @ show_radix 16 (unat n)"

section \<open>Addresses and keys\<close>

type_synonym Address = bytes

definition address_parse :: "'x eth_env_scheme \<Rightarrow> string \<Rightarrow> (Address, string) outcome" where
  "address_parse X s =
     bind_ok (unhex X s) (\<lambda>b.
       if length b \<noteq> 20
       then Err (''address must be 20 bytes, got '' @ show_dec (length b) @ '' ('' @ [CHR 0x27] @ s @ [CHR 0x27] @ '')'')
       else Ok b)"

definition address_hex :: "'x eth_env_scheme \<Rightarrow> Address \<Rightarrow> string" where
  "address_hex X a = hex0x X a"

record Signer =
  sg_key :: bytes
  sg_address :: Address

definition address_of :: "'x eth_env_scheme \<Rightarrow> bytes \<Rightarrow> Address" where
  "address_of X point = drop 12 (keccak256 X [tl point])"

definition signer_from_hex :: "'x eth_env_scheme \<Rightarrow> string \<Rightarrow> (Signer, string) outcome" where
  "signer_from_hex X s =
     bind_ok (unhex X s) (\<lambda>b.
       if length b \<noteq> 32 then Err (''attestor key must be 32 bytes, got '' @ show_dec (length b))
       else bind_ok (map_err (\<lambda>e. ''bad secp256k1 key: '' @ e) (ec_point X b)) (\<lambda>point.
              Ok \<lparr>sg_key = b, sg_address = address_of X point\<rparr>))"

definition sign_digest :: "'x eth_env_scheme \<Rightarrow> Signer \<Rightarrow> bytes \<Rightarrow> (bytes, string) outcome" where
  "sign_digest X sg digest =
     bind_ok (map_err (\<lambda>e. ''sign: '' @ e) (ec_sign X (sg_key sg) digest)) (\<lambda>(sig, rid). Ok (sig @ [27 + rid]))"

definition sign_tx_hash :: "'x eth_env_scheme \<Rightarrow> Signer \<Rightarrow> bytes \<Rightarrow> (u8 \<times> bytes \<times> bytes, string) outcome" where
  "sign_tx_hash X sg digest =
     bind_ok (map_err (\<lambda>e. ''sign: '' @ e) (ec_sign X (sg_key sg) digest)) (\<lambda>(sig, rid). Ok (rid, take 32 sig, drop 32 sig))"

section \<open>ABI encoding\<close>

definition selector :: "'x eth_env_scheme \<Rightarrow> string \<Rightarrow> bytes" where
  "selector X fn_sig = take 4 (keccak256 X [str_bytes fn_sig])"

definition word_u :: "u128 \<Rightarrow> bytes" where
  "word_u n = replicate 16 0 @ be_bytes 16 (unat n)"

definition word_addr :: "Address \<Rightarrow> bytes" where
  "word_addr a = replicate 12 0 @ a"

fun abi_offsets :: "nat \<Rightarrow> nat \<Rightarrow> bytes" where
  "abi_offsets 0 off = []"
| "abi_offsets (Suc n) off = word_u (of_nat off) @ abi_offsets n (off + (32 + 96))"

definition abi_sig :: "bytes \<Rightarrow> bytes" where
  "abi_sig s = word_u 65 @ s @ replicate (96 - 65) 0"

definition encode_attested_call :: "'x eth_env_scheme \<Rightarrow> string \<Rightarrow> Address \<Rightarrow> u128 \<Rightarrow> bytes \<Rightarrow> bytes list \<Rightarrow> bytes" where
  "encode_attested_call X fn_sig to_addr amount i sigs =
     selector X fn_sig @ word_addr to_addr @ word_u amount @ i @ word_u 0x80 @ word_u (of_nat (length sigs))
     @ abi_offsets (length sigs) (32 * length sigs) @ concat (map abi_sig sigs)"

definition encode_view_b32 :: "'x eth_env_scheme \<Rightarrow> string \<Rightarrow> bytes \<Rightarrow> bytes" where
  "encode_view_b32 X fn_sig x = selector X fn_sig @ x"

definition encode_view :: "'x eth_env_scheme \<Rightarrow> string \<Rightarrow> bytes" where
  "encode_view X fn_sig = selector X fn_sig"

definition encode_view_addr :: "'x eth_env_scheme \<Rightarrow> string \<Rightarrow> Address \<Rightarrow> bytes" where
  "encode_view_addr X fn_sig a = selector X fn_sig @ word_addr a"

definition encode_attestor_query :: "'x eth_env_scheme \<Rightarrow> Address \<Rightarrow> bytes" where
  "encode_attestor_query X a = encode_view_addr X ''isAttestor(address)'' a"

definition decode_word_u :: "bytes \<Rightarrow> (u128, string) outcome" where
  "decode_word_u b =
     (if length b < 32 then Err (''short return ('' @ show_dec (length b) @ '' bytes)'')
      else if list_ex (\<lambda>x. x \<noteq> 0) (take 16 b) then Err ''value exceeds u128''
      else Ok (of_nat (be_value (take 16 (drop 16 b)))))"

definition decode_word_b32 :: "bytes \<Rightarrow> (bytes, string) outcome" where
  "decode_word_b32 b = (if length b < 32 then Err (''short return ('' @ show_dec (length b) @ '' bytes)'') else Ok (take 32 b))"

section \<open>Events\<close>

record BridgeEvent =
  be_id :: bytes
  be_from :: Address
  be_hk_account :: bytes
  be_amount :: u128
  be_nonce :: u128
  be_block :: u64
  be_tx_hash :: string
  be_log_index :: u128

definition LOCKED_SIG :: string where "LOCKED_SIG = ''Locked(bytes32,address,uint256,bytes32,uint256)''"
definition BURNED_SIG :: string where "BURNED_SIG = ''Burned(bytes32,address,uint256,bytes32,uint256)''"

definition event_topic :: "'x eth_env_scheme \<Rightarrow> string \<Rightarrow> bytes" where
  "event_topic X sig = keccak256 X [str_bytes sig]"

definition decode_bridge_event :: "'x eth_env_scheme \<Rightarrow> Json \<Rightarrow> (BridgeEvent, string) outcome" where
  "decode_bridge_event X log =
     bind_ok (ok_or (and_then (json_get log ''topics'') as_array) ''log without topics'') (\<lambda>topics.
     if length topics \<noteq> 4 then Err (''expected 4 topics, got '' @ show_dec (length topics))
     else bind_ok (unhex X (unwrap_or (as_str (topics ! 1)) '''')) (\<lambda>t1.
          bind_ok (unhex X (unwrap_or (as_str (topics ! 2)) '''')) (\<lambda>t2.
          bind_ok (unhex X (unwrap_or (as_str (topics ! 3)) '''')) (\<lambda>t3.
          if length t1 \<noteq> 32 \<or> length t2 \<noteq> 32 \<or> length t3 \<noteq> 32 then Err ''topic length''
          else bind_ok (unhex X (unwrap_or (json_str log ''data'') '''')) (\<lambda>data.
               if length data < 64 then Err (''event data too short ('' @ show_dec (length data) @ '' bytes)'')
               else bind_ok (decode_word_u (take 32 data)) (\<lambda>amount.
                    bind_ok (decode_word_u (take 32 (drop 32 data))) (\<lambda>nonce.
                    bind_ok (qty X (unwrap_or (json_get log ''blockNumber'') JNull)) (\<lambda>block.
                    bind_ok (qty X (unwrap_or (json_get log ''logIndex'') (JStr ''0x0''))) (\<lambda>log_index.
                      Ok \<lparr>be_id = t1, be_from = drop 12 t2, be_hk_account = t3, be_amount = amount, be_nonce = nonce,
                          be_block = u128_as_u64 block, be_tx_hash = unwrap_or (json_str log ''transactionHash'') '''',
                          be_log_index = log_index\<rparr>)))))))))"

section \<open>EIP-712\<close>

definition domain_separator :: "'x eth_env_scheme \<Rightarrow> string \<Rightarrow> u64 \<Rightarrow> Address \<Rightarrow> bytes" where
  "domain_separator X name chain_id contract =
     (let typehash = keccak256 X [str_bytes ''EIP712Domain(string name,string version,uint256 chainId,address verifyingContract)''];
          name_h = keccak256 X [str_bytes name];
          ver_h = keccak256 X [str_bytes ''1'']
      in keccak256 X [typehash, name_h, ver_h, word_u (u64_as_u128 chain_id), word_addr contract])"

definition attest_struct_hash :: "'x eth_env_scheme \<Rightarrow> string \<Rightarrow> Address \<Rightarrow> u128 \<Rightarrow> bytes \<Rightarrow> bytes" where
  "attest_struct_hash X type_sig to_addr amount i =
     (let typehash = keccak256 X [str_bytes type_sig] in keccak256 X [typehash, word_addr to_addr, word_u amount, i])"

definition typed_digest :: "'x eth_env_scheme \<Rightarrow> bytes \<Rightarrow> bytes \<Rightarrow> bytes" where
  "typed_digest X domain struct_hash = keccak256 X [[0x19, 0x01], domain, struct_hash]"

definition UNLOCK_TYPE :: string where "UNLOCK_TYPE = ''Unlock(address to,uint256 amount,bytes32 burnId)''"
definition MINT_TYPE :: string where "MINT_TYPE = ''Mint(address to,uint256 amount,bytes32 mintId)''"

section \<open>RLP and EIP-1559 transactions\<close>

definition strip_leading_zeros :: "bytes \<Rightarrow> bytes" where
  "strip_leading_zeros b = dropWhile (\<lambda>x. x = 0) b"

definition rlp_len :: "nat \<Rightarrow> u8 \<Rightarrow> bytes" where
  "rlp_len len offset =
     (if len < 56 then [offset + of_nat len]
      else let be = be_bytes 8 len;
               be' = strip_leading_zeros be;
               tail = (if be' = [] then drop 7 be else be')
           in (offset + 55 + of_nat (length tail)) # tail)"

definition rlp_bytes :: "bytes \<Rightarrow> bytes" where
  "rlp_bytes b = (if length b = 1 \<and> b ! 0 < 0x80 then b else rlp_len (length b) 0x80 @ b)"

definition rlp_uint :: "u128 \<Rightarrow> bytes" where
  "rlp_uint n = (if n = 0 then [0x80] else rlp_bytes (strip_leading_zeros (be_bytes 16 (unat n))))"

definition rlp_list :: "bytes list \<Rightarrow> bytes" where
  "rlp_list items = rlp_len (length (concat items)) 0xc0 @ concat items"

record Tx1559 =
  t9_chain_id :: u64
  t9_nonce :: u128
  t9_max_priority_fee :: u128
  t9_max_fee :: u128
  t9_gas :: u128
  t9_to :: Address
  t9_value :: u128
  t9_data :: bytes

definition tx_body :: "Tx1559 \<Rightarrow> bytes list" where
  "tx_body t = [rlp_uint (u64_as_u128 (t9_chain_id t)), rlp_uint (t9_nonce t), rlp_uint (t9_max_priority_fee t), rlp_uint (t9_max_fee t),
     rlp_uint (t9_gas t), rlp_bytes (t9_to t), rlp_uint (t9_value t), rlp_bytes (t9_data t), rlp_list []]"

definition eth_sign_tx :: "'x eth_env_scheme \<Rightarrow> Signer \<Rightarrow> Tx1559 \<Rightarrow> (bytes, string) outcome" where
  "eth_sign_tx X signer t =
     (let unsigned = 0x02 # rlp_list (tx_body t)
      in bind_ok (sign_tx_hash X signer (keccak256 X [unsigned])) (\<lambda>(y, r, s).
           Ok (0x02 # rlp_list (tx_body t @ [rlp_uint (ucast y), rlp_bytes (strip_leading_zeros r), rlp_bytes (strip_leading_zeros s)]))))"

section \<open>The encodings are unambiguous\<close>

lemma be_value_strip: "be_value (strip_leading_zeros b) = be_value b"
proof -
  have z: "le_value (bs @ [0]) = le_value bs" for bs by (induction bs) auto
  show ?thesis by (induction b) (auto simp: strip_leading_zeros_def be_value_def z)
qed

lemma be_value_be_bytes: "n < 256 ^ w \<Longrightarrow> be_value (be_bytes w n) = n"
  by (simp add: be_value_def be_bytes_def le_value_le_bytes)

lemma be_value_strip_bytes: "n < 256 ^ w \<Longrightarrow> be_value (strip_leading_zeros (be_bytes w n)) = n"
  by (simp add: be_value_strip be_value_be_bytes)

lemma strip_nonempty: "0 < n \<Longrightarrow> n < 256 ^ w \<Longrightarrow> strip_leading_zeros (be_bytes w n) \<noteq> []"
proof
  assume n: "0 < n" "n < 256 ^ w" and "strip_leading_zeros (be_bytes w n) = []"
  then have "be_value [] = n" using be_value_strip_bytes [OF n(2)] by metis
  then show False using n(1) by (simp add: be_value_def)
qed

lemma length_strip: "length (strip_leading_zeros b) \<le> length b"
  by (simp add: strip_leading_zeros_def length_dropWhile_le)

text \<open>The header: short lengths in one byte, long ones behind the length of their length.\<close>

lemma rlp_len_long:
  assumes "56 \<le> len" and "len < 2 ^ 64"
  defines "tl' \<equiv> strip_leading_zeros (be_bytes 8 len)"
  shows "rlp_len len offset = (offset + of_nat (55 + length tl')) # tl'" "1 \<le> length tl'" "length tl' \<le> 8" "be_value tl' = len"
proof -
  have n: "0 < len" "len < 256 ^ 8" using assms(1,2) by auto
  show "rlp_len len offset = (offset + of_nat (55 + length tl')) # tl'"
    using strip_nonempty [OF n] assms(1) by (simp add: rlp_len_def tl'_def Let_def add.assoc)
  show "1 \<le> length tl'" using strip_nonempty [OF n] by (simp add: tl'_def Suc_le_eq)
  show "length tl' \<le> 8" using length_strip [of "be_bytes 8 len"] by (simp add: tl'_def)
  show "be_value tl' = len" using be_value_strip_bytes [OF n(2)] by (simp add: tl'_def)
qed

lemma header_byte:
  assumes "offset \<in> {0x80, 0xc0 :: u8}" and "k < 64"
  shows "unat (offset + of_nat k) = unat offset + k"
proof -
  have "unat (of_nat k :: u8) = k" using assms(2) by (simp add: unat_of_nat)
  then show ?thesis using assms by (subst unat_add_lem [THEN iffD1]) auto
qed

lemma header_inj:
  assumes "offset + of_nat j = offset + of_nat k" and "offset \<in> {0x80, 0xc0 :: u8}" and "j < 64" and "k < 64"
  shows "j = k"
proof -
  have "unat offset + j = unat offset + k"
    using header_byte [OF assms(2,3)] header_byte [OF assms(2,4)] unfolding assms(1) by (rule trans [OF sym])
  then show ?thesis by (rule add_left_imp_eq)
qed

lemma rlp_len_hd:
  assumes "len < 2 ^ 64" and "offset \<in> {0x80, 0xc0}"
  obtains k where "k < 64" "unat (hd (rlp_len len offset)) = unat offset + k" "rlp_len len offset \<noteq> []"
proof (cases "len < 56")
  case True
  then show ?thesis using that [of len] header_byte [OF assms(2), of len] by (simp add: rlp_len_def)
next
  case False
  then have l: "56 \<le> len" by simp
  note t = rlp_len_long [OF l assms(1)]
  let ?k = "length (strip_leading_zeros (be_bytes 8 len))"
  have "unat (offset + of_nat (55 + ?k)) = unat offset + (55 + ?k)" by (rule header_byte [OF assms(2)]) (use t(3) in simp)
  then show ?thesis using that [of "55 + ?k"] t(3) unfolding t(1) list.sel by simp
qed

lemma rlp_len_cancel:
  assumes "rlp_len m offset @ s = rlp_len n offset @ t" and "m < 2 ^ 64" and "n < 2 ^ 64" and "offset \<in> {0x80, 0xc0}"
  shows "m = n \<and> s = t"
proof -
  have mixed: False if "a < 56" "56 \<le> b" "b < 2 ^ 64" "rlp_len a offset @ u = rlp_len b offset @ v" for a b u v
  proof -
    note t = rlp_len_long [OF that(2,3)]
    let ?k = "length (strip_leading_zeros (be_bytes 8 b))"
    have "offset + of_nat a = offset + of_nat (55 + ?k)" using that(1,4) unfolding t(1) by (simp only: rlp_len_def if_True append.simps list.inject)
    then have "a = 55 + ?k" by (rule header_inj [OF _ assms(4)]) (use that(1) t(3) in auto)
    then show False using that(1) t(2) by simp
  qed
  show ?thesis
  proof (cases "m < 56"; cases "n < 56")
    assume mn: "m < 56" "n < 56"
    then have eq: "offset + of_nat m = offset + of_nat n" "s = t" using assms(1) by (simp_all add: rlp_len_def)
    have "m = n" by (rule header_inj [OF eq(1) assms(4)]) (use mn in auto)
    then show ?thesis using eq(2) by simp
  next
    assume mn: "\<not> m < 56" "\<not> n < 56"
    let ?x = "strip_leading_zeros (be_bytes 8 m)" and ?y = "strip_leading_zeros (be_bytes 8 n)"
    have m: "56 \<le> m" and n: "56 \<le> n" using mn by simp_all
    note tm = rlp_len_long [OF m assms(2)] and tn = rlp_len_long [OF n assms(3)]
    have eq: "offset + of_nat (55 + length ?x) = offset + of_nat (55 + length ?y)" "?x @ s = ?y @ t"
      using assms(1) unfolding tm(1) tn(1) by (simp_all only: append.simps list.inject)
    have "55 + length ?x = 55 + length ?y" by (rule header_inj [OF eq(1) assms(4)]) (use tm(3) tn(3) in auto)
    then have "length ?x = length ?y" by (rule add_left_imp_eq)
    then have "?x = ?y" "s = t" using eq(2) by simp_all
    then show ?thesis using tm(4) tn(4) by metis
  qed (use mixed [of m n s t] mixed [of n m t s] assms in auto)
qed

lemma rlp_bytes_one: "length b = 1 \<and> b ! 0 < 0x80 \<Longrightarrow> rlp_bytes b = b"
  unfolding rlp_bytes_def by simp

lemma rlp_bytes_more: "\<not> (length b = 1 \<and> b ! 0 < 0x80) \<Longrightarrow> rlp_bytes b = rlp_len (length b) 0x80 @ b"
  unfolding rlp_bytes_def by (simp only: if_False)

lemma rlp_bytes_cancel:
  assumes "rlp_bytes a @ s = rlp_bytes b @ t" and "length a < 2 ^ 64" and "length b < 2 ^ 64"
  shows "a = b \<and> s = t"
proof -
  have mixed: False if "length x = 1" "x ! 0 < (0x80 :: u8)" "length y < 2 ^ 64" "x @ u = rlp_len (length y) 0x80 @ y @ v" for x y u v
  proof -
    note y = that(3)
    obtain k where k: "unat (hd (rlp_len (length y) 0x80)) = unat (0x80 :: u8) + k" "rlp_len (length y) 0x80 \<noteq> []"
      by (rule rlp_len_hd [OF y, of "0x80"]) auto
    have "hd x = hd (rlp_len (length y) 0x80)" using that(1,4) k(2) by (metis hd_append2 length_0_conv zero_neq_one)
    moreover have "hd x = x ! 0" using that(1) by (cases x) auto
    ultimately show False using that(2) k(1) by (simp add: word_less_nat_alt)
  qed
  let ?p = "\<lambda>x :: bytes. length x = 1 \<and> x ! 0 < 0x80"
  show ?thesis
  proof (cases "?p a"; cases "?p b")
    assume "?p a" "?p b"
    then show ?thesis using assms(1) by (simp add: rlp_bytes_def)
  next
    assume ab: "\<not> ?p a" "\<not> ?p b"
    then have eq: "rlp_len (length a) 0x80 @ a @ s = rlp_len (length b) 0x80 @ b @ t" using assms(1) unfolding rlp_bytes_def by (simp only: if_False append.assoc)
    have "length a = length b \<and> a @ s = b @ t" by (rule rlp_len_cancel [OF eq assms(2,3)]) simp
    then show ?thesis by (metis append_eq_append_conv)
  next
    assume ab: "?p a" "\<not> ?p b"
    then have "a @ s = rlp_len (length b) 0x80 @ b @ t" using assms(1) unfolding rlp_bytes_one [OF ab(1)] rlp_bytes_more [OF ab(2)] by simp
    then show ?thesis using mixed [of a b s t] ab(1) assms(3) by blast
  next
    assume ab: "\<not> ?p a" "?p b"
    then have "b @ t = rlp_len (length a) 0x80 @ a @ s" using assms(1) unfolding rlp_bytes_one [OF ab(2)] rlp_bytes_more [OF ab(1)] by simp
    then show ?thesis using mixed [of b a t s] ab(2) assms(2) by blast
  qed
qed

lemma unat_u128_bound: "unat (n :: u128) < 256 ^ 16"
  using unsigned_less [of n] by simp

lemma rlp_uint_bytes: "rlp_uint n = rlp_bytes (strip_leading_zeros (be_bytes 16 (unat n)))"
proof (cases "n = 0")
  case True
  have "le_bytes w 0 = replicate w 0" for w by (induction w) auto
  then have "be_bytes 16 0 = replicate 16 0" by (simp add: be_bytes_def)
  then have "strip_leading_zeros (be_bytes 16 0) = []" by (simp add: strip_leading_zeros_def)
  then show ?thesis using True by (simp add: rlp_uint_def rlp_bytes_def rlp_len_def)
qed (simp add: rlp_uint_def)

lemma rlp_uint_cancel:
  assumes "rlp_uint m @ s = rlp_uint n @ t"
  shows "m = n \<and> s = t"
proof -
  have "length (strip_leading_zeros (be_bytes 16 (unat k))) < 2 ^ 64" for k :: u128
    using length_strip [of "be_bytes 16 (unat k)"] by simp
  then have "strip_leading_zeros (be_bytes 16 (unat m)) = strip_leading_zeros (be_bytes 16 (unat n)) \<and> s = t"
    using rlp_bytes_cancel assms unfolding rlp_uint_bytes by blast
  then show ?thesis using be_value_strip_bytes [OF unat_u128_bound, of m] be_value_strip_bytes [OF unat_u128_bound, of n] by (metis word_unat_eq_iff)
qed

lemma rlp_list_payload:
  assumes "rlp_list xs = rlp_list ys" and "length (concat xs) < 2 ^ 64" and "length (concat ys) < 2 ^ 64"
  shows "concat xs = concat ys"
  using rlp_len_cancel [of "length (concat xs)" "0xc0" "concat xs" "length (concat ys)" "concat ys"] assms by (simp add: rlp_list_def)

lemma word_u_eq [simp]: "word_u a = word_u b \<longleftrightarrow> a = b"
proof
  assume "word_u a = word_u b"
  then have "be_value (be_bytes 16 (unat a)) = be_value (be_bytes 16 (unat b))" by (simp add: word_u_def)
  then show "a = b" using be_value_be_bytes [OF unat_u128_bound, of a] be_value_be_bytes [OF unat_u128_bound, of b] by (simp add: word_unat_eq_iff)
qed simp

lemma length_word_u [simp]: "length (word_u a) = 32"
  by (simp add: word_u_def)

lemma decode_word_word_u [simp]: "decode_word_u (word_u n @ rest) = Ok n"
proof -
  have "take 16 (drop 16 (word_u n @ rest)) = be_bytes 16 (unat n)" "take 16 (word_u n @ rest) = replicate 16 0"
    by (simp_all add: word_u_def)
  then show ?thesis using be_value_be_bytes [OF unat_u128_bound, of n] by (simp add: decode_word_u_def list_ex_iff)
qed

section \<open>What a signature on the Ethereum side stands for\<close>

lemma length_rlp_uint: "length (rlp_uint n) \<le> 17"
proof -
  have "length (strip_leading_zeros (be_bytes 16 (unat n))) \<le> 16" using length_strip [of "be_bytes 16 (unat n)"] by simp
  then show ?thesis unfolding rlp_uint_bytes by (simp add: rlp_bytes_def rlp_len_def)
qed

lemma length_rlp_bytes: "length b < 2 ^ 64 \<Longrightarrow> length (rlp_bytes b) \<le> length b + 9"
proof (cases "length b < 56")
  case False
  assume "length b < 2 ^ 64"
  then show ?thesis using False rlp_len_long(3) [of "length b"] by (simp add: rlp_bytes_def rlp_len_long(1))
qed (simp add: rlp_bytes_def rlp_len_def)

lemma length_tx_body:
  assumes "length (t9_to t) = 20" and "length (t9_data t) < 2 ^ 63"
  shows "length (concat (tx_body t)) < 2 ^ 64"
proof -
  have "length (rlp_bytes (t9_to t)) \<le> 29" "length (rlp_bytes (t9_data t)) \<le> length (t9_data t) + 9"
    using length_rlp_bytes [of "t9_to t"] length_rlp_bytes [of "t9_data t"] assms by simp_all
  moreover have "length (rlp_list []) = 1" by (simp add: rlp_list_def rlp_len_def)
  ultimately show ?thesis
    using assms(2) length_rlp_uint [of "u64_as_u128 (t9_chain_id t)"] length_rlp_uint [of "t9_nonce t"] length_rlp_uint [of "t9_max_priority_fee t"]
      length_rlp_uint [of "t9_max_fee t"] length_rlp_uint [of "t9_gas t"] length_rlp_uint [of "t9_value t"]
    by (simp add: tx_body_def)
qed

lemma u64_as_u128_eq: "u64_as_u128 a = u64_as_u128 b \<Longrightarrow> a = b"
  using unat_widen(3) [of a] unat_widen(3) [of b] by (metis word_unat_eq_iff)

lemma tx_body_inj:
  assumes "concat (tx_body t) = concat (tx_body u)" and "length (t9_to t) = 20" "length (t9_to u) = 20"
    and "length (t9_data t) < 2 ^ 63" "length (t9_data u) < 2 ^ 63"
  shows "t = u"
proof -
  have len: "length (t9_to t) < 2 ^ 64" "length (t9_to u) < 2 ^ 64" "length (t9_data t) < 2 ^ 64" "length (t9_data u) < 2 ^ 64"
    using assms(2-5) by simp_all
  note eq = assms(1) [unfolded tx_body_def concat.simps append_Nil2]
  note e1 = rlp_uint_cancel [OF eq] and e2 = rlp_uint_cancel [OF conjunct2 [OF rlp_uint_cancel [OF eq]]]
  note e3 = rlp_uint_cancel [OF conjunct2 [OF e2]]
  note e4 = rlp_uint_cancel [OF conjunct2 [OF e3]]
  note e5 = rlp_uint_cancel [OF conjunct2 [OF e4]]
  note e6 = rlp_bytes_cancel [OF conjunct2 [OF e5] len(1,2)]
  note e7 = rlp_uint_cancel [OF conjunct2 [OF e6]]
  note e8 = rlp_bytes_cancel [OF conjunct2 [OF e7] len(3,4)]
  show ?thesis
    using u64_as_u128_eq [OF conjunct1 [OF e1]] e2 e3 e4 e5 e6 e7 e8 by (intro Tx1559.equality) auto
qed

lemma concat_sigs_inj:
  "map length xs = replicate (length xs) 65 \<Longrightarrow> map length ys = replicate (length ys) 65 \<Longrightarrow> length xs = length ys \<Longrightarrow>
   concat (map abi_sig xs) = concat (map abi_sig ys) \<Longrightarrow> xs = ys"
proof (induction xs ys rule: list_induct2')
  case (4 x xs y ys)
  then have "length x = length y" by simp
  then have "abi_sig x @ concat (map abi_sig xs) = abi_sig y @ concat (map abi_sig ys) \<Longrightarrow> x = y \<and> concat (map abi_sig xs) = concat (map abi_sig ys)"
    by (simp add: abi_sig_def)
  then show ?case using 4 by auto
qed auto

lemma length_word_addr [simp]: "length (word_addr a) = 12 + length a"
  by (simp add: word_addr_def)

lemma length_abi_offsets [simp]: "length (abi_offsets n off) = 32 * n"
  by (induction n arbitrary: off) auto

lemma attested_call_inj:
  assumes "encode_attested_call X f a n i sigs = encode_attested_call X f b m j sigs'"
    and "length a = 20" "length b = 20" "length i = 32" "length j = 32"
    and "\<forall>s \<in> set sigs \<union> set sigs'. length s = 65" and "length sigs < 2 ^ 128" "length sigs' < 2 ^ 128"
  shows "a = b \<and> n = m \<and> i = j \<and> sigs = sigs'"
proof -
  have w: "word_addr a @ word_u n @ i @ word_u 0x80 @ word_u (of_nat (length sigs)) @ abi_offsets (length sigs) (32 * length sigs) @ concat (map abi_sig sigs)
      = word_addr b @ word_u m @ j @ word_u 0x80 @ word_u (of_nat (length sigs')) @ abi_offsets (length sigs') (32 * length sigs') @ concat (map abi_sig sigs')"
    using assms(1) unfolding encode_attested_call_def by (simp only: same_append_eq)
  then have h: "word_addr a = word_addr b" "word_u n = word_u m" "i = j" "word_u (of_nat (length sigs)) = word_u (of_nat (length sigs'))"
    and rest: "abi_offsets (length sigs) (32 * length sigs) @ concat (map abi_sig sigs) = abi_offsets (length sigs') (32 * length sigs') @ concat (map abi_sig sigs')"
    using assms(2-5) by (auto simp: append_eq_append_conv)
  have "(of_nat (length sigs) :: u128) = of_nat (length sigs')" using h(4) by simp
  then have "unat (of_nat (length sigs) :: u128) = unat (of_nat (length sigs') :: u128)" by (rule arg_cong)
  then have len: "length sigs = length sigs'" using assms(7,8) by (simp add: unat_of_nat)
  then have "concat (map abi_sig sigs) = concat (map abi_sig sigs')" using rest by simp
  moreover have "map length sigs = replicate (length sigs) 65" "map length sigs' = replicate (length sigs') 65"
    using assms(6) by (auto intro!: replicate_eqI)
  ultimately have "sigs = sigs'" using concat_sigs_inj len by blast
  then show ?thesis using h by (simp add: word_addr_def)
qed

text \<open>What the attestor key signs is unambiguous. The RLP bytes of an EIP-1559 transaction determine every field of it,
  including the empty access list, and the call data of an attested call determines the recipient, the amount, the id and the
  list of signatures it carries.\<close>

lemma eth_transaction_unambiguous:
  assumes "rlp_list (tx_body t) = rlp_list (tx_body u)" and "length (t9_to t) = 20" "length (t9_to u) = 20"
    and "t9_data t = encode_attested_call X f a n i sigs" "t9_data u = encode_attested_call X f b m j sigs'"
    and "length a = 20" "length b = 20" "length i = 32" "length j = 32" "\<forall>s \<in> set sigs \<union> set sigs'. length s = 65"
    and "length (t9_data t) < 2 ^ 63" "length (t9_data u) < 2 ^ 63" "length sigs < 2 ^ 128" "length sigs' < 2 ^ 128"
  shows "t = u \<and> a = b \<and> n = m \<and> i = j \<and> sigs = sigs'"
proof -
  have "concat (tx_body t) = concat (tx_body u)"
    by (rule rlp_list_payload [OF assms(1)]) (use length_tx_body assms in blast)+
  then have eq: "t = u" by (rule tx_body_inj) (use assms in auto)
  then have "encode_attested_call X f a n i sigs = encode_attested_call X f b m j sigs'" using assms(4,5) by simp
  then show ?thesis using attested_call_inj [of X f a n i sigs b m j sigs'] assms eq by blast
qed

definition sample_eth_env :: eth_env where
  "sample_eth_env = \<lparr>xof256 = \<lambda>_ n. replicate n 0, sha256 = \<lambda>_. 0, json_tx = \<lambda>_. Some [], hex_encode = \<lambda>b. map (\<lambda>x. char_of (unat x)) b,
     hex_decode = \<lambda>s. Ok (map (\<lambda>c. of_nat (of_char c)) s), keccak = \<lambda>b. take 32 (map (\<lambda>x. 3 * x + 1) (rev b) @ replicate 32 0), show_json = \<lambda>_. [],
     ec_point = \<lambda>k. Ok (0 # k), ec_sign = \<lambda>k d. Ok (k @ d, 0)\<rparr>"

definition sample_eth_tx :: "u128 \<Rightarrow> Tx1559" where
  "sample_eth_tx n = \<lparr>t9_chain_id = 1, t9_nonce = 2, t9_max_priority_fee = 3, t9_max_fee = 300, t9_gas = 5, t9_to = replicate 20 6, t9_value = 0,
     t9_data = encode_attested_call sample_eth_env ''unlock'' (replicate 20 7) n (replicate 32 8) [replicate 65 9]\<rparr>"

text \<open>The byte strings an attestation hashes.\<close>

definition attest_preimages :: "'x eth_env_scheme \<Rightarrow> bytes \<Rightarrow> string \<Rightarrow> Address \<Rightarrow> u128 \<Rightarrow> bytes \<Rightarrow> bytes list" where
  "attest_preimages X d ty a n i =
     [str_bytes ty, keccak X (str_bytes ty) @ word_addr a @ word_u n @ i, [0x19, 0x01] @ d @ attest_struct_hash X ty a n i]"

lemma append_cancel: "xs @ ys = us @ vs \<Longrightarrow> length xs = length us \<Longrightarrow> xs = us \<and> ys = vs"
  by simp

text \<open>An attestation stands for one payment. If Keccak-256 does not collide on the byte strings two attestations hash, and their digests
  are the same, then they are for the same contract domain, the same recipient, amount and id and of the same type: a
  signature collected for one release can not be used for another.\<close>

lemma attestation_binds:
  assumes "typed_digest X d (attest_struct_hash X ty a n i) = typed_digest X e (attest_struct_hash X ty' b m j)"
    and "\<forall>bs. length (keccak X bs) = 32" and "length d = 32" "length e = 32" "length a = 20" "length b = 20" "length i = 32" "length j = 32"
    and "\<forall>x \<in> set (attest_preimages X d ty a n i @ attest_preimages X e ty' b m j).
         \<forall>y \<in> set (attest_preimages X d ty a n i @ attest_preimages X e ty' b m j). keccak X x = keccak X y \<longrightarrow> x = y"
  shows "(d, ty, a, n, i) = (e, ty', b, m, j)"
proof -
  let ?P = "set (attest_preimages X d ty a n i @ attest_preimages X e ty' b m j)"
  have inj: "keccak X x = keccak X y \<Longrightarrow> x \<in> ?P \<Longrightarrow> y \<in> ?P \<Longrightarrow> x = y" for x y using assms(9) by blast
  let ?s = "attest_struct_hash X ty a n i" and ?t = "attest_struct_hash X ty' b m j"
  have "[0x19, 0x01] @ d @ ?s = [0x19, 0x01] @ e @ ?t"
    by (rule inj) (use assms(1) in \<open>simp_all add: typed_digest_def keccak256_def attest_preimages_def\<close>)
  then have "d @ ?s = e @ ?t" by (simp only: same_append_eq)
  then have de: "d = e" "?s = ?t" using append_cancel [of d ?s e ?t] assms(3,4) by metis+
  let ?k = "keccak X (str_bytes ty)" and ?l = "keccak X (str_bytes ty')"
  have "?k @ word_addr a @ word_u n @ i = ?l @ word_addr b @ word_u m @ j"
    by (rule inj) (use de(2) in \<open>simp_all add: attest_struct_hash_def keccak256_def attest_preimages_def\<close>)
  then have k: "?k = ?l" and r: "word_addr a @ word_u n @ i = word_addr b @ word_u m @ j"
    using append_cancel [of ?k "word_addr a @ word_u n @ i" ?l "word_addr b @ word_u m @ j"] spec [OF assms(2)] by metis+
  have ty: "str_bytes ty = str_bytes ty'" by (rule inj [OF k]) (simp_all add: attest_preimages_def)
  have ab: "word_addr a = word_addr b \<and> word_u n @ i = word_u m @ j" by (rule append_cancel [OF r]) (simp add: assms(5,6))
  then have "word_u n = word_u m \<and> i = j" using append_cancel [of "word_u n" i "word_u m" j] by simp
  then show ?thesis using de(1) ty ab by (simp add: word_addr_def)
qed

definition sample_id :: bytes where "sample_id = map of_nat [0..<32]"

end
