(* ===== verification/HK_Bridge.thy ===== *)
theory HK_Bridge
  imports HK_Eth HK_Containers "HOL-Library.List_Lexorder" "HOL-Library.Char_ord"
begin

text \<open>
  The bridge attestation service (\<^verbatim>\<open>hk-node/src/attest.rs\<close>, with the calls of \<^verbatim>\<open>hk-node/src/eth.rs\<close> and
  \<^verbatim>\<open>hk-node/src/demo.rs\<close> it makes): the append-only ledger, the scan of both chains, the mints and the releases it sends.
  A run is a function of the answers of the outside world, one \<open>Net\<close> per moment, and of the moment the
  process is killed: every effect takes one unit of \<open>wd_left\<close> and the process stops when none is
  left. The JSON text of a ledger line is a parameter, its fields are values. A line reaches the file as a whole or not at all (a line torn in the middle of \<open>write_all\<close> is not modelled); a write
  reported as failed may still have reached it. Printing, sleeping and the health page are not modelled.
\<close>

section \<open>The outside world\<close>

datatype DiskAnswer = Written | Refused | Unsynced

text \<open>What the world answers at one moment: the clock, the disk, the two RPC endpoints, the co-signers, the
  issuer's account file, and whether a transaction sent now reaches the other side.\<close>

record Net =
  nt_now :: u64
  nt_disk :: DiskAnswer
  nt_eth :: "string \<Rightarrow> Json \<Rightarrow> (Json, string) outcome"
  nt_hk :: "string \<Rightarrow> Json \<Rightarrow> Json"
  nt_post :: "string \<Rightarrow> Json \<Rightarrow> (Json, string) outcome"
  nt_account :: "(unit, string) outcome"
  nt_save :: "(unit, string) outcome"
  nt_arrives :: bool

section \<open>The ledger\<close>

record LEvent =
  ev_t :: u64
  ev_kind :: string
  ev_id :: string
  ev_state :: string
  ev_fields :: "(string \<times> Json) list"

record LRecord =
  lr_kind :: string
  lr_id :: string
  lr_state :: string
  lr_amount :: u128
  lr_to :: string
  lr_at :: u64
  lr_source_tx :: string
  lr_hk_txid :: "string option"
  lr_eth_tx :: "string option"
  lr_note :: "string option"
  lr_updated :: u64
  lr_attempts :: u32

record Ledger =
  lg_records :: "(string, LRecord) btree_map"
  lg_eth_cursor :: u64
  lg_hk_cursor :: u64

record bridge_env = eth_env +
  ser_event :: "LEvent \<Rightarrow> string option"
  de_event :: "string \<Rightarrow> LEvent option"
  tx_value :: "SignedTx \<Rightarrow> Json"

definition ledger_key :: "string \<Rightarrow> string \<Rightarrow> string" where
  "ledger_key kind i = kind @ '':'' @ i"

definition record_default :: "string \<Rightarrow> string \<Rightarrow> LRecord" where
  "record_default kind i = \<lparr>lr_kind = kind, lr_id = i, lr_state = '''', lr_amount = 0, lr_to = '''', lr_at = 0, lr_source_tx = '''',
     lr_hk_txid = None, lr_eth_tx = None, lr_note = None, lr_updated = 0, lr_attempts = 0\<rparr>"

definition field_str :: "(string \<times> Json) list \<Rightarrow> string \<Rightarrow> string option" where
  "field_str f k = and_then (map_of f k) as_str"

definition record_update :: "LEvent \<Rightarrow> LRecord \<Rightarrow> LRecord" where
  "record_update ev r =
     (let f = ev_fields ev in
      r\<lparr>lr_state := ev_state ev, lr_updated := ev_t ev,
        lr_amount := (case and_then (field_str f ''amount'') parse_u128 of Some a \<Rightarrow> a | None \<Rightarrow> lr_amount r),
        lr_to := (case field_str f ''to'' of Some s \<Rightarrow> s | None \<Rightarrow> lr_to r),
        lr_at := (case and_then (map_of f ''at'') as_u64 of Some n \<Rightarrow> n | None \<Rightarrow> lr_at r),
        lr_source_tx := (case field_str f ''source_tx'' of Some s \<Rightarrow> s | None \<Rightarrow> lr_source_tx r),
        lr_hk_txid := (case field_str f ''hk_txid'' of Some s \<Rightarrow> Some s | None \<Rightarrow> lr_hk_txid r),
        lr_eth_tx := (case field_str f ''eth_tx'' of Some s \<Rightarrow> Some s | None \<Rightarrow> lr_eth_tx r),
        lr_note := (case field_str f ''note'' of Some s \<Rightarrow> Some s | None \<Rightarrow> lr_note r),
        lr_attempts := (if map_of f ''attempt'' \<noteq> None then lr_attempts r + 1 else lr_attempts r)\<rparr>)"

definition ledger_fold :: "LEvent \<Rightarrow> Ledger \<Rightarrow> Ledger" where
  "ledger_fold ev l =
     (if ev_kind ev = ''cursor''
      then let n = unwrap_or (and_then (map_of (ev_fields ev) ''n'') as_u64) 0
           in if ev_id ev = ''eth'' then l\<lparr>lg_eth_cursor := n\<rparr>
              else if ev_id ev = ''hk'' then l\<lparr>lg_hk_cursor := n\<rparr> else l
      else let k = ledger_key (ev_kind ev) (ev_id ev);
               r = unwrap_or (bmap_get (lg_records l) k) (record_default (ev_kind ev) (ev_id ev))
           in l\<lparr>lg_records := bmap_insert (lg_records l) k (record_update ev r)\<rparr>)"

fun open_lines :: "'x bridge_env_scheme \<Rightarrow> nat \<Rightarrow> string list \<Rightarrow> Ledger \<Rightarrow> (Ledger, string) outcome" where
  "open_lines X n [] l = Ok l"
| "open_lines X n (line # lines) l =
     (if trim_str line = [] then open_lines X (Suc n) lines l
      else case de_event X line of
             None \<Rightarrow> Err (''ledger line '' @ show_dec (n + 1))
           | Some ev \<Rightarrow> open_lines X (Suc n) lines (ledger_fold ev l))"

definition ledger_open :: "'x bridge_env_scheme \<Rightarrow> string list \<Rightarrow> u64 \<Rightarrow> u64 \<Rightarrow> (Ledger, string) outcome" where
  "ledger_open X file eth_from hk_from =
     open_lines X 0 file \<lparr>lg_records = [], lg_eth_cursor = saturating_sub eth_from 1, lg_hk_cursor = saturating_sub hk_from 1\<rparr>"

definition ledger_has :: "Ledger \<Rightarrow> string \<Rightarrow> string \<Rightarrow> bool" where
  "ledger_has l kind i = bmap_contains (lg_records l) (ledger_key kind i)"

definition ledger_get :: "Ledger \<Rightarrow> string \<Rightarrow> string \<Rightarrow> LRecord option" where
  "ledger_get l kind i = bmap_get (lg_records l) (ledger_key kind i)"

definition in_states :: "Ledger \<Rightarrow> string \<Rightarrow> string list \<Rightarrow> LRecord list" where
  "in_states l kind states = filter (\<lambda>r. lr_kind r = kind \<and> lr_state r \<in> set states) (map snd (lg_records l))"

section \<open>The service\<close>

record Svc =
  sv_chain_id :: u64
  sv_confirm :: string
  sv_log_page :: u64
  sv_hk_batch :: u64
  sv_cosigners :: "string list"
  sv_signer :: Signer
  sv_vault :: Address
  sv_wrapped :: "Address option"
  sv_vault_domain :: bytes
  sv_wrapped_domain :: "bytes option"
  sv_usdc :: H256
  sv_hkt :: "H256 option"
  sv_issuer_seed :: bytes
  sv_issuer_id :: H256

text \<open>What left the process: a HashKinetics envelope or an Ethereum call, with the ledger key it was sent for.\<close>

datatype Sent = SentHk (sent_for: string) SignedTx | SentEth (sent_for: string) Address bytes

record Health =
  he_eth_head :: u64
  he_eth_safe :: u64
  he_hk_height :: u64
  he_vault_paused :: bool
  he_vault_remaining :: u128
  he_attestor_wei :: u128

record World =
  wd_clock :: nat
  wd_left :: nat
  wd_file :: "string list"
  wd_next_nonce :: u64
  wd_ledger :: Ledger
  wd_health :: Health
  wd_sent :: "Sent list"

definition elapse :: "World \<Rightarrow> World" where
  "elapse w = w\<lparr>wd_clock := Suc (wd_clock w), wd_left := wd_left w - 1\<rparr>"

definition ask :: "(nat \<Rightarrow> Net) \<Rightarrow> (Net \<Rightarrow> 'a) \<Rightarrow> World \<Rightarrow> ('a, string, World) step" where
  "ask N q w = (if wd_left w = 0 then (Panic, w) else (Ok (q (N (wd_clock w))), elapse w))"

definition ledger_write :: "'x bridge_env_scheme \<Rightarrow> (nat \<Rightarrow> Net) \<Rightarrow> string \<Rightarrow> string \<Rightarrow> string \<Rightarrow> (string \<times> Json) list \<Rightarrow> World \<Rightarrow> (unit, string, World) step" where
  "ledger_write X N kind i state flds w =
     (if wd_left w = 0 then (Panic, w)
      else let n = N (wd_clock w);
               ev = \<lparr>ev_t = nt_now n, ev_kind = kind, ev_id = i, ev_state = state, ev_fields = flds\<rparr>
           in case ser_event X ev of
                None \<Rightarrow> (Err ''serialize'', elapse w)
              | Some line \<Rightarrow>
                  (case nt_disk n of
                     Refused \<Rightarrow> (Err ''disk'', elapse w)
                   | Unsynced \<Rightarrow> (Err ''disk'', (elapse w)\<lparr>wd_file := wd_file w @ [line]\<rparr>)
                   | Written \<Rightarrow> (Ok (), (elapse w)\<lparr>wd_file := wd_file w @ [line], wd_ledger := ledger_fold ev (wd_ledger w)\<rparr>)))"

definition ledger_cursor :: "'x bridge_env_scheme \<Rightarrow> (nat \<Rightarrow> Net) \<Rightarrow> string \<Rightarrow> u64 \<Rightarrow> World \<Rightarrow> (unit, string, World) step" where
  "ledger_cursor X N chain n w = ledger_write X N ''cursor'' chain '''' [(''n'', JNum (uint n))] w"

section \<open>Ethereum calls\<close>

definition call_result :: "'x eth_env_scheme \<Rightarrow> string \<Rightarrow> (Json, string) outcome \<Rightarrow> (Json, string) outcome" where
  "call_result X meth r =
     bind_ok r (\<lambda>v. case json_get v ''error'' of
       Some e \<Rightarrow> Err (meth @ '': '' @ show_json X e)
     | None \<Rightarrow> ok_or (json_get v ''result'') (meth @ '': no result in '' @ show_json X v))"

definition eth_rpc :: "'x eth_env_scheme \<Rightarrow> (nat \<Rightarrow> Net) \<Rightarrow> string \<Rightarrow> Json \<Rightarrow> World \<Rightarrow> (Json, string, World) step" where
  "eth_rpc X N meth params w = try_rw (ask N (\<lambda>n. nt_eth n meth params) w) (\<lambda>r w. (call_result X meth r, w))"

definition qty64 :: "'x eth_env_scheme \<Rightarrow> Json \<Rightarrow> (u64, string) outcome" where
  "qty64 X v = bind_ok (qty X v) (\<lambda>n. Ok (u128_as_u64 n))"

definition block_number :: "'x eth_env_scheme \<Rightarrow> (nat \<Rightarrow> Net) \<Rightarrow> World \<Rightarrow> (u64, string, World) step" where
  "block_number X N w = try_rw (eth_rpc X N ''eth_blockNumber'' (JArr []) w) (\<lambda>v w. (qty64 X v, w))"

definition tagged_block :: "'x eth_env_scheme \<Rightarrow> (nat \<Rightarrow> Net) \<Rightarrow> string \<Rightarrow> World \<Rightarrow> (u64, string, World) step" where
  "tagged_block X N tag w =
     try_rw (eth_rpc X N ''eth_getBlockByNumber'' (JArr [JStr tag, JBool False]) w) (\<lambda>b w.
       if b = JNull then (Err (''no '' @ [CHR 0x27] @ tag @ [CHR 0x27] @ '' block (provider does not support the tag?)''), w)
       else (qty64 X (unwrap_or (json_get b ''number'') JNull), w))"

definition base_fee :: "'x eth_env_scheme \<Rightarrow> (nat \<Rightarrow> Net) \<Rightarrow> World \<Rightarrow> (u128, string, World) step" where
  "base_fee X N w =
     try_rw (eth_rpc X N ''eth_getBlockByNumber'' (JArr [JStr ''latest'', JBool False]) w) (\<lambda>b w.
       (qty X (unwrap_or (json_get b ''baseFeePerGas'') (JStr ''0x0'')), w))"

definition logs_params :: "'x eth_env_scheme \<Rightarrow> Address \<Rightarrow> bytes \<Rightarrow> u64 \<Rightarrow> u64 \<Rightarrow> Json" where
  "logs_params X a topic0 from_b to_b =
     JArr [JObj [(''address'', JStr (address_hex X a)), (''topics'', JArr [JStr (hex0x X topic0)]),
                 (''fromBlock'', JStr (qty_hex (u64_as_u128 from_b))), (''toBlock'', JStr (qty_hex (u64_as_u128 to_b)))]]"

definition eth_logs :: "'x eth_env_scheme \<Rightarrow> (nat \<Rightarrow> Net) \<Rightarrow> Address \<Rightarrow> bytes \<Rightarrow> u64 \<Rightarrow> u64 \<Rightarrow> World \<Rightarrow> (Json list, string, World) step" where
  "eth_logs X N a topic0 from_b to_b w =
     try_rw (eth_rpc X N ''eth_getLogs'' (logs_params X a topic0 from_b to_b) w) (\<lambda>r w.
       (ok_or (as_array r) ''eth_getLogs: not an array'', w))"

definition eth_call :: "'x eth_env_scheme \<Rightarrow> (nat \<Rightarrow> Net) \<Rightarrow> Address \<Rightarrow> bytes \<Rightarrow> World \<Rightarrow> (bytes, string, World) step" where
  "eth_call X N to_a data w =
     try_rw (eth_rpc X N ''eth_call'' (JArr [JObj [(''to'', JStr (address_hex X to_a)), (''data'', JStr (hex0x X data))], JStr ''latest'']) w) (\<lambda>r w.
       (unhex X (unwrap_or (as_str r) ''''), w))"

definition eth_nonce :: "'x eth_env_scheme \<Rightarrow> (nat \<Rightarrow> Net) \<Rightarrow> Address \<Rightarrow> World \<Rightarrow> (u128, string, World) step" where
  "eth_nonce X N who w =
     try_rw (eth_rpc X N ''eth_getTransactionCount'' (JArr [JStr (address_hex X who), JStr ''pending'']) w) (\<lambda>v w. (qty X v, w))"

definition estimate_gas :: "'x eth_env_scheme \<Rightarrow> (nat \<Rightarrow> Net) \<Rightarrow> Address \<Rightarrow> Address \<Rightarrow> bytes \<Rightarrow> World \<Rightarrow> (u128, string, World) step" where
  "estimate_gas X N from_a to_a data w =
     try_rw (eth_rpc X N ''eth_estimateGas'' (JArr [JObj [(''from'', JStr (address_hex X from_a)), (''to'', JStr (address_hex X to_a)), (''data'', JStr (hex0x X data))]]) w)
       (\<lambda>v w. (qty X v, w))"

definition priority_fee :: "'x eth_env_scheme \<Rightarrow> (nat \<Rightarrow> Net) \<Rightarrow> World \<Rightarrow> (u128, string, World) step" where
  "priority_fee X N w =
     (case eth_rpc X N ''eth_maxPriorityFeePerGas'' (JArr []) w of
        (Ok v, w1) \<Rightarrow> (qty X v, w1)
      | (Err e, w1) \<Rightarrow> (Ok 1500000000, w1)
      | (Panic, w1) \<Rightarrow> (Panic, w1))"

definition receipt_status :: "'x eth_env_scheme \<Rightarrow> (nat \<Rightarrow> Net) \<Rightarrow> string \<Rightarrow> World \<Rightarrow> ((bool \<times> u64) option, string, World) step" where
  "receipt_status X N tx_hash w =
     try_rw (eth_rpc X N ''eth_getTransactionReceipt'' (JArr [JStr tx_hash]) w) (\<lambda>r w.
       if r = JNull then (Ok None, w)
       else (bind_ok (qty X (unwrap_or (json_get r ''status'') (JStr ''0x0''))) (\<lambda>st.
             bind_ok (qty64 X (unwrap_or (json_get r ''blockNumber'') (JStr ''0x0''))) (\<lambda>b. Ok (Some (st = 1, b)))), w))"

definition balance_wei :: "'x eth_env_scheme \<Rightarrow> (nat \<Rightarrow> Net) \<Rightarrow> Address \<Rightarrow> World \<Rightarrow> (u128, string, World) step" where
  "balance_wei X N who w =
     try_rw (eth_rpc X N ''eth_getBalance'' (JArr [JStr (address_hex X who), JStr ''latest'']) w) (\<lambda>v w. (qty X v, w))"

text \<open>\<open>send_raw\<close>: the bytes leave the process; whether they arrive is the world's choice, as is the answer.\<close>

definition send_raw :: "'x eth_env_scheme \<Rightarrow> (nat \<Rightarrow> Net) \<Rightarrow> Sent \<Rightarrow> bytes \<Rightarrow> World \<Rightarrow> (string, string, World) step" where
  "send_raw X N what raw w =
     (if wd_left w = 0 then (Panic, w)
      else let n = N (wd_clock w); params = JArr [JStr (hex0x X raw)];
               w1 = (if nt_arrives n then (elapse w)\<lparr>wd_sent := wd_sent w @ [what]\<rparr> else elapse w)
           in (bind_ok (call_result X ''eth_sendRawTransaction'' (nt_eth n ''eth_sendRawTransaction'' params)) (\<lambda>r.
                 ok_or (as_str r) ''eth_sendRawTransaction: no hash''), w1))"

definition send_call :: "'x eth_env_scheme \<Rightarrow> (nat \<Rightarrow> Net) \<Rightarrow> Svc \<Rightarrow> string \<Rightarrow> Address \<Rightarrow> bytes \<Rightarrow> World \<Rightarrow> (string, string, World) step" where
  "send_call X N sv tag to_a data w =
     try_rw (eth_nonce X N (sg_address (sv_signer sv)) w) (\<lambda>nonce w.
     try_rw (estimate_gas X N (sg_address (sv_signer sv)) to_a data w) (\<lambda>est w.
     try_rw (base_fee X N w) (\<lambda>base w.
     try_rw (priority_fee X N w) (\<lambda>prio w.
       let tx = \<lparr>t9_chain_id = sv_chain_id sv, t9_nonce = nonce, t9_max_priority_fee = prio, t9_max_fee = base * 2 + prio,
                 t9_gas = est * 12 div 10, t9_to = to_a, t9_value = 0, t9_data = data\<rparr>
       in try_ro (eth_sign_tx X (sv_signer sv) tx) w (\<lambda>raw. send_raw X N (SentEth tag to_a data) raw w)))))"

section \<open>HashKinetics calls\<close>

definition hk_rpc :: "(nat \<Rightarrow> Net) \<Rightarrow> string \<Rightarrow> Json \<Rightarrow> World \<Rightarrow> (Json, string, World) step" where
  "hk_rpc N meth params w = ask N (\<lambda>n. nt_hk n meth params) w"

definition nonce_of_reply :: "Json \<Rightarrow> u64 option" where
  "nonce_of_reply v = and_then (json_get v ''result'') (\<lambda>r.
     and_then (and_then (json_get r ''found'') as_bool) (\<lambda>found. if found then and_then (json_get r ''nonce'') as_u64 else None))"

definition account_nonce :: "'x eth_env_scheme \<Rightarrow> (nat \<Rightarrow> Net) \<Rightarrow> H256 \<Rightarrow> World \<Rightarrow> (u64 option, string, World) step" where
  "account_nonce X N i w =
     try_rw (hk_rpc N ''hk_getAccount'' (JObj [(''id'', JStr (hex_encode X (h256_bytes i)))]) w) (\<lambda>v w. (Ok (nonce_of_reply v), w))"

definition receipt_of_reply :: "Json \<Rightarrow> string option" where
  "receipt_of_reply v = and_then (json_get v ''result'') (\<lambda>r.
     and_then (and_then (json_get r ''found'') as_bool) (\<lambda>found. if found then json_str r ''detail'' else None))"

definition hk_receipt :: "(nat \<Rightarrow> Net) \<Rightarrow> string \<Rightarrow> World \<Rightarrow> (string option, string, World) step" where
  "hk_receipt N txid w =
     try_rw (hk_rpc N ''hk_getReceipt'' (JObj [(''txid'', JStr txid)]) w) (\<lambda>v w. (Ok (receipt_of_reply v), w))"

definition chain_height :: "(nat \<Rightarrow> Net) \<Rightarrow> World \<Rightarrow> (u64, string, World) step" where
  "chain_height N w =
     try_rw (hk_rpc N ''hk_chainInfo'' (JObj []) w) (\<lambda>v w.
       (Ok (unwrap_or (and_then (and_then (json_get v ''result'') (\<lambda>r. json_get r ''height'')) as_u64) 0), w))"

definition commit_at :: "'x hash_env_scheme \<Rightarrow> bytes \<Rightarrow> u64 \<Rightarrow> H256" where
  "commit_at X seed nonce = pk_commit X (snd (keygen X seed nonce))"

definition wallet_sign :: "'x tx_env_scheme \<Rightarrow> bytes \<Rightarrow> H256 \<Rightarrow> u64 \<Rightarrow> Tx \<Rightarrow> SignedTx option" where
  "wallet_sign X seed i nonce payload = sign_tx X seed nonce i payload (commit_at X seed (nonce + 1))"

definition txid_of_reply :: "Json \<Rightarrow> string option" where
  "txid_of_reply v = and_then (and_then (json_get v ''result'') (\<lambda>r. json_get r ''txid'')) as_str"

text \<open>\<open>demo::submit\<close>: anything but an answer with a txid is reported as a failed submission.\<close>

definition hk_send :: "'x bridge_env_scheme \<Rightarrow> (nat \<Rightarrow> Net) \<Rightarrow> string \<Rightarrow> SignedTx \<Rightarrow> World \<Rightarrow> (string, string, World) step" where
  "hk_send X N tag tx w =
     (if wd_left w = 0 then (Panic, w)
      else let n = N (wd_clock w); v = nt_hk n ''hk_submitTx'' (JObj [(''tx'', tx_value X tx)]);
               w1 = (if nt_arrives n then (elapse w)\<lparr>wd_sent := wd_sent w @ [SentHk tag tx]\<rparr> else elapse w)
           in (Ok (unwrap_or (txid_of_reply v) (''submit-failed: '' @ show_json X v)), w1))"

definition save_nonce :: "(nat \<Rightarrow> Net) \<Rightarrow> u64 \<Rightarrow> World \<Rightarrow> (unit, string, World) step" where
  "save_nonce N n w =
     try_rw (ask N nt_save w) (\<lambda>r w. case r of Ok _ \<Rightarrow> (Ok (), w\<lparr>wd_next_nonce := n\<rparr>) | Err e \<Rightarrow> (Err e, w) | Panic \<Rightarrow> (Panic, w))"

definition hk_submit :: "'x bridge_env_scheme \<Rightarrow> (nat \<Rightarrow> Net) \<Rightarrow> Svc \<Rightarrow> string \<Rightarrow> Tx \<Rightarrow> World \<Rightarrow> (string, string, World) step" where
  "hk_submit X N sv tag payload w =
     try_rw (ask N nt_account w) (\<lambda>loaded w.
     try_ro loaded w (\<lambda>_.
     try_rw (account_nonce X N (sv_issuer_id sv) w) (\<lambda>on_chain w.
     try_ro (ok_or on_chain ''issuer account does not exist on-chain'') w (\<lambda>nonce.
     case wallet_sign X (sv_issuer_seed sv) (sv_issuer_id sv) nonce payload of
       None \<Rightarrow> (Panic, w)
     | Some tx \<Rightarrow>
         try_rw (save_nonce N (nonce + 1) w) (\<lambda>_ w.
         try_rw (hk_send X N tag tx w) (\<lambda>txid w.
           if starts_with txid ''submit-failed''
           then (case save_nonce N nonce w of (Panic, w1) \<Rightarrow> (Panic, w1) | (_, w1) \<Rightarrow> (Err txid, w1))
           else (Ok txid, w)))))))"

fun hk_wait_receipt :: "nat \<Rightarrow> (nat \<Rightarrow> Net) \<Rightarrow> string \<Rightarrow> World \<Rightarrow> (string option, string, World) step" where
  "hk_wait_receipt 0 N txid w = (Ok None, w)"
| "hk_wait_receipt (Suc k) N txid w =
     try_rw (hk_receipt N txid w) (\<lambda>r w. case r of Some t \<Rightarrow> (Ok (Some t), w) | None \<Rightarrow> hk_wait_receipt k N txid w)"

end
