(* ===== verification/HK_Attest.thy ===== *)
theory HK_Attest
  imports HK_Bridge
begin

text \<open>
  The loop of the bridge service (\<^verbatim>\<open>hk-node/src/attest.rs\<close>, \<open>Svc::tick\<close>): Ethereum events become mints on HashKinetics
  once their block is behind the safe head, HashKinetics burns become attested releases on Ethereum. The operator's
  \<^verbatim>\<open>attest-ledger resolve\<close> and the co-signer are at the end. The texts of notes are those of the source up to dashes.
\<close>

section \<open>Ethereum events to mints\<close>

definition parse_h256 :: "'x eth_env_scheme \<Rightarrow> string \<Rightarrow> (H256, string) outcome" where
  "parse_h256 X s =
     bind_ok (map_err (\<lambda>e. ''bad hex: '' @ e) (hex_decode X (trim_str s))) (\<lambda>raw.
       if length raw = 32 then Ok (h256_of_bytes raw) else Err ''expected 32 bytes (64 hex chars)'')"

definition eth_safe_head :: "'x eth_env_scheme \<Rightarrow> (nat \<Rightarrow> Net) \<Rightarrow> Svc \<Rightarrow> u64 \<Rightarrow> World \<Rightarrow> (u64, string, World) step" where
  "eth_safe_head X N sv head w =
     (let c = trim_str (sv_confirm sv)
      in if c \<in> {''finalized'', ''safe'', ''latest''} then tagged_block X N c w
         else case parse_u64 c of
                Some n \<Rightarrow> (Ok (saturating_sub head n), w)
              | None \<Rightarrow> (Err (''eth.confirm must be finalized|safe|latest|<blocks>, got '' @ [CHR 0x27] @ c @ [CHR 0x27]), w))"

definition record_eth_event :: "'x bridge_env_scheme \<Rightarrow> (nat \<Rightarrow> Net) \<Rightarrow> string \<Rightarrow> BridgeEvent \<Rightarrow> World \<Rightarrow> (unit, string, World) step" where
  "record_eth_event X N kind ev w =
     (let i = hex_encode X (be_id ev)
      in if ledger_has (wd_ledger w) kind i then (Ok (), w)
         else ledger_write X N kind i ''seen''
                [(''amount'', JStr (show_dec (unat (be_amount ev)))), (''to'', JStr (hex_encode X (be_hk_account ev))),
                 (''at'', JNum (uint (be_block ev))), (''source_tx'', JStr (be_tx_hash ev))] w)"

fun record_logs :: "'x bridge_env_scheme \<Rightarrow> (nat \<Rightarrow> Net) \<Rightarrow> string \<Rightarrow> Json list \<Rightarrow> World \<Rightarrow> (unit, string, World) step" where
  "record_logs X N kind [] w = (Ok (), w)"
| "record_logs X N kind (log # logs) w =
     try_ro (decode_bridge_event X log) w (\<lambda>ev.
     try_rw (record_eth_event X N kind ev w) (\<lambda>_ w. record_logs X N kind logs w))"

definition scan_page :: "'x bridge_env_scheme \<Rightarrow> (nat \<Rightarrow> Net) \<Rightarrow> Svc \<Rightarrow> u64 \<Rightarrow> World \<Rightarrow> (unit, string, World) step" where
  "scan_page X N sv head w =
     (let from_b = lg_eth_cursor (wd_ledger w) + 1;
          to_b = min (from_b + sv_log_page sv - 1) head
      in try_rw (eth_logs X N (sv_vault sv) (event_topic X LOCKED_SIG) from_b to_b w) (\<lambda>locked w.
         try_rw (record_logs X N ''deposit'' locked w) (\<lambda>_ w.
         try_rw (case sv_wrapped sv of
                   None \<Rightarrow> (Ok (), w)
                 | Some wr \<Rightarrow> try_rw (eth_logs X N wr (event_topic X BURNED_SIG) from_b to_b w) (\<lambda>burned w. record_logs X N ''wburn'' burned w)) (\<lambda>_ w.
           ledger_cursor X N ''eth'' to_b w))))"

text \<open>The loop takes as many rounds as the process has effects left, and every round takes one at least.\<close>

fun scan_eth_loop :: "nat \<Rightarrow> 'x bridge_env_scheme \<Rightarrow> (nat \<Rightarrow> Net) \<Rightarrow> Svc \<Rightarrow> u64 \<Rightarrow> World \<Rightarrow> (unit, string, World) step" where
  "scan_eth_loop 0 X N sv head w = (if lg_eth_cursor (wd_ledger w) < head then (Panic, w) else (Ok (), w))"
| "scan_eth_loop (Suc fuel) X N sv head w =
     (if lg_eth_cursor (wd_ledger w) < head
      then try_rw (scan_page X N sv head w) (\<lambda>_ w. scan_eth_loop fuel X N sv head w)
      else (Ok (), w))"

definition scan_eth :: "'x bridge_env_scheme \<Rightarrow> (nat \<Rightarrow> Net) \<Rightarrow> Svc \<Rightarrow> World \<Rightarrow> (unit, string, World) step" where
  "scan_eth X N sv w =
     try_rw (block_number X N w) (\<lambda>head w.
     try_rw (eth_safe_head X N sv head w) (\<lambda>safe w.
       let w1 = w\<lparr>wd_health := (wd_health w)\<lparr>he_eth_head := head, he_eth_safe := safe\<rparr>\<rparr>
       in scan_eth_loop (wd_left w1) X N sv head w1))"

definition settle_mint :: "'x bridge_env_scheme \<Rightarrow> (nat \<Rightarrow> Net) \<Rightarrow> string \<Rightarrow> string \<Rightarrow> string option \<Rightarrow> World \<Rightarrow> (unit, string, World) step" where
  "settle_mint X N kind i rc w =
     (case rc of
        Some t \<Rightarrow> ledger_write X N kind i (if starts_with t ''ok'' then ''confirmed'' else ''rejected'') [(''note'', JStr t)] w
      | None \<Rightarrow> (Ok (), w))"

definition send_mint :: "'x bridge_env_scheme \<Rightarrow> (nat \<Rightarrow> Net) \<Rightarrow> Svc \<Rightarrow> string \<Rightarrow> string \<Rightarrow> AssetId \<Rightarrow> H256 \<Rightarrow> u128 \<Rightarrow> World \<Rightarrow> (unit, string, World) step" where
  "send_mint X N sv kind i asset to_acc amount w =
     try_rw (ledger_write X N kind i ''submitting'' [(''attempt'', JNum 1)] w) (\<lambda>_ w.
       case hk_submit X N sv (ledger_key kind i) (AssetMint asset to_acc amount) w of
         (Ok txid, w) \<Rightarrow>
           try_rw (ledger_write X N kind i ''submitted'' [(''hk_txid'', JStr txid)] w) (\<lambda>_ w.
           try_rw (hk_wait_receipt 30 N txid w) (\<lambda>rc w. settle_mint X N kind i rc w))
       | (Err e, w) \<Rightarrow>
           try_rw (ledger_write X N kind i ''seen'' [(''note'', JStr (''submit failed: '' @ e))] w) (\<lambda>_ w. (Err (kind @ '' '' @ i @ '': '' @ e), w))
       | (Panic, w) \<Rightarrow> (Panic, w))"

definition process_eth_one :: "'x bridge_env_scheme \<Rightarrow> (nat \<Rightarrow> Net) \<Rightarrow> Svc \<Rightarrow> string \<Rightarrow> AssetId \<Rightarrow> u64 \<Rightarrow> LRecord \<Rightarrow> World \<Rightarrow> (unit, string, World) step" where
  "process_eth_one X N sv kind asset safe r w =
     (if lr_state r = ''submitted''
      then (case lr_hk_txid r of
              Some txid \<Rightarrow> try_rw (hk_receipt N txid w) (\<lambda>rc w. settle_mint X N kind (lr_id r) rc w)
            | None \<Rightarrow> (Ok (), w))
      else if lr_at r > safe then (Ok (), w)
      else case parse_h256 X (lr_to r) of
             Ok to_acc \<Rightarrow>
               try_rw (account_nonce X N to_acc w) (\<lambda>known w.
                 if known = None
                 then (if lr_state r \<noteq> ''held_recipient''
                       then ledger_write X N kind (lr_id r) ''held_recipient'' [(''note'', JStr ''hk account does not exist yet - retrying'')] w
                       else (Ok (), w))
                 else if lr_amount r = 0
                 then ledger_write X N kind (lr_id r) ''needs_review'' [(''note'', JStr ''zero amount'')] w
                 else send_mint X N sv kind (lr_id r) asset to_acc (lr_amount r) w)
           | _ \<Rightarrow> ledger_write X N kind (lr_id r) ''needs_review'' [(''note'', JStr ''bad hk account id'')] w)"

fun process_each :: "(LRecord \<Rightarrow> World \<Rightarrow> (unit, string, World) step) \<Rightarrow> LRecord list \<Rightarrow> World \<Rightarrow> (unit, string, World) step" where
  "process_each f [] w = (Ok (), w)"
| "process_each f (r # rs) w = try_rw (f r w) (\<lambda>_ w. process_each f rs w)"

definition process_eth_kind :: "'x bridge_env_scheme \<Rightarrow> (nat \<Rightarrow> Net) \<Rightarrow> Svc \<Rightarrow> u64 \<Rightarrow> string \<Rightarrow> AssetId \<Rightarrow> World \<Rightarrow> (unit, string, World) step" where
  "process_eth_kind X N sv safe kind asset w =
     process_each (process_eth_one X N sv kind asset safe) (in_states (wd_ledger w) kind [''seen'', ''held_recipient'', ''submitted'']) w"

definition process_eth_events :: "'x bridge_env_scheme \<Rightarrow> (nat \<Rightarrow> Net) \<Rightarrow> Svc \<Rightarrow> World \<Rightarrow> (unit, string, World) step" where
  "process_eth_events X N sv w =
     (let safe = he_eth_safe (wd_health w)
      in try_rw (process_eth_kind X N sv safe ''deposit'' (sv_usdc sv) w) (\<lambda>_ w.
           case sv_hkt sv of Some a \<Rightarrow> process_eth_kind X N sv safe ''wburn'' a w | None \<Rightarrow> (Ok (), w)))"

section \<open>HashKinetics burns to releases\<close>

definition burn_class :: "Json option \<Rightarrow> string" where
  "burn_class rc =
     (case rc of
        Some (JStr r) \<Rightarrow> if starts_with r ''ok'' then ''ok'' else ''rejected''
      | Some (JObj fs) \<Rightarrow>
          (case (and_then (map_of fs ''found'') as_bool, and_then (map_of fs ''ok'') as_bool) of
             (Some True, Some True) \<Rightarrow> ''ok''
           | (Some True, _) \<Rightarrow> ''rejected''
           | _ \<Rightarrow> ''unknown'')
      | _ \<Rightarrow> ''unknown'')"

definition burn_of_tx :: "string \<Rightarrow> Json \<Rightarrow> (string \<times> u128 \<times> string \<times> string) option" where
  "burn_of_tx asset_hex tx =
     (let f = unwrap_or (json_get tx ''fields'') JNull; class = burn_class (json_get tx ''receipt'')
      in if json_str tx ''kind'' \<noteq> Some ''asset_burn'' then None
         else if json_str f ''asset'' \<noteq> Some asset_hex then None
         else if class = ''rejected'' then None
         else Some (unwrap_or (json_str tx ''txid'') [], unwrap_or (and_then (json_str f ''amount'') parse_u128) 0,
                    unwrap_or (json_str f ''destination'') [], class))"

definition hk_burns_at :: "'x bridge_env_scheme \<Rightarrow> (nat \<Rightarrow> Net) \<Rightarrow> u64 \<Rightarrow> string \<Rightarrow> World \<Rightarrow> ((string \<times> u128 \<times> string \<times> string) list, string, World) step" where
  "hk_burns_at X N height asset_hex w =
     try_rw (hk_rpc N ''hk_getBlock'' (JObj [(''height'', JNum (uint height))]) w) (\<lambda>v w.
       let at_h = ''hk_getBlock '' @ show_dec (unat height)
       in case json_get v ''error'' of
            Some e \<Rightarrow> (Err (at_h @ '': '' @ show_json X e), w)
          | None \<Rightarrow>
              try_ro (ok_or (json_get v ''result'') (at_h @ '': no result'')) w (\<lambda>r.
                if and_then (json_get r ''found'') as_bool = Some False then (Err (at_h @ '': not found''), w)
                else (Ok (List.map_filter (burn_of_tx asset_hex) (unwrap_or (and_then (json_get r ''txs'') as_array) [])), w)))"

definition record_hk_burn :: "'x bridge_env_scheme \<Rightarrow> (nat \<Rightarrow> Net) \<Rightarrow> string \<Rightarrow> u64 \<Rightarrow> string \<times> u128 \<times> string \<times> string \<Rightarrow> World \<Rightarrow> (unit, string, World) step" where
  "record_hk_burn X N kind height burn w =
     (case burn of (txid, amount, dest_hex, class) \<Rightarrow>
        if ledger_has (wd_ledger w) kind txid then (Ok (), w)
        else let (state, text) =
               (if class = ''unknown''
                then (''needs_review'', ''the node has no receipt for this burn (restarted since?) - verify it was accepted, then resolve to seen'')
                else if length dest_hex = 40 then (''seen'', [])
                else (''unbridgeable'', ''destination is not a 20-byte address - an issuer decision, never automatic''))
             in ledger_write X N kind txid state
                  [(''amount'', JStr (show_dec (unat amount))), (''to'', JStr (''0x'' @ dest_hex)), (''at'', JNum (uint height)),
                   (''source_tx'', JStr txid), (''note'', JStr text)] w)"

fun record_burns :: "'x bridge_env_scheme \<Rightarrow> (nat \<Rightarrow> Net) \<Rightarrow> string \<Rightarrow> u64 \<Rightarrow> (string \<times> u128 \<times> string \<times> string) list \<Rightarrow> World \<Rightarrow> (unit, string, World) step" where
  "record_burns X N kind h [] w = (Ok (), w)"
| "record_burns X N kind h (b # bs) w = try_rw (record_hk_burn X N kind h b w) (\<lambda>_ w. record_burns X N kind h bs w)"

definition scan_hk_height :: "'x bridge_env_scheme \<Rightarrow> (nat \<Rightarrow> Net) \<Rightarrow> Svc \<Rightarrow> World \<Rightarrow> (unit, string, World) step" where
  "scan_hk_height X N sv w =
     (let h = lg_hk_cursor (wd_ledger w) + 1
      in try_rw (hk_burns_at X N h (hex_encode X (h256_bytes (sv_usdc sv))) w) (\<lambda>bs w.
         try_rw (record_burns X N ''burn'' h bs w) (\<lambda>_ w.
         try_rw (case sv_hkt sv of
                   None \<Rightarrow> (Ok (), w)
                 | Some a \<Rightarrow> try_rw (hk_burns_at X N h (hex_encode X (h256_bytes a)) w) (\<lambda>bs w. record_burns X N ''wlock'' h bs w)) (\<lambda>_ w.
           ledger_cursor X N ''hk'' h w))))"

fun scan_hk_loop :: "nat \<Rightarrow> 'x bridge_env_scheme \<Rightarrow> (nat \<Rightarrow> Net) \<Rightarrow> Svc \<Rightarrow> u64 \<Rightarrow> World \<Rightarrow> (unit, string, World) step" where
  "scan_hk_loop 0 X N sv stop w = (if lg_hk_cursor (wd_ledger w) < stop then (Panic, w) else (Ok (), w))"
| "scan_hk_loop (Suc fuel) X N sv stop w =
     (if lg_hk_cursor (wd_ledger w) < stop
      then try_rw (scan_hk_height X N sv w) (\<lambda>_ w. scan_hk_loop fuel X N sv stop w)
      else (Ok (), w))"

definition scan_hk :: "'x bridge_env_scheme \<Rightarrow> (nat \<Rightarrow> Net) \<Rightarrow> Svc \<Rightarrow> World \<Rightarrow> (unit, string, World) step" where
  "scan_hk X N sv w =
     try_rw (chain_height N w) (\<lambda>height w.
       if height = 0 then (Err ''hk: chain height 0 / RPC unreachable'', w)
       else let w1 = w\<lparr>wd_health := (wd_health w)\<lparr>he_hk_height := height\<rparr>\<rparr>;
                stop = min (lg_hk_cursor (wd_ledger w1) + sv_hk_batch sv) height
            in scan_hk_loop (wd_left w1) X N sv stop w1)"

definition vault_paused :: "'x eth_env_scheme \<Rightarrow> (nat \<Rightarrow> Net) \<Rightarrow> Svc \<Rightarrow> World \<Rightarrow> (bool, string, World) step" where
  "vault_paused X N sv w =
     try_rw (eth_call X N (sv_vault sv) (encode_view X ''paused()'') w) (\<lambda>b w. (bind_ok (decode_word_u b) (\<lambda>n. Ok (n = 1)), w))"

definition vault_remaining :: "'x eth_env_scheme \<Rightarrow> (nat \<Rightarrow> Net) \<Rightarrow> Svc \<Rightarrow> World \<Rightarrow> (u128, string, World) step" where
  "vault_remaining X N sv w =
     try_rw (eth_call X N (sv_vault sv) (encode_view X ''remainingToday()'') w) (\<lambda>b w. (decode_word_u b, w))"

definition trim_slashes :: "string \<Rightarrow> string" where
  "trim_slashes s = rev (dropWhile (\<lambda>c. c = CHR ''/'') (rev s))"

definition ok_opt :: "('a, 'e) outcome \<Rightarrow> 'a option" where
  "ok_opt r = (case r of Ok x \<Rightarrow> Some x | _ \<Rightarrow> None)"

definition cosig_of_reply :: "'x eth_env_scheme \<Rightarrow> Json \<Rightarrow> (Address \<times> bytes) option" where
  "cosig_of_reply X v =
     (case (and_then (json_str v ''sig'') (\<lambda>s. ok_opt (unhex X s)), and_then (json_str v ''address'') (\<lambda>s. ok_opt (address_parse X s))) of
        (Some s, Some a) \<Rightarrow> if length s = 65 then Some (a, s) else None
      | _ \<Rightarrow> None)"

fun cosign_loop :: "'x eth_env_scheme \<Rightarrow> (nat \<Rightarrow> Net) \<Rightarrow> Json \<Rightarrow> string list \<Rightarrow> (Address \<times> bytes) list \<Rightarrow> World \<Rightarrow> ((Address \<times> bytes) list, string, World) step" where
  "cosign_loop X N body [] sigs w = (Ok sigs, w)"
| "cosign_loop X N body (url # urls) sigs w =
     try_rw (ask N (\<lambda>n. nt_post n (trim_slashes url @ ''/sign'') body) w) (\<lambda>r w.
       cosign_loop X N body urls (case r of Ok v \<Rightarrow> (case cosig_of_reply X v of Some s \<Rightarrow> sigs @ [s] | None \<Rightarrow> sigs) | _ \<Rightarrow> sigs) w)"

fun dedup_sigs :: "(Address \<times> bytes) list \<Rightarrow> (Address \<times> bytes) list" where
  "dedup_sigs (x # y # rest) = (if fst x = fst y then dedup_sigs (x # rest) else x # dedup_sigs (y # rest))"
| "dedup_sigs xs = xs"

definition attest :: "'x eth_env_scheme \<Rightarrow> (nat \<Rightarrow> Net) \<Rightarrow> Svc \<Rightarrow> string \<Rightarrow> bytes \<Rightarrow> string \<Rightarrow> Address \<Rightarrow> u128 \<Rightarrow> bytes \<Rightarrow> World \<Rightarrow> (bytes list, string, World) step" where
  "attest X N sv kind domain type_sig to_a amount i w =
     (let digest = typed_digest X domain (attest_struct_hash X type_sig to_a amount i);
          body = JObj [(''kind'', JStr kind), (''to'', JStr (address_hex X to_a)), (''amount'', JStr (show_dec (unat amount))),
                       (''id'', JStr (hex_encode X i)), (''digest'', JStr (hex0x X digest))]
      in try_ro (sign_digest X (sv_signer sv) digest) w (\<lambda>own.
         try_rw (cosign_loop X N body (sv_cosigners sv) [(sg_address (sv_signer sv), own)] w) (\<lambda>sigs w.
           (Ok (map snd (dedup_sigs (sort_key fst sigs))), w))))"

fun wait_release :: "nat \<Rightarrow> 'x bridge_env_scheme \<Rightarrow> (nat \<Rightarrow> Net) \<Rightarrow> string \<Rightarrow> string \<Rightarrow> string \<Rightarrow> World \<Rightarrow> (unit, string, World) step" where
  "wait_release 0 X N kind i tx w = (Ok (), w)"
| "wait_release (Suc k) X N kind i tx w =
     try_rw (receipt_status X N tx w) (\<lambda>st w.
       case st of
         Some (True, b) \<Rightarrow> ledger_write X N kind i ''confirmed'' [(''note'', JStr (''eth block '' @ show_dec (unat b)))] w
       | Some (False, b) \<Rightarrow> ledger_write X N kind i ''reverted'' [(''note'', JStr (''eth tx reverted in block '' @ show_dec (unat b)))] w
       | None \<Rightarrow> wait_release k X N kind i tx w)"

definition send_release :: "'x bridge_env_scheme \<Rightarrow> (nat \<Rightarrow> Net) \<Rightarrow> Svc \<Rightarrow> string \<Rightarrow> string \<Rightarrow> Address \<Rightarrow> bytes \<Rightarrow> World \<Rightarrow> (unit, string, World) step" where
  "send_release X N sv kind i contract data w =
     try_rw (ledger_write X N kind i ''submitting'' [(''attempt'', JNum 1)] w) (\<lambda>_ w.
       case send_call X N sv (ledger_key kind i) contract data w of
         (Ok tx, w) \<Rightarrow>
           try_rw (ledger_write X N kind i ''submitted'' [(''eth_tx'', JStr tx)] w) (\<lambda>_ w. wait_release 20 X N kind i tx w)
       | (Err e, w) \<Rightarrow>
           try_rw (ledger_write X N kind i ''seen'' [(''note'', JStr (''send failed: '' @ e))] w) (\<lambda>_ w. (Err (kind @ '' '' @ i @ '': '' @ e), w))
       | (Panic, w) \<Rightarrow> (Panic, w))"

definition process_hk_one :: "'x bridge_env_scheme \<Rightarrow> (nat \<Rightarrow> Net) \<Rightarrow> Svc \<Rightarrow> string \<Rightarrow> Address \<times> bytes \<times> string \<times> string \<Rightarrow> bool \<Rightarrow> u128 \<Rightarrow> LRecord \<Rightarrow> World \<Rightarrow>
    (unit, string, World) step" where
  "process_hk_one X N sv kind target paused remaining r w =
     (case target of (contract, domain, fn_sig, type_sig) \<Rightarrow>
      case hex_decode X (lr_id r) of
        Ok i \<Rightarrow>
          if length i \<noteq> 32 then (Ok (), w)
          else
            try_rw (eth_call X N contract (encode_view_b32 X ''processed(bytes32)'' i) w) (\<lambda>b w.
            try_ro (decode_word_u b) w (\<lambda>n.
              if n = 1
              then (if lr_state r \<noteq> ''confirmed'' then ledger_write X N kind (lr_id r) ''confirmed'' [(''note'', JStr ''processed on chain'')] w else (Ok (), w))
              else if lr_state r = ''submitted''
              then (case lr_eth_tx r of
                      Some tx \<Rightarrow>
                        try_rw (receipt_status X N tx w) (\<lambda>st w.
                          case st of
                            Some (False, blk) \<Rightarrow> ledger_write X N kind (lr_id r) ''reverted'' [(''note'', JStr (''eth tx reverted in block '' @ show_dec (unat blk)))] w
                          | _ \<Rightarrow> (Ok (), w))
                    | None \<Rightarrow> (Ok (), w))
              else if paused
              then (if lr_state r \<noteq> ''queued_paused'' then ledger_write X N kind (lr_id r) ''queued_paused'' [(''note'', JStr ''contract paused'')] w else (Ok (), w))
              else if lr_amount r > remaining
              then (if lr_state r \<noteq> ''queued_cap''
                    then ledger_write X N kind (lr_id r) ''queued_cap'' [(''note'', JStr (''daily cap: '' @ show_dec (unat remaining) @ '' remaining today''))] w
                    else (Ok (), w))
              else try_ro (address_parse X (lr_to r)) w (\<lambda>to_a.
                   try_rw (attest X N sv kind domain type_sig to_a (lr_amount r) i w) (\<lambda>sigs w.
                     send_release X N sv kind (lr_id r) contract (encode_attested_call X fn_sig to_a (lr_amount r) i sigs) w))))
      | _ \<Rightarrow> (Ok (), w))"

definition process_hk_kind :: "'x bridge_env_scheme \<Rightarrow> (nat \<Rightarrow> Net) \<Rightarrow> Svc \<Rightarrow> bool \<Rightarrow> u128 \<Rightarrow> string \<Rightarrow> Address \<times> bytes \<times> string \<times> string \<Rightarrow> World \<Rightarrow> (unit, string, World) step" where
  "process_hk_kind X N sv paused remaining kind target w =
     process_each (process_hk_one X N sv kind target paused remaining)
       (in_states (wd_ledger w) kind [''seen'', ''queued_cap'', ''queued_paused'', ''submitted'']) w"

definition attestor_wei :: "'x eth_env_scheme \<Rightarrow> (nat \<Rightarrow> Net) \<Rightarrow> Svc \<Rightarrow> World \<Rightarrow> (u128, string, World) step" where
  "attestor_wei X N sv w =
     (case balance_wei X N (sg_address (sv_signer sv)) w of (Err e, w1) \<Rightarrow> (Ok 0, w1) | done_w \<Rightarrow> done_w)"

definition process_hk_burns :: "'x bridge_env_scheme \<Rightarrow> (nat \<Rightarrow> Net) \<Rightarrow> Svc \<Rightarrow> World \<Rightarrow> (unit, string, World) step" where
  "process_hk_burns X N sv w =
     try_rw (vault_paused X N sv w) (\<lambda>paused w.
     try_rw (vault_remaining X N sv w) (\<lambda>remaining w.
     try_rw (attestor_wei X N sv w) (\<lambda>wei w.
       let w1 = w\<lparr>wd_health := (wd_health w)\<lparr>he_vault_paused := paused, he_vault_remaining := remaining, he_attestor_wei := wei\<rparr>\<rparr>
       in try_rw (process_hk_kind X N sv paused remaining ''burn'' (sv_vault sv, sv_vault_domain sv, ''unlock(address,uint256,bytes32,bytes[])'', UNLOCK_TYPE) w1) (\<lambda>_ w.
            case (sv_wrapped sv, sv_wrapped_domain sv) of
              (Some wr, Some d) \<Rightarrow> process_hk_kind X N sv paused remaining ''wlock'' (wr, d, ''mint(address,uint256,bytes32,bytes[])'', MINT_TYPE) w
            | _ \<Rightarrow> (Ok (), w)))))"

definition tick :: "'x bridge_env_scheme \<Rightarrow> (nat \<Rightarrow> Net) \<Rightarrow> Svc \<Rightarrow> World \<Rightarrow> (unit, string, World) step" where
  "tick X N sv w =
     try_rw (scan_eth X N sv w) (\<lambda>_ w.
     try_rw (process_eth_events X N sv w) (\<lambda>_ w.
     try_rw (scan_hk X N sv w) (\<lambda>_ w. process_hk_burns X N sv w)))"

section \<open>The operator and the co-signer\<close>

fun resolve_flags :: "string list \<Rightarrow> (string \<times> Json) list \<Rightarrow> ((string \<times> Json) list, string) outcome" where
  "resolve_flags [] fs = Ok fs"
| "resolve_flags (flag # rest) fs =
     (let v = JStr (case rest of x # _ \<Rightarrow> x | [] \<Rightarrow> [])
      in if flag = ''--hk-txid'' then resolve_flags (tl rest) ((''hk_txid'', v) # fs)
         else if flag = ''--eth-tx'' then resolve_flags (tl rest) ((''eth_tx'', v) # fs)
         else if flag = ''--note'' then resolve_flags (tl rest) ((''note'', v) # fs)
         else Err (''unknown flag '' @ flag))"

text \<open>\<^verbatim>\<open>attest-ledger resolve\<close>: a process of its own on the same file; the moment and the disk's answer come from the world.\<close>

definition cmd_resolve :: "'x bridge_env_scheme \<Rightarrow> Net \<Rightarrow> string list \<Rightarrow> string \<Rightarrow> string \<Rightarrow> string \<Rightarrow> string list \<Rightarrow> (unit, string) outcome \<times> string list" where
  "cmd_resolve X n file kind i state args =
     (case ledger_open X file 0 0 of
        Ok l \<Rightarrow>
          if state \<notin> {''confirmed'', ''seen'', ''needs_review''} then (Err ''usage'', file)
          else if ledger_get l kind i = None then (Err (''no record '' @ kind @ '':'' @ i), file)
          else (case resolve_flags args [(''note'', JStr ''resolved by operator'')] of
                  Ok fs \<Rightarrow>
                    let ev = \<lparr>ev_t = nt_now n, ev_kind = kind, ev_id = i, ev_state = state, ev_fields = fs\<rparr>
                    in (case (ser_event X ev, nt_disk n) of
                          (None, _) \<Rightarrow> (Err ''serialize'', file)
                        | (Some line, Refused) \<Rightarrow> (Err ''disk'', file)
                        | (Some line, Unsynced) \<Rightarrow> (Err ''disk'', file @ [line])
                        | (Some line, Written) \<Rightarrow> (Ok (), file @ [line]))
                | Err e \<Rightarrow> (Err e, file)
                | Panic \<Rightarrow> (Panic, file))
      | Err e \<Rightarrow> (Err e, file)
      | Panic \<Rightarrow> (Panic, file))"

definition ascii_lower :: "string \<Rightarrow> string" where
  "ascii_lower s = map (\<lambda>c. let n = of_char c :: nat in if 65 \<le> n \<and> n \<le> 90 then char_of (n + 32) else c) s"

definition cosign_target :: "string option \<Rightarrow> bytes \<Rightarrow> bytes option \<Rightarrow> string \<Rightarrow> string \<Rightarrow> (bytes \<times> string \<times> string, string) outcome" where
  "cosign_target hkt_asset vault_domain wrapped_domain usdc_asset kind =
     (if kind = ''burn'' then Ok (vault_domain, UNLOCK_TYPE, usdc_asset)
      else if kind = ''wlock''
      then bind_ok (ok_or wrapped_domain ''no wrapped contract configured'') (\<lambda>d.
           bind_ok (ok_or hkt_asset ''no hkt asset configured'') (\<lambda>a. Ok (d, MINT_TYPE, a)))
      else Err ''kind must be burn|wlock'')"

definition cosign_check :: "'x eth_env_scheme \<Rightarrow> string \<Rightarrow> u128 \<Rightarrow> Address \<Rightarrow> Json \<Rightarrow> (unit, string) outcome" where
  "cosign_check X asset amount to_a own =
     bind_ok (ok_or (json_get own ''result'') ''hk_getTx: no result'') (\<lambda>r.
     if and_then (json_get r ''found'') as_bool \<noteq> Some True then Err ''burn not found on my HashKinetics node''
     else bind_ok (ok_or (json_get r ''summary'') ''no summary'') (\<lambda>s.
       if json_str s ''kind'' \<noteq> Some ''asset_burn'' then Err ''not an asset_burn''
       else bind_ok (ok_or (json_get s ''fields'') ''no fields'') (\<lambda>f.
         if json_str f ''asset'' \<noteq> Some asset then Err ''asset mismatch''
         else bind_ok (ok_or (and_then (json_str f ''amount'') parse_u128) ''amount field'') (\<lambda>amt.
           if amt \<noteq> amount then Err (''amount mismatch: chain says '' @ show_dec (unat amt))
           else if ascii_lower (unwrap_or (json_str f ''destination'') []) \<noteq> hex_encode X to_a then Err ''destination mismatch''
           else if \<not> starts_with (unwrap_or (json_str r ''receipt'') []) ''ok'' then Err ''burn was not accepted by the chain''
           else Ok ()))))"

text \<open>\<open>cosign_one\<close>: the answers of the co-signer's own node to \<^verbatim>\<open>hk_getTx\<close> are the argument \<open>own\<close>.\<close>

definition cosign_one :: "'x eth_env_scheme \<Rightarrow> Signer \<Rightarrow> string \<Rightarrow> string option \<Rightarrow> bytes \<Rightarrow> bytes option \<Rightarrow> (string \<Rightarrow> Json) \<Rightarrow> Json \<Rightarrow> (Json, string) outcome" where
  "cosign_one X signer usdc_asset hkt_asset vault_domain wrapped_domain own req =
     (let kind = unwrap_or (json_str req ''kind'') []; id_hex = unwrap_or (json_str req ''id'') []
      in bind_ok (address_parse X (unwrap_or (json_str req ''to'') [])) (\<lambda>to_a.
         bind_ok (ok_or (and_then (json_str req ''amount'') parse_u128) ''amount'') (\<lambda>amount.
         bind_ok (hex_decode X id_hex) (\<lambda>i.
         if length i \<noteq> 32 then Err ''id must be 32 bytes''
         else bind_ok (cosign_target hkt_asset vault_domain wrapped_domain usdc_asset kind) (\<lambda>(domain, type_sig, asset).
              bind_ok (cosign_check X asset amount to_a (own id_hex)) (\<lambda>_.
              let digest = typed_digest X domain (attest_struct_hash X type_sig to_a amount i)
              in bind_ok (case json_str req ''digest'' of
                            Some d \<Rightarrow> bind_ok (unhex X d) (\<lambda>sent. if sent \<noteq> digest then Err ''digest mismatch - refusing'' else Ok ())
                          | None \<Rightarrow> Ok ()) (\<lambda>_.
                 bind_ok (sign_digest X signer digest) (\<lambda>sig.
                   Ok (JObj [(''sig'', JStr (hex0x X sig)), (''address'', JStr (address_hex X (sg_address signer)))])))))))))"

end
