(* ===== verification/HK_Escrow.thy ===== *)
theory HK_Escrow
  imports HK_Attest
begin

text \<open>
  What the bridge service guarantees over any run, through kills at any moment, failing disks, lost and wrong answers and operator resolutions: a mint
  pays what a reported event locked and only behind a safe head computed from the provider's answers; and, where what arrived is not answered as failed and the
  operator returns a record only when nothing was sent for it, every deposit is minted and every burn released at most once. The flag \<open>once\<close> tells the two invariants apart.
\<close>

section \<open>Steps that leave the ledger alone\<close>

named_theorems quiet_intros

definition quiet :: "World \<Rightarrow> World \<Rightarrow> bool" where
  "quiet w w' \<longleftrightarrow> wd_file w' = wd_file w \<and> wd_ledger w' = wd_ledger w \<and> wd_sent w' = wd_sent w
     \<and> he_eth_safe (wd_health w') = he_eth_safe (wd_health w)"

definition stays :: "World \<Rightarrow> ('a, string, World) step \<Rightarrow> bool" where
  "stays w m \<longleftrightarrow> quiet w (snd m)"

lemma quiet_refl [simp]: "quiet w w"
  by (simp add: quiet_def)

lemma quiet_trans: "quiet w1 w2 \<Longrightarrow> quiet w2 w3 \<Longrightarrow> quiet w1 w3"
  by (simp add: quiet_def)

lemma quiet_elapse [simp]: "quiet w (elapse w)"
  by (simp add: quiet_def elapse_def)

lemma stays_ret [quiet_intros]: "stays w (r, w)"
  by (simp add: stays_def)

lemma stays_try_rw [quiet_intros]:
  assumes "stays w m" and "\<And>x w1. stays w1 (f x w1)"
  shows "stays w (try_rw m f)"
proof -
  obtain r w1 where m: "m = (r, w1)" by fastforce
  have "quiet w w1" using assms(1) by (simp add: stays_def m)
  then show ?thesis using assms(2) by (cases r) (auto simp: m stays_def intro: quiet_trans)
qed

lemma stays_try_ro [quiet_intros]: "(\<And>x. stays w (f x)) \<Longrightarrow> stays w (try_ro r w f)"
  by (cases r) (simp_all add: stays_def)

lemma stays_ask [quiet_intros]: "stays w (ask N q w)"
  by (simp add: ask_def stays_def)

lemma stays_if [quiet_intros]: "(b \<Longrightarrow> stays w x) \<Longrightarrow> (\<not> b \<Longrightarrow> stays w y) \<Longrightarrow> stays w (if b then x else y)"
  by simp

lemma stays_option [quiet_intros]: "stays w x \<Longrightarrow> (\<And>y. stays w (f y)) \<Longrightarrow> stays w (case m of None \<Rightarrow> x | Some y \<Rightarrow> f y)"
  by (cases m) auto

lemma stays_eth_rpc [quiet_intros]: "stays w (eth_rpc X N meth ps w)"
  unfolding eth_rpc_def by (intro quiet_intros)

lemma stays_eth [quiet_intros]:
  "stays w (block_number X N w)" "stays w (tagged_block X N tag w)" "stays w (base_fee X N w)" "stays w (eth_logs X N a t b c w)"
  "stays w (eth_call X N a d w)" "stays w (eth_nonce X N a w)" "stays w (estimate_gas X N a a2 d w)" "stays w (receipt_status X N h w)"
  unfolding block_number_def tagged_block_def base_fee_def eth_logs_def eth_call_def eth_nonce_def estimate_gas_def receipt_status_def
  by (intro quiet_intros)+

lemma stays_priority_fee [quiet_intros]: "stays w (priority_fee X N w)"
  using stays_eth_rpc [of w X N "''eth_maxPriorityFeePerGas''" "JArr []"]
  by (auto simp: priority_fee_def stays_def split: prod.splits outcome.splits)

lemma stays_balance_wei [quiet_intros]: "stays w (balance_wei X N who w)"
  unfolding balance_wei_def by (intro quiet_intros)

lemma stays_attestor_wei [quiet_intros]: "stays w (attestor_wei X N sv w)"
  using stays_balance_wei [of w X N "sg_address (sv_signer sv)"]
  by (auto simp: attestor_wei_def stays_def split: prod.splits outcome.splits)

lemma stays_hk [quiet_intros]:
  "stays w (hk_rpc N meth ps w)" "stays w (account_nonce X N i w)" "stays w (hk_receipt N txid w)" "stays w (chain_height N w)"
  unfolding account_nonce_def hk_receipt_def chain_height_def hk_rpc_def by (intro quiet_intros)+

lemma stays_save_nonce [quiet_intros]: "stays w (save_nonce N n w)"
proof -
  have "stays w1 (case r of Ok u \<Rightarrow> (Ok (), w1\<lparr>wd_next_nonce := n\<rparr>) | Err e \<Rightarrow> (Err e, w1) | Panic \<Rightarrow> (Panic, w1))" for r :: "(unit, string) outcome" and w1
    by (cases r) (simp_all add: stays_def quiet_def)
  then show ?thesis unfolding save_nonce_def by (intro quiet_intros)
qed

lemma stays_wait_receipt [quiet_intros]: "stays w (hk_wait_receipt k N txid w)"
  by (induction k arbitrary: w) (auto intro!: quiet_intros)

lemma stays_safe_head [quiet_intros]: "stays w (eth_safe_head X N sv head w)"
  unfolding eth_safe_head_def Let_def by (intro quiet_intros)

lemma stays_vault [quiet_intros]: "stays w (vault_paused X N sv w)" "stays w (vault_remaining X N sv w)"
  unfolding vault_paused_def vault_remaining_def by (intro quiet_intros)+

lemma stays_burns_at [quiet_intros]: "stays w (hk_burns_at X N h a w)"
  unfolding hk_burns_at_def Let_def by (intro quiet_intros)

lemma stays_cosign [quiet_intros]: "stays w (cosign_loop X N body urls sigs w)"
  by (induction urls arbitrary: sigs w) (auto intro!: quiet_intros)

lemma stays_attest [quiet_intros]: "stays w (attest X N sv kind d ty a n i w)"
  unfolding attest_def Let_def by (intro quiet_intros)

section \<open>The invariant\<close>

text \<open>The states the loop sends from, and the kinds of record it keeps.\<close>

definition ACTIVE :: "string set" where
  "ACTIVE = {''seen'', ''held_recipient'', ''queued_cap'', ''queued_paused''}"

definition KINDS :: "string set" where
  "KINDS = {''deposit'', ''wburn'', ''burn'', ''wlock''}"

text \<open>The JSON library reads back the line it printed, and a line is not blank.\<close>

definition lines_faithful :: "'x bridge_env_scheme \<Rightarrow> bool" where
  "lines_faithful X \<longleftrightarrow> (\<forall>ev line. ser_event X ev = Some line \<longrightarrow> de_event X line = Some ev \<and> trim_str line \<noteq> [])"

text \<open>An answer to a transaction that arrived says so: the other side is never reached by a send that is reported as failed.\<close>

definition replies_hold :: "'x bridge_env_scheme \<Rightarrow> (nat \<Rightarrow> Net) \<Rightarrow> bool" where
  "replies_hold X N \<longleftrightarrow> (\<forall>t ps. nt_arrives (N t) \<longrightarrow>
     (\<exists>txid. txid_of_reply (nt_hk (N t) ''hk_submitTx'' ps) = Some txid \<and> \<not> starts_with txid ''submit-failed'')
     \<and> (\<exists>hash. call_result X ''eth_sendRawTransaction'' (nt_eth (N t) ''eth_sendRawTransaction'' ps) = Ok (JStr hash)))"

text \<open>The Ethereum provider reported the event of a contract in some answer.\<close>

definition reported :: "'x eth_env_scheme \<Rightarrow> (nat \<Rightarrow> Net) \<Rightarrow> Address \<Rightarrow> string \<Rightarrow> BridgeEvent \<Rightarrow> bool" where
  "reported X N a sig ev \<longleftrightarrow> (\<exists>t from_b to_b v logs log.
     call_result X ''eth_getLogs'' (nt_eth (N t) ''eth_getLogs'' (logs_params X a (event_topic X sig) from_b to_b)) = Ok v
     \<and> as_array v = Some logs \<and> log \<in> set logs \<and> decode_bridge_event X log = Ok ev)"

definition locked :: "'x eth_env_scheme \<Rightarrow> (nat \<Rightarrow> Net) \<Rightarrow> Svc \<Rightarrow> string \<Rightarrow> BridgeEvent \<Rightarrow> bool" where
  "locked X N sv kind ev \<longleftrightarrow> kind = ''deposit'' \<and> reported X N (sv_vault sv) LOCKED_SIG ev
     \<or> kind = ''wburn'' \<and> (\<exists>a. sv_wrapped sv = Some a \<and> reported X N a BURNED_SIG ev)"

definition asset_of :: "Svc \<Rightarrow> string \<Rightarrow> AssetId option" where
  "asset_of sv kind = (if kind = ''deposit'' then Some (sv_usdc sv) else sv_hkt sv)"

text \<open>A safe head the service may act on: the provider answered a block number and, asked next, the service computed the safe head from it.\<close>

definition safe_reported :: "'x eth_env_scheme \<Rightarrow> (nat \<Rightarrow> Net) \<Rightarrow> Svc \<Rightarrow> u64 \<Rightarrow> bool" where
  "safe_reported X N sv s \<longleftrightarrow> (\<exists>head w w1 w2. block_number X N w = (Ok head, w1) \<and> eth_safe_head X N sv head w1 = (Ok s, w2))"

definition backed :: "'x eth_env_scheme \<Rightarrow> (nat \<Rightarrow> Net) \<Rightarrow> Svc \<Rightarrow> LRecord \<Rightarrow> bool" where
  "backed X N sv r \<longleftrightarrow> (\<exists>ev. locked X N sv (lr_kind r) ev \<and> lr_id r = hex_encode X (be_id ev) \<and> lr_amount r = be_amount ev
     \<and> lr_to r = hex_encode X (be_hk_account ev) \<and> lr_at r = be_block ev)"

definition sound_record :: "'x eth_env_scheme \<Rightarrow> (nat \<Rightarrow> Net) \<Rightarrow> Svc \<Rightarrow> string \<Rightarrow> LRecord \<Rightarrow> bool" where
  "sound_record X N sv k r \<longleftrightarrow> lr_kind r \<in> KINDS \<and> k = ledger_key (lr_kind r) (lr_id r)
     \<and> (lr_kind r \<in> {''deposit'', ''wburn''} \<longrightarrow> backed X N sv r)"

definition settled :: "(string, LRecord) btree_map \<Rightarrow> string \<Rightarrow> bool" where
  "settled m k \<longleftrightarrow> (\<exists>r. bmap_get m k = Some r \<and> lr_state r \<notin> ACTIVE)"

text \<open>What a mint pays: an event of the provider, to the account it names, behind a safe head the provider reported.\<close>

definition mint_due :: "'x eth_env_scheme \<Rightarrow> (nat \<Rightarrow> Net) \<Rightarrow> Svc \<Rightarrow> string \<Rightarrow> SignedTx \<Rightarrow> bool" where
  "mint_due X N sv k tx \<longleftrightarrow> (\<exists>kind ev asset to_acc. k = ledger_key kind (hex_encode X (be_id ev)) \<and> locked X N sv kind ev
     \<and> asset_of sv kind = Some asset \<and> parse_h256 X (hex_encode X (be_hk_account ev)) = Ok to_acc
     \<and> stx_payload tx = AssetMint asset to_acc (be_amount ev)
     \<and> (be_block ev = 0 \<or> (\<exists>s. be_block ev \<le> s \<and> safe_reported X N sv s)))"

definition sound_ledger :: "bool \<Rightarrow> 'x eth_env_scheme \<Rightarrow> (nat \<Rightarrow> Net) \<Rightarrow> Svc \<Rightarrow> Sent list \<Rightarrow> Ledger \<Rightarrow> bool" where
  "sound_ledger once X N sv sent l \<longleftrightarrow> bmap_ok (lg_records l) \<and> bmap_all (sound_record X N sv) (lg_records l)
     \<and> (once \<longrightarrow> (\<forall>e \<in> set sent. settled (lg_records l) (sent_for e)))"

definition bridge_ok :: "bool \<Rightarrow> 'x bridge_env_scheme \<Rightarrow> (nat \<Rightarrow> Net) \<Rightarrow> Svc \<Rightarrow> u64 \<Rightarrow> u64 \<Rightarrow> World \<Rightarrow> bool" where
  "bridge_ok once X N sv f h w \<longleftrightarrow>
     (\<exists>d. ledger_open X (wd_file w) f h = Ok d \<and> sound_ledger once X N sv (wd_sent w) d
          \<and> (\<forall>k. bmap_contains (lg_records (wd_ledger w)) k \<longrightarrow> bmap_contains (lg_records d) k))
     \<and> sound_ledger once X N sv (wd_sent w) (wd_ledger w)
     \<and> (once \<longrightarrow> distinct (map sent_for (wd_sent w))) \<and> (\<forall>k tx. SentHk k tx \<in> set (wd_sent w) \<longrightarrow> mint_due X N sv k tx)
     \<and> (he_eth_safe (wd_health w) = 0 \<or> safe_reported X N sv (he_eth_safe (wd_health w)))"

lemma bridge_ok_quiet: "bridge_ok once X N sv f h w \<Longrightarrow> quiet w w' \<Longrightarrow> bridge_ok once X N sv f h w'"
  by (simp add: bridge_ok_def quiet_def)

section \<open>Writing\<close>

lemma ledger_key_inj: "kind \<in> KINDS \<Longrightarrow> kind' \<in> KINDS \<Longrightarrow> ledger_key kind i = ledger_key kind' i' \<Longrightarrow> kind = kind' \<and> i = i'"
  by (auto simp: KINDS_def ledger_key_def)

lemma open_lines_append:
  "open_lines X n (xs @ [line]) l = bind_ok (open_lines X n xs l) (\<lambda>l. open_lines X (n + length xs) [line] l)"
  by (induction xs arbitrary: n l) (auto split: option.split)

lemma ledger_open_write:
  assumes "lines_faithful X" and "ser_event X ev = Some line" and "ledger_open X file f h = Ok d"
  shows "ledger_open X (file @ [line]) f h = Ok (ledger_fold ev d)"
  using assms by (simp add: ledger_open_def open_lines_append lines_faithful_def)

definition plain :: "(string \<times> Json) list \<Rightarrow> bool" where
  "plain flds \<longleftrightarrow> map_of flds ''amount'' = None \<and> map_of flds ''to'' = None \<and> map_of flds ''at'' = None"

definition event_fields :: "'x eth_env_scheme \<Rightarrow> BridgeEvent \<Rightarrow> (string \<times> Json) list" where
  "event_fields X ev = [(''amount'', JStr (show_dec (unat (be_amount ev)))), (''to'', JStr (hex_encode X (be_hk_account ev))),
     (''at'', JNum (uint (be_block ev))), (''source_tx'', JStr (be_tx_hash ev))]"

text \<open>A line the loop may write: it starts a record from a reported event or a burn, or changes a record that is there; a record
  something was sent for does not become active again.\<close>

definition may_write :: "bool \<Rightarrow> 'x bridge_env_scheme \<Rightarrow> (nat \<Rightarrow> Net) \<Rightarrow> Svc \<Rightarrow> World \<Rightarrow> string \<Rightarrow> string \<Rightarrow> string \<Rightarrow> (string \<times> Json) list \<Rightarrow> bool" where
  "may_write once X N sv w kind i st flds \<longleftrightarrow> kind \<in> KINDS
     \<and> (once \<longrightarrow> ledger_key kind i \<in> sent_for ` set (wd_sent w) \<longrightarrow> st \<notin> ACTIVE)
     \<and> (plain flds \<and> ledger_has (wd_ledger w) kind i
        \<or> (\<exists>ev. locked X N sv kind ev \<and> i = hex_encode X (be_id ev) \<and> flds = event_fields X ev) \<or> kind \<in> {''burn'', ''wlock''})"

lemma as_u64_uint [simp]: "as_u64 (JNum (uint (n :: u64))) = Some n"
  using uint_bounded [of n] by simp

lemma record_update_fields [simp]:
  "lr_kind (record_update ev r) = lr_kind r" "lr_id (record_update ev r) = lr_id r" "lr_state (record_update ev r) = ev_state ev"
  "plain (ev_fields ev) \<Longrightarrow> lr_amount (record_update ev r) = lr_amount r"
  "plain (ev_fields ev) \<Longrightarrow> lr_to (record_update ev r) = lr_to r" "plain (ev_fields ev) \<Longrightarrow> lr_at (record_update ev r) = lr_at r"
  by (simp_all add: record_update_def Let_def plain_def field_str_def)

lemma record_update_event:
  "ev_fields le = event_fields X ev \<Longrightarrow> lr_amount (record_update le r) = be_amount ev \<and> lr_to (record_update le r) = hex_encode X (be_hk_account ev)
     \<and> lr_at (record_update le r) = be_block ev"
  by (simp add: record_update_def Let_def event_fields_def field_str_def del: as_u64.simps)

lemma backed_update: "plain (ev_fields ev) \<Longrightarrow> backed X N sv (record_update ev r) = backed X N sv r"
  by (simp add: backed_def)

lemma fold_records:
  assumes "ev_kind ev \<in> KINDS"
  defines "k \<equiv> ledger_key (ev_kind ev) (ev_id ev)"
  shows "lg_records (ledger_fold ev l) = bmap_insert (lg_records l) k (record_update ev (unwrap_or (bmap_get (lg_records l) k) (record_default (ev_kind ev) (ev_id ev))))"
proof -
  have "ev_kind ev \<noteq> ''cursor''" using assms(1) by (auto simp: KINDS_def)
  then show ?thesis by (simp add: ledger_fold_def Let_def k_def)
qed

lemma sound_record_write:
  assumes "bmap_all (sound_record X N sv) m" and "ev_kind ev \<in> KINDS"
    and "plain (ev_fields ev) \<and> bmap_contains m (ledger_key (ev_kind ev) (ev_id ev))
        \<or> (\<exists>e. locked X N sv (ev_kind ev) e \<and> ev_id ev = hex_encode X (be_id e) \<and> ev_fields ev = event_fields X e) \<or> ev_kind ev \<in> {''burn'', ''wlock''}"
  shows "sound_record X N sv (ledger_key (ev_kind ev) (ev_id ev))
     (record_update ev (unwrap_or (bmap_get m (ledger_key (ev_kind ev) (ev_id ev))) (record_default (ev_kind ev) (ev_id ev))))"
proof -
  let ?k = "ledger_key (ev_kind ev) (ev_id ev)"
  let ?r = "unwrap_or (bmap_get m ?k) (record_default (ev_kind ev) (ev_id ev))"
  have r: "lr_kind ?r = ev_kind ev \<and> lr_id ?r = ev_id ev"
  proof (cases "bmap_get m ?k")
    case (Some r)
    then have "sound_record X N sv ?k r" using assms(1) by (rule bmap_all_get [rotated])
    then have "ev_kind ev = lr_kind r \<and> ev_id ev = lr_id r" by (intro ledger_key_inj [OF assms(2)]) (simp_all add: sound_record_def)
    then show ?thesis unfolding Some by simp
  qed (simp add: record_default_def)
  from assms(3) have "ev_kind ev \<in> {''deposit'', ''wburn''} \<Longrightarrow> backed X N sv (record_update ev ?r)"
  proof (elim disjE conjE exE)
    assume a: "plain (ev_fields ev)" "bmap_contains m ?k" "ev_kind ev \<in> {''deposit'', ''wburn''}"
    then obtain r where k: "bmap_get m ?k = Some r" by (auto simp: bmap_contains_def)
    then have "sound_record X N sv ?k r" using assms(1) by (rule bmap_all_get [rotated])
    moreover have "lr_kind r = ev_kind ev" using r unfolding k by simp
    ultimately have "backed X N sv r" using a(3) unfolding sound_record_def by metis
    then show ?thesis unfolding k unwrap_or_simps backed_update [OF a(1)] .
  next
    fix e assume "locked X N sv (ev_kind ev) e" "ev_id ev = hex_encode X (be_id e)" "ev_fields ev = event_fields X e"
    then show ?thesis using r record_update_event [of ev X e ?r] by (auto simp: backed_def)
  qed auto
  then show ?thesis using r assms(2) by (simp add: sound_record_def)
qed

lemma sound_ledger_write:
  assumes "sound_ledger once X N sv sent l" and "ev_kind ev \<in> KINDS"
    and "once \<longrightarrow> ledger_key (ev_kind ev) (ev_id ev) \<in> sent_for ` set sent \<longrightarrow> ev_state ev \<notin> ACTIVE"
    and "plain (ev_fields ev) \<and> bmap_contains (lg_records l) (ledger_key (ev_kind ev) (ev_id ev))
        \<or> (\<exists>e. locked X N sv (ev_kind ev) e \<and> ev_id ev = hex_encode X (be_id e) \<and> ev_fields ev = event_fields X e) \<or> ev_kind ev \<in> {''burn'', ''wlock''}"
  shows "sound_ledger once X N sv sent (ledger_fold ev l)"
proof -
  have "settled (lg_records (ledger_fold ev l)) (sent_for e)" if "e \<in> set sent" once for e
  proof (cases "sent_for e = ledger_key (ev_kind ev) (ev_id ev)")
    case True
    then have "ev_state ev \<notin> ACTIVE" using assms(3) that by (metis image_eqI)
    then show ?thesis using True by (simp add: settled_def fold_records [OF assms(2)])
  next
    case False
    then show ?thesis using assms(1) that by (simp add: settled_def fold_records [OF assms(2)] sound_ledger_def)
  qed
  then show ?thesis
    using assms(1) sound_record_write [OF _ assms(2,4)] by (simp add: sound_ledger_def fold_records [OF assms(2)] bmap_all_insert)
qed

text \<open>Everything the runs rest on: the line codec and, for what is paid once, the answers to submissions.\<close>

definition world_ok :: "bool \<Rightarrow> 'x bridge_env_scheme \<Rightarrow> (nat \<Rightarrow> Net) \<Rightarrow> bool" where
  "world_ok once X N \<longleftrightarrow> lines_faithful X \<and> (once \<longrightarrow> replies_hold X N)"

definition only_key :: "string \<Rightarrow> World \<Rightarrow> World \<Rightarrow> bool" where
  "only_key k w w' \<longleftrightarrow> (\<forall>k'. k' \<noteq> k \<longrightarrow> bmap_get (lg_records (wd_ledger w')) k' = bmap_get (lg_records (wd_ledger w)) k')"

lemma only_key_refl [simp]: "only_key k w w"
  by (simp add: only_key_def)

lemma only_key_trans: "only_key k w1 w2 \<Longrightarrow> only_key k w2 w3 \<Longrightarrow> only_key k w1 w3"
  by (simp add: only_key_def)

lemma only_key_quiet: "quiet w w' \<Longrightarrow> only_key k w w'"
  by (simp add: only_key_def quiet_def)

lemma ledger_has_key: "ledger_has l kind i = bmap_contains (lg_records l) (ledger_key kind i)"
  by (simp add: ledger_has_def)

lemma ledger_write_keeps:
  assumes "world_ok once X N" and "bridge_ok once X N sv f h w" and "may_write once X N sv w kind i st flds"
    and "ledger_write X N kind i st flds w = (r, w')"
  shows "bridge_ok once X N sv f h w'" "wd_sent w' = wd_sent w" "only_key (ledger_key kind i) w w'"
    "r = Ok () \<Longrightarrow> (\<exists>d. ledger_open X (wd_file w') f h = Ok d \<and> (st \<notin> ACTIVE \<longrightarrow> settled (lg_records d) (ledger_key kind i)))
       \<and> (st \<notin> ACTIVE \<longrightarrow> settled (lg_records (wd_ledger w')) (ledger_key kind i))"
proof -
  let ?ev = "\<lparr>ev_t = nt_now (N (wd_clock w)), ev_kind = kind, ev_id = i, ev_state = st, ev_fields = flds\<rparr>"
  let ?k = "ledger_key kind i"
  have kind: "ev_kind ?ev \<in> KINDS" using assms(3) by (simp add: may_write_def)
  note fr = fold_records [OF kind]
  obtain d where d: "ledger_open X (wd_file w) f h = Ok d" "sound_ledger once X N sv (wd_sent w) d"
      "\<forall>k. bmap_contains (lg_records (wd_ledger w)) k \<longrightarrow> bmap_contains (lg_records d) k"
    and mem: "sound_ledger once X N sv (wd_sent w) (wd_ledger w)" using assms(2) by (auto simp: bridge_ok_def)
  have act: "once \<longrightarrow> ledger_key (ev_kind ?ev) (ev_id ?ev) \<in> sent_for ` set (wd_sent w) \<longrightarrow> ev_state ?ev \<notin> ACTIVE"
    using assms(3) by (simp add: may_write_def)
  have dw: "sound_ledger once X N sv (wd_sent w) (ledger_fold ?ev d)"
    by (rule sound_ledger_write [OF d(2) kind act]) (use assms(3) d(3) in \<open>auto simp: may_write_def ledger_has_key\<close>)
  have mw: "sound_ledger once X N sv (wd_sent w) (ledger_fold ?ev (wd_ledger w))"
    by (rule sound_ledger_write [OF mem kind act]) (use assms(3) in \<open>auto simp: may_write_def ledger_has_key\<close>)
  have line: "ledger_open X (wd_file w @ [l]) f h = Ok (ledger_fold ?ev d)" if "ser_event X ?ev = Some l" for l
    by (rule ledger_open_write [OF _ that d(1)]) (use assms(1) in \<open>simp add: world_ok_def\<close>)
  consider (none) "quiet w w'" "r \<noteq> Ok ()"
    | (fileonly) l where "ser_event X ?ev = Some l" "w' = (elapse w)\<lparr>wd_file := wd_file w @ [l]\<rparr>" "r \<noteq> Ok ()"
    | (both) l where "ser_event X ?ev = Some l" "w' = (elapse w)\<lparr>wd_file := wd_file w @ [l], wd_ledger := ledger_fold ?ev (wd_ledger w)\<rparr>"
  proof (cases "wd_left w = 0 \<or> ser_event X ?ev = None")
    case True
    then show ?thesis using none assms(4) by (auto simp: ledger_write_def Let_def split: if_splits)
  next
    case False
    then obtain l where l: "ser_event X ?ev = Some l" "wd_left w \<noteq> 0" by auto
    then show ?thesis
      using none fileonly both assms(1,4) by (cases "nt_disk (N (wd_clock w))") (auto simp: ledger_write_def Let_def world_ok_def)
  qed
  then have "bridge_ok once X N sv f h w' \<and> wd_sent w' = wd_sent w \<and> only_key ?k w w' \<and> (r = Ok () \<longrightarrow>
     (\<exists>d. ledger_open X (wd_file w') f h = Ok d \<and> (st \<notin> ACTIVE \<longrightarrow> settled (lg_records d) ?k))
       \<and> (st \<notin> ACTIVE \<longrightarrow> settled (lg_records (wd_ledger w')) ?k))"
  proof cases
    case none
    then show ?thesis using bridge_ok_quiet [OF assms(2)] only_key_quiet by (auto simp: quiet_def)
  next
    case fileonly
    then show ?thesis using assms(2) dw line d(3) by (auto simp: bridge_ok_def elapse_def only_key_def fr)
  next
    case both
    then show ?thesis using assms(2) dw mw line [OF both(1)] d(3)
      by (auto simp: bridge_ok_def elapse_def only_key_def fr settled_def)
  qed
  then show "bridge_ok once X N sv f h w'" "wd_sent w' = wd_sent w" "only_key ?k w w'"
    "r = Ok () \<Longrightarrow> (\<exists>d. ledger_open X (wd_file w') f h = Ok d \<and> (st \<notin> ACTIVE \<longrightarrow> settled (lg_records d) ?k))
       \<and> (st \<notin> ACTIVE \<longrightarrow> settled (lg_records (wd_ledger w')) ?k)" by auto
qed

section \<open>Sending\<close>

text \<open>A step that sends at most one thing and, where the answers hold, reports no failure when it arrived.\<close>

definition sends :: "bool \<Rightarrow> (Sent \<Rightarrow> bool) \<Rightarrow> World \<Rightarrow> ('a, string, World) step \<Rightarrow> bool" where
  "sends once P w m \<longleftrightarrow> quiet w (snd m)
     \<or> (\<exists>e. P e \<and> quiet (w\<lparr>wd_sent := wd_sent w @ [e]\<rparr>) (snd m) \<and> (once \<longrightarrow> (\<forall>x. fst m \<noteq> Err x)))"

lemma sends_stays: "stays w m \<Longrightarrow> sends once P w m"
  by (simp add: sends_def stays_def)

lemma quiet_sent: "quiet w w1 \<Longrightarrow> quiet (w1\<lparr>wd_sent := wd_sent w1 @ [e]\<rparr>) w2 \<Longrightarrow> quiet (w\<lparr>wd_sent := wd_sent w @ [e]\<rparr>) w2"
  by (simp add: quiet_def)

lemma sends_try_rw:
  assumes "stays w m" and "\<And>x w1. sends once P w1 (g x w1)"
  shows "sends once P w (try_rw m g)"
proof -
  obtain r w1 where m: "m = (r, w1)" by fastforce
  have q: "quiet w w1" using assms(1) by (simp add: stays_def m)
  show ?thesis
  proof (cases r)
    case (Ok x)
    then show ?thesis using assms(2) [of w1 x] q by (auto simp: m sends_def intro: quiet_trans quiet_sent)
  qed (use q in \<open>simp_all add: m sends_def\<close>)
qed

lemma sends_try_ro: "(\<And>x. sends once P w (g x)) \<Longrightarrow> sends once P w (try_ro r w g)"
  by (cases r) (simp_all add: sends_def)

lemma send_raw_sends:
  assumes "once \<longrightarrow> replies_hold X N" and "P e"
  shows "sends once P w (send_raw X N e raw w)"
proof (cases "wd_left w = 0 \<or> \<not> nt_arrives (N (wd_clock w))")
  case True
  then show ?thesis by (auto simp: send_raw_def sends_def Let_def)
next
  case arrives: False
  show ?thesis
  proof (cases once)
    case True
    with arrives obtain hash where "call_result X ''eth_sendRawTransaction'' (nt_eth (N (wd_clock w)) ''eth_sendRawTransaction'' (JArr [JStr (hex0x X raw)])) = Ok (JStr hash)"
      using assms(1) unfolding replies_hold_def by blast
    then show ?thesis using arrives assms(2) by (auto simp: send_raw_def sends_def Let_def quiet_def elapse_def)
  next
    case False
    then show ?thesis using arrives assms(2) by (auto simp: send_raw_def sends_def Let_def quiet_def elapse_def)
  qed
qed

lemma send_call_sends:
  assumes "once \<longrightarrow> replies_hold X N"
  shows "sends once (\<lambda>e. \<exists>a d. e = SentEth tag a d) w (send_call X N sv tag to_a data w)"
  unfolding send_call_def Let_def
  by (intro sends_try_rw sends_try_ro send_raw_sends quiet_intros assms) blast

lemma hk_send_sends:
  assumes "once \<longrightarrow> replies_hold X N" and "P (SentHk tag tx)"
  shows "sends once P w (try_rw (hk_send X N tag tx w) (\<lambda>txid w.
           if starts_with txid ''submit-failed''
           then (case save_nonce N nonce w of (Panic, w1) \<Rightarrow> (Panic, w1) | (_, w1) \<Rightarrow> (Err txid, w1))
           else (Ok txid, w)))"
proof (cases "wd_left w = 0 \<or> \<not> nt_arrives (N (wd_clock w))")
  case True
  have "stays w (hk_send X N tag tx w)" using True by (auto simp: hk_send_def stays_def Let_def)
  moreover have "stays w1 (case save_nonce N nonce w1 of (Panic, w1) \<Rightarrow> (Panic, w1) | (_, w1) \<Rightarrow> (Err txid, w1))" for w1 and txid :: string
    using stays_save_nonce [of w1 N nonce] by (auto simp: stays_def split: prod.split outcome.split)
  ultimately show ?thesis by (intro sends_stays quiet_intros) auto
next
  case arrives: False
  let ?w1 = "(elapse w)\<lparr>wd_sent := wd_sent w @ [SentHk tag tx]\<rparr>"
  show ?thesis
  proof (cases once)
    case True
    with arrives obtain txid where "txid_of_reply (nt_hk (N (wd_clock w)) ''hk_submitTx'' (JObj [(''tx'', tx_value X tx)])) = Some txid" "\<not> starts_with txid ''submit-failed''"
      using assms(1) unfolding replies_hold_def by blast
    then show ?thesis using arrives assms(2) by (auto simp: hk_send_def sends_def Let_def quiet_def elapse_def)
  next
    case False
    have "quiet ?w1 (snd (save_nonce N nonce ?w1))" using stays_save_nonce [of ?w1 N nonce] by (simp add: stays_def)
    then have "quiet (w\<lparr>wd_sent := wd_sent w @ [SentHk tag tx]\<rparr>) (snd (save_nonce N nonce ?w1))" by (simp add: quiet_def elapse_def)
    then show ?thesis using arrives assms(2) False
      by (auto simp: hk_send_def sends_def Let_def quiet_def elapse_def split: prod.split outcome.split)
  qed
qed

lemma hk_submit_sends:
  assumes "once \<longrightarrow> replies_hold X N"
  shows "sends once (\<lambda>e. \<exists>tx. e = SentHk tag tx \<and> stx_payload tx = payload) w (hk_submit X N sv tag payload w)"
proof -
  have sign: "wallet_sign X seed i n payload = Some tx \<Longrightarrow> stx_payload tx = payload" for seed i n tx
    by (auto simp: wallet_sign_def sign_tx_def split: option.splits prod.splits)
  have tx: "sends once (\<lambda>e. \<exists>tx. e = SentHk tag tx \<and> stx_payload tx = payload) w1 (case wallet_sign X seed i n payload of None \<Rightarrow> (Panic, w1) | Some tx \<Rightarrow>
      try_rw (save_nonce N (n + 1) w1) (\<lambda>_ w. try_rw (hk_send X N tag tx w) (\<lambda>txid w.
           if starts_with txid ''submit-failed''
           then (case save_nonce N n w of (Panic, w1) \<Rightarrow> (Panic, w1) | (_, w1) \<Rightarrow> (Err txid, w1))
           else (Ok txid, w))))" for w1 seed i n
  proof (cases "wallet_sign X seed i n payload")
    case (Some tx)
    then show ?thesis using sign [OF Some]
      by (simp only: option.case) (intro sends_try_rw hk_send_sends assms quiet_intros; blast)
  qed (simp add: sends_def)
  show ?thesis unfolding hk_submit_def by (intro sends_try_rw sends_try_ro tx quiet_intros)
qed

text \<open>Sending for a record that is settled on disk and in memory, and was not sent for before.\<close>

lemma sends_keep:
  assumes "bridge_ok once X N sv f h w" and "sends once P w m" and "\<forall>e. P e \<longrightarrow> sent_for e = k \<and> (\<forall>k' tx. e = SentHk k' tx \<longrightarrow> mint_due X N sv k' tx)"
    and "once \<longrightarrow> k \<notin> sent_for ` set (wd_sent w)" and "settled (lg_records (wd_ledger w)) k"
    and "\<exists>d. ledger_open X (wd_file w) f h = Ok d \<and> settled (lg_records d) k"
  shows "bridge_ok once X N sv f h (snd m)" "only_key k w (snd m)" "once \<Longrightarrow> fst m = Err x \<Longrightarrow> wd_sent (snd m) = wd_sent w"
    "settled (lg_records (wd_ledger (snd m))) k"
proof -
  have "bridge_ok once X N sv f h (snd m) \<and> only_key k w (snd m) \<and> (once \<longrightarrow> fst m = Err x \<longrightarrow> wd_sent (snd m) = wd_sent w)
     \<and> settled (lg_records (wd_ledger (snd m))) k"
    using assms(2) unfolding sends_def
  proof (elim disjE exE conjE)
    assume "quiet w (snd m)"
    then show ?thesis using bridge_ok_quiet [OF assms(1)] assms(5) by (auto simp: quiet_def only_key_def)
  next
    fix e assume e: "P e" and q: "quiet (w\<lparr>wd_sent := wd_sent w @ [e]\<rparr>) (snd m)" and r: "once \<longrightarrow> (\<forall>x. fst m \<noteq> Err x)"
    have "bridge_ok once X N sv f h (w\<lparr>wd_sent := wd_sent w @ [e]\<rparr>)"
      using assms(1,4-6) mp [OF spec [OF assms(3)] e] by (auto simp: bridge_ok_def sound_ledger_def)
    then show ?thesis using bridge_ok_quiet [OF _ q] q r assms(5) by (auto simp: quiet_def only_key_def)
  qed
  then show "bridge_ok once X N sv f h (snd m)" "only_key k w (snd m)" "once \<Longrightarrow> fst m = Err x \<Longrightarrow> wd_sent (snd m) = wd_sent w"
    "settled (lg_records (wd_ledger (snd m))) k" by auto
qed

section \<open>One record\<close>

definition does :: "bool \<Rightarrow> 'x bridge_env_scheme \<Rightarrow> (nat \<Rightarrow> Net) \<Rightarrow> Svc \<Rightarrow> u64 \<Rightarrow> u64 \<Rightarrow> string \<Rightarrow> World \<Rightarrow> ('a, string, World) step \<Rightarrow> bool" where
  "does once X N sv f h k w m \<longleftrightarrow> bridge_ok once X N sv f h (snd m) \<and> only_key k w (snd m)"

lemma does_stays: "bridge_ok once X N sv f h w \<Longrightarrow> stays w m \<Longrightarrow> does once X N sv f h k w m"
  by (simp add: does_def stays_def bridge_ok_quiet only_key_quiet)

lemma does_ret: "bridge_ok once X N sv f h w \<Longrightarrow> does once X N sv f h k w (r, w)"
  by (simp add: does_def)

lemma does_try_rw:
  assumes "does once X N sv f h k w m" and "\<And>x w1. m = (Ok x, w1) \<Longrightarrow> bridge_ok once X N sv f h w1 \<Longrightarrow> does once X N sv f h k w1 (g x w1)"
  shows "does once X N sv f h k w (try_rw m g)"
proof -
  obtain r w1 where m: "m = (r, w1)" by fastforce
  have ok: "bridge_ok once X N sv f h w1" "only_key k w w1" using assms(1) by (simp_all add: does_def m)
  show ?thesis
  proof (cases r)
    case (Ok x)
    then show ?thesis using assms(2) [of x w1] ok by (auto simp: m does_def intro: only_key_trans)
  qed (use ok in \<open>simp_all add: m does_def\<close>)
qed

lemma does_after:
  assumes "bridge_ok once X N sv f h w" and "stays w m" and "\<And>x w1. quiet w w1 \<Longrightarrow> bridge_ok once X N sv f h w1 \<Longrightarrow> does once X N sv f h k w1 (g x w1)"
  shows "does once X N sv f h k w (try_rw m g)"
  by (rule does_try_rw [OF does_stays [OF assms(1,2)]]) (use assms in \<open>auto simp: stays_def\<close>)

lemma does_try_ro: "bridge_ok once X N sv f h w \<Longrightarrow> (\<And>x. does once X N sv f h k w (g x)) \<Longrightarrow> does once X N sv f h k w (try_ro r w g)"
  by (cases r) (simp_all add: does_def)

lemma does_write:
  assumes "world_ok once X N" and "bridge_ok once X N sv f h w" and "may_write once X N sv w kind i st flds"
  shows "does once X N sv f h (ledger_key kind i) w (ledger_write X N kind i st flds w)"
proof -
  obtain r w' where e: "ledger_write X N kind i st flds w = (r, w')" by fastforce
  show ?thesis using ledger_write_keeps(1,3) [OF assms e] by (simp add: does_def e)
qed

lemma may_write_plain:
  assumes "kind \<in> KINDS" and "plain flds" and "ledger_has (wd_ledger w) kind i" and "once \<longrightarrow> st \<notin> ACTIVE \<or> ledger_key kind i \<notin> sent_for ` set (wd_sent w)"
  shows "may_write once X N sv w kind i st flds"
  using assms by (auto simp: may_write_def)

lemma settled_has: "settled (lg_records l) (ledger_key kind i) \<Longrightarrow> ledger_has l kind i"
  by (auto simp: settled_def ledger_has_def bmap_contains_def)

lemma plain_single [simp]: "k \<notin> {''amount'', ''to'', ''at''} \<Longrightarrow> plain [(k, v)]"
  by (auto simp: plain_def)

text \<open>Write ahead, send, record the outcome: the shape both directions share.\<close>

lemma does_send:
  assumes W: "world_ok once X N" and ok: "bridge_ok once X N sv f h w" and kind: "kind \<in> KINDS" and has: "ledger_has (wd_ledger w) kind i"
    and fresh: "once \<longrightarrow> ledger_key kind i \<notin> sent_for ` set (wd_sent w)"
    and out: "\<And>w. sends once P w (submit w)"
    and P: "\<forall>e. P e \<longrightarrow> sent_for e = ledger_key kind i \<and> (\<forall>k' tx. e = SentHk k' tx \<longrightarrow> mint_due X N sv k' tx)"
    and rest: "\<And>x w1. bridge_ok once X N sv f h w1 \<Longrightarrow> ledger_has (wd_ledger w1) kind i \<Longrightarrow> does once X N sv f h (ledger_key kind i) w1 (after x w1)"
  shows "does once X N sv f h (ledger_key kind i) w
    (try_rw (ledger_write X N kind i ''submitting'' [(''attempt'', JNum 1)] w) (\<lambda>_ w.
       case submit w of
         (Ok x, w) \<Rightarrow> after x w
       | (Err e, w) \<Rightarrow> try_rw (ledger_write X N kind i ''seen'' [(''note'', JStr (txt e))] w) (\<lambda>_ w. (Err (msg e), w))
       | (Panic, w) \<Rightarrow> (Panic, w)))"
proof (rule does_try_rw)
  let ?k = "ledger_key kind i"
  have mw: "may_write once X N sv w kind i ''submitting'' [(''attempt'', JNum 1)]"
    by (rule may_write_plain [OF kind _ has]) (use fresh in auto)
  show "does once X N sv f h ?k w (ledger_write X N kind i ''submitting'' [(''attempt'', JNum 1)] w)" by (rule does_write [OF W ok mw])
  fix x w1
  assume w1: "ledger_write X N kind i ''submitting'' [(''attempt'', JNum 1)] w = (Ok x, w1)" and ok1: "bridge_ok once X N sv f h w1"
  have "''submitting'' \<notin> ACTIVE" by (simp add: ACTIVE_def)
  then have set1: "settled (lg_records (wd_ledger w1)) ?k" "\<exists>d. ledger_open X (wd_file w1) f h = Ok d \<and> settled (lg_records d) ?k"
    using ledger_write_keeps(4) [OF W ok mw w1] by auto
  have fresh1: "once \<longrightarrow> ?k \<notin> sent_for ` set (wd_sent w1)" using ledger_write_keeps(2) [OF W ok mw w1] fresh by simp
  obtain r w2 where s: "submit w1 = (r, w2)" by fastforce
  note keep = sends_keep [OF ok1 out P fresh1 set1, unfolded s fst_conv snd_conv]
  have has2: "ledger_has (wd_ledger w2) kind i" by (rule settled_has [OF keep(4)])
  have "does once X N sv f h ?k w2 (case r of Ok x \<Rightarrow> after x w2
       | Err e \<Rightarrow> try_rw (ledger_write X N kind i ''seen'' [(''note'', JStr (txt e))] w2) (\<lambda>_ w. (Err (msg e), w)) | Panic \<Rightarrow> (Panic, w2))"
  proof (cases r)
    case (Err e)
    have "may_write once X N sv w2 kind i ''seen'' [(''note'', JStr (txt e))]"
      by (rule may_write_plain [OF kind _ has2]) (use fresh1 keep(3) [OF _ Err] in auto)
    then show ?thesis unfolding Err outcome.case by (intro does_try_rw does_write [OF W keep(1)] does_ret)
  qed (use rest [OF keep(1) has2] keep(1) in \<open>simp_all add: does_ret\<close>)
  then show "does once X N sv f h ?k w1 (case submit w1 of (Ok x, w) \<Rightarrow> after x w
       | (Err e, w) \<Rightarrow> try_rw (ledger_write X N kind i ''seen'' [(''note'', JStr (txt e))] w) (\<lambda>_ w. (Err (msg e), w)) | (Panic, w) \<Rightarrow> (Panic, w))"
    using keep(2) unfolding s by (cases r) (auto simp: does_def intro: only_key_trans)
qed

lemma does_inactive:
  assumes "world_ok once X N" and "bridge_ok once X N sv f h w" and "kind \<in> KINDS" and "ledger_has (wd_ledger w) kind i" and "st \<notin> ACTIVE" and "plain flds"
  shows "does once X N sv f h (ledger_key kind i) w (ledger_write X N kind i st flds w)"
  by (rule does_write [OF assms(1,2) may_write_plain]) (use assms in auto)

lemma does_settle:
  assumes "world_ok once X N" and "bridge_ok once X N sv f h w" and "kind \<in> KINDS" and "ledger_has (wd_ledger w) kind i"
  shows "does once X N sv f h (ledger_key kind i) w (settle_mint X N kind i rc w)"
proof (cases rc)
  case (Some t)
  show ?thesis unfolding settle_mint_def Some option.case
    by (rule does_inactive [OF assms]) (auto simp: ACTIVE_def)
qed (simp add: settle_mint_def does_ret assms(2))

lemma quiet_has: "quiet w w1 \<Longrightarrow> ledger_has (wd_ledger w) kind i \<Longrightarrow> ledger_has (wd_ledger w1) kind i"
  by (simp add: quiet_def)

lemma only_write_has:
  assumes "world_ok once X N" and "bridge_ok once X N sv f h w" and "kind \<in> KINDS" and "ledger_has (wd_ledger w) kind i" and "st \<notin> ACTIVE" and "plain flds"
    and "ledger_write X N kind i st flds w = (Ok u, w1)"
  shows "ledger_has (wd_ledger w1) kind i"
  using ledger_write_keeps(4) [OF assms(1,2) may_write_plain [OF assms(3,6,4)] assms(7)] assms(5) settled_has by fastforce

lemma does_send_mint:
  assumes W: "world_ok once X N" and ok: "bridge_ok once X N sv f h w" and kind: "kind \<in> KINDS" and has: "ledger_has (wd_ledger w) kind i"
    and fresh: "once \<longrightarrow> ledger_key kind i \<notin> sent_for ` set (wd_sent w)"
    and due: "\<And>tx. stx_payload tx = AssetMint asset to_acc amount \<Longrightarrow> mint_due X N sv (ledger_key kind i) tx"
  shows "does once X N sv f h (ledger_key kind i) w (send_mint X N sv kind i asset to_acc amount w)"
  unfolding send_mint_def
proof (rule does_send [OF W ok kind has fresh, where submit = "hk_submit X N sv (ledger_key kind i) (AssetMint asset to_acc amount)"])
  show "sends once (\<lambda>e. \<exists>tx. e = SentHk (ledger_key kind i) tx \<and> stx_payload tx = AssetMint asset to_acc amount) w
      (hk_submit X N sv (ledger_key kind i) (AssetMint asset to_acc amount) w)" for w
    by (rule hk_submit_sends) (use W in \<open>simp add: world_ok_def\<close>)
  fix txid w1 assume ok1: "bridge_ok once X N sv f h w1" and has1: "ledger_has (wd_ledger w1) kind i"
  have st: "''submitted'' \<notin> ACTIVE" by (simp add: ACTIVE_def)
  show "does once X N sv f h (ledger_key kind i) w1 (try_rw (ledger_write X N kind i ''submitted'' [(''hk_txid'', JStr txid)] w1) (\<lambda>_ w.
           try_rw (hk_wait_receipt 30 N txid w) (\<lambda>rc w. settle_mint X N kind i rc w)))"
  proof (rule does_try_rw [OF does_inactive [OF W ok1 kind has1 st]])
    fix u w2 assume w2: "ledger_write X N kind i ''submitted'' [(''hk_txid'', JStr txid)] w1 = (Ok u, w2)" "bridge_ok once X N sv f h w2"
    have has2: "ledger_has (wd_ledger w2) kind i" by (rule only_write_has [OF W ok1 kind has1 st _ w2(1)]) simp
    show "does once X N sv f h (ledger_key kind i) w2 (try_rw (hk_wait_receipt 30 N txid w2) (\<lambda>rc w. settle_mint X N kind i rc w))"
      by (rule does_after [OF w2(2) stays_wait_receipt]) (intro does_settle [OF W _ kind] quiet_has [OF _ has2])
  qed simp
qed (use due in auto)

text \<open>A record as the ledger has it now.\<close>

definition current :: "World \<Rightarrow> string \<Rightarrow> LRecord \<Rightarrow> bool" where
  "current w kind r \<longleftrightarrow> lr_kind r = kind \<and> bmap_get (lg_records (wd_ledger w)) (ledger_key kind (lr_id r)) = Some r"

lemma current_has: "current w kind r \<Longrightarrow> ledger_has (wd_ledger w) kind (lr_id r)"
  by (simp add: current_def ledger_has_def bmap_contains_def)

lemma current_quiet: "current w kind r \<Longrightarrow> quiet w w1 \<Longrightarrow> current w1 kind r"
  by (simp add: current_def quiet_def)

lemma active_fresh:
  assumes "bridge_ok once X N sv f h w" and "current w kind r" and "lr_state r \<in> ACTIVE"
  shows "once \<longrightarrow> ledger_key kind (lr_id r) \<notin> sent_for ` set (wd_sent w)"
proof (intro impI notI)
  assume once and "ledger_key kind (lr_id r) \<in> sent_for ` set (wd_sent w)"
  then have "settled (lg_records (wd_ledger w)) (ledger_key kind (lr_id r))" using assms(1) by (auto simp: bridge_ok_def sound_ledger_def)
  then show False using assms(2,3) by (auto simp: settled_def current_def)
qed

lemma does_active:
  assumes "world_ok once X N" and "bridge_ok once X N sv f h w" and "kind \<in> KINDS" and "current w kind r" and "lr_state r \<in> ACTIVE" and "plain flds"
  shows "does once X N sv f h (ledger_key kind (lr_id r)) w (ledger_write X N kind (lr_id r) st flds w)"
  by (rule does_write [OF assms(1,2) may_write_plain]) (use assms current_has active_fresh [OF assms(2,4,5)] in auto)

lemma record_mint_due:
  assumes "bridge_ok once X N sv f h w" and "current w kind r" and "kind \<in> {''deposit'', ''wburn''}" and "asset_of sv kind = Some asset"
    and "parse_h256 X (lr_to r) = Ok to_acc" and "lr_at r \<le> s" and "s = 0 \<or> safe_reported X N sv s"
    and "stx_payload tx = AssetMint asset to_acc (lr_amount r)"
  shows "mint_due X N sv (ledger_key kind (lr_id r)) tx"
proof -
  have "bmap_all (sound_record X N sv) (lg_records (wd_ledger w))" using assms(1) by (simp add: bridge_ok_def sound_ledger_def)
  then have "sound_record X N sv (ledger_key kind (lr_id r)) r" by (rule bmap_all_get) (use assms(2) in \<open>simp add: current_def\<close>)
  then have "backed X N sv r" using assms(2,3) unfolding sound_record_def current_def by metis
  then obtain ev where ev: "locked X N sv kind ev" "lr_id r = hex_encode X (be_id ev)" "lr_amount r = be_amount ev"
     "lr_to r = hex_encode X (be_hk_account ev)" "lr_at r = be_block ev" using assms(2) by (auto simp: backed_def current_def)
  show ?thesis unfolding mint_due_def
    by (intro exI [of _ kind] exI [of _ ev] exI [of _ asset] exI [of _ to_acc] exI [of _ s]) (use ev assms in auto)
qed

lemma does_process_eth_one:
  assumes W: "world_ok once X N" and ok: "bridge_ok once X N sv f h w" and kind: "kind \<in> {''deposit'', ''wburn''}" and r: "current w kind r"
    and st: "lr_state r \<in> {''seen'', ''held_recipient'', ''submitted''}" and asset: "asset_of sv kind = Some asset"
    and safe: "s = 0 \<or> safe_reported X N sv s"
  shows "does once X N sv f h (ledger_key kind (lr_id r)) w (process_eth_one X N sv kind asset s r w)"
proof -
  have K: "kind \<in> KINDS" using kind by (auto simp: KINDS_def)
  show ?thesis
  proof (cases "lr_state r = ''submitted''")
    case True
    then show ?thesis
    proof (cases "lr_hk_txid r")
      case (Some txid)
      show ?thesis unfolding process_eth_one_def True Some option.case if_True eqTrueI [OF refl]
        by (rule does_after [OF ok]) (auto intro!: quiet_intros does_settle [OF W _ K] quiet_has [OF _ current_has [OF r]])
    qed (simp add: process_eth_one_def does_ret ok)
  next
    case False
    then have act: "lr_state r \<in> ACTIVE" using st by (auto simp: ACTIVE_def)
    show ?thesis
    proof (cases "lr_at r > s")
      case True
      then show ?thesis using False by (simp add: process_eth_one_def does_ret ok)
    next
      case at: False
      show ?thesis
      proof (cases "parse_h256 X (lr_to r)")
        case (Ok to_acc)
        show ?thesis unfolding process_eth_one_def Ok outcome.case if_not_P [OF False] if_not_P [OF at]
        proof (rule does_after [OF ok stays_hk(2)])
          fix known w1 assume q: "quiet w w1" and ok1: "bridge_ok once X N sv f h w1"
          note r1 = current_quiet [OF r q]
          have mint: "does once X N sv f h (ledger_key kind (lr_id r)) w1 (send_mint X N sv kind (lr_id r) asset to_acc (lr_amount r) w1)"
            by (rule does_send_mint [OF W ok1 K current_has [OF r1] active_fresh [OF ok1 r1 act]], rule record_mint_due [OF ok1 r1 kind asset Ok])
              (use at safe in auto)
          show "does once X N sv f h (ledger_key kind (lr_id r)) w1
             (if known = None then (if lr_state r \<noteq> ''held_recipient''
                       then ledger_write X N kind (lr_id r) ''held_recipient'' [(''note'', JStr ''hk account does not exist yet - retrying'')] w1 else (Ok (), w1))
              else if lr_amount r = 0 then ledger_write X N kind (lr_id r) ''needs_review'' [(''note'', JStr ''zero amount'')] w1
              else send_mint X N sv kind (lr_id r) asset to_acc (lr_amount r) w1)"
            using mint does_active [OF W ok1 K r1 act] by (simp add: does_ret [OF ok1])
        qed
      qed (simp_all add: process_eth_one_def False at does_active [OF W ok K r act])
    qed
  qed
qed

lemma does_wait_release:
  assumes "world_ok once X N" and "kind \<in> KINDS" and "bridge_ok once X N sv f h w" and "ledger_has (wd_ledger w) kind i"
  shows "does once X N sv f h (ledger_key kind i) w (wait_release n X N kind i tx w)"
  using assms(3,4)
proof (induction n arbitrary: w)
  case (Suc n)
  show ?case unfolding wait_release.simps
  proof (rule does_after [OF Suc.prems(1) stays_eth(8)])
    fix st w1 assume q: "quiet w w1" and ok1: "bridge_ok once X N sv f h w1"
    note has1 = quiet_has [OF q Suc.prems(2)]
    show "does once X N sv f h (ledger_key kind i) w1 (case st of
         Some (True, b) \<Rightarrow> ledger_write X N kind i ''confirmed'' [(''note'', JStr (''eth block '' @ show_dec (unat b)))] w1
       | Some (False, b) \<Rightarrow> ledger_write X N kind i ''reverted'' [(''note'', JStr (''eth tx reverted in block '' @ show_dec (unat b)))] w1
       | None \<Rightarrow> wait_release n X N kind i tx w1)"
      using does_inactive [OF assms(1) ok1 assms(2) has1] Suc.IH [OF ok1 has1] by (auto simp: ACTIVE_def split: option.split bool.split)
  qed
qed (simp add: does_ret)

lemma does_send_release:
  assumes W: "world_ok once X N" and ok: "bridge_ok once X N sv f h w" and kind: "kind \<in> KINDS" and has: "ledger_has (wd_ledger w) kind i"
    and fresh: "once \<longrightarrow> ledger_key kind i \<notin> sent_for ` set (wd_sent w)"
  shows "does once X N sv f h (ledger_key kind i) w (send_release X N sv kind i contract data w)"
  unfolding send_release_def
proof (rule does_send [OF W ok kind has fresh, where submit = "send_call X N sv (ledger_key kind i) contract data"])
  show "sends once (\<lambda>e. \<exists>a d. e = SentEth (ledger_key kind i) a d) w (send_call X N sv (ledger_key kind i) contract data w)" for w
    by (rule send_call_sends) (use W in \<open>simp add: world_ok_def\<close>)
  fix tx w1 assume ok1: "bridge_ok once X N sv f h w1" and has1: "ledger_has (wd_ledger w1) kind i"
  have st: "''submitted'' \<notin> ACTIVE" by (simp add: ACTIVE_def)
  show "does once X N sv f h (ledger_key kind i) w1 (try_rw (ledger_write X N kind i ''submitted'' [(''eth_tx'', JStr tx)] w1) (\<lambda>_ w. wait_release 20 X N kind i tx w))"
  proof (rule does_try_rw [OF does_inactive [OF W ok1 kind has1 st]])
    fix u w2 assume w2: "ledger_write X N kind i ''submitted'' [(''eth_tx'', JStr tx)] w1 = (Ok u, w2)" "bridge_ok once X N sv f h w2"
    have "ledger_has (wd_ledger w2) kind i" by (rule only_write_has [OF W ok1 kind has1 st _ w2(1)]) simp
    then show "does once X N sv f h (ledger_key kind i) w2 (wait_release 20 X N kind i tx w2)" by (rule does_wait_release [OF W kind w2(2)])
  qed simp
qed auto

lemma does_process_hk_one:
  assumes W: "world_ok once X N" and ok: "bridge_ok once X N sv f h w" and kind: "kind \<in> {''burn'', ''wlock''}" and r: "current w kind r"
    and st: "lr_state r \<in> {''seen'', ''queued_cap'', ''queued_paused'', ''submitted''}"
  shows "does once X N sv f h (ledger_key kind (lr_id r)) w (process_hk_one X N sv kind target paused remaining r w)"
proof -
  obtain contract domain fn_sig type_sig where t: "target = (contract, domain, fn_sig, type_sig)" by (cases target)
  have K: "kind \<in> KINDS" using kind by (auto simp: KINDS_def)
  show ?thesis
  proof (cases "\<exists>i. hex_decode X (lr_id r) = Ok i \<and> length i = 32")
    case True
    then obtain i where i: "hex_decode X (lr_id r) = Ok i" "length i = 32" by blast
    have len: "\<not> length i \<noteq> 32" using i(2) by simp
    show ?thesis unfolding process_hk_one_def t prod.case i(1) outcome.case if_not_P [OF len]
    proof (rule does_after [OF ok stays_eth(5)], rule does_try_ro, assumption)
      fix b w1 and n :: u128
      assume q: "quiet w w1" and ok1: "bridge_ok once X N sv f h w1"
      note r1 = current_quiet [OF r q] and W1 = does_inactive [OF W ok1 K current_has [OF current_quiet [OF r q]]]
      have sub: "does once X N sv f h (ledger_key kind (lr_id r)) w1 (case lr_eth_tx r of
           Some tx \<Rightarrow> try_rw (receipt_status X N tx w1) (\<lambda>st w. case st of
                Some (False, blk) \<Rightarrow> ledger_write X N kind (lr_id r) ''reverted'' [(''note'', JStr (''eth tx reverted in block '' @ show_dec (unat blk)))] w
              | _ \<Rightarrow> (Ok (), w))
         | None \<Rightarrow> (Ok (), w1))"
      proof (cases "lr_eth_tx r")
        case (Some tx)
        show ?thesis unfolding Some option.case
        proof (rule does_after [OF ok1 stays_eth(8)])
          fix st w2 assume q2: "quiet w1 w2" and ok2: "bridge_ok once X N sv f h w2"
          show "does once X N sv f h (ledger_key kind (lr_id r)) w2 (case st of
                Some (False, blk) \<Rightarrow> ledger_write X N kind (lr_id r) ''reverted'' [(''note'', JStr (''eth tx reverted in block '' @ show_dec (unat blk)))] w2
              | _ \<Rightarrow> (Ok (), w2))"
            using does_inactive [OF W ok2 K current_has [OF current_quiet [OF r1 q2]]]
            by (auto simp: ACTIVE_def does_ret [OF ok2] split: option.split bool.split)
        qed
      qed (simp add: does_ret ok1)
      have act: "lr_state r \<in> ACTIVE" if "lr_state r \<noteq> ''submitted''" using st that by (auto simp: ACTIVE_def)
      have snd: "does once X N sv f h (ledger_key kind (lr_id r)) w1 (try_ro (address_parse X (lr_to r)) w1 (\<lambda>to_a.
           try_rw (attest X N sv kind domain type_sig to_a (lr_amount r) i w1) (\<lambda>sigs w.
             send_release X N sv kind (lr_id r) contract (encode_attested_call X fn_sig to_a (lr_amount r) i sigs) w)))" if "lr_state r \<noteq> ''submitted''"
      proof (rule does_try_ro [OF ok1], rule does_after [OF ok1 stays_attest])
        fix to_a sigs w2 assume q2: "quiet w1 w2" and ok2: "bridge_ok once X N sv f h w2"
        note r2 = current_quiet [OF r1 q2]
        show "does once X N sv f h (ledger_key kind (lr_id r)) w2
            (send_release X N sv kind (lr_id r) contract (encode_attested_call X fn_sig to_a (lr_amount r) i sigs) w2)"
          by (rule does_send_release [OF W ok2 K current_has [OF r2] active_fresh [OF ok2 r2 act [OF that]]])
      qed
      show "does once X N sv f h (ledger_key kind (lr_id r)) w1
        (if n = 1
              then (if lr_state r \<noteq> ''confirmed'' then ledger_write X N kind (lr_id r) ''confirmed'' [(''note'', JStr ''processed on chain'')] w1 else (Ok (), w1))
              else if lr_state r = ''submitted''
              then (case lr_eth_tx r of
                      Some tx \<Rightarrow>
                        try_rw (receipt_status X N tx w1) (\<lambda>st w.
                          case st of
                            Some (False, blk) \<Rightarrow> ledger_write X N kind (lr_id r) ''reverted'' [(''note'', JStr (''eth tx reverted in block '' @ show_dec (unat blk)))] w
                          | _ \<Rightarrow> (Ok (), w))
                    | None \<Rightarrow> (Ok (), w1))
              else if paused
              then (if lr_state r \<noteq> ''queued_paused'' then ledger_write X N kind (lr_id r) ''queued_paused'' [(''note'', JStr ''contract paused'')] w1 else (Ok (), w1))
              else if lr_amount r > remaining
              then (if lr_state r \<noteq> ''queued_cap''
                    then ledger_write X N kind (lr_id r) ''queued_cap'' [(''note'', JStr (''daily cap: '' @ show_dec (unat remaining) @ '' remaining today''))] w1
                    else (Ok (), w1))
              else try_ro (address_parse X (lr_to r)) w1 (\<lambda>to_a.
                   try_rw (attest X N sv kind domain type_sig to_a (lr_amount r) i w1) (\<lambda>sigs w.
                     send_release X N sv kind (lr_id r) contract (encode_attested_call X fn_sig to_a (lr_amount r) i sigs) w)))"
      proof (cases "n = 1 \<or> lr_state r = ''submitted''")
        case True
        have "''confirmed'' \<notin> ACTIVE" by (simp add: ACTIVE_def)
        then show ?thesis using True sub W1 [of "''confirmed''" "[(''note'', JStr ''processed on chain'')]"]
          by (cases "n = 1") (simp_all add: does_ret [OF ok1])
      next
        case False
        then have ns: "lr_state r \<noteq> ''submitted''" by simp
        show ?thesis using False snd [OF ns] does_active [OF W ok1 K r1 act [OF ns]] by (simp add: does_ret [OF ok1])
      qed
    qed
  next
    case False
    then have "process_hk_one X N sv kind target paused remaining r w = (Ok (), w)"
      by (auto simp: process_hk_one_def t split: outcome.split)
    then show ?thesis by (simp add: does_ret ok)
  qed
qed

section \<open>The whole loop\<close>

lemma process_each_keeps:
  assumes "\<And>r w. bridge_ok once X N sv f h w \<Longrightarrow> current w kind r \<Longrightarrow> lr_state r \<in> states \<Longrightarrow>
      does once X N sv f h (ledger_key kind (lr_id r)) w (g r w)"
    and "bridge_ok once X N sv f h w" and "\<forall>r \<in> set rs. current w kind r \<and> lr_state r \<in> states" and "distinct (map (\<lambda>r. ledger_key kind (lr_id r)) rs)"
  shows "bridge_ok once X N sv f h (snd (process_each g rs w))"
  using assms(2-4)
proof (induction rs arbitrary: w)
  case (Cons r rs)
  obtain x w1 where g: "g r w = (x, w1)" by fastforce
  have d: "bridge_ok once X N sv f h w1" "only_key (ledger_key kind (lr_id r)) w w1"
    using assms(1) [OF Cons.prems(1), of r] Cons.prems(2) by (simp_all add: does_def g)
  have "\<forall>q \<in> set rs. current w1 kind q \<and> lr_state q \<in> states"
  proof
    fix q assume q: "q \<in> set rs"
    have "ledger_key kind (lr_id q) \<noteq> ledger_key kind (lr_id r)" using Cons.prems(3) imageI [OF q, of "\<lambda>r. ledger_key kind (lr_id r)"] by auto
    then show "current w1 kind q \<and> lr_state q \<in> states" using Cons.prems(2) q d(2) by (simp add: current_def only_key_def)
  qed
  then show ?case using Cons.IH [OF d(1)] Cons.prems(3) d(1) by (cases x) (simp_all add: g)
qed simp

lemma in_states_current:
  assumes "bridge_ok once X N sv f h w"
  shows "\<forall>r \<in> set (in_states (wd_ledger w) kind states). current w kind r \<and> lr_state r \<in> set states"
    "distinct (map (\<lambda>r. ledger_key kind (lr_id r)) (in_states (wd_ledger w) kind states))"
proof -
  let ?m = "lg_records (wd_ledger w)"
  have ok: "bmap_ok ?m" "\<forall>(k, r) \<in> set ?m. sound_record X N sv k r"
    using assms by (auto simp: bridge_ok_def sound_ledger_def bmap_all_def list_all_iff)
  show "\<forall>r \<in> set (in_states (wd_ledger w) kind states). current w kind r \<and> lr_state r \<in> set states"
    using ok bmap_mem_get [OF ok(1)] by (fastforce simp: in_states_def current_def sound_record_def)
  have eq: "map (\<lambda>r. ledger_key (lr_kind r) (lr_id r)) (map snd ?m) = map fst ?m"
    using ok(2) by (auto simp: sound_record_def intro!: map_cong)
  have "distinct (map (\<lambda>r. ledger_key (lr_kind r) (lr_id r)) (map snd ?m))"
    unfolding eq using ok(1) by (simp add: bmap_ok_def strict_sorted_iff)
  then have "distinct (map (\<lambda>r. ledger_key (lr_kind r) (lr_id r)) (in_states (wd_ledger w) kind states))"
    unfolding in_states_def by (rule distinct_map_filter)
  moreover have "map (\<lambda>r. ledger_key kind (lr_id r)) (in_states (wd_ledger w) kind states) = map (\<lambda>r. ledger_key (lr_kind r) (lr_id r)) (in_states (wd_ledger w) kind states)"
    by (rule map_cong) (auto simp: in_states_def)
  ultimately show "distinct (map (\<lambda>r. ledger_key kind (lr_id r)) (in_states (wd_ledger w) kind states))" by (simp only:)
qed

lemma process_eth_kind_keeps:
  assumes "world_ok once X N" and "bridge_ok once X N sv f h w" and "kind \<in> {''deposit'', ''wburn''}" and "asset_of sv kind = Some asset"
    and "s = 0 \<or> safe_reported X N sv s"
  shows "bridge_ok once X N sv f h (snd (process_eth_kind X N sv s kind asset w))"
  unfolding process_eth_kind_def
  by (rule process_each_keeps [OF _ assms(2) in_states_current [OF assms(2)]])
    (rule does_process_eth_one [OF assms(1) _ assms(3) _ _ assms(4,5)]; simp)

lemma process_hk_kind_keeps:
  assumes "world_ok once X N" and "bridge_ok once X N sv f h w" and "kind \<in> {''burn'', ''wlock''}"
  shows "bridge_ok once X N sv f h (snd (process_hk_kind X N sv paused remaining kind target w))"
  unfolding process_hk_kind_def
  by (rule process_each_keeps [OF _ assms(2) in_states_current [OF assms(2)]])
    (rule does_process_hk_one [OF assms(1) _ assms(3)]; simp)

text \<open>Steps that keep the invariant, whatever they change.\<close>

definition keeps :: "bool \<Rightarrow> 'x bridge_env_scheme \<Rightarrow> (nat \<Rightarrow> Net) \<Rightarrow> Svc \<Rightarrow> u64 \<Rightarrow> u64 \<Rightarrow> ('a, string, World) step \<Rightarrow> bool" where
  "keeps once X N sv f h m \<longleftrightarrow> bridge_ok once X N sv f h (snd m)"

lemma keeps_ret: "bridge_ok once X N sv f h w \<Longrightarrow> keeps once X N sv f h (r, w)"
  by (simp add: keeps_def)

lemma keeps_stays: "bridge_ok once X N sv f h w \<Longrightarrow> stays w m \<Longrightarrow> keeps once X N sv f h m"
  by (simp add: keeps_def stays_def bridge_ok_quiet)

lemma keeps_try_rw:
  assumes "keeps once X N sv f h m" and "\<And>x w. m = (Ok x, w) \<Longrightarrow> bridge_ok once X N sv f h w \<Longrightarrow> keeps once X N sv f h (g x w)"
  shows "keeps once X N sv f h (try_rw m g)"
proof -
  obtain r w where m: "m = (r, w)" by fastforce
  show ?thesis using assms by (cases r) (simp_all add: m keeps_def)
qed

lemma keeps_try_ro:
  "bridge_ok once X N sv f h w \<Longrightarrow> (\<And>x. r = Ok x \<Longrightarrow> keeps once X N sv f h (g x)) \<Longrightarrow> keeps once X N sv f h (try_ro r w g)"
  by (cases r) (simp_all add: keeps_def)

lemma keeps_write:
  "world_ok once X N \<Longrightarrow> bridge_ok once X N sv f h w \<Longrightarrow> may_write once X N sv w kind i st flds \<Longrightarrow> keeps once X N sv f h (ledger_write X N kind i st flds w)"
  using does_write [of once X N sv f h w kind i st flds] by (simp add: keeps_def does_def)

lemma unknown_fresh:
  assumes "bridge_ok once X N sv f h w" and "\<not> ledger_has (wd_ledger w) kind i"
  shows "once \<longrightarrow> ledger_key kind i \<notin> sent_for ` set (wd_sent w)"
  using assms settled_has by (auto simp: bridge_ok_def sound_ledger_def)

lemma record_logs_keeps:
  assumes "world_ok once X N" and "bridge_ok once X N sv f h w" and "\<And>log ev. log \<in> set logs \<Longrightarrow> decode_bridge_event X log = Ok ev \<Longrightarrow> locked X N sv kind ev"
  shows "keeps once X N sv f h (record_logs X N kind logs w)"
  using assms(2,3)
proof (induction logs arbitrary: w)
  case (Cons log logs)
  show ?case unfolding record_logs.simps
  proof (rule keeps_try_ro [OF Cons.prems(1)], rule keeps_try_rw)
    fix ev assume ev: "decode_bridge_event X log = Ok ev"
    let ?i = "hex_encode X (be_id ev)"
    have l: "locked X N sv kind ev" by (rule Cons.prems(2) [OF _ ev]) simp
    then have "kind \<in> KINDS" by (auto simp: locked_def KINDS_def)
    then have "\<not> ledger_has (wd_ledger w) kind ?i \<Longrightarrow> may_write once X N sv w kind ?i ''seen'' (event_fields X ev)"
      using l unknown_fresh [OF Cons.prems(1)] by (auto simp: may_write_def)
    then show "keeps once X N sv f h (record_eth_event X N kind ev w)"
      using keeps_write [OF assms(1) Cons.prems(1)] keeps_ret [OF Cons.prems(1)]
      by (auto simp: record_eth_event_def Let_def event_fields_def)
  qed (use Cons in auto)
qed (simp add: keeps_def)

lemma cursor_keeps:
  assumes "world_ok once X N" and "bridge_ok once X N sv f h w"
  shows "keeps once X N sv f h (ledger_cursor X N chain n w)"
proof -
  let ?ev = "\<lparr>ev_t = nt_now (N (wd_clock w)), ev_kind = ''cursor'', ev_id = chain, ev_state = [], ev_fields = [(''n'', JNum (uint n))]\<rparr>"
  have rec: "lg_records (ledger_fold ?ev l) = lg_records l" for l by (simp add: ledger_fold_def Let_def)
  have line: "ledger_open X (wd_file w @ [l]) f h = Ok (ledger_fold ?ev d)" if "ser_event X ?ev = Some l" "ledger_open X (wd_file w) f h = Ok d" for l d
    by (rule ledger_open_write [OF _ that]) (use assms(1) in \<open>simp add: world_ok_def\<close>)
  have sound: "sound_ledger c X N sv sent (ledger_fold ?ev l) = sound_ledger c X N sv sent l" for c sent l by (simp add: sound_ledger_def rec)
  show ?thesis
  proof (cases "wd_left w = 0 \<or> ser_event X ?ev = None")
    case True
    then show ?thesis using assms(2) bridge_ok_quiet [OF assms(2) quiet_elapse]
      by (auto simp: ledger_cursor_def ledger_write_def keeps_def Let_def)
  next
    case False
    then obtain l where l: "ser_event X ?ev = Some l" "wd_left w \<noteq> 0" by auto
    then show ?thesis using assms line [OF l(1)] bridge_ok_quiet [OF assms(2) quiet_elapse]
      by (cases "nt_disk (N (wd_clock w))")
        (auto simp: ledger_cursor_def ledger_write_def keeps_def Let_def world_ok_def bridge_ok_def elapse_def rec sound)
  qed
qed

lemma eth_logs_reported:
  assumes "eth_logs X N a (event_topic X sig) from_b to_b w = (Ok logs, w')" and "log \<in> set logs" and "decode_bridge_event X log = Ok ev"
  shows "reported X N a sig ev"
proof -
  from assms(1) obtain v where "call_result X ''eth_getLogs'' (nt_eth (N (wd_clock w)) ''eth_getLogs'' (logs_params X a (event_topic X sig) from_b to_b)) = Ok v"
    "as_array v = Some logs"
    by (auto simp: eth_logs_def eth_rpc_def ask_def elim!: try_rw_OkE split: if_splits)
  then show ?thesis using assms(2,3) unfolding reported_def by blast
qed

lemma scan_page_keeps:
  assumes "world_ok once X N" and "bridge_ok once X N sv f h w"
  shows "keeps once X N sv f h (scan_page X N sv head w)"
  unfolding scan_page_def Let_def
proof (intro keeps_try_rw [OF keeps_stays [OF assms(2) stays_eth(4)]], rule keeps_try_rw)
  fix locked_logs w1
  assume l: "eth_logs X N (sv_vault sv) (event_topic X LOCKED_SIG) (lg_eth_cursor (wd_ledger w) + 1)
      (min (lg_eth_cursor (wd_ledger w) + 1 + sv_log_page sv - 1) head) w = (Ok locked_logs, w1)" and ok1: "bridge_ok once X N sv f h w1"
  show "keeps once X N sv f h (record_logs X N ''deposit'' locked_logs w1)"
    by (rule record_logs_keeps [OF assms(1) ok1]) (use eth_logs_reported [OF l] in \<open>auto simp: locked_def\<close>)
  fix u w2 assume ok2: "bridge_ok once X N sv f h w2"
  let ?from = "lg_eth_cursor (wd_ledger w) + 1" and ?to = "min (lg_eth_cursor (wd_ledger w) + 1 + sv_log_page sv - 1) head"
  show "keeps once X N sv f h (try_rw (case sv_wrapped sv of None \<Rightarrow> (Ok (), w2)
      | Some wr \<Rightarrow> try_rw (eth_logs X N wr (event_topic X BURNED_SIG) ?from ?to w2) (\<lambda>burned w. record_logs X N ''wburn'' burned w)) (\<lambda>_ w. ledger_cursor X N ''eth'' ?to w))"
  proof (rule keeps_try_rw)
    show "keeps once X N sv f h (case sv_wrapped sv of None \<Rightarrow> (Ok (), w2)
      | Some wr \<Rightarrow> try_rw (eth_logs X N wr (event_topic X BURNED_SIG) ?from ?to w2) (\<lambda>burned w. record_logs X N ''wburn'' burned w))"
    proof (cases "sv_wrapped sv")
      case (Some wr)
      show ?thesis unfolding Some option.case
      proof (rule keeps_try_rw [OF keeps_stays [OF ok2 stays_eth(4)]])
        fix burned w3 assume b: "eth_logs X N wr (event_topic X BURNED_SIG) ?from ?to w2 = (Ok burned, w3)" and ok3: "bridge_ok once X N sv f h w3"
        show "keeps once X N sv f h (record_logs X N ''wburn'' burned w3)"
          by (rule record_logs_keeps [OF assms(1) ok3]) (use eth_logs_reported [OF b] Some in \<open>auto simp: locked_def\<close>)
      qed
    qed (simp add: keeps_ret ok2)
  qed (rule cursor_keeps [OF assms(1)])
qed

lemma scan_eth_loop_keeps:
  "world_ok once X N \<Longrightarrow> bridge_ok once X N sv f h w \<Longrightarrow> keeps once X N sv f h (scan_eth_loop fuel X N sv head w)"
proof (induction fuel arbitrary: w)
  case (Suc fuel)
  then show ?case by (auto intro!: keeps_try_rw scan_page_keeps simp: keeps_ret)
qed (simp add: keeps_ret)

lemma scan_eth_keeps:
  assumes "world_ok once X N" and "bridge_ok once X N sv f h w"
  shows "keeps once X N sv f h (scan_eth X N sv w)"
  unfolding scan_eth_def Let_def
proof (rule keeps_try_rw [OF keeps_stays [OF assms(2) stays_eth(1)]])
  fix head w1 assume b: "block_number X N w = (Ok head, w1)" and ok1: "bridge_ok once X N sv f h w1"
  show "keeps once X N sv f h (try_rw (eth_safe_head X N sv head w1) (\<lambda>s w. scan_eth_loop (wd_left (w\<lparr>wd_health := (wd_health w)\<lparr>he_eth_head := head, he_eth_safe := s\<rparr>\<rparr>))
      X N sv head (w\<lparr>wd_health := (wd_health w)\<lparr>he_eth_head := head, he_eth_safe := s\<rparr>\<rparr>)))"
  proof (rule keeps_try_rw [OF keeps_stays [OF ok1 stays_safe_head]])
    fix s w2 assume s: "eth_safe_head X N sv head w1 = (Ok s, w2)" and ok2: "bridge_ok once X N sv f h w2"
    have "bridge_ok once X N sv f h (w2\<lparr>wd_health := (wd_health w2)\<lparr>he_eth_head := head, he_eth_safe := s\<rparr>\<rparr>)"
      using ok2 b s by (auto simp: bridge_ok_def safe_reported_def)
    then show "keeps once X N sv f h (scan_eth_loop (wd_left (w2\<lparr>wd_health := (wd_health w2)\<lparr>he_eth_head := head, he_eth_safe := s\<rparr>\<rparr>))
      X N sv head (w2\<lparr>wd_health := (wd_health w2)\<lparr>he_eth_head := head, he_eth_safe := s\<rparr>\<rparr>))" by (rule scan_eth_loop_keeps [OF assms(1)])
  qed
qed

lemma process_eth_events_keeps:
  assumes "world_ok once X N" and "bridge_ok once X N sv f h w"
  shows "keeps once X N sv f h (process_eth_events X N sv w)"
  unfolding process_eth_events_def Let_def
proof (rule keeps_try_rw)
  have s: "he_eth_safe (wd_health w) = 0 \<or> safe_reported X N sv (he_eth_safe (wd_health w))" using assms(2) by (simp add: bridge_ok_def)
  show "keeps once X N sv f h (process_eth_kind X N sv (he_eth_safe (wd_health w)) ''deposit'' (sv_usdc sv) w)"
    unfolding keeps_def by (rule process_eth_kind_keeps [OF assms _ _ s]) (simp_all add: asset_of_def)
  fix u w1 assume ok1: "bridge_ok once X N sv f h w1"
  show "keeps once X N sv f h (case sv_hkt sv of Some a \<Rightarrow> process_eth_kind X N sv (he_eth_safe (wd_health w)) ''wburn'' a w1 | None \<Rightarrow> (Ok (), w1))"
  proof (cases "sv_hkt sv")
    case (Some a)
    show ?thesis unfolding Some option.case keeps_def
      by (rule process_eth_kind_keeps [OF assms(1) ok1 _ _ s]) (simp_all add: asset_of_def Some)
  qed (simp add: keeps_ret ok1)
qed

lemma record_hk_burn_keeps:
  assumes "world_ok once X N" and "bridge_ok once X N sv f h w" and "kind \<in> {''burn'', ''wlock''}"
  shows "keeps once X N sv f h (record_hk_burn X N kind height burn w)"
proof -
  obtain txid amount dest cls where b: "burn = (txid, amount, dest, cls)" by (cases burn)
  have "\<not> ledger_has (wd_ledger w) kind txid \<Longrightarrow> may_write once X N sv w kind txid st flds" for st flds
    using assms(3) unknown_fresh [OF assms(2)] by (auto simp: may_write_def KINDS_def)
  then have "\<not> ledger_has (wd_ledger w) kind txid \<Longrightarrow> keeps once X N sv f h (ledger_write X N kind txid st flds w)" for st flds
    by (rule keeps_write [OF assms(1,2)])
  then show ?thesis by (simp add: record_hk_burn_def b keeps_ret assms(2) split: prod.split)
qed

lemma record_burns_keeps:
  "world_ok once X N \<Longrightarrow> bridge_ok once X N sv f h w \<Longrightarrow> kind \<in> {''burn'', ''wlock''} \<Longrightarrow> keeps once X N sv f h (record_burns X N kind height bs w)"
proof (induction bs arbitrary: w)
  case (Cons b bs)
  show ?case unfolding record_burns.simps by (rule keeps_try_rw [OF record_hk_burn_keeps]) (use Cons in auto)
qed (simp add: keeps_ret)

lemma scan_hk_height_keeps:
  assumes "world_ok once X N" and "bridge_ok once X N sv f h w"
  shows "keeps once X N sv f h (scan_hk_height X N sv w)"
proof -
  have rec: "keeps once X N sv f h (try_rw (hk_burns_at X N hh a w1) (\<lambda>bs w. record_burns X N kind hh bs w))"
    if "bridge_ok once X N sv f h w1" "kind \<in> {''burn'', ''wlock''}" for hh a w1 kind
    by (rule keeps_try_rw [OF keeps_stays [OF that(1) stays_burns_at] record_burns_keeps [OF assms(1) _ that(2)]])
  have assoc: "try_rw (hk_burns_at X N hh a w1) (\<lambda>bs w. try_rw (record_burns X N kind hh bs w) g) = try_rw (try_rw (hk_burns_at X N hh a w1) (\<lambda>bs w. record_burns X N kind hh bs w)) g"
    for hh a w1 kind and g :: "unit \<Rightarrow> World \<Rightarrow> (unit, string, World) step" by (auto simp: try_rw_def split: prod.split outcome.split)
  show ?thesis unfolding scan_hk_height_def Let_def assoc
    by (rule keeps_try_rw [OF rec [OF assms(2)]], simp, rule keeps_try_rw)
      (auto intro!: rec cursor_keeps [OF assms(1)] keeps_ret split: option.split)
qed

lemma scan_hk_loop_keeps:
  "world_ok once X N \<Longrightarrow> bridge_ok once X N sv f h w \<Longrightarrow> keeps once X N sv f h (scan_hk_loop fuel X N sv stop w)"
proof (induction fuel arbitrary: w)
  case (Suc fuel)
  then show ?case by (auto intro!: keeps_try_rw scan_hk_height_keeps simp: keeps_ret)
qed (simp add: keeps_ret)

lemma bridge_ok_health:
  "he_eth_safe hl = he_eth_safe (wd_health w) \<Longrightarrow> bridge_ok once X N sv f h w \<Longrightarrow> bridge_ok once X N sv f h (w\<lparr>wd_health := hl\<rparr>)"
  by (simp add: bridge_ok_def)

lemma scan_hk_keeps:
  assumes "world_ok once X N" and "bridge_ok once X N sv f h w"
  shows "keeps once X N sv f h (scan_hk X N sv w)"
  unfolding scan_hk_def Let_def
  by (rule keeps_try_rw [OF keeps_stays [OF assms(2) stays_hk(4)]])
    (auto intro!: keeps_ret scan_hk_loop_keeps [OF assms(1)] bridge_ok_health)

lemma process_hk_burns_keeps:
  assumes "world_ok once X N" and "bridge_ok once X N sv f h w"
  shows "keeps once X N sv f h (process_hk_burns X N sv w)"
proof -
  have kind: "keeps once X N sv f h (process_hk_kind X N sv p n kind target w1)" if "bridge_ok once X N sv f h w1" "kind \<in> {''burn'', ''wlock''}" for p n kind target w1
    unfolding keeps_def by (rule process_hk_kind_keeps [OF assms(1) that])
  show ?thesis unfolding process_hk_burns_def Let_def
  proof (rule keeps_try_rw [OF keeps_stays [OF assms(2) stays_vault(1)]], rule keeps_try_rw [OF keeps_stays [OF _ stays_vault(2)]], assumption,
      rule keeps_try_rw [OF keeps_stays [OF _ stays_attestor_wei]], assumption, rule keeps_try_rw)
    fix p w0 n w1 u w2 assume "bridge_ok once X N sv f h w2"
    then show "keeps once X N sv f h (process_hk_kind X N sv p n ''burn'' (sv_vault sv, sv_vault_domain sv, ''unlock(address,uint256,bytes32,bytes[])'', UNLOCK_TYPE)
        (w2\<lparr>wd_health := (wd_health w2)\<lparr>he_vault_paused := p, he_vault_remaining := n, he_attestor_wei := u\<rparr>\<rparr>))"
      by (intro kind bridge_ok_health) simp_all
  next
    fix p w0 n w1 wei w2 u w3 assume "bridge_ok once X N sv f h w3"
    then show "keeps once X N sv f h (case (sv_wrapped sv, sv_wrapped_domain sv) of
              (Some wr, Some d) \<Rightarrow> process_hk_kind X N sv p n ''wlock'' (wr, d, ''mint(address,uint256,bytes32,bytes[])'', MINT_TYPE) w3
            | _ \<Rightarrow> (Ok (), w3))"
      using kind [of w3] by (auto simp: keeps_ret split: option.split)
  qed
qed

lemma tick_keeps: "world_ok once X N \<Longrightarrow> bridge_ok once X N sv f h w \<Longrightarrow> keeps once X N sv f h (tick X N sv w)"
  unfolding tick_def
  by (intro keeps_try_rw scan_eth_keeps process_eth_events_keeps scan_hk_keeps process_hk_burns_keeps)

section \<open>Runs\<close>

text \<open>A service that starts with an empty ledger; then rounds of the loop, restarts from the file with a new moment to be killed at, and
  operator resolutions. A careful operator returns a record to \<open>seen\<close> only after checking that nothing was sent for it.\<close>

definition new_service :: "u64 \<Rightarrow> u64 \<Rightarrow> World \<Rightarrow> bool" where
  "new_service f h w \<longleftrightarrow> wd_file w = [] \<and> wd_sent w = [] \<and> he_eth_safe (wd_health w) = 0
     \<and> wd_ledger w = \<lparr>lg_records = [], lg_eth_cursor = saturating_sub f 1, lg_hk_cursor = saturating_sub h 1\<rparr>"

inductive bridge_run :: "bool \<Rightarrow> 'x bridge_env_scheme \<Rightarrow> (nat \<Rightarrow> Net) \<Rightarrow> Svc \<Rightarrow> u64 \<Rightarrow> u64 \<Rightarrow> World \<Rightarrow> bool" for careful X N sv f h where
  service: "new_service f h w \<Longrightarrow> bridge_run careful X N sv f h w"
| round: "bridge_run careful X N sv f h w \<Longrightarrow> tick X N sv w = (r, w') \<Longrightarrow> bridge_run careful X N sv f h w'"
| restart: "bridge_run careful X N sv f h w \<Longrightarrow> ledger_open X (wd_file w) f h = Ok l \<Longrightarrow> he_eth_safe hl = 0 \<Longrightarrow>
    bridge_run careful X N sv f h (w\<lparr>wd_ledger := l, wd_left := n, wd_health := hl\<rparr>)"
| resolved: "bridge_run careful X N sv f h w \<Longrightarrow> cmd_resolve X t (wd_file w) kind i st args = (r, fl) \<Longrightarrow>
    (careful \<Longrightarrow> st = ''seen'' \<Longrightarrow> ledger_key kind i \<notin> sent_for ` set (wd_sent w)) \<Longrightarrow> bridge_run careful X N sv f h (w\<lparr>wd_file := fl\<rparr>)"

lemma fold_same_records: "lg_records l = lg_records l' \<Longrightarrow> lg_records (ledger_fold ev l) = lg_records (ledger_fold ev l')"
  by (simp add: ledger_fold_def Let_def)

lemma open_same_records:
  "lg_records l = lg_records l' \<Longrightarrow> open_lines X n lines l = Ok d \<Longrightarrow> \<exists>d'. open_lines X n lines l' = Ok d' \<and> lg_records d' = lg_records d"
proof (induction lines arbitrary: n l l')
  case (Cons line lines)
  then show ?case using Cons.IH [OF fold_same_records [OF Cons.prems(1)]] by (auto split: if_splits option.splits)
qed simp

lemma resolve_flags_plain: "resolve_flags args fs = Ok fs' \<Longrightarrow> plain fs \<Longrightarrow> plain fs'"
proof (induction args fs rule: resolve_flags.induct)
  case (2 flag rest fs)
  then show ?case by (auto simp: Let_def plain_def split: if_splits)
qed simp

lemma sound_key_not_cursor: "sound_record X N sv k r \<Longrightarrow> k \<noteq> ledger_key ''cursor'' i"
  by (auto simp: sound_record_def KINDS_def ledger_key_def)

lemma new_service_ok: "new_service f h w \<Longrightarrow> bridge_ok once X N sv f h w"
  by (simp add: new_service_def bridge_ok_def ledger_open_def sound_ledger_def)

lemma restart_ok:
  assumes "bridge_ok once X N sv f h w" and "ledger_open X (wd_file w) f h = Ok l" and "he_eth_safe hl = 0"
  shows "bridge_ok once X N sv f h (w\<lparr>wd_ledger := l, wd_left := n, wd_health := hl\<rparr>)"
  using assms by (auto simp: bridge_ok_def)

lemma resolved_sound:
  assumes "sound_ledger once X N sv sent d" and "bmap_get (lg_records d) (ledger_key (ev_kind ev) (ev_id ev)) = Some r" and "plain (ev_fields ev)"
    and "once \<longrightarrow> ledger_key (ev_kind ev) (ev_id ev) \<in> sent_for ` set sent \<longrightarrow> ev_state ev \<notin> ACTIVE"
  shows "sound_ledger once X N sv sent (ledger_fold ev d)" "lg_records (ledger_fold ev d) = bmap_insert (lg_records d) (ledger_key (ev_kind ev) (ev_id ev)) (record_update ev r)"
proof -
  let ?k = "ledger_key (ev_kind ev) (ev_id ev)"
  have r: "sound_record X N sv ?k r" using assms(1,2) by (auto simp: sound_ledger_def intro: bmap_all_get)
  have "ev_kind ev \<noteq> ''cursor''" using sound_key_not_cursor [OF r, of "ev_id ev"] by auto
  then show rec: "lg_records (ledger_fold ev d) = bmap_insert (lg_records d) ?k (record_update ev r)" by (simp add: ledger_fold_def Let_def assms(2))
  have "sound_record X N sv ?k (record_update ev r)" using r by (simp add: sound_record_def backed_update [OF assms(3)])
  moreover have "settled (bmap_insert (lg_records d) ?k (record_update ev r)) (sent_for e)" if "e \<in> set sent" once for e
  proof (cases "sent_for e = ?k")
    case True
    then have "ev_state ev \<notin> ACTIVE" using assms(4) that by (metis image_eqI)
    then show ?thesis by (simp add: settled_def True)
  next
    case False
    then show ?thesis using assms(1) that by (simp add: settled_def sound_ledger_def)
  qed
  ultimately show "sound_ledger once X N sv sent (ledger_fold ev d)" using assms(1) by (simp add: sound_ledger_def rec bmap_all_insert)
qed

lemma cmd_resolve_file:
  assumes "cmd_resolve X t fl kind i st args = (r, fl')"
  obtains "fl' = fl" | l fs line where "ledger_open X fl 0 0 = Ok l" "ledger_get l kind i \<noteq> None" "st \<in> {''confirmed'', ''seen'', ''needs_review''}" "plain fs"
    "ser_event X \<lparr>ev_t = nt_now t, ev_kind = kind, ev_id = i, ev_state = st, ev_fields = fs\<rparr> = Some line" "fl' = fl @ [line]"
proof (cases "fl' = fl")
  case False
  then obtain l where l: "ledger_open X fl 0 0 = Ok l" using assms by (auto simp: cmd_resolve_def split: outcome.splits)
  obtain fs where fs: "resolve_flags args [(''note'', JStr ''resolved by operator'')] = Ok fs"
    using assms False l by (auto simp: cmd_resolve_def split: outcome.splits if_splits)
  have "plain fs" by (rule resolve_flags_plain [OF fs]) simp
  then show ?thesis using that(2) [OF l] assms False
    unfolding cmd_resolve_def l fs outcome.case by (auto simp: Let_def split: if_splits option.splits DiskAnswer.splits)
qed (rule that(1))

lemma resolved_ok:
  assumes "lines_faithful X" and "bridge_ok once X N sv f h w" and "cmd_resolve X t (wd_file w) kind i st args = (r, fl)"
    and "once \<Longrightarrow> st = ''seen'' \<Longrightarrow> ledger_key kind i \<notin> sent_for ` set (wd_sent w)"
  shows "bridge_ok once X N sv f h (w\<lparr>wd_file := fl\<rparr>)"
  using assms(3)
proof (rule cmd_resolve_file)
  fix l fs line
  let ?ev = "\<lparr>ev_t = nt_now t, ev_kind = kind, ev_id = i, ev_state = st, ev_fields = fs\<rparr>"
  assume l: "ledger_open X (wd_file w) 0 0 = Ok l" "ledger_get l kind i \<noteq> None" and st: "st \<in> {''confirmed'', ''seen'', ''needs_review''}"
    and fs: "plain fs" and ser: "ser_event X ?ev = Some line" and fl: "fl = wd_file w @ [line]"
  obtain d where d: "ledger_open X (wd_file w) f h = Ok d" "sound_ledger once X N sv (wd_sent w) d"
     "\<forall>k. bmap_contains (lg_records (wd_ledger w)) k \<longrightarrow> bmap_contains (lg_records d) k" using assms(2) by (auto simp: bridge_ok_def)
  have "lg_records d = lg_records l"
    using open_same_records [of "\<lparr>lg_records = [], lg_eth_cursor = saturating_sub 0 1, lg_hk_cursor = saturating_sub 0 1\<rparr>"
        "\<lparr>lg_records = [], lg_eth_cursor = saturating_sub f 1, lg_hk_cursor = saturating_sub h 1\<rparr>" X 0 "wd_file w" l] l(1) d(1)
    unfolding ledger_open_def by auto
  then obtain rc where rc: "bmap_get (lg_records d) (ledger_key (ev_kind ?ev) (ev_id ?ev)) = Some rc" using l(2) by (auto simp: ledger_get_def)
  have act: "once \<longrightarrow> ledger_key (ev_kind ?ev) (ev_id ?ev) \<in> sent_for ` set (wd_sent w) \<longrightarrow> ev_state ?ev \<notin> ACTIVE"
    using assms(4) st by (auto simp: ACTIVE_def)
  have pl: "plain (ev_fields ?ev)" using fs by simp
  note s = resolved_sound [OF d(2) rc pl act]
  show ?thesis using assms(2) s d(3) ledger_open_write [OF assms(1) ser d(1)] by (auto simp: bridge_ok_def fl)
qed (use assms(2) in simp)

lemma bridge_run_ok:
  assumes "bridge_run once X N sv f h w" and "lines_faithful X" and "once \<longrightarrow> replies_hold X N"
  shows "bridge_ok once X N sv f h w"
  using assms(1)
proof (induction rule: bridge_run.induct)
  case (round w r w')
  have "world_ok once X N" using assms(2,3) by (simp add: world_ok_def)
  then show ?case using tick_keeps [OF _ round.IH] round.hyps(2) by (simp add: keeps_def)
next
  case (resolved w t kind i st args r fl)
  show ?case by (rule resolved_ok [OF assms(2) resolved.IH resolved.hyps(2)]) (use resolved.hyps(3) in blast)
qed (auto intro: new_service_ok restart_ok)

end
