(* ===== verification/HK_Journal.thy ===== *)
theory HK_Journal
  imports HK_Escrow
begin

text \<open>
  The ledger of the bridge as a journal (\<^verbatim>\<open>hk-node/src/attest.rs\<close>, \<open>Ledger::write\<close>): the file only grows, by whole lines that encode events
  stamped with the clock of the moment they were written, and the memory changes only by the events whose line was written and synced, in the
  order of the lines. Nothing is assumed of the network, of the disk or of the moment the process is killed.
\<close>

section \<open>Journals\<close>

text \<open>One line of the file: the moment it was written, the event, and its text.\<close>

type_synonym Entry = "nat \<times> LEvent \<times> string"

definition entry_ok :: "'x bridge_env_scheme \<Rightarrow> (nat \<Rightarrow> Net) \<Rightarrow> World \<Rightarrow> World \<Rightarrow> Entry \<Rightarrow> bool" where
  "entry_ok X N w w' e = (case e of (t, ev, line) \<Rightarrow>
     wd_clock w \<le> t \<and> t < wd_clock w' \<and> ev_t ev = nt_now (N t) \<and> ser_event X ev = Some line \<and> nt_disk (N t) \<noteq> Refused)"

definition synced :: "(nat \<Rightarrow> Net) \<Rightarrow> Entry \<Rightarrow> bool" where
  "synced N e = (nt_disk (N (fst e)) = Written)"

definition entries_fold :: "Entry list \<Rightarrow> Ledger \<Rightarrow> Ledger" where
  "entries_fold es = fold (\<lambda>(t, ev, line). ledger_fold ev) es"

definition journal :: "'x bridge_env_scheme \<Rightarrow> (nat \<Rightarrow> Net) \<Rightarrow> World \<Rightarrow> World \<Rightarrow> Entry list \<Rightarrow> bool" where
  "journal X N w w' es \<longleftrightarrow> wd_clock w \<le> wd_clock w' \<and> sorted_wrt (<) (map fst es) \<and> (\<forall>e \<in> set es. entry_ok X N w w' e)
     \<and> wd_file w' = wd_file w @ map (snd \<circ> snd) es \<and> wd_ledger w' = entries_fold (filter (synced N) es) (wd_ledger w)"

lemma entries_fold_simps [simp]:
  "entries_fold [] l = l" "entries_fold ((t, ev, line) # es) l = entries_fold es (ledger_fold ev l)"
  "entries_fold (es @ es') l = entries_fold es' (entries_fold es l)"
  by (simp_all add: entries_fold_def)

lemma entry_mono: "entry_ok X N w w' e \<Longrightarrow> wd_clock v \<le> wd_clock w \<Longrightarrow> wd_clock w' \<le> wd_clock v' \<Longrightarrow> entry_ok X N v v' e"
  by (auto simp: entry_ok_def)

lemma entry_clock: "entry_ok X N w w' e \<Longrightarrow> wd_clock w \<le> fst e \<and> fst e < wd_clock w'"
  by (auto simp: entry_ok_def)

lemma journal_trans:
  assumes "journal X N w1 w2 es" and "journal X N w2 w3 es'"
  shows "journal X N w1 w3 (es @ es')"
proof -
  have c: "wd_clock w1 \<le> wd_clock w2" "wd_clock w2 \<le> wd_clock w3" using assms by (simp_all add: journal_def)
  have l: "entry_ok X N w1 w2 e" "fst e < wd_clock w2" if "e \<in> set es" for e
    using that assms(1) by (auto simp: journal_def dest: entry_clock)
  have r: "entry_ok X N w2 w3 e" "wd_clock w2 \<le> fst e" if "e \<in> set es'" for e
    using that assms(2) by (auto simp: journal_def dest: entry_clock)
  have "entry_ok X N w1 w3 e" if "e \<in> set (es @ es')" for e
    using that unfolding set_append
    by (elim UnE) (erule entry_mono [OF l(1) le_refl c(2)], erule entry_mono [OF r(1) c(1) le_refl])
  moreover have "sorted_wrt (<) (map fst (es @ es'))"
    using assms l(2) r(2) by (fastforce simp: journal_def sorted_wrt_append)
  ultimately show ?thesis using assms c by (simp add: journal_def)
qed

text \<open>What a journal adds to the file is what a restart reads back on top of what the file held before.\<close>

lemma open_entries:
  assumes "lines_faithful X" and "\<forall>e \<in> set es. ser_event X (fst (snd e)) = Some (snd (snd e))" and "ledger_open X fl f h = Ok d"
  shows "ledger_open X (fl @ map (snd \<circ> snd) es) f h = Ok (entries_fold es d)"
  using assms(2,3)
proof (induction es arbitrary: fl d)
  case (Cons e es)
  obtain t ev line where e: "e = (t, ev, line)" by (cases e)
  have "ledger_open X (fl @ [line]) f h = Ok (ledger_fold ev d)"
    by (rule ledger_open_write [OF assms(1) _ Cons.prems(2)]) (use Cons.prems(1) e in auto)
  from Cons.IH [OF _ this] Cons.prems(1) show ?case by (simp add: e)
qed simp

lemma journal_open:
  assumes "lines_faithful X" and "journal X N w w' es" and "ledger_open X (wd_file w) f h = Ok d"
  shows "ledger_open X (wd_file w') f h = Ok (entries_fold es d)"
proof -
  have "\<forall>e \<in> set es. ser_event X (fst (snd e)) = Some (snd (snd e))" using assms(2) by (fastforce simp: journal_def entry_ok_def)
  from open_entries [OF assms(1) this assms(3)] show ?thesis using assms(2) by (simp add: journal_def)
qed

section \<open>Steps that do not write\<close>

named_theorems calm_intros

definition calm :: "World \<Rightarrow> ('a, string, World) step \<Rightarrow> bool" where
  "calm w m \<longleftrightarrow> wd_file (snd m) = wd_file w \<and> wd_ledger (snd m) = wd_ledger w \<and> wd_clock w \<le> wd_clock (snd m)"

lemma calm_ret [calm_intros]: "calm w (r, w)"
  by (simp add: calm_def)

lemma calm_try_rw [calm_intros]:
  assumes "calm w m" and "\<And>x w1. calm w1 (g x w1)"
  shows "calm w (try_rw m g)"
proof -
  obtain r w1 where m: "m = (r, w1)" by fastforce
  show ?thesis using assms(1) assms(2) [of w1, unfolded calm_def] by (cases r) (auto simp: m calm_def intro: le_trans)
qed

lemma calm_try_ro [calm_intros]: "(\<And>x. calm w (g x)) \<Longrightarrow> calm w (try_ro r w g)"
  by (cases r) (simp_all add: calm_def)

lemma calm_ask [calm_intros]: "calm w (ask N q w)"
  by (simp add: ask_def calm_def elapse_def)

lemma calm_if [calm_intros]: "calm w x \<Longrightarrow> calm w y \<Longrightarrow> calm w (if b then x else y)"
  by simp

lemma calm_option [calm_intros]: "calm w x \<Longrightarrow> (\<And>y. calm w (g y)) \<Longrightarrow> calm w (case m of None \<Rightarrow> x | Some y \<Rightarrow> g y)"
  by (cases m) auto

lemma calm_eth_rpc [calm_intros]: "calm w (eth_rpc X N meth ps w)"
  unfolding eth_rpc_def by (intro calm_intros)

lemma calm_eth [calm_intros]:
  "calm w (block_number X N w)" "calm w (tagged_block X N tag w)" "calm w (base_fee X N w)" "calm w (eth_logs X N a t b c w)"
  "calm w (eth_call X N a d w)" "calm w (eth_nonce X N a w)" "calm w (estimate_gas X N a a2 d w)" "calm w (receipt_status X N h w)"
  "calm w (balance_wei X N a w)"
  unfolding block_number_def tagged_block_def base_fee_def eth_logs_def eth_call_def eth_nonce_def estimate_gas_def receipt_status_def balance_wei_def
  by (intro calm_intros)+

lemma calm_recovered [calm_intros]: "calm w (priority_fee X N w)" "calm w (attestor_wei X N sv w)"
  using calm_eth_rpc [of w X N "''eth_maxPriorityFeePerGas''" "JArr []"] calm_eth(9) [of w X N "sg_address (sv_signer sv)"]
  by (auto simp: priority_fee_def attestor_wei_def calm_def split: prod.splits outcome.splits)

lemma calm_hk [calm_intros]:
  "calm w (hk_rpc N meth ps w)" "calm w (account_nonce X N i w)" "calm w (hk_receipt N txid w)" "calm w (chain_height N w)"
  unfolding account_nonce_def hk_receipt_def chain_height_def hk_rpc_def by (intro calm_intros)+

lemma calm_save_nonce [calm_intros]: "calm w (save_nonce N n w)"
proof -
  have "calm w1 (case r of Ok u \<Rightarrow> (Ok (), w1\<lparr>wd_next_nonce := n\<rparr>) | Err e \<Rightarrow> (Err e, w1) | Panic \<Rightarrow> (Panic, w1))" for r :: "(unit, string) outcome" and w1
    by (cases r) (simp_all add: calm_def)
  then show ?thesis unfolding save_nonce_def by (intro calm_intros)
qed

lemma calm_sends [calm_intros]: "calm w (send_raw X N e raw w)" "calm w (hk_send Y N tag tx w)"
  by (simp_all add: send_raw_def hk_send_def calm_def elapse_def Let_def)

lemma calm_send_call [calm_intros]: "calm w (send_call X N sv tag a d w)"
  unfolding send_call_def Let_def by (intro calm_intros)

lemma calm_hk_submit [calm_intros]: "calm w (hk_submit X N sv tag payload w)"
proof -
  have "calm w1 (case save_nonce N n w1 of (Panic, w1) \<Rightarrow> (Panic, w1) | (_, w1) \<Rightarrow> (Err txid, w1))" for w1 n and txid :: string
    using calm_save_nonce [of w1 N n] by (auto simp: calm_def split: prod.split outcome.split)
  then show ?thesis unfolding hk_submit_def by (intro calm_intros)
qed

lemma calm_loops [calm_intros]: "calm w (hk_wait_receipt k N txid w)" "calm w (cosign_loop X N body urls sigs w)"
  by (induction k arbitrary: w, auto intro!: calm_intros) (induction urls arbitrary: sigs w, auto intro!: calm_intros)

lemma calm_reads [calm_intros]:
  "calm w (eth_safe_head X N sv head w)" "calm w (vault_paused X N sv w)" "calm w (vault_remaining X N sv w)"
  "calm w (attest X N sv kind d ty a n i w)" "calm w (hk_burns_at Y N h as w)"
  unfolding eth_safe_head_def vault_paused_def vault_remaining_def attest_def hk_burns_at_def Let_def by (intro calm_intros)+

section \<open>Steps that write\<close>

text \<open>A step keeps a journal, and when it ends well every line it wrote was synced.\<close>

named_theorems journals_intros

definition journals :: "'x bridge_env_scheme \<Rightarrow> (nat \<Rightarrow> Net) \<Rightarrow> World \<Rightarrow> ('a, string, World) step \<Rightarrow> bool" where
  "journals X N w m \<longleftrightarrow> (\<exists>es. journal X N w (snd m) es \<and> (\<forall>x. fst m = Ok x \<longrightarrow> list_all (synced N) es))"

lemma journals_calm: "calm w m \<Longrightarrow> journals X N w m"
  unfolding journals_def calm_def journal_def by (rule exI [of _ "[]"]) simp

lemma journals_ret [journals_intros]: "journals X N w (r, w)"
  by (rule journals_calm [OF calm_ret])

lemma journals_write [journals_intros]: "journals X N w (ledger_write X N kind i st flds w)"
proof -
  let ?n = "N (wd_clock w)"
  let ?ev = "\<lparr>ev_t = nt_now ?n, ev_kind = kind, ev_id = i, ev_state = st, ev_fields = flds\<rparr>"
  show ?thesis
  proof (cases "wd_left w = 0 \<or> ser_event X ?ev = None \<or> nt_disk ?n = Refused")
    case True
    then have "calm w (ledger_write X N kind i st flds w)"
      by (auto simp: ledger_write_def calm_def elapse_def Let_def split: option.split)
    then show ?thesis by (rule journals_calm)
  next
    case False
    then obtain line where l: "ser_event X ?ev = Some line" by auto
    have "journal X N w (snd (ledger_write X N kind i st flds w)) [(wd_clock w, ?ev, line)]"
      using False l by (cases "nt_disk ?n") (simp_all add: ledger_write_def journal_def entry_ok_def synced_def elapse_def Let_def)
    moreover have "list_all (synced N) [(wd_clock w, ?ev, line)]" if "fst (ledger_write X N kind i st flds w) = Ok x" for x
      using False l that by (cases "nt_disk ?n") (simp_all add: ledger_write_def synced_def Let_def)
    ultimately show ?thesis unfolding journals_def by blast
  qed
qed

lemma journals_then:
  assumes "journal X N w w1 es" and "list_all (synced N) es" and "journals X N w1 m"
  shows "journals X N w m"
  using assms journal_trans unfolding journals_def by (metis list_all_append)

lemma journals_try_rw [journals_intros]:
  assumes "journals X N w m" and "\<And>x w1. journals X N w1 (g x w1)"
  shows "journals X N w (try_rw m g)"
proof -
  obtain r w1 where m: "m = (r, w1)" by fastforce
  from assms(1) obtain es where es: "journal X N w w1 es" "\<And>x. r = Ok x \<Longrightarrow> list_all (synced N) es" by (auto simp: journals_def m)
  show ?thesis
  proof (cases r)
    case (Ok x)
    then show ?thesis using journals_then [OF es(1) es(2) assms(2)] by (simp add: m)
  qed (use es(1) in \<open>auto simp: m journals_def\<close>)
qed

lemma journals_read [journals_intros]: "calm w m \<Longrightarrow> (\<And>x w1. journals X N w1 (g x w1)) \<Longrightarrow> journals X N w (try_rw m g)"
  by (rule journals_try_rw [OF journals_calm])

text \<open>An attempt whose failure is recorded.\<close>

lemma journals_attempt:
  assumes "calm w m" and "\<And>x w1. journals X N w1 (g x w1)" and "\<And>e w1. journals X N w1 (b e w1)"
  shows "journals X N w (case m of (Ok x, w1) \<Rightarrow> g x w1 | (Err e, w1) \<Rightarrow> b e w1 | (Panic, w1) \<Rightarrow> (Panic, w1))"
proof -
  obtain r w1 where m: "m = (r, w1)" by fastforce
  have "journal X N w w1 []" using assms(1) by (simp add: m calm_def journal_def)
  then have after: "journals X N w1 m' \<Longrightarrow> journals X N w m'" for m' by (rule journals_then) simp_all
  show ?thesis
  proof (cases r)
    case (Ok x)
    then show ?thesis using after [OF assms(2)] by (simp add: m)
  next
    case (Err e)
    then show ?thesis using after [OF assms(3)] by (simp add: m)
  qed (use after [OF journals_ret] in \<open>simp add: m\<close>)
qed

lemma journals_try_ro: "(\<And>x. journals X N w (g x)) \<Longrightarrow> journals X N w (try_ro ro w g)"
  by (cases ro) (simp_all add: journals_ret)

lemma journals_if: "journals X N w m1 \<Longrightarrow> journals X N w m2 \<Longrightarrow> journals X N w (if c then m1 else m2)"
  by simp

lemma journals_option: "journals X N w m1 \<Longrightarrow> (\<And>y. journals X N w (f y)) \<Longrightarrow> journals X N w (case oy of None \<Rightarrow> m1 | Some y \<Rightarrow> f y)"
  by (cases oy) simp_all

lemmas journals_cases [journals_intros] = journals_try_ro journals_if journals_option

lemma journals_health [journals_intros]: "journals X N (w\<lparr>wd_health := hl\<rparr>) m \<Longrightarrow> journals X N w m"
  by (simp add: journals_def journal_def entry_ok_def)

section \<open>The loop\<close>

lemma journals_cursor [journals_intros]: "journals X N w (ledger_cursor X N chain n w)"
  unfolding ledger_cursor_def by (rule journals_write)

lemma journals_event [journals_intros]: "journals X N w (record_eth_event X N kind ev w)"
  unfolding record_eth_event_def Let_def by (intro journals_intros)

lemma journals_record_logs [journals_intros]: "journals X N w (record_logs X N kind ls w)"
  by (induction ls arbitrary: w) (auto intro!: journals_ret journals_cases journals_try_rw journals_event)

lemma journals_page [journals_intros]: "journals X N w (scan_page X N sv head w)"
  unfolding scan_page_def Let_def by (intro journals_read journals_try_rw journals_cases journals_record_logs journals_cursor journals_ret calm_intros)

lemma journals_eth_loop [journals_intros]: "journals X N w (scan_eth_loop fuel X N sv head w)"
  by (induction fuel arbitrary: w) (auto intro!: journals_ret journals_cases journals_try_rw journals_page)

lemma journals_scan_eth [journals_intros]: "journals X N w (scan_eth X N sv w)"
  unfolding scan_eth_def Let_def by (intro journals_read calm_intros) (rule journals_health, rule journals_eth_loop)

lemma journals_settle [journals_intros]: "journals X N w (settle_mint X N kind i rc w)"
  unfolding settle_mint_def by (intro journals_intros)

lemma journals_send_mint [journals_intros]: "journals X N w (send_mint X N sv kind i asset to_acc amount w)"
  unfolding send_mint_def
  by (intro journals_try_rw journals_write journals_attempt calm_hk_submit journals_ret journals_read calm_loops journals_settle)

lemma journals_eth_one [journals_intros]: "journals X N w (process_eth_one X N sv kind asset s r w)"
proof -
  have parsed: "journals X N w (case parse_h256 X (lr_to r) of Ok a \<Rightarrow> g a | _ \<Rightarrow> ledger_write X N kind (lr_id r) st flds w)" if "\<And>a. journals X N w (g a)" for g st flds
    using that journals_write by (cases "parse_h256 X (lr_to r)") simp_all
  show ?thesis unfolding process_eth_one_def
    by (intro parsed journals_cases journals_ret journals_read calm_hk journals_settle journals_write journals_send_mint)
qed

lemma journals_each [journals_intros]: "(\<And>r w. journals X N w (g r w)) \<Longrightarrow> journals X N w (process_each g rs w)"
  by (induction rs arbitrary: w) (auto intro!: journals_ret journals_try_rw)

lemma journals_eth_events [journals_intros]: "journals X N w (process_eth_events X N sv w)"
  unfolding process_eth_events_def process_eth_kind_def Let_def by (intro journals_try_rw journals_each journals_eth_one journals_cases journals_ret)

lemma journals_burn [journals_intros]: "journals X N w (record_hk_burn X N kind height burn w)"
  unfolding record_hk_burn_def by (auto intro!: journals_intros split: prod.split)

lemma journals_record_burns [journals_intros]: "journals X N w (record_burns X N kind height bs w)"
  by (induction bs arbitrary: w) (auto intro!: journals_ret journals_try_rw journals_burn)

lemma journals_height [journals_intros]: "journals X N w (scan_hk_height X N sv w)"
  unfolding scan_hk_height_def Let_def by (intro journals_read journals_try_rw journals_cases journals_record_burns journals_cursor journals_ret calm_intros)

lemma journals_hk_loop [journals_intros]: "journals X N w (scan_hk_loop fuel X N sv stop w)"
  by (induction fuel arbitrary: w) (auto intro!: journals_ret journals_cases journals_try_rw journals_height)

lemma journals_scan_hk [journals_intros]: "journals X N w (scan_hk X N sv w)"
  unfolding scan_hk_def Let_def by (intro journals_read calm_intros journals_cases journals_ret) (rule journals_health, rule journals_hk_loop)

lemma journals_wait_release [journals_intros]: "journals X N w (wait_release k X N kind i tx w)"
proof (induction k arbitrary: w)
  case (Suc k)
  show ?case unfolding wait_release.simps
    by (rule journals_read [OF calm_eth(8)]) (auto intro!: journals_write Suc split: option.split bool.split)
qed (simp add: journals_ret)

lemma journals_send_release [journals_intros]: "journals X N w (send_release X N sv kind i contract data w)"
  unfolding send_release_def by (intro journals_try_rw journals_write journals_attempt calm_send_call journals_ret journals_wait_release)

lemma journals_hk_one [journals_intros]: "journals X N w (process_hk_one X N sv kind target paused remaining r w)"
proof -
  have decoded: "journals X N w (case hex_decode X (lr_id r) of Ok i \<Rightarrow> g i | _ \<Rightarrow> (Ok (), w))" if "\<And>i. journals X N w (g i)" for g
    using that journals_ret by (cases "hex_decode X (lr_id r)") simp_all
  have reverted: "journals X N w1 (case st of Some (False, blk) \<Rightarrow> ledger_write X N kind (lr_id r) ''reverted'' (flds blk) w1 | _ \<Rightarrow> (Ok (), w1))" for st flds w1
    by (auto intro: journals_write journals_ret split: option.split bool.split)
  show ?thesis unfolding process_hk_one_def
    by (cases target) (simp only: prod.case, intro decoded reverted journals_cases journals_read journals_ret journals_write journals_send_release calm_intros)
qed

lemma journals_hk_burns [journals_intros]: "journals X N w (process_hk_burns X N sv w)"
proof -
  have wrapped: "journals X N w1 (case (sv_wrapped sv, sv_wrapped_domain sv) of (Some wr, Some d) \<Rightarrow> process_each (g wr d) (rs wr d) w1 | _ \<Rightarrow> (Ok (), w1))"
    if "\<And>wr d r w. journals X N w (g wr d r w)" for g rs w1
    using that by (auto intro!: journals_each journals_ret split: option.split)
  show ?thesis unfolding process_hk_burns_def process_hk_kind_def Let_def
    by (rule journals_read [OF calm_reads(2)], rule journals_read [OF calm_reads(3)], rule journals_read [OF calm_recovered(2)], rule journals_try_rw)
      (rule journals_health, rule journals_each, rule journals_hk_one, rule wrapped, rule journals_hk_one)
qed

lemma journals_tick: "journals X N w (tick X N sv w)"
  unfolding tick_def by (intro journals_try_rw journals_scan_eth journals_eth_events journals_scan_hk journals_hk_burns)

fun rounds :: "'x bridge_env_scheme \<Rightarrow> (nat \<Rightarrow> Net) \<Rightarrow> Svc \<Rightarrow> nat \<Rightarrow> World \<Rightarrow> World" where
  "rounds X N sv 0 w = w"
| "rounds X N sv (Suc n) w = snd (tick X N sv (rounds X N sv n w))"

lemma rounds_journal:
  "\<exists>es. journal X N w (rounds X N sv n w) es \<and> ((\<forall>k < n. fst (tick X N sv (rounds X N sv k w)) = Ok ()) \<longrightarrow> list_all (synced N) es)"
proof (induction n)
  case 0
  show ?case by (rule exI [of _ "[]"]) (simp add: journal_def)
next
  case (Suc n)
  then obtain es where es: "journal X N w (rounds X N sv n w) es" "(\<forall>k < n. fst (tick X N sv (rounds X N sv k w)) = Ok ()) \<longrightarrow> list_all (synced N) es" by blast
  from journals_tick [of X N "rounds X N sv n w" sv] obtain es' where
    es': "journal X N (rounds X N sv n w) (rounds X N sv (Suc n) w) es'" "\<forall>x. fst (tick X N sv (rounds X N sv n w)) = Ok x \<longrightarrow> list_all (synced N) es'"
    by (auto simp: journals_def)
  show ?case using journal_trans [OF es(1) es'(1)] es(2) es'(2) by (intro exI [of _ "es @ es'"]) (auto simp: less_Suc_eq)
qed

lemma entry_synced: "entry_ok X N w w' e \<Longrightarrow> \<forall>t. nt_disk (N t) \<noteq> Unsynced \<Longrightarrow> synced N e"
  by (cases "nt_disk (N (fst e))") (auto simp: entry_ok_def synced_def)

lemma entries_synced: "\<forall>e \<in> set es. entry_ok X N w w' e \<Longrightarrow> \<forall>t. nt_disk (N t) \<noteq> Unsynced \<Longrightarrow> list_all (synced N) es"
  unfolding list_all_iff by (intro ballI) (rule entry_synced, erule (1) bspec)

end
