(* ===== verification/HK_BridgeRuns.thy ===== *)
theory HK_BridgeRuns
  imports HK_Journal
begin

text \<open>
  The bridge's guarantees as properties, and small runs of the service: one deposit that is minted, one whose
  submission is delivered while its answer is lost, and one that a reorganisation removes before it is final. The co-signer's rule is at the end.
\<close>

section \<open>A small world\<close>

definition sample_payload :: string where
  "sample_payload = map (\<lambda>x. char_of (unat x)) (word_u 7 @ word_u 1)"

definition sample_log :: Json where
  "sample_log = JObj [(''topics'', JArr [JStr ''x'', JStr (replicate 32 (CHR ''a'')), JStr (replicate 32 (CHR ''b'')), JStr (replicate 32 (CHR ''c''))]),
     (''data'', JStr sample_payload), (''blockNumber'', JStr ''0x9''), (''transactionHash'', JStr ''h''), (''logIndex'', JStr ''0x1'')]"

definition sample_deposit :: BridgeEvent where
  "sample_deposit = \<lparr>be_id = replicate 32 97, be_from = replicate 20 98, be_hk_account = replicate 32 99, be_amount = 7, be_nonce = 1, be_block = 9,
     be_tx_hash = ''h'', be_log_index = 1\<rparr>"

definition sample_line :: "string \<Rightarrow> string \<Rightarrow> (string \<times> Json) list \<Rightarrow> LEvent" where
  "sample_line kind st flds = \<lparr>ev_t = 0, ev_kind = kind, ev_id = (if kind = ''cursor'' then ''eth'' else replicate 32 (CHR ''a'')), ev_state = st, ev_fields = flds\<rparr>"

text \<open>The lines these runs write, and a codec for them.\<close>

definition sample_lines :: "(LEvent \<times> string) list" where
  "sample_lines =
     [(sample_line ''deposit'' ''seen'' [(''amount'', JStr ''7''), (''to'', JStr (replicate 32 (CHR ''c''))), (''at'', JNum 9), (''source_tx'', JStr ''h'')], ''1''),
      (sample_line ''cursor'' [] [(''n'', JNum 9)], ''2''),
      (sample_line ''deposit'' ''submitting'' [(''attempt'', JNum 1)], ''3''),
      (sample_line ''deposit'' ''submitted'' [(''hk_txid'', JStr ''t'')], ''4''),
      (sample_line ''deposit'' ''confirmed'' [(''note'', JStr ''ok'')], ''5''),
      (sample_line ''deposit'' ''seen'' [(''note'', JStr ''submit failed: submit-failed: '')], ''6'')]"

definition sample_bridge :: bridge_env where
  "sample_bridge = \<lparr>xof256 = \<lambda>_ n. replicate n 0, sha256 = \<lambda>_. 0, json_tx = \<lambda>_. Some [], hex_encode = \<lambda>b. map (\<lambda>x. char_of (unat x)) b,
     hex_decode = \<lambda>s. Ok (map (\<lambda>c. of_nat (of_char c)) s), keccak = \<lambda>b. take 32 (b @ replicate 32 0), show_json = \<lambda>_. [],
     ec_point = \<lambda>k. Ok (0 # k), ec_sign = \<lambda>k d. Ok (k @ d, 0),
     ser_event = map_of sample_lines, de_event = map_of (map (\<lambda>(e, l). (l, e)) sample_lines), tx_value = \<lambda>_. JNull\<rparr>"

definition sample_net :: "(nat \<Rightarrow> Json list) \<Rightarrow> (nat \<Rightarrow> string) \<Rightarrow> (nat \<Rightarrow> Json) \<Rightarrow> (nat \<Rightarrow> u64) \<Rightarrow> nat \<Rightarrow> Net" where
  "sample_net logs fin reply nn t = \<lparr>nt_now = 0, nt_disk = Written,
     nt_eth = \<lambda>m ps. Ok (JObj [(''result'', if m = ''eth_blockNumber'' then JStr ''0x9'' else if m = ''eth_getBlockByNumber'' then JObj [(''number'', JStr (fin t))]
        else if m = ''eth_getLogs'' then JArr (logs t) else JStr [])]),
     nt_hk = \<lambda>m ps. if m = ''hk_getAccount'' then JObj [(''result'', JObj [(''found'', JBool True), (''nonce'', JNum (uint (nn t)))])]
        else if m = ''hk_submitTx'' then reply t
        else if m = ''hk_getReceipt'' then JObj [(''result'', JObj [(''found'', JBool True), (''detail'', JStr ''ok'')])] else JNull,
     nt_post = \<lambda>_ _. Err [], nt_account = Ok (), nt_save = Ok (), nt_arrives = True\<rparr>"

definition sample_reply :: Json where
  "sample_reply = JObj [(''result'', JObj [(''txid'', JStr ''t'')])]"

definition sample_svc :: Svc where
  "sample_svc = \<lparr>sv_chain_id = 1, sv_confirm = ''finalized'', sv_log_page = 2000, sv_hk_batch = 300, sv_cosigners = [], sv_signer = \<lparr>sg_key = [], sg_address = []\<rparr>,
     sv_vault = [], sv_wrapped = None, sv_vault_domain = [], sv_wrapped_domain = None, sv_usdc = 5, sv_hkt = None, sv_issuer_seed = [], sv_issuer_id = 6\<rparr>"

definition sample_world :: World where
  "sample_world = \<lparr>wd_clock = 0, wd_left = 100, wd_file = [], wd_next_nonce = 0,
     wd_ledger = \<lparr>lg_records = [], lg_eth_cursor = 8, lg_hk_cursor = 0\<rparr>,
     wd_health = \<lparr>he_eth_head = 0, he_eth_safe = 0, he_hk_height = 0, he_vault_paused = False, he_vault_remaining = 0, he_attestor_wei = 0\<rparr>, wd_sent = []\<rparr>"

lemma sample_faithful: "lines_faithful sample_bridge"
proof -
  have "\<forall>(e, l) \<in> set sample_lines. map_of (map (\<lambda>(e, l). (l, e)) sample_lines) l = Some e \<and> trim_str l \<noteq> []" by code_simp
  then show ?thesis by (auto simp: lines_faithful_def sample_bridge_def dest!: map_of_SomeD)
qed

abbreviation byte_chars :: "bytes \<Rightarrow> string" where
  "byte_chars b \<equiv> map (\<lambda>x. char_of (unat x)) b"

lemma byte_mod [simp]: "unat (x :: u8) mod 256 = unat x"
proof -
  have "unat x < 2 ^ LENGTH(8)" by (rule unsigned_less)
  then have "unat x < 256" by simp
  then show ?thesis by simp
qed

lemma char_byte [simp]: "of_nat (of_char (char_of (unat x) :: char)) = (x :: u8)"
  by simp

lemma byte_chars_back [simp]: "map ((\<lambda>c. of_nat (of_char c)) \<circ> (\<lambda>x. char_of (unat x))) b = (b :: bytes)"
  by (simp add: comp_def)

lemma trim_byte_chars:
  assumes "b \<noteq> []" and "unat (hd b) \<notin> {9, 10, 11, 12, 13, 32}" and "unat (last b) \<notin> {9, 10, 11, 12, 13, 32}"
  shows "trim_str (byte_chars b) = byte_chars b"
proof -
  have sp: "is_space (char_of (unat x)) = (unat x \<in> {9, 10, 11, 12, 13, 32})" for x :: u8
    by (simp add: is_space_def)
  have "dropWhile is_space (byte_chars b) = byte_chars b" using assms(1,2) by (cases b) (simp_all add: sp)
  moreover have "dropWhile is_space (rev (byte_chars b)) = rev (byte_chars b)" using assms(1,3) by (cases b rule: rev_cases) (simp_all add: sp)
  ultimately show ?thesis by (simp add: trim_str_def)
qed

lemma sample_unhex:
  assumes "b \<noteq> []" and "unat (hd b) \<notin> {9, 10, 11, 12, 13, 32, 48}" and "unat (last b) \<notin> {9, 10, 11, 12, 13, 32}"
  shows "unhex sample_bridge (byte_chars b) = Ok b"
proof -
  obtain x xs where b: "b = x # xs" using assms(1) by (cases b) auto
  have "(of_char (char_of (unat x) :: char) :: nat) \<noteq> of_char (CHR ''0'')" using assms(2) by (simp add: b)
  then have "char_of (unat x) \<noteq> CHR ''0''" by metis
  then have "strip_str ''0x'' (byte_chars b) = None" "strip_str ''0X'' (byte_chars b) = None"
    by (simp_all add: strip_str_def starts_with_def b)
  moreover have "trim_str (byte_chars b) = byte_chars b" by (rule trim_byte_chars) (use assms in auto)
  ultimately show ?thesis using assms(1) by (simp add: unhex_def Let_def sample_bridge_def)
qed

lemma sample_topic: "unat (x :: u8) \<notin> {9, 10, 11, 12, 13, 32, 48} \<Longrightarrow> unhex sample_bridge (replicate 32 (char_of (unat x))) = Ok (replicate 32 x)"
  using sample_unhex [of "replicate 32 x"] by simp

lemma sample_quantities:
  "qty sample_bridge (JStr ''0x9'') = Ok 9" "qty sample_bridge (JStr ''0x5'') = Ok 5" "qty sample_bridge (JStr ''0x1'') = Ok 1"
  by (simp_all add: qty_def strip_str_def starts_with_def from_str_radix_def char_digit_def)

lemma sample_data: "unhex sample_bridge sample_payload = Ok (word_u 7 @ word_u 1)"
  unfolding sample_payload_def
proof (rule sample_unhex)
  have "hd (le_bytes (Suc 15) 1) = (1 :: u8)" by (simp only: le_bytes.simps list.sel) simp
  moreover have "le_bytes (Suc 15) 1 \<noteq> []" by (simp only: le_bytes.simps) simp
  ultimately have "last (word_u 1) = (1 :: u8)" by (simp add: word_u_def be_bytes_def last_rev)
  moreover have "word_u 1 \<noteq> []" by (simp add: word_u_def)
  ultimately show "unat (last (word_u 7 @ word_u 1)) \<notin> {9, 10, 11, 12, 13, 32}" by simp
  have "hd (word_u 7) = 0" "word_u 7 \<noteq> []" by (simp_all add: word_u_def hd_append)
  then show "unat (hd (word_u 7 @ word_u 1)) \<notin> {9, 10, 11, 12, 13, 32, 48}" by simp
qed (simp add: word_u_def)

lemma sample_decode_log: "decode_bridge_event sample_bridge sample_log = Ok sample_deposit"
proof -
  have t: "unhex sample_bridge (replicate 32 (CHR ''a'')) = Ok (replicate 32 97)" "unhex sample_bridge (replicate 32 (CHR ''b'')) = Ok (replicate 32 98)"
    "unhex sample_bridge (replicate 32 (CHR ''c'')) = Ok (replicate 32 99)"
    using sample_topic [of 97] sample_topic [of 98] sample_topic [of 99]
      char_of_char [of "CHR ''a''", where ?'a = nat] char_of_char [of "CHR ''b''", where ?'a = nat] char_of_char [of "CHR ''c''", where ?'a = nat] by simp_all
  show ?thesis
    by (simp add: decode_bridge_event_def sample_log_def json_str_def t sample_data sample_quantities sample_deposit_def u128_as_u64_def
        decode_word_word_u [of _ "[]", simplified])
qed

section \<open>Steps of the small world\<close>

definition sample_acc :: H256 where "sample_acc = h256_of_bytes (replicate 32 99)"

definition sample_mint :: "u64 \<Rightarrow> SignedTx" where
  "sample_mint n = the (wallet_sign sample_bridge [] 6 n (AssetMint 5 sample_acc 7))"

lemma sample_mint_signed: "wallet_sign sample_bridge [] 6 n (AssetMint 5 sample_acc 7) = Some (sample_mint n)" "stx_payload (sample_mint n) = AssetMint 5 sample_acc 7"
proof -
  have "wallet_sign sample_bridge [] 6 n (AssetMint 5 sample_acc 7) \<noteq> None"
    by (simp add: wallet_sign_def sign_tx_def signing_digest_def sample_bridge_def split: prod.split)
  then obtain t where t: "wallet_sign sample_bridge [] 6 n (AssetMint 5 sample_acc 7) = Some t" by blast
  then show "wallet_sign sample_bridge [] 6 n (AssetMint 5 sample_acc 7) = Some (sample_mint n)" by (simp add: sample_mint_def)
  show "stx_payload (sample_mint n) = AssetMint 5 sample_acc 7"
    using t by (auto simp: sample_mint_def wallet_sign_def sign_tx_def split: option.splits prod.splits)
qed

lemma elapse_fields [simp]:
  "wd_clock (elapse w) = Suc (wd_clock w)" "wd_left (elapse w) = wd_left w - 1" "wd_file (elapse w) = wd_file w" "wd_ledger (elapse w) = wd_ledger w"
  "wd_sent (elapse w) = wd_sent w" "wd_health (elapse w) = wd_health w" "wd_next_nonce (elapse w) = wd_next_nonce w"
  by (simp_all add: elapse_def)

lemma sample_rpc:
  assumes "wd_left w \<noteq> 0"
  shows "block_number sample_bridge (sample_net logs fin reply nn) w = (Ok 9, elapse w)"
    "fin (wd_clock w) = ''0x9'' \<Longrightarrow> eth_safe_head sample_bridge (sample_net logs fin reply nn) sample_svc 9 w = (Ok 9, elapse w)"
    "fin (wd_clock w) = ''0x5'' \<Longrightarrow> eth_safe_head sample_bridge (sample_net logs fin reply nn) sample_svc 9 w = (Ok 5, elapse w)"
    "eth_logs sample_bridge (sample_net logs fin reply nn) a b c d w = (Ok (logs (wd_clock w)), elapse w)"
    "account_nonce sample_bridge (sample_net logs fin reply nn) i w = (Ok (Some (nn (wd_clock w))), elapse w)"
    "hk_receipt (sample_net logs fin reply nn) txid w = (Ok (Some ''ok''), elapse w)"
    "chain_height (sample_net logs fin reply nn) w = (Ok 0, elapse w)"
    "ser_event sample_bridge \<lparr>ev_t = 0, ev_kind = kind, ev_id = i2, ev_state = st, ev_fields = flds\<rparr> = Some line \<Longrightarrow>
      ledger_write sample_bridge (sample_net logs fin reply nn) kind i2 st flds w =
       (Ok (), (elapse w)\<lparr>wd_file := wd_file w @ [line], wd_ledger := ledger_fold \<lparr>ev_t = 0, ev_kind = kind, ev_id = i2, ev_state = st, ev_fields = flds\<rparr> (wd_ledger w)\<rparr>)"
proof -
  have trim: "trim_str ''finalized'' = ''finalized''" by (simp add: trim_str_def is_space_def)
  show "block_number sample_bridge (sample_net logs fin reply nn) w = (Ok 9, elapse w)"
    "eth_logs sample_bridge (sample_net logs fin reply nn) a b c d w = (Ok (logs (wd_clock w)), elapse w)"
    "account_nonce sample_bridge (sample_net logs fin reply nn) i w = (Ok (Some (nn (wd_clock w))), elapse w)"
    "hk_receipt (sample_net logs fin reply nn) txid w = (Ok (Some ''ok''), elapse w)"
    "chain_height (sample_net logs fin reply nn) w = (Ok 0, elapse w)"
    using assms uint_bounded [of "nn (wd_clock w)"] by (simp_all add: block_number_def eth_rpc_def ask_def sample_net_def call_result_def qty64_def sample_quantities u128_as_u64_def
        eth_logs_def account_nonce_def hk_rpc_def nonce_of_reply_def hk_receipt_def receipt_of_reply_def json_str_def chain_height_def)
  show "fin (wd_clock w) = ''0x9'' \<Longrightarrow> eth_safe_head sample_bridge (sample_net logs fin reply nn) sample_svc 9 w = (Ok 9, elapse w)"
    "fin (wd_clock w) = ''0x5'' \<Longrightarrow> eth_safe_head sample_bridge (sample_net logs fin reply nn) sample_svc 9 w = (Ok 5, elapse w)"
    using assms by (simp_all add: eth_safe_head_def sample_svc_def trim tagged_block_def eth_rpc_def ask_def sample_net_def call_result_def qty64_def
        sample_quantities u128_as_u64_def)
  show "ser_event sample_bridge \<lparr>ev_t = 0, ev_kind = kind, ev_id = i2, ev_state = st, ev_fields = flds\<rparr> = Some line \<Longrightarrow>
      ledger_write sample_bridge (sample_net logs fin reply nn) kind i2 st flds w =
       (Ok (), (elapse w)\<lparr>wd_file := wd_file w @ [line], wd_ledger := ledger_fold \<lparr>ev_t = 0, ev_kind = kind, ev_id = i2, ev_state = st, ev_fields = flds\<rparr> (wd_ledger w)\<rparr>)"
    using assms by (simp add: ledger_write_def sample_net_def Let_def)
qed

lemma sample_ser:
  "ser_event sample_bridge \<lparr>ev_t = 0, ev_kind = ''deposit'', ev_id = replicate 32 (CHR ''a''), ev_state = ''seen'',
     ev_fields = [(''amount'', JStr ''7''), (''to'', JStr (replicate 32 (CHR ''c''))), (''at'', JNum 9), (''source_tx'', JStr ''h'')]\<rparr> = Some ''1''"
  "ser_event sample_bridge \<lparr>ev_t = 0, ev_kind = ''cursor'', ev_id = ''eth'', ev_state = [], ev_fields = [(''n'', JNum 9)]\<rparr> = Some ''2''"
  "ser_event sample_bridge \<lparr>ev_t = 0, ev_kind = ''deposit'', ev_id = replicate 32 (CHR ''a''), ev_state = ''submitting'', ev_fields = [(''attempt'', JNum 1)]\<rparr> = Some ''3''"
  "ser_event sample_bridge \<lparr>ev_t = 0, ev_kind = ''deposit'', ev_id = replicate 32 (CHR ''a''), ev_state = ''submitted'', ev_fields = [(''hk_txid'', JStr ''t'')]\<rparr> = Some ''4''"
  "ser_event sample_bridge \<lparr>ev_t = 0, ev_kind = ''deposit'', ev_id = replicate 32 (CHR ''a''), ev_state = ''confirmed'', ev_fields = [(''note'', JStr ''ok'')]\<rparr> = Some ''5''"
  "ser_event sample_bridge \<lparr>ev_t = 0, ev_kind = ''deposit'', ev_id = replicate 32 (CHR ''a''), ev_state = ''seen'', ev_fields = [(''note'', JStr ''submit failed: submit-failed: '')]\<rparr> = Some ''6''"
  by (simp_all add: sample_bridge_def sample_lines_def sample_line_def)

lemma sample_submit:
  assumes "wd_left w > 5"
  shows "reply (wd_clock w + 3) = sample_reply \<Longrightarrow> hk_submit sample_bridge (sample_net logs fin reply nn) sample_svc tag (AssetMint 5 sample_acc 7) w =
      (Ok ''t'', w\<lparr>wd_clock := wd_clock w + 4, wd_left := wd_left w - 4, wd_next_nonce := nn (Suc (wd_clock w)) + 1, wd_sent := wd_sent w @ [SentHk tag (sample_mint (nn (Suc (wd_clock w))))]\<rparr>)"
    "reply (wd_clock w + 3) = JNull \<Longrightarrow> hk_submit sample_bridge (sample_net logs fin reply nn) sample_svc tag (AssetMint 5 sample_acc 7) w =
      (Err ''submit-failed: '', w\<lparr>wd_clock := wd_clock w + 5, wd_left := wd_left w - 5, wd_next_nonce := nn (Suc (wd_clock w)), wd_sent := wd_sent w @ [SentHk tag (sample_mint (nn (Suc (wd_clock w))))]\<rparr>)"
proof -
  obtain n where n: "wd_left w = Suc (Suc (Suc (Suc (Suc (Suc n)))))"
  proof -
    have "wd_left w = Suc (Suc (Suc (Suc (Suc (Suc (wd_left w - 6))))))" using assms by simp
    then show ?thesis by (rule that)
  qed
  have acc: "nt_account (sample_net logs fin reply nn t) = Ok ()" "nt_save (sample_net logs fin reply nn t) = Ok ()" "nt_arrives (sample_net logs fin reply nn t)"
    "nt_hk (sample_net logs fin reply nn t) ''hk_submitTx'' ps = reply t" for t ps by (simp_all add: sample_net_def)
  have sv: "sv_issuer_seed sample_svc = []" "sv_issuer_id sample_svc = 6" by (simp_all add: sample_svc_def)
  have sj: "show_json sample_bridge v = []" for v by (simp add: sample_bridge_def)
  note unf = hk_submit_def ask_def n acc sv sample_mint_signed(1) save_nonce_def hk_send_def Let_def sample_rpc(5) starts_with_def txid_of_reply_def sample_reply_def sj elapse_def
  show "reply (wd_clock w + 3) = sample_reply \<Longrightarrow> hk_submit sample_bridge (sample_net logs fin reply nn) sample_svc tag (AssetMint 5 sample_acc 7) w =
      (Ok ''t'', w\<lparr>wd_clock := wd_clock w + 4, wd_left := wd_left w - 4, wd_next_nonce := nn (Suc (wd_clock w)) + 1, wd_sent := wd_sent w @ [SentHk tag (sample_mint (nn (Suc (wd_clock w))))]\<rparr>)"
    by (simp add: unf numeral_eq_Suc)
  show "reply (wd_clock w + 3) = JNull \<Longrightarrow> hk_submit sample_bridge (sample_net logs fin reply nn) sample_svc tag (AssetMint 5 sample_acc 7) w =
      (Err ''submit-failed: '', w\<lparr>wd_clock := wd_clock w + 5, wd_left := wd_left w - 5, wd_next_nonce := nn (Suc (wd_clock w)), wd_sent := wd_sent w @ [SentHk tag (sample_mint (nn (Suc (wd_clock w))))]\<rparr>)"
    by (simp add: unf numeral_eq_Suc)
qed

definition sample_rec :: "string \<Rightarrow> string option \<Rightarrow> string option \<Rightarrow> u32 \<Rightarrow> LRecord" where
  "sample_rec st txid txt n = \<lparr>lr_kind = ''deposit'', lr_id = replicate 32 (CHR ''a''), lr_state = st, lr_amount = 7, lr_to = replicate 32 (CHR ''c''), lr_at = 9,
     lr_source_tx = ''h'', lr_hk_txid = txid, lr_eth_tx = None, lr_note = txt, lr_updated = 0, lr_attempts = n\<rparr>"

definition sample_key :: string where "sample_key = ledger_key ''deposit'' (replicate 32 (CHR ''a''))"

definition sample_at :: "nat \<Rightarrow> string list \<Rightarrow> u64 \<Rightarrow> LRecord \<Rightarrow> u64 \<Rightarrow> Sent list \<Rightarrow> World" where
  "sample_at t fl n r s sent = \<lparr>wd_clock = t, wd_left = 100 - t, wd_file = fl, wd_next_nonce = n,
     wd_ledger = \<lparr>lg_records = [(sample_key, r)], lg_eth_cursor = 9, lg_hk_cursor = 0\<rparr>,
     wd_health = \<lparr>he_eth_head = 9, he_eth_safe = s, he_hk_height = 0, he_vault_paused = False, he_vault_remaining = 0, he_attestor_wei = 0\<rparr>, wd_sent = sent\<rparr>"

lemma sample_char: "char_of (97::nat) = CHR ''a''" "char_of (99::nat) = CHR ''c''"
  using char_of_char [of "CHR ''a''", where ?'a = nat] char_of_char [of "CHR ''c''", where ?'a = nat] by simp_all

lemma show_dec_7: "show_dec 7 = ''7''"
proof -
  have "char_of (55::nat) = CHR ''7''" using char_of_char [of "CHR ''7''", where ?'a = nat] by simp
  then show ?thesis by (subst show_radix.simps) (simp add: digit_char_def)
qed

text \<open>The event's line as it is recorded, and its effect on an empty ledger.\<close>

lemma sample_record_event:
  assumes "wd_left w \<noteq> 0" and "lg_records (wd_ledger w) = []"
  shows "record_eth_event sample_bridge (sample_net logs fin reply nn) ''deposit'' sample_deposit w =
    (Ok (), (elapse w)\<lparr>wd_file := wd_file w @ [''1''], wd_ledger := (wd_ledger w)\<lparr>lg_records := [(sample_key, sample_rec ''seen'' None None 0)]\<rparr>\<rparr>)"
proof -
  have i: "hex_encode sample_bridge (be_id sample_deposit) = replicate 32 (CHR ''a'')" "hex_encode sample_bridge (be_hk_account sample_deposit) = replicate 32 (CHR ''c'')"
    by (simp_all add: sample_bridge_def sample_deposit_def sample_char)
  have d: "unat (be_amount sample_deposit) = 7" "uint (be_block sample_deposit) = 9" "be_tx_hash sample_deposit = ''h''" by (simp_all add: sample_deposit_def)
  have p: "parse_u128 ''7'' = Some 7" using parse_u128_show [of 7] by (simp add: show_dec_7)
  have new: "\<not> ledger_has (wd_ledger w) ''deposit'' (replicate 32 (CHR ''a''))" using assms(2) by (simp add: ledger_has_def bmap_contains_def)
  show ?thesis
    unfolding record_eth_event_def Let_def i d show_dec_7 if_not_P [OF new] sample_rpc(8) [OF assms(1) sample_ser(1)]
    by (simp add: ledger_fold_def assms(2) record_update_def record_default_def field_str_def p sample_rec_def sample_key_def)
qed

lemma sample_scan_first:
  assumes "logs 2 = [sample_log]" and "fin 1 = ''0x9'' \<and> s = 9 \<or> fin 1 = ''0x5'' \<and> s = 5"
  shows "scan_eth sample_bridge (sample_net logs fin reply nn) sample_svc sample_world =
    (Ok (), sample_at 5 [''1'', ''2''] 0 (sample_rec ''seen'' None None 0) s [])"
proof -
  let ?N = "sample_net logs fin reply nn"
  have safe: "eth_safe_head sample_bridge ?N sample_svc 9 (elapse sample_world) = (Ok s, elapse (elapse sample_world))"
    using assms(2) sample_rpc(2,3) [of "elapse sample_world" fin logs reply nn] by (auto simp: sample_world_def)
  let ?w = "(elapse (elapse sample_world))\<lparr>wd_health := (wd_health (elapse (elapse sample_world)))\<lparr>he_eth_head := 9, he_eth_safe := s\<rparr>\<rparr>"
  have w: "wd_left ?w = 98" "wd_clock ?w = 2" "lg_eth_cursor (wd_ledger ?w) = 8" "lg_records (wd_ledger ?w) = []" "wd_file ?w = []" by (simp_all add: sample_world_def)
  have min: "min ((8::u64) + 1 + sv_log_page sample_svc - 1) 9 = 9" by (simp add: sample_svc_def)
  have page: "scan_page sample_bridge ?N sample_svc 9 ?w = (Ok (), sample_at 5 [''1'', ''2''] 0 (sample_rec ''seen'' None None 0) s [])"
    unfolding scan_page_def Let_def w(3) min
    by (simp add: sample_rpc(4) w assms(1) [unfolded numeral_2_eq_2] sample_decode_log sample_record_event ledger_cursor_def sample_rpc(8) [OF _ sample_ser(2)] ledger_fold_def
        sample_svc_def sample_at_def sample_world_def elapse_def)
  have "scan_eth_loop 98 sample_bridge ?N sample_svc 9 ?w = (Ok (), sample_at 5 [''1'', ''2''] 0 (sample_rec ''seen'' None None 0) s [])"
  proof -
    have "scan_eth_loop (Suc 97) sample_bridge ?N sample_svc 9 ?w = scan_eth_loop 97 sample_bridge ?N sample_svc 9 (sample_at 5 [''1'', ''2''] 0 (sample_rec ''seen'' None None 0) s [])"
      unfolding scan_eth_loop.simps page w(3) by simp
    also have "\<dots> = scan_eth_loop (Suc 96) sample_bridge ?N sample_svc 9 (sample_at 5 [''1'', ''2''] 0 (sample_rec ''seen'' None None 0) s [])" by simp
    also have "\<dots> = (Ok (), sample_at 5 [''1'', ''2''] 0 (sample_rec ''seen'' None None 0) s [])"
      unfolding scan_eth_loop.simps by (simp add: sample_at_def)
    finally show ?thesis by simp
  qed
  moreover have "block_number sample_bridge ?N sample_world = (Ok 9, elapse sample_world)" by (rule sample_rpc(1)) (simp add: sample_world_def)
  ultimately show ?thesis unfolding scan_eth_def using safe w(1) by (simp only: try_rw_simps Let_def)
qed

lemma sample_at_fields [simp]:
  "wd_clock (sample_at t fl n r s sent) = t" "wd_left (sample_at t fl n r s sent) = 100 - t" "wd_file (sample_at t fl n r s sent) = fl"
  "lg_records (wd_ledger (sample_at t fl n r s sent)) = [(sample_key, r)]" "lg_eth_cursor (wd_ledger (sample_at t fl n r s sent)) = 9"
  "wd_sent (sample_at t fl n r s sent) = sent" "he_eth_safe (wd_health (sample_at t fl n r s sent)) = s"
  by (simp_all add: sample_at_def)

lemma sample_elapse [simp]: "t < 100 \<Longrightarrow> elapse (sample_at t fl n r s sent) = sample_at (Suc t) fl n r s sent"
  by (simp add: sample_at_def elapse_def)

lemma sample_scan_again:
  assumes "t < 90" and "fin (Suc t) = ''0x9''"
  shows "scan_eth sample_bridge (sample_net logs fin reply nn) sample_svc (sample_at t fl n r s sent) = (Ok (), sample_at (t + 2) fl n r 9 sent)"
proof -
  have loop: "scan_eth_loop fuel X N sv 9 (sample_at (t + 2) fl n r 9 sent) = (Ok (), sample_at (t + 2) fl n r 9 sent)" for fuel X N sv
    by (cases fuel) simp_all
  have h: "(sample_at (Suc (Suc t)) fl n r s sent)\<lparr>wd_health := (wd_health (sample_at (Suc (Suc t)) fl n r s sent))\<lparr>he_eth_head := 9, he_eth_safe := 9\<rparr>\<rparr>
     = sample_at (t + 2) fl n r 9 sent" by (simp add: sample_at_def)
  show ?thesis using assms loop h by (simp add: scan_eth_def sample_rpc Let_def)
qed

lemma sample_scan_hk:
  "t < 90 \<Longrightarrow> scan_hk sample_bridge (sample_net logs fin reply nn) sample_svc (sample_at t fl n r s sent)
     = (Err ''hk: chain height 0 / RPC unreachable'', sample_at (t + 1) fl n r s sent)"
  by (simp add: scan_hk_def sample_rpc)

lemma sample_parse: "parse_h256 sample_bridge (replicate 32 (CHR ''c'')) = Ok sample_acc"
proof -
  have "trim_str (replicate 32 (CHR ''c'')) = replicate 32 (CHR ''c'')" using trim_byte_chars [of "replicate 32 99"] by (simp add: sample_char)
  then show ?thesis by (simp add: parse_h256_def sample_bridge_def sample_acc_def)
qed

lemma sample_states: "in_states (wd_ledger (sample_at t fl n r s sent)) ''deposit'' states = (if lr_kind r = ''deposit'' \<and> lr_state r \<in> set states then [r] else [])"
  by (simp add: in_states_def)

lemma sample_not_final:
  "process_eth_events sample_bridge (sample_net logs fin reply nn) sample_svc (sample_at t fl n (sample_rec ''seen'' txid txt k) 5 sent)
     = (Ok (), sample_at t fl n (sample_rec ''seen'' txid txt k) 5 sent)"
proof -
  have "(5::u64) < 9" by (simp add: word_less_nat_alt)
  then show ?thesis by (simp add: process_eth_events_def process_eth_kind_def sample_states process_eth_one_def sample_rec_def sample_svc_def)
qed

text \<open>One line of the ledger on a world with the one record.\<close>

lemma sample_write:
  assumes "t < 90" and "ser_event sample_bridge \<lparr>ev_t = 0, ev_kind = ''deposit'', ev_id = replicate 32 (CHR ''a''), ev_state = st, ev_fields = flds\<rparr> = Some line"
    and "lr_kind r = ''deposit''"
  shows "ledger_write sample_bridge (sample_net logs fin reply nn) ''deposit'' (replicate 32 (CHR ''a'')) st flds (sample_at t fl n r s sent) =
    (Ok (), sample_at (t + 1) (fl @ [line]) n
       (record_update \<lparr>ev_t = 0, ev_kind = ''deposit'', ev_id = replicate 32 (CHR ''a''), ev_state = st, ev_fields = flds\<rparr> r) s sent)"
proof -
  have "wd_left (sample_at t fl n r s sent) \<noteq> 0" using assms(1) by simp
  from sample_rpc(8) [OF this assms(2), of logs fin reply nn] show ?thesis
    using assms(1) by (simp add: ledger_fold_def Let_def sample_key_def [symmetric]) (simp add: sample_at_def)
qed

lemma sample_updates:
  "record_update \<lparr>ev_t = 0, ev_kind = kd, ev_id = i, ev_state = ''submitting'', ev_fields = [(''attempt'', JNum 1)]\<rparr> (sample_rec st txid txt k) = sample_rec ''submitting'' txid txt (k + 1)"
  "record_update \<lparr>ev_t = 0, ev_kind = kd, ev_id = i, ev_state = ''submitted'', ev_fields = [(''hk_txid'', JStr ''t'')]\<rparr> (sample_rec st txid txt k) = sample_rec ''submitted'' (Some ''t'') txt k"
  "record_update \<lparr>ev_t = 0, ev_kind = kd, ev_id = i, ev_state = st2, ev_fields = [(''note'', JStr x)]\<rparr> (sample_rec st txid txt k) = sample_rec st2 txid (Some x) k"
  by (simp_all add: record_update_def sample_rec_def field_str_def)

lemma sample_submit_at:
  assumes "t < 90"
  shows "reply (t + 3) = sample_reply \<Longrightarrow> hk_submit sample_bridge (sample_net logs fin reply nn) sample_svc tag (AssetMint 5 sample_acc 7) (sample_at t fl n r s sent) =
      (Ok ''t'', sample_at (t + 4) fl (nn (Suc t) + 1) r s (sent @ [SentHk tag (sample_mint (nn (Suc t)))]))"
    "reply (t + 3) = JNull \<Longrightarrow> hk_submit sample_bridge (sample_net logs fin reply nn) sample_svc tag (AssetMint 5 sample_acc 7) (sample_at t fl n r s sent) =
      (Err ''submit-failed: '', sample_at (t + 5) fl (nn (Suc t)) r s (sent @ [SentHk tag (sample_mint (nn (Suc t)))]))"
proof -
  have l: "5 < wd_left (sample_at t fl n r s sent)" using assms by simp
  show "reply (t + 3) = sample_reply \<Longrightarrow> hk_submit sample_bridge (sample_net logs fin reply nn) sample_svc tag (AssetMint 5 sample_acc 7) (sample_at t fl n r s sent) =
      (Ok ''t'', sample_at (t + 4) fl (nn (Suc t) + 1) r s (sent @ [SentHk tag (sample_mint (nn (Suc t)))]))"
    using sample_submit(1) [OF l, of reply logs fin nn tag] by (simp add: sample_at_def)
  show "reply (t + 3) = JNull \<Longrightarrow> hk_submit sample_bridge (sample_net logs fin reply nn) sample_svc tag (AssetMint 5 sample_acc 7) (sample_at t fl n r s sent) =
      (Err ''submit-failed: '', sample_at (t + 5) fl (nn (Suc t)) r s (sent @ [SentHk tag (sample_mint (nn (Suc t)))]))"
    using sample_submit(2) [OF l, of reply logs fin nn tag] by (simp add: sample_at_def)
qed

lemma sample_mint_sent:
  assumes "t < 50" and "reply (t + 5) = sample_reply"
  shows "process_eth_events sample_bridge (sample_net logs fin reply nn) sample_svc (sample_at t fl n (sample_rec ''seen'' None txt k) 9 sent)
     = (Ok (), sample_at (t + 9) (fl @ [''3'', ''4'', ''5'']) (nn (t + 3) + 1) (sample_rec ''confirmed'' (Some ''t'') (Some ''ok'') (k + 1)) 9 (sent @ [SentHk sample_key (sample_mint (nn (t + 3)))]))"
proof -
  have f: "lr_kind (sample_rec a b c d) = ''deposit''" "lr_id (sample_rec a b c d) = replicate 32 (CHR ''a'')" "lr_state (sample_rec a b c d) = a"
    "lr_at (sample_rec a b c d) = 9" "lr_to (sample_rec a b c d) = replicate 32 (CHR ''c'')" "lr_amount (sample_rec a b c d) = 7" for a b c d by (simp_all add: sample_rec_def)
  have sv: "sv_usdc sample_svc = 5" "sv_hkt sample_svc = None" by (simp_all add: sample_svc_def)
  have e: "t + 3 = Suc (t + 1 + 1)" by simp
  have r: "reply (t + 1 + 1 + 3) = sample_reply" using assms(2) by (simp add: numeral_eq_Suc)
  have sub: "hk_submit sample_bridge (sample_net logs fin reply nn) sample_svc sample_key (AssetMint 5 sample_acc 7)
      (sample_at (t + 1 + 1) (fl @ [''3'']) n (sample_rec ''submitting'' None txt (k + 1)) 9 sent) =
      (Ok ''t'', sample_at (t + 1 + 1 + 4) (fl @ [''3'']) (nn (t + 3) + 1) (sample_rec ''submitting'' None txt (k + 1)) 9 (sent @ [SentHk sample_key (sample_mint (nn (t + 3)))]))"
    unfolding e by (rule sample_submit_at(1)) (use assms(1) r in auto)
  have wait: "hk_wait_receipt 30 (sample_net logs fin reply nn) ''t'' (sample_at u fl n r s sent) = (Ok (Some ''ok''), sample_at (u + 1) fl n r s sent)" if "u < 90" for u fl n r s sent
  proof -
    have "hk_wait_receipt (Suc 29) (sample_net logs fin reply nn) ''t'' (sample_at u fl n r s sent) = (Ok (Some ''ok''), sample_at (u + 1) fl n r s sent)"
      using that by (simp only: hk_wait_receipt.simps) (simp add: sample_rpc(6))
    then show ?thesis by simp
  qed
  show ?thesis
    using assms(1)
    by (simp add: process_eth_events_def process_eth_kind_def sample_states f process_eth_one_def sample_parse sample_rpc(5) send_mint_def sv
        sample_write [OF _ sample_ser(3)] sample_updates sub [unfolded sample_key_def, simplified] sample_key_def [symmetric] sub [simplified]
        sample_write [OF _ sample_ser(4)] wait settle_mint_def starts_with_def sample_write [OF _ sample_ser(5)]) (simp add: add.commute)
qed

lemma sample_mint_lost:
  assumes "t < 50" and "reply (t + 5) = JNull"
  shows "process_eth_events sample_bridge (sample_net logs fin reply nn) sample_svc (sample_at t fl n (sample_rec ''seen'' None txt k) 9 sent)
     = (Err (''deposit '' @ replicate 32 (CHR ''a'') @ '': submit-failed: ''),
        sample_at (t + 8) (fl @ [''3'', ''6'']) (nn (t + 3)) (sample_rec ''seen'' None (Some ''submit failed: submit-failed: '') (k + 1)) 9 (sent @ [SentHk sample_key (sample_mint (nn (t + 3)))]))"
proof -
  have f: "lr_kind (sample_rec a b c d) = ''deposit''" "lr_id (sample_rec a b c d) = replicate 32 (CHR ''a'')" "lr_state (sample_rec a b c d) = a"
    "lr_at (sample_rec a b c d) = 9" "lr_to (sample_rec a b c d) = replicate 32 (CHR ''c'')" "lr_amount (sample_rec a b c d) = 7" for a b c d by (simp_all add: sample_rec_def)
  have sv: "sv_usdc sample_svc = 5" "sv_hkt sample_svc = None" by (simp_all add: sample_svc_def)
  have e: "t + 3 = Suc (t + 1 + 1)" by simp
  have r: "reply (t + 1 + 1 + 3) = JNull" using assms(2) by (simp add: numeral_eq_Suc)
  have sub: "hk_submit sample_bridge (sample_net logs fin reply nn) sample_svc sample_key (AssetMint 5 sample_acc 7)
      (sample_at (t + 1 + 1) (fl @ [''3'']) n (sample_rec ''submitting'' None txt (k + 1)) 9 sent) =
      (Err ''submit-failed: '', sample_at (t + 1 + 1 + 5) (fl @ [''3'']) (nn (t + 3)) (sample_rec ''submitting'' None txt (k + 1)) 9 (sent @ [SentHk sample_key (sample_mint (nn (t + 3)))]))"
    unfolding e by (rule sample_submit_at(2)) (use assms(1) r in auto)
  show ?thesis
    using assms(1)
    by (simp add: process_eth_events_def process_eth_kind_def sample_states f process_eth_one_def sample_parse sample_rpc(5) send_mint_def sv
        sample_write [OF _ sample_ser(3)] sample_updates sample_key_def [symmetric] sub [simplified]
        sample_write [OF _ sample_ser(6)]) (simp add: add.commute)
qed

text \<open>The three runs.\<close>

lemma sample_tick_minted:
  assumes "logs 2 = [sample_log]" and "fin 1 = ''0x9''" and "reply 10 = sample_reply"
  shows "\<exists>e. tick sample_bridge (sample_net logs fin reply nn) sample_svc sample_world =
    (Err e, sample_at 15 [''1'', ''2'', ''3'', ''4'', ''5''] (nn 8 + 1) (sample_rec ''confirmed'' (Some ''t'') (Some ''ok'') 1) 9 [SentHk sample_key (sample_mint (nn 8))])"
proof -
  show ?thesis
    using sample_mint_sent [of 5 reply logs fin nn "[''1'', ''2'']" 0 None 0 "[]"] sample_scan_first [of logs fin 9 reply nn] assms by (simp add: tick_def sample_scan_hk)
qed

lemma sample_tick_lost:
  assumes "logs 2 = [sample_log]" and "fin 1 = ''0x9''" and "reply 10 = JNull"
  shows "\<exists>e. tick sample_bridge (sample_net logs fin reply nn) sample_svc sample_world =
    (Err e, sample_at 13 [''1'', ''2'', ''3'', ''6''] (nn 8) (sample_rec ''seen'' None (Some ''submit failed: submit-failed: '') 1) 9 [SentHk sample_key (sample_mint (nn 8))])"
proof -
  show ?thesis
    using sample_mint_lost [of 5 reply logs fin nn "[''1'', ''2'']" 0 None 0 "[]"] sample_scan_first [of logs fin 9 reply nn] assms by (simp add: tick_def)
qed

lemma sample_tick_waiting:
  assumes "logs 2 = [sample_log]" and "fin 1 = ''0x5''"
  shows "\<exists>e. tick sample_bridge (sample_net logs fin reply nn) sample_svc sample_world = (Err e, sample_at 6 [''1'', ''2''] 0 (sample_rec ''seen'' None None 0) 5 [])"
  using sample_scan_first [of logs fin 5 reply nn] assms by (simp add: tick_def sample_not_final sample_scan_hk)

lemma sample_tick_later:
  assumes "t < 40" and "fin (Suc t) = ''0x9''" and "reply (t + 7) = sample_reply"
  shows "\<exists>e. tick sample_bridge (sample_net logs fin reply nn) sample_svc (sample_at t fl n (sample_rec ''seen'' None txt k) s sent) =
    (Err e, sample_at (t + 12) (fl @ [''3'', ''4'', ''5'']) (nn (t + 5) + 1) (sample_rec ''confirmed'' (Some ''t'') (Some ''ok'') (k + 1)) 9 (sent @ [SentHk sample_key (sample_mint (nn (t + 5)))]))"
proof -
  have r: "reply (t + 2 + 5) = sample_reply" using assms(3) by (simp add: numeral_eq_Suc)
  have l: "t + 2 < 50" using assms(1) by simp
  show ?thesis
    using l r sample_mint_sent [of "t + 2" reply logs fin nn fl n "txt" k sent] sample_scan_again [of t fin logs reply nn fl n "sample_rec ''seen'' None txt k" s sent] assms
    by (simp add: tick_def sample_scan_hk) (simp add: add.commute)
qed

lemma sample_new: "new_service 9 1 sample_world"
  by (simp add: new_service_def sample_world_def saturating_sub_def)

section \<open>The bridge's guarantees\<close>

text \<open>C6: Nothing is paid twice. Over any run of the service, with kills at any moment, disks that refuse a line or report a failure for a line
  that is there, restarts from the file, wrong or missing answers of both chains, and operator resolutions, at most one mint per deposit
  or wrapped burn and at most one release per burn or wrapped lock ever leaves the process and arrives. The one thing
  assumed of the network is that a transaction that arrived is not answered as failed; of the operator, that a
  record is returned to \<open>seen\<close> only when nothing was sent for it.\<close>

theorem bridge_pays_once:
  assumes "bridge_run True X N sv f h w" and "lines_faithful X" and "replies_hold X N"
  shows "distinct (map sent_for (wd_sent w))"
  using bridge_run_ok [OF assms(1,2)] assms(3) by (simp add: bridge_ok_def)

lemma sample_replies: "\<forall>t. reply t = sample_reply \<Longrightarrow> replies_hold sample_bridge (sample_net logs fin reply nn)"
  by (simp add: replies_hold_def sample_net_def sample_reply_def txid_of_reply_def starts_with_def call_result_def)

theorem bridge_pays_once_witness:
  "\<exists>r w. tick sample_bridge (sample_net (\<lambda>_. [sample_log]) (\<lambda>_. ''0x9'') (\<lambda>_. sample_reply) (\<lambda>_. 0)) sample_svc sample_world = (r, w)
     \<and> wd_sent w = [SentHk sample_key (sample_mint 0)] \<and> distinct (map sent_for (wd_sent w))"
proof -
  let ?N = "sample_net (\<lambda>_. [sample_log]) (\<lambda>_. ''0x9'') (\<lambda>_. sample_reply) (\<lambda>_. 0)"
  obtain e w where t: "tick sample_bridge ?N sample_svc sample_world = (Err e, w)" "wd_sent w = [SentHk sample_key (sample_mint 0)]"
    using sample_tick_minted [of "\<lambda>_. [sample_log]" "\<lambda>_. ''0x9''" "\<lambda>_. sample_reply" "\<lambda>_. 0"] by auto
  have run: "bridge_run True sample_bridge ?N sample_svc 9 1 w" by (rule bridge_run.round [OF bridge_run.service [OF sample_new] t(1)])
  have "distinct (map sent_for (wd_sent w))" by (rule bridge_pays_once [OF run sample_faithful sample_replies]) simp
  then show ?thesis using t by blast
qed

text \<open>C7: A mint pays what was locked. Every mint that leaves the process and arrives pays the amount of an event the Ethereum provider reported for the bridge's contract
  to the account that event names, in the asset of that contract, under the event's id, and the event's block is not above a safe head: the provider answered a block
  number, and the safe head is what the service then computed from it by its configured rule, the provider's answer for a tag or that number less the configured depth. (An event
  reported for block 0 needs no safe head.) This holds through kills, failing disks, restarts and every operator resolution, with no assumption on the answers to submissions; the
  lines of the ledger are assumed to be read back as they were written.\<close>

theorem mints_are_backed:
  assumes "bridge_run False X N sv f h w" and "lines_faithful X" and "SentHk k tx \<in> set (wd_sent w)"
  shows "\<exists>kind ev asset to_acc. k = ledger_key kind (hex_encode X (be_id ev)) \<and> locked X N sv kind ev
     \<and> asset_of sv kind = Some asset \<and> parse_h256 X (hex_encode X (be_hk_account ev)) = Ok to_acc
     \<and> stx_payload tx = AssetMint asset to_acc (be_amount ev)
     \<and> (be_block ev = 0 \<or> (\<exists>s head w0 w1 w2. be_block ev \<le> s \<and> block_number X N w0 = (Ok head, w1) \<and> eth_safe_head X N sv head w1 = (Ok s, w2)))"
proof -
  have "bridge_ok False X N sv f h w" by (rule bridge_run_ok [OF assms(1,2)]) simp
  then have "mint_due X N sv k tx" using assms(3) by (simp add: bridge_ok_def)
  then show ?thesis unfolding mint_due_def safe_reported_def by blast
qed

theorem mints_are_backed_witness:
  "\<exists>kind ev. locked sample_bridge (sample_net (\<lambda>_. [sample_log]) (\<lambda>_. ''0x9'') (\<lambda>_. sample_reply) (\<lambda>_. 0)) sample_svc kind ev
     \<and> sample_key = ledger_key kind (hex_encode sample_bridge (be_id ev)) \<and> be_amount ev = 7"
proof -
  let ?N = "sample_net (\<lambda>_. [sample_log]) (\<lambda>_. ''0x9'') (\<lambda>_. sample_reply) (\<lambda>_. 0)"
  obtain e w where t: "tick sample_bridge ?N sample_svc sample_world = (Err e, w)" "wd_sent w = [SentHk sample_key (sample_mint 0)]"
    using sample_tick_minted [of "\<lambda>_. [sample_log]" "\<lambda>_. ''0x9''" "\<lambda>_. sample_reply" "\<lambda>_. 0"] by auto
  have run: "bridge_run False sample_bridge ?N sample_svc 9 1 w" by (rule bridge_run.round [OF bridge_run.service [OF sample_new] t(1)])
  have m: "SentHk sample_key (sample_mint 0) \<in> set (wd_sent w)" by (simp add: t(2))
  show ?thesis using mints_are_backed [OF run sample_faithful m] sample_mint_signed(2) by auto
qed



section \<open>Where the guarantee ends\<close>

text \<open>C32: An event is recorded as soon as the head shows it and acted on when its block number is behind the safe head; that the event is still on the chain
  is not asked again. A deposit that a reorganisation removed is minted.\<close>

theorem removed_deposit_is_minted:
  "\<exists>N r1 w1 r2 w2. tick sample_bridge N sample_svc sample_world = (r1, w1) \<and> wd_sent w1 = [] \<and> tick sample_bridge N sample_svc w1 = (r2, w2)
     \<and> (\<forall>d ps. nt_eth (N (wd_clock w1 + d)) ''eth_getLogs'' ps = Ok (JObj [(''result'', JArr [])]))
     \<and> wd_sent w2 = [SentHk sample_key (sample_mint 0)]"
proof -
  let ?logs = "\<lambda>t :: nat. if t < 6 then [sample_log] else []" and ?fin = "\<lambda>t :: nat. if t < 6 then ''0x5'' else ''0x9''"
  let ?N = "sample_net ?logs ?fin (\<lambda>_. sample_reply) (\<lambda>_. 0)"
  obtain e where t1: "tick sample_bridge ?N sample_svc sample_world = (Err e, sample_at 6 [''1'', ''2''] 0 (sample_rec ''seen'' None None 0) 5 [])"
    using sample_tick_waiting [of ?logs ?fin "\<lambda>_. sample_reply" "\<lambda>_. 0"] by auto
  obtain e2 w2 where t2: "tick sample_bridge ?N sample_svc (sample_at 6 [''1'', ''2''] 0 (sample_rec ''seen'' None None 0) 5 []) = (Err e2, w2)"
    "wd_sent w2 = [SentHk sample_key (sample_mint 0)]"
    using sample_tick_later [of 6 ?fin "\<lambda>_. sample_reply" ?logs "\<lambda>_. 0" "[''1'', ''2'']" 0 None 0 5 "[]"] by auto
  have "\<forall>d ps. nt_eth (?N (wd_clock (sample_at 6 [''1'', ''2''] 0 (sample_rec ''seen'' None None 0) 5 []) + d)) ''eth_getLogs'' ps = Ok (JObj [(''result'', JArr [])])"
    by (simp add: sample_net_def)
  then show ?thesis using t1 t2 by (intro exI [of _ ?N]) auto
qed

section \<open>The rounds of a scan\<close>

text \<open>No step gives effects back, and a page that was scanned took one at least: the fuel of the scan never ends it.\<close>

definition takes :: "World \<Rightarrow> ('a, string, World) step \<Rightarrow> bool" where
  "takes w m \<longleftrightarrow> wd_left (snd m) \<le> wd_left w"

lemma takes_try_rw:
  assumes "takes w m" "\<And>x w1. takes w1 (g x w1)"
  shows "takes w (try_rw m g)"
proof -
  obtain r w1 where m: "m = (r, w1)" by fastforce
  then have "wd_left w1 \<le> wd_left w" using assms(1) by (simp add: takes_def)
  then show ?thesis using assms(2) [of w1, unfolded takes_def] by (cases r) (auto simp: m takes_def intro: le_trans)
qed

lemma takes_try_ro: "(\<And>x. takes w (g x)) \<Longrightarrow> takes w (try_ro r w g)"
  by (cases r) (simp_all add: takes_def)

lemma takes_eth_logs: "takes w (eth_logs X N a t b c w)"
  unfolding eth_logs_def eth_rpc_def by (intro takes_try_rw) (simp_all add: takes_def ask_def elapse_def)

lemma takes_write: "takes w (ledger_write X N kind i st flds w)"
  by (auto simp: takes_def ledger_write_def Let_def elapse_def split: option.split DiskAnswer.split)

lemma takes_record_logs: "takes w (record_logs X N kind logs w)"
proof (induction logs arbitrary: w)
  case (Cons log logs)
  have "takes w1 (record_eth_event X N kind ev w1)" for ev w1
  proof (cases "ledger_has (wd_ledger w1) kind (hex_encode X (be_id ev))")
    case True
    then show ?thesis by (simp add: record_eth_event_def Let_def takes_def)
  next
    case False
    then show ?thesis by (simp add: record_eth_event_def Let_def takes_write)
  qed
  then show ?case unfolding record_logs.simps by (intro takes_try_ro takes_try_rw Cons.IH)
qed (simp add: takes_def)

lemma scan_page_takes:
  assumes "scan_page X N sv head w = (Ok u, w')"
  shows "wd_left w' < wd_left w"
proof -
  let ?from = "lg_eth_cursor (wd_ledger w) + 1"
  let ?to = "min (?from + sv_log_page sv - 1) head"
  obtain logs w1 where w1: "eth_logs X N (sv_vault sv) (event_topic X LOCKED_SIG) ?from ?to w = (Ok logs, w1)"
    using assms unfolding scan_page_def Let_def by (elim try_rw_OkE)
  then have "wd_left w1 < wd_left w" by (auto simp: eth_logs_def eth_rpc_def ask_def elapse_def elim!: try_rw_OkE split: if_splits)
  moreover have "takes w1 (try_rw (record_logs X N ''deposit'' logs w1) (\<lambda>_ w.
         try_rw (case sv_wrapped sv of
                   None \<Rightarrow> (Ok (), w)
                 | Some wr \<Rightarrow> try_rw (eth_logs X N wr (event_topic X BURNED_SIG) ?from ?to w) (\<lambda>burned w. record_logs X N ''wburn'' burned w)) (\<lambda>_ w.
           ledger_cursor X N ''eth'' ?to w)))"
    unfolding ledger_cursor_def
  proof (intro takes_try_rw takes_record_logs takes_write)
    fix w2
    show "takes w2 (case sv_wrapped sv of None \<Rightarrow> (Ok (), w2)
      | Some wr \<Rightarrow> try_rw (eth_logs X N wr (event_topic X BURNED_SIG) ?from ?to w2) (\<lambda>burned w. record_logs X N ''wburn'' burned w))"
      by (cases "sv_wrapped sv") (simp_all add: takes_try_rw takes_eth_logs takes_record_logs, simp add: takes_def)
  qed
  ultimately show ?thesis using assms unfolding scan_page_def Let_def w1 try_rw_simps by (simp add: takes_def)
qed

lemma scan_page_killed: "wd_left w = 0 \<Longrightarrow> scan_page X N sv head w = (Panic, w)"
  by (simp add: scan_page_def eth_logs_def eth_rpc_def ask_def)

text \<open>The scan of Ethereum ends by its own condition. With any fuel that is not less than the effects the process has left, the loop gives the same result: it
  stops at the head, with an error of a page, or because the process is killed, and never for want of fuel.\<close>

lemma scan_ends_by_itself:
  assumes "wd_left w \<le> fuel"
  shows "scan_eth_loop fuel X N sv head w = scan_eth_loop (wd_left w) X N sv head w"
proof -
  have "wd_left w \<le> m \<Longrightarrow> wd_left w \<le> n \<Longrightarrow> scan_eth_loop m X N sv head w = scan_eth_loop n X N sv head w" for m n
  proof (induction m arbitrary: n w)
    case 0
    then show ?case by (cases n) (simp_all add: scan_page_killed)
  next
    case (Suc m)
    show ?case
    proof (cases n)
      case 0
      then show ?thesis using Suc.prems by (simp add: scan_page_killed)
    next
      case (Suc k)
      obtain r w1 where p: "scan_page X N sv head w = (r, w1)" by fastforce
      show ?thesis
      proof (cases r)
        case (Ok u)
        then have "wd_left w1 < wd_left w" using scan_page_takes p by blast
        then have "scan_eth_loop m X N sv head w1 = scan_eth_loop k X N sv head w1" using Suc.IH [of w1 k] Suc.prems Suc by simp
        then show ?thesis by (simp add: Suc p Ok)
      qed (simp_all add: Suc p)
    qed
  qed
  then show ?thesis using assms by blast
qed

section \<open>The co-signer\<close>

lemma cosign_check_Ok:
  assumes "cosign_check X asset amount to_a own = Ok ()"
  obtains r s fl where "json_get own ''result'' = Some r" "and_then (json_get r ''found'') as_bool = Some True"
    "starts_with (unwrap_or (json_str r ''receipt'') []) ''ok''" "json_get r ''summary'' = Some s" "json_str s ''kind'' = Some ''asset_burn''"
    "json_get s ''fields'' = Some fl" "json_str fl ''asset'' = Some asset" "and_then (json_str fl ''amount'') parse_u128 = Some amount"
    "ascii_lower (unwrap_or (json_str fl ''destination'') []) = hex_encode X to_a"
  using assms unfolding cosign_check_def by (auto elim!: bind_ok_OkE split: if_splits)

text \<open>A co-signer signs only what its own node vouches for. An answer with a signature means that the co-signer's own node reports the
  transaction of that id as an accepted burn of the configured asset, with this amount and this destination, and the signature is on the digest the co-signer computed
  itself for this contract, recipient, amount and id; a digest sent along that differs is refused.\<close>

lemma cosigner_vouches:
  assumes "cosign_one X signer usdc hkt vault_domain wrapped_domain own req = Ok v"
  shows "\<exists>to_a amount i domain ty asset r s fl sig.
     json_get (own (unwrap_or (json_str req ''id'') [])) ''result'' = Some r \<and> and_then (json_get r ''found'') as_bool = Some True
     \<and> starts_with (unwrap_or (json_str r ''receipt'') []) ''ok'' \<and> json_get r ''summary'' = Some s \<and> json_str s ''kind'' = Some ''asset_burn''
     \<and> json_get s ''fields'' = Some fl \<and> json_str fl ''asset'' = Some asset \<and> and_then (json_str fl ''amount'') parse_u128 = Some amount
     \<and> ascii_lower (unwrap_or (json_str fl ''destination'') []) = hex_encode X to_a
     \<and> hex_decode X (unwrap_or (json_str req ''id'') []) = Ok i \<and> length i = 32
     \<and> cosign_target hkt vault_domain wrapped_domain usdc (unwrap_or (json_str req ''kind'') []) = Ok (domain, ty, asset)
     \<and> (\<forall>d. json_str req ''digest'' = Some d \<longrightarrow> unhex X d = Ok (typed_digest X domain (attest_struct_hash X ty to_a amount i)))
     \<and> sign_digest X signer (typed_digest X domain (attest_struct_hash X ty to_a amount i)) = Ok sig
     \<and> v = JObj [(''sig'', JStr (hex0x X sig)), (''address'', JStr (address_hex X (sg_address signer)))]"
proof -
  from assms obtain to_a amount i domain ty asset sig where
    i: "hex_decode X (unwrap_or (json_str req ''id'') []) = Ok i" "length i = 32"
    and t: "cosign_target hkt vault_domain wrapped_domain usdc (unwrap_or (json_str req ''kind'') []) = Ok (domain, ty, asset)"
    and c: "cosign_check X asset amount to_a (own (unwrap_or (json_str req ''id'') [])) = Ok ()"
    and d: "(case json_str req ''digest'' of Some d \<Rightarrow> bind_ok (unhex X d) (\<lambda>sent. if sent \<noteq> typed_digest X domain (attest_struct_hash X ty to_a amount i)
        then Err ''digest mismatch - refusing'' else Ok ()) | None \<Rightarrow> Ok ()) = Ok ()"
    and s: "sign_digest X signer (typed_digest X domain (attest_struct_hash X ty to_a amount i)) = Ok sig"
    and v: "v = JObj [(''sig'', JStr (hex0x X sig)), (''address'', JStr (address_hex X (sg_address signer)))]"
    unfolding cosign_one_def Let_def by (elim bind_ok_OkE) (auto elim!: bind_ok_OkE split: if_splits)
  have "\<forall>d. json_str req ''digest'' = Some d \<longrightarrow> unhex X d = Ok (typed_digest X domain (attest_struct_hash X ty to_a amount i))"
    using d by (auto elim!: bind_ok_OkE split: if_splits)
  then show ?thesis by (rule_tac cosign_check_Ok [OF c]) (use i t s v in blast)
qed

end
