(* ===== verification/HK_BridgeFaults.thy ===== *)
theory HK_BridgeFaults
  imports HK_BridgeRuns HK_Properties
begin

text \<open>
  The bridge service against the ledger it mints on: the envelopes the service signs are accepted by the state machine, one for each nonce, so
  that a submission whose answer is lost leads to two mints for one deposit.
\<close>

section \<open>Mints of the issuer\<close>

text \<open>Envelopes depend on the hash and on the encoding of payloads only, so the service and the state machine read them alike.\<close>

lemma wallet_sign_cong:
  assumes "xof256 C = xof256 X" and "json_tx C = json_tx X"
  shows "wallet_sign C seed i n payload = wallet_sign X seed i n payload"
proof -
  have h: "shake256_32 C = shake256_32 X" using assms(1) by (simp add: fun_eq_iff shake256_32_def)
  have k: "keygen C = keygen X" "pk_commit C = pk_commit X" using h by (simp_all add: fun_eq_iff keygen_def pk_commit_def sk_chunk_def lamport_leaf_def)
  show ?thesis unfolding wallet_sign_def sign_tx_def signing_digest_def commit_at_def h k assms(2) ..
qed

text \<open>An issuer whose account is at the nonce of the envelope, with the commitment to the key of that nonce, mints what it signed, and its account moves on to the next nonce and key.\<close>

lemma issuer_mint_accepted:
  assumes "bmap_get (st_accounts s) i = Some \<lparr>acc_auth_commit = commit_at C seed n, acc_nonce = n\<rparr>" and "wallet_sign C seed i n (AssetMint a to_acc x) = Some tx"
    and "envelope_fee s = 0" and "bmap_get (st_assets s) a = Some info" and "ai_issuer info = i" and "pol_mintable (ai_policy info)"
    and "\<not> ai_paused info" and "ai_frozen info = []" and "x \<noteq> 0" and "checked_add (ai_supply info) x \<noteq> None"
  obtains s' where "apply_tx C s tx = (Ok [EvAssetMinted a to_acc x], s')"
    "bmap_get (st_accounts s') i = Some \<lparr>acc_auth_commit = commit_at C seed (n + 1), acc_nonce = n + 1\<rparr>"
    "bmap_get (st_assets s') a = Some (info\<lparr>ai_supply := ai_supply info + x\<rparr>)" "balance s' to_acc a = saturating_add (balance s to_acc a) x" "envelope_fee s' = 0"
proof -
  have v: "verify_envelope C tx" using assms(2) by (simp add: wallet_sign_def sign_tx_verifies)
  have tx: "stx_sender tx = i" "stx_nonce tx = n" "stx_payload tx = AssetMint a to_acc x" "stx_next_auth tx = commit_at C seed (n + 1)"
    "pk_commit C (stx_lamport_pk tx) = commit_at C seed n"
    using assms(2) by (auto simp: wallet_sign_def sign_tx_def commit_at_def split: option.splits prod.splits)
  let ?s2 = "credit (put_asset s a (info\<lparr>ai_supply := ai_supply info + x\<rparr>)) to_acc a x"
  let ?s' = "?s2\<lparr>st_accounts := bmap_insert (st_accounts ?s2) i \<lparr>acc_auth_commit = commit_at C seed (n + 1), acc_nonce = n + 1\<rparr>\<rparr>"
  obtain y where y: "checked_add (ai_supply info) x = Some y" using assms(10) by blast
  have gate: "asset_gate s a None (Some to_acc) = Ok ()" using assms(4,7,8) by (simp add: asset_gate_def is_some_and_def)
  have d: "dispatch C s i (AssetMint a to_acc x) = (Ok [EvAssetMinted a to_acc x], ?s2)"
    using assms(4-6,9) y gate by (simp add: do_asset_mint_def issuer_entry_def)
  have acc2: "st_accounts ?s2 = st_accounts s" by (simp add: credit_def put_asset_def Let_def)
  have "apply_tx C s tx = (Ok [EvAssetMinted a to_acc x], ?s')"
    using assms(1,3) v d by (simp add: apply_tx_def apply_tx_at_def check_envelope_def tx ratchet_def acc2 Let_def)
  then show ?thesis
    by (rule that) (use assms(3) in \<open>simp_all add: credit_def put_asset_def balance_def envelope_fee_def Let_def split: if_splits\<close>)
qed

section \<open>A lost answer\<close>

definition sample_ledger_env :: state_env where
  "sample_ledger_env = \<lparr>xof256 = xof256 sample_bridge, sha256 = sha256 sample_bridge, json_tx = json_tx sample_bridge, json_mandate = \<lambda>_. Some [],
     json_channel = \<lambda>_. Some [], bincode_spend = \<lambda>_. Some [], bincode_mint = \<lambda>_. Some []\<rparr>"

definition sample_issue :: Genesis where
  "sample_issue = \<lparr>g_time = 0, g_accounts = [\<lparr>ga_id = 6, ga_auth_commit = commit_at sample_ledger_env [] 0\<rparr>], g_alloc = [], g_fee = Some \<lparr>gf_micro = 0, gf_from_height = 0, gf_asset = Some 7\<rparr>,
     g_assets = [\<lparr>gs_id = 5, gs_symbol = ''USDC'', gs_decimals = 6, gs_issuer = 6, gs_policy = policy_default\<lparr>pol_mintable := True\<rparr>\<rparr>]\<rparr>"

definition sample_issue_info :: AssetInfo where
  "sample_issue_info = \<lparr>ai_symbol = ''USDC'', ai_decimals = 6, ai_issuer = 6, ai_policy = policy_default\<lparr>pol_mintable := True\<rparr>, ai_supply = 0,
     ai_burned = 0, ai_paused = False, ai_frozen = [], ai_registered_at = 0\<rparr>"

definition sample_issue_state :: State where
  "sample_issue_state = (state_default sample_ledger_env)\<lparr>st_accounts := [(6, \<lparr>acc_auth_commit = commit_at sample_ledger_env [] 0, acc_nonce = 0\<rparr>)],
     st_assets := [(5, sample_issue_info)], st_fee_micro := 0, st_fee_from := 0, st_fee_asset := 7,
     st_pool := seal_anchor sample_ledger_env (pool_default sample_ledger_env)\<rparr>"

lemma sample_issue_chain: "chain_state sample_ledger_env sample_issue_state"
proof (rule chain_state.genesis)
  show "from_genesis sample_ledger_env sample_issue = Ok sample_issue_state"
    by (simp add: from_genesis_def sample_issue_def state_default_def sample_symbol bmap_contains_def MAX_DECIMALS_def
        policy_default_def sample_issue_state_def sample_issue_info_def Let_def)
qed

lemma sample_issue_env:
  "xof256 sample_ledger_env = xof256 sample_bridge" "json_tx sample_ledger_env = json_tx sample_bridge"
  by (simp_all add: sample_ledger_env_def)

lemma sample_mint_chain: "wallet_sign sample_ledger_env [] 6 n (AssetMint 5 sample_acc 7) = Some (sample_mint n)"
  using wallet_sign_cong [OF sample_issue_env] sample_mint_signed(1) by metis

lemma sample_issue_mints:
  obtains s1 s2 where "apply_tx sample_ledger_env sample_issue_state (sample_mint 0) = (Ok [EvAssetMinted 5 sample_acc 7], s1)"
    "apply_tx sample_ledger_env s1 (sample_mint 1) = (Ok [EvAssetMinted 5 sample_acc 7], s2)"
    "map_option acc_nonce (bmap_get (st_accounts sample_issue_state) 6) = Some 0" "map_option acc_nonce (bmap_get (st_accounts s1) 6) = Some 1"
    "balance sample_issue_state sample_acc 5 = 0" "balance s2 sample_acc 5 = 14"
proof -
  have f: "bmap_get (st_accounts sample_issue_state) 6 = Some \<lparr>acc_auth_commit = commit_at sample_ledger_env [] 0, acc_nonce = 0\<rparr>"
    "envelope_fee sample_issue_state = 0" "bmap_get (st_assets sample_issue_state) 5 = Some sample_issue_info" "balance sample_issue_state sample_acc 5 = 0"
    by (simp_all add: sample_issue_state_def state_default_def envelope_fee_def balance_def)
  have i: "ai_issuer sample_issue_info = 6" "pol_mintable (ai_policy sample_issue_info)" "\<not> ai_paused sample_issue_info" "ai_frozen sample_issue_info = []"
    "ai_supply sample_issue_info = 0" by (simp_all add: sample_issue_info_def policy_default_def)
  obtain s1 where s1: "apply_tx sample_ledger_env sample_issue_state (sample_mint 0) = (Ok [EvAssetMinted 5 sample_acc 7], s1)"
    "bmap_get (st_accounts s1) 6 = Some \<lparr>acc_auth_commit = commit_at sample_ledger_env [] (0 + 1), acc_nonce = 0 + 1\<rparr>"
    "bmap_get (st_assets s1) 5 = Some (sample_issue_info\<lparr>ai_supply := ai_supply sample_issue_info + 7\<rparr>)"
    "balance s1 sample_acc 5 = saturating_add (balance sample_issue_state sample_acc 5) 7" "envelope_fee s1 = 0"
    by (rule issuer_mint_accepted [OF f(1) sample_mint_chain f(2,3) i(1-4)]) (simp_all add: checked_add_def i(5))
  obtain s2 where s2: "apply_tx sample_ledger_env s1 (sample_mint (0 + 1)) = (Ok [EvAssetMinted 5 sample_acc 7], s2)"
    "balance s2 sample_acc 5 = saturating_add (balance s1 sample_acc 5) 7"
    by (rule issuer_mint_accepted [OF s1(2) sample_mint_chain s1(5,3)]) (simp_all add: checked_add_def i)
  show ?thesis
    by (rule that [OF s1(1) s2(1) [simplified]]) (simp_all add: f s1(2) s1(4) s2(2) saturating_add_def)
qed

text \<open>C31: A submission that arrives while its answer is lost is taken for one that never entered the pool: the record returns to \<open>seen\<close> and
  the next round signs the mint again, with the nonce the chain then shows. One deposit of 7 is minted twice: on a disk that never fails, with an Ethereum provider that only ever
  reports that deposit, two rounds send two envelopes for it which the chain, whose nonces are the ones the service was told, accepts one after the other, and the account it names holds 14.\<close>

theorem lost_answer_mints_twice:
  "\<exists>N tx1 tx2 r1 w1 r2 w2 s1 s2. (\<forall>t. nt_disk (N t) = Written) \<and> tick sample_bridge N sample_svc sample_world = (r1, w1) \<and> tick sample_bridge N sample_svc w1 = (r2, w2)
     \<and> (\<forall>t ps. nt_eth (N t) ''eth_getLogs'' ps = Ok (JObj [(''result'', JArr [sample_log])]))
     \<and> decode_bridge_event sample_bridge sample_log = Ok sample_deposit \<and> be_amount sample_deposit = 7
     \<and> wd_sent w2 = [SentHk sample_key tx1, SentHk sample_key tx2]
     \<and> chain_state sample_ledger_env sample_issue_state \<and> balance sample_issue_state sample_acc 5 = 0
     \<and> apply_tx sample_ledger_env sample_issue_state tx1 = (Ok [EvAssetMinted 5 sample_acc 7], s1)
     \<and> apply_tx sample_ledger_env s1 tx2 = (Ok [EvAssetMinted 5 sample_acc 7], s2) \<and> balance s2 sample_acc 5 = 14
     \<and> (\<forall>t ps. nonce_of_reply (nt_hk (N t) ''hk_getAccount'' ps)
          = map_option acc_nonce (bmap_get (st_accounts (if t < wd_clock w1 then sample_issue_state else s1)) 6))"
proof -
  let ?reply = "\<lambda>t :: nat. if t < 13 then JNull else sample_reply" and ?nn = "\<lambda>t :: nat. if t < 13 then 0 else 1 :: u64"
  let ?N = "sample_net (\<lambda>_. [sample_log]) (\<lambda>_. ''0x9'') ?reply ?nn"
  let ?w1 = "sample_at 13 [''1'', ''2'', ''3'', ''6''] 0 (sample_rec ''seen'' None (Some ''submit failed: submit-failed: '') 1) 9 [SentHk sample_key (sample_mint 0)]"
  obtain e where t1: "tick sample_bridge ?N sample_svc sample_world = (Err e, ?w1)"
    using sample_tick_lost [of "\<lambda>_. [sample_log]" "\<lambda>_. ''0x9''" ?reply ?nn] by auto
  obtain e2 w2 where t2: "tick sample_bridge ?N sample_svc ?w1 = (Err e2, w2)" "wd_sent w2 = [SentHk sample_key (sample_mint 0), SentHk sample_key (sample_mint 1)]"
    using sample_tick_later [of 13 "\<lambda>_. ''0x9''" ?reply "\<lambda>_. [sample_log]" ?nn "[''1'', ''2'', ''3'', ''6'']" 0 "Some ''submit failed: submit-failed: ''" 1 9 "[SentHk sample_key (sample_mint 0)]"]
    by auto
  obtain s1 s2 where m: "apply_tx sample_ledger_env sample_issue_state (sample_mint 0) = (Ok [EvAssetMinted 5 sample_acc 7], s1)"
    "apply_tx sample_ledger_env s1 (sample_mint 1) = (Ok [EvAssetMinted 5 sample_acc 7], s2)"
    "map_option acc_nonce (bmap_get (st_accounts sample_issue_state) 6) = Some 0" "map_option acc_nonce (bmap_get (st_accounts s1) 6) = Some 1"
    "balance sample_issue_state sample_acc 5 = 0" "balance s2 sample_acc 5 = 14" by (rule sample_issue_mints)
  have n: "nonce_of_reply (nt_hk (?N t) ''hk_getAccount'' ps) = map_option acc_nonce (bmap_get (st_accounts (if t < wd_clock ?w1 then sample_issue_state else s1)) 6)" for t ps
    using m(3,4) by (auto simp: sample_net_def nonce_of_reply_def)
  have l: "nt_disk (?N t) = Written" "nt_eth (?N t) ''eth_getLogs'' ps = Ok (JObj [(''result'', JArr [sample_log])])" for t ps by (simp_all add: sample_net_def)
  show ?thesis
    by (rule exI [of _ ?N], rule exI [of _ "sample_mint 0"], rule exI [of _ "sample_mint 1"], rule exI [of _ "Err e"], rule exI [of _ ?w1], rule exI [of _ "Err e2"],
        rule exI [of _ w2], rule exI [of _ s1], rule exI [of _ s2])
      (use t1 t2 m n l sample_issue_chain sample_decode_log in \<open>simp add: sample_deposit_def\<close>)
qed

end
