(* ===== verification/HK_Signer.thy ===== *)
theory HK_Signer
  imports HK_Lamport HK_Consensus
begin

text \<open>
  The stateful signer of a validator (\<^verbatim>\<open>hk-crypto/src/traits.rs\<close>, \<^verbatim>\<open>fsutil.rs\<close>, \<^verbatim>\<open>hashsig.rs\<close>,
  \<^verbatim>\<open>hk-consensus/src/hashsig_scheme.rs\<close>, \<^verbatim>\<open>provider.rs\<close>): the durable file behind the leaf counter, the signer that
  keeps an expanded key between signatures, and the provider that signs and checks consensus messages. Of the vendored \<^verbatim>\<open>hbs-lms\<close> the
  bookkeeping of leaves is modelled (\<^verbatim>\<open>hss/mod.rs\<close>, \<^verbatim>\<open>hss/reference_impl_private_key.rs\<close>); the bytes of a
  signature, as a function of parameters, seed, leaf of every level and message, are a parameter, as are the decoding of the parameter bytes and the
  verifier. The aux cache only shortens the computation of these bytes and is left out.
  A file that is there is seen to be there: the code asks \<open>path.exists()\<close>, which is false also when the question fails, and that failure is not modelled. \<open>sign_uncached\<close> is the
  reference the tests of the source compare the cached signer with, not a path a node runs.
\<close>

section \<open>Durable files\<close>

text \<open>A file as the running process sees it and as it is on stable storage. \<open>write_atomic\<close> stops at the step that fails, if one does; the
  rename is seen at once and stable only after the directory is synced. After a kill the file is as it was seen; after a loss of power
  it is either of the two.\<close>

record 'v FileState =
  fs_seen :: "'v option"
  fs_stable :: "'v option"

datatype WriteStep = CreateTmp | WriteTmp | SyncTmp | RenameTmp | SyncDir

definition write_atomic :: "WriteStep option \<Rightarrow> 'v \<Rightarrow> 'v FileState \<Rightarrow> (unit, string, 'v FileState) step" where
  "write_atomic fault v f =
     (case fault of
        None \<Rightarrow> (Ok (), \<lparr>fs_seen = Some v, fs_stable = Some v\<rparr>)
      | Some SyncDir \<Rightarrow> (Err ''sync'', f\<lparr>fs_seen := Some v\<rparr>)
      | Some _ \<Rightarrow> (Err ''write'', f))"

datatype Crash = Kill | PowerLoss bool

definition after_crash :: "Crash \<Rightarrow> 'v FileState \<Rightarrow> 'v FileState" where
  "after_crash c f =
     (case c of
        Kill \<Rightarrow> f
      | PowerLoss kept \<Rightarrow> let v = (if kept then fs_seen f else fs_stable f) in \<lparr>fs_seen = v, fs_stable = v\<rparr>)"

section \<open>The leaf budget\<close>

text \<open>\<open>LeafBudget\<close>; the \<open>persist\<close> callback is the caller's.\<close>

record LeafBudget =
  lb_next :: u64
  lb_max :: u64

definition budget_remaining :: "LeafBudget \<Rightarrow> u64" where
  "budget_remaining b = saturating_sub (lb_max b) (lb_next b)"

definition reserve :: "(u64 \<Rightarrow> 'd \<Rightarrow> (unit, CryptoError, 'd) step) \<Rightarrow> LeafBudget \<Rightarrow> 'd \<Rightarrow> (u64, CryptoError) outcome \<times> LeafBudget \<times> 'd" where
  "reserve persist b d =
     (if lb_next b \<ge> lb_max b then (Err KeyExhausted, b, d)
      else let idx = lb_next b
           in case persist (idx + 1) d of
                (Ok _, d') \<Rightarrow> (Ok idx, b\<lparr>lb_next := idx + 1\<rparr>, d')
              | (Err e, d') \<Rightarrow> (Err e, b, d')
              | (Panic, d') \<Rightarrow> (Panic, b, d'))"

section \<open>Keys and sessions\<close>

record hss_env = hash_env +
  hss_params :: "(nat \<times> nat) list \<Rightarrow> bytes"
  hss_heights :: "bytes \<Rightarrow> nat list option"
  hss_sig :: "bytes \<Rightarrow> bytes \<Rightarrow> nat list \<Rightarrow> bytes \<Rightarrow> bytes"
  hss_pk :: "bytes \<Rightarrow> bytes \<Rightarrow> bytes"
  hss_verify :: "bytes \<Rightarrow> bytes \<Rightarrow> bytes \<Rightarrow> (unit, unit) outcome"
  max_hss_signature_length :: nat

text \<open>The compressed private key: position, parameters, seed.\<close>

record RefKey =
  rk_count :: u64
  rk_params :: bytes
  rk_seed :: bytes

definition to_binary :: "RefKey \<Rightarrow> bytes" where
  "to_binary k = u64_be (rk_count k) @ rk_params k @ rk_seed k"

definition from_binary :: "bytes \<Rightarrow> RefKey option" where
  "from_binary b =
     (if length b \<noteq> 8 + 8 + 32 then None
      else Some \<lparr>rk_count = of_nat (be_value (take 8 b)), rk_params = take 8 (drop 8 b), rk_seed = drop 16 b\<rparr>)"

definition wiped :: RefKey where
  "wiped = \<lparr>rk_count = 0, rk_params = replicate 8 0xff, rk_seed = replicate 32 0\<rparr>"

definition ref_increment :: "nat list \<Rightarrow> RefKey \<Rightarrow> RefKey" where
  "ref_increment hs k = (if unat (rk_count k) \<ge> 2 ^ sum_list hs - 1 then wiped else k\<lparr>rk_count := rk_count k + 1\<rparr>)"

text \<open>The leaf of every level, bottom level first.\<close>

fun leaf_indexes :: "nat list \<Rightarrow> nat \<Rightarrow> nat list" where
  "leaf_indexes [] n = []"
| "leaf_indexes (h # hs) n = n mod 2 ^ h # leaf_indexes hs (n div 2 ^ h)"

record Expanded =
  ex_params :: bytes
  ex_seed :: bytes
  ex_heights :: "nat list"
  ex_upper :: "nat list"
  ex_used :: nat

definition expand :: "'x hss_env_scheme \<Rightarrow> RefKey \<Rightarrow> Expanded option" where
  "expand X k =
     (case hss_heights X (rk_params k) of
        None \<Rightarrow> None
      | Some [] \<Rightarrow> None
      | Some hs \<Rightarrow>
          (let ls = leaf_indexes (rev hs) (unat (rk_count k))
           in Some \<lparr>ex_params = rk_params k, ex_seed = rk_seed k, ex_heights = rev hs, ex_upper = tl ls, ex_used = hd ls\<rparr>))"

definition bottom_exhausted :: "Expanded \<Rightarrow> bool" where
  "bottom_exhausted e \<longleftrightarrow> ex_used e \<ge> 2 ^ hd (ex_heights e)"

definition expanded_sign :: "'x hss_env_scheme \<Rightarrow> Expanded \<Rightarrow> bytes \<Rightarrow> bytes \<times> Expanded" where
  "expanded_sign X e msg = (hss_sig X (ex_params e) (ex_seed e) (ex_used e # ex_upper e) msg, e\<lparr>ex_used := ex_used e + 1\<rparr>)"

record HssSession =
  ss_rfc :: RefKey
  ss_expanded :: "Expanded option"
  ss_pending :: "RefKey option"

definition session_open :: "bytes \<Rightarrow> HssSession option" where
  "session_open b = map_option (\<lambda>k. \<lparr>ss_rfc = k, ss_expanded = None, ss_pending = None\<rparr>) (from_binary b)"

definition session_sign :: "'x hss_env_scheme \<Rightarrow> HssSession \<Rightarrow> bytes \<Rightarrow> bytes option \<times> HssSession" where
  "session_sign X s msg =
     (if ss_pending s \<noteq> None then (None, s)
      else let rebuild = (case ss_expanded s of None \<Rightarrow> True | Some e \<Rightarrow> bottom_exhausted e)
           in case (if rebuild then expand X (ss_rfc s) else ss_expanded s) of
                None \<Rightarrow> (None, s)
              | Some e \<Rightarrow>
                  if bottom_exhausted e then (None, s\<lparr>ss_expanded := None\<rparr>)
                  else let (sig, e') = expanded_sign X e msg
                       in (Some sig, s\<lparr>ss_expanded := Some e', ss_pending := Some (ref_increment (ex_heights e') (ss_rfc s))\<rparr>))"

definition pending_private_key :: "HssSession \<Rightarrow> bytes option" where
  "pending_private_key s = map_option to_binary (ss_pending s)"

definition session_commit :: "HssSession \<Rightarrow> HssSession" where
  "session_commit s = (case ss_pending s of Some k \<Rightarrow> s\<lparr>ss_rfc := k, ss_pending := None\<rparr> | None \<Rightarrow> s)"

definition session_rollback :: "HssSession \<Rightarrow> HssSession" where
  "session_rollback s = s\<lparr>ss_pending := None, ss_expanded := None\<rparr>"

text \<open>\<open>hss_sign\<close>: expand, sign, advance, without a session.\<close>

definition hss_sign :: "'x hss_env_scheme \<Rightarrow> bytes \<Rightarrow> bytes \<Rightarrow> (bytes \<times> bytes) option" where
  "hss_sign X msg b =
     (case from_binary b of
        None \<Rightarrow> None
      | Some k \<Rightarrow>
          (case expand X k of
             None \<Rightarrow> None
           | Some e \<Rightarrow>
               if bottom_exhausted e then None
               else let (sig, e') = expanded_sign X e msg in Some (sig, to_binary (ref_increment (ex_heights e') k))))"

section \<open>The signer\<close>

definition DOM_HASHSIG_SEED :: string where "DOM_HASHSIG_SEED = ''hk/v1/hashsig-seed''"
definition CONSENSUS_CAPACITY :: u64 where "CONSENSUS_CAPACITY = 32768"
definition MIN_SIG_LEN :: nat where "MIN_SIG_LEN = 4 + 4 + 4 + 32 + 32 * 34 + 4 + 32 * 5"
definition CONSENSUS_SIG_LEN :: nat where
  "CONSENSUS_SIG_LEN = 4 + (4 + (4 + 32 + 32 * 133) + 4 + 32 * 10 + 56) + (4 + (4 + 32 + 32 * 133) + 4 + 32 * 5)"

record HashSigner =
  hs_state :: bytes
  hs_used :: u64
  hs_capacity :: u64
  hs_persist :: "string option"
  hs_session :: "HssSession option"

type_synonym Disk = "string \<Rightarrow> bytes FileState"

definition gen_with :: "'x hss_env_scheme \<Rightarrow> (nat \<times> nat) list \<Rightarrow> u64 \<Rightarrow> bytes \<Rightarrow> HashSigner \<times> bytes" where
  "gen_with X params capacity seed32 =
     (let seed = shake256_n X DOM_HASHSIG_SEED [seed32] 32; p = hss_params X params
      in (\<lparr>hs_state = to_binary \<lparr>rk_count = 0, rk_params = p, rk_seed = seed\<rparr>, hs_used = 0, hs_capacity = capacity, hs_persist = None, hs_session = None\<rparr>,
          hss_pk X p seed))"

definition encode_blob :: "u64 \<Rightarrow> bytes \<Rightarrow> bytes" where
  "encode_blob used state = u64_le used @ state"

definition state_count :: "bytes \<Rightarrow> u64 option" where
  "state_count state = (if length state \<ge> 8 then Some (of_nat (be_value (take 8 state))) else None)"

definition state_at :: "bytes \<Rightarrow> u64 \<Rightarrow> bytes" where
  "state_at state n = (if length state \<ge> 8 then u64_be n @ drop 8 state else state)"

definition generate :: "'x hss_env_scheme \<Rightarrow> bytes \<Rightarrow> HashSigner \<times> bytes" where
  "generate X seed32 = gen_with X [(2, 5)] 32 seed32"

definition generate_consensus :: "'x hss_env_scheme \<Rightarrow> bytes \<Rightarrow> HashSigner \<times> bytes" where
  "generate_consensus X seed32 = gen_with X [(2, 10), (2, 5)] CONSENSUS_CAPACITY seed32"

definition remaining :: "HashSigner \<Rightarrow> u64" where
  "remaining s = saturating_sub (hs_capacity s) (hs_used s)"

definition load_state :: "bytes \<Rightarrow> HashSigner \<Rightarrow> HashSigner" where
  "load_state b s = s\<lparr>hs_state := b, hs_session := None\<rparr>"

text \<open>\<open>attach_persistence_with_floor\<close>: \<open>readable\<close> says whether reading an existing file succeeds.\<close>

definition attach_persistence_with_floor :: "bool \<Rightarrow> string \<Rightarrow> u64 \<Rightarrow> Disk \<Rightarrow> HashSigner \<Rightarrow> (HashSigner, string) outcome" where
  "attach_persistence_with_floor readable path floor d s =
     (let resume = max (hs_used s) floor;
          adopt = (\<lambda>resume base. s\<lparr>hs_state := state_at base resume, hs_used := resume, hs_session := None, hs_persist := Some path\<rparr>)
      in case fs_seen (d path) of
           None \<Rightarrow> Ok (adopt resume (hs_state s))
         | Some blob \<Rightarrow>
             if \<not> readable then Err ''read''
             else if length blob \<ge> 8
             then let file_used = of_nat (le_value (take 8 blob)); state = drop 8 blob;
                      in_state = (case state_count state of Some n \<Rightarrow> n | None \<Rightarrow> 0)
                  in Ok (adopt (max (max resume file_used) in_state) state)
             else Ok (adopt resume (hs_state s)))"

definition attach_persistence :: "bool \<Rightarrow> string \<Rightarrow> Disk \<Rightarrow> HashSigner \<Rightarrow> (HashSigner, string) outcome" where
  "attach_persistence readable path d s = attach_persistence_with_floor readable path 0 d s"

text \<open>\<open>save_state\<close>: the durable write of the advanced state, when a file is attached.\<close>

definition save_state :: "WriteStep option \<Rightarrow> HashSigner \<Rightarrow> bytes \<Rightarrow> Disk \<Rightarrow> bool \<times> Disk" where
  "save_state fault s st d =
     (case hs_persist s of
        None \<Rightarrow> (True, d)
      | Some path \<Rightarrow>
          (case write_atomic fault (encode_blob (hs_used s + 1) st) (d path) of (r, f) \<Rightarrow> (r = Ok (), d(path := f))))"

definition hashsig_sign :: "'x hss_env_scheme \<Rightarrow> WriteStep option \<Rightarrow> bytes \<Rightarrow> HashSigner \<Rightarrow> Disk \<Rightarrow> bytes option \<times> HashSigner \<times> Disk" where
  "hashsig_sign X fault msg s d =
     (if remaining s = 0 then (None, s, d)
      else case (case hs_session s of Some ss \<Rightarrow> Some ss | None \<Rightarrow> session_open (hs_state s)) of
             None \<Rightarrow> (None, s, d)
           | Some ss \<Rightarrow>
               (case session_sign X ss msg of
                  (None, _) \<Rightarrow> (None, s\<lparr>hs_session := None\<rparr>, d)
                | (Some sig, ss1) \<Rightarrow>
                    (case pending_private_key ss1 of
                       None \<Rightarrow> (None, s\<lparr>hs_session := Some ss1\<rparr>, d)
                     | Some st \<Rightarrow>
                         (case save_state fault s st d of
                            (False, d1) \<Rightarrow> (None, s\<lparr>hs_session := Some (session_rollback ss1)\<rparr>, d1)
                          | (True, d1) \<Rightarrow>
                              (Some sig, s\<lparr>hs_session := Some (session_commit ss1), hs_state := st, hs_used := hs_used s + 1\<rparr>, d1)))))"

definition sign_uncached :: "'x hss_env_scheme \<Rightarrow> WriteStep option \<Rightarrow> bytes \<Rightarrow> HashSigner \<Rightarrow> Disk \<Rightarrow> bytes option \<times> HashSigner \<times> Disk" where
  "sign_uncached X fault msg s d =
     (if remaining s = 0 then (None, s, d)
      else case hss_sign X msg (hs_state s) of
             None \<Rightarrow> (None, s, d)
           | Some (sig, st) \<Rightarrow>
               (case save_state fault s st d of
                  (False, d1) \<Rightarrow> (None, s, d1)
                | (True, d1) \<Rightarrow> (Some sig, s\<lparr>hs_state := st, hs_used := hs_used s + 1, hs_session := None\<rparr>, d1)))"

section \<open>Verification\<close>

definition guarded :: "(bool, unit) outcome \<Rightarrow> bool" where
  "guarded r = (case r of Ok b \<Rightarrow> b | _ \<Rightarrow> False)"

definition verify_guarded :: "'x hss_env_scheme \<Rightarrow> bytes \<Rightarrow> bytes \<Rightarrow> bytes \<Rightarrow> bool" where
  "verify_guarded X msg sig pk =
     guarded (case hss_verify X msg sig pk of Ok _ \<Rightarrow> Ok True | Err _ \<Rightarrow> Ok False | Panic \<Rightarrow> Panic)"

definition hashsig_verify :: "'x hss_env_scheme \<Rightarrow> bytes \<Rightarrow> bytes \<Rightarrow> bytes \<Rightarrow> bool" where
  "hashsig_verify X msg sig pk =
     (if length sig < MIN_SIG_LEN \<or> length sig > max_hss_signature_length X then False else verify_guarded X msg sig pk)"

section \<open>The consensus scheme and the signing provider\<close>

text \<open>\<open>HkPriv\<close>: clones share one signer behind a mutex, so one value stands for all of them.\<close>

record HkPriv =
  kp_seed :: H256
  kp_pubkey :: HkPub
  kp_signer :: HashSigner

definition from_seed :: "'x hss_env_scheme \<Rightarrow> H256 \<Rightarrow> HkPriv" where
  "from_seed X seed = (case generate_consensus X (h256_bytes seed) of (s, pk) \<Rightarrow> \<lparr>kp_seed = seed, kp_pubkey = pk, kp_signer = s\<rparr>)"

definition into_persistent :: "bool \<Rightarrow> string \<Rightarrow> Disk \<Rightarrow> HkPriv \<Rightarrow> (HkPriv, string) outcome" where
  "into_persistent readable path d k =
     (case attach_persistence readable path d (kp_signer k) of Ok s \<Rightarrow> Ok (k\<lparr>kp_signer := s\<rparr>) | _ \<Rightarrow> Panic)"

definition priv_sign :: "'x hss_env_scheme \<Rightarrow> WriteStep option \<Rightarrow> bytes \<Rightarrow> HkPriv \<Rightarrow> Disk \<Rightarrow> HkSig option \<times> HkPriv \<times> Disk" where
  "priv_sign X fault msg k d = (case hashsig_sign X fault msg (kp_signer k) d of (r, s, d1) \<Rightarrow> (r, k\<lparr>kp_signer := s\<rparr>, d1))"

definition rotate_to :: "'x hss_env_scheme \<Rightarrow> bool \<Rightarrow> H256 \<Rightarrow> string \<Rightarrow> Disk \<Rightarrow> HkPriv \<Rightarrow> (HkPub, string, HkPriv) step" where
  "rotate_to X readable new_seed path d k =
     (case generate_consensus X (h256_bytes new_seed) of (s, pk) \<Rightarrow>
        (case attach_persistence readable path d s of Ok s1 \<Rightarrow> (Ok pk, k\<lparr>kp_signer := s1\<rparr>) | _ \<Rightarrow> (Panic, k)))"

definition decode_signature :: "bytes \<Rightarrow> (HkSig, string) outcome" where
  "decode_signature b = (if length b \<noteq> CONSENSUS_SIG_LEN then Err ''consensus signature length'' else Ok b)"

definition encode_signature :: "HkSig \<Rightarrow> bytes" where
  "encode_signature sig = sig"

definition scheme_verify :: "'x hss_env_scheme \<Rightarrow> bytes \<Rightarrow> HkSig \<Rightarrow> HkPub \<Rightarrow> bool" where
  "scheme_verify X msg sig pk = (if length sig \<noteq> CONSENSUS_SIG_LEN then False else hashsig_verify X msg sig pk)"

definition provider_sign :: "'x hss_env_scheme \<Rightarrow> WriteStep option \<Rightarrow> bytes \<Rightarrow> HkPriv \<Rightarrow> Disk \<Rightarrow> (HkSig, unit, HkPriv \<times> Disk) step" where
  "provider_sign X fault data k d = (case priv_sign X fault data k d of (r, k1, d1) \<Rightarrow> (ok_or r (), (k1, d1)))"

definition sign_vote :: "'x hss_env_scheme \<Rightarrow> WriteStep option \<Rightarrow> HkVote \<Rightarrow> HkPriv \<times> Disk \<Rightarrow> (HkVote \<times> HkSig, unit, HkPriv \<times> Disk) step" where
  "sign_vote X fault v w = try_rw (provider_sign X fault (vote_sign_bytes v) (fst w) (snd w)) (\<lambda>sig w. (Ok (v, sig), w))"

definition verify_signed_vote :: "'x hss_env_scheme \<Rightarrow> HkVote \<Rightarrow> HkSig \<Rightarrow> HkPub \<Rightarrow> bool" where
  "verify_signed_vote X v sig pk = scheme_verify X (vote_sign_bytes v) sig pk"

definition sign_proposal :: "'x hss_env_scheme \<Rightarrow> WriteStep option \<Rightarrow> HkProposal \<Rightarrow> HkPriv \<times> Disk \<Rightarrow> (HkProposal \<times> HkSig, unit, HkPriv \<times> Disk) step" where
  "sign_proposal X fault p w = try_rw (provider_sign X fault (proposal_sign_bytes p) (fst w) (snd w)) (\<lambda>sig w. (Ok (p, sig), w))"

definition verify_signed_proposal :: "'x hss_env_scheme \<Rightarrow> HkProposal \<Rightarrow> HkSig \<Rightarrow> HkPub \<Rightarrow> bool" where
  "verify_signed_proposal X p sig pk = scheme_verify X (proposal_sign_bytes p) sig pk"

definition sign_proposal_part :: "'x hss_env_scheme \<Rightarrow> WriteStep option \<Rightarrow> HkProposalPart \<Rightarrow> HkPriv \<times> Disk \<Rightarrow> (HkProposalPart \<times> HkSig, unit, HkPriv \<times> Disk) step" where
  "sign_proposal_part X fault p w = try_rw (provider_sign X fault (part_sign_bytes p) (fst w) (snd w)) (\<lambda>sig w. (Ok (p, sig), w))"

definition verify_signed_proposal_part :: "'x hss_env_scheme \<Rightarrow> HkProposalPart \<Rightarrow> HkSig \<Rightarrow> HkPub \<Rightarrow> bool" where
  "verify_signed_proposal_part X p sig pk = scheme_verify X (part_sign_bytes p) sig pk"

definition sign_vote_extension :: "'x hss_env_scheme \<Rightarrow> WriteStep option \<Rightarrow> bytes \<Rightarrow> HkPriv \<times> Disk \<Rightarrow> (bytes \<times> HkSig, unit, HkPriv \<times> Disk) step" where
  "sign_vote_extension X fault e w = try_rw (provider_sign X fault e (fst w) (snd w)) (\<lambda>sig w. (Ok (e, sig), w))"

definition verify_signed_vote_extension :: "'x hss_env_scheme \<Rightarrow> bytes \<Rightarrow> HkSig \<Rightarrow> HkPub \<Rightarrow> bool" where
  "verify_signed_vote_extension X e sig pk = scheme_verify X e sig pk"

definition verify_signed_votes_batch :: "'x hss_env_scheme \<Rightarrow> (HkVote \<times> HkSig \<times> HkPub) list \<Rightarrow> bool list option" where
  "verify_signed_votes_batch X votes =
     (if length votes < 2 then None else Some (map (\<lambda>(v, sig, pk). scheme_verify X (vote_sign_bytes v) sig pk) votes))"

end
