(* ===== verification/HK_OneTime.thy ===== *)
theory HK_OneTime
  imports HK_Signer
begin

text \<open>
  One-time keys are used once. The contract of a counter that is written before its value is used (\<open>StatefulSigner\<close> of
  \<^verbatim>\<open>hk-crypto/src/traits.rs\<close>) is a locale; the leaf budget and the consensus signer are its two instances. Runs are lists of uses, each with
  the step at which its durable write fails, if it does, and of restarts after a kill or a loss of power.
\<close>

section \<open>The contract\<close>

datatype ('i, 'c) key_event = Spend 'i | Restart 'c

fun key_run :: "('i \<Rightarrow> 's \<Rightarrow> 'd \<Rightarrow> 'r option \<times> 's \<times> 'd) \<Rightarrow> ('c \<Rightarrow> 's \<Rightarrow> 'd \<Rightarrow> 's \<times> 'd) \<Rightarrow> ('s \<Rightarrow> nat) \<Rightarrow> ('i, 'c) key_event list \<Rightarrow> 's \<Rightarrow> 'd \<Rightarrow>
    (nat \<times> 'i \<times> 'r) list \<times> 's \<times> 'd" where
  "key_run spend restart pos [] s d = ([], s, d)"
| "key_run spend restart pos (Spend i # es) s d =
     (case spend i s d of (r, s1, d1) \<Rightarrow>
      case key_run spend restart pos es s1 d1 of (out, w) \<Rightarrow>
        (case r of Some x \<Rightarrow> (pos s, i, x) # out | None \<Rightarrow> out, w))"
| "key_run spend restart pos (Restart c # es) s d = (case restart c s d of (s1, d1) \<Rightarrow> key_run spend restart pos es s1 d1)"

text \<open>\<open>low\<close> is the position that survives on the disk whatever happens to the machine.\<close>

locale one_time_keys =
  fixes ok :: "'s \<Rightarrow> 'd \<Rightarrow> bool" and pos :: "'s \<Rightarrow> nat" and low :: "'d \<Rightarrow> nat"
    and spend :: "'i \<Rightarrow> 's \<Rightarrow> 'd \<Rightarrow> 'r option \<times> 's \<times> 'd" and restart :: "'c \<Rightarrow> 's \<Rightarrow> 'd \<Rightarrow> 's \<times> 'd"
    and made :: "nat \<Rightarrow> 'i \<Rightarrow> 'r \<Rightarrow> bool"
  assumes spend_some: "ok s d \<Longrightarrow> spend i s d = (Some r, s', d') \<Longrightarrow> ok s' d' \<and> pos s' = Suc (pos s) \<and> pos s < low d' \<and> made (pos s) i r"
    and spend_none: "ok s d \<Longrightarrow> spend i s d = (None, s', d') \<Longrightarrow> ok s' d' \<and> pos s \<le> pos s' \<and> low d \<le> low d'"
    and restarts: "ok s d \<Longrightarrow> restart c s d = (s', d') \<Longrightarrow> ok s' d' \<and> low d \<le> pos s' \<and> low d \<le> low d'"
begin

lemma run_spends_once:
  assumes "key_run spend restart pos es s d = (out, s', d')" and "ok s d" and "b \<le> pos s" and "b \<le> low d"
  shows "sorted_wrt (<) (map fst out) \<and> (\<forall>(n, i, r) \<in> set out. b \<le> n \<and> made n i r) \<and> ok s' d'"
  using assms
proof (induction es arbitrary: s d out b)
  case Nil
  then show ?case by simp
next
  case (Cons e es)
  show ?case
  proof (cases e)
    case (Restart c)
    obtain s1 d1 where "restart c s d = (s1, d1)" by fastforce
    with Restart Cons.prems restarts [of s d c s1 d1] show ?thesis by (intro Cons.IH [of s1 d1]) auto
  next
    case (Spend i)
    obtain r s1 d1 where st: "spend i s d = (r, s1, d1)" by (metis prod_cases3)
    obtain out1 where run: "key_run spend restart pos es s1 d1 = (out1, s', d')" "out = (case r of Some x \<Rightarrow> (pos s, i, x) # out1 | None \<Rightarrow> out1)"
      using Cons.prems(1) by (auto simp: Spend st split: prod.splits)
    show ?thesis
    proof (cases r)
      case None
      with st Cons.prems spend_none [of s d i s1 d1] have "ok s1 d1" "b \<le> pos s1" "b \<le> low d1" by auto
      then show ?thesis using Cons.IH [OF run(1)] run(2) None by simp
    next
      case (Some x)
      with st Cons.prems spend_some [of s d i x s1 d1] have "ok s1 d1" "Suc (pos s) \<le> pos s1" "Suc (pos s) \<le> low d1" "made (pos s) i x" by auto
      moreover from Cons.IH [OF run(1) this(1-3)] have "sorted_wrt (<) (map fst out1)" "\<forall>(n, i, r) \<in> set out1. Suc (pos s) \<le> n \<and> made n i r" "ok s' d'" by auto
      ultimately show ?thesis using Cons.prems(3) run(2) Some by fastforce
    qed
  qed
qed

end

section \<open>The leaf budget\<close>

text \<open>\<open>persist\<close> as a durable write of the number, and a restart that reads it.\<close>

definition persist_leaf :: "WriteStep option \<Rightarrow> u64 \<Rightarrow> u64 FileState \<Rightarrow> (unit, CryptoError, u64 FileState) step" where
  "persist_leaf fault n f = (case write_atomic fault n f of (Ok _, f1) \<Rightarrow> (Ok (), f1) | (_, f1) \<Rightarrow> (Err (Unimplemented ''disk''), f1))"

definition budget_spend :: "WriteStep option \<Rightarrow> LeafBudget \<Rightarrow> u64 FileState \<Rightarrow> u64 option \<times> LeafBudget \<times> u64 FileState" where
  "budget_spend fault b f = (case reserve (persist_leaf fault) b f of (Ok i, b1, f1) \<Rightarrow> (Some i, b1, f1) | (_, b1, f1) \<Rightarrow> (None, b1, f1))"

definition stored_leaf :: "u64 option \<Rightarrow> u64" where
  "stored_leaf v = (case v of Some n \<Rightarrow> n | None \<Rightarrow> 0)"

definition budget_restart :: "Crash \<Rightarrow> LeafBudget \<Rightarrow> u64 FileState \<Rightarrow> LeafBudget \<times> u64 FileState" where
  "budget_restart c b f = (let f1 = after_crash c f in (\<lparr>lb_next = stored_leaf (fs_seen f1), lb_max = lb_max b\<rparr>, f1))"

definition budget_ok :: "LeafBudget \<Rightarrow> u64 FileState \<Rightarrow> bool" where
  "budget_ok b f \<longleftrightarrow> unat (stored_leaf (fs_stable f)) \<le> unat (stored_leaf (fs_seen f)) \<and> unat (stored_leaf (fs_seen f)) \<le> Suc (unat (lb_next b))"

lemma write_atomic_cases:
  obtains "write_atomic fault v f = (Ok (), \<lparr>fs_seen = Some v, fs_stable = Some v\<rparr>)"
  | e where "write_atomic fault v f = (Err e, f\<lparr>fs_seen := Some v\<rparr>)"
  | e where "write_atomic fault v f = (Err e, f)"
proof (cases fault)
  case (Some s)
  then show ?thesis using that(2,3) by (cases s) (simp_all add: write_atomic_def)
qed (use that(1) in \<open>simp add: write_atomic_def\<close>)

lemma budget_spend_cases:
  obtains "lb_next b < lb_max b" "budget_spend fault b f = (Some (lb_next b), b\<lparr>lb_next := lb_next b + 1\<rparr>, \<lparr>fs_seen = Some (lb_next b + 1), fs_stable = Some (lb_next b + 1)\<rparr>)"
  | "lb_next b < lb_max b" "budget_spend fault b f = (None, b, f\<lparr>fs_seen := Some (lb_next b + 1)\<rparr>)"
  | "budget_spend fault b f = (None, b, f)"
proof (cases "lb_next b \<ge> lb_max b")
  case True
  then show ?thesis using that(3) by (simp add: budget_spend_def reserve_def)
next
  case False
  show ?thesis
    by (rule write_atomic_cases [of fault "lb_next b + 1" f]) (use that False in \<open>simp_all add: budget_spend_def reserve_def persist_leaf_def Let_def\<close>)
qed

interpretation lb: one_time_keys budget_ok "\<lambda>b. unat (lb_next b)" "\<lambda>f. unat (stored_leaf (fs_stable f))" budget_spend budget_restart "\<lambda>n _ i. unat i = n"
proof unfold_locales
  fix s d i r s' d'
  assume ok: "budget_ok s d" and "budget_spend i s d = (Some r, s', d')"
  then show "budget_ok s' d' \<and> unat (lb_next s') = Suc (unat (lb_next s)) \<and> unat (lb_next s) < unat (stored_leaf (fs_stable d')) \<and> unat r = unat (lb_next s)"
    using unat_plus_one [of "lb_next s" "lb_max s"] by (cases rule: budget_spend_cases [of s i d]) (auto simp: budget_ok_def stored_leaf_def)
next
  fix s d i s' d'
  assume ok: "budget_ok s d" and "budget_spend i s d = (None, s', d')"
  then show "budget_ok s' d' \<and> unat (lb_next s) \<le> unat (lb_next s') \<and> unat (stored_leaf (fs_stable d)) \<le> unat (stored_leaf (fs_stable d'))"
    using unat_plus_one [of "lb_next s" "lb_max s"] by (cases rule: budget_spend_cases [of s i d]) (auto simp: budget_ok_def stored_leaf_def)
next
  fix s d c s' d'
  assume "budget_ok s d" and "budget_restart c s d = (s', d')"
  then show "budget_ok s' d' \<and> unat (stored_leaf (fs_stable d)) \<le> unat (lb_next s') \<and> unat (stored_leaf (fs_stable d)) \<le> unat (stored_leaf (fs_stable d'))"
    by (cases c) (auto simp: budget_restart_def budget_ok_def after_crash_def Let_def)
qed

section \<open>Positions of the consensus key\<close>

text \<open>What \<^verbatim>\<open>hbs-lms\<close> documents: the parameter bytes name two levels of height ten and five, and the seed has its full length.\<close>

definition CONSENSUS_PARAMS :: "(nat \<times> nat) list" where "CONSENSUS_PARAMS = [(2, 10), (2, 5)]"

definition hss_faithful :: "'x hss_env_scheme \<Rightarrow> bool" where
  "hss_faithful X \<longleftrightarrow> length (hss_params X CONSENSUS_PARAMS) = 8 \<and> hss_heights X (hss_params X CONSENSUS_PARAMS) = Some [10, 5]
     \<and> (\<forall>bs. length (xof256 X bs 32) = 32)"

definition key_at :: "'x hss_env_scheme \<Rightarrow> H256 \<Rightarrow> u64 \<Rightarrow> RefKey" where
  "key_at X seed n = \<lparr>rk_count = n, rk_params = hss_params X CONSENSUS_PARAMS, rk_seed = shake256_n X DOM_HASHSIG_SEED [h256_bytes seed] 32\<rparr>"

definition sig_at :: "'x hss_env_scheme \<Rightarrow> H256 \<Rightarrow> nat \<Rightarrow> bytes \<Rightarrow> bytes" where
  "sig_at X seed n msg = hss_sig X (hss_params X CONSENSUS_PARAMS) (shake256_n X DOM_HASHSIG_SEED [h256_bytes seed] 32) (leaf_indexes [5, 10] n) msg"

lemma length_to_binary [simp]: "hss_faithful X \<Longrightarrow> length (to_binary (key_at X seed n)) = 48"
  by (simp add: to_binary_def key_at_def hss_faithful_def shake256_n_def)

lemma from_to_binary [simp]: "hss_faithful X \<Longrightarrow> from_binary (to_binary (key_at X seed n)) = Some (key_at X seed n)"
  by (simp add: from_binary_def to_binary_def key_at_def hss_faithful_def shake256_n_def)

lemma state_at_key [simp]: "hss_faithful X \<Longrightarrow> state_at (to_binary (key_at X seed n)) m = to_binary (key_at X seed m)"
  by (simp add: state_at_def to_binary_def key_at_def)

lemma state_count_key [simp]: "hss_faithful X \<Longrightarrow> state_count (to_binary (key_at X seed n)) = Some n"
  by (simp add: state_count_def to_binary_def key_at_def)

lemma length_wiped [simp]: "length (to_binary wiped) = 48"
  by (simp add: to_binary_def wiped_def)

lemma expand_key: "hss_faithful X \<Longrightarrow> expand X (key_at X seed n) =
    Some \<lparr>ex_params = hss_params X CONSENSUS_PARAMS, ex_seed = shake256_n X DOM_HASHSIG_SEED [h256_bytes seed] 32, ex_heights = [5, 10],
      ex_upper = [unat n div 32 mod 1024], ex_used = unat n mod 32\<rparr>"
  by (simp add: expand_def key_at_def hss_faithful_def)

lemma expand_fresh: "hss_faithful X \<Longrightarrow> expand X (key_at X seed n) = Some e \<Longrightarrow> \<not> bottom_exhausted e"
  by (auto simp: expand_key bottom_exhausted_def)

lemma expanded_sign_key: "hss_faithful X \<Longrightarrow> expand X (key_at X seed n) = Some e \<Longrightarrow>
    fst (expanded_sign X e msg) = sig_at X seed (unat n) msg \<and> ex_heights (snd (expanded_sign X e msg)) = [5, 10]"
  by (auto simp: expand_key expanded_sign_def sig_at_def)

lemma next_expanded:
  assumes "hss_faithful X" and "expand X (key_at X seed n) = Some e" and "unat (n + 1) = Suc (unat n)"
  shows "bottom_exhausted (snd (expanded_sign X e msg)) \<or> expand X (key_at X seed (n + 1)) = Some (snd (expanded_sign X e msg))"
proof -
  consider "Suc (unat n) mod 32 = Suc (unat n mod 32)" "Suc (unat n) div 32 = unat n div 32" | "unat n mod 32 = 31"
    by (cases "unat n mod 32 = 31") (simp_all add: mod_Suc div_Suc)
  then show ?thesis
  proof cases
    case 1
    then show ?thesis using assms(2) unfolding expand_key [OF assms(1)] assms(3) expanded_sign_def by auto
  next
    case 2
    then show ?thesis using assms(2) unfolding expand_key [OF assms(1)] expanded_sign_def bottom_exhausted_def by force
  qed
qed

lemma leaf_indexes_inj:
  assumes "leaf_indexes [5, 10] m = leaf_indexes [5, 10] n" and "m < 32768" "n < 32768"
  shows "m = n"
proof -
  have "m div 32 < 1024" "n div 32 < 1024" using assms(2,3) by linarith+
  then have "m mod 32 = n mod 32" "m div 32 = n div 32" using assms(1) by simp_all
  then show ?thesis by (metis div_mult_mod_eq)
qed

lemma unat_consensus_capacity [simp]: "unat CONSENSUS_CAPACITY = 32768"
  by (simp add: CONSENSUS_CAPACITY_def)

lemma increment_key:
  assumes "n < CONSENSUS_CAPACITY"
  shows "ref_increment [5, 10] (key_at X seed n) = (if n + 1 < CONSENSUS_CAPACITY then key_at X seed (n + 1) else wiped)"
  using assms unat_plus_one [OF assms] by (auto simp: ref_increment_def key_at_def word_less_nat_alt)

section \<open>The consensus signer keeps its place\<close>

definition session_at :: "'x hss_env_scheme \<Rightarrow> RefKey \<Rightarrow> HssSession \<Rightarrow> bool" where
  "session_at X k ss \<longleftrightarrow> ss_rfc ss = k \<and> ss_pending ss = None \<and> (\<forall>e. ss_expanded ss = Some e \<longrightarrow> bottom_exhausted e \<or> expand X k = Some e)"

definition signer_ok :: "'x hss_env_scheme \<Rightarrow> H256 \<Rightarrow> string \<Rightarrow> HashSigner \<Rightarrow> bool" where
  "signer_ok X seed path s \<longleftrightarrow> hs_capacity s = CONSENSUS_CAPACITY \<and> hs_persist s = Some path
     \<and> (hs_used s < CONSENSUS_CAPACITY \<longrightarrow> hs_state s = to_binary (key_at X seed (hs_used s))
        \<and> (\<forall>ss. hs_session s = Some ss \<longrightarrow> session_at X (key_at X seed (hs_used s)) ss))"

definition blob_at :: "'x hss_env_scheme \<Rightarrow> H256 \<Rightarrow> u64 \<Rightarrow> bytes" where
  "blob_at X seed n = encode_blob n (to_binary (if n < CONSENSUS_CAPACITY then key_at X seed n else wiped))"

definition blob_pos :: "bytes option \<Rightarrow> nat" where
  "blob_pos b = (case b of Some b \<Rightarrow> le_value (take 8 b) | None \<Rightarrow> 0)"

lemma blob_pos_simps [simp]: "blob_pos None = 0" "blob_pos (Some (blob_at X seed n)) = unat n"
  by (simp_all add: blob_pos_def blob_at_def encode_blob_def)

lemma remaining_pos: "hs_capacity s = CONSENSUS_CAPACITY \<Longrightarrow> remaining s = 0 \<longleftrightarrow> \<not> hs_used s < CONSENSUS_CAPACITY"
  by (auto simp: remaining_def saturating_sub_def word_less_nat_alt word_le_nat_alt unat_eq_0 [symmetric] unat_sub_if_size)

lemma session_sign_at:
  assumes "hss_faithful X" and "session_at X (key_at X seed n) ss"
  obtains e where "expand X (key_at X seed n) = Some e"
    "session_sign X ss msg = (Some (sig_at X seed (unat n) msg),
       ss\<lparr>ss_expanded := Some (snd (expanded_sign X e msg)), ss_pending := Some (ref_increment [5, 10] (key_at X seed n))\<rparr>)"
proof -
  obtain e where e: "expand X (key_at X seed n) = Some e" using expand_key [OF assms(1)] by blast
  note fresh = expand_fresh [OF assms(1) e] and sig = expanded_sign_key [OF assms(1) e, of msg]
  have "(if (case ss_expanded ss of None \<Rightarrow> True | Some e \<Rightarrow> bottom_exhausted e) then expand X (ss_rfc ss) else ss_expanded ss) = Some e"
    using assms(2) e by (auto simp: session_at_def split: option.splits)
  then have "session_sign X ss msg = (Some (sig_at X seed (unat n) msg),
       ss\<lparr>ss_expanded := Some (snd (expanded_sign X e msg)), ss_pending := Some (ref_increment [5, 10] (key_at X seed n))\<rparr>)"
    using assms(2) fresh sig unfolding session_sign_def session_at_def Let_def by (simp add: case_prod_beta)
  with e show ?thesis by (rule that)
qed

lemma session_opened: "hss_faithful X \<Longrightarrow> session_open (to_binary (key_at X seed n)) = Some \<lparr>ss_rfc = key_at X seed n, ss_expanded = None, ss_pending = None\<rparr>"
  by (simp add: session_open_def)

lemma session_at_opened: "session_at X k \<lparr>ss_rfc = k, ss_expanded = None, ss_pending = None\<rparr>"
  by (simp add: session_at_def)

lemma session_committed:
  assumes "hss_faithful X" and "expand X (key_at X seed n) = Some e" and "n < CONSENSUS_CAPACITY" "n + 1 < CONSENSUS_CAPACITY"
  shows "session_at X (key_at X seed (n + 1))
    (session_commit (ss\<lparr>ss_expanded := Some (snd (expanded_sign X e msg)), ss_pending := Some (ref_increment [5, 10] (key_at X seed n))\<rparr>))"
  using next_expanded [OF assms(1,2) unat_plus_one [OF assms(3)]] assms(3,4) by (auto simp: session_at_def session_commit_def increment_key)

text \<open>One signature: nothing is left, or the leaf is used and its successor is on stable storage, or the write failed and nothing is released.\<close>

lemma hashsig_sign_cases:
  assumes "hss_faithful X" and "signer_ok X seed path s"
  obtains "\<not> hs_used s < CONSENSUS_CAPACITY" "hashsig_sign X fault msg s d = (None, s, d)"
  | s' where "hs_used s < CONSENSUS_CAPACITY" "signer_ok X seed path s'" "hs_used s' = hs_used s + 1"
      "write_atomic fault (blob_at X seed (hs_used s + 1)) (d path) = (Ok (), \<lparr>fs_seen = Some (blob_at X seed (hs_used s + 1)), fs_stable = Some (blob_at X seed (hs_used s + 1))\<rparr>)"
      "hashsig_sign X fault msg s d = (Some (sig_at X seed (unat (hs_used s)) msg), s', d(path := \<lparr>fs_seen = Some (blob_at X seed (hs_used s + 1)), fs_stable = Some (blob_at X seed (hs_used s + 1))\<rparr>))"
      "s'\<lparr>hs_session := None\<rparr> = s\<lparr>hs_state := to_binary (ref_increment [5, 10] (key_at X seed (hs_used s))), hs_used := hs_used s + 1, hs_session := None\<rparr>"
  | s' e f where "hs_used s < CONSENSUS_CAPACITY" "signer_ok X seed path s'" "hs_used s' = hs_used s" "f = d path \<or> f = (d path)\<lparr>fs_seen := Some (blob_at X seed (hs_used s + 1))\<rparr>"
      "write_atomic fault (blob_at X seed (hs_used s + 1)) (d path) = (Err e, f)" "hashsig_sign X fault msg s d = (None, s', d(path := f))" "s'\<lparr>hs_session := None\<rparr> = s\<lparr>hs_session := None\<rparr>"
proof (cases "hs_used s < CONSENSUS_CAPACITY")
  case False
  then show ?thesis using that(1) assms(2) remaining_pos [of s] by (simp add: signer_ok_def hashsig_sign_def)
next
  case True
  let ?k = "key_at X seed (hs_used s)"
  have s: "hs_capacity s = CONSENSUS_CAPACITY" "hs_persist s = Some path" "hs_state s = to_binary ?k" "\<And>ss. hs_session s = Some ss \<Longrightarrow> session_at X ?k ss"
    using assms(2) True by (simp_all add: signer_ok_def)
  obtain ss where ss: "(case hs_session s of Some ss \<Rightarrow> Some ss | None \<Rightarrow> session_open (hs_state s)) = Some ss" "session_at X ?k ss"
    using s(3,4) session_opened [OF assms(1)] session_at_opened by (cases "hs_session s") auto
  obtain e where e: "expand X ?k = Some e" and sign: "session_sign X ss msg = (Some (sig_at X seed (unat (hs_used s)) msg),
       ss\<lparr>ss_expanded := Some (snd (expanded_sign X e msg)), ss_pending := Some (ref_increment [5, 10] ?k)\<rparr>)"
    by (rule session_sign_at [OF assms(1) ss(2)])
  let ?ss = "ss\<lparr>ss_expanded := Some (snd (expanded_sign X e msg)), ss_pending := Some (ref_increment [5, 10] ?k)\<rparr>" and ?st = "to_binary (ref_increment [5, 10] ?k)"
  have blob: "encode_blob (hs_used s + 1) ?st = blob_at X seed (hs_used s + 1)" using increment_key [OF True, of X seed] by (simp add: blob_at_def)
  have run: "hashsig_sign X fault msg s d = (case save_state fault s ?st d of
      (False, d1) \<Rightarrow> (None, s\<lparr>hs_session := Some (session_rollback ?ss)\<rparr>, d1)
    | (True, d1) \<Rightarrow> (Some (sig_at X seed (unat (hs_used s)) msg), s\<lparr>hs_session := Some (session_commit ?ss), hs_state := ?st, hs_used := hs_used s + 1\<rparr>, d1))"
    using remaining_pos [OF s(1)] True unfolding hashsig_sign_def ss(1) option.case sign prod.case by (simp add: pending_private_key_def)
  have undone: "signer_ok X seed path (s\<lparr>hs_session := Some (session_rollback ?ss)\<rparr>)"
    using s ss(2) by (simp add: signer_ok_def session_at_def session_rollback_def)
  have fwd: "signer_ok X seed path (s\<lparr>hs_session := Some (session_commit ?ss), hs_state := ?st, hs_used := hs_used s + 1\<rparr>)"
    using s session_committed [OF assms(1) e True, of msg ss] increment_key [OF True, of X seed] by (auto simp: signer_ok_def)
  show ?thesis
  proof (cases rule: write_atomic_cases [of fault "blob_at X seed (hs_used s + 1)" "d path"])
    case 1
    then show ?thesis using that(2) [OF True fwd] run by (simp add: save_state_def s(2) blob)
  next
    case (2 x)
    then show ?thesis using that(3) [OF True undone _ disjI2 [OF refl] 2] run by (simp add: save_state_def s(2) blob)
  next
    case (3 x)
    then show ?thesis using that(3) [OF True undone _ disjI1 [OF refl] 3] run by (simp add: save_state_def s(2) blob)
  qed
qed

section \<open>Runs of a validator key\<close>

text \<open>A process that does not run is \<open>None\<close>; a restart builds the key from its seed and adopts the state file, or panics when the file cannot be read.\<close>

definition spend_priv :: "'x hss_env_scheme \<Rightarrow> WriteStep option \<times> bytes \<Rightarrow> HkPriv option \<Rightarrow> Disk \<Rightarrow> HkSig option \<times> HkPriv option \<times> Disk" where
  "spend_priv X i k d =
     (case k of None \<Rightarrow> (None, None, d) | Some k \<Rightarrow> (case priv_sign X (fst i) (snd i) k d of (r, k1, d1) \<Rightarrow> (r, Some k1, d1)))"

definition spend_uncached :: "'x hss_env_scheme \<Rightarrow> WriteStep option \<times> bytes \<Rightarrow> HkPriv option \<Rightarrow> Disk \<Rightarrow> HkSig option \<times> HkPriv option \<times> Disk" where
  "spend_uncached X i k d =
     (case k of None \<Rightarrow> (None, None, d)
      | Some k \<Rightarrow> (case sign_uncached X (fst i) (snd i) (kp_signer k) d of (r, s, d1) \<Rightarrow> (r, Some (k\<lparr>kp_signer := s\<rparr>), d1)))"

definition restart_priv :: "'x hss_env_scheme \<Rightarrow> H256 \<Rightarrow> string \<Rightarrow> Crash \<times> bool \<Rightarrow> HkPriv option \<Rightarrow> Disk \<Rightarrow> HkPriv option \<times> Disk" where
  "restart_priv X seed path c k d =
     (let d1 = d(path := after_crash (fst c) (d path))
      in (case into_persistent (snd c) path d1 (from_seed X seed) of Ok k1 \<Rightarrow> Some k1 | _ \<Rightarrow> None, d1))"

definition priv_pos :: "HkPriv option \<Rightarrow> nat" where
  "priv_pos k = (case k of None \<Rightarrow> 2 ^ 64 | Some k \<Rightarrow> unat (hs_used (kp_signer k)))"

definition file_ok :: "'x hss_env_scheme \<Rightarrow> H256 \<Rightarrow> bytes FileState \<Rightarrow> bool" where
  "file_ok X seed f \<longleftrightarrow> fs_seen f \<in> insert None (range (Some \<circ> blob_at X seed)) \<and> fs_stable f \<in> insert None (range (Some \<circ> blob_at X seed))
     \<and> blob_pos (fs_stable f) \<le> blob_pos (fs_seen f)"

definition priv_ok :: "'x hss_env_scheme \<Rightarrow> H256 \<Rightarrow> string \<Rightarrow> HkPriv option \<Rightarrow> Disk \<Rightarrow> bool" where
  "priv_ok X seed path k d \<longleftrightarrow> file_ok X seed (d path)
     \<and> (\<forall>p. k = Some p \<longrightarrow> signer_ok X seed path (kp_signer p) \<and> kp_pubkey p = kp_pubkey (from_seed X seed) \<and> blob_pos (fs_seen (d path)) \<le> Suc (priv_pos k))"

lemma file_ok_crash: "file_ok X seed f \<Longrightarrow> file_ok X seed (after_crash c f) \<and> blob_pos (fs_stable f) \<le> blob_pos (fs_stable (after_crash c f))"
  by (cases c) (auto simp: file_ok_def after_crash_def Let_def)

lemma attached_ok:
  assumes "hss_faithful X" and "file_ok X seed (d path)" and "into_persistent readable path d (from_seed X seed) = Ok k"
  shows "signer_ok X seed path (kp_signer k) \<and> kp_pubkey k = kp_pubkey (from_seed X seed) \<and> unat (hs_used (kp_signer k)) = blob_pos (fs_seen (d path))"
proof -
  let ?s = "fst (generate_consensus X (h256_bytes seed))"
  have s: "hs_state ?s = to_binary (key_at X seed 0)" "hs_used ?s = 0" "hs_capacity ?s = CONSENSUS_CAPACITY"
    by (simp_all add: generate_consensus_def gen_with_def key_at_def CONSENSUS_PARAMS_def Let_def)
  obtain s1 where s1: "attach_persistence readable path d ?s = Ok s1" "k = (from_seed X seed)\<lparr>kp_signer := s1\<rparr>"
    using assms(3) by (auto simp: into_persistent_def from_seed_def split: outcome.splits prod.splits)
  have "signer_ok X seed path s1 \<and> unat (hs_used s1) = blob_pos (fs_seen (d path))"
  proof (cases "fs_seen (d path)")
    case None
    then show ?thesis using s1(1) s by (auto simp: attach_persistence_def attach_persistence_with_floor_def Let_def signer_ok_def state_at_key [OF assms(1)])
  next
    case (Some b)
    then obtain n where n: "b = blob_at X seed n" using assms(2) by (auto simp: file_ok_def)
    have cut: "take 8 b = u64_le n" "drop 8 b = to_binary (if n < CONSENSUS_CAPACITY then key_at X seed n else wiped)" "8 \<le> length b"
      by (simp_all add: n blob_at_def encode_blob_def)
    have "state_count (to_binary wiped) = Some 0" by (simp add: state_count_def to_binary_def wiped_def)
    then show ?thesis using s1(1) s cut Some assms(1) n
      by (auto simp: attach_persistence_def attach_persistence_with_floor_def Let_def signer_ok_def max_def split: if_splits)
  qed
  then show ?thesis using s1(2) by simp
qed

lemma spend_priv_cases:
  assumes "hss_faithful X" and "priv_ok X seed path k d"
  obtains "spend_priv X (fault, msg) k d = (None, k, d)" "spend_uncached X (fault, msg) k d = (None, k, d)"
  | p p' b where "k = Some p" "hs_used (kp_signer p) < CONSENSUS_CAPACITY" "b = blob_at X seed (hs_used (kp_signer p) + 1)" "signer_ok X seed path (kp_signer p')"
      "kp_pubkey p' = kp_pubkey p" "hs_used (kp_signer p') = hs_used (kp_signer p) + 1"
      "spend_priv X (fault, msg) k d = (Some (sig_at X seed (priv_pos k) msg), Some p', d(path := \<lparr>fs_seen = Some b, fs_stable = Some b\<rparr>))"
  | p p' f where "k = Some p" "hs_used (kp_signer p) < CONSENSUS_CAPACITY" "f = d path \<or> f = (d path)\<lparr>fs_seen := Some (blob_at X seed (hs_used (kp_signer p) + 1))\<rparr>"
      "signer_ok X seed path (kp_signer p')" "kp_pubkey p' = kp_pubkey p" "hs_used (kp_signer p') = hs_used (kp_signer p)"
      "spend_priv X (fault, msg) k d = (None, Some p', d(path := f))"
proof (cases k)
  case None
  then show ?thesis using that(1) by (simp add: spend_priv_def spend_uncached_def)
next
  case (Some p)
  then have ok: "signer_ok X seed path (kp_signer p)" using assms(2) by (simp add: priv_ok_def)
  show ?thesis
  proof (cases rule: hashsig_sign_cases [OF assms(1) ok, of fault msg d])
    case 1
    then have "remaining (kp_signer p) = 0" using ok remaining_pos [of "kp_signer p"] by (simp add: signer_ok_def)
    then show ?thesis using that(1) Some 1 by (simp add: spend_priv_def priv_sign_def spend_uncached_def sign_uncached_def)
  next
    case (2 s')
    show ?thesis by (rule that(2) [of p _ "p\<lparr>kp_signer := s'\<rparr>"]) (use 2 Some in \<open>simp_all add: spend_priv_def priv_sign_def priv_pos_def\<close>)
  next
    case (3 s' e f)
    show ?thesis by (rule that(3) [of p f "p\<lparr>kp_signer := s'\<rparr>"]) (use 3 Some in \<open>simp_all add: spend_priv_def priv_sign_def priv_pos_def\<close>)
  qed
qed

lemma file_ok_written: "file_ok X seed \<lparr>fs_seen = Some (blob_at X seed n), fs_stable = Some (blob_at X seed n)\<rparr>"
  by (simp add: file_ok_def)

lemma file_ok_renamed: "file_ok X seed f \<Longrightarrow> blob_pos (fs_stable f) \<le> unat n \<Longrightarrow> file_ok X seed (f\<lparr>fs_seen := Some (blob_at X seed n)\<rparr>)"
  by (simp add: file_ok_def)

lemma stable_in_range: "file_ok X seed f \<Longrightarrow> blob_pos (fs_stable f) < 2 ^ 64"
proof -
  assume "file_ok X seed f"
  moreover have "unat n < 2 ^ 64" for n :: u64 using unsigned_less [of n] by simp
  ultimately show ?thesis by (auto simp: file_ok_def)
qed

interpretation vk: one_time_keys "\<lambda>k d. hss_faithful X \<and> priv_ok X seed path k d" priv_pos "\<lambda>d. blob_pos (fs_stable (d path))" "spend_priv X" "restart_priv X seed path"
    "\<lambda>n i r. n < 32768 \<and> r = sig_at X seed n (snd i)" for X :: "'x hss_env_scheme" and seed path
proof unfold_locales
  fix s d i r s' d'
  assume a: "hss_faithful X \<and> priv_ok X seed path s d" and st: "spend_priv X i s d = (Some r, s', d')"
  then have X: "hss_faithful X" and ok: "priv_ok X seed path s d" by simp_all
  have "spend_priv X (fst i, snd i) s d = (Some r, s', d')" using st by simp
  then show "(hss_faithful X \<and> priv_ok X seed path s' d') \<and> priv_pos s' = Suc (priv_pos s) \<and> priv_pos s < blob_pos (fs_stable (d' path))
      \<and> priv_pos s < 32768 \<and> r = sig_at X seed (priv_pos s) (snd i)"
  proof (cases rule: spend_priv_cases [OF X ok, of "fst i" "snd i"])
    case (2 p p' b)
    then show ?thesis using ok X unat_plus_one [OF 2(2)] \<open>spend_priv X (fst i, snd i) s d = (Some r, s', d')\<close>
      by (auto simp: priv_ok_def priv_pos_def file_ok_written word_less_nat_alt)
  qed simp_all
next
  fix s d i s' d'
  assume a: "hss_faithful X \<and> priv_ok X seed path s d" and st: "spend_priv X i s d = (None, s', d')"
  then have X: "hss_faithful X" and ok: "priv_ok X seed path s d" by simp_all
  have st': "spend_priv X (fst i, snd i) s d = (None, s', d')" using st by simp
  then show "(hss_faithful X \<and> priv_ok X seed path s' d') \<and> priv_pos s \<le> priv_pos s' \<and> blob_pos (fs_stable (d path)) \<le> blob_pos (fs_stable (d' path))"
  proof (cases rule: spend_priv_cases [OF X ok, of "fst i" "snd i"])
    case (3 p p' f)
    have "blob_pos (fs_stable (d path)) \<le> unat (hs_used (kp_signer p) + 1)"
      using ok 3(1) unat_plus_one [OF 3(2)] by (auto simp: priv_ok_def file_ok_def priv_pos_def)
    then show ?thesis using ok X 3 st' unat_plus_one [OF 3(2)] by (auto simp: priv_ok_def priv_pos_def file_ok_renamed)
  qed (use ok X st' in auto)
next
  fix s d c s' d'
  assume a: "hss_faithful X \<and> priv_ok X seed path s d" and st: "restart_priv X seed path c s d = (s', d')"
  let ?d = "d(path := after_crash (fst c) (d path))"
  have f: "file_ok X seed (?d path)" "blob_pos (fs_stable (d path)) \<le> blob_pos (fs_stable (?d path))" "blob_pos (fs_stable (?d path)) \<le> blob_pos (fs_seen (?d path))"
    using a file_ok_crash [of X seed "d path" "fst c"] by (auto simp: priv_ok_def file_ok_def)
  have d': "d' = ?d" using st by (simp add: restart_priv_def Let_def)
  show "(hss_faithful X \<and> priv_ok X seed path s' d') \<and> blob_pos (fs_stable (d path)) \<le> priv_pos s' \<and> blob_pos (fs_stable (d path)) \<le> blob_pos (fs_stable (d' path))"
  proof (cases s')
    case None
    then show ?thesis using a f d' stable_in_range [of X seed "d path"] by (auto simp: priv_ok_def priv_pos_def)
  next
    case (Some k)
    then have "into_persistent (snd c) path ?d (from_seed X seed) = Ok k" using st by (auto simp: restart_priv_def Let_def split: outcome.splits)
    from attached_ok [OF _ f(1) this] a Some f d' show ?thesis by (auto simp: priv_ok_def priv_pos_def)
  qed
qed

section \<open>Properties\<close>

lemma distinct_leaves:
  assumes "sorted_wrt (<) (map fst out)" and "\<forall>x \<in> set out. fst x < 32768"
  shows "distinct (map (leaf_indexes [5, 10] \<circ> fst) out)"
proof -
  have "distinct (map fst out)" using assms(1) strict_sorted_iff by blast
  moreover have "inj_on (leaf_indexes [5, 10]) (fst ` set out)" using assms(2) leaf_indexes_inj by (intro inj_onI) (metis imageE)
  ultimately show ?thesis by (simp add: distinct_map comp_inj_on)
qed

text \<open>C10: No leaf of a validator key signs twice. Over any run of signatures and restarts, whatever step of a durable write fails and whether the
  process is killed or the machine loses power, the signatures that were released come from strictly increasing positions, no two from the same leaf, and
  each is the signature of its message at that position.\<close>

theorem leaf_never_reused:
  assumes "hss_faithful X" and "fs_seen (d path) = None" "fs_stable (d path) = None"
    and "key_run (spend_priv X) (restart_priv X seed path) priv_pos es None d = (out, k, d')"
  shows "sorted_wrt (<) (map fst out) \<and> distinct (map (leaf_indexes [5, 10] \<circ> fst) out) \<and> (\<forall>(n, i, sig) \<in> set out. n < 32768 \<and> sig = sig_at X seed n (snd i))"
proof -
  have "hss_faithful X \<and> priv_ok X seed path None d" using assms(1-3) by (simp add: priv_ok_def file_ok_def)
  from vk.run_spends_once [OF assms(4) this, of 0]
  have "sorted_wrt (<) (map fst out)" "\<forall>(n, i, sig) \<in> set out. n < 32768 \<and> sig = sig_at X seed n (snd i)" by auto
  then show ?thesis using distinct_leaves [of out] by fastforce
qed

text \<open>A signature with nothing failing, and a restart on a readable file.\<close>

lemma spend_good:
  assumes "hss_faithful X" and "priv_ok X seed path (Some p) d" and "hs_used (kp_signer p) < CONSENSUS_CAPACITY"
  obtains p' d' where "spend_priv X (None, msg) (Some p) d = (Some (sig_at X seed (priv_pos (Some p)) msg), Some p', d')"
    "priv_ok X seed path (Some p') d'" "priv_pos (Some p') = Suc (priv_pos (Some p))" "blob_pos (fs_stable (d' path)) = Suc (priv_pos (Some p))"
proof -
  have ok: "signer_ok X seed path (kp_signer p)" using assms(2) by (simp add: priv_ok_def)
  obtain s' where s': "hashsig_sign X None msg (kp_signer p) d = (Some (sig_at X seed (unat (hs_used (kp_signer p))) msg), s',
      d(path := \<lparr>fs_seen = Some (blob_at X seed (hs_used (kp_signer p) + 1)), fs_stable = Some (blob_at X seed (hs_used (kp_signer p) + 1))\<rparr>))"
    "signer_ok X seed path s'" "hs_used s' = hs_used (kp_signer p) + 1"
    by (rule hashsig_sign_cases [OF assms(1) ok, of None msg d]) (use assms(3) in \<open>auto simp: write_atomic_def\<close>)
  show ?thesis
    by (rule that [of "p\<lparr>kp_signer := s'\<rparr>"]) (use s' assms(2) unat_plus_one [OF assms(3)] in \<open>auto simp: spend_priv_def priv_sign_def priv_pos_def priv_ok_def file_ok_written\<close>)
qed

lemma restart_good:
  assumes "hss_faithful X" and "priv_ok X seed path k d"
  obtains p d' where "restart_priv X seed path (c, True) k d = (Some p, d')" "priv_ok X seed path (Some p) d'"
    "d' = d(path := after_crash c (d path))" "priv_pos (Some p) = blob_pos (fs_seen (d' path))"
proof -
  let ?d = "d(path := after_crash c (d path))"
  have f: "file_ok X seed (?d path)" using assms(2) file_ok_crash [of X seed "d path" c] by (simp add: priv_ok_def)
  have "\<exists>s. attach_persistence True path ?d (kp_signer (from_seed X seed)) = Ok s"
    by (simp add: attach_persistence_def attach_persistence_with_floor_def Let_def split: option.split)
  then obtain p where p: "into_persistent True path ?d (from_seed X seed) = Ok p" by (auto simp: into_persistent_def)
  show ?thesis
    by (rule that [of p ?d]) (use p f attached_ok [OF assms(1) f p] in \<open>auto simp: restart_priv_def Let_def priv_ok_def priv_pos_def\<close>)
qed

definition sample_hss :: hss_env where
  "sample_hss = \<lparr>xof256 = \<lambda>bs n. replicate n 0, sha256 = \<lambda>bs. 0, hss_params = \<lambda>ps. replicate 8 1, hss_heights = \<lambda>p. Some [10, 5],
     hss_sig = \<lambda>p s ls msg. replicate CONSENSUS_SIG_LEN (of_nat (sum_list ls)), hss_pk = \<lambda>p s. s, hss_verify = \<lambda>msg sig pk. Ok (), max_hss_signature_length = 10000\<rparr>"

definition no_files :: Disk where "no_files = (\<lambda>_. \<lparr>fs_seen = None, fs_stable = None\<rparr>)"

lemma sample_hss_faithful: "hss_faithful sample_hss"
  by (simp add: hss_faithful_def sample_hss_def)

lemma no_files_ok: "priv_ok X seed path None no_files"
  by (simp add: priv_ok_def file_ok_def no_files_def)

lemma sample_signer_run:
  obtains k d' where "key_run (spend_priv sample_hss) (restart_priv sample_hss 7 ''s'') priv_pos
      [Restart (Kill, True), Spend (None, [1]), Restart (PowerLoss False, True), Spend (None, [2])] None no_files
    = ([(0, (None, [1]), sig_at sample_hss 7 0 [1]), (1, (None, [2]), sig_at sample_hss 7 1 [2])], k, d')"
proof -
  note X = sample_hss_faithful
  obtain p1 d1 where 1: "restart_priv sample_hss 7 ''s'' (Kill, True) None no_files = (Some p1, d1)" "priv_ok sample_hss 7 ''s'' (Some p1) d1" "priv_pos (Some p1) = 0"
    by (rule restart_good [OF X no_files_ok, of 7 "''s''" Kill]) (auto simp: no_files_def after_crash_def)
  obtain p2 d2 where 2: "spend_priv sample_hss (None, [1]) (Some p1) d1 = (Some (sig_at sample_hss 7 0 [1]), Some p2, d2)" "priv_ok sample_hss 7 ''s'' (Some p2) d2"
      "blob_pos (fs_stable (d2 ''s'')) = 1"
    by (rule spend_good [OF X 1(2), of "[1]"]) (use 1(3) in \<open>auto simp: word_less_nat_alt priv_pos_def\<close>)
  obtain p3 d3 where 3: "restart_priv sample_hss 7 ''s'' (PowerLoss False, True) (Some p2) d2 = (Some p3, d3)" "priv_ok sample_hss 7 ''s'' (Some p3) d3" "priv_pos (Some p3) = 1"
    by (rule restart_good [OF X 2(2), of "PowerLoss False"]) (use 2(3) in \<open>auto simp: after_crash_def Let_def\<close>)
  obtain p4 d4 where 4: "spend_priv sample_hss (None, [2]) (Some p3) d3 = (Some (sig_at sample_hss 7 1 [2]), Some p4, d4)"
    by (rule spend_good [OF X 3(2), of "[2]"]) (use 3(3) in \<open>auto simp: word_less_nat_alt priv_pos_def\<close>)
  show ?thesis by (rule that) (simp add: 1 2 3 4)
qed

theorem leaf_never_reused_witness:
  "\<exists>k d'. key_run (spend_priv sample_hss) (restart_priv sample_hss 7 ''s'') priv_pos
      [Restart (Kill, True), Spend (None, [1]), Restart (PowerLoss False, True), Spend (None, [2])] None no_files
    = ([(0, (None, [1]), sig_at sample_hss 7 0 [1]), (1, (None, [2]), sig_at sample_hss 7 1 [2])], k, d')
    \<and> distinct (map (leaf_indexes [5, 10] \<circ> fst) [(0, (None :: WriteStep option, [1 :: u8]), sig_at sample_hss 7 0 [1]), (1, (None, [2]), sig_at sample_hss 7 1 [2])])"
proof -
  obtain k d' where run: "key_run (spend_priv sample_hss) (restart_priv sample_hss 7 ''s'') priv_pos
      [Restart (Kill, True), Spend (None, [1]), Restart (PowerLoss False, True), Spend (None, [2])] None no_files
    = ([(0, (None, [1]), sig_at sample_hss 7 0 [1]), (1, (None, [2]), sig_at sample_hss 7 1 [2])], k, d')" by (rule sample_signer_run)
  from leaf_never_reused [OF sample_hss_faithful _ _ run] run show ?thesis by (auto simp: no_files_def)
qed

section \<open>The kept session changes nothing\<close>

lemma key_run_simulates:
  assumes "R s t d" and "key_run spend restart pos es s d = (out, s', d')"
    and spends: "\<And>i s t d r s' d'. R s t d \<Longrightarrow> spend i s d = (r, s', d') \<Longrightarrow> \<exists>t'. spendt i t d = (r, t', d') \<and> R s' t' d'"
    and restarts: "\<And>c s t d s' d'. R s t d \<Longrightarrow> restart c s d = (s', d') \<Longrightarrow> \<exists>t'. restartt c t d = (t', d') \<and> R s' t' d'"
    and place: "\<And>s t d. R s t d \<Longrightarrow> pos s = post t"
  shows "\<exists>t'. key_run spendt restartt post es t d = (out, t', d') \<and> R s' t' d'"
  using assms(1,2)
proof (induction es arbitrary: s t d out)
  case Nil
  then show ?case by simp
next
  case (Cons e es)
  show ?case
  proof (cases e)
    case (Restart c)
    obtain s1 d1 where "restart c s d = (s1, d1)" by fastforce
    with Cons.prems restarts [OF Cons.prems(1)] Cons.IH show ?thesis by (fastforce simp: Restart)
  next
    case (Spend i)
    obtain r s1 d1 where st: "spend i s d = (r, s1, d1)" by (metis prod_cases3)
    obtain t1 where t1: "spendt i t d = (r, t1, d1)" "R s1 t1 d1" using spends [OF Cons.prems(1) st] by blast
    obtain out1 where run: "key_run spend restart pos es s1 d1 = (out1, s', d')" "out = (case r of Some x \<Rightarrow> (pos s, i, x) # out1 | None \<Rightarrow> out1)"
      using Cons.prems(2) by (auto simp: Spend st split: prod.splits)
    from Cons.IH [OF t1(2) run(1)] t1(1) run(2) place [OF Cons.prems(1)] show ?thesis by (auto simp: Spend split: option.split)
  qed
qed

definition forget_session :: "HkPriv \<Rightarrow> HkPriv" where
  "forget_session k = k\<lparr>kp_signer := (kp_signer k)\<lparr>hs_session := None\<rparr>\<rparr>"

lemma sign_uncached_forget:
  assumes "s\<lparr>hs_session := None\<rparr> = t\<lparr>hs_session := None\<rparr>"
  shows "hs_used t = hs_used s" "hs_state t = hs_state s" "hs_capacity t = hs_capacity s" "hs_persist t = hs_persist s"
  using arg_cong [OF assms, of hs_used] arg_cong [OF assms, of hs_state] arg_cong [OF assms, of hs_capacity] arg_cong [OF assms, of hs_persist] by simp_all

lemma hss_sign_key: "hss_faithful X \<Longrightarrow> hss_sign X msg (to_binary (key_at X seed n)) = Some (sig_at X seed (unat n) msg, to_binary (ref_increment [5, 10] (key_at X seed n)))"
  using expand_fresh [of X seed n] expanded_sign_key [of X seed n _ msg]
  by (auto simp: hss_sign_def expand_key Let_def case_prod_beta)

lemma uncached_agrees:
  assumes "hss_faithful X" and "signer_ok X seed path s" and "s\<lparr>hs_session := None\<rparr> = t\<lparr>hs_session := None\<rparr>" and "hashsig_sign X fault msg s d = (r, s', d')"
  obtains t' where "sign_uncached X fault msg t d = (r, t', d')" "s'\<lparr>hs_session := None\<rparr> = t'\<lparr>hs_session := None\<rparr>"
proof -
  note t = sign_uncached_forget [OF assms(3)]
  have cap: "hs_capacity s = CONSENSUS_CAPACITY" "hs_persist s = Some path" using assms(2) by (simp_all add: signer_ok_def)
  have rem: "remaining t = remaining s" by (simp add: remaining_def t)
  let ?st = "to_binary (ref_increment [5, 10] (key_at X seed (hs_used s)))"
  have blob: "hs_used s < CONSENSUS_CAPACITY \<Longrightarrow> encode_blob (hs_used s + 1) ?st = blob_at X seed (hs_used s + 1)"
    using increment_key [of "hs_used s" X seed] by (simp add: blob_at_def)
  have run: "sign_uncached X fault msg t d = (case save_state fault t ?st d of (False, d1) \<Rightarrow> (None, t, d1)
      | (True, d1) \<Rightarrow> (Some (sig_at X seed (unat (hs_used s)) msg), t\<lparr>hs_state := ?st, hs_used := hs_used t + 1, hs_session := None\<rparr>, d1))"
    if "hs_used s < CONSENSUS_CAPACITY"
    using that assms(2) remaining_pos [OF cap(1)] hss_sign_key [OF assms(1), of msg seed "hs_used s"] by (simp add: sign_uncached_def rem t signer_ok_def)
  show ?thesis
  proof (cases rule: hashsig_sign_cases [OF assms(1,2), of fault msg d])
    case 1
    then show ?thesis using that [of t] assms(3,4) remaining_pos [OF cap(1)] by (simp add: sign_uncached_def rem)
  next
    case (2 s1)
    then have "sign_uncached X fault msg t d = (r, t\<lparr>hs_state := ?st, hs_used := hs_used s + 1, hs_session := None\<rparr>, d')"
      using run [OF 2(1)] blob [OF 2(1)] assms(4) by (simp add: save_state_def t cap)
    moreover have "s1\<lparr>hs_session := None\<rparr> = t\<lparr>hs_state := ?st, hs_used := hs_used s + 1, hs_session := None\<rparr>"
      using 2(6) assms(3) by (cases s, cases t, cases s1) simp
    ultimately show ?thesis using that 2(5) assms(4) by simp
  next
    case (3 s1 e f)
    then have "sign_uncached X fault msg t d = (r, t, d')"
      using run [OF 3(1)] blob [OF 3(1)] assms(4) by (simp add: save_state_def t cap)
    then show ?thesis using that 3(6,7) assms(3,4) by simp
  qed
qed

definition twin :: "'x hss_env_scheme \<Rightarrow> H256 \<Rightarrow> string \<Rightarrow> HkPriv option \<Rightarrow> HkPriv option \<Rightarrow> Disk \<Rightarrow> bool" where
  "twin X seed path s t d \<longleftrightarrow> hss_faithful X \<and> priv_ok X seed path s d \<and> map_option forget_session s = map_option forget_session t"

lemma twin_spend:
  assumes "twin X seed path s t d" and "spend_priv X i s d = (r, s', d')"
  shows "\<exists>t'. spend_uncached X i t d = (r, t', d') \<and> twin X seed path s' t' d'"
proof (cases s)
  case None
  then show ?thesis using assms by (auto simp: twin_def spend_priv_def spend_uncached_def)
next
  case (Some p)
  then obtain q where q: "t = Some q" "forget_session p = forget_session q" using assms(1) by (cases t) (auto simp: twin_def)
  have X: "hss_faithful X" and ok: "priv_ok X seed path s d" and sok: "signer_ok X seed path (kp_signer p)" using assms(1) Some by (auto simp: twin_def priv_ok_def)
  have same: "(kp_signer p)\<lparr>hs_session := None\<rparr> = (kp_signer q)\<lparr>hs_session := None\<rparr>" "kp_seed p = kp_seed q" "kp_pubkey p = kp_pubkey q"
    using q(2) by (cases p, cases q, simp add: forget_session_def)+
  obtain s1 where s1: "hashsig_sign X (fst i) (snd i) (kp_signer p) d = (r, s1, d')" "s' = Some (p\<lparr>kp_signer := s1\<rparr>)"
    using assms(2) Some by (auto simp: spend_priv_def priv_sign_def split: prod.splits)
  obtain t1 where t1: "sign_uncached X (fst i) (snd i) (kp_signer q) d = (r, t1, d')" "s1\<lparr>hs_session := None\<rparr> = t1\<lparr>hs_session := None\<rparr>"
    by (rule uncached_agrees [OF X sok same(1) s1(1)])
  have "priv_ok X seed path s' d'"
    using vk.spend_some [of X seed path s d i _ s' d'] vk.spend_none [of X seed path s d i s' d'] assms(2) X ok by (cases r) blast+
  moreover have "forget_session (p\<lparr>kp_signer := s1\<rparr>) = forget_session (q\<lparr>kp_signer := t1\<rparr>)"
    using t1(2) same(2,3) by (cases p, cases q) (simp add: forget_session_def)
  ultimately show ?thesis using t1(1) q(1) s1(2) X by (auto simp: twin_def spend_uncached_def)
qed

lemma twin_restart:
  assumes "twin X seed path s t d" and "restart_priv X seed path c s d = (s', d')"
  shows "\<exists>t'. restart_priv X seed path c t d = (t', d') \<and> twin X seed path s' t' d'"
  using assms vk.restarts [of X seed path s d c s' d'] by (auto simp: twin_def restart_priv_def Let_def)

lemma twin_place: "twin X seed path s t d \<Longrightarrow> priv_pos s = priv_pos t"
proof (cases s; cases t)
  fix p q assume "twin X seed path s t d" "s = Some p" "t = Some q"
  moreover from this have "forget_session p = forget_session q" by (simp add: twin_def)
  from arg_cong [OF this, of "\<lambda>k. hs_used (kp_signer k)"] have "hs_used (kp_signer p) = hs_used (kp_signer q)" by (simp add: forget_session_def)
  ultimately show ?thesis by (simp add: priv_pos_def)
qed (auto simp: twin_def)

text \<open>C16: Keeping the expanded key between signatures changes nothing. Over any run of signatures and restarts, the signer with its session releases
  the same signatures at the same positions, byte for byte, and leaves the same files as the signer that expands the key anew for every signature.\<close>

theorem cached_signing_exact:
  assumes "hss_faithful X" and "fs_seen (d path) = None" "fs_stable (d path) = None"
    and "key_run (spend_priv X) (restart_priv X seed path) priv_pos es None d = (out, k, d')"
  shows "\<exists>k'. key_run (spend_uncached X) (restart_priv X seed path) priv_pos es None d = (out, k', d') \<and> map_option forget_session k = map_option forget_session k'"
proof -
  have "twin X seed path None None d" using assms(1-3) by (simp add: twin_def priv_ok_def file_ok_def)
  from this assms(4)
  have "\<exists>k'. key_run (spend_uncached X) (restart_priv X seed path) priv_pos es None d = (out, k', d') \<and> twin X seed path k k' d'"
    by (rule key_run_simulates) (fact twin_spend twin_restart twin_place)+
  then show ?thesis by (auto simp: twin_def)
qed

theorem cached_signing_exact_witness:
  "\<exists>k' d'. key_run (spend_uncached sample_hss) (restart_priv sample_hss 7 ''s'') priv_pos
      [Restart (Kill, True), Spend (None, [1]), Restart (PowerLoss False, True), Spend (None, [2])] None no_files
    = ([(0, (None, [1]), sig_at sample_hss 7 0 [1]), (1, (None, [2]), sig_at sample_hss 7 1 [2])], k', d')"
proof -
  obtain k d' where run: "key_run (spend_priv sample_hss) (restart_priv sample_hss 7 ''s'') priv_pos
      [Restart (Kill, True), Spend (None, [1]), Restart (PowerLoss False, True), Spend (None, [2])] None no_files
    = ([(0, (None, [1]), sig_at sample_hss 7 0 [1]), (1, (None, [2]), sig_at sample_hss 7 1 [2])], k, d')" by (rule sample_signer_run)
  from cached_signing_exact [OF sample_hss_faithful _ _ run] show ?thesis by (auto simp: no_files_def)
qed

section \<open>Votes that are signed verify\<close>

text \<open>What the verifier documents: it accepts the signature of a message at any position, and these have the pinned length.\<close>

definition verifier_complete :: "'x hss_env_scheme \<Rightarrow> H256 \<Rightarrow> bool" where
  "verifier_complete X seed \<longleftrightarrow> CONSENSUS_SIG_LEN \<le> max_hss_signature_length X
     \<and> (\<forall>n msg. length (sig_at X seed n msg) = CONSENSUS_SIG_LEN \<and> hss_verify X msg (sig_at X seed n msg) (kp_pubkey (from_seed X seed)) = Ok ())"

lemma scheme_verify_made: "verifier_complete X seed \<Longrightarrow> scheme_verify X msg (sig_at X seed n msg) (kp_pubkey (from_seed X seed))"
  by (simp add: verifier_complete_def scheme_verify_def hashsig_verify_def MIN_SIG_LEN_def CONSENSUS_SIG_LEN_def verify_guarded_def guarded_def)

lemma wrong_length: "length sig \<noteq> CONSENSUS_SIG_LEN \<Longrightarrow> \<not> scheme_verify X msg sig pk" "\<not> scheme_verify X msg [] pk"
  by (simp_all add: scheme_verify_def CONSENSUS_SIG_LEN_def)

text \<open>C22: A validator that still has a leaf votes. After any run, a key with a leaf left signs a vote when the disk takes the write, and
  every node that holds the validator's public key finds the vote valid, alone or in a batch; a key without a leaf refuses with an error and changes
  nothing; and a signature of any other length is invalid.\<close>

theorem votes_sign_and_verify:
  assumes "hss_faithful X" and "verifier_complete X seed" and "fs_seen (d path) = None" "fs_stable (d path) = None"
    and "key_run (spend_priv X) (restart_priv X seed path) priv_pos es None d = (out, Some k, d')"
  shows "(if remaining (kp_signer k) \<noteq> 0
          then \<exists>sig k1 d1. sign_vote X None v (k, d') = (Ok (v, sig), (k1, d1)) \<and> verify_signed_vote X v sig (kp_pubkey k)
                 \<and> verify_signed_votes_batch X [(v, sig, kp_pubkey k), (v, [], kp_pubkey k)] = Some [True, False]
                 \<and> remaining (kp_signer k1) = remaining (kp_signer k) - 1
          else sign_vote X fault v (k, d') = (Err (), (k, d')))
       \<and> (\<forall>sig. length sig \<noteq> CONSENSUS_SIG_LEN \<longrightarrow> \<not> verify_signed_vote X v sig (kp_pubkey k))"
proof -
  have "hss_faithful X \<and> priv_ok X seed path None d" using assms(1,3,4) by (simp add: priv_ok_def file_ok_def)
  from vk.run_spends_once [OF assms(5) this, of 0] have ok: "priv_ok X seed path (Some k) d'" by simp
  then have sok: "signer_ok X seed path (kp_signer k)" and pk: "kp_pubkey k = kp_pubkey (from_seed X seed)" by (simp_all add: priv_ok_def)
  show ?thesis
  proof (cases "hs_used (kp_signer k) < CONSENSUS_CAPACITY")
    case True
    obtain s' where s': "hashsig_sign X None (vote_sign_bytes v) (kp_signer k) d' = (Some (sig_at X seed (unat (hs_used (kp_signer k))) (vote_sign_bytes v)), s',
        d'(path := \<lparr>fs_seen = Some (blob_at X seed (hs_used (kp_signer k) + 1)), fs_stable = Some (blob_at X seed (hs_used (kp_signer k) + 1))\<rparr>))"
      "hs_used s' = hs_used (kp_signer k) + 1" "signer_ok X seed path s'"
      by (rule hashsig_sign_cases [OF assms(1) sok, of None "vote_sign_bytes v" d']) (use True in \<open>auto simp: write_atomic_def\<close>)
    have "remaining s' = remaining (kp_signer k) - 1"
      using s'(2,3) sok True unat_plus_one [OF True] by (simp add: remaining_def signer_ok_def saturating_sub_def word_le_nat_alt word_less_nat_alt)
    then show ?thesis using True sok remaining_pos [of "kp_signer k"] s'(1) scheme_verify_made [OF assms(2)]
      by (simp add: signer_ok_def sign_vote_def provider_sign_def priv_sign_def ok_or_def verify_signed_vote_def verify_signed_votes_batch_def pk wrong_length)
  next
    case False
    then have r: "remaining (kp_signer k) = 0" using sok remaining_pos [of "kp_signer k"] by (simp add: signer_ok_def)
    then show ?thesis by (simp add: sign_vote_def provider_sign_def priv_sign_def hashsig_sign_def ok_or_def verify_signed_vote_def wrong_length)
  qed
qed

lemma sample_verifier: "verifier_complete sample_hss seed"
  by (simp add: verifier_complete_def sig_at_def sample_hss_def CONSENSUS_SIG_LEN_def)

theorem votes_sign_and_verify_witness:
  "\<exists>k out d'. key_run (spend_priv sample_hss) (restart_priv sample_hss 7 ''s'') priv_pos [Restart (Kill, True)] None no_files = (out, Some k, d')
     \<and> (if remaining (kp_signer k) \<noteq> 0
        then \<exists>sig w. sign_vote sample_hss None (new_prevote 1 (RoundSome 0) NilVal 0) (k, d') = (Ok (new_prevote 1 (RoundSome 0) NilVal 0, sig), w)
        else sign_vote sample_hss None (new_prevote 1 (RoundSome 0) NilVal 0) (k, d') = (Err (), (k, d')))"
proof -
  obtain p d1 where "restart_priv sample_hss 7 ''s'' (Kill, True) None no_files = (Some p, d1)"
    by (rule restart_good [OF sample_hss_faithful no_files_ok, of 7 "''s''" Kill])
  then have run: "key_run (spend_priv sample_hss) (restart_priv sample_hss 7 ''s'') priv_pos [Restart (Kill, True)] None no_files = ([], Some p, d1)" by simp
  from votes_sign_and_verify [OF sample_hss_faithful sample_verifier _ _ run, of "new_prevote 1 (RoundSome 0) NilVal 0" None] run
  show ?thesis by (auto simp: no_files_def split: if_splits)
qed

end
