(* ===== verification/HK_Wallet.thy ===== *)
theory HK_Wallet
  imports HK_Pool HK_Json
begin

text \<open>
  The shielded wallet (\<^verbatim>\<open>hk-wallet/src/lib.rs\<close>) with the note cipher and the key encapsulation it uses
  (\<^verbatim>\<open>hk-crypto/src/noteenc.rs\<close>, \<^verbatim>\<open>hk-crypto/src/mlkem.rs\<close>): addresses, sealed outputs, the scanner, disclosure packages and
  the assembly of spends. ML-KEM itself is a parameter: the encapsulation key of a seed, the validity check of an encoded key, encapsulation and decapsulation. A receiving key is its 64-byte
  seed. Building an address expands the spend tree and panics like the circuit's \<open>spend_root\<close> where that does.
\<close>

record kem_env = hash_env +
  ek_of_seed :: "bytes \<Rightarrow> bytes"
  ek_valid :: "bytes \<Rightarrow> bool"
  encapsulate_deterministic :: "bytes \<Rightarrow> bytes \<Rightarrow> bytes \<times> H256"
  dk_decapsulate :: "bytes \<Rightarrow> bytes \<Rightarrow> H256"

section \<open>The note cipher\<close>

definition TAG_LEN :: nat where "TAG_LEN = 32"
definition CT_LEN :: nat where "CT_LEN = 1088"

definition xor_stream :: "'x hash_env_scheme \<Rightarrow> H256 \<Rightarrow> H256 \<Rightarrow> bytes \<Rightarrow> bytes" where
  "xor_stream X key nonce data =
     map2 (\<lambda>a b. a XOR b) data (xof256 X (str_bytes DOM_NOTE_ENC @ [0] @ h256_bytes key @ h256_bytes nonce) (length data))"

definition note_mac :: "'x hash_env_scheme \<Rightarrow> H256 \<Rightarrow> H256 \<Rightarrow> bytes \<Rightarrow> bytes" where
  "note_mac X key nonce ct = h256_bytes (shake256_32 X DOM_NOTE_MAC [h256_bytes key, h256_bytes nonce, ct])"

definition note_seal :: "'x hash_env_scheme \<Rightarrow> H256 \<Rightarrow> H256 \<Rightarrow> bytes \<Rightarrow> bytes" where
  "note_seal X key nonce plaintext = (let ct = xor_stream X key nonce plaintext in ct @ note_mac X key nonce ct)"

definition tag_diff :: "bytes \<Rightarrow> bytes \<Rightarrow> u8" where
  "tag_diff expect tag = foldl (\<lambda>d (a, b). d OR (a XOR b)) 0 (zip expect tag)"

definition note_open :: "'x hash_env_scheme \<Rightarrow> H256 \<Rightarrow> H256 \<Rightarrow> bytes \<Rightarrow> bytes option" where
  "note_open X key nonce sealed =
     (if length sealed < TAG_LEN then None
      else let ct = take (length sealed - TAG_LEN) sealed; tag = drop (length sealed - TAG_LEN) sealed
           in if tag_diff (note_mac X key nonce ct) tag \<noteq> 0 then None else Some (xor_stream X key nonce ct))"

section \<open>Key encapsulation\<close>

type_synonym NoteKem = bytes

definition kem_from_seed_bytes :: "bytes \<Rightarrow> NoteKem option" where
  "kem_from_seed_bytes b = (if length b = 64 then Some b else None)"

definition kem_from_master :: "'x kem_env_scheme \<Rightarrow> bytes \<Rightarrow> bytes \<Rightarrow> NoteKem" where
  "kem_from_master X master tag = shake256_n X DOM_MLKEM_SEED [master, tag] 64"

definition EK_LEN :: nat where "EK_LEN = 1184"

definition kem_public :: "'x kem_env_scheme \<Rightarrow> NoteKem \<Rightarrow> bytes" where
  "kem_public X kem = ek_of_seed X kem"

definition kem_decaps :: "'x kem_env_scheme \<Rightarrow> NoteKem \<Rightarrow> bytes \<Rightarrow> H256 option" where
  "kem_decaps X kem ct_bytes = (if length ct_bytes \<noteq> CT_LEN then None else Some (dk_decapsulate X kem ct_bytes))"

definition kem_encaps :: "'x kem_env_scheme \<Rightarrow> bytes \<Rightarrow> bytes \<Rightarrow> (bytes \<times> H256) option" where
  "kem_encaps X recipient_ek coin =
     (if length recipient_ek \<noteq> EK_LEN then None
      else if \<not> ek_valid X recipient_ek then None
      else Some (encapsulate_deterministic X recipient_ek coin))"

definition note_key :: "'x hash_env_scheme \<Rightarrow> H256 \<Rightarrow> H256 \<Rightarrow> H256" where
  "note_key X shared context = shake256_32 X DOM_NOTE_KEY [h256_bytes shared, h256_bytes context]"

section \<open>Keys and addresses\<close>

definition DOM_WALLET_RHO :: string where "DOM_WALLET_RHO = ''hk/wallet/rho/v2''"
definition DOM_WALLET_RCM :: string where "DOM_WALLET_RCM = ''hk/wallet/rcm/v2''"

record WalletKeys =
  wk_master :: bytes
  wk_h :: u32

record StealthAddress =
  sa_tag :: H256
  sa_kem_pk :: bytes

record Ivk =
  ivk_epoch :: u64
  ivk_tag :: H256
  ivk_kem_seed :: bytes

definition EPOCH_BLOCKS :: u64 where "EPOCH_BLOCKS = 1000"

definition epoch_of :: "u64 \<Rightarrow> u64" where
  "epoch_of height = height div EPOCH_BLOCKS"

definition epoch_kem_tag :: "u64 \<Rightarrow> bytes" where
  "epoch_kem_tag epoch = str_bytes (''note-kem/'' @ show_dec (unat epoch))"

definition wallet_nk :: "'x hash_env_scheme \<Rightarrow> WalletKeys \<Rightarrow> H256" where
  "wallet_nk X k = derive_nk X (wk_master k)"

definition owner_tag :: "'x hash_env_scheme \<Rightarrow> WalletKeys \<Rightarrow> (H256, unit) outcome" where
  "owner_tag X k = bind_ok (spend_root X (wk_master k) (wk_h k)) (\<lambda>root. Ok (address_tag X root (wallet_nk X k)))"

definition kem_at :: "'x kem_env_scheme \<Rightarrow> WalletKeys \<Rightarrow> u64 \<Rightarrow> NoteKem" where
  "kem_at X k epoch = kem_from_master X (wk_master k) (epoch_kem_tag epoch)"

definition address_at :: "'x kem_env_scheme \<Rightarrow> WalletKeys \<Rightarrow> u64 \<Rightarrow> (StealthAddress, unit) outcome" where
  "address_at X k epoch = bind_ok (owner_tag X k) (\<lambda>tag. Ok \<lparr>sa_tag = tag, sa_kem_pk = kem_public X (kem_at X k epoch)\<rparr>)"

definition ivk :: "'x kem_env_scheme \<Rightarrow> WalletKeys \<Rightarrow> u64 \<Rightarrow> (Ivk, unit) outcome" where
  "ivk X k epoch =
     (let seed = shake256_n X DOM_MLKEM_SEED [wk_master k, epoch_kem_tag epoch] 64
      in bind_ok (owner_tag X k) (\<lambda>tag. Ok \<lparr>ivk_epoch = epoch, ivk_tag = tag, ivk_kem_seed = seed\<rparr>))"

definition self_note :: "'x hash_env_scheme \<Rightarrow> WalletKeys \<Rightarrow> u64 \<Rightarrow> u64 \<Rightarrow> (Note, unit) outcome" where
  "self_note X k value tag =
     bind_ok (owner_tag X k) (\<lambda>owner.
       Ok \<lparr>nt_value = value, nt_owner = owner, nt_rho = shake256_32 X DOM_WALLET_RHO [wk_master k, u64_le tag],
           nt_rcm = shake256_32 X DOM_WALLET_RCM [wk_master k, u64_le tag]\<rparr>)"

definition authorize :: "'x hash_env_scheme \<Rightarrow> WalletKeys \<Rightarrow> u32 \<Rightarrow> H256 \<Rightarrow> (WotsSig \<times> MerklePath, unit) outcome" where
  "authorize X k ots_index msg = spend_auth X (wk_master k) (wk_h k) ots_index msg"

section \<open>Note plaintexts and sealed outputs\<close>

definition encode_note_pt :: "u64 \<Rightarrow> H256 \<Rightarrow> H256 \<Rightarrow> bytes \<Rightarrow> bytes" where
  "encode_note_pt value rho rcm memo = u64_le value @ h256_bytes rho @ h256_bytes rcm @ memo"

definition decode_note_pt :: "bytes \<Rightarrow> (u64 \<times> H256 \<times> H256 \<times> bytes) option" where
  "decode_note_pt pt =
     (if length pt < 72 then None
      else Some (of_nat (le_value (take 8 pt)), h256_of_bytes (take 32 (drop 8 pt)), h256_of_bytes (take 32 (drop 40 pt)), drop 72 pt))"

record SealedOutput =
  so_note :: Note
  so_commitment :: H256
  so_stealth_ct :: bytes
  so_note_key :: H256

definition seal_note :: "'x kem_env_scheme \<Rightarrow> Note \<Rightarrow> StealthAddress \<Rightarrow> bytes \<Rightarrow> bytes \<Rightarrow> (bytes \<times> H256) option" where
  "seal_note X n to_a coin memo =
     (let commitment = commit_note X n
      in case kem_encaps X (sa_kem_pk to_a) coin of
           None \<Rightarrow> None
         | Some (kem_ct, ss) \<Rightarrow>
             let key = note_key X ss commitment;
                 sealed = note_seal X key commitment (encode_note_pt (nt_value n) (nt_rho n) (nt_rcm n) memo)
             in Some (kem_ct @ sealed, key))"

definition build_output :: "'x kem_env_scheme \<Rightarrow> StealthAddress \<Rightarrow> u64 \<Rightarrow> bytes \<Rightarrow> bytes \<Rightarrow> bytes \<Rightarrow> SealedOutput option" where
  "build_output X to_a value coin entropy memo =
     (let n = \<lparr>nt_value = value, nt_owner = sa_tag to_a, nt_rho = shake256_32 X DOM_WALLET_RHO [entropy, str_bytes ''out''],
               nt_rcm = shake256_32 X DOM_WALLET_RCM [entropy, str_bytes ''out'']\<rparr>;
          commitment = commit_note X n
      in case seal_note X n to_a coin memo of
           None \<Rightarrow> None
         | Some (stealth_ct, key) \<Rightarrow> Some \<lparr>so_note = n, so_commitment = commitment, so_stealth_ct = stealth_ct, so_note_key = key\<rparr>)"

section \<open>Disclosure packages\<close>

record DisclosurePackage =
  dp_version :: u8
  dp_chain_id :: string
  dp_commitment :: H256
  dp_owner_tag :: H256
  dp_leaf_index :: u64
  dp_anchor :: H256
  dp_siblings :: "H256 list"
  dp_stealth_ct :: bytes
  dp_note_key :: H256

record DisclosedPayment =
  pay_value :: u64
  pay_owner_tag :: H256
  pay_rho :: H256
  pay_rcm :: H256
  pay_memo :: bytes
  pay_commitment :: H256
  pay_leaf_index :: u64
  pay_anchor :: H256

definition note_key_as_recipient :: "'x kem_env_scheme \<Rightarrow> WalletKeys \<Rightarrow> u64 \<Rightarrow> H256 \<Rightarrow> bytes \<Rightarrow> H256 option" where
  "note_key_as_recipient X k epoch commitment stealth_ct =
     (if length stealth_ct < CT_LEN then None
      else map_option (\<lambda>ss. note_key X ss commitment) (kem_decaps X (kem_at X k epoch) (take CT_LEN stealth_ct)))"

definition wallet_fold_path :: "'x hash_env_scheme \<Rightarrow> H256 \<Rightarrow> H256 list \<Rightarrow> u64 \<Rightarrow> H256" where
  "wallet_fold_path X leaf siblings index = fold_path (merkle_node X) siblings 0 index leaf"

definition build_disclosure_with_path :: "'x hash_env_scheme \<Rightarrow> string \<Rightarrow> H256 \<Rightarrow> H256 list \<Rightarrow> H256 \<Rightarrow> u64 \<Rightarrow> H256 \<Rightarrow> bytes \<Rightarrow> H256 \<Rightarrow> DisclosurePackage option" where
  "build_disclosure_with_path X chain_id commitment siblings anchor leaf_index tag stealth_ct key =
     (if length siblings \<noteq> TREE_DEPTH \<or> wallet_fold_path X commitment siblings leaf_index \<noteq> anchor then None
      else Some \<lparr>dp_version = 1, dp_chain_id = chain_id, dp_commitment = commitment, dp_owner_tag = tag, dp_leaf_index = leaf_index,
                 dp_anchor = anchor, dp_siblings = siblings, dp_stealth_ct = stealth_ct, dp_note_key = key\<rparr>)"

definition build_disclosure :: "'x hash_env_scheme \<Rightarrow> string \<Rightarrow> H256 list \<Rightarrow> u64 \<Rightarrow> H256 \<Rightarrow> bytes \<Rightarrow> H256 \<Rightarrow> (DisclosurePackage option, unit) outcome" where
  "build_disclosure X chain_id leaves leaf_index tag stealth_ct key =
     (if \<not> unat leaf_index < length leaves then Ok None
      else let commitment = leaves ! unat leaf_index
           in bind_ok (full_tree_path X leaves leaf_index) (\<lambda>(siblings, anchor).
                Ok (build_disclosure_with_path X chain_id commitment siblings anchor leaf_index tag stealth_ct key)))"

definition verify_disclosure :: "'x hash_env_scheme \<Rightarrow> DisclosurePackage \<Rightarrow> (DisclosedPayment, string) outcome" where
  "verify_disclosure X p =
     (if dp_version p \<noteq> 1 then Err (''unsupported package version '' @ show_dec (unat (dp_version p)))
      else if length (dp_stealth_ct p) < CT_LEN + TAG_LEN then Err ''stealth_ct too short''
      else bind_ok (ok_or (note_open X (dp_note_key p) (dp_commitment p) (drop CT_LEN (dp_stealth_ct p))) ''AEAD rejects: wrong key or tampered ciphertext'') (\<lambda>pt.
           bind_ok (ok_or (decode_note_pt pt) ''note plaintext malformed'') (\<lambda>(value, rho, rcm, memo).
           if commit_note X \<lparr>nt_value = value, nt_owner = dp_owner_tag p, nt_rho = rho, nt_rcm = rcm\<rparr> \<noteq> dp_commitment p
           then Err ''decoded note does not re-commit to the stated commitment''
           else if length (dp_siblings p) \<noteq> TREE_DEPTH then Err ''bad path length''
           else if wallet_fold_path X (dp_commitment p) (dp_siblings p) (dp_leaf_index p) \<noteq> dp_anchor p
           then Err ''inclusion path does not fold to the stated anchor''
           else Ok \<lparr>pay_value = value, pay_owner_tag = dp_owner_tag p, pay_rho = rho, pay_rcm = rcm, pay_memo = memo,
                    pay_commitment = dp_commitment p, pay_leaf_index = dp_leaf_index p, pay_anchor = dp_anchor p\<rparr>)))"

section \<open>The scanner\<close>

record Discovered =
  dc_note :: Note
  dc_commitment :: H256
  dc_leaf_index :: u64
  dc_memo :: bytes

definition scan_one :: "'x kem_env_scheme \<Rightarrow> NoteKem \<Rightarrow> H256 \<Rightarrow> u64 \<times> H256 \<times> bytes \<Rightarrow> Discovered option" where
  "scan_one X kem my_tag entry =
     (case entry of (leaf_index, commitment, stealth_ct) \<Rightarrow>
        if length stealth_ct < CT_LEN + TAG_LEN then None
        else case kem_decaps X kem (take CT_LEN stealth_ct) of
               None \<Rightarrow> None
             | Some ss \<Rightarrow>
                 (case note_open X (note_key X ss commitment) commitment (drop CT_LEN stealth_ct) of
                    None \<Rightarrow> None
                  | Some pt \<Rightarrow>
                      (case decode_note_pt pt of
                         None \<Rightarrow> None
                       | Some (value, rho, rcm, memo) \<Rightarrow>
                           let n = \<lparr>nt_value = value, nt_owner = my_tag, nt_rho = rho, nt_rcm = rcm\<rparr>
                           in if commit_note X n \<noteq> commitment then None
                              else Some \<lparr>dc_note = n, dc_commitment = commitment, dc_leaf_index = leaf_index, dc_memo = memo\<rparr>)))"

definition scan_core :: "'x kem_env_scheme \<Rightarrow> NoteKem \<Rightarrow> H256 \<Rightarrow> (u64 \<times> H256 \<times> bytes) list \<Rightarrow> Discovered list" where
  "scan_core X kem my_tag entries = List.map_filter (scan_one X kem my_tag) entries"

definition scan_at :: "'x kem_env_scheme \<Rightarrow> WalletKeys \<Rightarrow> u64 \<Rightarrow> (u64 \<times> H256 \<times> bytes) list \<Rightarrow> (Discovered list, unit) outcome" where
  "scan_at X k epoch entries = bind_ok (owner_tag X k) (\<lambda>tag. Ok (scan_core X (kem_at X k epoch) tag entries))"

definition wallet_scan :: "'x kem_env_scheme \<Rightarrow> WalletKeys \<Rightarrow> (u64 \<times> H256 \<times> bytes) list \<Rightarrow> (Discovered list, unit) outcome" where
  "wallet_scan X k entries = scan_at X k 0 entries"

definition scan_with_ivk :: "'x kem_env_scheme \<Rightarrow> Ivk \<Rightarrow> (u64 \<times> H256 \<times> bytes) list \<Rightarrow> Discovered list" where
  "scan_with_ivk X v entries =
     (case kem_from_seed_bytes (ivk_kem_seed v) of Some kem \<Rightarrow> scan_core X kem (ivk_tag v) entries | None \<Rightarrow> [])"

section \<open>Mints and spends\<close>

definition build_mint :: "'x hash_env_scheme \<Rightarrow> Note \<Rightarrow> MintWitness \<times> MintPublic" where
  "build_mint X n = (let w = \<lparr>mw_note = n\<rparr> in (w, run_mint X w))"

record SpendPlan =
  pl_witness :: SpendWitness
  pl_public :: SpendPublic

definition statement_text :: "CircuitError \<Rightarrow> string" where
  "statement_text e = ''witness fails the statement: '' @
     (case e of BadPathLength \<Rightarrow> ''BadPathLength'' | BadOtsPath \<Rightarrow> ''BadOtsPath'' | BadSpendSig \<Rightarrow> ''BadSpendSig''
      | OwnerMismatch \<Rightarrow> ''OwnerMismatch'' | ValueConservation \<Rightarrow> ''ValueConservation'')"

definition lift_panic :: "('a, unit) outcome \<Rightarrow> ('a, string) outcome" where
  "lift_panic r = (case r of Ok x \<Rightarrow> Ok x | _ \<Rightarrow> Panic)"

definition build_spend_with_path :: "'x hash_env_scheme \<Rightarrow> H256 list \<Rightarrow> H256 \<Rightarrow> u64 \<Rightarrow> Note \<Rightarrow> WalletKeys \<Rightarrow> u32 \<Rightarrow> Note \<Rightarrow> Note \<Rightarrow> u64 \<Rightarrow> H256 \<Rightarrow> (SpendPlan, string) outcome" where
  "build_spend_with_path X siblings root leaf_index in_note k ots_index out_note out2_note fee credit =
     (let cm = commit_note X in_note
      in if length siblings \<noteq> TREE_DEPTH then Err (''path has '' @ show_dec (length siblings) @ '' siblings, expected '' @ show_dec TREE_DEPTH)
         else if wallet_fold_path X cm siblings leaf_index \<noteq> root
         then Err (''leaf '' @ show_dec (unat leaf_index) @ '': the path does not fold to the stated root'')
         else let tx_binding = tx_binding_for X credit fee
              in bind_ok (lift_panic (authorize X k ots_index tx_binding)) (\<lambda>(sig, ots_path).
                 let witness = \<lparr>sw_in_note = in_note, sw_path = \<lparr>mp_siblings = siblings, mp_index = leaf_index\<rparr>, sw_sig = sig,
                                sw_ots_path = ots_path, sw_nk = wallet_nk X k, sw_out_note = out_note, sw_out2_note = out2_note,
                                sw_fee = fee, sw_tx_binding = tx_binding\<rparr>
                 in bind_ok (map_err statement_text (run X witness)) (\<lambda>public.
                    Ok \<lparr>pl_witness = witness, pl_public = public\<rparr>)))"

definition build_spend :: "'x hash_env_scheme \<Rightarrow> H256 list \<Rightarrow> u64 \<Rightarrow> Note \<Rightarrow> WalletKeys \<Rightarrow> u32 \<Rightarrow> Note \<Rightarrow> Note \<Rightarrow> u64 \<Rightarrow> H256 \<Rightarrow> (SpendPlan, string) outcome" where
  "build_spend X leaves leaf_index in_note k ots_index out_note out2_note fee credit =
     (let cm = commit_note X in_note
      in if \<not> (unat leaf_index < length leaves \<and> leaves ! unat leaf_index = cm)
         then Err (''leaf '' @ show_dec (unat leaf_index) @ '' is not this note's commitment'')
         else bind_ok (lift_panic (full_tree_path X leaves leaf_index)) (\<lambda>(siblings, root).
              build_spend_with_path X siblings root leaf_index in_note k ots_index out_note out2_note fee credit))"

end
