(* ===== verification/HK_Shield.thy ===== *)
theory HK_Shield
  imports HK_Wallet HK_Signer
begin

text \<open>
  The shielded side of the phone and desktop wallet (\<^verbatim>\<open>hk-wallet-core/src/shield.rs\<close>): the file with the master, the two reserved
  counters and the scan caches, the paged and incremental scan, the choice of an input note and the four flows up to what goes to the prover. The
  account is signed in and a recipient's address is decoded. The file's content is the record; its JSON text and its sealing are taken to be faithful. Writes
  go through \<open>write_atomic\<close>. What the node answers during one operation is a parameter; the second argument of \<open>nd_page\<close> is the cursor, the first
  tells the first pass from the one that starts again when the pool has shrunk. The hex codec is a parameter. As for the signer's file, the question whether the file exists is
  taken to be answered.
\<close>

record shield_env = kem_env +
  hx_encode :: "bytes \<Rightarrow> string"
  hx_decode :: "string \<Rightarrow> bytes option"

datatype ShieldError =
  BadHex string | NotThirtyTwoBytes string | ShieldWrite string | SpendTreeExhausted u32 | NodeFailed string | NoNoteCovers Amount
  | SealFailed | SpendPlanFailed string | FeeNotCovered Amount | NotEnough Amount Amount | TooLargeForNote

definition USD :: H256 where "USD = h256_of_bytes (replicate 32 9)"
definition OTS_CAPACITY :: u32 where "OTS_CAPACITY = 64"

record StoredNote =
  sn_leaf_index :: u64
  sn_commitment :: string
  sn_value :: u64
  sn_rho :: string
  sn_rcm :: string
  sn_memo :: string
  sn_spent :: bool

record ScanCache =
  ca_chain_id :: string
  ca_scanned_through :: u64
  ca_notes :: "StoredNote list"

record ShieldFile =
  sf_version :: u8
  sf_master_hex :: string
  sf_next_ots_index :: u32
  sf_next_note_tag :: u64
  sf_scan :: ScanCache
  sf_pools :: "string \<rightharpoonup> ScanCache"

definition cache_default :: ScanCache where
  "cache_default = \<lparr>ca_chain_id = [], ca_scanned_through = 0, ca_notes = []\<rparr>"

section \<open>Stored notes\<close>

definition from_discovered :: "'x shield_env_scheme \<Rightarrow> Discovered \<Rightarrow> StoredNote" where
  "from_discovered X d = \<lparr>sn_leaf_index = dc_leaf_index d, sn_commitment = hx_encode X (h256_bytes (dc_commitment d)), sn_value = nt_value (dc_note d),
     sn_rho = hx_encode X (h256_bytes (nt_rho (dc_note d))), sn_rcm = hx_encode X (h256_bytes (nt_rcm (dc_note d))),
     sn_memo = hx_encode X (dc_memo d), sn_spent = False\<rparr>"

definition h32 :: "'x shield_env_scheme \<Rightarrow> string \<Rightarrow> string \<Rightarrow> (H256, ShieldError) outcome" where
  "h32 X s what =
     (case hx_decode X s of None \<Rightarrow> Err (BadHex what)
      | Some b \<Rightarrow> if length b = 32 then Ok (h256_of_bytes b) else Err (NotThirtyTwoBytes what))"

definition to_discovered :: "'x shield_env_scheme \<Rightarrow> H256 \<Rightarrow> StoredNote \<Rightarrow> (Discovered, ShieldError) outcome" where
  "to_discovered X owner n =
     bind_ok (h32 X (sn_rho n) ''rho'') (\<lambda>rho.
     bind_ok (h32 X (sn_rcm n) ''rcm'') (\<lambda>rcm.
     bind_ok (h32 X (sn_commitment n) ''commitment'') (\<lambda>cm.
     Ok \<lparr>dc_note = \<lparr>nt_value = sn_value n, nt_owner = owner, nt_rho = rho, nt_rcm = rcm\<rparr>, dc_commitment = cm, dc_leaf_index = sn_leaf_index n,
         dc_memo = (case hx_decode X (sn_memo n) of Some b \<Rightarrow> b | None \<Rightarrow> [])\<rparr>)))"

text \<open>\<open>cache_mut\<close> as the value found, or the default, and the file with a new one.\<close>

definition cache_of :: "'x shield_env_scheme \<Rightarrow> ShieldFile \<Rightarrow> H256 \<Rightarrow> ScanCache" where
  "cache_of X f asset =
     (if asset = USD then sf_scan f
      else case sf_pools f (hx_encode X (h256_bytes asset)) of Some c \<Rightarrow> c | None \<Rightarrow> cache_default)"

definition with_cache :: "'x shield_env_scheme \<Rightarrow> ShieldFile \<Rightarrow> H256 \<Rightarrow> ScanCache \<Rightarrow> ShieldFile" where
  "with_cache X f asset c =
     (if asset = USD then f\<lparr>sf_scan := c\<rparr> else f\<lparr>sf_pools := (sf_pools f)(hx_encode X (h256_bytes asset) \<mapsto> c)\<rparr>)"

definition shield_keys :: "'x shield_env_scheme \<Rightarrow> ShieldFile \<Rightarrow> (WalletKeys, ShieldError) outcome" where
  "shield_keys X f = (case hx_decode X (sf_master_hex f) of Some m \<Rightarrow> Ok \<lparr>wk_master = m, wk_h = 6\<rparr> | None \<Rightarrow> Err (BadHex ''master''))"

section \<open>The pool feed\<close>

type_synonym Entry = "u64 \<times> H256 \<times> bytes"

record PoolNode =
  nd_chain_id :: "string option"
  nd_height :: "u64 option"
  nd_fee :: "Amount option"
  nd_balance :: "H256 \<Rightarrow> H256 \<Rightarrow> Amount option"
  nd_page :: "bool \<Rightarrow> u64 \<Rightarrow> (Entry list \<times> u64 option \<times> u64 option) option"
  nd_spent :: "H256 \<Rightarrow> bool option"
  nd_path :: "u64 \<Rightarrow> (H256 list \<times> H256) option"

text \<open>The node's side: \<open>pool_page\<close>, \<open>page_of\<close> and \<open>hk_getPoolNotes\<close> of \<^verbatim>\<open>hk-node/src/rpc.rs\<close>, and the page size the wallet asks for.\<close>

definition POOL_PAGE_MAX :: nat where "POOL_PAGE_MAX = 10000"
definition POOL_PAGE :: u64 where "POOL_PAGE = 2000"

definition rpc_pool_page :: "u64 option \<Rightarrow> u64 option \<Rightarrow> nat \<Rightarrow> nat \<times> nat \<times> nat option" where
  "rpc_pool_page from_p limit_p total_n =
     (let from_i = min (case from_p of Some i \<Rightarrow> unat i | None \<Rightarrow> 0) total_n;
          limit = (case limit_p of Some l \<Rightarrow> min (max (unat l) 1) POOL_PAGE_MAX | None \<Rightarrow> POOL_PAGE_MAX);
          to_i = min (from_i + limit) total_n
      in (from_i, to_i, if to_i < total_n then Some to_i else None))"

record 'a PoolPage =
  pp_from :: nat
  pp_to :: nat
  pp_total :: nat
  pp_next :: "nat option"
  pp_items :: "'a list"

definition page_of :: "(H256 \<times> bytes) list \<Rightarrow> u64 option \<Rightarrow> u64 option \<Rightarrow> (H256 \<times> bytes \<Rightarrow> 'a) \<Rightarrow> 'a PoolPage" where
  "page_of feed from_p limit_p project =
     (case rpc_pool_page from_p limit_p (length feed) of (from_i, to_i, next_i) \<Rightarrow>
        \<lparr>pp_from = from_i, pp_to = to_i, pp_total = length feed, pp_next = next_i, pp_items = map project (take (to_i - from_i) (drop from_i feed))\<rparr>)"

definition get_pool_notes :: "(H256 \<times> bytes) list \<Rightarrow> u64 option \<Rightarrow> u64 option \<Rightarrow> Entry list \<times> u64 option \<times> u64 option" where
  "get_pool_notes feed from_p limit_p =
     (let page = page_of feed from_p limit_p (\<lambda>e. e)
      in (map (\<lambda>(i, cm, ct). (of_nat (pp_from page + i), cm, ct)) (enumerate 0 (pp_items page)), map_option of_nat (pp_next page), Some (of_nat (pp_total page))))"

definition feed_total :: "u64 \<Rightarrow> Entry list \<Rightarrow> u64" where
  "feed_total from_i entries =
     (case entries of [] \<Rightarrow> max from_i from_i | e # es \<Rightarrow> max (foldl max (fst e + 1) (map (\<lambda>e. fst e + 1) es)) from_i)"

function pool_notes_loop :: "PoolNode \<Rightarrow> bool \<Rightarrow> u64 \<Rightarrow> u64 \<Rightarrow> Entry list \<Rightarrow> (Entry list \<times> u64, ShieldError) outcome" where
  "pool_notes_loop nd pass from_i cursor entries =
     (case nd_page nd pass cursor of
        None \<Rightarrow> Err (NodeFailed ''hk_getPoolNotes'')
      | Some (page, next_i, tot) \<Rightarrow>
          let entries1 = entries @ filter (\<lambda>e. from_i \<le> fst e) page
          in if (case next_i of Some n \<Rightarrow> n > cursor | None \<Rightarrow> False) then pool_notes_loop nd pass from_i (the next_i) entries1
             else Ok (entries1, (case tot of Some t \<Rightarrow> t | None \<Rightarrow> feed_total from_i entries1)))"
  by pat_completeness auto
termination
proof (relation "measure (\<lambda>(nd, pass, from_i, cursor, entries). 2 ^ 64 - unat (cursor :: u64))", simp)
  fix nd pass from_i cursor entries x page z next_i tot entries1
  assume "case next_i of Some n \<Rightarrow> n > (cursor :: u64) | None \<Rightarrow> False"
  then have "unat cursor < unat (the next_i)" by (auto simp: word_less_nat_alt split: option.splits)
  moreover have "unat (the next_i) < 2 ^ 64" using unsigned_less [of "the next_i", where ?'a = nat] by simp
  ultimately show "((nd, pass, from_i, the next_i, entries1), nd, pass, from_i, cursor, entries)
      \<in> measure (\<lambda>(nd, pass, from_i, cursor, entries). 2 ^ 64 - unat (cursor :: u64))"
    unfolding in_measure prod.case by linarith
qed

definition pool_notes_from :: "PoolNode \<Rightarrow> bool \<Rightarrow> u64 \<Rightarrow> (Entry list \<times> u64, ShieldError) outcome" where
  "pool_notes_from nd pass from_i = pool_notes_loop nd pass from_i from_i []"

definition nullifier_spent :: "PoolNode \<Rightarrow> H256 \<Rightarrow> bool" where
  "nullifier_spent nd nf = (case nd_spent nd nf of Some b \<Rightarrow> b | None \<Rightarrow> False)"

section \<open>The file\<close>

definition save_shield :: "WriteStep option \<Rightarrow> ShieldFile \<Rightarrow> ShieldFile FileState \<Rightarrow> (unit, ShieldError) outcome \<times> ShieldFile FileState" where
  "save_shield fault f disk = (case write_atomic fault f disk of (r, disk1) \<Rightarrow> (map_err ShieldWrite r, disk1))"

definition load_or_create_shield :: "'x shield_env_scheme \<Rightarrow> WriteStep option \<Rightarrow> bytes \<Rightarrow> ShieldFile FileState
    \<Rightarrow> (ShieldFile, ShieldError) outcome \<times> ShieldFile FileState" where
  "load_or_create_shield X fault fresh disk =
     (case fs_seen disk of
        Some f \<Rightarrow> (Ok f, disk)
      | None \<Rightarrow>
          let f = \<lparr>sf_version = 1, sf_master_hex = hx_encode X fresh, sf_next_ots_index = 0, sf_next_note_tag = 1,
                   sf_scan = cache_default, sf_pools = Map.empty\<rparr>
          in case save_shield fault f disk of (r, disk1) \<Rightarrow> (bind_ok r (\<lambda>_. Ok f), disk1))"

definition reserve_ots :: "WriteStep option \<Rightarrow> ShieldFile \<Rightarrow> ShieldFile FileState \<Rightarrow> (u32, ShieldError) outcome \<times> ShieldFile \<times> ShieldFile FileState" where
  "reserve_ots fault f disk =
     (let i = sf_next_ots_index f
      in if i \<ge> OTS_CAPACITY then (Err (SpendTreeExhausted i), f, disk)
         else let f1 = f\<lparr>sf_next_ots_index := i + 1\<rparr>
              in case save_shield fault f1 disk of (r, disk1) \<Rightarrow> (bind_ok r (\<lambda>_. Ok i), f1, disk1))"

definition reserve_tag :: "WriteStep option \<Rightarrow> ShieldFile \<Rightarrow> ShieldFile FileState \<Rightarrow> (u64, ShieldError) outcome \<times> ShieldFile \<times> ShieldFile FileState" where
  "reserve_tag fault f disk =
     (let t = sf_next_note_tag f; f1 = f\<lparr>sf_next_note_tag := t + 1\<rparr>
      in case save_shield fault f1 disk of (r, disk1) \<Rightarrow> (bind_ok r (\<lambda>_. Ok t), f1, disk1))"

section \<open>The incremental scan\<close>

definition push_found :: "'x shield_env_scheme \<Rightarrow> Discovered \<Rightarrow> StoredNote list \<Rightarrow> StoredNote list" where
  "push_found X d ns = (if list_ex (\<lambda>n. sn_leaf_index n = dc_leaf_index d) ns then ns else ns @ [from_discovered X d])"

fun scan_epochs :: "'x shield_env_scheme \<Rightarrow> WalletKeys \<Rightarrow> Entry list \<Rightarrow> u64 list \<Rightarrow> StoredNote list \<Rightarrow> (StoredNote list, ShieldError) outcome" where
  "scan_epochs X k entries [] ns = Ok ns"
| "scan_epochs X k entries (e # es) ns =
     (case scan_at X k e entries of
        Ok ds \<Rightarrow> scan_epochs X k entries es (for_each ds (push_found X) ns)
      | _ \<Rightarrow> Panic)"

definition epochs_to :: "u64 \<Rightarrow> u64 list" where
  "epochs_to cur = map of_nat [0..<Suc (unat cur)]"

fun mark_spent :: "'x shield_env_scheme \<Rightarrow> PoolNode \<Rightarrow> H256 \<Rightarrow> H256 \<Rightarrow> StoredNote list \<Rightarrow> ((Discovered \<times> bool) list \<times> StoredNote list, ShieldError) outcome" where
  "mark_spent X nd nk owner [] = Ok ([], [])"
| "mark_spent X nd nk owner (n # ns) =
     bind_ok (to_discovered X owner n) (\<lambda>d.
       let n1 = (if \<not> sn_spent n \<and> nullifier_spent nd (nullifier X nk (nt_rho (dc_note d))) then n\<lparr>sn_spent := True\<rparr> else n)
       in bind_ok (mark_spent X nd nk owner ns) (\<lambda>(out, ns1). Ok ((d, sn_spent n1) # out, n1 # ns1)))"

definition cache_for_chain :: "PoolNode \<Rightarrow> ScanCache \<Rightarrow> ScanCache" where
  "cache_for_chain nd c =
     (let chain_id = (case nd_chain_id nd of Some i \<Rightarrow> i | None \<Rightarrow> [])
      in if ca_chain_id c \<noteq> chain_id then cache_default\<lparr>ca_chain_id := chain_id\<rparr> else c)"

text \<open>The flag tells that the pool has shrunk and the cache was dropped.\<close>

definition fetch_new :: "PoolNode \<Rightarrow> ScanCache \<Rightarrow> (bool \<times> ScanCache \<times> Entry list \<times> u64, ShieldError) outcome" where
  "fetch_new nd c =
     bind_ok (pool_notes_from nd False (ca_scanned_through c)) (\<lambda>(entries, tot).
       if tot < ca_scanned_through c
       then bind_ok (pool_notes_from nd True 0) (\<lambda>(entries1, tot1). Ok (True, cache_default\<lparr>ca_chain_id := ca_chain_id c\<rparr>, entries1, tot1))
       else Ok (False, c, entries, tot))"

definition scan_new :: "'x shield_env_scheme \<Rightarrow> PoolNode \<Rightarrow> WalletKeys \<Rightarrow> Entry list \<Rightarrow> StoredNote list \<Rightarrow> (StoredNote list, ShieldError) outcome" where
  "scan_new X nd k entries ns =
     (if entries = [] then Ok ns
      else case nd_height nd of
             None \<Rightarrow> Err (NodeFailed ''height'')
           | Some h \<Rightarrow> scan_epochs X k entries (epochs_to (epoch_of h)) ns)"

text \<open>What the wallet holds, and the cache after the scan. It is written when it changed: a new chain, a new note, a new cursor or a note found spent
  all show in the cache, a dropped one by the flag. After an error the caller drops the record.\<close>

definition scan_cache :: "'x shield_env_scheme \<Rightarrow> PoolNode \<Rightarrow> WalletKeys \<Rightarrow> ScanCache \<Rightarrow> ((Discovered \<times> bool) list \<times> ScanCache \<times> bool, ShieldError) outcome" where
  "scan_cache X nd k c0 =
     bind_ok (fetch_new nd (cache_for_chain nd c0)) (\<lambda>(shrunk, c, entries, tot).
     bind_ok (scan_new X nd k entries (ca_notes c)) (\<lambda>ns.
     let through = (if tot > ca_scanned_through c then tot else ca_scanned_through c)
     in case owner_tag X k of
          Ok owner \<Rightarrow> bind_ok (mark_spent X nd (wallet_nk X k) owner ns) (\<lambda>(out, ns1).
            Ok (out, c\<lparr>ca_scanned_through := through, ca_notes := ns1\<rparr>, shrunk))
        | _ \<Rightarrow> Panic))"

definition my_notes :: "'x shield_env_scheme \<Rightarrow> WriteStep option \<Rightarrow> PoolNode \<Rightarrow> WalletKeys \<Rightarrow> H256 \<Rightarrow> ShieldFile \<Rightarrow> ShieldFile FileState
    \<Rightarrow> ((Discovered \<times> bool) list, ShieldError) outcome \<times> ShieldFile \<times> ShieldFile FileState" where
  "my_notes X fault nd k asset f disk =
     (case scan_cache X nd k (cache_of X f asset) of
        Ok (out, c, shrunk) \<Rightarrow>
          let f1 = with_cache X f asset c
          in if shrunk \<or> c \<noteq> cache_of X f asset
             then (case save_shield fault f1 disk of (r, disk1) \<Rightarrow> (bind_ok r (\<lambda>_. Ok out), f1, disk1))
             else (Ok out, f1, disk)
      | Err e \<Rightarrow> (Err e, f, disk)
      | Panic \<Rightarrow> (Panic, f, disk))"

section \<open>Spending\<close>

definition pick_note :: "(Discovered \<times> bool) list \<Rightarrow> Amount \<Rightarrow> (Discovered, ShieldError) outcome" where
  "pick_note ns amt =
     (case sort_key (\<lambda>d. nt_value (dc_note d)) (map fst (filter (\<lambda>(d, spent). \<not> spent \<and> unat amt \<le> unat (nt_value (dc_note d))) ns)) of
        [] \<Rightarrow> Err (NoNoteCovers amt)
      | d # _ \<Rightarrow> Ok d)"

text \<open>What one operation gets from outside: the outcome of its four writes and its randomness.\<close>

record SpendInput =
  si_node :: PoolNode
  si_fault_create :: "WriteStep option"
  si_fault_scan :: "WriteStep option"
  si_fault_tag :: "WriteStep option"
  si_fault_ots :: "WriteStep option"
  si_fresh :: bytes
  si_coin :: bytes
  si_out_coin :: bytes
  si_out_entropy :: bytes
  si_dummy :: "H256 \<times> H256"

definition require_fee :: "PoolNode \<Rightarrow> H256 \<Rightarrow> (Amount, ShieldError) outcome" where
  "require_fee nd account =
     bind_ok (ok_or (nd_fee nd) (NodeFailed ''chain_info'')) (\<lambda>fee.
     bind_ok (ok_or (nd_balance nd account USD) (NodeFailed ''balance'')) (\<lambda>bal.
       if bal < fee then Err (FeeNotCovered fee) else Ok fee))"

definition keep_file :: "('a, 'e) outcome \<times> 'f \<times> 'd \<Rightarrow> ('a \<times> 'f, 'e) outcome \<times> 'd" where
  "keep_file m = (case m of (r, f, d) \<Rightarrow> (bind_ok r (\<lambda>x. Ok (x, f)), d))"

definition panic_of :: "('a, unit) outcome \<Rightarrow> ('a, ShieldError) outcome" where
  "panic_of r = (case r of Ok x \<Rightarrow> Ok x | _ \<Rightarrow> Panic)"

definition dummy_note :: "H256 \<times> H256 \<Rightarrow> Note" where
  "dummy_note r = \<lparr>nt_value = 0, nt_owner = 0, nt_rho = fst r, nt_rcm = snd r\<rparr>"

text \<open>The notes of the wallet and the one picked, as both flows begin.\<close>

definition open_input :: "'x shield_env_scheme \<Rightarrow> SpendInput \<Rightarrow> H256 \<Rightarrow> H256 \<Rightarrow> Amount \<Rightarrow> ShieldFile FileState
    \<Rightarrow> (Discovered \<times> WalletKeys \<times> ShieldFile, ShieldError, ShieldFile FileState) step" where
  "open_input X i account asset amt disk =
     try_rw (load_or_create_shield X (si_fault_create i) (si_fresh i) disk) (\<lambda>f disk.
     try_ro (shield_keys X f) disk (\<lambda>k.
     try_ro (require_fee (si_node i) account) disk (\<lambda>_.
     try_rw (keep_file (my_notes X (si_fault_scan i) (si_node i) k asset f disk)) (\<lambda>(ns, f) disk.
     try_ro (pick_note ns amt) disk (\<lambda>d. (Ok (d, k, f), disk))))))"

text \<open>Path, tag, leaf, change and plan, as both flows end; \<open>mk\<close> places the outputs.\<close>

definition spend_input :: "'x shield_env_scheme \<Rightarrow> SpendInput \<Rightarrow> Amount \<Rightarrow> (Note \<Rightarrow> Note \<times> Note) \<Rightarrow> u64 \<Rightarrow> H256 \<Rightarrow> Discovered \<times> WalletKeys \<times> ShieldFile \<Rightarrow> ShieldFile FileState
    \<Rightarrow> (u32 \<times> SpendPlan, ShieldError, ShieldFile FileState) step" where
  "spend_input X i amt mk fee credit inp disk =
     (case inp of (d, k, f) \<Rightarrow>
        let change_v = nt_value (dc_note d) - ucast amt
        in try_ro (ok_or (nd_path (si_node i) (dc_leaf_index d)) (NodeFailed ''hk_getPoolPath'')) disk (\<lambda>(siblings, root).
           try_rw (keep_file (reserve_tag (si_fault_tag i) f disk)) (\<lambda>(tag, f) disk.
           try_rw (keep_file (reserve_ots (si_fault_ots i) f disk)) (\<lambda>(ots, f) disk.
           try_ro (panic_of (self_note X k change_v tag)) disk (\<lambda>change.
           try_ro (ok_or (nd_height (si_node i)) (NodeFailed ''height'')) disk (\<lambda>h.
           try_ro (panic_of (address_at X k (epoch_of h))) disk (\<lambda>a.
           try_ro (ok_or (seal_note X change a (si_coin i) (str_bytes ''change'')) SealFailed) disk (\<lambda>_.
           case mk change of (o1, o2) \<Rightarrow>
             try_ro (map_err SpendPlanFailed (build_spend_with_path X siblings root (dc_leaf_index d) (dc_note d) k ots o1 o2 fee credit)) disk (\<lambda>plan.
               (Ok (ots, plan), disk))))))))))"

definition unshield_plan :: "'x shield_env_scheme \<Rightarrow> SpendInput \<Rightarrow> H256 \<Rightarrow> H256 \<Rightarrow> Amount \<Rightarrow> ShieldFile FileState \<Rightarrow> (u32 \<times> SpendPlan, ShieldError, ShieldFile FileState) step" where
  "unshield_plan X i account asset amt disk =
     try_rw (open_input X i account asset amt disk) (\<lambda>inp disk.
       spend_input X i amt (\<lambda>change. (change, dummy_note (si_dummy i))) (ucast amt) account inp disk)"

definition pay_plan :: "'x shield_env_scheme \<Rightarrow> SpendInput \<Rightarrow> H256 \<Rightarrow> H256 \<Rightarrow> Amount \<Rightarrow> StealthAddress \<Rightarrow> bytes \<Rightarrow> ShieldFile FileState \<Rightarrow> (u32 \<times> SpendPlan, ShieldError, ShieldFile FileState) step" where
  "pay_plan X i account asset amt to_a memo disk =
     try_rw (open_input X i account asset amt disk) (\<lambda>inp disk.
     try_ro (ok_or (build_output X to_a (ucast amt) (si_out_coin i) (si_out_entropy i) memo) SealFailed) disk (\<lambda>out.
       spend_input X i amt (\<lambda>change. (so_note out, change)) 0 0 inp disk))"

definition do_scan :: "'x shield_env_scheme \<Rightarrow> SpendInput \<Rightarrow> H256 \<Rightarrow> ShieldFile FileState
    \<Rightarrow> ((Discovered \<times> bool) list \<times> StealthAddress \<times> u64 \<times> u64 \<times> u32, ShieldError, ShieldFile FileState) step" where
  "do_scan X i asset disk =
     try_rw (load_or_create_shield X (si_fault_create i) (si_fresh i) disk) (\<lambda>f disk.
     try_ro (shield_keys X f) disk (\<lambda>k.
     try_ro (ok_or (nd_height (si_node i)) (NodeFailed ''height'')) disk (\<lambda>h.
     try_ro (panic_of (address_at X k (epoch_of h))) disk (\<lambda>a.
     let before = ca_scanned_through (cache_of X f asset)
     in try_rw (keep_file (my_notes X (si_fault_scan i) (si_node i) k asset f disk)) (\<lambda>(ns, f) disk.
        let pool_size = ca_scanned_through (cache_of X f asset)
        in (Ok (ns, a, saturating_sub pool_size before, pool_size, sf_next_ots_index f), disk))))))"

definition shield_funds :: "PoolNode \<Rightarrow> H256 \<Rightarrow> H256 \<Rightarrow> Amount \<Rightarrow> (unit, ShieldError) outcome" where
  "shield_funds nd account asset amt =
     bind_ok (ok_or (nd_fee nd) (NodeFailed ''chain_info'')) (\<lambda>fee.
       if asset = USD
       then bind_ok (ok_or (nd_balance nd account USD) (NodeFailed ''balance'')) (\<lambda>bal.
              if saturating_add amt fee > bal then Err (NotEnough amt bal) else Ok ())
       else bind_ok (require_fee nd account) (\<lambda>_.
            bind_ok (ok_or (nd_balance nd account asset) (NodeFailed ''balance'')) (\<lambda>bal.
              if amt > bal then Err (NotEnough amt bal) else Ok ())))"

definition shield_plan :: "'x shield_env_scheme \<Rightarrow> SpendInput \<Rightarrow> H256 \<Rightarrow> H256 \<Rightarrow> Amount \<Rightarrow> ShieldFile FileState
    \<Rightarrow> (u64 \<times> (MintWitness \<times> MintPublic) \<times> bytes, ShieldError, ShieldFile FileState) step" where
  "shield_plan X i account asset amt disk =
     try_rw (load_or_create_shield X (si_fault_create i) (si_fresh i) disk) (\<lambda>f disk.
     try_ro (shield_keys X f) disk (\<lambda>k.
     try_ro (shield_funds (si_node i) account asset amt) disk (\<lambda>_.
     try_ro (if unat amt > unat (- 1 :: u64) then Err TooLargeForNote else Ok ()) disk (\<lambda>_.
     try_rw (keep_file (reserve_tag (si_fault_tag i) f disk)) (\<lambda>(tag, f) disk.
     try_ro (panic_of (self_note X k (ucast amt) tag)) disk (\<lambda>n.
     try_ro (ok_or (nd_height (si_node i)) (NodeFailed ''height'')) disk (\<lambda>h.
     try_ro (panic_of (address_at X k (epoch_of h))) disk (\<lambda>a.
     try_ro (ok_or (seal_note X n a (si_coin i) (str_bytes ''shield'')) SealFailed) disk (\<lambda>(ct, _).
       (Ok (tag, build_mint X n, ct), disk))))))))))"

end
