(* ===== verification/HK_Payments.thy ===== *)
theory HK_Payments
  imports HK_Wallet
begin

text \<open>
  What the shielded wallet promises: a payment sealed for an address is found by the scanner of that address and by a viewing key of
  its epoch, whatever else is on the chain; the note found can be spent against the root the chain keeps; a disclosure package built
  from the chain verifies and cannot tell another amount. Correctness of the key encapsulation is assumed for the one encapsulation
  at hand, as FIPS 203 states it up to a negligible failure rate, and the extendable output function is assumed to have the length asked for.
\<close>

definition xof_law :: "'x hash_env_scheme \<Rightarrow> bool" where
  "xof_law X \<longleftrightarrow> (\<forall>bs n. length (xof256 X bs n) = n)"

definition kem_correct :: "'x kem_env_scheme \<Rightarrow> NoteKem \<Rightarrow> bytes \<Rightarrow> bool" where
  "kem_correct X seed coin \<longleftrightarrow> length (ek_of_seed X seed) = EK_LEN \<and> ek_valid X (ek_of_seed X seed)
     \<and> (case encapsulate_deterministic X (ek_of_seed X seed) coin of (ct, ss) \<Rightarrow> length ct = CT_LEN \<and> dk_decapsulate X seed ct = ss)"

lemma kem_correctD:
  assumes "kem_correct X seed coin"
  shows "\<exists>ct ss. kem_encaps X (kem_public X seed) coin = Some (ct, ss) \<and> length ct = CT_LEN \<and> kem_decaps X seed ct = Some ss"
  using assms by (auto simp: kem_correct_def kem_encaps_def kem_decaps_def kem_public_def split: prod.splits)

lemma kem_encaps_decaps:
  assumes "kem_correct X seed coin" and "kem_encaps X (kem_public X seed) coin = Some (ct, ss)"
  shows "length ct = CT_LEN" and "kem_decaps X seed ct = Some ss"
  using kem_correctD [OF assms(1)] assms(2) by auto

section \<open>The note cipher\<close>

lemma length_xor_stream: "xof_law X \<Longrightarrow> length (xor_stream X key nonce data) = length data"
  by (simp add: xor_stream_def xof_law_def)

lemma xor_stream_involution: "xof_law X \<Longrightarrow> xor_stream X key nonce (xor_stream X key nonce data) = data"
  by (rule nth_equalityI) (simp_all add: length_xor_stream, simp add: xor_stream_def xof_law_def xor.assoc)

lemma or_eq_0_iff: "(a :: u8) OR b = 0 \<longleftrightarrow> a = 0 \<and> b = 0"
  by (metis or.right_neutral or.left_neutral bit_or_iff bit_0_eq bot_apply bot_bool_def bit_eq_iff)

lemma xor_eq_0_iff: "(a :: u8) XOR b = 0 \<longleftrightarrow> a = b"
  by (metis xor.assoc xor.right_neutral xor_self_eq xor.left_neutral)

lemma foldl_or_eq_0: "foldl (\<lambda>d (a, b). d OR (a XOR b)) acc ps = (0 :: u8) \<longleftrightarrow> acc = 0 \<and> (\<forall>(a, b) \<in> set ps. a = b)"
  by (induction ps arbitrary: acc) (auto simp: or_eq_0_iff xor_eq_0_iff)

lemma tag_diff_0_iff: "length a = length b \<Longrightarrow> tag_diff a b = 0 \<longleftrightarrow> a = b"
  unfolding tag_diff_def foldl_or_eq_0 by (induction a b rule: list_induct2) auto

lemma length_note_mac [simp]: "length (note_mac X key nonce ct) = TAG_LEN"
  by (simp add: note_mac_def TAG_LEN_def)

lemma note_open_seal:
  assumes "xof_law X"
  shows "note_open X key nonce (note_seal X key nonce pt) = Some pt"
  using assms by (simp add: note_open_def note_seal_def Let_def tag_diff_0_iff xor_stream_involution)

lemma note_open_Some_iff:
  assumes "xof_law X"
  shows "note_open X key nonce c = Some pt \<longleftrightarrow> c = note_seal X key nonce pt"
proof
  assume o: "note_open X key nonce c = Some pt"
  let ?n = "length c - TAG_LEN"
  have "TAG_LEN \<le> length c" using o by (auto simp: note_open_def split: if_splits)
  then have "length (drop ?n c) = length (note_mac X key nonce (take ?n c))" by simp
  with o have "drop ?n c = note_mac X key nonce (take ?n c)" "pt = xor_stream X key nonce (take ?n c)"
    by (auto simp: note_open_def Let_def tag_diff_0_iff split: if_splits)
  then show "c = note_seal X key nonce pt"
    by (simp add: note_seal_def Let_def xor_stream_involution [OF assms]) (metis append_take_drop_id)
qed (simp add: note_open_seal [OF assms])

lemma decode_encode_note_pt: "decode_note_pt (encode_note_pt value rho rcm memo) = Some (value, rho, rcm, memo)"
  by (simp add: decode_note_pt_def encode_note_pt_def u64_le_def le_value_le_bytes)

lemma length_encode_note_pt: "length (encode_note_pt value rho rcm memo) = 72 + length memo"
  by (simp add: encode_note_pt_def u64_le_def)

section \<open>Outputs and the scanner\<close>

lemma build_output_SomeE:
  assumes "build_output X a value coin entropy memo = Some out"
  obtains ct ss where "kem_encaps X (sa_kem_pk a) coin = Some (ct, ss)"
    "so_commitment out = commit_note X (so_note out)" "so_note_key out = note_key X ss (so_commitment out)"
    "so_stealth_ct out = ct @ note_seal X (so_note_key out) (so_commitment out) (encode_note_pt value (nt_rho (so_note out)) (nt_rcm (so_note out)) memo)"
    "nt_value (so_note out) = value" "nt_owner (so_note out) = sa_tag a"
  using assms by (auto simp: build_output_def seal_note_def Let_def split: option.splits)

lemma note_eta: "\<lparr>nt_value = nt_value n, nt_owner = nt_owner n, nt_rho = nt_rho n, nt_rcm = nt_rcm n\<rparr> = (n :: Note)"
  by simp

lemma scan_one_output:
  assumes "xof_law X" and "kem_correct X seed coin" and "sa_kem_pk a = kem_public X seed"
    and "build_output X a value coin entropy memo = Some out"
  shows "scan_one X seed (sa_tag a) (i, so_commitment out, so_stealth_ct out)
      = Some \<lparr>dc_note = so_note out, dc_commitment = so_commitment out, dc_leaf_index = i, dc_memo = memo\<rparr>"
    and "kem_decaps X seed (take CT_LEN (so_stealth_ct out)) = Some ss \<Longrightarrow> note_key X ss (so_commitment out) = so_note_key out"
    and "CT_LEN + TAG_LEN \<le> length (so_stealth_ct out)"
    and "drop CT_LEN (so_stealth_ct out)
      = note_seal X (so_note_key out) (so_commitment out) (encode_note_pt value (nt_rho (so_note out)) (nt_rcm (so_note out)) memo)"
    and "\<exists>ss. kem_decaps X seed (take CT_LEN (so_stealth_ct out)) = Some ss"
proof -
  obtain ct ss where o: "kem_encaps X (sa_kem_pk a) coin = Some (ct, ss)"
    "so_commitment out = commit_note X (so_note out)" "so_note_key out = note_key X ss (so_commitment out)"
    "so_stealth_ct out = ct @ note_seal X (so_note_key out) (so_commitment out) (encode_note_pt value (nt_rho (so_note out)) (nt_rcm (so_note out)) memo)"
    "nt_value (so_note out) = value" "nt_owner (so_note out) = sa_tag a"
    using assms(4) by (rule build_output_SomeE)
  have k: "length ct = CT_LEN" "kem_decaps X seed ct = Some ss" using kem_encaps_decaps [OF assms(2)] o(1) assms(3) by simp_all
  have l: "TAG_LEN \<le> length (note_seal X (so_note_key out) (so_commitment out) pt)" for pt by (simp add: note_seal_def Let_def)
  have n: "\<lparr>nt_value = value, nt_owner = sa_tag a, nt_rho = nt_rho (so_note out), nt_rcm = nt_rcm (so_note out)\<rparr> = so_note out"
    using note_eta [of "so_note out"] o(5,6) by simp
  show "scan_one X seed (sa_tag a) (i, so_commitment out, so_stealth_ct out)
      = Some \<lparr>dc_note = so_note out, dc_commitment = so_commitment out, dc_leaf_index = i, dc_memo = memo\<rparr>"
    using k l o(2,3) by (simp add: scan_one_def o(4) note_open_seal [OF assms(1)] decode_encode_note_pt n not_less Let_def flip: o(3))
  show "kem_decaps X seed (take CT_LEN (so_stealth_ct out)) = Some ss' \<Longrightarrow> note_key X ss' (so_commitment out) = so_note_key out" for ss'
    using k by (simp add: o(3) o(4))
  show "CT_LEN + TAG_LEN \<le> length (so_stealth_ct out)" using k l by (simp add: o(4))
  show "drop CT_LEN (so_stealth_ct out)
      = note_seal X (so_note_key out) (so_commitment out) (encode_note_pt value (nt_rho (so_note out)) (nt_rcm (so_note out)) memo)"
    using k by (simp add: o(4))
  show "\<exists>ss. kem_decaps X seed (take CT_LEN (so_stealth_ct out)) = Some ss" using k by (simp add: o(4))
qed

lemma scan_core_set:
  "d \<in> set (scan_core X kem tag entries) \<longleftrightarrow> (\<exists>e \<in> set entries. scan_one X kem tag e = Some d)"
  unfolding scan_core_def by (induction entries) (auto simp: List.map_filter_simps split: option.splits)

lemma scan_one_sound:
  assumes "scan_one X kem tag (i, cm, ct) = Some d"
  shows "dc_commitment d = cm \<and> dc_leaf_index d = i \<and> commit_note X (dc_note d) = cm \<and> nt_owner (dc_note d) = tag"
  using assms by (auto simp: scan_one_def Let_def split: if_splits option.splits)

lemma scan_core_sound:
  assumes "d \<in> set (scan_core X kem tag entries)"
  shows "\<exists>ct. (dc_leaf_index d, dc_commitment d, ct) \<in> set entries \<and> commit_note X (dc_note d) = dc_commitment d \<and> nt_owner (dc_note d) = tag"
proof -
  from assms obtain i cm ct where e: "(i, cm, ct) \<in> set entries" "scan_one X kem tag (i, cm, ct) = Some d"
    unfolding scan_core_set by (metis prod_cases3)
  with scan_one_sound [OF e(2)] show ?thesis by auto
qed

lemma ivk_scans_as_wallet:
  assumes "xof_law X"
  shows "(case ivk X k epoch of Ok v \<Rightarrow> Ok (scan_with_ivk X v entries) | Err e \<Rightarrow> Err e | Panic \<Rightarrow> Panic) = scan_at X k epoch entries"
  using assms
  by (cases "owner_tag X k")
    (simp_all add: ivk_def scan_with_ivk_def scan_at_def kem_at_def kem_from_master_def kem_from_seed_bytes_def shake256_n_def xof_law_def)

lemma address_of_wallet:
  assumes "unat (wk_h k) \<le> SPEND_TREE_DEPTH"
  shows "\<exists>root. spend_root X (wk_master k) (wk_h k) = Ok root \<and> owner_tag X k = Ok (address_tag X root (wallet_nk X k))
    \<and> address_at X k epoch = Ok \<lparr>sa_tag = address_tag X root (wallet_nk X k), sa_kem_pk = kem_public X (kem_at X k epoch)\<rparr>"
  using spend_auth_recovers [OF assms, of 0 X "wk_master k" 0] by (auto simp: owner_tag_def address_at_def)

lemma wallet_spend_runs:
  assumes "length leaves \<le> 2 ^ 32 - 1" and "unat i < length leaves" and "leaves ! unat i = commit_note X n"
    and "unat (wk_h k) \<le> SPEND_TREE_DEPTH" and "unat ots_index < 2 ^ unat (wk_h k)" and "owner_tag X k = Ok (nt_owner n)"
    and "unat (nt_value n) = unat (nt_value pay) + unat (nt_value change) + unat fee"
  shows "\<exists>plan. build_spend X leaves i n k ots_index pay change fee credit = Ok plan
    \<and> run X (pl_witness plan) = Ok (pl_public plan)
    \<and> pl_public plan = \<lparr>sp_merkle_root = inc_root X (for_each leaves (\<lambda>leaf t. snd (inc_append X t leaf)) (inc_new X)),
         sp_nullifier = nullifier X (wallet_nk X k) (nt_rho n), sp_out_commitment = commit_note X pay,
         sp_out2_commitment = commit_note X change, sp_fee = fee, sp_tx_binding = tx_binding_for X credit fee\<rparr>"
proof -
  let ?b = "tx_binding_for X credit fee"
  have "length leaves \<le> 2 ^ TREE_DEPTH" using assms(1) by (simp add: TREE_DEPTH_def)
  from full_tree_path_folds [OF assms(2) this, of X] assms(3) obtain sibs
    where path: "full_tree_path X leaves i = Ok (sibs, full_root X leaves)" "length sibs = TREE_DEPTH"
      "fold_path (merkle_node X) sibs 0 i (commit_note X n) = full_root X leaves" by auto
  from spend_auth_recovers [OF assms(4,5), of X "wk_master k" ?b] obtain sig ots root leaf
    where auth: "spend_auth X (wk_master k) (wk_h k) ots_index ?b = Ok (sig, ots)" "spend_root X (wk_master k) (wk_h k) = Ok root"
      "length (mp_siblings ots) = SPEND_TREE_DEPTH" "wots_recover_owner X (ws_sig sig) ?b = Some leaf"
      "fold_path (ots_node X) (mp_siblings ots) 0 (mp_index ots) leaf = root" by blast
  have own: "nt_owner n = address_tag X root (wallet_nk X k)" using assms(6) by (simp add: owner_tag_def auth(2))
  define w where "w = \<lparr>sw_in_note = n, sw_path = \<lparr>mp_siblings = sibs, mp_index = i\<rparr>, sw_sig = sig, sw_ots_path = ots,
    sw_nk = wallet_nk X k, sw_out_note = pay, sw_out2_note = change, sw_fee = fee, sw_tx_binding = ?b\<rparr>"
  have r: "run X w = Ok (spend_public X w)"
    unfolding run_Ok_iff spend_valid_def w_def using path auth own assms(7) by auto
  then have "build_spend X leaves i n k ots_index pay change fee credit = Ok \<lparr>pl_witness = w, pl_public = spend_public X w\<rparr>"
    using assms(2,3) path auth(1)
    by (simp add: build_spend_def build_spend_with_path_def wallet_fold_path_def authorize_def lift_panic_def Let_def flip: w_def)
  moreover have "sp_merkle_root (spend_public X w) = full_root X leaves" by (simp add: spend_public_def w_def path(3))
  ultimately show ?thesis
    using r path(3) by (auto simp: spend_public_def w_def pool_tree.build_root [OF assms(1)])
qed

lemma verify_disclosure_Ok:
  assumes "verify_disclosure X p = Ok d"
  shows "commit_note X \<lparr>nt_value = pay_value d, nt_owner = pay_owner_tag d, nt_rho = pay_rho d, nt_rcm = pay_rcm d\<rparr> = dp_commitment p
    \<and> wallet_fold_path X (dp_commitment p) (dp_siblings p) (dp_leaf_index p) = dp_anchor p
    \<and> length (dp_siblings p) = TREE_DEPTH \<and> pay_anchor d = dp_anchor p \<and> pay_leaf_index d = dp_leaf_index p
    \<and> pay_owner_tag d = dp_owner_tag p \<and> pay_commitment d = dp_commitment p"
  using assms
  by (auto simp: verify_disclosure_def ok_or_def split: if_splits option.splits)

text \<open>Two paths of one index from different leaves to one root run into each other: the first level at which they hash different pairs to the same node.\<close>

definition path_pair :: "u64 \<Rightarrow> nat \<Rightarrow> H256 \<Rightarrow> H256 \<Rightarrow> H256 \<times> H256" where
  "path_pair idx level sib cur = (if drop_bit level idx AND 1 = 1 then (sib, cur) else (cur, sib))"

fun path_clash :: "node_hash \<Rightarrow> H256 list \<Rightarrow> H256 list \<Rightarrow> nat \<Rightarrow> u64 \<Rightarrow> H256 \<Rightarrow> H256 \<Rightarrow> ((H256 \<times> H256) \<times> (H256 \<times> H256)) option" where
  "path_clash node (a # as) (b # bs) level idx cur1 cur2 =
     (let x = path_pair idx level a cur1; y = path_pair idx level b cur2
      in if x \<noteq> y \<and> node (fst x) (snd x) = node (fst y) (snd y) then Some (x, y)
         else path_clash node as bs (Suc level) idx (node (fst x) (snd x)) (node (fst y) (snd y)))"
| "path_clash node _ _ level idx cur1 cur2 = None"

lemma fold_path_pair:
  "fold_path node (a # as) level idx cur = fold_path node as (Suc level) idx (node (fst (path_pair idx level a cur)) (snd (path_pair idx level a cur)))"
  by (simp add: path_pair_def)

lemma path_clash_found:
  assumes "length as = length bs" and "cur1 \<noteq> cur2" and "fold_path node as level idx cur1 = fold_path node bs level idx cur2"
  obtains x y where "path_clash node as bs level idx cur1 cur2 = Some (x, y)" "x \<noteq> y" "node (fst x) (snd x) = node (fst y) (snd y)"
  using assms
proof (induction as bs arbitrary: level cur1 cur2 thesis rule: list_induct2)
  case (Cons a as b bs)
  let ?x = "path_pair idx level a cur1" and ?y = "path_pair idx level b cur2"
  have xy: "?x \<noteq> ?y" using Cons.prems(2) by (simp add: path_pair_def)
  show ?case
  proof (cases "node (fst ?x) (snd ?x) = node (fst ?y) (snd ?y)")
    case True
    then show ?thesis using xy by (intro Cons.prems(1) [of ?x ?y]) simp_all
  next
    case False
    have eq: "fold_path node as (Suc level) idx (node (fst ?x) (snd ?x)) = fold_path node bs (Suc level) idx (node (fst ?y) (snd ?y))"
      using Cons.prems(3) unfolding fold_path_pair .
    obtain x y where "path_clash node as bs (Suc level) idx (node (fst ?x) (snd ?x)) (node (fst ?y) (snd ?y)) = Some (x, y)" "x \<noteq> y"
      "node (fst x) (snd x) = node (fst y) (snd y)" by (rule Cons.IH [OF _ False eq])
    then show ?thesis using False by (intro Cons.prems(1) [of x y]) simp_all
  qed
qed simp

section \<open>Sample environment\<close>

definition sample_kem :: kem_env where
  "sample_kem = \<lparr>xof256 = xof256 sample_hash, sha256 = sha256 sample_hash,
     ek_of_seed = (\<lambda>seed. be_bytes EK_LEN (le_value seed)), ek_valid = (\<lambda>_. True),
     encapsulate_deterministic = (\<lambda>ek coin. (replicate CT_LEN (of_nat (le_value coin)), 42)), dk_decapsulate = (\<lambda>_ _. 42)\<rparr>"

lemma sample_kem_laws: "xof_law sample_kem" "kem_correct sample_kem seed coin"
  by (simp_all add: xof_law_def kem_correct_def sample_kem_def sample_hash_def be_bytes_def)

lemma build_output_total:
  assumes "kem_correct X seed coin" and "sa_kem_pk a = kem_public X seed"
  shows "\<exists>out. build_output X a value coin entropy memo = Some out"
  using kem_correctD [OF assms(1)] assms(2) by (auto simp: build_output_def seal_note_def Let_def)

section \<open>Properties\<close>

text \<open>C18: A payment reaches its recipient. An output built for the address of an epoch and listed among any other entries of the pool is found by
  the wallet's scan of that epoch with its note, memo and position; a holder of the viewing key of the epoch finds exactly what the
  wallet finds; the recipient recovers the key under which the output was sealed; and whatever is found re-commits to an entry
  of the chain and carries the wallet's own tag.\<close>

theorem payment_is_found:
  assumes "xof_law X" and "kem_correct X (kem_at X k epoch) coin" and "unat (wk_h k) \<le> 10"
    and "address_at X k epoch = Ok a" and "build_output X a value coin entropy memo = Some out"
    and "(i, so_commitment out, so_stealth_ct out) \<in> set entries"
  shows "\<exists>found v. scan_at X k epoch entries = Ok found \<and> ivk X k epoch = Ok v \<and> scan_with_ivk X v entries = found
    \<and> \<lparr>dc_note = so_note out, dc_commitment = so_commitment out, dc_leaf_index = i, dc_memo = memo\<rparr> \<in> set found
    \<and> nt_value (so_note out) = value
    \<and> note_key_as_recipient X k epoch (so_commitment out) (so_stealth_ct out) = Some (so_note_key out)
    \<and> (\<forall>d \<in> set found. nt_owner (dc_note d) = sa_tag a \<and> commit_note X (dc_note d) = dc_commitment d
         \<and> (\<exists>ct. (dc_leaf_index d, dc_commitment d, ct) \<in> set entries))"
proof -
  have "unat (wk_h k) \<le> SPEND_TREE_DEPTH" using assms(3) by (simp add: SPEND_TREE_DEPTH_def)
  from address_of_wallet [OF this, of X epoch] assms(4)
  have a: "owner_tag X k = Ok (sa_tag a)" "sa_kem_pk a = kem_public X (kem_at X k epoch)" by auto
  obtain v where v: "ivk X k epoch = Ok v" by (simp add: ivk_def a(1))
  note one = scan_one_output [OF assms(1,2) a(2) assms(5)]
  let ?found = "scan_core X (kem_at X k epoch) (sa_tag a) entries"
  have "scan_at X k epoch entries = Ok ?found" by (simp add: scan_at_def a(1))
  moreover from this ivk_scans_as_wallet [OF assms(1), where k = k and epoch = epoch and entries = entries] v have "scan_with_ivk X v entries = ?found" by simp
  moreover have "note_key_as_recipient X k epoch (so_commitment out) (so_stealth_ct out) = Some (so_note_key out)"
    using one(2,3,5) by (auto simp: note_key_as_recipient_def)
  moreover have "nt_value (so_note out) = value" using assms(5) by (rule build_output_SomeE)
  moreover have "\<lparr>dc_note = so_note out, dc_commitment = so_commitment out, dc_leaf_index = i, dc_memo = memo\<rparr> \<in> set ?found"
    unfolding scan_core_set using one(1) assms(6) by (rule bexI)
  moreover have "\<forall>d \<in> set ?found. nt_owner (dc_note d) = sa_tag a \<and> commit_note X (dc_note d) = dc_commitment d
      \<and> (\<exists>ct. (dc_leaf_index d, dc_commitment d, ct) \<in> set entries)" using scan_core_sound by blast
  ultimately show ?thesis using v by blast
qed

theorem payment_is_found_witness:
  "\<exists>a out found. address_at sample_kem \<lparr>wk_master = [9], wk_h = 2\<rparr> 3 = Ok a \<and> build_output sample_kem a 600 [1] [2] [104, 105] = Some out
    \<and> scan_at sample_kem \<lparr>wk_master = [9], wk_h = 2\<rparr> 3 [(5, 77, []), (6, so_commitment out, so_stealth_ct out)] = Ok found
    \<and> \<lparr>dc_note = so_note out, dc_commitment = so_commitment out, dc_leaf_index = 6, dc_memo = [104, 105]\<rparr> \<in> set found"
proof -
  let ?k = "\<lparr>wk_master = [9], wk_h = 2\<rparr>"
  have h: "unat (wk_h ?k) \<le> SPEND_TREE_DEPTH" "unat (wk_h ?k) \<le> 10" by (simp_all add: SPEND_TREE_DEPTH_def)
  from address_of_wallet [OF h(1), of sample_kem 3] obtain a :: StealthAddress
    where a: "address_at sample_kem ?k 3 = Ok a" "sa_kem_pk a = kem_public sample_kem (kem_at sample_kem ?k 3)" by (metis StealthAddress.select_convs(2))
  obtain out where o: "build_output sample_kem a 600 [1] [2] [104, 105] = Some out"
    using build_output_total [OF sample_kem_laws(2) a(2)] by blast
  from payment_is_found [OF sample_kem_laws h(2) a(1) o, of 6 "[(5, 77, []), (6, so_commitment out, so_stealth_ct out)]"] a o
  show ?thesis by auto
qed

text \<open>C20: What the scanner finds can be spent. Every note found by a scan whose entry lies in the pool can be spent with any unused leaf of
  the address to outputs that keep the value: the wallet builds a plan whose witness the circuit accepts, and its public values
  carry the root of the chain's own incremental tree, the nullifier of the note, the commitments of the outputs and the binding to fee and
  credited account.\<close>

theorem found_note_is_spendable:
  assumes "scan_at X k epoch entries = Ok found" and "d \<in> set found"
    and "length leaves \<le> 2 ^ 32 - 1" and "unat (dc_leaf_index d) < length leaves" and "leaves ! unat (dc_leaf_index d) = dc_commitment d"
    and "unat (wk_h k) \<le> 10" and "unat ots_index < 2 ^ unat (wk_h k)"
    and "unat (nt_value (dc_note d)) = unat (nt_value pay) + unat (nt_value change) + unat fee"
  shows "\<exists>plan. build_spend X leaves (dc_leaf_index d) (dc_note d) k ots_index pay change fee credit = Ok plan
    \<and> run X (pl_witness plan) = Ok (pl_public plan)
    \<and> pl_public plan = \<lparr>sp_merkle_root = inc_root X (for_each leaves (\<lambda>leaf t. snd (inc_append X t leaf)) (inc_new X)),
         sp_nullifier = nullifier X (wallet_nk X k) (nt_rho (dc_note d)), sp_out_commitment = commit_note X pay,
         sp_out2_commitment = commit_note X change, sp_fee = fee, sp_tx_binding = tx_binding_for X credit fee\<rparr>"
proof -
  have h: "unat (wk_h k) \<le> SPEND_TREE_DEPTH" using assms(6) by (simp add: SPEND_TREE_DEPTH_def)
  from address_of_wallet [OF h, of X epoch] assms(1) obtain tag
    where t: "owner_tag X k = Ok tag" "found = scan_core X (kem_at X k epoch) tag entries" by (auto simp: scan_at_def)
  from scan_core_sound assms(2) t(2) have "commit_note X (dc_note d) = dc_commitment d" "nt_owner (dc_note d) = tag" by blast+
  with t(1) assms(5) show ?thesis by (intro wallet_spend_runs [OF assms(3,4) _ h assms(7) _ assms(8)]) simp_all
qed

theorem found_note_is_spendable_witness:
  "\<exists>leaves n plan. build_spend sample_kem leaves 0 n \<lparr>wk_master = [9], wk_h = 2\<rparr> 3 (n\<lparr>nt_value := 500\<rparr>) (n\<lparr>nt_value := 99\<rparr>) 1 7 = Ok plan
    \<and> run sample_kem (pl_witness plan) = Ok (pl_public plan)"
proof -
  let ?k = "\<lparr>wk_master = [9], wk_h = 2\<rparr>"
  have h: "unat (wk_h ?k) \<le> SPEND_TREE_DEPTH" "unat (wk_h ?k) \<le> 10" "unat (3 :: u32) < 2 ^ unat (wk_h ?k)" by (simp_all add: SPEND_TREE_DEPTH_def)
  from address_of_wallet [OF h(1), of sample_kem 3] obtain a :: StealthAddress
    where a: "owner_tag sample_kem ?k = Ok (sa_tag a)" "sa_kem_pk a = kem_public sample_kem (kem_at sample_kem ?k 3)" by (metis StealthAddress.select_convs)
  obtain out where o: "build_output sample_kem a 600 [1] [2] [] = Some out"
    using build_output_total [OF sample_kem_laws(2) a(2)] by blast
  define d where "d = \<lparr>dc_note = so_note out, dc_commitment = so_commitment out, dc_leaf_index = 0, dc_memo = []\<rparr>"
  have s: "scan_at sample_kem ?k 3 [(0, so_commitment out, so_stealth_ct out)] = Ok [d]"
    using scan_one_output(1) [OF sample_kem_laws a(2) o, of 0] by (simp add: scan_at_def a(1) scan_core_def List.map_filter_simps d_def)
  have v: "nt_value (dc_note d) = 600" using build_output_SomeE [OF o] by (simp add: d_def)
  from found_note_is_spendable [OF s _ _ _ _ h(2,3), of d "[so_commitment out]" "(dc_note d)\<lparr>nt_value := 500\<rparr>" "(dc_note d)\<lparr>nt_value := 99\<rparr>" 1 7] v
  obtain plan where "build_spend sample_kem [so_commitment out] 0 (dc_note d) ?k 3 ((dc_note d)\<lparr>nt_value := 500\<rparr>) ((dc_note d)\<lparr>nt_value := 99\<rparr>) 1 7 = Ok plan"
    "run sample_kem (pl_witness plan) = Ok (pl_public plan)" by (auto simp: d_def)
  then show ?thesis by blast
qed

text \<open>C21: A disclosure is complete and cannot lie. From the leaves of the pool and the key of an output, kept by the sender or recovered by the
  recipient, a package is built that verifies, shows the amount, memo and position of the payment and stands under the chain's own
  root. Any package that verifies, for the same commitment or for the same position under the same root, shows the same note, or it breaks the hash with what it contains: the note it shows is
  a second note with the payment's commitment, or its path and the one of the package built above hash two different pairs, found by \<open>path_clash\<close>, to the same node of the tree.\<close>

theorem disclosure_proves_payment:
  assumes "xof_law X" and "kem_correct X seed coin" and "sa_kem_pk a = kem_public X seed"
    and "build_output X a value coin entropy memo = Some out"
    and "length leaves \<le> 2 ^ 32 - 1" and "unat i < length leaves" and "leaves ! unat i = so_commitment out"
    and "root = inc_root X (for_each leaves (\<lambda>leaf t. snd (inc_append X t leaf)) (inc_new X))"
  shows "\<exists>p. build_disclosure X chain_id leaves i (sa_tag a) (so_stealth_ct out) (so_note_key out) = Ok (Some p)
    \<and> (\<exists>d. verify_disclosure X p = Ok d \<and> pay_value d = value \<and> pay_memo d = memo \<and> pay_leaf_index d = i \<and> pay_owner_tag d = sa_tag a \<and> pay_anchor d = root)
    \<and> (\<forall>q d n. verify_disclosure X q = Ok d \<and> (pay_commitment d = so_commitment out \<or> pay_leaf_index d = i \<and> pay_anchor d = root)
         \<and> n = \<lparr>nt_value = pay_value d, nt_owner = pay_owner_tag d, nt_rho = pay_rho d, nt_rcm = pay_rcm d\<rparr> \<longrightarrow>
         n = so_note out
         \<or> n \<noteq> so_note out \<and> commit_note X n = commit_note X (so_note out)
         \<or> (\<exists>x y. path_clash (merkle_node X) (dp_siblings q) (dp_siblings p) 0 i (commit_note X n) (so_commitment out) = Some (x, y)
              \<and> x \<noteq> y \<and> merkle_node X (fst x) (snd x) = merkle_node X (fst y) (snd y)))"
proof -
  note one = scan_one_output [OF assms(1-4)]
  obtain c: "so_commitment out = commit_note X (so_note out)" "nt_value (so_note out) = value" "nt_owner (so_note out) = sa_tag a"
    using assms(4) by (rule build_output_SomeE)
  then have n: "\<lparr>nt_value = value, nt_owner = sa_tag a, nt_rho = nt_rho (so_note out), nt_rcm = nt_rcm (so_note out)\<rparr> = so_note out"
    using note_eta [of "so_note out"] by simp
  have "length leaves \<le> 2 ^ TREE_DEPTH" using assms(5) by (simp add: TREE_DEPTH_def)
  from full_tree_path_folds [OF assms(6) this, of X] assms(7) obtain sibs
    where path: "full_tree_path X leaves i = Ok (sibs, full_root X leaves)" "length sibs = TREE_DEPTH"
      "fold_path (merkle_node X) sibs 0 i (so_commitment out) = full_root X leaves" by auto
  define p where "p = \<lparr>dp_version = 1, dp_chain_id = chain_id, dp_commitment = so_commitment out, dp_owner_tag = sa_tag a, dp_leaf_index = i,
    dp_anchor = full_root X leaves, dp_siblings = sibs, dp_stealth_ct = so_stealth_ct out, dp_note_key = so_note_key out\<rparr>"
  have "build_disclosure X chain_id leaves i (sa_tag a) (so_stealth_ct out) (so_note_key out) = Ok (Some p)"
    using assms(6,7) path by (simp add: build_disclosure_def build_disclosure_with_path_def wallet_fold_path_def p_def)
  moreover have "\<exists>d. verify_disclosure X p = Ok d \<and> pay_value d = value \<and> pay_memo d = memo \<and> pay_leaf_index d = i \<and> pay_owner_tag d = sa_tag a
      \<and> pay_anchor d = full_root X leaves"
    using one(3,4) path(2,3) n c(1)
    by (simp add: verify_disclosure_def p_def note_open_seal [OF assms(1)] decode_encode_note_pt ok_or_def wallet_fold_path_def not_less)
  moreover have "m = so_note out \<or> m \<noteq> so_note out \<and> commit_note X m = commit_note X (so_note out)
         \<or> (\<exists>x y. path_clash (merkle_node X) (dp_siblings q) (dp_siblings p) 0 i (commit_note X m) (so_commitment out) = Some (x, y)
              \<and> x \<noteq> y \<and> merkle_node X (fst x) (snd x) = merkle_node X (fst y) (snd y))"
    if v: "verify_disclosure X q = Ok d" and at: "pay_commitment d = so_commitment out \<or> pay_leaf_index d = i \<and> pay_anchor d = full_root X leaves"
      and m: "m = \<lparr>nt_value = pay_value d, nt_owner = pay_owner_tag d, nt_rho = pay_rho d, nt_rcm = pay_rcm d\<rparr>" for q d m
  proof (cases "commit_note X m = commit_note X (so_note out)")
    case False
    have q: "commit_note X m = dp_commitment q" "length (dp_siblings q) = TREE_DEPTH" "pay_commitment d = dp_commitment q"
      "fold_path (merkle_node X) (dp_siblings q) 0 (pay_leaf_index d) (commit_note X m) = pay_anchor d"
      using verify_disclosure_Ok [OF v] unfolding m wallet_fold_path_def by metis+
    have ne: "commit_note X m \<noteq> so_commitment out" using False c(1) by simp
    with at q have "fold_path (merkle_node X) (dp_siblings q) 0 i (commit_note X m) = fold_path (merkle_node X) (dp_siblings p) 0 i (so_commitment out)"
      "length (dp_siblings q) = length (dp_siblings p)" using path(2,3) by (auto simp: p_def)
    from path_clash_found [OF this(2) ne this(1)] obtain x y where
      "path_clash (merkle_node X) (dp_siblings q) (dp_siblings p) 0 i (commit_note X m) (so_commitment out) = Some (x, y)"
      "x \<noteq> y" "merkle_node X (fst x) (snd x) = merkle_node X (fst y) (snd y)" by metis
    then show ?thesis by blast
  qed simp
  ultimately show ?thesis unfolding assms(8) pool_tree.build_root [OF assms(5)] by blast
qed

theorem disclosure_proves_payment_witness:
  "\<exists>out p d. build_output sample_kem \<lparr>sa_tag = 8, sa_kem_pk = kem_public sample_kem [3]\<rparr> 600 [1] [2] [104, 105] = Some out
    \<and> build_disclosure sample_kem ''hk'' [so_commitment out] 0 8 (so_stealth_ct out) (so_note_key out) = Ok (Some p)
    \<and> verify_disclosure sample_kem p = Ok d \<and> pay_value d = 600 \<and> pay_memo d = [104, 105]"
proof -
  let ?a = "\<lparr>sa_tag = 8, sa_kem_pk = kem_public sample_kem [3]\<rparr>"
  have k: "sa_kem_pk ?a = kem_public sample_kem [3]" by simp
  obtain out where o: "build_output sample_kem ?a 600 [1] [2] [104, 105] = Some out"
    using build_output_total [OF sample_kem_laws(2) k] by blast
  from disclosure_proves_payment [OF sample_kem_laws k o _ _ _ refl, of "[so_commitment out]" 0 "''hk''"] o show ?thesis by auto
qed

end
