(* ===== verification/HK_ScanRuns.thy ===== *)
theory HK_ScanRuns
  imports HK_Shield HK_OneTime HK_Payments
begin

text \<open>
  The incremental scan of \<^verbatim>\<open>hk-wallet-core\<close> over the pages a node serves: the feed is read whole from the cursor on, each note is
  kept once, and over any run of scans the wallet holds exactly its notes with their spent state.
\<close>

section \<open>Reading the feed\<close>

definition entry_at :: "(H256 \<times> bytes) list \<Rightarrow> nat \<Rightarrow> Entry" where
  "entry_at feed j = (of_nat j, feed ! j)"

definition entries_from :: "(H256 \<times> bytes) list \<Rightarrow> nat \<Rightarrow> Entry list" where
  "entries_from feed i = map (entry_at feed) [i..<length feed]"

text \<open>What is assumed of the node in these runs: it answers, with the pages of its feed, its height and the nullifiers published.\<close>

definition serves :: "PoolNode \<Rightarrow> string \<Rightarrow> (H256 \<times> bytes) list \<Rightarrow> u64 \<Rightarrow> H256 set \<Rightarrow> bool" where
  "serves nd cid feed h spent \<longleftrightarrow> nd_chain_id nd = Some cid \<and> nd_height nd = Some h
     \<and> (\<forall>pass cursor. nd_page nd pass cursor = Some (get_pool_notes feed (Some cursor) (Some POOL_PAGE)))
     \<and> (\<forall>nf. nd_spent nd nf = Some (nf \<in> spent))"

lemma page_entries:
  assumes "from_i \<le> to_i" and "to_i \<le> length feed"
  shows "map (\<lambda>(i, cm, ct). (of_nat (from_i + i) :: u64, cm, ct)) (enumerate 0 (take (to_i - from_i) (drop from_i feed))) = map (entry_at feed) [from_i..<to_i]"
  using assms by (intro nth_equalityI) (auto simp: entry_at_def nth_enumerate_eq case_prod_beta)

lemma pool_page_limit: "unat POOL_PAGE = 2000" "min 2000 POOL_PAGE_MAX = 2000"
  by (simp_all add: POOL_PAGE_def POOL_PAGE_MAX_def)

lemma get_pool_notes_within:
  assumes "unat cursor \<le> length feed"
  defines "t \<equiv> min (unat cursor + 2000) (length feed)"
  shows "get_pool_notes feed (Some cursor) (Some POOL_PAGE)
    = (map (entry_at feed) [unat cursor..<t], if t < length feed then Some (of_nat t) else None, Some (of_nat (length feed)))"
proof -
  have t: "unat cursor \<le> t" "t \<le> length feed" using assms by auto
  have "rpc_pool_page (Some cursor) (Some POOL_PAGE) (length feed) = (unat cursor, t, if t < length feed then Some t else None)"
    using assms(1) by (simp add: rpc_pool_page_def pool_page_limit t_def Let_def)
  with page_entries [OF t] show ?thesis by (simp add: get_pool_notes_def page_of_def del: of_nat_add)
qed

lemma get_pool_notes_past:
  assumes "length feed \<le> unat cursor"
  shows "get_pool_notes feed (Some cursor) (Some POOL_PAGE) = ([], None, Some (of_nat (length feed)))"
  using assms by (simp add: get_pool_notes_def page_of_def rpc_pool_page_def pool_page_limit Let_def)

lemma pool_notes_loop_served:
  assumes "serves nd cid feed h spent" and "length feed < 2 ^ 64" and "unat from_i \<le> unat cursor" and "unat cursor \<le> length feed"
  shows "pool_notes_loop nd pass from_i cursor acc = Ok (acc @ entries_from feed (unat cursor), of_nat (length feed))"
  using assms(3,4)
proof (induction "length feed - unat cursor" arbitrary: cursor acc rule: less_induct)
  case less
  let ?t = "min (unat cursor + 2000) (length feed)"
  have page: "nd_page nd pass cursor = Some (map (entry_at feed) [unat cursor..<?t], if ?t < length feed then Some (of_nat ?t) else None, Some (of_nat (length feed)))"
    using assms(1) get_pool_notes_within [OF less.prems(2)] by (simp add: serves_def)
  have small: "unat (of_nat j :: u64) = j" if "j \<le> length feed" for j using that assms(2) by (simp add: unsigned_of_nat take_bit_nat_eq_self)
  have keep: "filter (\<lambda>e. from_i \<le> fst e) (map (entry_at feed) [unat cursor..<?t]) = map (entry_at feed) [unat cursor..<?t]"
    using less.prems by (auto simp: filter_id_conv entry_at_def word_le_nat_alt small)
  show ?case
  proof (cases "?t < length feed")
    case True
    then have t: "?t = unat cursor + 2000" by simp
    define c where "c = (of_nat ?t :: u64)"
    have u: "unat c = unat cursor + 2000" using small [of ?t] t by (metis c_def min.cobounded2)
    have "[unat cursor..<length feed] = [unat cursor..<?t] @ [unat c..<length feed]"
      using True t upt_add_eq_append [of "unat cursor" "unat cursor + 2000" "length feed - (unat cursor + 2000)"] by (simp add: u)
    then have split: "entries_from feed (unat cursor) = map (entry_at feed) [unat cursor..<?t] @ entries_from feed (unat c)"
      by (simp add: entries_from_def)
    have "pool_notes_loop nd pass from_i c (acc @ map (entry_at feed) [unat cursor..<?t])
        = Ok ((acc @ map (entry_at feed) [unat cursor..<?t]) @ entries_from feed (unat c), of_nat (length feed))"
      using True u t less.prems by (intro less.hyps) auto
    moreover have "nd_page nd pass cursor = Some (map (entry_at feed) [unat cursor..<?t], Some c, Some (of_nat (length feed)))" using page True by (simp add: c_def)
    moreover have "cursor < c" by (simp add: word_less_nat_alt u)
    ultimately show ?thesis using keep by (simp only: pool_notes_loop.simps [of nd pass from_i cursor] split Let_def) simp
  next
    case False
    then show ?thesis using keep by (simp add: pool_notes_loop.simps [of nd pass from_i cursor] page Let_def entries_from_def min_def split: if_splits)
  qed
qed

lemma pool_notes_served:
  assumes "serves nd cid feed h spent" and "length feed < 2 ^ 64" and "unat from_i \<le> length feed"
  shows "pool_notes_from nd pass from_i = Ok (entries_from feed (unat from_i), of_nat (length feed))"
  using pool_notes_loop_served [OF assms(1,2) _ assms(3), of from_i pass "[]"] by (simp add: pool_notes_from_def)

text \<open>A node with fewer notes than the wallet has seen: its pages tell the size, and the wallet starts again.\<close>

lemma pool_notes_shrunk:
  assumes "serves nd cid feed h spent" and "length feed < unat from_i"
  shows "pool_notes_from nd pass from_i = Ok ([], of_nat (length feed))"
  using assms get_pool_notes_past [of feed from_i] by (simp add: pool_notes_from_def pool_notes_loop.simps [of nd pass from_i] serves_def Let_def)

section \<open>Keeping what is found\<close>

text \<open>What \<^verbatim>\<open>hex\<close> documents: decoding gives back what was encoded.\<close>

definition hex_law :: "'x shield_env_scheme \<Rightarrow> bool" where
  "hex_law X \<longleftrightarrow> (\<forall>b. hx_decode X (hx_encode X b) = Some b)"

definition finds :: "'x kem_env_scheme \<Rightarrow> WalletKeys \<Rightarrow> H256 \<Rightarrow> u64 list \<Rightarrow> Entry list \<Rightarrow> Discovered \<Rightarrow> bool" where
  "finds X k tag es entries d \<longleftrightarrow> (\<exists>e \<in> set es. \<exists>en \<in> set entries. scan_one X (kem_at X k e) tag en = Some d)"

definition adds :: "'x shield_env_scheme \<Rightarrow> (Discovered \<Rightarrow> bool) \<Rightarrow> StoredNote list \<Rightarrow> StoredNote list \<Rightarrow> bool" where
  "adds X P ns ns' \<longleftrightarrow> (\<exists>new. ns' = ns @ map (from_discovered X) new \<and> (\<forall>d \<in> set new. P d))
     \<and> (\<forall>d. P d \<longrightarrow> dc_leaf_index d \<in> sn_leaf_index ` set ns') \<and> (distinct (map sn_leaf_index ns) \<longrightarrow> distinct (map sn_leaf_index ns'))"

lemma from_discovered_index [simp]: "sn_leaf_index (from_discovered X d) = dc_leaf_index d" "\<not> sn_spent (from_discovered X d)"
  by (simp_all add: from_discovered_def)

lemma adds_none: "(\<And>d. \<not> P d) \<Longrightarrow> adds X P ns ns"
  by (simp add: adds_def)

lemma adds_trans:
  assumes "adds X P ns ns1" and "adds X Q ns1 ns2"
  shows "adds X (\<lambda>d. P d \<or> Q d) ns ns2"
proof -
  from assms obtain n1 n2 where n: "ns1 = ns @ map (from_discovered X) n1" "\<forall>d \<in> set n1. P d" "ns2 = ns1 @ map (from_discovered X) n2" "\<forall>d \<in> set n2. Q d"
    by (auto simp: adds_def)
  then have "ns2 = ns @ map (from_discovered X) (n1 @ n2) \<and> (\<forall>d \<in> set (n1 @ n2). P d \<or> Q d)" by auto
  then have "\<exists>new. ns2 = ns @ map (from_discovered X) new \<and> (\<forall>d \<in> set new. P d \<or> Q d)" by (rule exI)
  moreover have "sn_leaf_index ` set ns1 \<subseteq> sn_leaf_index ` set ns2" using n(3) by auto
  ultimately show ?thesis using assms unfolding adds_def by blast
qed

lemma push_adds: "adds X (\<lambda>x. x = d) ns (push_found X d ns)"
  unfolding adds_def push_found_def
  by (cases "list_ex (\<lambda>n. sn_leaf_index n = dc_leaf_index d) ns") (force simp: list_ex_iff intro: exI [of _ "[]"] exI [of _ "[d]"])+

lemma push_all_adds: "adds X (\<lambda>d. d \<in> set ds) ns (for_each ds (push_found X) ns)"
proof (induction ds arbitrary: ns)
  case Nil
  then show ?case by (simp add: adds_none)
next
  case (Cons d ds)
  from adds_trans [OF push_adds Cons.IH] show ?case by simp
qed

lemma scan_epochs_adds:
  assumes "owner_tag X k = Ok tag"
  shows "\<exists>ns'. scan_epochs X k entries es ns = Ok ns' \<and> adds X (finds X k tag es entries) ns ns'"
proof (induction es arbitrary: ns)
  case Nil
  then show ?case by (simp add: adds_none finds_def)
next
  case (Cons e es)
  let ?ds = "scan_core X (kem_at X k e) tag entries"
  obtain ns' where ns': "scan_epochs X k entries es (for_each ?ds (push_found X) ns) = Ok ns'"
    "adds X (finds X k tag es entries) (for_each ?ds (push_found X) ns) ns'" using Cons.IH by blast
  have "finds X k tag (e # es) entries = (\<lambda>d. d \<in> set ?ds \<or> finds X k tag es entries d)" by (auto simp: finds_def scan_core_set fun_eq_iff)
  with adds_trans [OF push_all_adds ns'(2)] ns'(1) assms show ?case by (simp add: scan_at_def)
qed

lemma stored_note_reads:
  assumes "hex_law X" and "n\<lparr>sn_spent := False\<rparr> = from_discovered X d" and "nt_owner (dc_note d) = tag"
  shows "to_discovered X tag n = Ok d"
proof -
  from assms(2) have "sn_leaf_index n = dc_leaf_index d" "sn_value n = nt_value (dc_note d)" "sn_rho n = hx_encode X (h256_bytes (nt_rho (dc_note d)))"
    "sn_rcm n = hx_encode X (h256_bytes (nt_rcm (dc_note d)))" "sn_memo n = hx_encode X (dc_memo d)" "sn_commitment n = hx_encode X (h256_bytes (dc_commitment d))"
    by (cases n; simp add: from_discovered_def)+
  then show ?thesis using assms(1,3) by (cases d) (simp add: to_discovered_def h32_def hex_law_def)
qed

definition flagged :: "'x hash_env_scheme \<Rightarrow> PoolNode \<Rightarrow> H256 \<Rightarrow> (StoredNote \<Rightarrow> Discovered) \<Rightarrow> StoredNote \<Rightarrow> bool" where
  "flagged X nd nk f n \<longleftrightarrow> sn_spent n \<or> nullifier_spent nd (nullifier X nk (nt_rho (dc_note (f n))))"

lemma mark_spent_reads:
  assumes "\<And>n. n \<in> set ns \<Longrightarrow> to_discovered X tag n = Ok (f n)"
  shows "mark_spent X nd nk tag ns = Ok (map (\<lambda>n. (f n, flagged X nd nk f n)) ns, map (\<lambda>n. n\<lparr>sn_spent := flagged X nd nk f n\<rparr>) ns)"
  using assms
proof (induction ns)
  case (Cons n ns)
  let ?b = "nullifier_spent nd (nullifier X nk (nt_rho (dc_note (f n))))"
  have "(if \<not> sn_spent n \<and> ?b then n\<lparr>sn_spent := True\<rparr> else n) = n\<lparr>sn_spent := flagged X nd nk f n\<rparr>" by (cases n) (auto simp: flagged_def)
  with Cons show ?case by (simp add: Let_def)
qed simp

lemma epochs_to_iff: "e \<in> set (epochs_to cur) \<longleftrightarrow> unat e \<le> unat cur"
proof
  assume "unat e \<le> unat cur"
  then have "unat e \<in> set [0..<Suc (unat cur)]" unfolding set_upt atLeastLessThan_iff by linarith
  then have "of_nat (unat e) \<in> set (epochs_to cur)" unfolding epochs_to_def set_map by (rule imageI)
  then show "e \<in> set (epochs_to cur)" by simp
next
  assume "e \<in> set (epochs_to cur)"
  then obtain j where j: "e = of_nat j" "j \<in> set [0..<Suc (unat cur)]" unfolding epochs_to_def set_map by (rule imageE)
  then have le: "j \<le> unat cur" unfolding set_upt atLeastLessThan_iff by linarith
  have "unat e \<le> j" by (simp add: j(1) unsigned_of_nat)
  with le show "unat e \<le> unat cur" by linarith
qed

section \<open>One scan\<close>

text \<open>The cache over a feed: it holds each note once, each was opened from its entry, every entry below the cursor that an address of an
  epoch up to \<open>ep\<close> opens is held, and only notes with a published nullifier are marked.\<close>

definition opened :: "'x shield_env_scheme \<Rightarrow> WalletKeys \<Rightarrow> H256 \<Rightarrow> (H256 \<times> bytes) list \<Rightarrow> StoredNote \<Rightarrow> Discovered \<Rightarrow> bool" where
  "opened X k tag feed n d \<longleftrightarrow> n\<lparr>sn_spent := False\<rparr> = from_discovered X d
     \<and> (\<exists>e. scan_one X (kem_at X k e) tag (entry_at feed (unat (sn_leaf_index n))) = Some d)"

definition cache_inv :: "'x shield_env_scheme \<Rightarrow> WalletKeys \<Rightarrow> H256 \<Rightarrow> (H256 \<times> bytes) list \<Rightarrow> (nat \<Rightarrow> nat) \<Rightarrow> H256 set \<Rightarrow> ScanCache \<Rightarrow> bool" where
  "cache_inv X k tag feed ep spent c \<longleftrightarrow>
     distinct (map sn_leaf_index (ca_notes c))
     \<and> (\<forall>n \<in> set (ca_notes c). unat (sn_leaf_index n) < unat (ca_scanned_through c))
     \<and> (\<forall>n \<in> set (ca_notes c). \<exists>d. opened X k tag feed n d \<and> (sn_spent n \<longrightarrow> nullifier X (wallet_nk X k) (nt_rho (dc_note d)) \<in> spent))
     \<and> (\<forall>j < unat (ca_scanned_through c). \<forall>e. unat e \<le> ep j \<longrightarrow> scan_one X (kem_at X k e) tag (entry_at feed j) \<noteq> None
          \<longrightarrow> of_nat j \<in> sn_leaf_index ` set (ca_notes c))"

lemma cache_inv_default: "cache_inv X k tag feed ep spent (cache_default\<lparr>ca_chain_id := cid\<rparr>)"
  by (simp add: cache_inv_def cache_default_def)

lemma cache_inv_mono: "cache_inv X k tag feed ep spent c \<Longrightarrow> spent \<subseteq> spent' \<Longrightarrow> cache_inv X k tag feed ep spent' c"
  unfolding cache_inv_def by blast

lemma opened_unique:
  assumes "hex_law X" and "opened X k tag feed n d" 
  shows "to_discovered X tag n = Ok d" "dc_leaf_index d = sn_leaf_index n"
proof -
  obtain e cm ct where "scan_one X (kem_at X k e) tag (of_nat (unat (sn_leaf_index n)), cm, ct) = Some d"
    using assms(2) by (cases "feed ! unat (sn_leaf_index n)") (auto simp: opened_def entry_at_def)
  from scan_one_sound [OF this] show "dc_leaf_index d = sn_leaf_index n" "to_discovered X tag n = Ok d"
    using assms by (simp_all add: opened_def stored_note_reads)
qed

lemma take_entries:
  assumes "m \<le> length feed"
  shows "entries_from (take m feed) i = map (entry_at feed) [i..<m]"
  using assms by (auto simp: entries_from_def entry_at_def)

lemma added_cache_inv:
  assumes "cache_inv X k tag feed ep spent c" and "adds X (finds X k tag es (map (entry_at feed) [unat (ca_scanned_through c)..<m])) (ca_notes c) ns"
    and "unat (ca_scanned_through c) \<le> m" and "m < 2 ^ 64" and "\<And>j e. j < m \<Longrightarrow> unat (e :: u64) \<le> ep j \<Longrightarrow> e \<in> set es"
  shows "cache_inv X k tag feed ep spent (c\<lparr>ca_scanned_through := of_nat m, ca_notes := ns\<rparr>)"
proof -
  let ?P = "finds X k tag es (map (entry_at feed) [unat (ca_scanned_through c)..<m])"
  from assms(2) obtain new where new: "ns = ca_notes c @ map (from_discovered X) new" "\<And>d. d \<in> set new \<Longrightarrow> ?P d"
    and all: "\<And>d. ?P d \<Longrightarrow> dc_leaf_index d \<in> sn_leaf_index ` set ns"
    and dist: "distinct (map sn_leaf_index (ca_notes c)) \<Longrightarrow> distinct (map sn_leaf_index ns)" by (auto simp: adds_def)
  have u: "unat (of_nat j :: u64) = j" if "j \<le> m" for j using that assms(4) by (simp add: unsigned_of_nat take_bit_nat_eq_self)
  have idx: "dc_leaf_index d = of_nat j" if "scan_one X kem tag (entry_at feed j) = Some d" for kem j d
    using that scan_one_sound [of X kem tag "of_nat j" _ _ d] by (cases "feed ! j") (auto simp: entry_at_def)
  have "unat (dc_leaf_index d) < m \<and> (\<exists>d'. opened X k tag feed (from_discovered X d) d')" if "d \<in> set new" for d
  proof -
    from new(2) [OF that] obtain e j where "scan_one X (kem_at X k e) tag (entry_at feed j) = Some d" "j < m" by (auto simp: finds_def)
    then have "unat (dc_leaf_index d) < m \<and> opened X k tag feed (from_discovered X d) d"
      using idx [of "kem_at X k e" j d] u [of j] by (auto simp: opened_def from_discovered_def)
    then show ?thesis by blast
  qed
  moreover have "of_nat j \<in> sn_leaf_index ` set ns"
    if "j < m" "unat e \<le> ep j" "scan_one X (kem_at X k e) tag (entry_at feed j) = Some d" for j e d
  proof (cases "j < unat (ca_scanned_through c)")
    case True
    then have "of_nat j \<in> sn_leaf_index ` set (ca_notes c)" using assms(1) that unfolding cache_inv_def by blast
    then show ?thesis using new(1) by auto
  next
    case False
    have "?P d" using assms(5) [OF that(1,2)] that(1,3) False unfolding finds_def by force
    from all [OF this] idx [OF that(3)] show ?thesis by simp
  qed
  ultimately show ?thesis using assms(1) dist new(1) u [of m] assms(3) unfolding cache_inv_def by (auto 4 3 intro: less_le_trans)
qed

lemma marked_cache_inv:
  assumes "hex_law X" and "cache_inv X k tag feed ep spent c" and "\<And>nf. nd_spent nd nf = Some (nf \<in> spent)"
  obtains f where "mark_spent X nd (wallet_nk X k) tag (ca_notes c)
      = Ok (map (\<lambda>n. (f n, nullifier X (wallet_nk X k) (nt_rho (dc_note (f n))) \<in> spent)) (ca_notes c),
            map (\<lambda>n. n\<lparr>sn_spent := nullifier X (wallet_nk X k) (nt_rho (dc_note (f n))) \<in> spent\<rparr>) (ca_notes c))"
    "cache_inv X k tag feed ep spent (c\<lparr>ca_notes := map (\<lambda>n. n\<lparr>sn_spent := nullifier X (wallet_nk X k) (nt_rho (dc_note (f n))) \<in> spent\<rparr>) (ca_notes c)\<rparr>)"
    "\<And>n. n \<in> set (ca_notes c) \<Longrightarrow> opened X k tag feed n (f n)"
proof -
  let ?nk = "wallet_nk X k"
  from assms(2) obtain f where f: "\<And>n. n \<in> set (ca_notes c) \<Longrightarrow> opened X k tag feed n (f n)"
      "\<And>n. n \<in> set (ca_notes c) \<Longrightarrow> sn_spent n \<Longrightarrow> nullifier X ?nk (nt_rho (dc_note (f n))) \<in> spent"
    unfolding cache_inv_def by metis
  let ?sp = "\<lambda>n. nullifier X ?nk (nt_rho (dc_note (f n))) \<in> spent"
  have "flagged X nd ?nk f n = ?sp n" if "n \<in> set (ca_notes c)" for n using f(2) [OF that] assms(3) by (auto simp: flagged_def nullifier_spent_def)
  then have m: "mark_spent X nd ?nk tag (ca_notes c) = Ok (map (\<lambda>n. (f n, ?sp n)) (ca_notes c), map (\<lambda>n. n\<lparr>sn_spent := ?sp n\<rparr>) (ca_notes c))"
    using mark_spent_reads [of "ca_notes c" X tag f nd ?nk] opened_unique(1) [OF assms(1) f(1)] by simp
  have "opened X k tag feed (n\<lparr>sn_spent := b\<rparr>) (f n)" if "n \<in> set (ca_notes c)" for n b using f(1) [OF that] by (simp add: opened_def)
  then have "cache_inv X k tag feed ep spent (c\<lparr>ca_notes := map (\<lambda>n. n\<lparr>sn_spent := ?sp n\<rparr>) (ca_notes c)\<rparr>)"
    using assms(2) unfolding cache_inv_def by (auto simp: comp_def image_image)
  from that [OF m this f(1)] show ?thesis .
qed

text \<open>What a scan shows: each note once, each opened from its entry, and spent when its nullifier is published.\<close>

definition shown :: "'x shield_env_scheme \<Rightarrow> WalletKeys \<Rightarrow> H256 \<Rightarrow> (H256 \<times> bytes) list \<Rightarrow> (nat \<Rightarrow> nat) \<Rightarrow> nat \<Rightarrow> H256 set \<Rightarrow> (Discovered \<times> bool) list \<Rightarrow> bool" where
  "shown X k tag feed ep m spent out \<longleftrightarrow> distinct (map (dc_leaf_index \<circ> fst) out)
     \<and> (\<forall>(d, sp) \<in> set out. unat (dc_leaf_index d) < m \<and> (\<exists>e. scan_one X (kem_at X k e) tag (entry_at feed (unat (dc_leaf_index d))) = Some d)
          \<and> sp = (nullifier X (wallet_nk X k) (nt_rho (dc_note d)) \<in> spent))
     \<and> (\<forall>j < m. \<forall>e. unat e \<le> ep j \<longrightarrow> scan_one X (kem_at X k e) tag (entry_at feed j) \<noteq> None \<longrightarrow> of_nat j \<in> (dc_leaf_index \<circ> fst) ` set out)"

lemma scan_cache_served:
  assumes "hex_law X" and "owner_tag X k = Ok tag" and "cache_inv X k tag feed ep spent0 c" and "spent0 \<subseteq> spent"
    and "serves nd cid (take m feed) h spent" and "ca_chain_id c = cid" and "unat (ca_scanned_through c) \<le> m" and "m \<le> length feed" and "m < 2 ^ 64"
    and "\<And>j. j < m \<Longrightarrow> ep j \<le> unat (epoch_of h)"
  shows "\<exists>out c'. scan_cache X nd k c = Ok (out, c', False) \<and> shown X k tag feed ep m spent out
    \<and> cache_inv X k tag feed ep spent c' \<and> ca_chain_id c' = cid \<and> unat (ca_scanned_through c') = m"
proof -
  let ?es = "epochs_to (epoch_of h)" and ?en = "map (entry_at feed) [unat (ca_scanned_through c)..<m]"
  have len: "length (take m feed) = m" using assms(8) by simp
  have u: "unat (of_nat m :: u64) = m" using assms(9) by (simp add: unsigned_of_nat take_bit_nat_eq_self)
  have same: "cache_for_chain nd c = c" using assms(5,6) by (simp add: cache_for_chain_def serves_def)
  have fetch: "fetch_new nd c = Ok (False, c, ?en, of_nat m)"
    using pool_notes_served [OF assms(5), of "ca_scanned_through c" False] assms(7,8,9) u
    by (simp add: fetch_new_def len take_entries word_less_nat_alt)
  obtain ns where ns: "scan_new X nd k ?en (ca_notes c) = Ok ns" "adds X (finds X k tag ?es ?en) (ca_notes c) ns"
  proof (cases "?en = []")
    case True
    have "adds X (finds X k tag ?es ?en) (ca_notes c) (ca_notes c)" unfolding True by (rule adds_none) (simp add: finds_def)
    moreover have "scan_new X nd k ?en (ca_notes c) = Ok (ca_notes c)" unfolding True by (simp add: scan_new_def)
    ultimately show ?thesis using that by blast
  next
    case False
    obtain ns where ns: "scan_epochs X k ?en ?es (ca_notes c) = Ok ns" "adds X (finds X k tag ?es ?en) (ca_notes c) ns"
      using scan_epochs_adds [OF assms(2), of ?en ?es "ca_notes c"] by blast
    show ?thesis by (rule that [of ns]) (use False ns assms(5) in \<open>simp_all add: scan_new_def serves_def\<close>)
  qed
  let ?c = "c\<lparr>ca_scanned_through := of_nat m, ca_notes := ns\<rparr>"
  have in_es: "e \<in> set ?es" if "j < m" "unat e \<le> ep j" for j e unfolding epochs_to_iff using assms(10) [OF that(1)] that(2) by linarith
  have inv: "cache_inv X k tag feed ep spent ?c"
    by (rule added_cache_inv [OF cache_inv_mono [OF assms(3,4)] ns(2) assms(7,9) in_es])
  have "\<And>nf. nd_spent nd nf = Some (nf \<in> spent)" using assms(5) by (simp add: serves_def)
  from marked_cache_inv [OF assms(1) inv this] obtain f
    where f: "mark_spent X nd (wallet_nk X k) tag ns
        = Ok (map (\<lambda>n. (f n, nullifier X (wallet_nk X k) (nt_rho (dc_note (f n))) \<in> spent)) ns, map (\<lambda>n. n\<lparr>sn_spent := nullifier X (wallet_nk X k) (nt_rho (dc_note (f n))) \<in> spent\<rparr>) ns)"
      "cache_inv X k tag feed ep spent (?c\<lparr>ca_notes := map (\<lambda>n. n\<lparr>sn_spent := nullifier X (wallet_nk X k) (nt_rho (dc_note (f n))) \<in> spent\<rparr>) ns\<rparr>)"
      "\<And>n. n \<in> set ns \<Longrightarrow> opened X k tag feed n (f n)" by auto
  let ?out = "map (\<lambda>n. (f n, nullifier X (wallet_nk X k) (nt_rho (dc_note (f n))) \<in> spent)) ns"
  have idx: "dc_leaf_index (f n) = sn_leaf_index n" if "n \<in> set ns" for n by (rule opened_unique(2) [OF assms(1) f(3) [OF that]])
  have map: "map (dc_leaf_index \<circ> fst) ?out = map sn_leaf_index ns" using idx by simp
  have img: "(dc_leaf_index \<circ> fst) ` set ?out = sn_leaf_index ` set ns" using arg_cong [OF map, of set] by (simp only: set_map)
  have "shown X k tag feed ep m spent ?out" unfolding shown_def map img
    using inv f(3) idx u unfolding cache_inv_def opened_def by auto
  moreover have "(if of_nat m > ca_scanned_through c then of_nat m else ca_scanned_through c) = of_nat m"
    using assms(7) u by (metis le_neq_implies_less word_less_nat_alt word_unat_eq_iff)
  ultimately show ?thesis using f(1,2) assms(2,6) fetch ns(1) u by (simp add: scan_cache_def same Let_def)
qed

section \<open>Runs of scans\<close>

text \<open>Scans, each with the node's answers and the step at which its write fails, if it does, and crashes between them. The chain goes on: the
  feed only grows, nullifiers are only added, and the height a scan is told is not behind the entries it is given.\<close>

datatype ScanEvent = DoScan SpendInput | Crashed Crash

fun scan_step :: "'x shield_env_scheme \<Rightarrow> H256 \<Rightarrow> ShieldFile FileState \<Rightarrow> ScanEvent \<Rightarrow> ShieldFile FileState" where
  "scan_step X asset d (DoScan i) = snd (do_scan X i asset d)"
| "scan_step X asset d (Crashed c) = after_crash c d"

inductive observed :: "string \<Rightarrow> (H256 \<times> bytes) list \<Rightarrow> (nat \<Rightarrow> nat) \<Rightarrow> ScanEvent list \<Rightarrow> nat \<Rightarrow> H256 set \<Rightarrow> bool" for cid feed ep where
  observed_start: "observed cid feed ep [] 0 {}"
| observed_crash: "observed cid feed ep es m sp \<Longrightarrow> observed cid feed ep (es @ [Crashed c]) m sp"
| observed_scan: "observed cid feed ep es m sp \<Longrightarrow> m \<le> m' \<Longrightarrow> m' \<le> length feed \<Longrightarrow> sp \<subseteq> sp' \<Longrightarrow> serves (si_node i) cid (take m' feed) h sp'
    \<Longrightarrow> (\<And>j. j < m' \<Longrightarrow> ep j \<le> unat (epoch_of h)) \<Longrightarrow> observed cid feed ep (es @ [DoScan i]) m' sp'"

inductive_cases observed_snoc: "observed cid feed ep (es @ [DoScan i]) m sp"

definition file_inv :: "'x shield_env_scheme \<Rightarrow> WalletKeys \<Rightarrow> H256 \<Rightarrow> H256 \<Rightarrow> string \<Rightarrow> (H256 \<times> bytes) list \<Rightarrow> (nat \<Rightarrow> nat) \<Rightarrow> nat \<Rightarrow> H256 set \<Rightarrow> ShieldFile \<Rightarrow> bool" where
  "file_inv X k tag asset cid feed ep m sp f \<longleftrightarrow> shield_keys X f = Ok k
     \<and> (ca_chain_id (cache_of X f asset) = cid \<longrightarrow> cache_inv X k tag feed ep sp (cache_of X f asset) \<and> unat (ca_scanned_through (cache_of X f asset)) \<le> m)"

definition disk_inv :: "'x shield_env_scheme \<Rightarrow> WalletKeys \<Rightarrow> H256 \<Rightarrow> H256 \<Rightarrow> string \<Rightarrow> (H256 \<times> bytes) list \<Rightarrow> (nat \<Rightarrow> nat) \<Rightarrow> nat \<Rightarrow> H256 set \<Rightarrow> ShieldFile FileState \<Rightarrow> bool" where
  "disk_inv X k tag asset cid feed ep m sp d \<longleftrightarrow>
     (\<exists>f g. d = \<lparr>fs_seen = Some f, fs_stable = Some g\<rparr> \<and> file_inv X k tag asset cid feed ep m sp f \<and> file_inv X k tag asset cid feed ep m sp g)"

lemma file_inv_mono: "file_inv X k tag asset cid feed ep m sp f \<Longrightarrow> m \<le> m' \<Longrightarrow> sp \<subseteq> sp' \<Longrightarrow> file_inv X k tag asset cid feed ep m' sp' f"
  unfolding file_inv_def using cache_inv_mono by fastforce

lemma disk_inv_mono: "disk_inv X k tag asset cid feed ep m sp d \<Longrightarrow> m \<le> m' \<Longrightarrow> sp \<subseteq> sp' \<Longrightarrow> disk_inv X k tag asset cid feed ep m' sp' d"
  unfolding disk_inv_def using file_inv_mono by blast

lemma disk_inv_crash: "disk_inv X k tag asset cid feed ep m sp d \<Longrightarrow> disk_inv X k tag asset cid feed ep m sp (after_crash c d)"
  unfolding disk_inv_def by (cases c) (auto simp: after_crash_def Let_def)

lemma disk_inv_write:
  assumes "disk_inv X k tag asset cid feed ep m sp d" and "file_inv X k tag asset cid feed ep m sp f" and "save_shield fault f d = (r, d')"
  shows "disk_inv X k tag asset cid feed ep m sp d' \<and> (fault = None \<longrightarrow> r = Ok ())"
proof -
  have "fault = None \<Longrightarrow> r = Ok ()" using assms(3) by (simp add: save_shield_def write_atomic_def)
  moreover have "disk_inv X k tag asset cid feed ep m sp d'"
    using assms by (cases rule: write_atomic_cases [of fault f d]) (auto simp: save_shield_def disk_inv_def)
  ultimately show ?thesis by blast
qed

lemma cache_of_with_cache [simp]: "cache_of X (with_cache X f asset c) asset = c" "shield_keys X (with_cache X f asset c) = shield_keys X f"
  by (simp_all add: cache_of_def with_cache_def shield_keys_def)

lemma scan_cache_for_chain: "scan_cache X nd k (cache_for_chain nd c) = scan_cache X nd k c"
  by (simp add: scan_cache_def cache_for_chain_def Let_def)

lemma my_notes_scans:
  assumes "hex_law X" and "owner_tag X k = Ok tag" and "file_inv X k tag asset cid feed ep m sp f" and "disk_inv X k tag asset cid feed ep m sp d"
    and "serves nd cid (take m' feed) h sp'" and "m \<le> m'" "m' \<le> length feed" "m' < 2 ^ 64" "sp \<subseteq> sp'" and "\<And>j. j < m' \<Longrightarrow> ep j \<le> unat (epoch_of h)"
    and "my_notes X fault nd k asset f d = (r, f1, d1)"
  shows "disk_inv X k tag asset cid feed ep m' sp' d1
    \<and> (fault = None \<longrightarrow> (\<exists>out. r = Ok out \<and> shown X k tag feed ep m' sp' out \<and> file_inv X k tag asset cid feed ep m' sp' f1 \<and> unat (ca_scanned_through (cache_of X f1 asset)) = m'))"
proof -
  let ?c = "cache_for_chain nd (cache_of X f asset)"
  have c: "ca_chain_id ?c = cid" "cache_inv X k tag feed ep sp ?c" "unat (ca_scanned_through ?c) \<le> m'"
    using assms(3,5,6) cache_inv_default [of X k tag feed ep sp cid] by (auto simp: cache_for_chain_def serves_def file_inv_def cache_default_def)
  from scan_cache_served [OF assms(1,2) c(2) assms(9,5) c(1,3) assms(7,8,10)] obtain out c'
    where s: "scan_cache X nd k (cache_of X f asset) = Ok (out, c', False)" "shown X k tag feed ep m' sp' out"
      "cache_inv X k tag feed ep sp' c'" "ca_chain_id c' = cid" "unat (ca_scanned_through c') = m'" by (auto simp: scan_cache_for_chain)
  let ?f = "with_cache X f asset c'"
  have d: "disk_inv X k tag asset cid feed ep m' sp' d" using disk_inv_mono [OF assms(4,6,9)] .
  have f: "file_inv X k tag asset cid feed ep m' sp' ?f" using assms(3) s(3,5) by (simp add: file_inv_def)
  show ?thesis
  proof (cases "c' = cache_of X f asset")
    case True
    then show ?thesis using assms(11) s d f by (auto simp: my_notes_def)
  next
    case False
    obtain r1 d2 where w: "save_shield fault ?f d = (r1, d2)" by fastforce
    with assms(11) False s(1) have "f1 = ?f" "d1 = d2" "r = bind_ok r1 (\<lambda>_. Ok out)" by (simp_all add: my_notes_def)
    then show ?thesis using disk_inv_write [OF d f w] s(2,5) f by auto
  qed
qed

lemma do_scan_scans:
  assumes "hex_law X" and "owner_tag X k = Ok tag" and "unat (wk_h k) \<le> SPEND_TREE_DEPTH" and "disk_inv X k tag asset cid feed ep m sp d"
    and "serves (si_node i) cid (take m' feed) h sp'" and "m \<le> m'" "m' \<le> length feed" "m' < 2 ^ 64" "sp \<subseteq> sp'" and "\<And>j. j < m' \<Longrightarrow> ep j \<le> unat (epoch_of h)"
  shows "disk_inv X k tag asset cid feed ep m' sp' (snd (do_scan X i asset d))
    \<and> (si_fault_scan i = None \<longrightarrow> (\<exists>out a new n. fst (do_scan X i asset d) = Ok (out, a, new, of_nat m', n) \<and> shown X k tag feed ep m' sp' out))"
proof -
  obtain f where f: "fs_seen d = Some f" "file_inv X k tag asset cid feed ep m sp f" using assms(4) by (auto simp: disk_inv_def)
  obtain r f1 d1 where r: "my_notes X (si_fault_scan i) (si_node i) k asset f d = (r, f1, d1)" by (metis prod_cases3)
  note n = my_notes_scans [OF assms(1,2) f(2) assms(4-10) r]
  obtain a where a: "address_at X k (epoch_of h) = Ok a" using address_of_wallet [OF assms(3)] by blast
  have "unat (of_nat m' :: u64) = m'" using assms(8) by (simp add: unsigned_of_nat take_bit_nat_eq_self)
  then have u: "unat x = m' \<Longrightarrow> x = of_nat m'" for x :: u64 by (metis word_unat_eq_iff)
  have "nd_height (si_node i) = Some h" using assms(5) by (simp add: serves_def)
  then have "do_scan X i asset d = try_rw (keep_file (r, f1, d1)) (\<lambda>(ns, f2) d2.
      (Ok (ns, a, saturating_sub (ca_scanned_through (cache_of X f2 asset)) (ca_scanned_through (cache_of X f asset)), ca_scanned_through (cache_of X f2 asset), sf_next_ots_index f2), d2))"
    using f(2) by (simp add: do_scan_def load_or_create_shield_def f(1) file_inv_def a panic_of_def ok_or_def r Let_def)
  then show ?thesis using n u by (cases r) (auto simp: keep_file_def)
qed

lemma observed_keeps_disk:
  assumes "observed cid feed ep es m sp" and "hex_law X" and "owner_tag X k = Ok tag" and "unat (wk_h k) \<le> SPEND_TREE_DEPTH" and "length feed < 2 ^ 64"
    and "disk_inv X k tag asset cid feed ep 0 {} d"
  shows "disk_inv X k tag asset cid feed ep m sp (foldl (scan_step X asset) d es)"
  using assms(1)
proof induction
  case observed_start
  show ?case using assms(6) by simp
next
  case (observed_crash es m sp c)
  then show ?case by (simp add: disk_inv_crash)
next
  case (observed_scan es m sp m' sp' i h)
  have "m' < 2 ^ 64" using observed_scan(3) assms(5) by linarith
  from do_scan_scans [OF assms(2-4) observed_scan(7,5,2,3) this observed_scan(4,6)] show ?case by simp
qed

text \<open>C19: The wallet sees every note. Over any run of scans against a chain that goes on, whatever step of a write fails and whether the
  process is killed or the machine loses power between them, the next scan reads the rest of the feed page by page and shows each note once: every entry that an address of an
  epoch up to its own opens is shown, whatever is shown was opened from its entry, and it counts as spent exactly when its nullifier is published.
  A cache of another chain is dropped.\<close>

theorem wallet_sees_every_note:
  assumes "hex_law X" and "shield_keys X f = Ok k" and "ca_chain_id (cache_of X f asset) \<noteq> cid \<or> cache_of X f asset = cache_default"
    and "length feed < 2 ^ 64" and "observed cid feed ep (es @ [DoScan i]) m sp" and "si_fault_scan i = None"
  shows "\<exists>tag out a new n d. owner_tag X k = Ok tag
    \<and> do_scan X i asset (foldl (scan_step X asset) \<lparr>fs_seen = Some f, fs_stable = Some f\<rparr> es) = (Ok (out, a, new, of_nat m, n), d)
    \<and> shown X k tag feed ep m sp out"
proof -
  have h: "unat (wk_h k) \<le> SPEND_TREE_DEPTH" using assms(2) by (auto simp: shield_keys_def SPEND_TREE_DEPTH_def split: option.splits)
  obtain tag where tag: "owner_tag X k = Ok tag" using address_of_wallet [OF h] by blast
  let ?d = "\<lparr>fs_seen = Some f, fs_stable = Some f\<rparr>"
  have "disk_inv X k tag asset cid feed ep 0 {} ?d"
    using assms(2,3) cache_inv_default [of X k tag feed ep "{}" "ca_chain_id cache_default"] by (auto simp: disk_inv_def file_inv_def cache_default_def)
  note keeps = observed_keeps_disk [OF _ assms(1) tag h assms(4) this]
  from assms(5) obtain m0 sp0 ht where o: "observed cid feed ep es m0 sp0" "m0 \<le> m" "m \<le> length feed" "sp0 \<subseteq> sp" "serves (si_node i) cid (take m feed) ht sp"
    "\<And>j. j < m \<Longrightarrow> ep j \<le> unat (epoch_of ht)" by (rule observed_snoc) auto
  have "m < 2 ^ 64" using o(3) assms(4) by linarith
  from do_scan_scans [OF assms(1) tag h keeps [OF o(1)] o(5,2,3) this o(4,6)] assms(6) tag show ?thesis
    by (metis prod.collapse)
qed

text \<open>A sample chain with one note for the sample wallet.\<close>

definition sample_shield :: shield_env where
  "sample_shield = \<lparr>xof256 = xof256 sample_hash, sha256 = sha256 sample_hash,
     ek_of_seed = (\<lambda>seed. be_bytes EK_LEN (le_value seed)), ek_valid = (\<lambda>_. True),
     encapsulate_deterministic = (\<lambda>ek coin. (replicate CT_LEN (of_nat (le_value coin)), 42)), dk_decapsulate = (\<lambda>_ _. 42),
     hx_encode = map (\<lambda>b. char_of (unat b)), hx_decode = (\<lambda>s. Some (map (\<lambda>c. of_nat (of_char c)) s))\<rparr>"

lemma sample_shield_laws: "xof_law sample_shield" "kem_correct sample_shield seed coin" "hex_law sample_shield"
proof -
  have "unat b < 256" for b :: u8 using unsigned_less [of b, where ?'a = nat] by simp
  then have "of_nat (unat b mod 256) = b" for b :: u8 by simp
  then show "hex_law sample_shield" by (simp add: hex_law_def sample_shield_def comp_def)
qed (simp_all add: xof_law_def kem_correct_def sample_shield_def sample_hash_def be_bytes_def)

definition sample_file :: ShieldFile where
  "sample_file = \<lparr>sf_version = 1, sf_master_hex = hx_encode sample_shield [9], sf_next_ots_index = 0, sf_next_note_tag = 1, sf_scan = cache_default, sf_pools = Map.empty\<rparr>"

definition sample_keys :: WalletKeys where
  "sample_keys = \<lparr>wk_master = [9], wk_h = 6\<rparr>"

definition sample_node :: "(H256 \<times> bytes) list \<Rightarrow> PoolNode" where
  "sample_node feed = \<lparr>nd_chain_id = Some ''hk'', nd_height = Some 0, nd_fee = Some 1, nd_balance = (\<lambda>_ _. Some 100),
     nd_page = (\<lambda>_ cursor. Some (get_pool_notes feed (Some cursor) (Some POOL_PAGE))), nd_spent = (\<lambda>_. Some False),
     nd_path = (\<lambda>i. case full_tree_path sample_shield (map fst feed) i of Ok p \<Rightarrow> Some p | _ \<Rightarrow> None)\<rparr>"

definition sample_input :: "WriteStep option \<Rightarrow> (H256 \<times> bytes) list \<Rightarrow> SpendInput" where
  "sample_input fault feed = \<lparr>si_node = sample_node feed, si_fault_create = None, si_fault_scan = fault, si_fault_tag = None, si_fault_ots = None,
     si_fresh = [9], si_coin = [1], si_out_coin = [1], si_out_entropy = [2], si_dummy = (0, 0)\<rparr>"

lemma sample_serves: "serves (si_node (sample_input fault feed)) ''hk'' feed 0 {}" "si_fault_scan (sample_input fault feed) = fault"
  by (simp_all add: serves_def sample_input_def sample_node_def)

lemma sample_file_keys: "shield_keys sample_shield sample_file = Ok sample_keys"
  using sample_shield_laws(3) by (simp add: shield_keys_def sample_file_def sample_keys_def hex_law_def)

definition sample_note :: "H256 \<times> bytes \<Rightarrow> bool" where
  "sample_note en \<longleftrightarrow> (\<exists>a out. address_at sample_shield sample_keys 0 = Ok a \<and> build_output sample_shield a 600 [1] [2] [104, 105] = Some out
     \<and> en = (so_commitment out, so_stealth_ct out))"

lemma sample_note_opens:
  assumes "sample_note en" and "owner_tag sample_shield sample_keys = Ok tag"
  shows "\<exists>d. scan_one sample_shield (kem_at sample_shield sample_keys e) tag (entry_at [en] 0) = Some d \<and> nt_value (dc_note d) = 600"
proof -
  from assms(1) obtain a out where o: "address_at sample_shield sample_keys 0 = Ok a" "build_output sample_shield a 600 [1] [2] [104, 105] = Some out"
    "en = (so_commitment out, so_stealth_ct out)" by (auto simp: sample_note_def)
  have a: "sa_tag a = tag" "sa_kem_pk a = kem_public sample_shield (kem_at sample_shield sample_keys 0)" using o(1) assms(2) by (auto simp: address_at_def)
  have same: "kem_decaps sample_shield (kem_at sample_shield sample_keys e) = kem_decaps sample_shield (kem_at sample_shield sample_keys 0)"
    by (simp add: fun_eq_iff kem_decaps_def sample_shield_def)
  have "scan_one sample_shield (kem_at sample_shield sample_keys 0) tag (0, en) = Some \<lparr>dc_note = so_note out, dc_commitment = so_commitment out, dc_leaf_index = 0, dc_memo = [104, 105]\<rparr>"
    using scan_one_output(1) [OF sample_shield_laws(1,2) a(2) o(2), of 0] a(1) o(3) by simp
  moreover have "scan_one sample_shield (kem_at sample_shield sample_keys e) tag (0, en) = scan_one sample_shield (kem_at sample_shield sample_keys 0) tag (0, en)"
    by (simp only: scan_one_def same)
  ultimately show ?thesis using build_output_SomeE [OF o(2)] by (simp add: entry_at_def)
qed

lemma sample_keys_depth: "unat (wk_h sample_keys) \<le> SPEND_TREE_DEPTH"
  by (simp add: sample_keys_def SPEND_TREE_DEPTH_def)

lemma sample_note_exists: "\<exists>en. sample_note en"
proof -
  from address_of_wallet [OF sample_keys_depth, of sample_shield 0] obtain a :: StealthAddress
    where a: "address_at sample_shield sample_keys 0 = Ok a" "sa_kem_pk a = kem_public sample_shield (kem_at sample_shield sample_keys 0)" by (metis StealthAddress.select_convs(2))
  from build_output_total [OF sample_shield_laws(2) a(2)] a(1) show ?thesis by (auto simp: sample_note_def)
qed

theorem wallet_sees_every_note_witness:
  "\<exists>en out a new n d. sample_note en
    \<and> do_scan sample_shield (sample_input None [en]) USD (foldl (scan_step sample_shield USD) \<lparr>fs_seen = Some sample_file, fs_stable = Some sample_file\<rparr>
        [DoScan (sample_input (Some SyncDir) []), Crashed (PowerLoss False)]) = (Ok (out, a, new, 1, n), d)
    \<and> 0 \<in> (dc_leaf_index \<circ> fst) ` set out"
proof -
  obtain en where en: "sample_note en" using sample_note_exists by blast
  have s0: "serves (si_node (sample_input (Some SyncDir) [])) ''hk'' (take 0 [en]) 0 {}" by (simp add: sample_serves)
  have s1: "serves (si_node (sample_input None [en])) ''hk'' (take 1 [en]) 0 {}" by (simp add: sample_serves)
  have "observed ''hk'' [en] (\<lambda>_. 0) ([] @ [DoScan (sample_input (Some SyncDir) [])]) 0 {}"
    by (rule observed_scan [OF observed_start _ _ _ s0]) simp_all
  then have o1: "observed ''hk'' [en] (\<lambda>_. 0) [DoScan (sample_input (Some SyncDir) []), Crashed (PowerLoss False)] 0 {}"
    using observed_crash [of "''hk''" "[en]" "\<lambda>_. 0" "[DoScan (sample_input (Some SyncDir) [])]" 0 "{}" "PowerLoss False"] by simp
  have ob: "observed ''hk'' [en] (\<lambda>_. 0) ([DoScan (sample_input (Some SyncDir) []), Crashed (PowerLoss False)] @ [DoScan (sample_input None [en])]) 1 {}"
    by (rule observed_scan [OF o1 _ _ _ s1]) simp_all
  have c: "ca_chain_id (cache_of sample_shield sample_file USD) \<noteq> ''hk'' \<or> cache_of sample_shield sample_file USD = cache_default"
    by (simp add: cache_of_def sample_file_def)
  have l: "length [en] < 2 ^ 64" by simp
  from wallet_sees_every_note [OF sample_shield_laws(3) sample_file_keys c l ob sample_serves(2)]
  obtain tag out a new n d where r: "owner_tag sample_shield sample_keys = Ok tag"
    "do_scan sample_shield (sample_input None [en]) USD (foldl (scan_step sample_shield USD) \<lparr>fs_seen = Some sample_file, fs_stable = Some sample_file\<rparr>
        [DoScan (sample_input (Some SyncDir) []), Crashed (PowerLoss False)]) = (Ok (out, a, new, 1, n), d)"
    "shown sample_shield sample_keys tag [en] (\<lambda>_. 0) 1 {} out" unfolding of_nat_1 by blast
  have "scan_one sample_shield (kem_at sample_shield sample_keys 0) tag (entry_at [en] 0) \<noteq> None" using sample_note_opens [OF en r(1), of 0] by auto
  then have "of_nat 0 \<in> (dc_leaf_index \<circ> fst) ` set out" using r(3) [unfolded shown_def, THEN conjunct2, THEN conjunct2] by (metis less_one unsigned_0 le_refl)
  then have "0 \<in> (dc_leaf_index \<circ> fst) ` set out" by simp
  with en r(2) show ?thesis by blast
qed

end
