(* ===== verification/HK_ShieldRuns.thy ===== *)
theory HK_ShieldRuns
  imports HK_ScanRuns
begin

text \<open>
  Runs of the wallet of \<^verbatim>\<open>hk-wallet-core\<close>: no leaf of the spend tree is used for two spends, whatever the disk and the machine do, and a wallet
  that holds a note large enough makes its spend.
\<close>

section \<open>The leaf counter on the disk\<close>

definition leaf_at :: "ShieldFile option \<Rightarrow> nat" where
  "leaf_at v = (case v of Some f \<Rightarrow> unat (sf_next_ots_index f) | None \<Rightarrow> 0)"

definition disk_ok :: "ShieldFile FileState \<Rightarrow> bool" where
  "disk_ok d \<longleftrightarrow> leaf_at (fs_stable d) \<le> leaf_at (fs_seen d) \<and> leaf_at (fs_seen d) \<le> 64"

text \<open>What every step but the reservation of a leaf does to the counter.\<close>

definition steady :: "ShieldFile FileState \<Rightarrow> ShieldFile FileState \<Rightarrow> bool" where
  "steady d d' \<longleftrightarrow> disk_ok d' \<and> leaf_at (fs_seen d') = leaf_at (fs_seen d) \<and> leaf_at (fs_stable d) \<le> leaf_at (fs_stable d')"

definition holds :: "ShieldFile \<Rightarrow> ShieldFile FileState \<Rightarrow> bool" where
  "holds f d \<longleftrightarrow> disk_ok d \<and> leaf_at (Some f) = leaf_at (fs_seen d)"

lemma steady_refl: "disk_ok d \<Longrightarrow> steady d d"
  by (simp add: steady_def)

lemma steady_trans: "steady d d1 \<Longrightarrow> steady d1 d2 \<Longrightarrow> steady d d2"
  by (simp add: steady_def)

lemma save_steady:
  assumes "save_shield fault f d = (r, d')" and "holds f d"
  shows "steady d d' \<and> holds f d'"
  using assms by (cases rule: write_atomic_cases [of fault f d]) (auto simp: save_shield_def holds_def steady_def disk_ok_def)

lemma load_steady:
  assumes "load_or_create_shield X fault fresh d = (r, d')" and "disk_ok d"
  shows "steady d d' \<and> (\<forall>f. r = Ok f \<longrightarrow> holds f d')"
proof (cases "fs_seen d")
  case None
  define f where "f = \<lparr>sf_version = 1, sf_master_hex = hx_encode X fresh, sf_next_ots_index = 0, sf_next_note_tag = 1, sf_scan = cache_default, sf_pools = Map.empty\<rparr>"
  obtain r1 where s: "save_shield fault f d = (r1, d')" "r = bind_ok r1 (\<lambda>_. Ok f)"
    using assms(1) None by (auto simp: load_or_create_shield_def Let_def f_def split: prod.splits)
  have "holds f d" using assms(2) None by (simp add: holds_def leaf_at_def f_def)
  from save_steady [OF s(1) this] s(2) show ?thesis by (cases r1) auto
next
  case (Some f)
  then show ?thesis using assms by (auto simp: load_or_create_shield_def holds_def steady_refl)
qed

lemma with_cache_index [simp]: "sf_next_ots_index (with_cache X f asset c) = sf_next_ots_index f"
  by (simp add: with_cache_def)

lemma holds_index: "sf_next_ots_index f' = sf_next_ots_index f \<Longrightarrow> holds f' d = holds f d"
  by (simp add: holds_def leaf_at_def)

lemma my_notes_steady:
  assumes "my_notes X fault nd k asset f d = (r, f', d')" and "holds f d"
  shows "steady d d' \<and> (\<forall>x. r = Ok x \<longrightarrow> holds f' d')"
proof -
  have d: "steady d d" using assms(2) by (simp add: holds_def steady_refl)
  have h: "holds (with_cache X f asset c) d" for c using assms(2) holds_index [of "with_cache X f asset c" f d] by simp
  show ?thesis
  proof (cases "scan_cache X nd k (cache_of X f asset)")
    case (Ok x)
    obtain out c shrunk where x: "x = (out, c, shrunk)" by (cases x)
    show ?thesis
    proof (cases "shrunk \<or> c \<noteq> cache_of X f asset")
      case True
      obtain r1 d1 where s: "save_shield fault (with_cache X f asset c) d = (r1, d1)" by fastforce
      from assms(1) True have "f' = with_cache X f asset c" "d' = d1" by (simp_all add: my_notes_def Ok x s)
      then show ?thesis using save_steady [OF s h] by simp
    next
      case False
      then show ?thesis using assms(1) d h [of c] by (simp add: my_notes_def Ok x)
    qed
  qed (use assms d in \<open>simp_all add: my_notes_def\<close>)
qed

lemma reserve_tag_steady:
  assumes "reserve_tag fault f d = (r, f', d')" and "holds f d"
  shows "steady d d' \<and> (\<forall>x. r = Ok x \<longrightarrow> holds f' d')"
proof -
  let ?f = "f\<lparr>sf_next_note_tag := sf_next_note_tag f + 1\<rparr>"
  have h: "holds ?f d" using assms(2) holds_index [of ?f f d] by simp
  obtain r1 d1 where s: "save_shield fault ?f d = (r1, d1)" by fastforce
  from assms(1) have "f' = ?f" "d' = d1" by (simp_all add: reserve_tag_def s Let_def)
  then show ?thesis using save_steady [OF s h] by simp
qed

lemma reserve_ots_cases:
  assumes "holds f d"
  obtains (taken) "leaf_at (fs_seen d) < 64" "unat (sf_next_ots_index f) = leaf_at (fs_seen d)"
      "reserve_ots fault f d = (Ok (sf_next_ots_index f), f\<lparr>sf_next_ots_index := sf_next_ots_index f + 1\<rparr>,
         \<lparr>fs_seen = Some (f\<lparr>sf_next_ots_index := sf_next_ots_index f + 1\<rparr>), fs_stable = Some (f\<lparr>sf_next_ots_index := sf_next_ots_index f + 1\<rparr>)\<rparr>)"
      "leaf_at (Some (f\<lparr>sf_next_ots_index := sf_next_ots_index f + 1\<rparr>)) = Suc (leaf_at (fs_seen d))"
  | (failed) e f' d' where "reserve_ots fault f d = (Err e, f', d')" "disk_ok d'" "leaf_at (fs_seen d) \<le> leaf_at (fs_seen d')" "fs_stable d' = fs_stable d"
proof (cases "sf_next_ots_index f \<ge> OTS_CAPACITY")
  case True
  then show ?thesis using failed [of "SpendTreeExhausted (sf_next_ots_index f)" f d] assms by (simp add: reserve_ots_def holds_def)
next
  case False
  let ?f = "f\<lparr>sf_next_ots_index := sf_next_ots_index f + 1\<rparr>"
  have small: "unat (sf_next_ots_index f) < 64" using False by (simp add: OTS_CAPACITY_def word_le_nat_alt)
  have up: "leaf_at (Some ?f) = Suc (leaf_at (fs_seen d))"
    using assms False unat_plus_one [of "sf_next_ots_index f" OTS_CAPACITY] by (simp add: holds_def leaf_at_def)
  have n: "unat (sf_next_ots_index f) = leaf_at (fs_seen d)" using assms by (simp add: holds_def leaf_at_def)
  consider "write_atomic fault ?f d = (Ok (), \<lparr>fs_seen = Some ?f, fs_stable = Some ?f\<rparr>)"
    | e where "write_atomic fault ?f d = (Err e, d\<lparr>fs_seen := Some ?f\<rparr>)" | e where "write_atomic fault ?f d = (Err e, d)"
    by (rule write_atomic_cases)
  then show ?thesis
  proof cases
    case 1
    then show ?thesis using False taken small up n by (simp add: reserve_ots_def Let_def save_shield_def)
  next
    case 2
    then show ?thesis using False failed [of "ShieldWrite e" ?f "d\<lparr>fs_seen := Some ?f\<rparr>"] assms up small n
      by (simp add: reserve_ots_def Let_def save_shield_def holds_def disk_ok_def)
  next
    case 3
    then show ?thesis using False failed [of "ShieldWrite e" ?f d] assms by (simp add: reserve_ots_def Let_def save_shield_def holds_def)
  qed
qed

section \<open>The operations\<close>

text \<open>A step that only moves the disk steadily whatever it returns, and whose value keeps \<open>P\<close> with the disk.\<close>

definition steadily :: "('a \<Rightarrow> ShieldFile FileState \<Rightarrow> bool) \<Rightarrow> ShieldFile FileState \<Rightarrow> ('a, ShieldError, ShieldFile FileState) step \<Rightarrow> bool" where
  "steadily P d m \<longleftrightarrow> steady d (snd m) \<and> (\<forall>x. fst m = Ok x \<longrightarrow> P x (snd m))"

lemma steadilyI: "(\<And>r d'. m = (r, d') \<Longrightarrow> steady d d' \<and> (\<forall>x. r = Ok x \<longrightarrow> P x d')) \<Longrightarrow> steadily P d m"
  by (cases m) (simp add: steadily_def)

lemma steadily_Ok: "disk_ok d \<Longrightarrow> P x d \<Longrightarrow> steadily P d (Ok x, d)"
  by (simp add: steadily_def steady_refl)

lemma steadily_Err: "disk_ok d \<Longrightarrow> steadily P d (Err e, d)"
  by (simp add: steadily_def steady_refl)

lemma steadily_ro:
  assumes "disk_ok d" and "\<And>x. r = Ok x \<Longrightarrow> steadily P d (g x)"
  shows "steadily P d (try_ro r d g)"
  using assms by (cases r) (auto simp: steadily_def steady_refl)

lemma steadily_rw:
  assumes "steadily Q d m" and "\<And>x d'. steady d d' \<Longrightarrow> Q x d' \<Longrightarrow> steadily P d' (g x d')"
  shows "steadily P d (try_rw m g)"
proof (cases m)
  case (Pair r d1)
  with assms(1) have s: "steady d d1" by (simp add: steadily_def)
  show ?thesis
  proof (cases r)
    case (Ok x)
    with Pair assms(1) assms(2) [OF s, of x] have "steadily P d1 (g x d1)" by (simp add: steadily_def)
    with s Pair Ok show ?thesis by (auto simp: steadily_def intro: steady_trans)
  qed (use s Pair in \<open>simp_all add: steadily_def\<close>)
qed

lemma load_steadily: "disk_ok d \<Longrightarrow> steadily holds d (load_or_create_shield X fault fresh d)"
  by (rule steadilyI) (rule load_steady)

lemma keep_steadily:
  assumes "\<And>r f' d'. m = (r, f', d') \<Longrightarrow> steady d d' \<and> (\<forall>x. r = Ok x \<longrightarrow> holds f' d')"
  shows "steadily (\<lambda>(x, f) d. holds f d) d (keep_file m)"
proof (cases m)
  case (fields r f d1)
  then show ?thesis using assms [OF fields] by (cases r) (simp_all add: keep_file_def steadily_def)
qed

lemma my_notes_steadily: "holds f d \<Longrightarrow> steadily (\<lambda>(x, f) d. holds f d) d (keep_file (my_notes X fault nd k asset f d))"
  by (rule keep_steadily) (rule my_notes_steady)

lemma reserve_tag_steadily: "holds f d \<Longrightarrow> steadily (\<lambda>(x, f) d. holds f d) d (keep_file (reserve_tag fault f d))"
  by (rule keep_steadily) (rule reserve_tag_steady)

lemma holds_disk_ok: "holds f d \<Longrightarrow> disk_ok d"
  by (simp add: holds_def)

lemma open_input_steadily: "disk_ok d \<Longrightarrow> steadily (\<lambda>(x, k, f) d. holds f d) d (open_input X i account asset amt d)"
  unfolding open_input_def
  by (rule steadily_rw [OF load_steadily], assumption)
    (auto intro!: steadily_ro steadily_rw [OF my_notes_steadily] steadily_Ok dest: holds_disk_ok)

lemma do_scan_steadily: "disk_ok d \<Longrightarrow> steadily (\<lambda>_ _. True) d (do_scan X i asset d)"
  unfolding do_scan_def
  by (rule steadily_rw [OF load_steadily], assumption)
    (auto simp: Let_def intro!: steadily_ro steadily_rw [OF my_notes_steadily] steadily_Ok dest: holds_disk_ok)

lemma shield_plan_steadily: "disk_ok d \<Longrightarrow> steadily (\<lambda>_ _. True) d (shield_plan X i account asset amt d)"
  unfolding shield_plan_def
  by (rule steadily_rw [OF load_steadily], assumption)
    (auto intro!: steadily_ro steadily_rw [OF reserve_tag_steadily] steadily_Ok steadily_Err dest: holds_disk_ok)

text \<open>A plan is signed with a leaf, and a step that yields a plan has taken the leaf the counter stood at and has written the next one.\<close>

definition signed_with :: "'x hash_env_scheme \<Rightarrow> u32 \<Rightarrow> SpendPlan \<Rightarrow> bool" where
  "signed_with X ots plan \<longleftrightarrow> run X (pl_witness plan) = Ok (pl_public plan)
     \<and> (\<exists>k. authorize X k ots (sw_tx_binding (pl_witness plan)) = Ok (sw_sig (pl_witness plan), sw_ots_path (pl_witness plan)))"

definition takes_leaf :: "'x hash_env_scheme \<Rightarrow> ShieldFile FileState \<Rightarrow> (u32 \<times> SpendPlan, ShieldError, ShieldFile FileState) step \<Rightarrow> bool" where
  "takes_leaf X d m \<longleftrightarrow> disk_ok (snd m) \<and> leaf_at (fs_seen d) \<le> leaf_at (fs_seen (snd m)) \<and> leaf_at (fs_stable d) \<le> leaf_at (fs_stable (snd m))
     \<and> (\<forall>ots plan. fst m = Ok (ots, plan) \<longrightarrow> unat ots = leaf_at (fs_seen d) \<and> leaf_at (fs_seen d) < 64 \<and> signed_with X ots plan
          \<and> leaf_at (fs_seen (snd m)) = Suc (leaf_at (fs_seen d)) \<and> leaf_at (fs_stable (snd m)) = Suc (leaf_at (fs_seen d)))"

lemma takes_leaf_ro:
  assumes "disk_ok d" and "\<And>x. r = Ok x \<Longrightarrow> takes_leaf X d (g x)"
  shows "takes_leaf X d (try_ro r d g)"
  using assms by (cases r) (auto simp: takes_leaf_def)

lemma takes_leaf_rw:
  assumes "steadily Q d m" and "\<And>x d'. Q x d' \<Longrightarrow> takes_leaf X d' (g x d')"
  shows "takes_leaf X d (try_rw m g)"
proof (cases m)
  case (Pair r d1)
  with assms(1) have s: "steady d d1" by (simp add: steadily_def)
  show ?thesis
  proof (cases r)
    case (Ok x)
    with Pair assms(1) have "Q x d1" by (simp add: steadily_def)
    from assms(2) [OF this] s Pair Ok show ?thesis unfolding takes_leaf_def steady_def by auto
  qed (use s Pair in \<open>simp_all add: takes_leaf_def steady_def\<close>)
qed

text \<open>After the reservation nothing is written: the value is the plan of the leaf or an error.\<close>

lemma takes_leaf_reserve:
  assumes "holds f d" and "\<And>ots f' d'. snd (g (ots, f') d') = d'"
    and "\<And>ots f' d' ots' plan. fst (g (ots, f') d') = Ok (ots', plan) \<Longrightarrow> ots' = ots \<and> signed_with X ots plan"
  shows "takes_leaf X d (try_rw (keep_file (reserve_ots fault f d)) g)"
proof (cases rule: reserve_ots_cases [OF assms(1), of fault])
  case 1
  let ?f = "f\<lparr>sf_next_ots_index := sf_next_ots_index f + 1\<rparr>"
  have "try_rw (keep_file (reserve_ots fault f d)) g = g (sf_next_ots_index f, ?f) \<lparr>fs_seen = Some ?f, fs_stable = Some ?f\<rparr>"
    by (simp add: 1(3) keep_file_def)
  with assms(1) assms(3) [of "sf_next_ots_index f" ?f "\<lparr>fs_seen = Some ?f, fs_stable = Some ?f\<rparr>"] 1(1,2,4) show ?thesis
    by (auto simp: takes_leaf_def assms(2) disk_ok_def holds_def)
next
  case (2 e f' d')
  then show ?thesis by (simp add: takes_leaf_def keep_file_def)
qed

lemma try_ro_snd: "(\<And>x. snd (g x) = d) \<Longrightarrow> snd (try_ro r d g) = d"
  by (cases r) simp_all

lemma try_ro_value: "fst (try_ro r d g) = Ok y \<Longrightarrow> \<exists>x. r = Ok x \<and> fst (g x) = Ok y"
  by (cases r) simp_all

lemma plan_signed:
  assumes "build_spend_with_path X siblings root leaf_index in_note k ots o1 o2 fee credit = Ok plan"
  shows "signed_with X ots plan"
proof -
  let ?b = "tx_binding_for X credit fee"
  obtain sig path where a: "authorize X k ots ?b = Ok (sig, path)"
    using assms by (cases "authorize X k ots ?b") (auto simp: build_spend_with_path_def Let_def lift_panic_def split: if_splits)
  then show ?thesis using assms
    by (cases "run X (pl_witness plan)") (auto simp: build_spend_with_path_def Let_def lift_panic_def signed_with_def map_err_def bind_ok_def split: if_splits outcome.splits)
qed

lemma spend_input_takes_leaf:
  assumes "holds f d"
  shows "takes_leaf X d (spend_input X i amt mk fee credit (dn, k, f) d)"
proof -
  have d: "disk_ok d" using assms by (rule holds_disk_ok)
  show ?thesis unfolding spend_input_def prod.case Let_def
    apply (rule takes_leaf_ro [OF d])
    apply (clarsimp simp del: try_ro_simps try_rw_simps)
    apply (rule takes_leaf_rw [OF reserve_tag_steadily [OF assms]])
    apply (clarsimp simp del: try_ro_simps try_rw_simps)
    apply (rule takes_leaf_reserve, assumption)
     apply (auto intro!: try_ro_snd split: prod.split) [1]
    apply (auto dest!: try_ro_value simp: map_err_def split: prod.splits outcome.splits intro: plan_signed)
    done
qed

lemma unshield_takes_leaf: "disk_ok d \<Longrightarrow> takes_leaf X d (unshield_plan X i account asset amt d)"
  unfolding unshield_plan_def by (rule takes_leaf_rw [OF open_input_steadily]) (auto intro: spend_input_takes_leaf)

lemma pay_takes_leaf: "disk_ok d \<Longrightarrow> takes_leaf X d (pay_plan X i account asset amt to_a memo d)"
  unfolding pay_plan_def by (rule takes_leaf_rw [OF open_input_steadily]) (auto intro!: takes_leaf_ro spend_input_takes_leaf dest: holds_disk_ok)

section \<open>Runs of the wallet\<close>

datatype WalletOp =
  Scan SpendInput H256
| Shield SpendInput H256 H256 Amount
| Unshield SpendInput H256 H256 Amount
| Pay SpendInput H256 H256 Amount StealthAddress bytes

definition plan_of :: "('a, ShieldError, ShieldFile FileState) step \<Rightarrow> 'a option \<times> ShieldFile option \<times> ShieldFile FileState" where
  "plan_of m = (case m of (Ok r, d) \<Rightarrow> (Some r, fs_seen d, d) | (_, d) \<Rightarrow> (None, fs_seen d, d))"

fun wallet_op :: "'x shield_env_scheme \<Rightarrow> WalletOp \<Rightarrow> ShieldFile option \<Rightarrow> ShieldFile FileState \<Rightarrow> (u32 \<times> SpendPlan) option \<times> ShieldFile option \<times> ShieldFile FileState" where
  "wallet_op X (Scan i asset) s d = (let d1 = snd (do_scan X i asset d) in (None, fs_seen d1, d1))"
| "wallet_op X (Shield i account asset amt) s d = (let d1 = snd (shield_plan X i account asset amt d) in (None, fs_seen d1, d1))"
| "wallet_op X (Unshield i account asset amt) s d = plan_of (unshield_plan X i account asset amt d)"
| "wallet_op X (Pay i account asset amt to_a memo) s d = plan_of (pay_plan X i account asset amt to_a memo d)"

definition wallet_restart :: "Crash \<Rightarrow> ShieldFile option \<Rightarrow> ShieldFile FileState \<Rightarrow> ShieldFile option \<times> ShieldFile FileState" where
  "wallet_restart c s d = (let d1 = after_crash c d in (fs_seen d1, d1))"

lemma plan_of_takes_leaf:
  assumes "takes_leaf X d m" and "plan_of m = (r, s', d')"
  shows "disk_ok d' \<and> s' = fs_seen d' \<and> leaf_at (fs_seen d) \<le> leaf_at s' \<and> leaf_at (fs_stable d) \<le> leaf_at (fs_stable d')
    \<and> (case r of None \<Rightarrow> True | Some (ots, plan) \<Rightarrow> leaf_at s' = Suc (leaf_at (fs_seen d)) \<and> leaf_at (fs_seen d) < leaf_at (fs_stable d')
         \<and> leaf_at (fs_seen d) < 64 \<and> unat ots = leaf_at (fs_seen d) \<and> signed_with X ots plan)"
  using assms by (auto simp: plan_of_def takes_leaf_def split: prod.splits outcome.splits)

lemma wallet_op_takes_leaf:
  assumes "disk_ok d" and "wallet_op X i (fs_seen d) d = (r, s', d')"
  shows "disk_ok d' \<and> s' = fs_seen d' \<and> leaf_at (fs_seen d) \<le> leaf_at s' \<and> leaf_at (fs_stable d) \<le> leaf_at (fs_stable d')
    \<and> (case r of None \<Rightarrow> True | Some (ots, plan) \<Rightarrow> leaf_at s' = Suc (leaf_at (fs_seen d)) \<and> leaf_at (fs_seen d) < leaf_at (fs_stable d')
         \<and> leaf_at (fs_seen d) < 64 \<and> unat ots = leaf_at (fs_seen d) \<and> signed_with X ots plan)"
proof (cases i)
  case (Scan j asset)
  then show ?thesis using assms(2) do_scan_steadily [OF assms(1), of X j asset] by (auto simp: Let_def steadily_def steady_def)
next
  case (Shield j account asset amt)
  then show ?thesis using assms(2) shield_plan_steadily [OF assms(1), of X j account asset amt] by (auto simp: Let_def steadily_def steady_def)
next
  case (Unshield j account asset amt)
  then show ?thesis using plan_of_takes_leaf [OF unshield_takes_leaf [OF assms(1)]] assms(2) by simp
next
  case (Pay j account asset amt to_a memo)
  then show ?thesis using plan_of_takes_leaf [OF pay_takes_leaf [OF assms(1)]] assms(2) by simp
qed

interpretation spend_tree: one_time_keys "\<lambda>s d. s = fs_seen d \<and> disk_ok d" leaf_at "\<lambda>d. leaf_at (fs_stable d)" "wallet_op X" wallet_restart
  "\<lambda>n _ (ots, plan). n < 64 \<and> unat ots = n \<and> signed_with X ots plan" for X
proof unfold_locales
  fix s d i r s' d'
  assume "s = fs_seen d \<and> disk_ok d" and "wallet_op X i s d = (Some r, s', d')"
  then show "(s' = fs_seen d' \<and> disk_ok d') \<and> leaf_at s' = Suc (leaf_at s) \<and> leaf_at s < leaf_at (fs_stable d')
      \<and> (case r of (ots, plan) \<Rightarrow> leaf_at s < 64 \<and> unat ots = leaf_at s \<and> signed_with X ots plan)"
    using wallet_op_takes_leaf [of d X i "Some r" s' d'] by (cases r) auto
next
  fix s d i s' d'
  assume "s = fs_seen d \<and> disk_ok d" and "wallet_op X i s d = (None, s', d')"
  then show "(s' = fs_seen d' \<and> disk_ok d') \<and> leaf_at s \<le> leaf_at s' \<and> leaf_at (fs_stable d) \<le> leaf_at (fs_stable d')"
    using wallet_op_takes_leaf [of d X i None s' d'] by auto
next
  fix s d c s' d'
  assume "s = fs_seen d \<and> disk_ok d" and "wallet_restart c s d = (s', d')"
  then show "(s' = fs_seen d' \<and> disk_ok d') \<and> leaf_at (fs_stable d) \<le> leaf_at s' \<and> leaf_at (fs_stable d) \<le> leaf_at (fs_stable d')"
    by (cases c) (auto simp: wallet_restart_def after_crash_def disk_ok_def Let_def)
qed

section \<open>A spend that goes through\<close>

lemma save_good: "save_shield None f d = (Ok (), \<lparr>fs_seen = Some f, fs_stable = Some f\<rparr>)"
  by (simp add: save_shield_def write_atomic_def)

lemma reserve_good:
  assumes "holds f d" and "leaf_at (fs_seen d) < 64"
  shows "reserve_ots None f d = (Ok (sf_next_ots_index f), f\<lparr>sf_next_ots_index := sf_next_ots_index f + 1\<rparr>,
    \<lparr>fs_seen = Some (f\<lparr>sf_next_ots_index := sf_next_ots_index f + 1\<rparr>), fs_stable = Some (f\<lparr>sf_next_ots_index := sf_next_ots_index f + 1\<rparr>)\<rparr>)"
proof -
  have "\<not> OTS_CAPACITY \<le> sf_next_ots_index f" using assms by (simp add: holds_def leaf_at_def OTS_CAPACITY_def word_le_nat_alt)
  then show ?thesis by (simp add: reserve_ots_def save_good Let_def)
qed

definition after_spend :: "ShieldFile \<Rightarrow> ShieldFile" where
  "after_spend f = f\<lparr>sf_next_note_tag := sf_next_note_tag f + 1, sf_next_ots_index := sf_next_ots_index f + 1\<rparr>"

text \<open>With nothing failing, a note of the pool that covers the amount and a leaf that is left, the plan is made.\<close>

lemma spend_input_good:
  assumes "holds f d" and "leaf_at (fs_seen d) < 64" and "si_fault_tag i = None" "si_fault_ots i = None"
    and pool: "length leaves \<le> 2 ^ 32 - 1" "unat (dc_leaf_index dn) < length leaves" "leaves ! unat (dc_leaf_index dn) = commit_note X (dc_note dn)"
      "\<And>p. full_tree_path X leaves (dc_leaf_index dn) = Ok p \<Longrightarrow> nd_path (si_node i) (dc_leaf_index dn) = Some p"
    and keys: "owner_tag X k = Ok (nt_owner (dc_note dn))" "unat (wk_h k) = 6"
    and "nd_height (si_node i) = Some h" and "kem_correct X (kem_at X k (epoch_of h)) (si_coin i)"
    and worth: "\<And>change. nt_value change = nt_value (dc_note dn) - ucast amt
      \<Longrightarrow> unat (nt_value (dc_note dn)) = unat (nt_value (fst (mk change))) + unat (nt_value (snd (mk change))) + unat fee"
  shows "\<exists>plan. spend_input X i amt mk fee credit (dn, k, f) d = (Ok (sf_next_ots_index f, plan), \<lparr>fs_seen = Some (after_spend f), fs_stable = Some (after_spend f)\<rparr>)"
proof -
  let ?f = "f\<lparr>sf_next_note_tag := sf_next_note_tag f + 1\<rparr>"
  let ?d = "\<lparr>fs_seen = Some ?f, fs_stable = Some ?f\<rparr>"
  have h: "unat (wk_h k) \<le> SPEND_TREE_DEPTH" using keys(2) by (simp add: SPEND_TREE_DEPTH_def)
  have tag: "reserve_tag None f d = (Ok (sf_next_note_tag f), ?f, ?d)" by (simp add: reserve_tag_def save_good Let_def)
  have f: "holds ?f ?d" "leaf_at (fs_seen ?d) < 64" using assms(1,2) by (simp_all add: holds_def disk_ok_def leaf_at_def)
  obtain change where change: "self_note X k (nt_value (dc_note dn) - ucast amt) (sf_next_note_tag f) = Ok change" "nt_value change = nt_value (dc_note dn) - ucast amt"
    by (simp add: self_note_def keys(1))
  obtain a where a: "address_at X k (epoch_of h) = Ok a" "sa_kem_pk a = kem_public X (kem_at X k (epoch_of h))" by (simp add: address_at_def keys(1))
  obtain ct where ct: "seal_note X change a (si_coin i) (str_bytes ''change'') = Some ct"
    using kem_correctD [OF assms(12)] a(2) by (auto simp: seal_note_def Let_def)
  obtain o1 o2 where mk: "mk change = (o1, o2)" by fastforce
  have ots: "unat (sf_next_ots_index f) < 2 ^ unat (wk_h k)" using assms(1,2) keys(2) by (simp add: holds_def leaf_at_def)
  have "unat (nt_value (dc_note dn)) = unat (nt_value o1) + unat (nt_value o2) + unat fee" using worth [OF change(2)] mk by simp
  from wallet_spend_runs [OF pool(1-3) h ots keys(1) this] obtain plan
    where plan: "build_spend X leaves (dc_leaf_index dn) (dc_note dn) k (sf_next_ots_index f) o1 o2 fee credit = Ok plan" by blast
  obtain siblings root where path: "full_tree_path X leaves (dc_leaf_index dn) = Ok (siblings, root)"
    and built: "build_spend_with_path X siblings root (dc_leaf_index dn) (dc_note dn) k (sf_next_ots_index f) o1 o2 fee credit = Ok plan"
    using plan pool(2,3) by (cases "full_tree_path X leaves (dc_leaf_index dn)") (auto simp: build_spend_def Let_def lift_panic_def)
  show ?thesis using pool(4) [OF path] tag reserve_good [OF f] change(1) a(1) ct mk built assms(3,4,11)
    by (simp add: spend_input_def keep_file_def ok_or_def panic_of_def map_err_def after_spend_def)
qed

text \<open>C17: No leaf of the wallet's spend tree signs two spends. Over any run of scans, shieldings, unshieldings and payments, begun on an empty
  directory, whatever the node answers, whatever step of a durable write fails and whether the process is killed or the machine loses power,
  the plans that were made are signed with strictly increasing leaves of the sixty-four, and each satisfies the circuit.\<close>

theorem wallet_leaf_used_once:
  assumes "fs_seen d = None" "fs_stable d = None" and "key_run (wallet_op X) wallet_restart leaf_at es None d = (out, s, d')"
  shows "sorted_wrt (<) (map (\<lambda>(_, _, ots, _). unat ots) out) \<and> length out \<le> 64
    \<and> (\<forall>(_, _, ots, plan) \<in> set out. unat ots < 64 \<and> signed_with X ots plan)"
proof -
  have "None = fs_seen d \<and> disk_ok d" using assms(1,2) by (simp add: disk_ok_def leaf_at_def)
  from spend_tree.run_spends_once [OF assms(3) this, of 0]
  have r: "sorted_wrt (<) (map fst out)" "\<forall>(n, i, ots, plan) \<in> set out. n < 64 \<and> unat ots = n \<and> signed_with X ots plan" by auto
  have m: "map (\<lambda>(_, _, ots, _). unat ots) out = map fst out" using r(2) by auto
  have "set (map fst out) \<subseteq> {..<64}" using r(2) by auto
  moreover have "distinct (map fst out)" using r(1) by (rule strict_sorted_iff [THEN iffD1, THEN conjunct2])
  ultimately have "length (map fst out) \<le> card {..<64 :: nat}" by (metis card_mono distinct_card finite_lessThan)
  then have "length out \<le> 64" by simp
  moreover have "\<forall>(_, _, ots, plan) \<in> set out. unat ots < 64 \<and> signed_with X ots plan" using r(2) by auto
  ultimately show ?thesis unfolding m using r(1) by blast
qed

lemma pick_note_good:
  assumes "(dn, False) \<in> set ns" and "unat amt \<le> unat (nt_value (dc_note dn))"
  obtains d where "pick_note ns amt = Ok d" "(d, False) \<in> set ns" "unat amt \<le> unat (nt_value (dc_note d))"
proof -
  let ?l = "sort_key (\<lambda>d. nt_value (dc_note d)) (map fst (filter (\<lambda>(d, spent). \<not> spent \<and> unat amt \<le> unat (nt_value (dc_note d))) ns))"
  have "dn \<in> set ?l" using assms by force
  then obtain d ds where l: "?l = d # ds" by (cases ?l) auto
  then have "d \<in> set ?l" by (simp only: list.set_intros)
  then have "(d, False) \<in> set ns \<and> unat amt \<le> unat (nt_value (dc_note d))" by auto
  then show ?thesis using that [of d] l by (simp add: pick_note_def)
qed

definition sample_disk :: "H256 \<times> bytes \<Rightarrow> H256 \<Rightarrow> ShieldFile FileState \<Rightarrow> bool" where
  "sample_disk en tag d \<longleftrightarrow> disk_ok d \<and> disk_inv sample_shield sample_keys tag USD ''hk'' [en] (\<lambda>_. 0) 1 {} d"

lemma sample_unshield:
  assumes "sample_note en" and tag: "owner_tag sample_shield sample_keys = Ok tag" and "sample_disk en tag d" and "leaf_at (fs_seen d) < 64"
  obtains plan f where "unshield_plan sample_shield (sample_input None [en]) 5 USD 100 d = (Ok (of_nat (leaf_at (fs_seen d)), plan), \<lparr>fs_seen = Some f, fs_stable = Some f\<rparr>)"
    "sample_disk en tag \<lparr>fs_seen = Some f, fs_stable = Some f\<rparr>" "leaf_at (Some f) = Suc (leaf_at (fs_seen d))"
proof -
  let ?i = "sample_input None [en]" and ?X = sample_shield and ?k = sample_keys
  have d: "disk_ok d" "disk_inv ?X ?k tag USD ''hk'' [en] (\<lambda>_. 0) 1 {} d" using assms(3) by (simp_all add: sample_disk_def)
  obtain f where f: "fs_seen d = Some f" "file_inv ?X ?k tag USD ''hk'' [en] (\<lambda>_. 0) 1 {} f" using d(2) by (auto simp: disk_inv_def)
  have keys: "shield_keys ?X f = Ok ?k" using f(2) by (simp add: file_inv_def)
  obtain r f1 d1 where r: "my_notes ?X None (si_node ?i) ?k USD f d = (r, f1, d1)" by (metis prod_cases3)
  have s1: "serves (si_node ?i) ''hk'' (take 1 [en]) 0 {}" by (simp add: sample_serves)
  from my_notes_scans [OF sample_shield_laws(3) tag f(2) d(2) s1 _ _ _ _ _ r]
  obtain out where out: "r = Ok out" "shown ?X ?k tag [en] (\<lambda>_. 0) 1 {} out" "file_inv ?X ?k tag USD ''hk'' [en] (\<lambda>_. 0) 1 {} f1" by auto
  have h: "holds f d" using d(1) f(1) by (simp add: holds_def)
  from my_notes_steady [OF r h] out(1) have h1: "holds f1 d1" and st: "steady d d1" by auto
  have "scan_one ?X (kem_at ?X ?k 0) tag (entry_at [en] 0) \<noteq> None" using sample_note_opens [OF assms(1) tag, of 0] by auto
  then have "of_nat 0 \<in> (dc_leaf_index \<circ> fst) ` set out" using out(2) [unfolded shown_def, THEN conjunct2, THEN conjunct2] by (metis less_one unsigned_0 le_refl)
  then obtain dn sp where dn: "(dn, sp) \<in> set out" by auto
  have each: "dc_leaf_index d' = 0 \<and> (\<exists>e. scan_one ?X (kem_at ?X ?k e) tag (entry_at [en] 0) = Some d')" if inout: "d' \<in> fst ` set out" for d'
  proof -
    obtain b where "(d', b) \<in> set out" using inout by auto
    then have "unat (dc_leaf_index d') < 1" "\<exists>e. scan_one ?X (kem_at ?X ?k e) tag (entry_at [en] (unat (dc_leaf_index d'))) = Some d'"
      using out(2) unfolding shown_def by blast+
    then show ?thesis by (simp add: unat_eq_0)
  qed
  have sp: "(d', b) \<in> set out \<Longrightarrow> \<not> b" for d' b using out(2) unfolding shown_def by auto
  have val: "nt_value (dc_note d') = 600" if "d' \<in> fst ` set out" for d'
    using each [OF that] sample_note_opens [OF assms(1) tag] by (metis option.inject)
  obtain p where p: "pick_note out 100 = Ok p" "(p, False) \<in> set out"
    by (rule pick_note_good [of dn out 100]) (use dn sp val [of dn] in \<open>force+\<close>)
  then have pin: "p \<in> fst ` set out" by force
  obtain e where e: "scan_one ?X (kem_at ?X ?k e) tag (0, fst en, snd en) = Some p" using each [OF pin] by (auto simp: entry_at_def)
  note ps = scan_one_sound [OF e] each [OF pin] val [OF pin]
  have "\<exists>plan. spend_input ?X ?i 100 (\<lambda>change. (change, dummy_note (si_dummy ?i))) (ucast (100 :: Amount)) 5 (p, ?k, f1) d1
      = (Ok (sf_next_ots_index f1, plan), \<lparr>fs_seen = Some (after_spend f1), fs_stable = Some (after_spend f1)\<rparr>)"
  proof (rule spend_input_good [OF h1, where leaves = "[fst en]" and h = 0])
    show "leaf_at (fs_seen d1) < 64" using st assms(4) by (simp add: steady_def)
  qed (use ps tag sample_shield_laws(2) in \<open>simp_all add: sample_input_def sample_node_def dummy_note_def sample_keys_def\<close>)
  then obtain plan where plan: "spend_input ?X ?i 100 (\<lambda>change. (change, dummy_note (si_dummy ?i))) (ucast (100 :: Amount)) 5 (p, ?k, f1) d1
      = (Ok (sf_next_ots_index f1, plan), \<lparr>fs_seen = Some (after_spend f1), fs_stable = Some (after_spend f1)\<rparr>)" by blast
  have "require_fee (si_node ?i) 5 = Ok 1" by (simp add: require_fee_def sample_input_def sample_node_def ok_or_def)
  then have "unshield_plan ?X ?i 5 USD 100 d = (Ok (sf_next_ots_index f1, plan), \<lparr>fs_seen = Some (after_spend f1), fs_stable = Some (after_spend f1)\<rparr>)"
    using plan r p(1) keys out(1) by (simp add: unshield_plan_def open_input_def load_or_create_shield_def f(1) sample_serves keep_file_def)
  moreover have u: "unat (sf_next_ots_index f1) = leaf_at (fs_seen d)" using h1 st by (simp add: holds_def steady_def leaf_at_def)
  then have "sf_next_ots_index f1 = of_nat (leaf_at (fs_seen d))" by (simp flip: u)
  moreover have "leaf_at (Some (after_spend f1)) = Suc (leaf_at (fs_seen d))"
    using u assms(4) unat_plus_one [of "sf_next_ots_index f1" 64] by (simp add: leaf_at_def after_spend_def word_less_nat_alt)
  moreover have "file_inv ?X ?k tag USD ''hk'' [en] (\<lambda>_. 0) 1 {} (after_spend f1)"
    using out(3) by (simp add: file_inv_def after_spend_def cache_of_def shield_keys_def)
  ultimately show ?thesis using that [of plan "after_spend f1"] assms(4) by (auto simp: sample_disk_def disk_inv_def disk_ok_def)
qed

text \<open>A first scan makes the file; a spend, a loss of power and a second spend follow.\<close>

definition sample_spend :: "H256 \<times> bytes \<Rightarrow> WalletOp" where
  "sample_spend en = Unshield (sample_input None [en]) 5 USD 100"

definition sample_wallet_run :: "H256 \<times> bytes \<Rightarrow> (WalletOp, Crash) key_event list" where
  "sample_wallet_run en = [Spend (Scan (sample_input None []) USD), Spend (sample_spend en), Restart (PowerLoss False), Spend (sample_spend en)]"

lemma sample_first_scan:
  assumes "owner_tag sample_shield sample_keys = Ok tag"
  shows "sample_disk en tag (snd (do_scan sample_shield (sample_input None []) USD \<lparr>fs_seen = None, fs_stable = None\<rparr>))
    \<and> leaf_at (fs_seen (snd (do_scan sample_shield (sample_input None []) USD \<lparr>fs_seen = None, fs_stable = None\<rparr>))) = 0"
proof -
  let ?X = sample_shield and ?i = "sample_input None []" and ?d = "\<lparr>fs_seen = None, fs_stable = None\<rparr>" and ?e = "\<lparr>fs_seen = Some sample_file, fs_stable = Some sample_file\<rparr>"
  have "load_or_create_shield ?X None [9] ?d = load_or_create_shield ?X None [9] ?e"
    by (simp add: load_or_create_shield_def save_good sample_file_def Let_def)
  then have same: "do_scan ?X ?i USD ?d = do_scan ?X ?i USD ?e" by (simp add: do_scan_def sample_input_def)
  have "file_inv ?X sample_keys tag USD ''hk'' [en] (\<lambda>_. 0) 0 {} sample_file"
    using sample_file_keys by (simp add: file_inv_def cache_of_def sample_file_def cache_default_def)
  then have inv: "disk_inv ?X sample_keys tag USD ''hk'' [en] (\<lambda>_. 0) 0 {} ?e" by (simp add: disk_inv_def)
  have ok: "disk_ok ?e" "leaf_at (fs_seen ?e) = 0" by (simp_all add: disk_ok_def leaf_at_def sample_file_def)
  have s: "serves (si_node ?i) ''hk'' (take 0 [en]) 0 {}" by (simp add: sample_serves)
  from do_scan_scans [OF sample_shield_laws(3) assms sample_keys_depth inv s]
  have "disk_inv ?X sample_keys tag USD ''hk'' [en] (\<lambda>_. 0) 0 {} (snd (do_scan ?X ?i USD ?e))" by simp
  from disk_inv_mono [OF this, of 1 "{}"] do_scan_steadily [OF ok(1), of ?X ?i USD] ok(2) show ?thesis
    unfolding same by (simp add: sample_disk_def steadily_def steady_def)
qed

theorem wallet_leaf_used_once_witness:
  "\<exists>en plan0 plan1 s d'. key_run (wallet_op sample_shield) wallet_restart leaf_at (sample_wallet_run en) None \<lparr>fs_seen = None, fs_stable = None\<rparr>
      = ([(0, sample_spend en, 0, plan0), (1, sample_spend en, 1, plan1)], s, d')
    \<and> signed_with sample_shield 0 plan0 \<and> signed_with sample_shield 1 plan1"
proof -
  obtain en where en: "sample_note en" using sample_note_exists by blast
  obtain tag where tag: "owner_tag sample_shield sample_keys = Ok tag" using address_of_wallet [OF sample_keys_depth] by blast
  define d1 where "d1 = snd (do_scan sample_shield (sample_input None []) USD \<lparr>fs_seen = None, fs_stable = None\<rparr>)"
  have d1: "sample_disk en tag d1" "leaf_at (fs_seen d1) = 0" using sample_first_scan [OF tag] by (simp_all add: d1_def)
  obtain plan0 f0 where 0: "unshield_plan sample_shield (sample_input None [en]) 5 USD 100 d1 = (Ok (0, plan0), \<lparr>fs_seen = Some f0, fs_stable = Some f0\<rparr>)"
    "sample_disk en tag \<lparr>fs_seen = Some f0, fs_stable = Some f0\<rparr>" "leaf_at (Some f0) = 1"
    by (rule sample_unshield [OF en tag d1(1)]) (simp_all add: d1(2))
  obtain plan1 f1 where 1: "unshield_plan sample_shield (sample_input None [en]) 5 USD 100 \<lparr>fs_seen = Some f0, fs_stable = Some f0\<rparr> = (Ok (1, plan1), \<lparr>fs_seen = Some f1, fs_stable = Some f1\<rparr>)"
    by (rule sample_unshield [OF en tag 0(2)]) (simp_all add: 0(3))
  have run: "key_run (wallet_op sample_shield) wallet_restart leaf_at (sample_wallet_run en) None \<lparr>fs_seen = None, fs_stable = None\<rparr>
      = ([(0, sample_spend en, 0, plan0), (1, sample_spend en, 1, plan1)], Some f1, \<lparr>fs_seen = Some f1, fs_stable = Some f1\<rparr>)"
    using 0 1 d1(2) by (simp add: sample_wallet_run_def sample_spend_def d1_def [symmetric] plan_of_def wallet_restart_def after_crash_def Let_def)
  from wallet_leaf_used_once [OF _ _ run] have "signed_with sample_shield 0 plan0" "signed_with sample_shield 1 plan1" by simp_all
  with run show ?thesis by blast
qed

end
