(* ===== verification/HK_Streaming.thy ===== *)
theory HK_Streaming
  imports HK_Node
begin

text \<open>
  Proposal streaming: how a proposer cuts a value into stream messages and how a validator reassembles them (\<^verbatim>\<open>hk-node/src/streaming.rs\<close>,
  with \<open>stream_proposal\<close> and \<open>received_proposal_part\<close> of \<^verbatim>\<open>hk-node/src/state.rs\<close>). The binary heap, whose order is that of the reversed
  sequence number, is a list kept sorted by sequence number: a pop takes the smallest one. The set of seen numbers
  excludes ties. The map of streams is keyed by peer and stream identifier. The message counter is a 64-bit \<open>usize\<close> whose addition wraps, as in
  the release profile.
\<close>

type_synonym PeerId = bytes
type_synonym StreamId = bytes

datatype StreamContent = SData HkProposalPart | SFin

record StreamMessage =
  sm_stream_id :: StreamId
  sm_sequence :: u64
  sm_content :: StreamContent

definition content_data :: "StreamContent \<Rightarrow> HkProposalPart option" where
  "content_data c = (case c of SData d \<Rightarrow> Some d | SFin \<Rightarrow> None)"

definition msg_is_first :: "StreamMessage \<Rightarrow> bool" where
  "msg_is_first msg = (sm_sequence msg = 0)"

definition msg_is_fin :: "StreamMessage \<Rightarrow> bool" where
  "msg_is_fin msg = (sm_content msg = SFin)"

record StreamState =
  sst_buffer :: "StreamMessage list"
  sst_init_info :: "HkProposalInit option"
  sst_seen_sequences :: "u64 set"
  sst_total_messages :: u64
  sst_fin_received :: bool

definition stream_default :: StreamState where
  "stream_default = \<lparr>sst_buffer = [], sst_init_info = None, sst_seen_sequences = {}, sst_total_messages = 0, sst_fin_received = False\<rparr>"

record ProposalParts =
  pp_height :: HkHeight
  pp_round :: Round
  pp_pol_round :: Round
  pp_proposer :: HkAddress
  pp_parts :: "HkProposalPart list"

definition heap_push :: "StreamMessage \<Rightarrow> StreamMessage list \<Rightarrow> StreamMessage list" where
  "heap_push = insort_key sm_sequence"

definition stream_is_done :: "StreamState \<Rightarrow> bool" where
  "stream_is_done s = (sst_init_info s \<noteq> None \<and> sst_fin_received s \<and> length (sst_buffer s) = unat (sst_total_messages s))"

definition stream_drain :: "StreamState \<Rightarrow> HkProposalPart list \<times> StreamState" where
  "stream_drain s = (List.map_filter (\<lambda>msg. content_data (sm_content msg)) (sst_buffer s), s\<lparr>sst_buffer := []\<rparr>)"

definition stream_absorb :: "StreamMessage \<Rightarrow> StreamState \<Rightarrow> StreamState" where
  "stream_absorb msg s0 =
     (let s1 = (if msg_is_first msg then s0\<lparr>sst_init_info := Option.bind (content_data (sm_content msg)) as_init\<rparr> else s0);
          s2 = (if msg_is_fin msg then s1\<lparr>sst_fin_received := True, sst_total_messages := sm_sequence msg + 1\<rparr> else s1)
      in s2\<lparr>sst_buffer := heap_push msg (sst_buffer s2)\<rparr>)"

definition stream_insert :: "StreamMessage \<Rightarrow> StreamState \<Rightarrow> ProposalParts option \<times> StreamState" where
  "stream_insert msg s0 =
     (let s3 = stream_absorb msg s0
      in if stream_is_done s3
         then case sst_init_info s3 of
                None \<Rightarrow> (None, s3)
              | Some init_info \<Rightarrow>
                  (case stream_drain (s3\<lparr>sst_init_info := None\<rparr>) of (parts, s4) \<Rightarrow>
                     (Some \<lparr>pp_height = in_height init_info, pp_round = in_round init_info, pp_pol_round = in_pol_round init_info,
                            pp_proposer = in_proposer init_info, pp_parts = parts\<rparr>, s4))
         else (None, s3))"

definition parts_fin :: "ProposalParts \<Rightarrow> HkProposalFin option" where
  "parts_fin p = (case List.map_filter as_fin (pp_parts p) of [] \<Rightarrow> None | f # _ \<Rightarrow> Some f)"

type_synonym PartStreamsMap = "PeerId \<times> StreamId \<rightharpoonup> StreamState"

definition streams_insert :: "PeerId \<Rightarrow> StreamMessage \<Rightarrow> PartStreamsMap \<Rightarrow> ProposalParts option \<times> PartStreamsMap" where
  "streams_insert peer_id msg streams =
     (let key = (peer_id, sm_stream_id msg);
          state = (case streams key of Some s \<Rightarrow> s | None \<Rightarrow> stream_default)
      in if sm_sequence msg \<in> sst_seen_sequences state then (None, streams(key \<mapsto> state))
         else case stream_insert msg (state\<lparr>sst_seen_sequences := insert (sm_sequence msg) (sst_seen_sequences state)\<rparr>) of (result, s1) \<Rightarrow>
                (result, if stream_is_done s1 then streams(key := None) else streams(key \<mapsto> s1)))"

section \<open>Proposer and receiver\<close>

definition stream_id_of :: "HkHeight \<Rightarrow> Round \<Rightarrow> StreamId" where
  "stream_id_of height r = u64_le height @ u64_le (as_i64 r)"

definition stream_proposal :: "HkApp \<Rightarrow> HkHeight \<times> Round \<times> HkValue \<Rightarrow> Round \<Rightarrow> StreamMessage list" where
  "stream_proposal a value pol_round =
     (case value of (height, r, v) \<Rightarrow>
        let stream_id = stream_id_of height r;
            part_init = PartInit \<lparr>in_height = height, in_round = r, in_pol_round = pol_round, in_proposer = ha_address a\<rparr>;
            part_batch = TxBatch (hv_txs v);
            part_fin = PartFin \<lparr>fin_value_id = hv_id v\<rparr>
        in [\<lparr>sm_stream_id = stream_id, sm_sequence = 0, sm_content = SData part_init\<rparr>,
            \<lparr>sm_stream_id = stream_id, sm_sequence = 1, sm_content = SData part_batch\<rparr>,
            \<lparr>sm_stream_id = stream_id, sm_sequence = 2, sm_content = SData part_fin\<rparr>,
            \<lparr>sm_stream_id = stream_id, sm_sequence = 3, sm_content = SFin\<rparr>])"

definition proposed_of :: "'x hash_env_scheme \<Rightarrow> ProposalParts \<Rightarrow> ProposedValue" where
  "proposed_of X parts =
     (let batch = concat (List.map_filter as_tx_batch (pp_parts parts));
          value = value_new X batch;
          validity = (case parts_fin parts of Some fin \<Rightarrow> fin_value_id fin = hv_id value | None \<Rightarrow> False)
      in \<lparr>pv_height = pp_height parts, pv_round = pp_round parts, pv_valid_round = pp_pol_round parts,
          pv_proposer = pp_proposer parts, pv_value = value, pv_valid = validity\<rparr>)"

definition received_proposal_part :: "'x hash_env_scheme \<Rightarrow> PeerId \<Rightarrow> StreamMessage \<Rightarrow> PartStreamsMap \<times> HkApp
    \<Rightarrow> ProposedValue option \<times> PartStreamsMap \<times> HkApp" where
  "received_proposal_part X from_peer part st =
     (case st of (streams, a) \<Rightarrow>
        case streams_insert from_peer part streams of
          (None, streams1) \<Rightarrow> (None, streams1, a)
        | (Some parts, streams1) \<Rightarrow>
            let proposed = proposed_of X parts in (Some proposed, streams1, store_undecided a proposed))"

section \<open>Reassembly\<close>

text \<open>A stream of \<open>ps\<close> parts under an opening part \<open>i\<close>: its messages by number, and the state of a receiver that holds the numbers in \<open>S\<close>.\<close>

definition stream_contents :: "HkProposalInit \<Rightarrow> HkProposalPart list \<Rightarrow> StreamContent list" where
  "stream_contents i ps = SData (PartInit i) # map SData ps @ [SFin]"

definition stream_len :: "HkProposalPart list \<Rightarrow> nat" where
  "stream_len ps = length ps + 2"

definition nth_message :: "StreamId \<Rightarrow> HkProposalInit \<Rightarrow> HkProposalPart list \<Rightarrow> nat \<Rightarrow> StreamMessage" where
  "nth_message sid i ps k = \<lparr>sm_stream_id = sid, sm_sequence = of_nat k, sm_content = stream_contents i ps ! k\<rparr>"

definition holding :: "StreamId \<Rightarrow> HkProposalInit \<Rightarrow> HkProposalPart list \<Rightarrow> nat set \<Rightarrow> StreamState" where
  "holding sid i ps S = \<lparr>sst_buffer = map (nth_message sid i ps) (filter (\<lambda>k. k \<in> S) [0..<stream_len ps]),
     sst_init_info = (if 0 \<in> S then Some i else None), sst_seen_sequences = of_nat ` S,
     sst_total_messages = (if length ps + 1 \<in> S then of_nat (stream_len ps) else 0), sst_fin_received = (length ps + 1 \<in> S)\<rparr>"

definition progress :: "StreamId \<Rightarrow> HkProposalInit \<Rightarrow> HkProposalPart list \<Rightarrow> nat set \<Rightarrow> StreamState" where
  "progress sid i ps S = (if S = {..<stream_len ps} then (holding sid i ps S)\<lparr>sst_buffer := [], sst_init_info := None\<rparr> else holding sid i ps S)"

definition assembled :: "HkProposalInit \<Rightarrow> HkProposalPart list \<Rightarrow> ProposalParts" where
  "assembled i ps = \<lparr>pp_height = in_height i, pp_round = in_round i, pp_pol_round = in_pol_round i, pp_proposer = in_proposer i,
     pp_parts = PartInit i # ps\<rparr>"

lemma stream_len_bounds [simp]: "0 < stream_len ps" "Suc (length ps) < stream_len ps"
  by (simp_all add: stream_len_def)

lemma unat_of_nat_u64: "a < 2 ^ 64 \<Longrightarrow> unat (of_nat a :: u64) = a"
  by (simp add: unat_of_nat)

lemma of_nat_u64_eq: "a < 2 ^ 64 \<Longrightarrow> b < 2 ^ 64 \<Longrightarrow> (of_nat a :: u64) = of_nat b \<longleftrightarrow> a = b"
  by (metis unat_of_nat_u64)

lemma stream_contents_simps:
  "stream_contents i ps ! 0 = SData (PartInit i)" "stream_contents i ps ! Suc (length ps) = SFin"
  "k \<noteq> Suc (length ps) \<Longrightarrow> k < stream_len ps \<Longrightarrow> stream_contents i ps ! k \<noteq> SFin"
  by (auto simp: stream_len_def stream_contents_def nth_append nth_Cons split: nat.splits)

lemma drained_parts: "List.map_filter (\<lambda>msg. content_data (sm_content msg)) (map (nth_message sid i ps) [0..<stream_len ps]) = PartInit i # ps"
proof -
  have "stream_len ps = length (stream_contents i ps)" by (simp add: stream_contents_def stream_len_def)
  then have "map sm_content (map (nth_message sid i ps) [0..<stream_len ps]) = stream_contents i ps"
    by (simp only: map_map comp_def nth_message_def StreamMessage.select_convs map_nth)
  moreover have "List.map_filter (\<lambda>msg. content_data (sm_content msg)) xs = List.map_filter content_data (map sm_content xs)" for xs :: "StreamMessage list"
    by (induction xs) (simp_all add: List.map_filter_simps split: option.split)
  moreover have "List.map_filter content_data (map SData ps @ [SFin]) = ps" for ps
    by (induction ps) (simp_all add: List.map_filter_simps content_data_def)
  moreover have "List.map_filter content_data (stream_contents i ps) = PartInit i # List.map_filter content_data (map SData ps @ [SFin])"
    by (simp add: stream_contents_def List.map_filter_simps content_data_def)
  ultimately show ?thesis by (simp only:)
qed

lemma heap_push_holding:
  assumes N: "N = stream_len ps" and "N < 2 ^ 64" and "k < N" and "k \<notin> S"
  shows "heap_push (nth_message sid i ps k) (map (nth_message sid i ps) (filter (\<lambda>j. j \<in> S) [0..<stream_len ps]))
    = map (nth_message sid i ps) (filter (\<lambda>j. j \<in> insert k S) [0..<stream_len ps])"
  unfolding N [symmetric]
proof (rule map_sorted_distinct_set_unique)
  let ?m = "nth_message sid i ps"
  let ?xs = "\<lambda>S. map ?m (filter (\<lambda>j. j \<in> S) [0..<N])"
  have key: "map sm_sequence (?xs T) = map of_nat (filter (\<lambda>j. j \<in> T) [0..<N])" for T by (simp add: nth_message_def)
  have sorted: "sorted (map sm_sequence (?xs T))" for T
    unfolding key sorted_map
  proof (rule sorted_wrt_mono_rel)
    show "sorted_wrt (<) (filter (\<lambda>j. j \<in> T) [0..<N])" by (intro sorted_wrt_filter sorted_wrt_upt)
  qed (use assms(2) in \<open>auto simp: word_le_nat_alt unat_of_nat_u64\<close>)
  have dist: "distinct (map sm_sequence (?xs T))" for T
    unfolding key using assms(2) by (auto simp: distinct_map inj_on_def of_nat_u64_eq)
  have inj: "inj_on sm_sequence (?m ` {..<N})" using assms(2) by (auto simp: inj_on_def nth_message_def of_nat_u64_eq)
  show "sorted (map sm_sequence (heap_push (?m k) (?xs S)))" using sorted [of S] by (simp add: heap_push_def sorted_insort_key)
  show "sorted (map sm_sequence (?xs (insert k S)))" by (rule sorted)
  show "distinct (map sm_sequence (?xs (insert k S)))" by (rule dist)
  show "set (heap_push (?m k) (?xs S)) = set (?xs (insert k S))" using assms(3) by (auto simp: heap_push_def set_insort_key)
  then show "inj_on sm_sequence (set (heap_push (?m k) (?xs S)) \<union> set (?xs (insert k S)))"
    by (intro inj_on_subset [OF inj]) auto
  have "mset (map sm_sequence (heap_push (?m k) (?xs S))) = mset (map sm_sequence (?m k # ?xs S))" by (simp add: heap_push_def multiset.map_comp)
  moreover have "distinct (map sm_sequence (?m k # ?xs S))"
    using dist [of S] assms(2-4) by (auto simp: nth_message_def of_nat_u64_eq)
  ultimately show "distinct (map sm_sequence (heap_push (?m k) (?xs S)))" by (metis mset_eq_imp_distinct_iff)
qed

lemma holding_buffer_length: "S \<subseteq> {..<stream_len ps} \<Longrightarrow> length (sst_buffer (holding sid i ps S)) = card S"
  by (simp only: holding_def StreamState.select_convs length_map, simp add: distinct_length_filter Int_absorb2 lessThan_atLeast0 inf_commute)

lemma unat_total:
  assumes "stream_len ps < 2 ^ 64"
  shows "unat (of_nat (stream_len ps) :: u64) = stream_len ps" "(of_nat (length ps + 1) :: u64) + 1 = of_nat (stream_len ps)"
  using unat_of_nat_u64 [OF assms] by (simp_all add: stream_len_def)

lemma stream_insert_step:
  assumes b: "stream_len ps < 2 ^ 64" and S: "S \<subseteq> {..<stream_len ps}" and k: "k < stream_len ps" "k \<notin> S"
  defines "T \<equiv> insert k S"
  shows "stream_insert (nth_message sid i ps k) ((progress sid i ps S)\<lparr>sst_seen_sequences := insert (of_nat k) (of_nat ` S)\<rparr>)
    = (if T = {..<stream_len ps} then Some (assembled i ps) else None, progress sid i ps T)"
proof -
  let ?m = "nth_message sid i ps k" and ?N = "stream_len ps" and ?last = "length ps + 1"
  have "S \<noteq> {..<?N}" using k by auto
  then have p: "progress sid i ps S = holding sid i ps S" by (simp add: progress_def)
  have first: "msg_is_first ?m \<longleftrightarrow> k = 0" using of_nat_u64_eq [of k 0] b k(1) by (simp add: msg_is_first_def nth_message_def)
  have fin: "msg_is_fin ?m \<longleftrightarrow> k = ?last"
    using stream_contents_simps(2) [of i ps] stream_contents_simps(3) [of k ps i] k(1) by (auto simp: msg_is_fin_def nth_message_def)
  have init: "Option.bind (content_data (sm_content ?m)) as_init = Some i" if "k = 0"
    using that by (simp add: nth_message_def stream_contents_simps content_data_def as_init_def)
  have total: "sm_sequence ?m + 1 = of_nat ?N" if "k = ?last"
    using that unat_total(2) [OF b] by (simp add: nth_message_def)
  define s2 where "s2 = holding sid i ps T"
  have push: "heap_push ?m (sst_buffer (holding sid i ps S)) = sst_buffer s2"
    using heap_push_holding [OF refl b k] by (simp add: s2_def holding_def T_def)
  have T: "T \<subseteq> {..<?N}" "finite T" using S k(1) finite_subset [OF S] by (auto simp: T_def)
  have full: "stream_is_done s2 \<longleftrightarrow> T = {..<?N}"
    using holding_buffer_length [OF T(1), of sid i] unat_total(1) [OF b] card_subset_eq [OF finite_lessThan T(1)] T(1)
    by (auto simp: stream_is_done_def s2_def holding_def)
  have upd: "stream_absorb ?m ((holding sid i ps S)\<lparr>sst_seen_sequences := insert (of_nat k) (of_nat ` S)\<rparr>) = s2"
    unfolding stream_absorb_def Let_def first fin using init total push by (auto simp: s2_def holding_def T_def)
  show ?thesis
  proof (cases "T = {..<?N}")
    case True
    then have "sst_init_info s2 = Some i" "sst_buffer s2 = map (nth_message sid i ps) [0..<?N]"
      by (simp_all add: s2_def holding_def)
    with True full drained_parts [of sid i ps] show ?thesis
      unfolding p stream_insert_def upd by (simp add: stream_drain_def assembled_def progress_def) (simp add: s2_def holding_def)
  next
    case False
    with full show ?thesis unfolding p stream_insert_def upd by (simp add: progress_def s2_def)
  qed
qed

text \<open>The map of streams sees one message.\<close>

definition of_stream :: "PartStreamsMap \<Rightarrow> PeerId \<times> StreamId \<Rightarrow> HkProposalInit \<Rightarrow> HkProposalPart list \<Rightarrow> nat set \<Rightarrow> bool" where
  "of_stream streams key i ps S \<longleftrightarrow> (case streams key of None \<Rightarrow> S = {} | Some s \<Rightarrow> s = progress (snd key) i ps S)"

lemma progress_empty: "progress sid i ps {} = stream_default"
  using stream_len_bounds(1) [of ps] by (auto simp: progress_def holding_def stream_default_def simp del: stream_len_bounds)

lemma progress_seen [simp]: "sst_seen_sequences (progress sid i ps S) = of_nat ` S"
  by (simp add: progress_def holding_def)

lemma stream_insert_not_done: "\<not> stream_is_done (snd (stream_insert msg s))"
  by (auto simp: stream_insert_def stream_drain_def stream_is_done_def Let_def split: option.split)

lemma streams_insert_other: "key \<noteq> (peer, sm_stream_id msg) \<Longrightarrow> snd (streams_insert peer msg streams) key = streams key"
  by (auto simp: streams_insert_def Let_def split: prod.split)

lemma streams_insert_dom: "dom (snd (streams_insert peer msg streams)) = insert (peer, sm_stream_id msg) (dom streams)"
proof -
  have "\<not> stream_is_done st" if "stream_insert msg s = (r, st)" for s r st
    using stream_insert_not_done [of msg s] that by simp
  then show ?thesis by (auto simp: streams_insert_def Let_def split: prod.splits option.splits if_splits)
qed

lemma streams_insert_step:
  assumes b: "stream_len ps < 2 ^ 64" and S: "S \<subseteq> {..<stream_len ps}" and k: "k < stream_len ps"
    and o: "of_stream streams (peer, sid) i ps S"
  shows "fst (streams_insert peer (nth_message sid i ps k) streams)
      = (if S \<noteq> {..<stream_len ps} \<and> insert k S = {..<stream_len ps} then Some (assembled i ps) else None)"
    and "of_stream (snd (streams_insert peer (nth_message sid i ps k) streams)) (peer, sid) i ps (insert k S)"
proof -
  let ?m = "nth_message sid i ps k"
  define s where "s = (case streams (peer, sid) of Some s \<Rightarrow> s | None \<Rightarrow> stream_default)"
  have s: "s = progress sid i ps S" using o by (auto simp: s_def of_stream_def progress_empty split: option.splits)
  have key: "(peer, sm_stream_id ?m) = (peer, sid)" and num: "sm_sequence ?m = of_nat k" by (simp_all add: nth_message_def)
  have seen: "(of_nat k :: u64) \<in> of_nat ` S \<longleftrightarrow> k \<in> S"
    using S k b by (auto simp: image_iff of_nat_u64_eq subset_iff)
  have "fst (streams_insert peer ?m streams) = (if S \<noteq> {..<stream_len ps} \<and> insert k S = {..<stream_len ps} then Some (assembled i ps) else None)
      \<and> of_stream (snd (streams_insert peer ?m streams)) (peer, sid) i ps (insert k S)"
  proof (cases "k \<in> S")
    case True
    then show ?thesis
      unfolding streams_insert_def key Let_def s_def [symmetric] num using seen s by (auto simp: of_stream_def insert_absorb)
  next
    case False
    have ins: "stream_insert ?m (s\<lparr>sst_seen_sequences := insert (of_nat k) (sst_seen_sequences s)\<rparr>)
        = (if insert k S = {..<stream_len ps} then Some (assembled i ps) else None, progress sid i ps (insert k S))"
      using stream_insert_step [OF b S k False, of sid i] s by simp
    then have nd: "\<not> stream_is_done (progress sid i ps (insert k S))" by (metis stream_insert_not_done snd_conv)
    have "S \<noteq> {..<stream_len ps}" using False k by auto
    with False nd show ?thesis
      unfolding streams_insert_def key Let_def s_def [symmetric] num ins using seen s by (auto simp: of_stream_def)
  qed
  then show "fst (streams_insert peer ?m streams) = (if S \<noteq> {..<stream_len ps} \<and> insert k S = {..<stream_len ps} then Some (assembled i ps) else None)"
    "of_stream (snd (streams_insert peer ?m streams)) (peer, sid) i ps (insert k S)" by simp_all
qed

section \<open>A run of receptions\<close>

fun receive_all :: "'x hash_env_scheme \<Rightarrow> (PeerId \<times> StreamMessage) list \<Rightarrow> PartStreamsMap \<times> HkApp
    \<Rightarrow> ProposedValue option list \<times> PartStreamsMap \<times> HkApp" where
  "receive_all X [] st = ([], st)"
| "receive_all X ((p, m) # evs) st =
     (case received_proposal_part X p m st of (r, st1) \<Rightarrow> case receive_all X evs st1 of (rs, st2) \<Rightarrow> (r # rs, st2))"

definition results_of :: "PeerId \<times> StreamId \<Rightarrow> (PeerId \<times> StreamMessage) list \<Rightarrow> ProposedValue option list \<Rightarrow> ProposedValue list" where
  "results_of key evs rs = List.map_filter (\<lambda>((p, m), r). if (p, sm_stream_id m) = key then r else None) (zip evs rs)"

definition delivered :: "PeerId \<Rightarrow> StreamId \<Rightarrow> HkProposalInit \<Rightarrow> HkProposalPart list \<Rightarrow> (PeerId \<times> StreamMessage) list \<Rightarrow> nat set" where
  "delivered peer sid i ps evs = {k. k < stream_len ps \<and> (peer, nth_message sid i ps k) \<in> set evs}"

lemma delivered_Cons:
  assumes "stream_len ps < 2 ^ 64" and "k < stream_len ps"
  shows "delivered peer sid i ps ((peer, nth_message sid i ps k) # evs) = insert k (delivered peer sid i ps evs)"
  using assms by (auto simp: delivered_def nth_message_def of_nat_u64_eq)

lemma delivered_Cons_other:
  "(p, sm_stream_id m) \<noteq> (peer, sid) \<Longrightarrow> delivered peer sid i ps ((p, m) # evs) = delivered peer sid i ps evs"
  by (auto simp: delivered_def nth_message_def)

lemma results_of_simps:
  "results_of key [] rs = []"
  "results_of key ((p, m) # evs) (r # rs) = (case if (p, sm_stream_id m) = key then r else None of None \<Rightarrow> results_of key evs rs | Some x \<Rightarrow> x # results_of key evs rs)"
  by (simp_all add: results_of_def List.map_filter_simps split: option.split)

text \<open>A proposal stays known once stored.\<close>

definition knows_value :: "HkApp \<Rightarrow> HkHeight \<Rightarrow> Round \<Rightarrow> HkValueId \<Rightarrow> bool" where
  "knows_value a height r value_id = (find_undecided a height r value_id \<noteq> None)"

lemma knows_value_iff:
  "knows_value a h r d \<longleftrightarrow>
     (\<exists>vs v. bmap_get (ha_undecided a) (undecided_key h r) = Some vs \<and> v \<in> set vs \<and> hv_id (pv_value v) = d)"
  by (cases "bmap_get (ha_undecided a) (undecided_key h r)")
    (auto simp: knows_value_def find_undecided_def find_None_iff simp del: not_None_eq)

lemma store_undecided_knows:
  "knows_value (store_undecided a v) (pv_height v) (pv_round v) (hv_id (pv_value v))"
  by (auto simp: knows_value_iff store_undecided_def Let_def bmap_get_insert list_ex_iff)

lemma store_undecided_keeps:
  "knows_value a h r d \<Longrightarrow> knows_value (store_undecided a v) h r d"
  by (auto simp: knows_value_iff store_undecided_def Let_def bmap_get_insert)

lemma received_proposal_part_app:
  "received_proposal_part X p m st = (map_option (proposed_of X) (fst (streams_insert p m (fst st))), snd (streams_insert p m (fst st)),
     (case fst (streams_insert p m (fst st)) of None \<Rightarrow> snd st | Some parts \<Rightarrow> store_undecided (snd st) (proposed_of X parts)))"
  by (auto simp: received_proposal_part_def Let_def split: prod.split option.split)

lemma receive_all_Cons:
  "receive_all X ((p, m) # evs) st = (fst (received_proposal_part X p m st) # fst (receive_all X evs (snd (received_proposal_part X p m st))),
     snd (receive_all X evs (snd (received_proposal_part X p m st))))"
  by (simp add: case_prod_beta)

lemma receive_all_keeps: "knows_value (snd st) h r d \<Longrightarrow> knows_value (snd (snd (receive_all X evs st))) h r d"
proof (induction evs arbitrary: st)
  case (Cons ev evs)
  obtain p m where ev: "ev = (p, m)" by (cases ev)
  have "knows_value (snd (snd (received_proposal_part X p m st))) h r d"
    using Cons.prems by (auto simp: received_proposal_part_app store_undecided_keeps split: option.split)
  from Cons.IH [OF this] show ?case by (simp add: ev receive_all_Cons del: receive_all.simps)
qed simp

lemma receive_all_stream:
  fixes X :: "'x hash_env_scheme"
  assumes b: "stream_len ps < 2 ^ 64" and S: "S \<subseteq> {..<stream_len ps}" and o: "of_stream (fst st) (peer, sid) i ps S"
    and e: "\<forall>(p, m) \<in> set evs. (p, sm_stream_id m) = (peer, sid) \<longrightarrow> (\<exists>k < stream_len ps. m = nth_message sid i ps k)"
  defines "pv \<equiv> proposed_of X (assembled i ps)" and "now \<equiv> S \<noteq> {..<stream_len ps} \<and> S \<union> delivered peer sid i ps evs = {..<stream_len ps}"
  shows "results_of (peer, sid) evs (fst (receive_all X evs st)) = (if now then [pv] else [])
    \<and> (now \<longrightarrow> knows_value (snd (snd (receive_all X evs st))) (pv_height pv) (pv_round pv) (hv_id (pv_value pv)))"
  using S o e unfolding now_def
proof (induction evs arbitrary: S st)
  case Nil
  then show ?case by (simp add: results_of_simps delivered_def)
next
  case (Cons ev evs)
  obtain p m where ev: "ev = (p, m)" by (cases ev)
  let ?st = "snd (received_proposal_part X p m st)" and ?r = "fst (received_proposal_part X p m st)"
  have run: "receive_all X (ev # evs) st = (?r # fst (receive_all X evs ?st), snd (receive_all X evs ?st))"
    unfolding ev by (rule receive_all_Cons)
  show ?case
  proof (cases "(p, sm_stream_id m) = (peer, sid)")
    case True
    with Cons.prems(3) obtain k where k: "k < stream_len ps" "m = nth_message sid i ps k" by (auto simp: ev)
    have p: "p = peer" using True by simp
    note step = streams_insert_step [OF b Cons.prems(1) k(1) Cons.prems(2)]
    have r: "?r = (if S \<noteq> {..<stream_len ps} \<and> insert k S = {..<stream_len ps} then Some pv else None)"
      by (simp add: received_proposal_part_app p k(2) step(1) pv_def)
    have o1: "of_stream (fst ?st) (peer, sid) i ps (insert k S)"
      using step(2) by (simp add: received_proposal_part_app p k(2))
    have S1: "insert k S \<subseteq> {..<stream_len ps}" using Cons.prems(1) k(1) by simp
    have know: "knows_value (snd ?st) (pv_height pv) (pv_round pv) (hv_id (pv_value pv))" if "S \<noteq> {..<stream_len ps}" "insert k S = {..<stream_len ps}"
      using that by (simp add: received_proposal_part_app p k(2) step(1) store_undecided_knows pv_def)
    then have know: "knows_value (snd (snd (receive_all X evs ?st))) (pv_height pv) (pv_round pv) (hv_id (pv_value pv))"
      if "S \<noteq> {..<stream_len ps}" "insert k S = {..<stream_len ps}" using that receive_all_keeps by blast
    have D: "S \<union> delivered peer sid i ps (ev # evs) = insert k S \<union> delivered peer sid i ps evs"
      by (simp add: ev p k(2) delivered_Cons [OF b k(1)])
    have sub: "delivered peer sid i ps evs \<subseteq> {..<stream_len ps}" by (auto simp: delivered_def)
    have IH: "results_of (peer, sid) evs (fst (receive_all X evs ?st)) = (if insert k S \<noteq> {..<stream_len ps} \<and> insert k S \<union> delivered peer sid i ps evs = {..<stream_len ps} then [pv] else [])
      \<and> (insert k S \<noteq> {..<stream_len ps} \<and> insert k S \<union> delivered peer sid i ps evs = {..<stream_len ps}
        \<longrightarrow> knows_value (snd (snd (receive_all X evs ?st))) (pv_height pv) (pv_round pv) (hv_id (pv_value pv)))"
      using Cons.IH [OF S1 o1] Cons.prems(3) by simp
    have full: "S = {..<stream_len ps} \<Longrightarrow> insert k S = {..<stream_len ps}" using k(1) by auto
    show ?thesis
      unfolding run D fst_conv snd_conv unfolding ev results_of_simps True using IH r know sub full
      by (cases "S = {..<stream_len ps}"; cases "insert k S = {..<stream_len ps}") (simp_all add: Un_absorb2)
  next
    case False
    have o1: "of_stream (fst ?st) (peer, sid) i ps S"
      using Cons.prems(2) streams_insert_other [OF False [symmetric], of "fst st"] by (simp add: received_proposal_part_app of_stream_def)
    show ?thesis
      unfolding run delivered_Cons_other [OF False] fst_conv snd_conv unfolding ev results_of_simps delivered_Cons_other [OF False]
      using Cons.IH [OF Cons.prems(1) o1] Cons.prems(3) False by auto
  qed
qed

lemma stream_proposal_messages:
  fixes a :: HkApp and h :: HkHeight and r pol :: Round and v :: HkValue
  defines "i \<equiv> \<lparr>in_height = h, in_round = r, in_pol_round = pol, in_proposer = ha_address a\<rparr>"
    and "ps \<equiv> [TxBatch (hv_txs v), PartFin \<lparr>fin_value_id = hv_id v\<rparr>]"
  shows "set (stream_proposal a (h, r, v) pol) = nth_message (stream_id_of h r) i ps ` {..<stream_len ps}"
    and "v = value_new X (hv_txs v) \<Longrightarrow> proposed_of X (assembled i ps)
      = \<lparr>pv_height = h, pv_round = r, pv_valid_round = pol, pv_proposer = ha_address a, pv_value = v, pv_valid = True\<rparr>"
proof -
  have "{..<stream_len ps} = {0, 1, 2, 3}" by (auto simp: stream_len_def ps_def)
  then show "set (stream_proposal a (h, r, v) pol) = nth_message (stream_id_of h r) i ps ` {..<stream_len ps}"
    by (simp add: stream_proposal_def nth_message_def stream_contents_def i_def ps_def Let_def numeral_2_eq_2 numeral_3_eq_3)
  assume v: "v = value_new X (hv_txs v)"
  then have "value_new X (hv_txs v) = v" by simp
  then show "proposed_of X (assembled i ps)
      = \<lparr>pv_height = h, pv_round = r, pv_valid_round = pol, pv_proposer = ha_address a, pv_value = v, pv_valid = True\<rparr>"
    by (simp add: proposed_of_def assembled_def i_def ps_def parts_fin_def as_fin_def as_tx_batch_def List.map_filter_simps Let_def)
qed

lemma receive_all_dom: "dom (fst (snd (receive_all X evs st))) = dom (fst st) \<union> (\<lambda>(p, m). (p, sm_stream_id m)) ` set evs"
proof (induction evs arbitrary: st)
  case (Cons ev evs)
  obtain p m where ev: "ev = (p, m)" by (cases ev)
  have "dom (fst (snd (received_proposal_part X p m st))) = insert (p, sm_stream_id m) (dom (fst st))"
    by (simp add: received_proposal_part_app streams_insert_dom)
  then show ?case unfolding ev receive_all_Cons snd_conv Cons.IH by auto
qed simp

section \<open>Properties\<close>

text \<open>C23: A proposal reaches the other validators whole. If a peer delivers the messages of a streamed proposal in any order, any of them any number of
  times and mixed with any traffic of other peers and streams, then the receiver hands exactly one value to the engine for that stream: the
  proposed value with its height, round, proof-of-lock round and proposer, marked valid; and from then on the receiver
  knows a value with that identifier for the height and round.\<close>

theorem proposal_reaches_validator:
  assumes "v = value_new X (hv_txs v)" and "streams (peer, stream_id_of h r) = None"
    and "\<forall>m \<in> set (stream_proposal a (h, r, v) pol). (peer, m) \<in> set evs"
    and "\<forall>(p, m) \<in> set evs. p = peer \<and> sm_stream_id m = stream_id_of h r \<longrightarrow> m \<in> set (stream_proposal a (h, r, v) pol)"
  shows "results_of (peer, stream_id_of h r) evs (fst (receive_all X evs (streams, b)))
      = [\<lparr>pv_height = h, pv_round = r, pv_valid_round = pol, pv_proposer = ha_address a, pv_value = v, pv_valid = True\<rparr>]
    \<and> (\<exists>w. find_undecided (snd (snd (receive_all X evs (streams, b)))) h r (hv_id v) = Some w)"
proof -
  define i where "i = \<lparr>in_height = h, in_round = r, in_pol_round = pol, in_proposer = ha_address a\<rparr>"
  define ps where "ps = [TxBatch (hv_txs v), PartFin \<lparr>fin_value_id = hv_id v\<rparr>]"
  let ?sid = "stream_id_of h r"
  note ms = stream_proposal_messages(1) [where a = a and h = h and r = r and v = v and pol = pol, folded i_def ps_def]
  note pv = stream_proposal_messages(2) [OF assms(1), where a = a and h = h and r = r and pol = pol, folded i_def ps_def]
  have b: "stream_len ps < 2 ^ 64" by (simp add: stream_len_def ps_def)
  have o: "of_stream (fst (streams, b)) (peer, ?sid) i ps {}" using assms(2) by (simp add: of_stream_def)
  have e: "\<forall>(p, m) \<in> set evs. (p, sm_stream_id m) = (peer, ?sid) \<longrightarrow> (\<exists>k < stream_len ps. m = nth_message ?sid i ps k)"
    using assms(4) unfolding ms by auto
  have "delivered peer ?sid i ps evs = {..<stream_len ps}" using assms(3) unfolding ms by (auto simp: delivered_def)
  moreover have "{} \<noteq> {..<stream_len ps}" using stream_len_bounds(1) [of ps] by (metis lessThan_iff empty_iff)
  ultimately have now: "{} \<noteq> {..<stream_len ps} \<and> {} \<union> delivered peer ?sid i ps evs = {..<stream_len ps}" by simp
  from receive_all_stream [OF b empty_subsetI o e, of X] now show ?thesis unfolding pv by (simp add: knows_value_def)
qed

theorem proposal_reaches_validator_witness:
  "\<forall>a b. let v = value_new sample_hash [1, 2]; ms = stream_proposal a (5, RoundNil, v) RoundNil;
       evs = map (Pair [7]) (rev ms) @ [([8], hd ms)] @ map (Pair [7]) ms
     in results_of ([7], stream_id_of 5 RoundNil) evs (fst (receive_all sample_hash evs (Map.empty, b)))
        = [\<lparr>pv_height = 5, pv_round = RoundNil, pv_valid_round = RoundNil, pv_proposer = ha_address a, pv_value = v, pv_valid = True\<rparr>]"
  unfolding Let_def
proof (intro allI)
  fix a b
  let ?v = "value_new sample_hash [1, 2]"
  let ?ms = "stream_proposal a (5, RoundNil, ?v) RoundNil"
  have v: "?v = value_new sample_hash (hv_txs ?v)" by (simp add: value_new_def)
  show "results_of ([7], stream_id_of 5 RoundNil) (map (Pair [7]) (rev ?ms) @ [([8], hd ?ms)] @ map (Pair [7]) ?ms)
      (fst (receive_all sample_hash (map (Pair [7]) (rev ?ms) @ [([8], hd ?ms)] @ map (Pair [7]) ?ms) (Map.empty, b)))
    = [\<lparr>pv_height = 5, pv_round = RoundNil, pv_valid_round = RoundNil, pv_proposer = ha_address a, pv_value = ?v, pv_valid = True\<rparr>]"
    by (rule proposal_reaches_validator [OF v, THEN conjunct1]) auto
qed

text \<open>C39: Finished streams are never dropped. The reassembly map ends every run of receptions with one entry for every peer and stream identifier it has ever seen,
  whether the stream was completed or not: completing a stream takes its opening part, so the test that should remove the entry fails.\<close>

theorem streams_never_removed:
  "dom (fst (snd (receive_all X evs st))) = dom (fst st) \<union> (\<lambda>(p, m). (p, sm_stream_id m)) ` set evs"
  by (rule receive_all_dom)

end
