(* ===== verification/HK_BlockLog.thy ===== *)
theory HK_BlockLog
  imports HK_Node HK_Signer "HOL-Library.AList"
begin

text \<open>
  The block log and the admission log of a node on disk (\<^verbatim>\<open>hk-node/src/store.rs\<close>): one file per height for the newest blocks, segments of 1024 heights with an index for
  the older ones, compaction, retention, and the write-ahead log of admitted transactions. A directory is an association list from the
  number in the file name to the content. The library's binary encoding of blocks and transactions is a parameter.
  Writes go through \<open>write_atomic\<close> and may fail at any of its steps; a removal of the compaction may fail, and a loss of power may bring removed files back. A block or segment
  file that was seen is taken to be stable, the removals of a retention pass to succeed, and a file that is there to be readable: these failures of the disk are not modelled.
  Offsets are 64-bit words and lengths of frames 32-bit words, as in the code; sums wrap as in the release profile.
\<close>

record store_env =
  ser_block :: "StoredBlock \<Rightarrow> bytes"
  de_block :: "bytes \<Rightarrow> StoredBlock option"
  ser_tx :: "SignedTx \<Rightarrow> bytes"
  de_tx :: "bytes \<Rightarrow> SignedTx option"

record BlockDisk =
  bd_blocks :: "(u64 \<times> bytes) list"
  bd_segments :: "(u64 \<times> bytes) list"
  bd_wal :: "bytes option"

datatype StoreError =
  StoreWrite string
  | CorruptBlockFile u64
  | SegmentTruncated u64
  | SegmentBadMagic u64
  | SegmentBadOffset u64
  | UnexpectedEof
  | CorruptFrame u64 u64
  | WrongSlot u64 u64 u64
  | VerificationRead u64
  | RemoveFailed u64

definition SEGMENT_SPAN :: u64 where "SEGMENT_SPAN = 1024"
definition SEGMENT_MAGIC :: bytes where "SEGMENT_MAGIC = str_bytes ''HKS1''"
definition SEGMENT_TRAILER :: nat where "SEGMENT_TRAILER = 8 + 4"
definition SEGMENT_INDEX_BYTES :: nat where "SEGMENT_INDEX_BYTES = 1024 * 8"

definition put_file :: "WriteStep option \<Rightarrow> u64 \<Rightarrow> bytes \<Rightarrow> (u64 \<times> bytes) list \<Rightarrow> (unit, StoreError) outcome \<times> (u64 \<times> bytes) list" where
  "put_file fault name v files =
     (case write_atomic fault v \<lparr>fs_seen = map_of files name, fs_stable = map_of files name\<rparr> of (r, f) \<Rightarrow>
        (map_err StoreWrite r, case fs_seen f of Some c \<Rightarrow> AList.update name c files | None \<Rightarrow> files))"

section \<open>Blocks by height\<close>

definition save_block :: "'x store_env_scheme \<Rightarrow> WriteStep option \<Rightarrow> StoredBlock \<Rightarrow> BlockDisk \<Rightarrow> (unit, StoreError) outcome \<times> BlockDisk" where
  "save_block X fault block d =
     (case put_file fault (sb_height block) (ser_block X block) (bd_blocks d) of (r, files) \<Rightarrow> (r, d\<lparr>bd_blocks := files\<rparr>))"

text \<open>Reading at an offset: \<open>seek\<close> and \<open>read_exact\<close>.\<close>

definition read_at :: "bytes \<Rightarrow> nat \<Rightarrow> nat \<Rightarrow> (bytes, StoreError) outcome" where
  "read_at f off n = (if off + n \<le> length f then Ok (take n (drop off f)) else Err UnexpectedEof)"

definition u64_of :: "bytes \<Rightarrow> u64" where "u64_of bs = of_nat (le_value bs)"
definition u32_of :: "bytes \<Rightarrow> u32" where "u32_of bs = of_nat (le_value bs)"

definition open_segment :: "BlockDisk \<Rightarrow> u64 \<Rightarrow> ((bytes \<times> u64) option, StoreError) outcome" where
  "open_segment d i =
     (case map_of (bd_segments d) i of
        None \<Rightarrow> Ok None
      | Some f \<Rightarrow>
          let len = length f
          in if len < 4 + SEGMENT_INDEX_BYTES + SEGMENT_TRAILER then Err (SegmentTruncated i)
             else let head = take 4 f; trailer = drop (len - SEGMENT_TRAILER) f
                  in if head \<noteq> SEGMENT_MAGIC \<or> drop 8 trailer \<noteq> SEGMENT_MAGIC then Err (SegmentBadMagic i)
                     else let index_offset = u64_of (take 8 trailer)
                          in if index_offset + of_nat SEGMENT_INDEX_BYTES + of_nat SEGMENT_TRAILER \<noteq> of_nat len then Err (SegmentBadOffset i)
                             else Ok (Some (f, index_offset)))"

definition load_from_segment :: "'x store_env_scheme \<Rightarrow> BlockDisk \<Rightarrow> u64 \<Rightarrow> (StoredBlock option, StoreError) outcome" where
  "load_from_segment X d height =
     (let i = height div SEGMENT_SPAN
      in bind_ok (open_segment d i) (\<lambda>r.
         case r of
           None \<Rightarrow> Ok None
         | Some (f, index_offset) \<Rightarrow>
             let slot = (height mod SEGMENT_SPAN) * 8
             in bind_ok (read_at f (unat (index_offset + slot)) 8) (\<lambda>off_bytes.
                let off = u64_of off_bytes
                in if off = 0 then Ok None
                   else bind_ok (read_at f (unat off) 4) (\<lambda>len_bytes.
                        bind_ok (read_at f (unat off + 4) (unat (u32_of len_bytes))) (\<lambda>bytes.
                        case de_block X bytes of
                          None \<Rightarrow> Err (CorruptFrame height i)
                        | Some block \<Rightarrow> if sb_height block \<noteq> height then Err (WrongSlot i height (sb_height block)) else Ok (Some block))))))"

definition load_block :: "'x store_env_scheme \<Rightarrow> BlockDisk \<Rightarrow> u64 \<Rightarrow> (StoredBlock option, StoreError) outcome" where
  "load_block X d height =
     (case map_of (bd_blocks d) height of
        Some bytes \<Rightarrow> (case de_block X bytes of Some block \<Rightarrow> Ok (Some block) | None \<Rightarrow> Err (CorruptBlockFile height))
      | None \<Rightarrow> load_from_segment X d height)"

definition segment_heights :: "BlockDisk \<Rightarrow> u64 \<Rightarrow> (u64 list, StoreError) outcome" where
  "segment_heights d i =
     bind_ok (open_segment d i) (\<lambda>r.
       case r of
         None \<Rightarrow> Ok []
       | Some (f, index_offset) \<Rightarrow>
           bind_ok (read_at f (unat index_offset) SEGMENT_INDEX_BYTES) (\<lambda>idx.
             let base = i * SEGMENT_SPAN
             in Ok (map (\<lambda>k. base + of_nat k) (filter (\<lambda>k. u64_of (take 8 (drop (8 * k) idx)) \<noteq> 0) [0..<1024]))))"

definition block_heights :: "BlockDisk \<Rightarrow> u64 list" where
  "block_heights d =
     remdups (sort (map fst (bd_blocks d)
       @ concat (map (\<lambda>i. case segment_heights d i of Ok hs \<Rightarrow> hs | _ \<Rightarrow> []) (map fst (bd_segments d)))))"

section \<open>Compaction and retention\<close>

fun pack_loop :: "'x store_env_scheme \<Rightarrow> BlockDisk \<Rightarrow> u64 \<Rightarrow> nat list \<Rightarrow> bytes \<times> u64 list \<times> nat \<Rightarrow> (bytes \<times> u64 list \<times> nat, StoreError) outcome" where
  "pack_loop X d base [] acc = Ok acc"
| "pack_loop X d base (k # ks) (body, idx, present) =
     (let h = base + of_nat k
      in case map_of (bd_blocks d) h of
           None \<Rightarrow> pack_loop X d base ks (body, idx, present)
         | Some bytes \<Rightarrow>
             if de_block X bytes = None then Err (CorruptBlockFile h)
             else pack_loop X d base ks (body @ u32_le (of_nat (length bytes)) @ bytes, idx[k := of_nat (length body)], present + 1))"

definition segment_bytes :: "bytes \<Rightarrow> u64 list \<Rightarrow> bytes" where
  "segment_bytes body idx = body @ concat (map u64_le idx) @ u64_le (of_nat (length body)) @ SEGMENT_MAGIC"

fun remove_loop :: "nat \<Rightarrow> u64 list \<Rightarrow> nat \<Rightarrow> BlockDisk \<Rightarrow> (nat, StoreError) outcome \<times> BlockDisk" where
  "remove_loop stop [] retired d = (Ok retired, d)"
| "remove_loop stop (h # hs) retired d =
     (if map_of (bd_blocks d) h = None then remove_loop stop hs retired d
      else case stop of
             0 \<Rightarrow> (Err (RemoveFailed h), d)
           | Suc n \<Rightarrow> remove_loop n hs (retired + 1) (d\<lparr>bd_blocks := AList.delete h (bd_blocks d)\<rparr>))"

definition write_segment :: "'x store_env_scheme \<Rightarrow> WriteStep option \<Rightarrow> u64 \<Rightarrow> bytes \<Rightarrow> u64 list \<Rightarrow> BlockDisk \<Rightarrow> (unit, StoreError) outcome \<times> BlockDisk" where
  "write_segment X fault i body idx d =
     (case put_file fault i (segment_bytes body idx) (bd_segments d) of
        (Ok _, files) \<Rightarrow>
          (let d1 = d\<lparr>bd_segments := files\<rparr>;
               p = length (takeWhile (\<lambda>off. off = 0) idx);
               check = i * SEGMENT_SPAN + of_nat (if p < length idx then p else 0)
           in (bind_ok (load_from_segment X d1 check) (\<lambda>r. if r = None then Err (VerificationRead i) else Ok ()), d1))
      | (e, files) \<Rightarrow> (e, d\<lparr>bd_segments := files\<rparr>))"

definition compact_segment :: "'x store_env_scheme \<Rightarrow> WriteStep option \<Rightarrow> nat \<Rightarrow> u64 \<Rightarrow> BlockDisk \<Rightarrow> (nat, StoreError) outcome \<times> BlockDisk" where
  "compact_segment X fault stop i d =
     (let base = i * SEGMENT_SPAN;
          retire = remove_loop stop (map (\<lambda>k. base + of_nat k) [0..<1024]) 0
      in if map_of (bd_segments d) i \<noteq> None then retire d
         else case pack_loop X d base [0..<1024] (SEGMENT_MAGIC, replicate 1024 0, 0) of
                Ok (body, idx, present) \<Rightarrow>
                  if present = 0 then (Ok 0, d)
                  else (case write_segment X fault i body idx d of
                          (Ok _, d1) \<Rightarrow> retire d1
                        | (Err e, d1) \<Rightarrow> (Err e, d1)
                        | (Panic, d1) \<Rightarrow> (Panic, d1))
              | Err e \<Rightarrow> (Err e, d)
              | Panic \<Rightarrow> (Panic, d))"

definition compactable_segments :: "u64 \<Rightarrow> BlockDisk \<Rightarrow> u64 list" where
  "compactable_segments through d =
     remdups (sort (filter (\<lambda>i. (i + 1) * SEGMENT_SPAN - 1 \<le> through) (map (\<lambda>h. h div SEGMENT_SPAN) (map fst (bd_blocks d)))))"

definition prune_below :: "u64 \<Rightarrow> u64 \<Rightarrow> BlockDisk \<Rightarrow> u64 option \<times> BlockDisk" where
  "prune_below tip_h retain d =
     (if retain = 0 \<or> tip_h \<le> retain then (None, d)
      else let keep_seg = (tip_h - retain) div SEGMENT_SPAN
           in (if \<exists>i \<in> set (map fst (bd_segments d)). i < keep_seg then Some (keep_seg * SEGMENT_SPAN) else None,
               d\<lparr>bd_segments := filter (\<lambda>p. \<not> fst p < keep_seg) (bd_segments d)\<rparr>))"

section \<open>The admission log\<close>

definition wal_frame :: "'x store_env_scheme \<Rightarrow> SignedTx \<Rightarrow> bytes" where
  "wal_frame X tx = (let frame = ser_tx X tx in u32_le (of_nat (length frame)) @ frame)"

text \<open>An append writes a prefix of the frame, all of it when nothing goes wrong.\<close>

definition wal_append :: "'x store_env_scheme \<Rightarrow> nat \<Rightarrow> SignedTx \<Rightarrow> BlockDisk \<Rightarrow> BlockDisk" where
  "wal_append X written tx d = d\<lparr>bd_wal := Some ((case bd_wal d of Some b \<Rightarrow> b | None \<Rightarrow> []) @ take written (wal_frame X tx))\<rparr>"

function wal_loop :: "'x store_env_scheme \<Rightarrow> bytes \<Rightarrow> nat \<Rightarrow> SignedTx list" where
  "wal_loop X bytes off =
     (if \<not> off + 4 \<le> length bytes then []
      else let len = unat (u32_of (take 4 (drop off bytes))); off1 = off + 4
           in if off1 + len > length bytes then []
              else case de_tx X (take len (drop off1 bytes)) of
                     None \<Rightarrow> []
                   | Some tx \<Rightarrow> tx # wal_loop X bytes (off1 + len))"
  by pat_completeness auto
termination by (relation "measure (\<lambda>(X, bytes, off). length bytes - off)") auto

definition wal_load :: "'x store_env_scheme \<Rightarrow> BlockDisk \<Rightarrow> SignedTx list" where
  "wal_load X d = (case bd_wal d of None \<Rightarrow> [] | Some bytes \<Rightarrow> wal_loop X bytes 0)"

definition wal_reset :: "'x store_env_scheme \<Rightarrow> WriteStep option \<Rightarrow> SignedTx list \<Rightarrow> BlockDisk \<Rightarrow> (unit, StoreError) outcome \<times> BlockDisk" where
  "wal_reset X fault txs d =
     (case write_atomic fault (concat (map (wal_frame X) txs)) \<lparr>fs_seen = bd_wal d, fs_stable = bd_wal d\<rparr> of (r, f) \<Rightarrow>
        (map_err StoreWrite r, d\<lparr>bd_wal := fs_seen f\<rparr>))"

end
