(* ===== verification/HK_BlockRuns.thy ===== *)
theory HK_BlockRuns
  imports HK_BlockLog
begin

text \<open>
  What the block log promises: over any run of saves, failed writes, compactions stopped at any point, losses of power and retention passes the
  files on disk refine an abstract log from heights to blocks, and the admission log returns what was written before a torn frame.
\<close>

section \<open>What a reader of the log relies on\<close>

text \<open>A store that stands for a map from heights to blocks: lookups return the map and the listing is its domain in order. A restart reads
  the blocks above its snapshot in that order and gets each of them once.\<close>

fun load_all :: "('d \<Rightarrow> u64 \<Rightarrow> ('b option, 'e) outcome) \<Rightarrow> 'd \<Rightarrow> u64 list \<Rightarrow> ('b list, 'e) outcome" where
  "load_all load d [] = Ok []"
| "load_all load d (h # hs) = bind_ok (load d h) (\<lambda>r. bind_ok (load_all load d hs) (\<lambda>bs. Ok (case r of None \<Rightarrow> bs | Some b \<Rightarrow> b # bs)))"

locale block_store =
  fixes stands_for :: "'d \<Rightarrow> (u64 \<rightharpoonup> 'b) \<Rightarrow> bool" and load :: "'d \<Rightarrow> u64 \<Rightarrow> ('b option, 'e) outcome" and heights :: "'d \<Rightarrow> u64 list"
  assumes load_ok: "stands_for d log \<Longrightarrow> load d h = Ok (log h)"
    and heights_ok: "stands_for d log \<Longrightarrow> sorted (heights d) \<and> distinct (heights d) \<and> set (heights d) = dom log"
begin

lemma load_all_ok: "stands_for d log \<Longrightarrow> set hs \<subseteq> dom log \<Longrightarrow> load_all load d hs = Ok (map (\<lambda>h. the (log h)) hs)"
  by (induction hs) (auto simp: load_ok)

text \<open>The blocks above a height, in order.\<close>

lemma suffix_ok:
  assumes "stands_for d log"
  shows "load_all load d (filter (\<lambda>h. snap < h) (heights d)) = Ok (map (\<lambda>h. the (log h)) (filter (\<lambda>h. snap < h) (heights d)))"
  using assms heights_ok [OF assms] by (intro load_all_ok) auto

text \<open>Two stores that stand for the same map are read alike.\<close>

lemma same_map_same_reads:
  assumes "stands_for d log" and "stands_for d' log"
  shows "heights d = heights d'" and "load_all load d (filter (\<lambda>h. snap < h) (heights d)) = load_all load d' (filter (\<lambda>h. snap < h) (heights d'))"
proof -
  show "heights d = heights d'"
    using heights_ok [OF assms(1)] heights_ok [OF assms(2)] by (metis sorted_distinct_set_unique)
  then show "load_all load d (filter (\<lambda>h. snap < h) (heights d)) = load_all load d' (filter (\<lambda>h. snap < h) (heights d'))"
    using suffix_ok [OF assms(1), of snap] suffix_ok [OF assms(2), of snap] by simp
qed

end

section \<open>Files\<close>

lemma map_of_put_file:
  "map_of (snd (put_file fault name v files)) = (if fault = None \<or> fault = Some SyncDir then (map_of files)(name \<mapsto> v) else map_of files)"
  by (auto simp: put_file_def write_atomic_def update_conv' split: option.split WriteStep.split)

lemma put_file_Ok_iff: "fst (put_file fault name v files) = Ok () \<longleftrightarrow> fault = None"
  by (auto simp: put_file_def write_atomic_def split: option.split WriteStep.split)

lemma read_at_prefix: "take n (drop off body) = bs \<Longrightarrow> off + n \<le> length body \<Longrightarrow> read_at (body @ rest) off n = Ok bs"
  by (simp add: read_at_def)

lemma u64_of_le [simp]: "u64_of (u64_le x) = x"
  by (simp add: u64_of_def u64_le_def le_value_le_bytes)

lemma u32_of_le [simp]: "u32_of (u32_le x) = x"
  by (simp add: u32_of_def u32_le_def le_value_le_bytes)

lemma length_magic [simp]: "length SEGMENT_MAGIC = 4"
  by (simp add: SEGMENT_MAGIC_def str_bytes_def)

lemma take_drop_chunks: "k < length xs \<Longrightarrow> (\<And>x. length (f x) = n) \<Longrightarrow> take n (drop (n * k) (concat (map f xs) @ rest)) = f (xs ! k)"
proof (induction xs arbitrary: k)
  case (Cons x xs)
  then show ?case by (cases k) simp_all
qed simp

lemma length_chunks: "(\<And>x. length (f x) = n) \<Longrightarrow> length (concat (map f xs)) = n * length xs"
  by (induction xs) simp_all

section \<open>Reading a segment\<close>

definition seg_body_ok :: "bytes \<Rightarrow> u64 list \<Rightarrow> bool" where
  "seg_body_ok body idx \<longleftrightarrow> length idx = 1024 \<and> take 4 body = SEGMENT_MAGIC \<and> 4 \<le> length body \<and> length body < 2 ^ 63"

lemma length_segment_bytes: "length idx = 1024 \<Longrightarrow> length (segment_bytes body idx) = length body + 8204"
  by (simp add: segment_bytes_def length_chunks [of u64_le 8])

lemma open_segment_bytes:
  assumes "seg_body_ok body idx" and "map_of (bd_segments d) i = Some (segment_bytes body idx)"
  shows "open_segment d i = Ok (Some (segment_bytes body idx, of_nat (length body)))"
proof -
  let ?f = "segment_bytes body idx"
  have i: "length idx = 1024" and b: "take 4 body = SEGMENT_MAGIC" "4 \<le> length body" using assms(1) by (simp_all add: seg_body_ok_def)
  have len: "length ?f = length body + 8204" by (rule length_segment_bytes [OF i])
  have "?f = (body @ concat (map u64_le idx)) @ u64_le (of_nat (length body)) @ SEGMENT_MAGIC" by (simp add: segment_bytes_def)
  moreover have "length (body @ concat (map u64_le idx)) = length ?f - SEGMENT_TRAILER"
    by (simp add: len length_chunks [of u64_le 8] i SEGMENT_TRAILER_def)
  ultimately have tr: "drop (length ?f - SEGMENT_TRAILER) ?f = u64_le (of_nat (length body)) @ SEGMENT_MAGIC"
    by (metis append_eq_conv_conj)
  have hd: "take 4 ?f = SEGMENT_MAGIC" using b by (simp add: segment_bytes_def)
  show ?thesis
    unfolding open_segment_def assms(2) option.case Let_def tr hd
    using b(2) by (simp add: len SEGMENT_INDEX_BYTES_def SEGMENT_TRAILER_def)
qed

lemma unat_body_offset:
  assumes "length body < 2 ^ 63" and "n \<le> 8192"
  shows "unat (of_nat (length body) + of_nat n :: u64) = length body + n"
  using assms by (simp flip: of_nat_add add: unat_of_nat)

lemma read_slot:
  assumes "seg_body_ok body idx" and "k < 1024"
  shows "read_at (segment_bytes body idx) (unat (of_nat (length body) + of_nat (8 * k) :: u64)) 8 = Ok (u64_le (idx ! k))"
proof -
  have o: "unat (of_nat (length body) + of_nat (8 * k) :: u64) = length body + 8 * k"
    using assms by (intro unat_body_offset) (simp_all add: seg_body_ok_def)
  have i: "length idx = 1024" using assms(1) by (simp add: seg_body_ok_def)
  have "take 8 (drop (8 * k) (concat (map u64_le idx) @ u64_le (of_nat (length body)) @ SEGMENT_MAGIC)) = u64_le (idx ! k)"
    by (rule take_drop_chunks) (simp_all add: i assms(2))
  then show ?thesis
    unfolding o using assms(2) by (simp add: read_at_def length_segment_bytes [OF i]) (simp add: segment_bytes_def)
qed

definition frame_at :: "bytes \<Rightarrow> u64 \<Rightarrow> bytes \<Rightarrow> bool" where
  "frame_at body off bytes \<longleftrightarrow> off \<noteq> 0 \<and> unat off + 4 + length bytes \<le> length body \<and> length bytes < 2 ^ 32
     \<and> take (4 + length bytes) (drop (unat off) body) = u32_le (of_nat (length bytes)) @ bytes"

lemma frame_at_append: "frame_at body off bytes \<Longrightarrow> frame_at (body @ rest) off bytes"
  by (simp add: frame_at_def)

lemma frame_at_reads:
  assumes "frame_at body off bytes"
  shows "read_at (body @ rest) (unat off) 4 = Ok (u32_le (of_nat (length bytes)))"
    and "read_at (body @ rest) (unat off + 4) (length bytes) = Ok bytes"
    and "unat (of_nat (length bytes) :: u32) = length bytes"
proof -
  have t: "take (4 + length bytes) (drop (unat off) body) = u32_le (of_nat (length bytes)) @ bytes"
    and l: "unat off + 4 + length bytes \<le> length body" "length bytes < 2 ^ 32" using assms by (simp_all add: frame_at_def)
  have "take 4 (drop (unat off) body) = take 4 (take (4 + length bytes) (drop (unat off) body))" by simp
  then have "take 4 (drop (unat off) body) = u32_le (of_nat (length bytes))" unfolding t by simp
  then show "read_at (body @ rest) (unat off) 4 = Ok (u32_le (of_nat (length bytes)))" using l by (intro read_at_prefix) simp_all
  have "take (length bytes) (drop (unat off + 4) body) = drop 4 (take (4 + length bytes) (drop (unat off) body))"
    by (simp add: drop_take add.commute)
  then have "take (length bytes) (drop (unat off + 4) body) = bytes" unfolding t by simp
  then show "read_at (body @ rest) (unat off + 4) (length bytes) = Ok bytes" using l by (intro read_at_prefix) simp_all
  show "unat (of_nat (length bytes) :: u32) = length bytes" using l by (simp add: unat_of_nat)
qed

lemma load_from_segment_bytes:
  assumes "seg_body_ok body idx" and "map_of (bd_segments d) (h div SEGMENT_SPAN) = Some (segment_bytes body idx)"
  defines "off \<equiv> idx ! unat (h mod SEGMENT_SPAN)"
  shows "off = 0 \<Longrightarrow> load_from_segment X d h = Ok None"
    and "frame_at body off bytes \<Longrightarrow> de_block X bytes = Some b \<Longrightarrow> sb_height b = h \<Longrightarrow> load_from_segment X d h = Ok (Some b)"
proof -
  let ?k = "unat (h mod SEGMENT_SPAN)"
  have k: "?k < 1024" by (simp add: SEGMENT_SPAN_def unat_mod)
  have "of_nat (8 * ?k) = (h mod SEGMENT_SPAN) * 8" by simp
  with read_slot [OF assms(1) k]
  have slot: "read_at (segment_bytes body idx) (unat (of_nat (length body) + (h mod SEGMENT_SPAN) * 8)) 8 = Ok (u64_le off)" by (simp only: off_def)
  note o = open_segment_bytes [OF assms(1,2)]
  show "off = 0 \<Longrightarrow> load_from_segment X d h = Ok None"
    unfolding load_from_segment_def Let_def o by (simp add: slot)
  assume f: "frame_at body off bytes" "de_block X bytes = Some b" "sb_height b = h"
  have r: "read_at (segment_bytes body idx) (unat off) 4 = Ok (u32_le (of_nat (length bytes)))"
    "read_at (segment_bytes body idx) (unat off + 4) (length bytes) = Ok bytes"
    unfolding segment_bytes_def by (rule frame_at_reads [OF f(1)])+
  show "load_from_segment X d h = Ok (Some b)"
    unfolding load_from_segment_def Let_def o using f frame_at_reads(3) [OF f(1)] by (simp add: slot r frame_at_def)
qed

section \<open>Packing\<close>

definition block_file :: "BlockDisk \<Rightarrow> u64 \<Rightarrow> nat \<Rightarrow> bytes option" where
  "block_file d base k = map_of (bd_blocks d) (base + of_nat k)"

definition packed :: "BlockDisk \<Rightarrow> u64 \<Rightarrow> nat set \<Rightarrow> bytes \<Rightarrow> u64 list \<Rightarrow> bool" where
  "packed d base K body idx \<longleftrightarrow> length idx = 1024 \<and> take 4 body = SEGMENT_MAGIC \<and> 4 \<le> length body
     \<and> (\<forall>k < 1024. case (if k \<in> K then block_file d base k else None) of None \<Rightarrow> idx ! k = 0 | Some bytes \<Rightarrow> frame_at body (idx ! k) bytes)"

definition files_ok :: "'x store_env_scheme \<Rightarrow> (u64 \<rightharpoonup> StoredBlock) \<Rightarrow> BlockDisk \<Rightarrow> bool" where
  "files_ok X log d \<longleftrightarrow> (\<forall>h bytes. map_of (bd_blocks d) h = Some bytes \<longrightarrow>
     length bytes < 2 ^ 32 \<and> (\<exists>b. de_block X bytes = Some b \<and> sb_height b = h \<and> log h = Some b))"

lemma packed_skip: "packed d base K body idx \<Longrightarrow> block_file d base k = None \<Longrightarrow> packed d base (insert k K) body idx"
  by (auto simp: packed_def split: option.splits if_splits)

lemma packed_add:
  assumes "packed d base K body idx" and "block_file d base k = Some bytes" and "k < 1024" and "k \<notin> K"
    and "length bytes < 2 ^ 32" and "length body < 2 ^ 63"
  shows "packed d base (insert k K) (body @ u32_le (of_nat (length bytes)) @ bytes) (idx[k := of_nat (length body)])"
proof -
  let ?body = "body @ u32_le (of_nat (length bytes)) @ bytes"
  have l: "length idx = 1024" "4 \<le> length body" "take 4 body = SEGMENT_MAGIC" using assms(1) by (simp_all add: packed_def)
  have u: "unat (of_nat (length body) :: u64) = length body" using assms(6) by (simp add: unat_of_nat)
  then have "(of_nat (length body) :: u64) \<noteq> 0" using l(2) by (metis unat_0 not_numeral_le_zero)
  then have fr: "frame_at ?body (of_nat (length body)) bytes" using u assms(5) by (simp add: frame_at_def)
  then have "case (if j \<in> insert k K then block_file d base j else None) of None \<Rightarrow> idx[k := of_nat (length body)] ! j = 0
      | Some b \<Rightarrow> frame_at ?body (idx[k := of_nat (length body)] ! j) b" if j: "j < 1024" for j
  proof -
    have "case (if j \<in> K then block_file d base j else None) of None \<Rightarrow> idx ! j = 0 | Some b \<Rightarrow> frame_at body (idx ! j) b"
      using assms(1) j unfolding packed_def by blast
    then have "case (if j \<in> K then block_file d base j else None) of None \<Rightarrow> idx ! j = 0 | Some b \<Rightarrow> frame_at ?body (idx ! j) b"
      by (cases "if j \<in> K then block_file d base j else None") (simp_all add: frame_at_append)
    then show ?thesis using fr assms(2,3) l(1) by (cases "j = k"; cases "j \<in> K"; cases "block_file d base j") simp_all
  qed
  then show ?thesis unfolding packed_def using l by simp
qed

lemma pack_loop_packs:
  assumes "files_ok X log d" and "set ks \<subseteq> {..<1024}" and "distinct ks" and "set ks \<inter> K = {}"
    and "packed d base K body idx" and "length body + length ks * (2 ^ 32 + 4) < 2 ^ 63"
  shows "\<exists>body' idx' present'. pack_loop X d base ks (body, idx, present) = Ok (body', idx', present')
    \<and> packed d base (K \<union> set ks) body' idx' \<and> length body' \<le> length body + length ks * (2 ^ 32 + 4)
    \<and> present' = present + length (filter (\<lambda>k. block_file d base k \<noteq> None) ks)"
  using assms(2-)
proof (induction ks arbitrary: K body idx present)
  case (Cons k ks)
  show ?case
  proof (cases "block_file d base k")
    case None
    from Cons.IH [OF _ _ _ packed_skip [OF Cons.prems(4) None], of present] Cons.prems None show ?thesis
      by (fastforce simp: block_file_def)
  next
    case (Some bytes)
    then have f: "length bytes < 2 ^ 32" "de_block X bytes \<noteq> None" using assms(1) by (auto simp: files_ok_def block_file_def)
    let ?body = "body @ u32_le (of_nat (length bytes)) @ bytes"
    have p: "packed d base (insert k K) ?body (idx[k := of_nat (length body)])"
      using Cons.prems f(1) by (intro packed_add [OF _ Some]) simp_all
    have "length ?body + length ks * (2 ^ 32 + 4) < 2 ^ 63" "length ?body \<le> length body + (2 ^ 32 + 4)" using Cons.prems(5) f(1) by simp_all
    with Cons.IH [OF _ _ _ p, of "present + 1"] Cons.prems Some f(2) show ?thesis by (fastforce simp: block_file_def)
  qed
qed simp

section \<open>Spans\<close>

lemma span_bound: "unat (h div SEGMENT_SPAN) < 2 ^ 54"
  using unsigned_less [of h, where ?'a = nat] by (simp add: SEGMENT_SPAN_def unat_div less_mult_imp_div_less)

lemma unat_in_span: "unat i < 2 ^ 54 \<Longrightarrow> k < 1024 \<Longrightarrow> unat (i * SEGMENT_SPAN + of_nat k) = unat i * 1024 + k"
  by (simp add: SEGMENT_SPAN_def unat_word_ariths unat_of_nat)

lemma in_span:
  assumes "unat i < 2 ^ 54" and "k < 1024"
  shows "(i * SEGMENT_SPAN + of_nat k) div SEGMENT_SPAN = i" and "unat ((i * SEGMENT_SPAN + of_nat k) mod SEGMENT_SPAN) = k"
  using assms unat_in_span [OF assms] by (simp_all add: word_unat_eq_iff unat_div unat_mod) (simp_all add: SEGMENT_SPAN_def)

lemma span_decompose: "h = (h div SEGMENT_SPAN) * SEGMENT_SPAN + of_nat (unat (h mod SEGMENT_SPAN))"
  using div_mult_mod_eq [of h SEGMENT_SPAN] by simp

lemma span_slot: "unat (h mod SEGMENT_SPAN) < 1024"
  by (simp add: SEGMENT_SPAN_def unat_mod)

lemma span_last: "h div SEGMENT_SPAN = i \<Longrightarrow> h \<le> (i + 1) * SEGMENT_SPAN - 1"
proof -
  assume i: "h div SEGMENT_SPAN = i"
  have a: "(i + 1) * SEGMENT_SPAN - 1 = i * SEGMENT_SPAN + of_nat 1023" by (simp add: SEGMENT_SPAN_def algebra_simps)
  have b: "unat h = unat i * 1024 + unat (h mod SEGMENT_SPAN)"
    using unat_in_span [OF span_bound [of h] span_slot [of h]] i span_decompose [of h] by simp
  have c: "unat (i * SEGMENT_SPAN + of_nat 1023) = unat i * 1024 + 1023" using span_bound [of h] i by (intro unat_in_span) simp_all
  show ?thesis unfolding word_le_nat_alt a b c using span_slot [of h] by linarith
qed

section \<open>The invariant of the log\<close>

definition seg_holds :: "'x store_env_scheme \<Rightarrow> (u64 \<rightharpoonup> StoredBlock) \<Rightarrow> u64 \<Rightarrow> bytes \<Rightarrow> bool" where
  "seg_holds X log i f \<longleftrightarrow> (\<exists>body idx. f = segment_bytes body idx \<and> seg_body_ok body idx
     \<and> (\<forall>h. h div SEGMENT_SPAN = i \<longrightarrow>
          (case log h of None \<Rightarrow> idx ! unat (h mod SEGMENT_SPAN) = 0
           | Some b \<Rightarrow> \<exists>bytes. frame_at body (idx ! unat (h mod SEGMENT_SPAN)) bytes \<and> de_block X bytes = Some b \<and> sb_height b = h)))"

definition log_inv :: "'x store_env_scheme \<Rightarrow> u64 \<Rightarrow> (u64 \<rightharpoonup> StoredBlock) \<Rightarrow> BlockDisk \<Rightarrow> bool" where
  "log_inv X snap log d \<longleftrightarrow> files_ok X log d
     \<and> (\<forall>i f. map_of (bd_segments d) i = Some f \<longrightarrow> seg_holds X log i f \<and> unat i < 2 ^ 54 \<and> (\<forall>h. h div SEGMENT_SPAN = i \<longrightarrow> h \<le> snap))
     \<and> (\<forall>h. map_of (bd_blocks d) h = None \<longrightarrow> map_of (bd_segments d) (h div SEGMENT_SPAN) = None \<longrightarrow> log h = None)"

lemma seg_holds_loads:
  assumes "seg_holds X log (h div SEGMENT_SPAN) f" and "map_of (bd_segments d) (h div SEGMENT_SPAN) = Some f"
  shows "load_from_segment X d h = Ok (log h)"
proof -
  from assms(1) obtain body idx where s: "f = segment_bytes body idx" "seg_body_ok body idx"
    and c: "case log h of None \<Rightarrow> idx ! unat (h mod SEGMENT_SPAN) = 0
      | Some b \<Rightarrow> \<exists>bytes. frame_at body (idx ! unat (h mod SEGMENT_SPAN)) bytes \<and> de_block X bytes = Some b \<and> sb_height b = h"
    unfolding seg_holds_def by blast
  note load = load_from_segment_bytes [OF s(2) assms(2) [unfolded s(1)]]
  show ?thesis using c load by (cases "log h") auto
qed

lemma log_inv_loads:
  assumes "log_inv X snap log d"
  shows "load_block X d h = Ok (log h)"
proof (cases "map_of (bd_blocks d) h")
  case (Some bytes)
  then show ?thesis using assms by (force simp: log_inv_def files_ok_def load_block_def)
next
  case None
  show ?thesis
  proof (cases "map_of (bd_segments d) (h div SEGMENT_SPAN)")
    case (Some f)
    with assms have "seg_holds X log (h div SEGMENT_SPAN) f" by (simp add: log_inv_def)
    with None Some show ?thesis by (simp add: load_block_def seg_holds_loads)
  next
    case (None)
    with \<open>map_of (bd_blocks d) h = None\<close> assms show ?thesis
      by (simp add: log_inv_def load_block_def load_from_segment_def open_segment_def)
  qed
qed

lemma seg_holds_heights:
  assumes "seg_holds X log i f" and "map_of (bd_segments d) i = Some f" and "unat i < 2 ^ 54"
  shows "\<exists>hs. segment_heights d i = Ok hs \<and> set hs = {h. h div SEGMENT_SPAN = i \<and> log h \<noteq> None}"
proof -
  from assms(1) obtain body idx where s: "f = segment_bytes body idx" "seg_body_ok body idx"
    and c: "\<And>h. h div SEGMENT_SPAN = i \<Longrightarrow> case log h of None \<Rightarrow> idx ! unat (h mod SEGMENT_SPAN) = 0
      | Some b \<Rightarrow> \<exists>bytes. frame_at body (idx ! unat (h mod SEGMENT_SPAN)) bytes \<and> de_block X bytes = Some b \<and> sb_height b = h"
    unfolding seg_holds_def by blast
  have l: "length idx = 1024" "length body < 2 ^ 63" using s(2) by (simp_all add: seg_body_ok_def)
  have u: "unat (of_nat (length body) :: u64) = length body" using l(2) by (simp add: unat_of_nat)
  let ?index = "concat (map u64_le idx)"
  have r: "read_at f (length body) SEGMENT_INDEX_BYTES = Ok ?index"
    using length_segment_bytes [OF l(1), of body] length_chunks [of u64_le 8 idx] l(1)
    by (simp add: read_at_def s(1) SEGMENT_INDEX_BYTES_def) (simp add: segment_bytes_def)
  have "u64_of (take 8 (drop (8 * k) ?index)) = idx ! k" if "k < 1024" for k
    using take_drop_chunks [of k idx u64_le 8 "[]"] that l(1) by simp
  then have f: "filter (\<lambda>k. u64_of (take 8 (drop (8 * k) ?index)) \<noteq> 0) [0..<1024] = filter (\<lambda>k. idx ! k \<noteq> 0) [0..<1024]"
    by (intro filter_cong) simp_all
  have z: "idx ! unat (h mod SEGMENT_SPAN) \<noteq> 0 \<longleftrightarrow> log h \<noteq> None" if "h div SEGMENT_SPAN = i" for h
    using c [OF that] by (cases "log h") (auto simp: frame_at_def)
  have "(\<lambda>k. i * SEGMENT_SPAN + of_nat k) ` {k. k < 1024 \<and> idx ! k \<noteq> 0} = {h. h div SEGMENT_SPAN = i \<and> log h \<noteq> None}"
  proof (intro set_eqI iffI)
    fix h assume "h \<in> (\<lambda>k. i * SEGMENT_SPAN + of_nat k) ` {k. k < 1024 \<and> idx ! k \<noteq> 0}"
    then show "h \<in> {h. h div SEGMENT_SPAN = i \<and> log h \<noteq> None}"
      using in_span [OF assms(3)] z by fastforce
  next
    fix h assume h: "h \<in> {h. h div SEGMENT_SPAN = i \<and> log h \<noteq> None}"
    then show "h \<in> (\<lambda>k. i * SEGMENT_SPAN + of_nat k) ` {k. k < 1024 \<and> idx ! k \<noteq> 0}"
      using z [of h] span_slot [of h] span_decompose [of h] by (intro image_eqI [of _ _ "unat (h mod SEGMENT_SPAN)"]) auto
  qed
  then have "segment_heights d i = Ok (map (\<lambda>k. i * SEGMENT_SPAN + of_nat k) (filter (\<lambda>k. idx ! k \<noteq> 0) [0..<1024]))"
      "set (map (\<lambda>k. i * SEGMENT_SPAN + of_nat k) (filter (\<lambda>k. idx ! k \<noteq> 0) [0..<1024])) = {h. h div SEGMENT_SPAN = i \<and> log h \<noteq> None}"
    unfolding segment_heights_def open_segment_bytes [OF s(2) assms(2) [unfolded s(1)]] using r f
    by (simp_all add: u s(1) Let_def conj_commute)
  then show ?thesis by blast
qed

lemma log_inv_heights:
  assumes "log_inv X snap log d"
  shows "sorted (block_heights d) \<and> distinct (block_heights d) \<and> set (block_heights d) = dom log"
proof -
  have seg: "\<exists>hs. segment_heights d i = Ok hs \<and> set hs = {h. h div SEGMENT_SPAN = i \<and> log h \<noteq> None}" if "i \<in> fst ` set (bd_segments d)" for i
  proof -
    from that obtain f where "map_of (bd_segments d) i = Some f" by (metis map_of_eq_None_iff not_None_eq)
    with assms seg_holds_heights show ?thesis unfolding log_inv_def by blast
  qed
  have A: "set (block_heights d) = fst ` set (bd_blocks d) \<union> {h. h div SEGMENT_SPAN \<in> fst ` set (bd_segments d) \<and> log h \<noteq> None}"
    using seg by (auto simp: block_heights_def split: outcome.splits) fastforce+
  have B: "log h \<noteq> None" if "h \<in> fst ` set (bd_blocks d)" for h
  proof -
    from that obtain bytes where "map_of (bd_blocks d) h = Some bytes" by (metis map_of_eq_None_iff not_None_eq)
    with assms show ?thesis by (force simp: log_inv_def files_ok_def)
  qed
  have C: "h \<in> fst ` set (bd_blocks d) \<or> h div SEGMENT_SPAN \<in> fst ` set (bd_segments d)" if "log h \<noteq> None" for h
    using assms that unfolding log_inv_def by (metis map_of_eq_None_iff)
  have "h \<in> set (block_heights d) \<longleftrightarrow> log h \<noteq> None" for h unfolding A using B [of h] C [of h] by blast
  then have "set (block_heights d) = dom log" by (auto simp only: dom_def)
  then show ?thesis by (simp add: block_heights_def)
qed

interpretation block_log: block_store "\<lambda>d log. log_inv X snap log d" "load_block X" block_heights for X snap
  by unfold_locales (rule log_inv_loads log_inv_heights, assumption)+

section \<open>What each operation keeps\<close>

lemma seg_holds_cong:
  assumes "\<And>h. h div SEGMENT_SPAN = i \<Longrightarrow> log' h = log h"
  shows "seg_holds X log' i f = seg_holds X log i f"
  using assms by (simp add: seg_holds_def)

lemma log_inv_save:
  assumes "log_inv X snap log d" and "snap < sb_height b" and "de_block X (ser_block X b) = Some b" and "length (ser_block X b) < 2 ^ 32"
  shows "log_inv X snap (if fault = None \<or> fault = Some SyncDir then log(sb_height b \<mapsto> b) else log) (snd (save_block X fault b d))"
proof -
  let ?d = "snd (save_block X fault b d)" and ?h = "sb_height b"
  have m: "map_of (bd_blocks ?d) = (if fault = None \<or> fault = Some SyncDir then (map_of (bd_blocks d))(?h \<mapsto> ser_block X b) else map_of (bd_blocks d))"
    "bd_segments ?d = bd_segments d"
    by (simp_all add: save_block_def map_of_put_file [symmetric] split: prod.split)
  have far: "?h div SEGMENT_SPAN \<noteq> i" if "map_of (bd_segments d) i = Some f" for i f
    using assms(1,2) that unfolding log_inv_def by (metis leD)
  then have "seg_holds X (log(?h \<mapsto> b)) i f" if "map_of (bd_segments d) i = Some f" for i f
  proof -
    have "(log(?h \<mapsto> b)) h = log h" if "h div SEGMENT_SPAN = i" for h
      using far [OF \<open>map_of (bd_segments d) i = Some f\<close>] that by auto
    with seg_holds_cong [of i "log(?h \<mapsto> b)" log X f] assms(1) that show ?thesis unfolding log_inv_def by blast
  qed
  then show ?thesis
    using assms(1,3,4) by (auto simp: log_inv_def files_ok_def m)
qed

lemma log_inv_sub:
  assumes "log_inv X snap log d" and "map_of (bd_segments d') = map_of (bd_segments d)"
    and "\<And>h. map_of (bd_blocks d') h = map_of (bd_blocks d) h \<or> map_of (bd_blocks d') h = None \<and> map_of (bd_segments d) (h div SEGMENT_SPAN) \<noteq> None"
  shows "log_inv X snap log d'"
  using assms(1) assms(3) unfolding log_inv_def files_ok_def assms(2) by (metis option.distinct(1))

lemma remove_loop_sub:
  "bd_segments (snd (remove_loop stop hs n d)) = bd_segments d
    \<and> (\<forall>h. map_of (bd_blocks (snd (remove_loop stop hs n d))) h = map_of (bd_blocks d) h
        \<or> map_of (bd_blocks (snd (remove_loop stop hs n d))) h = None \<and> h \<in> set hs)"
proof (induction stop hs n d rule: remove_loop.induct)
  case (2 stop h hs n d)
  then show ?case by (cases stop) (auto simp: delete_conv' split: if_splits)
qed simp

lemma remove_loop_all:
  "length hs \<le> stop \<Longrightarrow> (\<exists>n'. fst (remove_loop stop hs n d) = Ok n') \<and> (\<forall>h \<in> set hs. map_of (bd_blocks (snd (remove_loop stop hs n d))) h = None)"
proof (induction stop hs n d rule: remove_loop.induct)
  case (2 stop h hs n d)
  have keep: "map_of (bd_blocks d') h = None \<Longrightarrow> map_of (bd_blocks (snd (remove_loop s hs n d'))) h = None" for s n d'
    using remove_loop_sub [of s hs n d'] by metis
  show ?case
  proof (cases "map_of (bd_blocks d) h")
    case None
    then show ?thesis using 2 keep by simp
  next
    case (Some bytes)
    from "2.prems" obtain m where "stop = Suc m" by (cases stop) auto
    then show ?thesis using 2 Some keep by (auto simp: delete_conv')
  qed
qed simp

definition lose_removals :: "(u64 \<Rightarrow> bool) \<Rightarrow> BlockDisk \<Rightarrow> BlockDisk \<Rightarrow> BlockDisk" where
  "lose_removals keep d d' = d'\<lparr>bd_blocks := bd_blocks d' @ filter (\<lambda>p. keep (fst p)) (bd_blocks d)\<rparr>"

lemma map_of_filter_key: "map_of (filter (\<lambda>p. P (fst p)) xs) k = (if P k then map_of xs k else None)"
  by (induction xs) auto

lemma lose_removals_blocks:
  "map_of (bd_blocks (lose_removals keep d d')) h = (case map_of (bd_blocks d') h of Some v \<Rightarrow> Some v | None \<Rightarrow> if keep h then map_of (bd_blocks d) h else None)"
  by (simp add: lose_removals_def map_add_def map_of_filter_key split: option.split)

lemma packed_holds:
  assumes "packed d (i * SEGMENT_SPAN) {..<1024} body idx" and "length body < 2 ^ 63" and "files_ok X log d"
    and "\<And>h. h div SEGMENT_SPAN = i \<Longrightarrow> map_of (bd_blocks d) h = None \<Longrightarrow> log h = None"
  shows "seg_holds X log i (segment_bytes body idx)"
proof -
  have ok: "seg_body_ok body idx" using assms(1,2) by (simp add: packed_def seg_body_ok_def)
  have "case log h of None \<Rightarrow> idx ! unat (h mod SEGMENT_SPAN) = 0
      | Some b \<Rightarrow> \<exists>bytes. frame_at body (idx ! unat (h mod SEGMENT_SPAN)) bytes \<and> de_block X bytes = Some b \<and> sb_height b = h"
    if h: "h div SEGMENT_SPAN = i" for h
  proof -
    let ?k = "unat (h mod SEGMENT_SPAN)"
    have fl: "block_file d (i * SEGMENT_SPAN) ?k = map_of (bd_blocks d) h"
      using span_decompose [of h] h by (simp add: block_file_def)
    have "case (if ?k \<in> {..<1024} then block_file d (i * SEGMENT_SPAN) ?k else None) of None \<Rightarrow> idx ! ?k = 0 | Some bytes \<Rightarrow> frame_at body (idx ! ?k) bytes"
      using assms(1) span_slot [of h] unfolding packed_def by blast
    then have c: "case map_of (bd_blocks d) h of None \<Rightarrow> idx ! ?k = 0 | Some bytes \<Rightarrow> frame_at body (idx ! ?k) bytes"
      using span_slot [of h] by (simp add: fl)
    show ?thesis
    proof (cases "map_of (bd_blocks d) h")
      case None
      with c assms(4) [OF h] show ?thesis by simp
    next
      case (Some bytes)
      with assms(3) obtain b where "de_block X bytes = Some b" "sb_height b = h" "log h = Some b" by (auto simp: files_ok_def)
      with c Some show ?thesis by auto
    qed
  qed
  with ok show ?thesis unfolding seg_holds_def by blast
qed

lemma log_inv_write_segment:
  fixes fault :: "WriteStep option"
  assumes "log_inv X snap log d" and "map_of (bd_segments d) i = None" and "\<And>h. h div SEGMENT_SPAN = i \<Longrightarrow> h \<le> snap" and "unat i < 2 ^ 54"
    and "packed d (i * SEGMENT_SPAN) {..<1024} body idx" and "length body < 2 ^ 63"
  defines "d1 \<equiv> snd (write_segment X fault i body idx d)"
  shows "log_inv X snap log d1" and "bd_blocks d1 = bd_blocks d"
    and "fst (write_segment X fault i body idx d) = Ok u \<Longrightarrow> map_of (bd_segments d1) i \<noteq> None"
proof -
  have m: "map_of (bd_segments d1) = (if fault = None \<or> fault = Some SyncDir then (map_of (bd_segments d))(i \<mapsto> segment_bytes body idx) else map_of (bd_segments d))"
    unfolding d1_def write_segment_def by (simp add: map_of_put_file [symmetric] Let_def split: prod.split outcome.split)
  show b: "bd_blocks d1 = bd_blocks d" unfolding d1_def write_segment_def by (simp add: Let_def split: prod.split outcome.split)
  have "files_ok X log d" "\<And>h. h div SEGMENT_SPAN = i \<Longrightarrow> map_of (bd_blocks d) h = None \<Longrightarrow> log h = None"
    using assms(1,2) unfolding log_inv_def by auto
  then have "seg_holds X log i (segment_bytes body idx)" by (rule packed_holds [OF assms(5,6)])
  then show "log_inv X snap log d1" using assms(1,3,4) unfolding log_inv_def files_ok_def b m by (auto split: if_splits)
  show "map_of (bd_segments d1) i \<noteq> None" if "fst (write_segment X fault i body idx d) = Ok u"
  proof -
    have "fst (put_file fault i (segment_bytes body idx) (bd_segments d)) = Ok ()"
      using that unfolding write_segment_def by (auto split: prod.splits outcome.splits)
    then show ?thesis unfolding m put_file_Ok_iff by simp
  qed
qed

lemma pack_span:
  assumes "log_inv X snap log d"
  shows "\<exists>body idx present. pack_loop X d (i * SEGMENT_SPAN) [0..<1024] (SEGMENT_MAGIC, replicate 1024 0, 0) = Ok (body, idx, present)
    \<and> packed d (i * SEGMENT_SPAN) {..<1024} body idx \<and> length body < 2 ^ 63
    \<and> present = length (filter (\<lambda>k. block_file d (i * SEGMENT_SPAN) k \<noteq> None) [0..<1024])"
proof -
  have f: "files_ok X log d" using assms by (simp add: log_inv_def)
  have p: "packed d (i * SEGMENT_SPAN) {} SEGMENT_MAGIC (replicate 1024 0)" by (simp add: packed_def)
  have b: "length SEGMENT_MAGIC + length [0..<1024] * (2 ^ 32 + 4) < 2 ^ 63" by simp
  have k: "set [0..<1024] \<subseteq> {..<1024 :: nat}" "distinct [0..<1024]" "set [0..<1024] \<inter> {} = ({} :: nat set)" by auto
  from pack_loop_packs [OF f k p b, of 0] obtain body idx present
    where r: "pack_loop X d (i * SEGMENT_SPAN) [0..<1024] (SEGMENT_MAGIC, replicate 1024 0, 0) = Ok (body, idx, present)"
      "packed d (i * SEGMENT_SPAN) ({} \<union> set [0..<1024]) body idx" "length body \<le> length SEGMENT_MAGIC + length [0..<1024] * (2 ^ 32 + 4)"
      "present = 0 + length (filter (\<lambda>k. block_file d (i * SEGMENT_SPAN) k \<noteq> None) [0..<1024])" by blast
  have "packed d (i * SEGMENT_SPAN) {..<1024} body idx" using r(2) by (simp only: Un_empty_left set_upt lessThan_atLeast0)
  moreover have "length body < 2 ^ 63" using r(3) b by linarith
  ultimately show ?thesis using r(1,4) by auto
qed

lemma span_heights_in: "unat i < 2 ^ 54 \<Longrightarrow> h \<in> set (map (\<lambda>k. i * SEGMENT_SPAN + of_nat k) [0..<1024]) \<Longrightarrow> h div SEGMENT_SPAN = i"
  using in_span(1) by auto

lemma log_inv_remove:
  assumes "log_inv X snap log d" and "\<And>h. h \<in> set hs \<Longrightarrow> map_of (bd_segments d) (h div SEGMENT_SPAN) \<noteq> None"
  shows "log_inv X snap log (snd (remove_loop stop hs n d))"
  using remove_loop_sub [of stop hs n d] assms(2) by (intro log_inv_sub [OF assms(1)]) auto

lemma log_inv_retire:
  assumes "log_inv X snap log d" and "map_of (bd_segments d) i \<noteq> None" and "unat i < 2 ^ 54"
  shows "log_inv X snap log (snd (remove_loop stop (map (\<lambda>k. i * SEGMENT_SPAN + of_nat k) [0..<1024]) n d))"
  using assms(2) span_heights_in [OF assms(3)] by (intro log_inv_remove [OF assms(1)]) metis

lemma log_inv_lose:
  assumes "log_inv X snap log d" and "log_inv X snap log d'"
  shows "log_inv X snap log (lose_removals keep d d')"
proof -
  have "files_ok X log (lose_removals keep d d')"
    using assms unfolding files_ok_def log_inv_def lose_removals_blocks by (auto split: option.splits if_splits)
  moreover have "map_of (bd_blocks (lose_removals keep d d')) h = None \<Longrightarrow> map_of (bd_blocks d') h = None" for h
    unfolding lose_removals_blocks by (simp split: option.splits)
  moreover have "bd_segments (lose_removals keep d d') = bd_segments d'" by (simp add: lose_removals_def)
  ultimately show ?thesis using assms(2) unfolding log_inv_def by metis
qed

lemma log_inv_compact:
  assumes "log_inv X snap log d" and "\<And>h. h div SEGMENT_SPAN = i \<Longrightarrow> h \<le> snap" and "unat i < 2 ^ 54"
  shows "log_inv X snap log (lose_removals keep d (snd (compact_segment X fault stop i d)))"
proof -
  let ?d = "snd (compact_segment X fault stop i d)"
  have inv: "log_inv X snap log ?d"
  proof (cases "map_of (bd_segments d) i")
    case (Some f)
    then show ?thesis using log_inv_retire [OF assms(1) _ assms(3)] by (simp add: compact_segment_def Let_def)
  next
    case None
    from pack_span [OF assms(1)] obtain body idx present
      where p: "pack_loop X d (i * SEGMENT_SPAN) [0..<1024] (SEGMENT_MAGIC, replicate 1024 0, 0) = Ok (body, idx, present)"
        "packed d (i * SEGMENT_SPAN) {..<1024} body idx" "length body < 2 ^ 63" by blast
    note w = log_inv_write_segment [OF assms(1) None assms(2,3) p(2,3), of fault]
    obtain r d1 where wr: "write_segment X fault i body idx d = (r, d1)" by fastforce
    have "log_inv X snap log d1" "r = Ok u \<Longrightarrow> map_of (bd_segments d1) i \<noteq> None" for u using w by (simp_all add: wr)
    then show ?thesis
      using log_inv_retire [OF _ _ assms(3), of X snap log d1 stop 0] assms(1)
      by (cases r) (simp_all add: compact_segment_def Let_def None p(1) wr)
  qed
  from log_inv_lose [OF assms(1) inv] show ?thesis .
qed

definition prune_log :: "u64 \<Rightarrow> u64 \<Rightarrow> BlockDisk \<Rightarrow> (u64 \<rightharpoonup> StoredBlock) \<Rightarrow> (u64 \<rightharpoonup> StoredBlock)" where
  "prune_log tip_h retain d log =
     (if retain = 0 \<or> tip_h \<le> retain then log
      else (\<lambda>h. if h div SEGMENT_SPAN < (tip_h - retain) div SEGMENT_SPAN \<and> map_of (bd_blocks d) h = None then None else log h))"

lemma log_inv_prune:
  assumes "log_inv X snap log d"
  shows "log_inv X snap (prune_log tip_h retain d log) (snd (prune_below tip_h retain d))"
proof (cases "retain = 0 \<or> tip_h \<le> retain")
  case True
  then show ?thesis using assms by (auto simp: prune_log_def prune_below_def)
next
  case False
  let ?k = "(tip_h - retain) div SEGMENT_SPAN" and ?d = "snd (prune_below tip_h retain d)" and ?log = "prune_log tip_h retain d log"
  have s: "map_of (bd_segments ?d) i = (if i < ?k then None else map_of (bd_segments d) i)" for i
    using False map_of_filter_key [of "\<lambda>i. \<not> i < ?k" "bd_segments d" i] by (simp add: prune_below_def Let_def)
  have b: "bd_blocks ?d = bd_blocks d" using False by (simp add: prune_below_def Let_def)
  have l: "?log h = (if h div SEGMENT_SPAN < ?k \<and> map_of (bd_blocks d) h = None then None else log h)" for h using False by (simp add: prune_log_def)
  have "seg_holds X ?log i f = seg_holds X log i f" if "\<not> i < ?k" for i f using that by (intro seg_holds_cong) (simp add: l)
  then show ?thesis
    using assms unfolding log_inv_def files_ok_def b s l by (auto split: if_splits)
qed

lemma prune_keeps_recent:
  assumes "tip_h - retain \<le> h"
  shows "prune_log tip_h retain d log h = log h"
proof -
  have "unat (tip_h - retain) div 1024 \<le> unat h div 1024" using assms by (simp add: word_le_nat_alt div_le_mono)
  then have "\<not> h div SEGMENT_SPAN < (tip_h - retain) div SEGMENT_SPAN" by (simp add: word_less_nat_alt unat_div SEGMENT_SPAN_def)
  then show ?thesis by (simp add: prune_log_def)
qed

section \<open>Runs\<close>

text \<open>A run of the log beside the abstract one: \<open>snap\<close> is the height of the snapshot, \<open>tip_h\<close> that of the last block. A save may fail at any step of the
  atomic write, a restart comes back at a height between the two, a compaction may fail or stop anywhere, and a loss of power may undo any of its removals.\<close>

inductive log_run :: "'x store_env_scheme \<Rightarrow> u64 \<Rightarrow> u64 \<Rightarrow> (u64 \<rightharpoonup> StoredBlock) \<Rightarrow> BlockDisk \<Rightarrow> bool" for X where
  run_empty: "log_run X 0 0 Map.empty \<lparr>bd_blocks = [], bd_segments = [], bd_wal = None\<rparr>"
| run_save: "log_run X snap tip_h log d \<Longrightarrow> tip_h < tip_h + 1 \<Longrightarrow> sb_height b = tip_h + 1
    \<Longrightarrow> de_block X (ser_block X b) = Some b \<Longrightarrow> length (ser_block X b) < 2 ^ 32
    \<Longrightarrow> log_run X snap (tip_h + 1) (if fault = None \<or> fault = Some SyncDir then log(tip_h + 1 \<mapsto> b) else log) (snd (save_block X fault b d))"
| run_snapshot: "log_run X snap tip_h log d \<Longrightarrow> log_run X tip_h tip_h log d"
| run_restart: "log_run X snap tip_h log d \<Longrightarrow> snap \<le> t \<Longrightarrow> t \<le> tip_h \<Longrightarrow> log_run X snap t log d"
| run_compact: "log_run X snap tip_h log d \<Longrightarrow> through \<le> snap \<Longrightarrow> i \<in> set (compactable_segments through d)
    \<Longrightarrow> log_run X snap tip_h log (lose_removals keep d (snd (compact_segment X fault stop i d)))"
| run_prune: "log_run X snap tip_h log d \<Longrightarrow> log_run X snap tip_h (prune_log h retain d log) (snd (prune_below h retain d))"

lemma log_inv_mono: "log_inv X snap log d \<Longrightarrow> snap \<le> s \<Longrightarrow> log_inv X s log d"
  unfolding log_inv_def by (auto intro: order_trans [of _ snap s])

lemma compactable_span:
  assumes "i \<in> set (compactable_segments through d)" and "through \<le> snap"
  shows "unat i < 2 ^ 54" and "h div SEGMENT_SPAN = i \<Longrightarrow> h \<le> snap"
proof -
  from assms(1) have "i \<in> (\<lambda>h. h div SEGMENT_SPAN) ` set (map fst (bd_blocks d))" and t: "(i + 1) * SEGMENT_SPAN - 1 \<le> through"
    by (auto simp: compactable_segments_def)
  then show "unat i < 2 ^ 54" using span_bound by auto
  show "h \<le> snap" if "h div SEGMENT_SPAN = i" using span_last [OF that] t assms(2) by (meson order_trans)
qed

lemma log_run_inv: "log_run X snap tip_h log d \<Longrightarrow> snap \<le> tip_h \<and> log_inv X snap log d"
proof (induction rule: log_run.induct)
  case run_empty
  show ?case by (simp add: log_inv_def files_ok_def)
next
  case (run_save snap tip_h log d b fault)
  then have "snap < sb_height b" "snap \<le> tip_h + 1" by auto
  with log_inv_save [of X snap log d b fault] run_save show ?case by (simp only:)
next
  case (run_compact snap tip_h log d through i keep fault stop)
  then show ?case using log_inv_compact compactable_span by blast
qed (auto simp: log_inv_prune intro: log_inv_mono)

section \<open>The admission log\<close>

definition wal_frames :: "'x store_env_scheme \<Rightarrow> SignedTx list \<Rightarrow> bytes" where
  "wal_frames X txs = concat (map (wal_frame X) txs)"

definition tx_codec :: "'x store_env_scheme \<Rightarrow> SignedTx \<Rightarrow> bool" where
  "tx_codec X tx \<longleftrightarrow> de_tx X (ser_tx X tx) = Some tx \<and> length (ser_tx X tx) < 2 ^ 32"

lemma wal_loop_done: "length bytes < off + 4 \<Longrightarrow> wal_loop X bytes off = []"
  by (subst wal_loop.simps) simp

lemma wal_loop_short:
  assumes "take 4 (drop off bytes) = u32_le (of_nat n)" and "n < 2 ^ 32" and "length bytes < off + 4 + n"
  shows "wal_loop X bytes off = []"
  using assms by (subst wal_loop.simps) (simp add: Let_def unat_of_nat)

lemma wal_loop_frame:
  assumes "tx_codec X tx" and "drop off bytes = wal_frame X tx @ rest"
  shows "wal_loop X bytes off = tx # wal_loop X bytes (off + length (wal_frame X tx))"
proof -
  let ?n = "length (ser_tx X tx)"
  have n: "unat (of_nat ?n :: u32) = ?n" using assms(1) by (simp add: tx_codec_def unat_of_nat)
  have d: "drop off bytes = u32_le (of_nat ?n) @ ser_tx X tx @ rest" using assms(2) by (simp add: wal_frame_def Let_def)
  have "length (drop off bytes) = 4 + ?n + length rest" unfolding d by simp
  then have l: "off + 4 + ?n \<le> length bytes" "off + 4 \<le> length bytes" by simp_all
  have "drop (off + 4) bytes = drop 4 (drop off bytes)" by (simp add: add.commute)
  then have t: "take ?n (drop (off + 4) bytes) = ser_tx X tx" unfolding d by simp
  have h: "take 4 (drop off bytes) = u32_le (of_nat ?n)" unfolding d by simp
  show ?thesis
    using assms(1) l by (subst wal_loop.simps) (simp add: Let_def h n t tx_codec_def wal_frame_def add.assoc)
qed

lemma wal_loop_frames:
  assumes "\<forall>tx \<in> set txs. tx_codec X tx" and "drop off bytes = wal_frames X txs @ rest"
  shows "wal_loop X bytes off = txs @ wal_loop X bytes (off + length (wal_frames X txs))"
  using assms
proof (induction txs arbitrary: off)
  case (Cons tx txs)
  have d: "drop off bytes = wal_frame X tx @ wal_frames X txs @ rest" using Cons.prems(2) by (simp add: wal_frames_def)
  have "drop (off + length (wal_frame X tx)) bytes = drop (length (wal_frame X tx)) (drop off bytes)" by (simp add: add.commute)
  then have "drop (off + length (wal_frame X tx)) bytes = wal_frames X txs @ rest" unfolding d by simp
  from Cons.IH [OF _ this] Cons.prems(1) wal_loop_frame [OF _ d] show ?case by (simp add: wal_frames_def add.assoc)
qed (simp add: wal_frames_def)

lemma wal_torn_tail:
  assumes "\<forall>tx \<in> set txs. tx_codec X tx" and "tx_codec X t" and "written < length (wal_frame X t)"
    and "length later + written < length (wal_frame X t)" and "4 \<le> written \<or> later = []"
  shows "wal_loop X (wal_frames X txs @ take written (wal_frame X t) @ later) 0 = txs"
proof -
  let ?bytes = "wal_frames X txs @ take written (wal_frame X t) @ later" and ?off = "length (wal_frames X txs)"
  let ?n = "length (ser_tx X t)"
  have f: "wal_frame X t = u32_le (of_nat ?n) @ ser_tx X t" by (simp add: wal_frame_def Let_def)
  have "wal_loop X ?bytes 0 = txs @ wal_loop X ?bytes ?off" using wal_loop_frames [OF assms(1), of 0 ?bytes] by simp
  moreover have "wal_loop X ?bytes ?off = []"
  proof (cases "4 \<le> written")
    case True
    have "take 4 (drop ?off ?bytes) = u32_le (of_nat ?n)" using True assms(3) by (simp add: f)
    moreover have "?n < 2 ^ 32" using assms(2) by (simp add: tx_codec_def)
    moreover have "length ?bytes < ?off + 4 + ?n" using assms(3,4) by (simp add: f)
    ultimately show ?thesis by (rule wal_loop_short)
  next
    case False
    then show ?thesis using assms(5) by (intro wal_loop_done) simp
  qed
  ultimately show ?thesis by simp
qed

section \<open>Compaction succeeds\<close>

lemma write_segment_verifies:
  assumes "log_inv X snap log d" and "map_of (bd_segments d) i = None" and "unat i < 2 ^ 54"
    and "packed d (i * SEGMENT_SPAN) {..<1024} body idx" and "length body < 2 ^ 63" and "block_file d (i * SEGMENT_SPAN) k \<noteq> None" and "k < 1024"
  shows "fst (write_segment X None i body idx d) = Ok ()"
proof -
  let ?p = "length (takeWhile (\<lambda>off. off = 0) idx)" and ?f = "segment_bytes body idx"
  have slots: "case block_file d (i * SEGMENT_SPAN) j of None \<Rightarrow> idx ! j = 0 | Some bytes \<Rightarrow> frame_at body (idx ! j) bytes" if "j < 1024" for j
  proof -
    have "case (if j \<in> {..<1024} then block_file d (i * SEGMENT_SPAN) j else None) of None \<Rightarrow> idx ! j = 0 | Some bytes \<Rightarrow> frame_at body (idx ! j) bytes"
      using assms(4) that unfolding packed_def by blast
    then show ?thesis using that by simp
  qed
  have l: "length idx = 1024" using assms(4) by (simp add: packed_def)
  have "idx ! k \<noteq> 0" using slots [OF assms(7)] assms(6) by (auto simp: frame_at_def)
  then have "?p \<le> k" by (metis (mono_tags, lifting) linorder_le_less_linear nth_mem set_takeWhileD takeWhile_nth)
  then have p: "?p < 1024" using assms(7) by simp
  then have "idx ! ?p \<noteq> 0" using nth_length_takeWhile [of "\<lambda>off. off = 0" idx] l by simp
  then obtain bytes where b: "map_of (bd_blocks d) (i * SEGMENT_SPAN + of_nat ?p) = Some bytes"
    using slots [OF p] by (auto simp: block_file_def split: option.splits)
  let ?h = "i * SEGMENT_SPAN + of_nat ?p :: u64"
  have files: "files_ok X log d" "\<And>h. h div SEGMENT_SPAN = i \<Longrightarrow> map_of (bd_blocks d) h = None \<Longrightarrow> log h = None"
    using assms(1,2) unfolding log_inv_def by auto
  obtain blk where log: "log ?h = Some blk" using files(1) b by (auto simp: files_ok_def)
  obtain files1 where w: "put_file None i ?f (bd_segments d) = (Ok (), files1)" "map_of files1 i = Some ?f"
    using map_of_put_file [of None i ?f "bd_segments d"] put_file_Ok_iff [of None i ?f "bd_segments d"]
    by (cases "put_file None i ?f (bd_segments d)") auto
  have h: "?h div SEGMENT_SPAN = i" using in_span(1) [OF assms(3) p] .
  have "seg_holds X log i ?f" by (rule packed_holds [OF assms(4,5) files])
  then have "load_from_segment X (d\<lparr>bd_segments := files1\<rparr>) ?h = Ok (log ?h)"
    by (intro seg_holds_loads [where f = ?f]) (simp_all add: h w(2))
  then show ?thesis using p l by (simp add: write_segment_def w(1) log)
qed

lemma compaction_succeeds:
  assumes "log_inv X snap log d" and "i \<in> set (compactable_segments through d)" and "through \<le> snap" and "1024 \<le> stop"
  shows "(\<exists>n. fst (compact_segment X None stop i d) = Ok n)
    \<and> (\<forall>h. h div SEGMENT_SPAN = i \<longrightarrow> map_of (bd_blocks (snd (compact_segment X None stop i d))) h = None)"
proof -
  note i = compactable_span [OF assms(2,3)]
  define hs where "hs = map (\<lambda>k. i * SEGMENT_SPAN + of_nat k) [0..<1024]"
  have mem: "h \<in> set hs" if "h div SEGMENT_SPAN = i" for h
    unfolding hs_def using span_slot [of h] span_decompose [of h] that by (metis (no_types, lifting) atLeastLessThan_iff image_eqI le0 set_map set_upt)
  have rm: "(\<exists>n. fst (remove_loop stop hs 0 e) = Ok n) \<and> (\<forall>h. h div SEGMENT_SPAN = i \<longrightarrow> map_of (bd_blocks (snd (remove_loop stop hs 0 e))) h = None)" for e
  proof -
    have "length hs \<le> stop" using assms(4) unfolding hs_def by (simp only: length_map length_upt)
    from remove_loop_all [OF this, of 0 e] mem show ?thesis by blast
  qed
  show ?thesis
  proof (cases "map_of (bd_segments d) i")
    case (Some f)
    then show ?thesis using rm [of d] by (simp add: compact_segment_def Let_def flip: hs_def)
  next
    case None
    from pack_span [OF assms(1)] obtain body idx present
      where p: "pack_loop X d (i * SEGMENT_SPAN) [0..<1024] (SEGMENT_MAGIC, replicate 1024 0, 0) = Ok (body, idx, present)"
        "packed d (i * SEGMENT_SPAN) {..<1024} body idx" "length body < 2 ^ 63"
        "present = length (filter (\<lambda>k. block_file d (i * SEGMENT_SPAN) k \<noteq> None) [0..<1024])" by blast
    from assms(2) obtain h where h: "h div SEGMENT_SPAN = i" "h \<in> fst ` set (bd_blocks d)" by (auto simp: compactable_segments_def)
    let ?k = "unat (h mod SEGMENT_SPAN)"
    have k: "block_file d (i * SEGMENT_SPAN) ?k \<noteq> None"
      using h span_decompose [of h] by (metis block_file_def map_of_eq_None_iff)
    then have "?k \<in> set (filter (\<lambda>k. block_file d (i * SEGMENT_SPAN) k \<noteq> None) [0..<1024])" using span_slot [of h] by (simp only: set_filter set_upt) simp
    then have pos: "present \<noteq> 0" unfolding p(4) by (metis length_0_conv list.set(1) empty_iff)
    obtain d1 where w: "write_segment X None i body idx d = (Ok (), d1)"
      using write_segment_verifies [OF assms(1) None i(1) p(2,3) k span_slot] by (metis prod.collapse)
    show ?thesis using rm [of d1] pos by (simp add: compact_segment_def Let_def None p(1) w flip: hs_def)
  qed
qed

text \<open>An existing segment is trusted: a block whose file was written after the segment, for a height the segment lacks, is removed by the next compaction and found no more.
  The runs above exclude this by saving only above the snapshot.\<close>

lemma late_block_is_lost:
  assumes "map_of (bd_segments d) i = Some f" and "seg_holds X log i f" and "unat i < 2 ^ 54" and "h div SEGMENT_SPAN = i" and "log h = None"
  shows "load_block X (snd (compact_segment X fault 1024 i d)) h = Ok None"
proof -
  define hs where "hs = map (\<lambda>k. i * SEGMENT_SPAN + of_nat k) [0..<1024]"
  let ?d = "snd (remove_loop 1024 hs 0 d)"
  have "h \<in> set hs"
    unfolding hs_def using span_slot [of h] span_decompose [of h] assms(4) by (metis (no_types, lifting) atLeastLessThan_iff image_eqI le0 set_map set_upt)
  moreover have "length hs \<le> 1024" by (simp add: hs_def)
  ultimately have b: "map_of (bd_blocks ?d) h = None" using remove_loop_all by blast
  have "map_of (bd_segments ?d) (h div SEGMENT_SPAN) = Some f" using remove_loop_sub [of 1024 hs 0 d] assms(1,4) by simp
  with assms(2,4,5) have "load_from_segment X ?d h = Ok None" using seg_holds_loads [of X log h f ?d] by simp
  with b have "load_block X ?d h = Ok None" by (simp add: load_block_def)
  then show ?thesis using assms(1) by (simp add: compact_segment_def Let_def flip: hs_def)
qed

section \<open>Sample encoding\<close>

definition sample_block :: StoredBlock where
  "sample_block = \<lparr>sb_height = 1, sb_value_bytes = [5],
     sb_certificate = \<lparr>cc_height = 1, cc_round = RoundNil, cc_value_id = 0, cc_signatures = []\<rparr>, sb_agg_valid = False\<rparr>"

definition store_tx :: "u64 \<Rightarrow> SignedTx" where
  "store_tx n = \<lparr>stx_sender = 1, stx_nonce = n, stx_payload = Transfer 2 7 30, stx_next_auth = 9, stx_lamport_pk = [], stx_sig = []\<rparr>"

definition sample_store :: store_env where
  "sample_store = \<lparr>ser_block = (\<lambda>b. u64_le (sb_height b)), de_block = (\<lambda>bs. Some (sample_block\<lparr>sb_height := u64_of bs\<rparr>)),
     ser_tx = (\<lambda>t. replicate (unat (stx_nonce t)) 0), de_tx = (\<lambda>bs. Some (store_tx (of_nat (length bs))))\<rparr>"

definition appended :: "'x store_env_scheme \<Rightarrow> SignedTx list \<Rightarrow> BlockDisk \<Rightarrow> BlockDisk" where
  "appended X txs d = foldl (\<lambda>d tx. wal_append X (length (wal_frame X tx)) tx d) d txs"

lemma appended_wal: "bd_wal d = Some bytes \<Longrightarrow> bd_wal (appended X txs d) = Some (bytes @ wal_frames X txs)"
  by (induction txs arbitrary: d bytes) (simp_all add: appended_def wal_append_def wal_frames_def)

section \<open>Properties\<close>

text \<open>C11: The files of the block log are a log. Over any run of saves that may fail, snapshots, restarts, compactions that fail or stop at any point, losses of power that bring
  removed files back, and retention passes, every lookup returns exactly the block last saved for the height, or nothing where none
  was, the listing of heights is ordered, free of duplicates and complete, and a restart that reads the heights above its snapshot gets
  exactly those blocks in order. Retention never touches a height within the span kept, and a
  compaction of complete history that meets no fault succeeds and retires every single file of its span.\<close>

theorem block_log_refines:
  assumes "log_run X snap tip_h log d"
  shows "(\<forall>h. load_block X d h = Ok (log h))
    \<and> sorted (block_heights d) \<and> distinct (block_heights d) \<and> set (block_heights d) = dom log
    \<and> (\<forall>s. load_all (load_block X) d (filter (\<lambda>h. s < h) (block_heights d)) = Ok (map (\<lambda>h. the (log h)) (filter (\<lambda>h. s < h) (block_heights d))))
    \<and> (\<forall>t retain h. t - retain \<le> h \<longrightarrow> load_block X (snd (prune_below t retain d)) h = Ok (log h))
    \<and> (\<forall>through i. through \<le> snap \<and> i \<in> set (compactable_segments through d) \<longrightarrow>
         (\<exists>n. fst (compact_segment X None 1024 i d) = Ok n)
         \<and> (\<forall>h. h div SEGMENT_SPAN = i \<longrightarrow> map_of (bd_blocks (snd (compact_segment X None 1024 i d))) h = None))"
proof -
  have inv: "log_inv X snap log d" using log_run_inv [OF assms] by simp
  have P: "load_block X (snd (prune_below t retain d)) h = Ok (log h)" if "t - retain \<le> h" for t retain h
    using log_inv_loads [OF log_inv_prune [OF inv]] prune_keeps_recent [OF that] by simp
  note C = compaction_succeeds [OF inv _ _ order_refl]
  show ?thesis
    by (intro conjI allI impI; (elim conjE)?) (simp_all add: block_log.load_ok [OF inv] block_log.heights_ok [OF inv] block_log.suffix_ok [OF inv] P C)
qed

theorem block_log_refines_witness:
  "load_block sample_store (snd (save_block sample_store None sample_block \<lparr>bd_blocks = [], bd_segments = [], bd_wal = None\<rparr>)) 1 = Ok (Some sample_block)"
proof -
  have b: "sb_height sample_block = 0 + 1" "(0 :: u64) < 0 + 1" "de_block sample_store (ser_block sample_store sample_block) = Some sample_block"
    "length (ser_block sample_store sample_block) < 2 ^ 32"
    by (simp_all add: sample_block_def sample_store_def)
  from block_log_refines [OF run_save [OF run_empty b(2,1,3,4), where fault = None]] show ?thesis by simp
qed

text \<open>C34: Admissions survive a crash. What was appended to the admission log since its last reset is returned by the next load in
  order, also when the process dies in the middle of one more append; and a reset leaves exactly the transactions it was given.\<close>

theorem wal_returns_admissions:
  assumes "\<forall>tx \<in> set txs. tx_codec X tx" and "\<forall>tx \<in> set olds. tx_codec X tx" and "tx_codec X t" and "written < length (wal_frame X t)"
  shows "let d1 = snd (wal_reset X None olds d) in
      wal_load X d1 = olds
      \<and> wal_load X (appended X txs d1) = olds @ txs
      \<and> wal_load X (wal_append X written t (appended X txs d1)) = olds @ txs"
proof -
  let ?d = "snd (wal_reset X None olds d)"
  have w: "bd_wal ?d = Some (wal_frames X olds)" by (simp add: wal_reset_def write_atomic_def wal_frames_def)
  have f: "wal_frames X olds @ wal_frames X txs = wal_frames X (olds @ txs)" by (simp add: wal_frames_def)
  have c: "\<forall>tx \<in> set (olds @ txs). tx_codec X tx" using assms(1,2) by auto
  have l: "wal_loop X (wal_frames X us) 0 = us" if "\<forall>tx \<in> set us. tx_codec X tx" for us
    using wal_loop_frames [OF that, of 0 _ "[]"] by (simp add: wal_loop_done)
  have "wal_load X (wal_append X written t (appended X txs ?d)) = olds @ txs"
    using wal_torn_tail [OF c assms(3,4), of "[]"] assms(4)
    by (simp add: wal_load_def wal_append_def appended_wal [OF w] f)
  moreover have "wal_load X ?d = olds" "wal_load X (appended X txs ?d) = olds @ txs"
    using l [OF assms(2)] l [OF c] by (simp_all add: wal_load_def w appended_wal [OF w] f)
  ultimately show ?thesis by (simp add: Let_def)
qed

theorem wal_returns_admissions_witness:
  "wal_load sample_store (wal_append sample_store 3 (store_tx 9) (appended sample_store [store_tx 2, store_tx 1]
     (snd (wal_reset sample_store None [store_tx 4] \<lparr>bd_blocks = [], bd_segments = [], bd_wal = None\<rparr>)))) = [store_tx 4, store_tx 2, store_tx 1]"
  using wal_returns_admissions [of "[store_tx 2, store_tx 1]" sample_store "[store_tx 4]" "store_tx 9" 3 "\<lparr>bd_blocks = [], bd_segments = [], bd_wal = None\<rparr>"]
  by (simp add: tx_codec_def sample_store_def store_tx_def wal_frame_def Let_def)

text \<open>C38: A torn frame hides what follows it. The log is not cut back when it is loaded after a crash, so admissions appended behind the torn frame
  are swallowed by it: as long as they are shorter than what the torn frame still announces, the next load returns only what was
  there before the crash, although every one of them was written completely.\<close>

theorem torn_frame_hides_admissions:
  assumes "\<forall>tx \<in> set txs. tx_codec X tx" and "tx_codec X t" and "4 \<le> written"
    and "length (concat (map (wal_frame X) later)) + written < length (wal_frame X t)"
  shows "wal_load X (appended X later (wal_append X written t (appended X txs (d\<lparr>bd_wal := Some []\<rparr>)))) = txs"
proof -
  have w: "bd_wal (appended X txs (d\<lparr>bd_wal := Some []\<rparr>)) = Some (wal_frames X txs)"
    using appended_wal [of "d\<lparr>bd_wal := Some []\<rparr>" "[]"] by simp
  have "bd_wal (wal_append X written t (appended X txs (d\<lparr>bd_wal := Some []\<rparr>))) = Some (wal_frames X txs @ take written (wal_frame X t))"
    by (simp add: wal_append_def w)
  from appended_wal [OF this] have "bd_wal (appended X later (wal_append X written t (appended X txs (d\<lparr>bd_wal := Some []\<rparr>))))
      = Some (wal_frames X txs @ take written (wal_frame X t) @ wal_frames X later)" by simp
  then show ?thesis
    using wal_torn_tail [OF assms(1,2), of written "wal_frames X later"] assms(3,4) by (simp add: wal_load_def wal_frames_def)
qed

theorem torn_frame_hides_admissions_witness:
  "wal_load sample_store (appended sample_store [store_tx 3] (wal_append sample_store 10 (store_tx 90)
     (appended sample_store [store_tx 2] (\<lparr>bd_blocks = [], bd_segments = [], bd_wal = None\<rparr>\<lparr>bd_wal := Some []\<rparr>)))) = [store_tx 2]"
  by (rule torn_frame_hides_admissions) (simp_all add: tx_codec_def sample_store_def store_tx_def wal_frame_def Let_def)

end
