(* ===== verification/Spec2Isabelle.thy ===== *)
theory Spec2Isabelle
  imports HK_Properties HK_SetChange HK_Restart HK_BridgeFaults HK_OneTime HK_ShieldRuns HK_Streaming HK_BlockRuns
begin

text \<open>
  A verification library for HashKinetics, a layer-one chain with hash-based signatures, spending mandates, payment channels, issued
  assets and shielded pools, and for the services around it. The Rust sources are under \<^verbatim>\<open>src/chain/crates\<close> and
  \<^verbatim>\<open>src/zkvm-bakeoff/circuit\<close>; of the vendored code only the leaf bookkeeping of \<^verbatim>\<open>hbs-lms\<close> and the stream message of the consensus engine are modelled.

  \<^bold>\<open>The program.\<close> A wallet signs envelopes with a ratchet of one-time Lamport keys. The node's door checks them and queues them in an indexed
  mempool. A proposer fills a batch from the queue, frames it as a block value and streams it in parts; validators reassemble it, sign votes with
  stateful hash-based keys and, once it is decided, commit it: the state machine executes its transactions in order on the ledger, with verdicts on the
  signatures computed beforehand in parallel, and the node records receipts, indexes, key rotations and changes of the validator set. The block
  goes to a log on disk from which a restart replays. Shielded pools keep note commitments in an incremental Merkle tree; spends prove a statement of a zero-knowledge
  circuit. Wallets scan the pool for notes sealed to them. A bridge service watches Ethereum and the chain and mints or releases.

  \<^bold>\<open>Theories and sources\<close>, in the order of their imports:
  \<^item> \<^verbatim>\<open>HK_Prelude\<close>: outcomes of Rust calls (value, error, panic), the question mark operator on state-passing steps, machine integers with checked and saturating
    arithmetic, byte encodings, the locales \<open>two_phase\<close> and \<open>transactional\<close>. \<^verbatim>\<open>HK_Containers\<close>: ordered maps and sets with the locale \<open>kv_store\<close>.
  \<^item> \<^verbatim>\<open>HK_Primitives\<close> (\<^verbatim>\<open>hk-primitives\<close>), \<^verbatim>\<open>HK_Hash\<close>, \<^verbatim>\<open>HK_Payword\<close>, \<^verbatim>\<open>HK_Lamport\<close> (\<^verbatim>\<open>hk-crypto\<close> of the same names), \<^verbatim>\<open>HK_Mandate\<close> (\<^verbatim>\<open>hk-mandate\<close>): the mandate tree
    with attenuation, buckets and revocation.
  \<^item> \<^verbatim>\<open>HK_Merkle\<close>, \<^verbatim>\<open>HK_Circuit\<close> (\<^verbatim>\<open>circuit/src/lib.rs\<close>, \<^verbatim>\<open>agg.rs\<close>), \<^verbatim>\<open>HK_Pool\<close> and \<^verbatim>\<open>HK_Assets\<close> (\<^verbatim>\<open>hk-state/src/pool.rs\<close>, \<^verbatim>\<open>assets.rs\<close>): the locale
    \<open>append_only_tree\<close> is the contract between pool and circuit.
  \<^item> \<^verbatim>\<open>HK_Tx\<close>, \<^verbatim>\<open>HK_State\<close> (\<^verbatim>\<open>hk-state/src/tx.rs\<close>, \<^verbatim>\<open>lib.rs\<close>): the ledger as the record \<open>State\<close>, one \<open>do_\<close> definition per payload, \<open>apply_tx_at\<close>,
    \<open>apply_block_verified\<close>, genesis and snapshots. \<^verbatim>\<open>HK_Handlers\<close>, \<^verbatim>\<open>HK_Ledger\<close>, \<^verbatim>\<open>HK_Conservation\<close>, \<^verbatim>\<open>HK_Blocks\<close>, \<^verbatim>\<open>HK_Chain\<close> hold one rule per handler, the invariants \<open>state_ok\<close> and
    \<open>conserved\<close>, their preservation and the chain states reachable from genesis; \<^verbatim>\<open>HK_Properties\<close> the ledger's properties.
  \<^item> \<^verbatim>\<open>HK_Consensus\<close>, \<^verbatim>\<open>HK_SetChange\<close> (\<^verbatim>\<open>hk-consensus/src/context.rs\<close>, \<^verbatim>\<open>rotation.rs\<close>, \<^verbatim>\<open>setchange.rs\<close>): votes, proposals, validator sets, rotation and set-change certificates.
  \<^item> \<^verbatim>\<open>HK_Mempool\<close>, \<^verbatim>\<open>HK_Proposer\<close> (\<^verbatim>\<open>hk-node/src/mempool.rs\<close> and the pick of \<^verbatim>\<open>state.rs\<close>), \<^verbatim>\<open>HK_Batch\<close> (\<^verbatim>\<open>batch.rs\<close>), \<^verbatim>\<open>HK_Node\<close>, \<^verbatim>\<open>HK_Restart\<close> (\<^verbatim>\<open>state.rs\<close>): the application as the record
    \<open>HkApp\<close>, proposing, committing, rotations, set changes and replay. \<^verbatim>\<open>HK_Streaming\<close> (\<^verbatim>\<open>streaming.rs\<close>) cuts and reassembles proposals; \<^verbatim>\<open>HK_BlockLog\<close> and \<^verbatim>\<open>HK_BlockRuns\<close> (\<^verbatim>\<open>store.rs\<close>)
    keep blocks and admissions on disk, with the locale \<open>block_store\<close> between the log and its readers.
  \<^item> \<^verbatim>\<open>HK_Signer\<close>, \<^verbatim>\<open>HK_OneTime\<close> (\<^verbatim>\<open>hk-crypto/src/traits.rs\<close>, \<^verbatim>\<open>fsutil.rs\<close>, \<^verbatim>\<open>hashsig.rs\<close>, \<^verbatim>\<open>hk-consensus/src/hashsig_scheme.rs\<close>, \<^verbatim>\<open>provider.rs\<close>): the validator's signer over
    its state file; the locale \<open>one_time_keys\<close> is interpreted on the leaf budget, on the signer and, further down, on the wallet.
  \<^item> \<^verbatim>\<open>HK_Json\<close>, \<^verbatim>\<open>HK_Eth\<close>, \<^verbatim>\<open>HK_Bridge\<close>, \<^verbatim>\<open>HK_Attest\<close>, \<^verbatim>\<open>HK_Escrow\<close>, \<^verbatim>\<open>HK_Journal\<close>, \<^verbatim>\<open>HK_BridgeRuns\<close>, \<^verbatim>\<open>HK_BridgeFaults\<close> (\<^verbatim>\<open>hk-node/src/eth.rs\<close>, \<^verbatim>\<open>attest.rs\<close>): the bridge service, its co-signer and operator tool
    over a world that answers anything at every moment and may kill the process after any effect; the last of them runs the service against the state machine.
  \<^item> \<^verbatim>\<open>HK_Wallet\<close>, \<^verbatim>\<open>HK_Payments\<close> (\<^verbatim>\<open>hk-crypto/src/noteenc.rs\<close>, \<^verbatim>\<open>mlkem.rs\<close>, \<^verbatim>\<open>hk-wallet/src/lib.rs\<close>): addresses, sealed outputs, the scanner, disclosure and spends.
    \<^verbatim>\<open>HK_Shield\<close> (\<^verbatim>\<open>hk-wallet-core/src/shield.rs\<close> and the pages of the pool feed in \<^verbatim>\<open>hk-node/src/rpc.rs\<close>): the record \<open>ShieldFile\<close> with its reserved counters and scan caches and the flows of the phone and
    desktop wallet; \<^verbatim>\<open>HK_ScanRuns\<close> and \<^verbatim>\<open>HK_ShieldRuns\<close> their runs, the former with the inductive relation \<open>observed\<close> of scans against a growing chain.

  \<^bold>\<open>What the lemmas show.\<close>
  \<^item> Ledger: holdings of a registered asset, summed without saturation, equal supply minus burns minus burned fees in every state reached from a genesis that gave out less than \<open>2 ^ 128\<close> units of it (none, if it did not register
    the asset), as long as no accepted unshielding took more out of a pool than it held, which the proofs of spends are trusted for; a transaction commits or leaves no trace; blocks are total; only the sender or the funder of a
    mandate the sender holds is debited; an accepted envelope is refused through all later blocks until its nonce would come round
    after \<open>2 ^ 64\<close> transactions, a nullifier for ever; a settlement moves exactly the price of the new steps from the escrow to the payee; pauses and freezes bind; parallel verdicts change nothing.
  \<^item> Mandates: outflow through a node is bounded by buffer plus rate, revocation cascades, children attenuate their parents.
  \<^item> Consensus and node: quorums intersect, set changes keep the set well formed, rotations advance, every seat takes its turn, the mempool's indexes stay true, its door admits what the chain's own check passes up to the door's own limits,
    proposals respect budgets and their envelopes pass; a committed batch is a block of the state machine and a replay rebuilds the node; a streamed proposal arrives whole in any order; the files of the block
    log refine a map from heights to blocks through failing writes, interrupted compactions and losses of power.
  \<^item> Signing: no leaf signs twice through kills and power losses; the cached signer is the uncached one; votes verify.
  \<^item> Bridge: mints are backed by reported events behind a safe head computed from the provider's answers, whatever the network, the disk and the operator do; nothing is paid twice if what arrived is not answered as failed and the operator
    returns a record only when nothing was sent for it; the ledger is a journal whose memory follows its file; co-signers vouch only for what their own node reports.
  \<^item> Wallet: a payment is found, can be spent against the chain's root, and can be disclosed; a disclosure that shows another note contains a collision of the hash; through failing writes and crashes the incremental scan shows every
    note once with its spent state, and no leaf of the spend tree signs two spends.
  \<^item> Errors shown: a lost answer leads to two accepted mints for one deposit, a deposit removed by a reorganisation is minted, a torn frame of the admission log hides later admissions, and finished streams stay in memory.

  \<^bold>\<open>Parameters.\<close> Code outside the repository enters as fields of environment records that extend each other: \<open>hash_env\<close> (SHAKE-256 as an extendable output, SHA-256), \<open>tx_env\<close> and \<open>state_env\<close> (canonical encoders),
  \<open>node_env\<close>, \<open>wire_env\<close>, \<open>app_env\<close> (batch encoders), \<open>root_env\<close> (SLH-DSA), \<open>hss_env\<close> (LMS signature bytes), \<open>eth_env\<close> and \<open>bridge_env\<close> (Keccak, secp256k1, hex, JSON text), \<open>kem_env\<close> (ML-KEM), \<open>shield_env\<close> (hex), \<open>store_env\<close> (binary encoding of blocks
  and transactions). A theorem names what it needs of them (an encoder that decodes what it encodes, an output of the length asked for, a decapsulation that returns the encapsulated secret, a verifier that
  accepts what the signer made) and its witness gives a concrete environment where that holds. No theorem assumes that a hash is injective; where collisions matter the conclusion gives
  the colliding inputs, taken from what is at hand (the note a disclosure shows, the pairs \<open>path_clash\<close> finds on two paths), or the statement is about the bytes hashed.

  \<^bold>\<open>Bounds and fuel.\<close> Integers are words of their width; additions wrap, saturate or fail as written in the code. The paging loops of the bridge take as fuel the number of effects the process has left before it is killed; each round
  takes one at least, so fuel never ends before the process does (\<open>scan_ends_by_itself\<close>). The paging loop of the wallet ends because its cursor grows below \<open>2 ^ 64\<close>; the loop over the admission log and all others end by a measure or by structure. File writes stop at any of the five steps of \<open>write_atomic\<close>.
  Trees hold at most \<open>2 ^ 32 - 1\<close> leaves, addresses at most \<open>2 ^ 10\<close> one-time keys, segments 1024 heights with frames below \<open>2 ^ 32\<close> bytes, as in the code.

  \<^bold>\<open>Not modelled.\<close> The consensus engine, libp2p and all other vendored code, the zero-knowledge proof systems and their host and guest programs, the RPC server apart from the pages of the pool feed, the command line, the faucet, demos, benchmarks and
  load generators, key generation files and configuration, the wire codecs of the engine's messages (generated and library encodings), the user interface, account files, vault and network client of the desktop and phone wallets and the wallet's prover and submission calls, the demonstration merchant, the
  Solidity contracts of the bridge: they are input and output, user interface, or code in other languages around the definitions above. Threads are modelled where the code shares state in steps (the bridge's world, interleaved receptions); locks are taken to make the
  rest atomic, and the operations of one wallet run one at a time. Of the disk these failures are left out: a question whether a file exists that is not answered (\<open>path.exists()\<close> is then false), a line of the bridge's ledger torn
  in the middle, a block or segment file that was seen and is lost with the power, a removal that fails in a retention pass, and a block file that is there and cannot be read.
\<close>

end
